(* ===== verification/Cxx_Prelude.thy ===== *)
theory Cxx_Prelude
  imports Main "HOL-Library.Word" "HOL-Library.Multiset"
begin

text \<open>
  Shared vocabulary of the development: what a C++ statement of the sources can do besides
  returning a value, checked access to a \<open>std::vector\<close>, the arithmetic of \<open>size_t\<close> and of
  \<open>int\<close>, and the generic lemmas on lists that the components use.
\<close>

named_theorems res_simps \<open>rewriting of results\<close>

section \<open>Results\<close>

text \<open>
  A failed \<open>assert\<close>, an uncaught exception and the undefined behaviours the sources can run
  into are values of \<open>cxx_error\<close>. A computation returns \<open>Inl e\<close> when it fails, \<open>Inr x\<close> when it
  returns \<open>x\<close>. \<open>No_Return\<close> is the answer of a loop whose fuel has run out.
\<close>

datatype cxx_error =
    Assert_Failed
  | Out_Of_Bounds
  | Null_Deref
  | Signed_Overflow
  | Conversion_Error
  | Uncaught_Exception string
  | Self_Deadlock
  | Process_Exit
  | Division_By_Zero
  | Uninit_Read
  | Use_After_Free
  | Double_Unlock
  | No_Return

type_synonym 'a res = "cxx_error + 'a"

fun bind_res :: "'a res \<Rightarrow> ('a \<Rightarrow> 'b res) \<Rightarrow> 'b res" where
  "bind_res (Inl e) f = Inl e"
| "bind_res (Inr x) f = f x"

definition assert_res :: "bool \<Rightarrow> unit res" where
  "assert_res b = (if b then Inr () else Inl Assert_Failed)"

lemma bind_res_cong [fundef_cong]:
  "m = m' \<Longrightarrow> (\<And>x. m' = Inr x \<Longrightarrow> f x = f' x) \<Longrightarrow> bind_res m f = bind_res m' f'"
  by (cases m') auto

lemma bind_res_eq_Inr [res_simps]:
  "bind_res m f = Inr y \<longleftrightarrow> (\<exists>x. m = Inr x \<and> f x = Inr y)"
  by (cases m) auto

lemma bind_res_eq_Inl [res_simps]:
  "bind_res m f = Inl e \<longleftrightarrow> m = Inl e \<or> (\<exists>x. m = Inr x \<and> f x = Inl e)"
  by (cases m) auto

lemma bind_res_assoc: "bind_res (bind_res m f) g = bind_res m (\<lambda>x. bind_res (f x) g)"
  by (cases m) auto

lemma assert_res_True [simp]: "b \<Longrightarrow> assert_res b = Inr ()"
  by (simp add: assert_res_def)

lemma assert_res_False [simp]: "\<not> b \<Longrightarrow> assert_res b = Inl Assert_Failed"
  by (simp add: assert_res_def)

lemma assert_res_eq_Inr [res_simps]: "assert_res b = Inr u \<longleftrightarrow> b"
  by (auto simp: assert_res_def)

text \<open>
  \<open>res_all P m\<close>: a result that is not a failure satisfies \<open>P\<close>. The rules of \<open>res_post\<close> take a
  computation apart along its statements.
\<close>

named_theorems res_post \<open>introduction rules for postconditions\<close>

definition res_all :: "('a \<Rightarrow> bool) \<Rightarrow> 'a res \<Rightarrow> bool" where
  "res_all P m \<longleftrightarrow> (\<forall>x. m = Inr x \<longrightarrow> P x)"

lemma res_all_Inr [res_post]: "P x \<Longrightarrow> res_all P (Inr x)"
  by (simp add: res_all_def)

lemma res_all_Inl [res_post]: "res_all P (Inl e)"
  by (simp add: res_all_def)

lemma res_all_bind [res_post]: "(\<And>x. m = Inr x \<Longrightarrow> res_all P (f x)) \<Longrightarrow> res_all P (bind_res m f)"
  by (auto simp: res_all_def res_simps)

lemma res_all_if [res_post]:
  "(b \<Longrightarrow> res_all P m) \<Longrightarrow> (\<not> b \<Longrightarrow> res_all P n) \<Longrightarrow> res_all P (if b then m else n)"
  by simp

lemma res_all_option [res_post]:
  "(x = None \<Longrightarrow> res_all P m) \<Longrightarrow> (\<And>y. x = Some y \<Longrightarrow> res_all P (f y)) \<Longrightarrow>
   res_all P (case x of None \<Rightarrow> m | Some y \<Rightarrow> f y)"
  by (cases x) auto

lemma res_all_prod [res_post]:
  "(\<And>a b. x = (a, b) \<Longrightarrow> res_all P (f a b)) \<Longrightarrow> res_all P (case x of (a, b) \<Rightarrow> f a b)"
  by (cases x) auto

lemma res_allD: "res_all P m \<Longrightarrow> m = Inr x \<Longrightarrow> P x"
  by (simp add: res_all_def)

section \<open>Vectors\<close>

text \<open>
  \<open>v[i]\<close> on a \<open>std::vector\<close> or an array is not checked by the program; reading or writing
  outside is undefined and is the error \<open>Out_Of_Bounds\<close> here.
\<close>

definition vget :: "'a list \<Rightarrow> nat \<Rightarrow> 'a res" where
  "vget v i = (if i < length v then Inr (v ! i) else Inl Out_Of_Bounds)"

definition vset :: "'a list \<Rightarrow> nat \<Rightarrow> 'a \<Rightarrow> 'a list res" where
  "vset v i x = (if i < length v then Inr (v[i := x]) else Inl Out_Of_Bounds)"

definition swap_at :: "'a list \<Rightarrow> nat \<Rightarrow> nat \<Rightarrow> 'a list" where
  "swap_at v i j = v[i := v ! j, j := v ! i]"

definition vswap :: "'a list \<Rightarrow> nat \<Rightarrow> nat \<Rightarrow> 'a list res" where
  "vswap v i j =
     (if i < length v \<and> j < length v then Inr (swap_at v i j) else Inl Out_Of_Bounds)"

text \<open>The same with a signed index.\<close>

definition vget_int :: "'a list \<Rightarrow> int \<Rightarrow> 'a res" where
  "vget_int v i = (if i < 0 then Inl Out_Of_Bounds else vget v (nat i))"

definition vset_int :: "'a list \<Rightarrow> int \<Rightarrow> 'a \<Rightarrow> 'a list res" where
  "vset_int v i x = (if i < 0 then Inl Out_Of_Bounds else vset v (nat i) x)"

text \<open>\<open>std::copy\<close> of \<open>src\<close> to the positions of \<open>dst\<close> from \<open>d\<close> on.\<close>

definition vcopy :: "'a list \<Rightarrow> nat \<Rightarrow> 'a list \<Rightarrow> 'a list res" where
  "vcopy dst d src =
     (if d + length src \<le> length dst
      then Inr (take d dst @ src @ drop (d + length src) dst)
      else Inl Out_Of_Bounds)"

lemma vget_in [simp]: "i < length v \<Longrightarrow> vget v i = Inr (v ! i)"
  by (simp add: vget_def)

lemma vget_out [simp]: "length v \<le> i \<Longrightarrow> vget v i = Inl Out_Of_Bounds"
  by (simp add: vget_def)

lemma vget_eq_Inr [res_simps]: "vget v i = Inr x \<longleftrightarrow> i < length v \<and> x = v ! i"
  by (auto simp: vget_def)

lemma vget_int_in [simp]: "0 \<le> i \<Longrightarrow> nat i < length v \<Longrightarrow> vget_int v i = Inr (v ! nat i)"
  by (simp add: vget_int_def)

lemma vset_int_in [simp]: "0 \<le> i \<Longrightarrow> nat i < length v \<Longrightarrow> vset_int v i x = Inr (v[nat i := x])"
  by (simp add: vset_int_def vset_def)

lemma vset_in [simp]: "i < length v \<Longrightarrow> vset v i x = Inr (v[i := x])"
  by (simp add: vset_def)

lemma vset_eq_Inr [res_simps]: "vset v i x = Inr w \<longleftrightarrow> i < length v \<and> w = v[i := x]"
  by (auto simp: vset_def)

lemma vswap_in [simp]: "i < length v \<Longrightarrow> j < length v \<Longrightarrow> vswap v i j = Inr (swap_at v i j)"
  by (simp add: vswap_def)

lemma length_swap_at [simp]: "length (swap_at v i j) = length v"
  by (simp add: swap_at_def)

lemma nth_swap_at:
  "i < length v \<Longrightarrow> j < length v \<Longrightarrow> k < length v \<Longrightarrow>
   swap_at v i j ! k = (if k = i then v ! j else if k = j then v ! i else v ! k)"
  by (auto simp: swap_at_def nth_list_update)

lemma swap_at_same [simp]: "swap_at v i i = v"
  by (simp add: swap_at_def)

lemma mset_swap_at [simp]:
  "i < length v \<Longrightarrow> j < length v \<Longrightarrow> mset (swap_at v i j) = mset v"
  by (simp add: swap_at_def mset_swap)

lemma vcopy_in [simp]:
  "d + length src \<le> length dst \<Longrightarrow>
   vcopy dst d src = Inr (take d dst @ src @ drop (d + length src) dst)"
  by (simp add: vcopy_def)

section \<open>Machine integers\<close>

text \<open>\<open>size_t\<close> is 64 bits wide; its values are kept as naturals with the wrap-around written out.\<close>

definition sz_add :: "nat \<Rightarrow> nat \<Rightarrow> nat" where
  "sz_add a b = (a + b) mod 2 ^ 64"

definition sz_sub :: "nat \<Rightarrow> nat \<Rightarrow> nat" where
  "sz_sub a b = (a + 2 ^ 64 - b) mod 2 ^ 64"

lemma sz_add_small [simp]: "a + b < 2 ^ 64 \<Longrightarrow> sz_add a b = a + b"
  by (simp add: sz_add_def)

lemma sz_sub_small [simp]: "b \<le> a \<Longrightarrow> a < 2 ^ 64 \<Longrightarrow> sz_sub a b = a - b"
proof -
  assume ba: "b \<le> a" and a: "a < 2 ^ 64"
  then have "a + 2 ^ 64 - b = (a - b) + 2 ^ 64" by simp
  moreover have "a - b < 2 ^ 64" using a by (rule le_less_trans [OF diff_le_self])
  ultimately show ?thesis by (simp only: sz_sub_def mod_add_self2 mod_less)
qed

text \<open>\<open>a % b\<close> on unsigned operands traps when \<open>b\<close> is zero.\<close>

definition umod :: "nat \<Rightarrow> nat \<Rightarrow> nat res" where
  "umod a b = (if b = 0 then Inl Division_By_Zero else Inr (a mod b))"

lemma umod_pos [simp]: "0 < b \<Longrightarrow> umod a b = Inr (a mod b)"
  by (simp add: umod_def)

text \<open>Signed division truncates towards zero; the remainder has the sign of the dividend.\<close>

definition c_div :: "int \<Rightarrow> int \<Rightarrow> int" where
  "c_div a b = sgn a * sgn b * (\<bar>a\<bar> div \<bar>b\<bar>)"

definition c_mod :: "int \<Rightarrow> int \<Rightarrow> int" where
  "c_mod a b = a - c_div a b * b"

lemma c_div_nonneg [simp]: "0 \<le> a \<Longrightarrow> 0 < b \<Longrightarrow> c_div a b = a div b"
  by (cases "a = 0") (simp_all add: c_div_def)

lemma c_mod_nonneg [simp]: "0 \<le> a \<Longrightarrow> 0 < b \<Longrightarrow> c_mod a b = a mod b"
  by (simp add: c_mod_def minus_div_mult_eq_mod)

text \<open>
  The largest \<open>std::vector<char>\<close> the library creates has \<open>PTRDIFF_MAX\<close> elements; \<open>resize\<close>
  beyond it throws \<open>std::length_error\<close>.
\<close>

definition vec_max :: nat where
  "vec_max = 2 ^ 63 - 1"

definition INT_MAX :: int where
  "INT_MAX = 2147483647"

definition INT_MIN :: int where
  "INT_MIN = -2147483648"

definition in_int :: "int \<Rightarrow> bool" where
  "in_int x \<longleftrightarrow> INT_MIN \<le> x \<and> x \<le> INT_MAX"

text \<open>The result of a signed \<open>int\<close> operation: outside the range it is undefined.\<close>

definition as_int :: "int \<Rightarrow> int res" where
  "as_int x = (if in_int x then Inr x else Inl Signed_Overflow)"

lemma as_int_ok [simp]: "in_int x \<Longrightarrow> as_int x = Inr x"
  by (simp add: as_int_def)

end
