(* ===== verification/Byte_Buffer.thy ===== *)
theory Byte_Buffer
  imports Cxx_Prelude
begin

text \<open>
  The growing byte buffer of the servers (\<open>class Buffer\<close>, buffer.h and buffer.cpp of
  Project/Mini_DCS/cache_server/common): a \<open>vector<char>\<close> with a read and a write position.
  Pointers into the vector are offsets from \<open>BeginPtr_()\<close>. The system calls \<open>readv\<close> and
  \<open>write\<close> are parameters: what the kernel answers to the lengths it is offered.
\<close>

section \<open>State\<close>

record buffer =
  buffer_bytes :: "char list"
  readPos :: nat
  writePos :: nat

definition Buffer_init :: "nat \<Rightarrow> buffer" where
  "Buffer_init initBufferSize =
     \<lparr>buffer_bytes = replicate initBufferSize (CHR 0x00), readPos = 0, writePos = 0\<rparr>"

definition readableBytes :: "buffer \<Rightarrow> nat" where
  "readableBytes b = sz_sub (writePos b) (readPos b)"

definition writeableBytes :: "buffer \<Rightarrow> nat" where
  "writeableBytes b = sz_sub (length (buffer_bytes b)) (writePos b)"

definition readBytes :: "buffer \<Rightarrow> nat" where
  "readBytes b = readPos b"

definition BeginPtr :: nat where
  "BeginPtr = 0"

definition curReadPtr :: "buffer \<Rightarrow> nat" where
  "curReadPtr b = BeginPtr + readPos b"

definition curWritePtr :: "buffer \<Rightarrow> nat" where
  "curWritePtr b = BeginPtr + writePos b"

definition bytes_from :: "buffer \<Rightarrow> nat \<Rightarrow> nat \<Rightarrow> char list res" where
  "bytes_from b p len =
     (if p + len \<le> length (buffer_bytes b)
      then Inr (take len (drop p (buffer_bytes b))) else Inl Out_Of_Bounds)"

section \<open>Operations\<close>

definition updateReadPtr :: "buffer \<Rightarrow> nat \<Rightarrow> buffer res" where
  "updateReadPtr b len =
     bind_res (assert_res (len \<le> readableBytes b)) (\<lambda>_.
     Inr (b\<lparr>readPos := sz_add (readPos b) len\<rparr>))"

definition updateReadPtrUntilEnd :: "buffer \<Rightarrow> nat \<Rightarrow> buffer res" where
  "updateReadPtrUntilEnd b end_ptr =
     bind_res (assert_res (end_ptr \<ge> curReadPtr b)) (\<lambda>_.
     updateReadPtr b (end_ptr - curReadPtr b))"

definition updateWritePtr :: "buffer \<Rightarrow> nat \<Rightarrow> buffer res" where
  "updateWritePtr b len =
     bind_res (assert_res (len \<le> writeableBytes b)) (\<lambda>_.
     Inr (b\<lparr>writePos := sz_add (writePos b) len\<rparr>))"

definition initPtr :: "buffer \<Rightarrow> buffer" where
  "initPtr b = \<lparr>buffer_bytes = replicate (length (buffer_bytes b)) (CHR 0x00),
                readPos = 0, writePos = 0\<rparr>"

definition resize_bytes :: "char list \<Rightarrow> nat \<Rightarrow> char list res" where
  "resize_bytes v n =
     (if vec_max < n then Inl (Uncaught_Exception ''length_error'')
      else if n \<le> length v then Inr (take n v)
      else Inr (v @ replicate (n - length v) (CHR 0x00)))"

definition allocateSpace :: "buffer \<Rightarrow> nat \<Rightarrow> buffer res" where
  "allocateSpace b len =
     (if sz_add (writeableBytes b) (readBytes b) < len then
        bind_res (resize_bytes (buffer_bytes b) (sz_add (sz_add (writePos b) len) 1)) (\<lambda>v.
        Inr (b\<lparr>buffer_bytes := v\<rparr>))
      else
        (let readable = readableBytes b in
         bind_res (bytes_from b (BeginPtr + readPos b) (writePos b - readPos b)) (\<lambda>src.
         bind_res (vcopy (buffer_bytes b) BeginPtr src) (\<lambda>v.
         let b' = \<lparr>buffer_bytes = v, readPos = 0, writePos = readable\<rparr> in
         bind_res (assert_res (readable = readableBytes b')) (\<lambda>_. Inr b')))))"

definition ensureWriteable :: "buffer \<Rightarrow> nat \<Rightarrow> buffer res" where
  "ensureWriteable b len =
     bind_res (if writeableBytes b < len then allocateSpace b len else Inr b) (\<lambda>b'.
     bind_res (assert_res (writeableBytes b' \<ge> len)) (\<lambda>_. Inr b'))"

text \<open>
  \<open>append(const char* str, size_t len)\<close>: \<open>None\<close> is the null pointer, \<open>Some s\<close> a pointer to the
  bytes \<open>s\<close> outside this buffer.
\<close>

definition append_chars :: "buffer \<Rightarrow> char list option \<Rightarrow> nat \<Rightarrow> buffer res" where
  "append_chars b str len =
     (case str of None \<Rightarrow> Inl Assert_Failed
      | Some s \<Rightarrow>
        bind_res (ensureWriteable b len) (\<lambda>b1.
        if length s < len then Inl Out_Of_Bounds else
        bind_res (vcopy (buffer_bytes b1) (curWritePtr b1) (take len s)) (\<lambda>v.
        updateWritePtr (b1\<lparr>buffer_bytes := v\<rparr>) len)))"

definition append_string :: "buffer \<Rightarrow> string \<Rightarrow> buffer res" where
  "append_string b str = append_chars b (Some str) (length str)"

definition append_data :: "buffer \<Rightarrow> char list option \<Rightarrow> nat \<Rightarrow> buffer res" where
  "append_data b data len =
     bind_res (assert_res (data \<noteq> None)) (\<lambda>_. append_chars b data len)"

definition append_buffer :: "buffer \<Rightarrow> buffer \<Rightarrow> buffer res" where
  "append_buffer b other =
     bind_res (bytes_from other (curReadPtr other) (readableBytes other)) (\<lambda>s.
     append_chars b (Some s) (readableBytes other))"

section \<open>Input and output\<close>

text \<open>
  What \<open>readv\<close> answers: an error number, or the bytes it scattered over the two areas it was
  given (their lengths are its arguments). \<open>write\<close> answers an error number or how many of the
  offered bytes it took.
\<close>

datatype readv_answer = Readv_Error int | Readv_Data "char list"

datatype write_answer = Write_Error int | Write_Count nat

definition extra_size :: nat where
  "extra_size = 66636"

definition readFd :: "(nat \<Rightarrow> nat \<Rightarrow> readv_answer) \<Rightarrow> buffer \<Rightarrow> int \<Rightarrow> (buffer \<times> int \<times> int) res" where
  "readFd readv b err =
     (let writable = writeableBytes b in
      case readv writable extra_size of
        Readv_Error e \<Rightarrow> Inr (b, -1, e)
      | Readv_Data ds \<Rightarrow>
          bind_res (vcopy (buffer_bytes b) (writePos b) (take writable ds)) (\<lambda>v.
          let b1 = b\<lparr>buffer_bytes := v\<rparr>; len = length ds in
          if len \<le> writable then
            Inr (b1\<lparr>writePos := sz_add (writePos b1) len\<rparr>, int len, err)
          else
            bind_res (append_chars (b1\<lparr>writePos := length (buffer_bytes b1)\<rparr>)
                        (Some (drop writable ds)) (len - writable)) (\<lambda>b2.
            Inr (b2, int len, err))))"

definition writeFd :: "(char list \<Rightarrow> write_answer) \<Rightarrow> buffer \<Rightarrow> int \<Rightarrow> (buffer \<times> int \<times> int) res" where
  "writeFd write b err =
     (let readSize = readableBytes b in
      bind_res (bytes_from b (curReadPtr b) readSize) (\<lambda>s.
      case write s of
        Write_Error e \<Rightarrow> Inr (b, -1, e)
      | Write_Count len \<Rightarrow> Inr (b\<lparr>readPos := sz_add (readPos b) len\<rparr>, int len, err)))"

definition AlltoStr :: "buffer \<Rightarrow> (string \<times> buffer) res" where
  "AlltoStr b =
     bind_res (bytes_from b (curReadPtr b) (readableBytes b)) (\<lambda>str. Inr (str, initPtr b))"

text \<open>
  \<open>printContent\<close> prints the bytes at the positions \<open>readPos_, \<dots>, writePos_\<close>, both included.
\<close>

fun print_from :: "char list \<Rightarrow> nat \<Rightarrow> nat \<Rightarrow> string res" where
  "print_from v i 0 = Inr []"
| "print_from v i (Suc n) =
     bind_res (vget v i) (\<lambda>c. bind_res (print_from v (Suc i) n) (\<lambda>out. Inr (c # CHR '' '' # out)))"

definition printContent :: "buffer \<Rightarrow> string res" where
  "printContent b = print_from (buffer_bytes b) (readPos b) (Suc (writePos b) - readPos b)"

section \<open>Invariant and abstraction\<close>

definition buffer_inv :: "buffer \<Rightarrow> bool" where
  "buffer_inv b \<longleftrightarrow>
     readPos b \<le> writePos b \<and> writePos b \<le> length (buffer_bytes b) \<and>
     length (buffer_bytes b) \<le> vec_max"

text \<open>The abstract buffer: the bytes written and not yet read.\<close>

definition contents :: "buffer \<Rightarrow> char list" where
  "contents b = take (writePos b - readPos b) (drop (readPos b) (buffer_bytes b))"

definition room_for :: "buffer \<Rightarrow> nat \<Rightarrow> bool" where
  "room_for b n \<longleftrightarrow> length (buffer_bytes b) + n + 1 \<le> vec_max"

lemmas buffer_defs = buffer_inv_def contents_def room_for_def vec_max_def readBytes_def
  curReadPtr_def curWritePtr_def BeginPtr_def Let_def

lemma readableBytes_inv [simp]:
  "buffer_inv b \<Longrightarrow> readableBytes b = writePos b - readPos b"
  by (simp add: readableBytes_def buffer_inv_def vec_max_def)

lemma writeableBytes_inv [simp]:
  "buffer_inv b \<Longrightarrow> writeableBytes b = length (buffer_bytes b) - writePos b"
  by (simp add: writeableBytes_def buffer_inv_def vec_max_def)

lemma length_contents [simp]: "buffer_inv b \<Longrightarrow> length (contents b) = readableBytes b"
  by (auto simp: buffer_defs)

lemma bytes_from_contents [simp]:
  "buffer_inv b \<Longrightarrow> bytes_from b (curReadPtr b) (writePos b - readPos b) = Inr (contents b)"
  by (simp add: bytes_from_def buffer_defs)

lemma initPtr_inv: "buffer_inv b \<Longrightarrow> buffer_inv (initPtr b) \<and> contents (initPtr b) = []"
  by (simp add: initPtr_def buffer_defs)

lemma Buffer_init_inv:
  "n \<le> vec_max \<Longrightarrow> buffer_inv (Buffer_init n) \<and> contents (Buffer_init n) = []"
  by (simp add: Buffer_init_def buffer_defs)

section \<open>Every operation keeps the invariant and acts on the contents\<close>

lemma updateReadPtr_ok:
  assumes "buffer_inv b" and "n \<le> readableBytes b"
  shows "\<exists>b'. updateReadPtr b n = Inr b' \<and> buffer_inv b' \<and> contents b' = drop n (contents b)"
  using assms
  by (simp add: updateReadPtr_def) (auto simp: buffer_defs drop_take add.commute)

lemma updateReadPtr_too_far:
  "buffer_inv b \<Longrightarrow> readableBytes b < n \<Longrightarrow> updateReadPtr b n = Inl Assert_Failed"
  by (simp add: updateReadPtr_def)

lemma allocateSpace_ok:
  assumes inv: "buffer_inv b" and few: "writeableBytes b < n" and room: "room_for b n"
  shows "\<exists>b'. allocateSpace b n = Inr b' \<and> buffer_inv b' \<and> contents b' = contents b \<and>
    n \<le> writeableBytes b'"
proof (cases "writeableBytes b + readBytes b < n")
  case True
  let ?v = "buffer_bytes b @ replicate (writePos b + n + 1 - length (buffer_bytes b)) (CHR 0x00)"
  have "allocateSpace b n = Inr (b\<lparr>buffer_bytes := ?v\<rparr>)"
    using True inv few room by (auto simp: allocateSpace_def resize_bytes_def buffer_defs)
  moreover have "buffer_inv (b\<lparr>buffer_bytes := ?v\<rparr>)"
    using True inv few room by (auto simp: buffer_defs)
  moreover have "contents (b\<lparr>buffer_bytes := ?v\<rparr>) = contents b"
    using inv by (auto simp: buffer_defs)
  ultimately show ?thesis using inv few room by (auto simp: buffer_defs)
next
  case False
  let ?v = "contents b @ drop (length (contents b)) (buffer_bytes b)"
  let ?b = "\<lparr>buffer_bytes = ?v, readPos = 0, writePos = readableBytes b\<rparr>"
  have len: "length ?v = length (buffer_bytes b)"
    using inv by (auto simp: buffer_defs)
  then have inv': "buffer_inv ?b" using inv by (auto simp: buffer_inv_def)
  have "allocateSpace b n = Inr ?b"
    using False inv few room inv' bytes_from_contents [OF inv]
    by (auto simp: allocateSpace_def buffer_defs)
  moreover have "contents ?b = contents b"
    using inv by (subst contents_def) simp
  moreover have "n \<le> writeableBytes ?b"
    using False inv len inv' by (auto simp: readBytes_def buffer_inv_def)
  ultimately show ?thesis using inv' by blast
qed

lemma ensureWriteable_ok:
  assumes "buffer_inv b" and "room_for b n"
  shows "\<exists>b'. ensureWriteable b n = Inr b' \<and> buffer_inv b' \<and> contents b' = contents b \<and>
    n \<le> writeableBytes b'"
proof (cases "writeableBytes b < n")
  case True
  from allocateSpace_ok [OF assms(1) True assms(2)] obtain b' where
    "allocateSpace b n = Inr b'" "buffer_inv b'" "contents b' = contents b" "n \<le> writeableBytes b'"
    by blast
  with True show ?thesis by (simp add: ensureWriteable_def)
next
  case False
  with assms(1) show ?thesis by (simp add: ensureWriteable_def)
qed

lemma write_bytes_ok:
  assumes inv: "buffer_inv b" and n: "length s \<le> writeableBytes b"
  defines "v \<equiv> take (writePos b) (buffer_bytes b) @ s @ drop (writePos b + length s) (buffer_bytes b)"
  shows "vcopy (buffer_bytes b) (writePos b) s = Inr v"
    and "buffer_inv (b\<lparr>buffer_bytes := v, writePos := writePos b + length s\<rparr>)"
    and "contents (b\<lparr>buffer_bytes := v, writePos := writePos b + length s\<rparr>) = contents b @ s"
    and "length v = length (buffer_bytes b)"
  using assms by (auto simp: buffer_defs drop_take)

lemma append_chars_ok:
  assumes inv: "buffer_inv b" and room: "room_for b n" and n: "n = length s"
  shows "\<exists>b'. append_chars b (Some s) n = Inr b' \<and> buffer_inv b' \<and> contents b' = contents b @ s"
proof -
  from ensureWriteable_ok [OF inv room] obtain b1 where b1:
    "ensureWriteable b n = Inr b1" "buffer_inv b1" "contents b1 = contents b" "n \<le> writeableBytes b1"
    by blast
  note w = write_bytes_ok [OF b1(2) b1(4) [unfolded n]]
  from w(2) have inv1: "buffer_inv (b1\<lparr>buffer_bytes := take (writePos b1) (buffer_bytes b1) @ s @
      drop (writePos b1 + length s) (buffer_bytes b1)\<rparr>)"
    using b1(2) by (auto simp: buffer_inv_def)
  have "writePos b1 + length s < 2 ^ 64"
    using w(2) by (auto simp: buffer_inv_def vec_max_def)
  then have "append_chars b (Some s) n = Inr (b1\<lparr>buffer_bytes := take (writePos b1) (buffer_bytes b1) @ s @
      drop (writePos b1 + length s) (buffer_bytes b1), writePos := writePos b1 + length s\<rparr>)"
    using b1 n w(1,4) inv1
    by (simp add: append_chars_def updateWritePtr_def curWritePtr_def BeginPtr_def)
  with w(2,3) b1(3) show ?thesis by auto
qed

lemma append_chars_null: "append_chars b None n = Inl Assert_Failed"
  by (simp add: append_chars_def)

lemma readFd_error:
  "readv (writeableBytes b) extra_size = Readv_Error e \<Longrightarrow> readFd readv b err = Inr (b, -1, e)"
  by (simp add: readFd_def)

lemma readFd_data:
  assumes inv: "buffer_inv b"
    and data: "readv (writeableBytes b) extra_size = Readv_Data ds"
    and bound: "length ds \<le> writeableBytes b + extra_size"
    and room: "room_for b extra_size"
  shows "\<exists>b'. readFd readv b err = Inr (b', int (length ds), err) \<and> buffer_inv b' \<and>
    contents b' = contents b @ ds"
proof (cases "length ds \<le> writeableBytes b")
  case True
  note w = write_bytes_ok [OF inv True]
  have "writePos b + length ds < 2 ^ 64"
    using w(2) by (auto simp: buffer_inv_def vec_max_def)
  with True data w show ?thesis by (auto simp: readFd_def Let_def)
next
  case False
  let ?w = "writeableBytes b"
  let ?b = "b\<lparr>buffer_bytes := take (writePos b) (buffer_bytes b) @ take ?w ds @
    drop (writePos b + length (take ?w ds)) (buffer_bytes b), writePos := writePos b + length (take ?w ds)\<rparr>"
  have "length (take ?w ds) \<le> ?w" by simp
  note w = write_bytes_ok [OF inv this]
  have full: "writePos ?b = length (buffer_bytes b)"
    using False inv by (auto simp: buffer_inv_def)
  have "room_for ?b (length ds - ?w)"
    using room bound w(4) by (simp add: room_for_def)
  from append_chars_ok [OF w(2) this, of "drop ?w ds"] obtain b' where b':
    "append_chars ?b (Some (drop ?w ds)) (length ds - ?w) = Inr b'" "buffer_inv b'"
    "contents b' = contents ?b @ drop ?w ds" by auto
  have "readFd readv b err = Inr (b', int (length ds), err)"
    using False data w(1,4) b'(1) full by (simp add: readFd_def Let_def)
  moreover have "contents b' = contents b @ ds"
    using b'(3) w(3) by (simp only: append_assoc append_take_drop_id)
  ultimately show ?thesis using b'(2) by blast
qed

lemma writeFd_count:
  assumes inv: "buffer_inv b" and ans: "write (contents b) = Write_Count n"
    and bound: "n \<le> length (contents b)"
  shows "\<exists>b'. writeFd write b err = Inr (b', int n, err) \<and> buffer_inv b' \<and>
    contents b' = drop n (contents b)"
proof -
  from bound inv have n: "n \<le> readableBytes b" by simp
  from updateReadPtr_ok [OF inv n] n inv ans show ?thesis
    by (auto simp: writeFd_def updateReadPtr_def)
qed

lemma writeFd_error:
  "buffer_inv b \<Longrightarrow> write (contents b) = Write_Error e \<Longrightarrow> writeFd write b err = Inr (b, -1, e)"
  by (simp add: writeFd_def)

lemma AlltoStr_ok:
  "buffer_inv b \<Longrightarrow> AlltoStr b = Inr (contents b, initPtr b)"
  by (simp add: AlltoStr_def)

text \<open>
  The loop of \<open>printContent\<close> reads one byte more than the buffer holds: it is inside the vector
  exactly when some space is left after the write position.
\<close>

lemma print_from_out: "length v < i + n \<Longrightarrow> 0 < n \<Longrightarrow> print_from v i n = Inl Out_Of_Bounds"
proof (induction v i n rule: print_from.induct)
  case (2 v i n)
  then show ?case by (cases "i < length v"; cases n) auto
qed simp

lemma print_from_in: "i + n \<le> length v \<Longrightarrow> \<exists>out. print_from v i n = Inr out"
  by (induction v i n rule: print_from.induct) auto

section \<open>The interface of the buffer\<close>

text \<open>
  What the connections rely on: a stream of bytes to which data is appended at one end and from
  which all of it, or a prefix, is taken at the other.
\<close>

locale byte_stream =
  fixes stream :: "'b \<Rightarrow> char list"
    and inv :: "'b \<Rightarrow> bool"
    and room :: "'b \<Rightarrow> nat \<Rightarrow> bool"
    and put :: "'b \<Rightarrow> string \<Rightarrow> 'b res"
    and take_all :: "'b \<Rightarrow> (string \<times> 'b) res"
    and advance :: "'b \<Rightarrow> nat \<Rightarrow> 'b res"
  assumes put_ok: "inv b \<Longrightarrow> room b (length s) \<Longrightarrow>
      \<exists>b'. put b s = Inr b' \<and> inv b' \<and> stream b' = stream b @ s"
    and take_all_ok: "inv b \<Longrightarrow> \<exists>b'. take_all b = Inr (stream b, b') \<and> inv b' \<and> stream b' = []"
    and advance_ok: "inv b \<Longrightarrow> n \<le> length (stream b) \<Longrightarrow>
      \<exists>b'. advance b n = Inr b' \<and> inv b' \<and> stream b' = drop n (stream b)"
    and advance_too_far: "inv b \<Longrightarrow> length (stream b) < n \<Longrightarrow> advance b n = Inl Assert_Failed"
begin

lemma put_take_all:
  assumes "inv b" and "stream b = []" and "room b (length s)"
  shows "\<exists>b' b''. put b s = Inr b' \<and> take_all b' = Inr (s, b'') \<and> inv b'' \<and> stream b'' = []"
  using put_ok [OF assms(1,3)] take_all_ok assms(2) by fastforce

lemma put_advance:
  assumes "inv b" and "stream b = []" and "room b (length (s @ t))"
  shows "\<exists>b' b''. put b (s @ t) = Inr b' \<and> advance b' (length s) = Inr b'' \<and> stream b'' = t"
  using put_ok [OF assms(1,3)] advance_ok [of _ "length s"] assms(2) by fastforce

end

interpretation buf: byte_stream contents buffer_inv room_for append_string AlltoStr updateReadPtr
proof
  fix b and s :: string assume "buffer_inv b" "room_for b (length s)"
  then show "\<exists>b'. append_string b s = Inr b' \<and> buffer_inv b' \<and> contents b' = contents b @ s"
    using append_chars_ok by (simp add: append_string_def)
next
  fix b assume "buffer_inv b"
  then show "\<exists>b'. AlltoStr b = Inr (contents b, b') \<and> buffer_inv b' \<and> contents b' = []"
    by (simp add: AlltoStr_ok initPtr_inv)
next
  fix b n assume "buffer_inv b" "n \<le> length (contents b)"
  then show "\<exists>b'. updateReadPtr b n = Inr b' \<and> buffer_inv b' \<and> contents b' = drop n (contents b)"
    using updateReadPtr_ok by simp
next
  fix b n assume "buffer_inv b" "length (contents b) < n"
  then show "updateReadPtr b n = Inl Assert_Failed"
    using updateReadPtr_too_far by simp
qed

section \<open>Properties\<close>

text \<open>
  C6. Appending a string to a well-formed buffer always succeeds while the vector may grow: no
  assertion fails, the read and write positions stay ordered and inside the vector, and the
  unread bytes are the old ones followed by the string, whether the space was there, was won back
  by moving the unread bytes to the front or was allocated.
\<close>

theorem buffer_append:
  assumes "buffer_inv b" and "room_for b (length s)"
  shows "\<exists>b'. append_string b s = Inr b' \<and> buffer_inv b' \<and> contents b' = contents b @ s"
  using assms by (rule buf.put_ok)

theorem buffer_append_witness:
  "buffer_inv (Buffer_init 4) \<and> room_for (Buffer_init 4) (length ''hello'') \<and>
   (\<exists>b'. append_string (Buffer_init 4) ''hello'' = Inr b' \<and> buffer_inv b' \<and>
      contents b' = contents (Buffer_init 4) @ ''hello'')"
proof -
  have h: "buffer_inv (Buffer_init 4)" "room_for (Buffer_init 4) (length ''hello'')"
    by (simp_all add: Buffer_init_def buffer_defs)
  from h buffer_append [OF h] show ?thesis by blast
qed

text \<open>
  C7. Whatever number of bytes \<open>readv\<close> delivers, up to the free part of the vector and the stack
  area together, \<open>readFd\<close> on a well-formed buffer stores all of them behind the unread bytes, in
  order, reports their number, leaves \<open>Errno\<close> alone, and \<open>AlltoStr\<close> then returns old and new
  bytes and leaves the buffer empty.
\<close>

theorem readFd_AlltoStr:
  assumes "buffer_inv b" and "room_for b extra_size"
    and "readv (writeableBytes b) extra_size = Readv_Data ds"
    and "length ds \<le> writeableBytes b + extra_size"
  shows "\<exists>b' b''. readFd readv b err = Inr (b', int (length ds), err) \<and>
    AlltoStr b' = Inr (contents b @ ds, b'') \<and> buffer_inv b'' \<and> contents b'' = []"
  using readFd_data [where readv = readv, OF assms(1,3,4,2)] buf.take_all_ok by metis

theorem readFd_AlltoStr_witness:
  "\<exists>b' b''. readFd (\<lambda>a c. Readv_Data ''abcd'') (Buffer_init 2) 0 = Inr (b', int (length ''abcd''), 0) \<and>
    AlltoStr b' = Inr (contents (Buffer_init 2) @ ''abcd'', b'') \<and> buffer_inv b'' \<and> contents b'' = []"
  by (rule readFd_AlltoStr)
     (simp_all add: Buffer_init_def buffer_defs writeableBytes_def sz_sub_def extra_size_def)

text \<open>
  \<open>writeFd\<close> hands exactly the unread bytes to \<open>write\<close>; when the kernel takes \<open>n\<close> of them, the
  first \<open>n\<close> are consumed and the rest stay, and when it reports an error the buffer is unchanged
  and \<open>Errno\<close> is set.
\<close>

theorem writeFd_consumes:
  assumes "buffer_inv b"
  shows "case write (contents b) of
      Write_Error e \<Rightarrow> writeFd write b err = Inr (b, -1, e)
    | Write_Count n \<Rightarrow> n \<le> length (contents b) \<longrightarrow>
        (\<exists>b'. writeFd write b err = Inr (b', int n, err) \<and> buffer_inv b' \<and>
          contents b' = drop n (contents b))"
  using writeFd_error [OF assms] writeFd_count [OF assms] by (auto split: write_answer.split)

theorem writeFd_consumes_witness:
  "case (\<lambda>s. Write_Count 1) (contents \<lparr>buffer_bytes = ''xyz'', readPos = 0, writePos = 2\<rparr>) of
      Write_Error e \<Rightarrow> writeFd (\<lambda>s. Write_Count 1) \<lparr>buffer_bytes = ''xyz'', readPos = 0, writePos = 2\<rparr> 0 =
        Inr (\<lparr>buffer_bytes = ''xyz'', readPos = 0, writePos = 2\<rparr>, -1, e)
    | Write_Count n \<Rightarrow> n \<le> length (contents \<lparr>buffer_bytes = ''xyz'', readPos = 0, writePos = 2\<rparr>) \<longrightarrow>
        (\<exists>b'. writeFd (\<lambda>s. Write_Count 1) \<lparr>buffer_bytes = ''xyz'', readPos = 0, writePos = 2\<rparr> 0 =
            Inr (b', int n, 0) \<and> buffer_inv b' \<and>
          contents b' = drop n (contents \<lparr>buffer_bytes = ''xyz'', readPos = 0, writePos = 2\<rparr>))"
  by (rule writeFd_consumes) (simp add: buffer_defs)

text \<open>
  \<open>printContent\<close>, which \<open>Request::parse\<close> calls on every request, stays inside the vector
  exactly when the buffer is not written to its end; on a buffer filled to the last byte it reads
  one byte behind the vector.
\<close>

theorem printContent_bounds:
  assumes "buffer_inv b"
  shows "if writePos b < length (buffer_bytes b) then \<exists>out. printContent b = Inr out
    else printContent b = Inl Out_Of_Bounds"
  using assms by (auto simp: printContent_def buffer_inv_def intro!: print_from_in print_from_out)

theorem printContent_bounds_witness:
  "if writePos \<lparr>buffer_bytes = ''ab'', readPos = 0, writePos = 2\<rparr> < length ''ab''
    then \<exists>out. printContent \<lparr>buffer_bytes = ''ab'', readPos = 0, writePos = 2\<rparr> = Inr out
    else printContent \<lparr>buffer_bytes = ''ab'', readPos = 0, writePos = 2\<rparr> = Inl Out_Of_Bounds"
  using printContent_bounds [of "\<lparr>buffer_bytes = ''ab'', readPos = 0, writePos = 2\<rparr>"]
  by (simp add: buffer_defs)

end
