(* ===== verification/Lru_Contract.thy ===== *)
theory Lru_Contract
  imports Cxx_Prelude "HOL-Library.AList"
begin

text \<open>
  What a least-recently-used cache promises, independent of how it is implemented: the abstract
  cache is an association list, most recently used entry first, of bounded length. The locale
  \<open>lru_contract\<close> is the interface both implementations of the repository are shown to satisfy.
\<close>

section \<open>The abstract cache\<close>

type_synonym entries = "(string \<times> string) list"

definition spec_get :: "entries \<Rightarrow> string \<Rightarrow> string \<times> entries" where
  "spec_get xs k =
     (case map_of xs k of Some v \<Rightarrow> (v, (k, v) # AList.delete k xs) | None \<Rightarrow> ([], xs))"

definition spec_set :: "nat \<Rightarrow> entries \<Rightarrow> string \<Rightarrow> string \<Rightarrow> entries" where
  "spec_set cap xs k v =
     (if k \<in> fst ` set xs then (k, v) # AList.delete k xs
      else (k, v) # (if cap \<le> length xs then butlast xs else xs))"

datatype cache_op = Get_Op string | Set_Op string string

fun op_key :: "cache_op \<Rightarrow> string" where
  "op_key (Get_Op k) = k"
| "op_key (Set_Op k v) = k"

fun spec_run :: "nat \<Rightarrow> entries \<Rightarrow> cache_op list \<Rightarrow> string list \<times> entries" where
  "spec_run cap xs [] = ([], xs)"
| "spec_run cap xs (Get_Op k # ops) =
     (fst (spec_get xs k) # fst (spec_run cap (snd (spec_get xs k)) ops),
      snd (spec_run cap (snd (spec_get xs k)) ops))"
| "spec_run cap xs (Set_Op k v # ops) = spec_run cap (spec_set cap xs k v) ops"

text \<open>A sequence of operations on an implementation, collecting what the reads return.\<close>

fun run_ops :: "('s \<Rightarrow> string \<Rightarrow> (string \<times> 's) res) \<Rightarrow> ('s \<Rightarrow> string \<Rightarrow> string \<Rightarrow> 's res) \<Rightarrow>
    's \<Rightarrow> cache_op list \<Rightarrow> (string list \<times> 's) res" where
  "run_ops get put s [] = Inr ([], s)"
| "run_ops get put s (Get_Op k # ops) =
     bind_res (get s k) (\<lambda>(v, s'). bind_res (run_ops get put s' ops) (\<lambda>(vs, t). Inr (v # vs, t)))"
| "run_ops get put s (Set_Op k v # ops) =
     bind_res (put s k v) (\<lambda>s'. run_ops get put s' ops)"

section \<open>Facts about the abstract cache\<close>

definition cache_wf :: "nat \<Rightarrow> entries \<Rightarrow> bool" where
  "cache_wf cap xs \<longleftrightarrow> distinct (map fst xs) \<and> length xs \<le> cap"

lemma delete_notin: "k \<notin> fst ` set xs \<Longrightarrow> AList.delete k xs = xs"
  by (induction xs) auto

lemma delete_gone [simp]: "(k, v) \<notin> set (AList.delete k xs)"
  by (simp add: AList.delete_eq)

lemma delete_entries:
  "distinct (map fst (xs @ (k, v) # ys)) \<Longrightarrow> AList.delete k (xs @ (k, v) # ys) = xs @ ys"
  by (simp add: AList.delete_eq) (simp add: delete_notin flip: AList.delete_eq)

lemma update_new: "k \<notin> fst ` set xs \<Longrightarrow> AList.update k v xs = xs @ [(k, v)]"
  by (induction xs) auto

lemma length_delete_in:
  assumes "distinct (map fst xs)" and "k \<in> fst ` set xs"
  shows "Suc (length (AList.delete k xs)) = length xs"
proof -
  from assms(2) obtain v ys zs where "xs = ys @ (k, v) # zs"
    by (metis (no_types, lifting) imageE prod.collapse split_list)
  with delete_entries [of ys k v zs] assms(1) show ?thesis by simp
qed

lemma wf_spec_get: "cache_wf cap xs \<Longrightarrow> cache_wf cap (snd (spec_get xs k))"
proof (cases "map_of xs k")
  case (Some v)
  assume wf: "cache_wf cap xs"
  from Some have "k \<in> fst ` set xs" by (force dest: map_of_SomeD)
  with Some wf length_delete_in [of xs k] show ?thesis
    by (auto simp: cache_wf_def spec_get_def distinct_delete)
qed (simp add: spec_get_def)

lemma wf_spec_set: "cache_wf cap xs \<Longrightarrow> 0 < cap \<Longrightarrow> cache_wf cap (spec_set cap xs k v)"
  using length_delete_in [of xs k]
  by (auto simp: cache_wf_def spec_set_def distinct_delete map_butlast distinct_butlast
      dest: in_set_butlastD)

lemma spec_get_set: "fst (spec_get (spec_set cap xs k v) k) = v"
  by (simp add: spec_get_def spec_set_def)

text \<open>
  An entry survives while fewer other keys than the capacity are used: \<open>held\<close> says that the entry
  is there and that every entry before it belongs to the set \<open>K\<close> of keys used since.
\<close>

definition held :: "string \<Rightarrow> string \<Rightarrow> string set \<Rightarrow> entries \<Rightarrow> bool" where
  "held k v K xs \<longleftrightarrow> (\<exists>ys zs. xs = ys @ (k, v) # zs \<and> fst ` set ys \<subseteq> K)"

lemma heldI: "fst ` set ys \<subseteq> K \<Longrightarrow> held k v K (ys @ (k, v) # zs)"
  by (auto simp: held_def)

lemma held_delete:
  assumes "held k v K xs" and "j \<in> K" and "j \<noteq> k"
  shows "held k v K ((j, w) # AList.delete j xs)"
proof -
  from assms(1) obtain ys zs where xs: "xs = ys @ (k, v) # zs" "fst ` set ys \<subseteq> K"
    by (auto simp: held_def)
  have "(j, w) # AList.delete j xs = ((j, w) # AList.delete j ys) @ (k, v) # AList.delete j zs"
    using xs(1) assms(3) by (simp add: AList.delete_eq)
  moreover have "fst ` set ((j, w) # AList.delete j ys) \<subseteq> K"
    using xs(2) assms(2) by (auto simp: AList.delete_eq)
  ultimately show ?thesis unfolding held_def by blast
qed

lemma held_get:
  assumes wf: "cache_wf cap xs" and held: "held k v K xs" and j: "j = k \<or> j \<in> K"
  shows "held k v K (snd (spec_get xs j))"
proof (cases "map_of xs j")
  case None
  with held show ?thesis by (simp add: spec_get_def)
next
  case (Some w)
  from held obtain ys zs where xs: "xs = ys @ (k, v) # zs" "fst ` set ys \<subseteq> K"
    by (auto simp: held_def)
  show ?thesis
  proof (cases "j = k")
    case True
    have "map_of xs k = Some v" using wf xs(1) by (subst map_of_eq_Some_iff) (simp_all add: cache_wf_def)
    then show ?thesis using True by (auto simp: held_def spec_get_def intro: exI [of _ "[]"])
  next
    case False
    with j Some held show ?thesis by (simp add: spec_get_def held_delete)
  qed
qed

lemma held_set:
  assumes wf: "cache_wf cap xs" and held: "held k v K xs" and j: "j \<in> K" "j \<noteq> k"
    and K: "finite K" "card K < cap"
  shows "held k v K (spec_set cap xs j w)"
proof -
  from held obtain ys zs where xs: "xs = ys @ (k, v) # zs" "fst ` set ys \<subseteq> K"
    by (auto simp: held_def)
  show ?thesis
  proof (cases "j \<in> fst ` set xs")
    case True
    with j held show ?thesis by (simp add: spec_set_def held_delete)
  next
    case False
    have "zs \<noteq> [] \<or> length xs < cap"
    proof (rule ccontr)
      assume "\<not> ?thesis"
      with xs have zs: "zs = []" and "cap \<le> Suc (length ys)" by auto
      moreover have "card (insert j (fst ` set ys)) = Suc (length ys)"
        using wf xs False by (simp add: cache_wf_def card_insert_if distinct_card
          [of "map fst ys", unfolded length_map set_map] zs)
      moreover have "card (insert j (fst ` set ys)) \<le> card K"
        using j(1) xs(2) K(1) by (intro card_mono) auto
      ultimately show False using K(2) by linarith
    qed
    with False j xs have "spec_set cap xs j w =
        ((j, w) # ys) @ (k, v) # (if cap \<le> length xs then butlast zs else zs)"
      by (auto simp: spec_set_def butlast_append)
    then show ?thesis using heldI [of "(j, w) # ys" K k v] j(1) xs(2) by simp
  qed
qed

lemma held_run:
  assumes "cache_wf cap xs" and "held k v K xs" and "finite K" "card K < cap"
    and "\<forall>p \<in> set ops. op_key p \<in> K \<or> p = Get_Op k" and "k \<notin> K"
  shows "held k v K (snd (spec_run cap xs ops))"
  using assms
proof (induction cap xs ops rule: spec_run.induct)
  case (2 cap xs j ops)
  then show ?case
    using wf_spec_get [of cap xs j] held_get [of cap xs k v K j]
    by (auto simp: split_def Let_def)
next
  case (3 cap xs j w ops)
  then show ?case
    using wf_spec_set [of cap xs j w] held_set [of cap xs k v K j w] by auto
qed simp

lemma held_value: "cache_wf cap xs \<Longrightarrow> held k v K xs \<Longrightarrow> fst (spec_get xs k) = v"
proof -
  assume "cache_wf cap xs" "held k v K xs"
  then have "map_of xs k = Some v"
    by (subst map_of_eq_Some_iff) (auto simp: cache_wf_def held_def)
  then show ?thesis by (simp add: spec_get_def)
qed

lemma wf_spec_run: "cache_wf cap xs \<Longrightarrow> 0 < cap \<Longrightarrow> cache_wf cap (snd (spec_run cap xs ops))"
  by (induction cap xs ops rule: spec_run.induct) (simp_all add: wf_spec_get wf_spec_set)

lemma spec_run_append:
  "spec_run cap xs (ops @ ops') =
     (fst (spec_run cap xs ops) @ fst (spec_run cap (snd (spec_run cap xs ops)) ops'),
      snd (spec_run cap (snd (spec_run cap xs ops)) ops'))"
  by (induction cap xs ops rule: spec_run.induct) simp_all

lemma spec_survives:
  assumes "cache_wf cap xs" and "card K < cap" and "finite K" and "k \<notin> K"
    and "\<forall>p \<in> set ops. op_key p \<in> K \<or> p = Get_Op k"
  shows "fst (spec_get (snd (spec_run cap (spec_set cap xs k v) ops)) k) = v"
proof -
  have "held k v K (spec_set cap xs k v)"
    by (auto simp: held_def spec_set_def intro: exI [of _ "[]"])
  moreover have wf: "cache_wf cap (spec_set cap xs k v)"
    using assms(1,2) by (simp add: wf_spec_set)
  ultimately have "held k v K (snd (spec_run cap (spec_set cap xs k v) ops))"
    using assms(2-5) held_run by blast
  then show ?thesis using held_value wf_spec_run [OF wf] assms(2) by (metis not_less_zero neq0_conv)
qed

section \<open>The interface\<close>

locale lru_contract =
  fixes rel :: "'s \<Rightarrow> entries \<Rightarrow> bool"
    and cap :: "'s \<Rightarrow> nat"
    and get :: "'s \<Rightarrow> string \<Rightarrow> (string \<times> 's) res"
    and put :: "'s \<Rightarrow> string \<Rightarrow> string \<Rightarrow> 's res"
  assumes cap_pos: "rel s xs \<Longrightarrow> 0 < cap s"
    and rel_wf: "rel s xs \<Longrightarrow> cache_wf (cap s) xs"
    and get_ok: "rel s xs \<Longrightarrow> \<exists>s'. get s k = Inr (fst (spec_get xs k), s') \<and>
      rel s' (snd (spec_get xs k)) \<and> cap s' = cap s"
    and put_ok: "rel s xs \<Longrightarrow> \<exists>s'. put s k v = Inr s' \<and>
      rel s' (spec_set (cap s) xs k v) \<and> cap s' = cap s"
begin

lemma run_ok:
  "rel s xs \<Longrightarrow> \<exists>s'. run_ops get put s ops = Inr (fst (spec_run (cap s) xs ops), s') \<and>
     rel s' (snd (spec_run (cap s) xs ops)) \<and> cap s' = cap s"
proof (induction ops arbitrary: s xs)
  case (Cons p ops)
  show ?case
  proof (cases p)
    case (Get_Op k)
    from get_ok [OF Cons.prems] obtain s1 where s1: "get s k = Inr (fst (spec_get xs k), s1)"
      "rel s1 (snd (spec_get xs k))" "cap s1 = cap s" by blast
    from Cons.IH [OF s1(2)] s1 Get_Op show ?thesis by auto
  next
    case (Set_Op k v)
    from put_ok [OF Cons.prems] obtain s1 where s1: "put s k v = Inr s1"
      "rel s1 (spec_set (cap s) xs k v)" "cap s1 = cap s" by blast
    from Cons.IH [OF s1(2)] s1 Set_Op show ?thesis by auto
  qed
qed simp

lemma survives:
  assumes "rel s xs" and "card (op_key ` set ops - {k}) < cap s"
    and "\<forall>v'. Set_Op k v' \<notin> set ops"
  shows "\<exists>vs s'. run_ops get put s (Set_Op k v # ops @ [Get_Op k]) = Inr (vs @ [v], s')"
proof -
  let ?K = "op_key ` set ops - {k}"
  have "\<forall>p \<in> set ops. op_key p \<in> ?K \<or> p = Get_Op k"
  proof
    fix p assume p: "p \<in> set ops"
    then have "op_key p \<in> op_key ` set ops" by (rule imageI)
    with p assms(3) show "op_key p \<in> ?K \<or> p = Get_Op k"
      by - (cases p; cases "op_key p = k"; simp)
  qed
  then have "fst (spec_get (snd (spec_run (cap s) (spec_set (cap s) xs k v) ops)) k) = v"
    using spec_survives [of "cap s" xs ?K k ops v] rel_wf [OF assms(1)] assms(2) by simp
  then show ?thesis
    using run_ok [OF assms(1), of "Set_Op k v # ops @ [Get_Op k]"]
    by (auto simp: spec_run_append)
qed

lemma bounded:
  "rel s xs \<Longrightarrow> run_ops get put s ops = Inr (vs, s') \<Longrightarrow> \<exists>ys. rel s' ys \<and> length ys \<le> cap s"
  using run_ok [of s xs ops] rel_wf [of s'] by (fastforce simp: cache_wf_def)

end

end
