(* ===== verification/Linked_Nodes.thy ===== *)
theory Linked_Nodes
  imports Cxx_Prelude
begin

text \<open>
  Doubly linked nodes in a heap. A heap is a map from addresses to nodes of any type; the two
  selectors of the links are parameters, so that the LRU caches and the timer list share the
  lemmas.
\<close>

type_synonym addr = nat

definition first_of :: "addr list \<Rightarrow> addr option \<Rightarrow> addr option" where
  "first_of as q = (case as of [] \<Rightarrow> q | b # _ \<Rightarrow> Some b)"

definition last_of :: "addr option \<Rightarrow> addr list \<Rightarrow> addr option" where
  "last_of p as = (if as = [] then p else Some (last as))"

text \<open>
  \<open>dnodes pre nxt h p as q\<close>: the nodes \<open>as\<close> are linked in this order in both directions; the first
  one's predecessor is \<open>p\<close>, the last one's successor \<open>q\<close>.
\<close>

fun dnodes :: "('n \<Rightarrow> addr option) \<Rightarrow> ('n \<Rightarrow> addr option) \<Rightarrow> (addr \<rightharpoonup> 'n) \<Rightarrow>
    addr option \<Rightarrow> addr list \<Rightarrow> addr option \<Rightarrow> bool" where
  "dnodes pre nxt h p [] q = True"
| "dnodes pre nxt h p (a # as) q =
     (\<exists>n. h a = Some n \<and> pre n = p \<and> nxt n = first_of as q \<and> dnodes pre nxt h (Some a) as q)"

lemma first_of_simps [simp]:
  "first_of [] q = q" "first_of (a # as) q = Some a"
  "first_of (as @ bs) q = first_of as (first_of bs q)"
  by (auto simp: first_of_def split: list.split)

lemma last_of_simps [simp]:
  "last_of p [] = p" "last_of p (a # as) = last_of (Some a) as"
  "last_of p (as @ bs) = last_of (last_of p as) bs"
  by (auto simp: last_of_def)

lemma dnodes_append [simp]:
  "dnodes pre nxt h p (as @ bs) q \<longleftrightarrow>
     dnodes pre nxt h p as (first_of bs q) \<and> dnodes pre nxt h (last_of p as) bs q"
  by (induction as arbitrary: p) auto

lemma dnodes_frame [simp]:
  "a \<notin> set as \<Longrightarrow> dnodes pre nxt (h(a := x)) p as q = dnodes pre nxt h p as q"
  by (induction as arbitrary: p) auto

lemma dnodes_dom: "dnodes pre nxt h p as q \<Longrightarrow> a \<in> set as \<Longrightarrow> \<exists>n. h a = Some n"
  by (induction as arbitrary: p) auto

end
