(* ===== verification/Lru_Cache.thy ===== *)
theory Lru_Cache
  imports Lru_Contract Linked_Nodes
begin

text \<open>
  The least-recently-used cache (\<open>struct CacheNode\<close>, \<open>class LruCache\<close>, lru.h of
  Project/Mini_DCS/cache_server/common): a doubly linked list of heap nodes, most recently used
  first, and an \<open>unordered_map\<close> from keys to nodes. The heap is a map from addresses to nodes;
  \<open>nullptr\<close> is \<open>None\<close>. Nodes are never deleted, as in the code.
\<close>

section \<open>State\<close>

record cache_node =
  node_key :: string
  node_val :: string
  node_pre :: "addr option"
  node_next :: "addr option"

record lru_cache =
  lru_size :: int
  lru_head :: "addr option"
  lru_tail :: "addr option"
  lru_mp :: "(string \<times> addr) list"
  lru_heap :: "addr \<rightharpoonup> cache_node"
  lru_fresh :: addr

definition LruCache_init :: "int \<Rightarrow> lru_cache" where
  "LruCache_init capacity =
     \<lparr>lru_size = capacity, lru_head = None, lru_tail = None, lru_mp = [],
      lru_heap = Map.empty, lru_fresh = 0\<rparr>"

definition deref :: "lru_cache \<Rightarrow> addr option \<Rightarrow> cache_node res" where
  "deref s p =
     (case p of None \<Rightarrow> Inl Null_Deref
      | Some a \<Rightarrow> (case lru_heap s a of None \<Rightarrow> Inl Null_Deref | Some n \<Rightarrow> Inr n))"

definition store :: "lru_cache \<Rightarrow> addr \<Rightarrow> cache_node \<Rightarrow> lru_cache" where
  "store s a n = s\<lparr>lru_heap := (lru_heap s)(a \<mapsto> n)\<rparr>"

definition new_node :: "lru_cache \<Rightarrow> string \<Rightarrow> string \<Rightarrow> addr \<times> lru_cache" where
  "new_node s k v =
     (lru_fresh s,
      store (s\<lparr>lru_fresh := Suc (lru_fresh s)\<rparr>) (lru_fresh s)
        \<lparr>node_key = k, node_val = v, node_pre = None, node_next = None\<rparr>)"

section \<open>Operations\<close>

definition remove_node :: "lru_cache \<Rightarrow> addr \<Rightarrow> lru_cache res" where
  "remove_node s a =
     bind_res (deref s (Some a)) (\<lambda>n.
     bind_res (case node_pre n of
         Some p \<Rightarrow> bind_res (deref s (Some p)) (\<lambda>m. Inr (store s p (m\<lparr>node_next := node_next n\<rparr>)))
       | None \<Rightarrow> Inr (s\<lparr>lru_head := node_next n\<rparr>)) (\<lambda>s1.
     bind_res (deref s1 (Some a)) (\<lambda>n1.
     case node_next n1 of
         Some q \<Rightarrow> bind_res (deref s1 (Some q)) (\<lambda>m. Inr (store s1 q (m\<lparr>node_pre := node_pre n1\<rparr>)))
       | None \<Rightarrow> Inr (s1\<lparr>lru_tail := node_pre n1\<rparr>))))"

definition setHead :: "lru_cache \<Rightarrow> addr \<Rightarrow> lru_cache res" where
  "setHead s a =
     bind_res (deref s (Some a)) (\<lambda>n.
     let s1 = store s a (n\<lparr>node_next := lru_head s, node_pre := None\<rparr>) in
     bind_res (case lru_head s1 of
         Some h \<Rightarrow> bind_res (deref s1 (Some h)) (\<lambda>m. Inr (store s1 h (m\<lparr>node_pre := Some a\<rparr>)))
       | None \<Rightarrow> Inr s1) (\<lambda>s2.
     let s3 = s2\<lparr>lru_head := Some a\<rparr> in
     Inr (if lru_tail s3 = None then s3\<lparr>lru_tail := lru_head s3\<rparr> else s3)))"

text \<open>
  \<open>mp.size() >= size\<close> compares a \<open>size_t\<close> with an \<open>int\<close>: the capacity is converted to 64 bits
  unsigned first.
\<close>

definition map_full :: "lru_cache \<Rightarrow> bool" where
  "map_full s \<longleftrightarrow> int (length (lru_mp s)) \<ge> lru_size s mod 2 ^ 64"

definition lru_evict :: "lru_cache \<Rightarrow> lru_cache res" where
  "lru_evict s =
     bind_res (deref s (lru_tail s)) (\<lambda>t.
     let it = map_of (lru_mp s) (node_key t) in
     bind_res (remove_node s (the (lru_tail s))) (\<lambda>s1.
     if it = None then Inl Out_Of_Bounds
     else Inr (s1\<lparr>lru_mp := AList.delete (node_key t) (lru_mp s1)\<rparr>)))"

definition lru_set :: "lru_cache \<Rightarrow> string \<Rightarrow> string \<Rightarrow> lru_cache res" where
  "lru_set s key value =
     (case map_of (lru_mp s) key of
        Some a \<Rightarrow>
          bind_res (deref s (Some a)) (\<lambda>n.
          bind_res (remove_node (store s a (n\<lparr>node_val := value\<rparr>)) a) (\<lambda>s1.
          setHead s1 a))
      | None \<Rightarrow>
          (let (a, s1) = new_node s key value in
           bind_res (if map_full s1 then lru_evict s1 else Inr s1) (\<lambda>s2.
           bind_res (setHead s2 a) (\<lambda>s3.
           Inr (s3\<lparr>lru_mp := AList.update key a (lru_mp s3)\<rparr>)))))"

definition lru_get :: "lru_cache \<Rightarrow> string \<Rightarrow> (string \<times> lru_cache) res" where
  "lru_get s key =
     (case map_of (lru_mp s) key of
        Some a \<Rightarrow>
          bind_res (remove_node s a) (\<lambda>s1.
          bind_res (setHead s1 a) (\<lambda>s2.
          bind_res (deref s2 (Some a)) (\<lambda>n. Inr (node_val n, s2))))
      | None \<Rightarrow> Inr ([], s))"

section \<open>Linked segments\<close>

abbreviation dseg :: "(addr \<rightharpoonup> cache_node) \<Rightarrow> addr option \<Rightarrow> addr list \<Rightarrow> addr option \<Rightarrow> bool" where
  "dseg \<equiv> dnodes node_pre node_next"

definition data_at :: "(addr \<rightharpoonup> cache_node) \<Rightarrow> addr \<Rightarrow> string \<times> string" where
  "data_at h a = (node_key (the (h a)), node_val (the (h a)))"

definition entries_of :: "(addr \<rightharpoonup> cache_node) \<Rightarrow> addr list \<Rightarrow> entries" where
  "entries_of h as = map (data_at h) as"

section \<open>Correctness of the list surgery\<close>

text \<open>The fields and the keys and values no pointer operation touches.\<close>

definition same_data :: "lru_cache \<Rightarrow> lru_cache \<Rightarrow> bool" where
  "same_data s s' \<longleftrightarrow>
     lru_mp s' = lru_mp s \<and> lru_fresh s' = lru_fresh s \<and> lru_size s' = lru_size s \<and>
     (\<forall>b. data_at (lru_heap s') b = data_at (lru_heap s) b) \<and>
     dom (lru_heap s') = dom (lru_heap s)"

definition linked :: "lru_cache \<Rightarrow> addr list \<Rightarrow> bool" where
  "linked s as \<longleftrightarrow>
     dseg (lru_heap s) None as None \<and> distinct as \<and>
     lru_head s = first_of as None \<and> lru_tail s = last_of None as"

lemma deref_Some [simp]: "lru_heap s a = Some n \<Longrightarrow> deref s (Some a) = Inr n"
  by (simp add: deref_def)

lemma store_simps [simp]:
  "lru_heap (store s a n) = (lru_heap s)(a \<mapsto> n)" "lru_head (store s a n) = lru_head s"
  "lru_tail (store s a n) = lru_tail s" "lru_mp (store s a n) = lru_mp s"
  "lru_fresh (store s a n) = lru_fresh s" "lru_size (store s a n) = lru_size s"
  by (simp_all add: store_def)

lemma same_data_trans: "same_data s t \<Longrightarrow> same_data t u \<Longrightarrow> same_data s u"
  by (simp add: same_data_def)

lemma entries_of_same: "same_data s s' \<Longrightarrow> entries_of (lru_heap s') as = entries_of (lru_heap s) as"
  by (simp add: same_data_def entries_of_def)

lemma remove_node_ok:
  assumes "linked s (xs @ a # ys)"
  shows "\<exists>s'. remove_node s a = Inr s' \<and> linked s' (xs @ ys) \<and> same_data s s'"
proof (cases xs rule: rev_cases)
  case Nil
  then show ?thesis
    using assms
    by (cases ys) (auto simp: remove_node_def linked_def same_data_def data_at_def)
next
  case (snoc zs z)
  then show ?thesis
    using assms
    by (cases ys) (auto simp: remove_node_def linked_def same_data_def data_at_def last_of_def)
qed

lemma setHead_ok:
  assumes "linked s as" and "a \<notin> set as" and "lru_heap s a = Some n"
  shows "\<exists>s'. setHead s a = Inr s' \<and> linked s' (a # as) \<and> same_data s s'"
  using assms
  by (cases as) (auto simp: setHead_def linked_def same_data_def data_at_def Let_def last_of_def)

lemma move_to_head_ok:
  assumes "linked s (xs @ a # ys)"
  shows "\<exists>s1 s2. remove_node s a = Inr s1 \<and> setHead s1 a = Inr s2 \<and>
    linked s2 (a # xs @ ys) \<and> same_data s s2"
proof -
  from remove_node_ok [OF assms] obtain s1 where s1:
    "remove_node s a = Inr s1" "linked s1 (xs @ ys)" "same_data s s1" by blast
  have "a \<in> dom (lru_heap s1)"
    using assms s1(3) by (auto simp: linked_def same_data_def)
  then obtain n where n: "lru_heap s1 a = Some n" by blast
  from assms have "a \<notin> set (xs @ ys)" by (auto simp: linked_def)
  from setHead_ok [OF s1(2) this n] obtain s2 where
    "setHead s1 a = Inr s2" "linked s2 (a # xs @ ys)" "same_data s1 s2"
    by blast
  with s1 show ?thesis by (blast intro: same_data_trans)
qed

section \<open>Invariant and abstraction relation\<close>

text \<open>
  The list and the map agree: the map has one entry for each node of the list, under the node's
  key, and no two nodes have the same key.
\<close>

definition lru_ok :: "lru_cache \<Rightarrow> addr list \<Rightarrow> bool" where
  "lru_ok s as \<longleftrightarrow>
     linked s as \<and> (\<forall>a \<in> set as. a < lru_fresh s) \<and>
     distinct (map fst (entries_of (lru_heap s) as)) \<and>
     distinct (map fst (lru_mp s)) \<and>
     set (lru_mp s) = (\<lambda>a. (fst (data_at (lru_heap s) a), a)) ` set as"

definition lru_rel :: "lru_cache \<Rightarrow> entries \<Rightarrow> bool" where
  "lru_rel s xs \<longleftrightarrow> (\<exists>as. lru_ok s as \<and> xs = entries_of (lru_heap s) as)"

lemma lru_ok_length:
  assumes "lru_ok s as"
  shows "length (lru_mp s) = length as"
proof -
  have "card (set (lru_mp s)) = card (set as)"
    using assms by (simp add: lru_ok_def card_image inj_on_def)
  moreover have "distinct (lru_mp s)" and "distinct as"
    using assms by (auto simp: lru_ok_def linked_def distinct_map)
  ultimately show ?thesis by (simp add: distinct_card)
qed

lemma lru_ok_find:
  assumes "lru_ok s as"
  shows "map_of (lru_mp s) k = Some a \<longleftrightarrow> a \<in> set as \<and> fst (data_at (lru_heap s) a) = k"
proof -
  have "map_of (lru_mp s) k = Some a \<longleftrightarrow> (k, a) \<in> set (lru_mp s)"
    using assms by (simp add: lru_ok_def)
  then show ?thesis using assms by (auto simp: lru_ok_def)
qed

lemma lru_ok_keys:
  assumes "lru_ok s as"
  shows "map_of (lru_mp s) k = None \<longleftrightarrow> k \<notin> fst ` set (entries_of (lru_heap s) as)"
proof -
  have "fst ` set (lru_mp s) = fst ` set (entries_of (lru_heap s) as)"
    using assms by (auto simp: lru_ok_def entries_of_def image_image)
  then show ?thesis by (simp add: map_of_eq_None_iff)
qed

lemma lru_ok_same:
  assumes "lru_ok s as" and "linked s' as'" and "same_data s s'" and "set as' = set as"
  shows "lru_ok s' as'"
proof -
  have "distinct (map fst (entries_of (lru_heap s) as'))"
    using assms by (auto simp: lru_ok_def linked_def entries_of_def distinct_map)
  then show ?thesis
    using assms entries_of_same [OF assms(3), of as'] by (auto simp: lru_ok_def same_data_def)
qed

lemma lru_init_rel: "lru_rel (LruCache_init c) []"
  by (auto simp: lru_rel_def lru_ok_def linked_def LruCache_init_def entries_of_def
      intro: exI [of _ "[]"])

section \<open>Refinement\<close>

lemma lru_ok_split:
  assumes "lru_ok s as" and "map_of (lru_mp s) k = Some a"
  obtains xs ys n where "as = xs @ a # ys" and "lru_heap s a = Some n" and "node_key n = k"
    and "entries_of (lru_heap s) as =
      entries_of (lru_heap s) xs @ (k, node_val n) # entries_of (lru_heap s) ys"
proof -
  from lru_ok_find [OF assms(1)] assms(2) have a: "a \<in> set as" "fst (data_at (lru_heap s) a) = k"
    by blast+
  then obtain xs ys where as: "as = xs @ a # ys" by (meson split_list)
  from a(1) assms(1) obtain n where "lru_heap s a = Some n"
    by (auto simp: lru_ok_def linked_def dest: dnodes_dom)
  with a(2) as that show ?thesis by (auto simp: data_at_def entries_of_def)
qed

lemma lru_ok_move:
  assumes "lru_ok s as" and "map_of (lru_mp s) k = Some a"
  shows "\<exists>s1 s2 v. remove_node s a = Inr s1 \<and> setHead s1 a = Inr s2 \<and>
    deref s2 (Some a) = Inr v \<and> map_of (entries_of (lru_heap s) as) k = Some (node_val v) \<and>
    lru_size s2 = lru_size s \<and>
    lru_rel s2 ((k, node_val v) # AList.delete k (entries_of (lru_heap s) as))"
proof -
  from lru_ok_split [OF assms] obtain xs ys n where
    as: "as = xs @ a # ys" and n: "lru_heap s a = Some n" "node_key n = k" and
    en: "entries_of (lru_heap s) as =
      entries_of (lru_heap s) xs @ (k, node_val n) # entries_of (lru_heap s) ys" .
  from assms(1) as have "linked s (xs @ a # ys)" by (simp add: lru_ok_def)
  from move_to_head_ok [OF this] obtain s1 s2 where s: "remove_node s a = Inr s1"
    "setHead s1 a = Inr s2" "linked s2 (a # xs @ ys)" "same_data s s2" by blast
  have ok: "lru_ok s2 (a # xs @ ys)"
    using lru_ok_same [OF assms(1) s(3,4)] as by simp
  have dist: "distinct (map fst (entries_of (lru_heap s) as))"
    using assms(1) by (simp add: lru_ok_def)
  have del: "AList.delete k (entries_of (lru_heap s) as) = entries_of (lru_heap s) (xs @ ys)"
    using delete_entries [OF dist [unfolded en]] en by (simp add: entries_of_def)
  from s(3) obtain v where v: "lru_heap s2 a = Some v" by (auto simp: linked_def)
  have "node_val v = node_val n"
    using s(4) v n by (auto simp: same_data_def data_at_def dest!: spec [of _ a])
  moreover have "map_of (entries_of (lru_heap s) as) k = Some (node_val n)"
    by (subst map_of_eq_Some_iff [OF dist]) (simp add: en)
  moreover have "entries_of (lru_heap s2) (a # xs @ ys) =
      (k, node_val n) # entries_of (lru_heap s) (xs @ ys)"
    by (subst entries_of_same [OF s(4)]) (simp add: entries_of_def data_at_def n)
  ultimately show ?thesis
    using s ok v del by (auto simp: lru_rel_def same_data_def intro!: exI [of _ "a # xs @ ys"])
qed

lemma lru_get_refines:
  assumes "lru_rel s xs"
  shows "\<exists>s'. lru_get s k = Inr (fst (spec_get xs k), s') \<and> lru_rel s' (snd (spec_get xs k)) \<and>
    lru_size s' = lru_size s"
proof -
  from assms obtain as where as: "lru_ok s as" "xs = entries_of (lru_heap s) as"
    by (auto simp: lru_rel_def)
  show ?thesis
  proof (cases "map_of (lru_mp s) k")
    case None
    with lru_ok_keys [OF as(1)] as(2) have "map_of xs k = None" by (simp add: map_of_eq_None_iff)
    with None assms show ?thesis by (simp add: lru_get_def spec_get_def)
  next
    case (Some a)
    from lru_ok_move [OF as(1) Some] Some as(2) show ?thesis
      by (auto simp: lru_get_def spec_get_def)
  qed
qed

lemma lru_ok_store_val:
  assumes "lru_ok s as" and "map_of (lru_mp s) k = Some a" and "lru_heap s a = Some n"
  shows "lru_ok (store s a (n\<lparr>node_val := v\<rparr>)) as"
    and "AList.delete k (entries_of (lru_heap (store s a (n\<lparr>node_val := v\<rparr>))) as) =
      AList.delete k (entries_of (lru_heap s) as)"
proof -
  let ?h = "(lru_heap s)(a \<mapsto> n\<lparr>node_val := v\<rparr>)"
  have key: "fst (data_at ?h b) = fst (data_at (lru_heap s) b)" for b
    using assms(3) by (simp add: data_at_def)
  have "dseg ?h p as q = dseg (lru_heap s) p as q" for p q
    using assms(3) by (induction as arbitrary: p) auto
  with assms(1) key show "lru_ok (store s a (n\<lparr>node_val := v\<rparr>)) as"
    by (simp add: lru_ok_def linked_def entries_of_def comp_def)
  have ka: "fst (data_at (lru_heap s) a) = k"
    using lru_ok_find [OF assms(1)] assms(2) by blast
  have other: "data_at ?h b = data_at (lru_heap s) b" if "b \<noteq> a" for b
    using that by (simp add: data_at_def)
  have "AList.delete k (map (data_at ?h) bs) = AList.delete k (map (data_at (lru_heap s)) bs)" for bs
  proof (induction bs)
    case (Cons b bs)
    then show ?case
      by (cases "b = a") (auto simp: AList.delete_eq split_def key ka other simp del: fun_upd_apply)
  qed simp
  then show "AList.delete k (entries_of (lru_heap (store s a (n\<lparr>node_val := v\<rparr>))) as) =
      AList.delete k (entries_of (lru_heap s) as)"
    by (simp add: entries_of_def)
qed

lemma lru_ok_new_node:
  assumes "lru_ok s as" and "new_node s k v = (a, s1)"
  shows "lru_ok s1 as" and "entries_of (lru_heap s1) as = entries_of (lru_heap s) as"
    and "a \<notin> set as" and "a < lru_fresh s1" and "lru_mp s1 = lru_mp s" and "lru_size s1 = lru_size s"
    and "\<exists>n. lru_heap s1 a = Some n \<and> node_key n = k \<and> node_val n = v"
proof -
  from assms(2) have a: "a = lru_fresh s" by (simp add: new_node_def)
  then show notin: "a \<notin> set as" using assms(1) by (auto simp: lru_ok_def)
  have data: "data_at (lru_heap s1) b = data_at (lru_heap s) b" if "b \<in> set as" for b
    using that assms(2) notin by (auto simp: new_node_def data_at_def)
  then show en: "entries_of (lru_heap s1) as = entries_of (lru_heap s) as"
    by (simp add: entries_of_def)
  show "a < lru_fresh s1" "lru_mp s1 = lru_mp s" "lru_size s1 = lru_size s"
    "\<exists>n. lru_heap s1 a = Some n \<and> node_key n = k \<and> node_val n = v"
    using assms(2) by (auto simp: new_node_def)
  have "linked s1 as" and "lru_fresh s1 = Suc (lru_fresh s)"
    using assms notin by (auto simp: lru_ok_def linked_def new_node_def)
  with assms(1) en data \<open>lru_mp s1 = lru_mp s\<close> show "lru_ok s1 as"
    by (auto simp: lru_ok_def less_Suc_eq image_iff)
qed

lemma lru_evict_ok:
  assumes "lru_ok s (bs @ [t])"
  shows "\<exists>s'. lru_evict s = Inr s' \<and> lru_ok s' bs \<and> lru_fresh s' = lru_fresh s \<and>
    lru_size s' = lru_size s \<and> (\<forall>b. data_at (lru_heap s') b = data_at (lru_heap s) b) \<and>
    dom (lru_heap s') = dom (lru_heap s)"
proof -
  from assms have "linked s (bs @ t # [])" by (simp add: lru_ok_def)
  from remove_node_ok [OF this] obtain s1 where s1:
    "remove_node s t = Inr s1" "linked s1 bs" "same_data s s1" by auto
  from assms obtain n where n: "lru_heap s t = Some n" and tail: "lru_tail s = Some t"
    by (auto simp: lru_ok_def linked_def last_of_def)
  have find: "map_of (lru_mp s) (node_key n) = Some t"
    using lru_ok_find [OF assms] n by (simp add: data_at_def)
  let ?s = "s1\<lparr>lru_mp := AList.delete (node_key n) (lru_mp s1)\<rparr>"
  have ev: "lru_evict s = Inr ?s"
    using n tail find s1(1) by (simp add: lru_evict_def Let_def)
  have mp: "lru_mp s1 = lru_mp s" "lru_fresh s1 = lru_fresh s"
    and data: "data_at (lru_heap s1) b = data_at (lru_heap s) b" for b
    using s1(3) by (auto simp: same_data_def)
  have kt: "fst (data_at (lru_heap s) t) = node_key n" using n by (simp add: data_at_def)
  then have key: "node_key n \<notin> (\<lambda>b. fst (data_at (lru_heap s) b)) ` set bs"
    using assms by (simp add: lru_ok_def entries_of_def image_image)
  have "set (lru_mp s) = (\<lambda>a. (fst (data_at (lru_heap s) a), a)) ` set (bs @ [t])"
    using assms by (simp add: lru_ok_def)
  then have "set (AList.delete (node_key n) (lru_mp s)) =
      (\<lambda>a. (fst (data_at (lru_heap s) a), a)) ` set bs"
    using key kt by (auto simp: AList.delete_eq)
  moreover have "distinct (map fst (AList.delete (node_key n) (lru_mp s)))"
    using assms by (simp add: lru_ok_def distinct_delete)
  moreover have "linked ?s bs" using s1(2) by (simp add: linked_def)
  ultimately have "lru_ok ?s bs"
    using assms mp by (simp add: lru_ok_def entries_of_def data comp_def)
  with ev s1(3) show ?thesis by (auto simp: same_data_def)
qed

lemma lru_push_ok:
  assumes ok: "lru_ok s as" and a: "a \<notin> set as" "a < lru_fresh s"
    and n: "lru_heap s a = Some n" "node_key n = k" "node_val n = v"
    and k: "k \<notin> fst ` set (entries_of (lru_heap s) as)"
  shows "\<exists>s3. setHead s a = Inr s3 \<and> lru_size s3 = lru_size s \<and>
    lru_rel (s3\<lparr>lru_mp := AList.update k a (lru_mp s3)\<rparr>) ((k, v) # entries_of (lru_heap s) as)"
proof -
  from ok have "linked s as" by (simp add: lru_ok_def)
  from setHead_ok [OF this a(1) n(1)] obtain s3 where s3:
    "setHead s a = Inr s3" "linked s3 (a # as)" "same_data s s3" by blast
  let ?s = "s3\<lparr>lru_mp := AList.update k a (lru_mp s3)\<rparr>"
  have mp: "lru_mp s3 = lru_mp s" "lru_fresh s3 = lru_fresh s" "lru_size s3 = lru_size s"
    and data: "data_at (lru_heap s3) b = data_at (lru_heap s) b" for b
    using s3(3) by (auto simp: same_data_def)
  have da: "data_at (lru_heap s) a = (k, v)" using n by (simp add: data_at_def)
  have "map_of (lru_mp s) k = None" using lru_ok_keys [OF ok] k by simp
  then have knew: "k \<notin> fst ` set (lru_mp s)" by (simp add: map_of_eq_None_iff)
  then have upd: "AList.update k a (lru_mp s) = lru_mp s @ [(k, a)]"
    by (rule update_new)
  have en: "entries_of (lru_heap s3) (a # as) = (k, v) # entries_of (lru_heap s) as"
    by (simp add: entries_of_def data da)
  have "linked ?s (a # as)" using s3(2) by (simp add: linked_def)
  then have "lru_ok ?s (a # as)"
    using ok a(2) k knew upd mp en by (simp add: lru_ok_def data da)
  then have "lru_rel ?s ((k, v) # entries_of (lru_heap s) as)"
    using en by (auto simp: lru_rel_def intro!: exI [of _ "a # as"])
  with s3(1) mp show ?thesis by blast
qed

lemma lru_set_old:
  assumes ok: "lru_ok s as" and find: "map_of (lru_mp s) k = Some a"
  shows "\<exists>s'. lru_set s k v = Inr s' \<and> lru_size s' = lru_size s \<and>
    lru_rel s' ((k, v) # AList.delete k (entries_of (lru_heap s) as))"
proof -
  from lru_ok_split [OF ok find] obtain xs ys n where
    as: "as = xs @ a # ys" and n: "lru_heap s a = Some n" "node_key n = k" by metis
  let ?s = "store s a (n\<lparr>node_val := v\<rparr>)"
  note st = lru_ok_store_val [OF ok find n(1), of v]
  from find have "map_of (lru_mp ?s) k = Some a" by simp
  from lru_ok_move [OF st(1) this] obtain s1 s2 w where w:
    "remove_node ?s a = Inr s1" "setHead s1 a = Inr s2" "deref s2 (Some a) = Inr w"
    "map_of (entries_of (lru_heap ?s) as) k = Some (node_val w)" "lru_size s2 = lru_size ?s"
    "lru_rel s2 ((k, node_val w) # AList.delete k (entries_of (lru_heap ?s) as))"
    by blast
  have "map_of (entries_of (lru_heap ?s) as) k = Some v"
    using st(1) as n by (subst map_of_eq_Some_iff) (auto simp: lru_ok_def entries_of_def data_at_def)
  with w have "node_val w = v" by simp
  with w st(2) n find show ?thesis by (auto simp: lru_set_def)
qed

lemma lru_set_new:
  assumes ok: "lru_ok s as" and find: "map_of (lru_mp s) k = None"
    and size: "0 < lru_size s" "lru_size s \<le> INT_MAX"
  shows "\<exists>s'. lru_set s k v = Inr s' \<and> lru_size s' = lru_size s \<and>
    lru_rel s' ((k, v) # (if nat (lru_size s) \<le> length as
      then butlast (entries_of (lru_heap s) as) else entries_of (lru_heap s) as))"
proof -
  obtain a s1 where new: "new_node s k v = (a, s1)" by fastforce
  note n = lru_ok_new_node [OF ok new]
  from n(7) obtain nd where nd: "lru_heap s1 a = Some nd" "node_key nd = k" "node_val nd = v" by blast
  have k: "k \<notin> fst ` set (entries_of (lru_heap s1) as)"
    using lru_ok_keys [OF ok] find n(2) by simp
  have full: "map_full s1 \<longleftrightarrow> nat (lru_size s) \<le> length as"
    using size lru_ok_length [OF n(1)] n(6) by (auto simp: map_full_def INT_MAX_def)
  show ?thesis
  proof (cases "map_full s1")
    case False
    with lru_push_ok [OF n(1,3,4) nd k] new find full n(2,6) show ?thesis
      by (auto simp: lru_set_def)
  next
    case True
    with full size have "as \<noteq> []" by auto
    then obtain bs t where as: "as = bs @ [t]" by (meson rev_exhaust)
    from lru_evict_ok n(1) as obtain s2 where s2: "lru_evict s1 = Inr s2" "lru_ok s2 bs"
      "lru_fresh s2 = lru_fresh s1" "lru_size s2 = lru_size s1"
      "\<And>b. data_at (lru_heap s2) b = data_at (lru_heap s1) b"
      "dom (lru_heap s2) = dom (lru_heap s1)" by blast
    from s2(6) nd(1) obtain m where m: "lru_heap s2 a = Some m" by blast
    with s2(5) [of a] nd have md: "node_key m = k" "node_val m = v" by (simp_all add: data_at_def)
    have en: "entries_of (lru_heap s2) bs = butlast (entries_of (lru_heap s) as)"
      using n(2) as s2(5) by (simp add: entries_of_def map_butlast)
    then have k2: "k \<notin> fst ` set (entries_of (lru_heap s2) bs)"
      using k n(2) by (auto dest: in_set_butlastD)
    from lru_push_ok [OF s2(2) _ _ m md k2] n(3,4) as s2(3) have
      "\<exists>s3. setHead s2 a = Inr s3 \<and> lru_size s3 = lru_size s2 \<and>
        lru_rel (s3\<lparr>lru_mp := AList.update k a (lru_mp s3)\<rparr>) ((k, v) # entries_of (lru_heap s2) bs)"
      by simp
    with True full en s2(1,4) new find n(6) show ?thesis by (auto simp: lru_set_def)
  qed
qed

text \<open>A cache with a positive capacity that fits an \<open>int\<close>, holding at most that many entries.\<close>

definition lru_state :: "lru_cache \<Rightarrow> entries \<Rightarrow> bool" where
  "lru_state s xs \<longleftrightarrow>
     lru_rel s xs \<and> 0 < lru_size s \<and> lru_size s \<le> INT_MAX \<and> int (length xs) \<le> lru_size s"

lemma lru_rel_distinct: "lru_rel s xs \<Longrightarrow> distinct (map fst xs)"
  by (auto simp: lru_rel_def lru_ok_def)

lemma lru_state_wf: "lru_state s xs \<Longrightarrow> cache_wf (nat (lru_size s)) xs"
  by (auto simp: lru_state_def cache_wf_def lru_rel_distinct)

lemma lru_set_refines:
  assumes "lru_state s xs"
  shows "\<exists>s'. lru_set s k v = Inr s' \<and> lru_rel s' (spec_set (nat (lru_size s)) xs k v) \<and>
    lru_size s' = lru_size s"
proof -
  from assms obtain as where as: "lru_ok s as" "xs = entries_of (lru_heap s) as"
    and size: "0 < lru_size s" "lru_size s \<le> INT_MAX"
    by (auto simp: lru_state_def lru_rel_def)
  have len: "length xs = length as" by (simp add: as(2) entries_of_def)
  show ?thesis
  proof (cases "map_of (lru_mp s) k")
    case None
    then have "k \<notin> fst ` set xs" using lru_ok_keys [OF as(1)] as(2) by simp
    with lru_set_new [OF as(1) None size, of v] as(2) len show ?thesis
      by (auto simp: spec_set_def)
  next
    case (Some a)
    then have "k \<in> fst ` set xs" using lru_ok_keys [OF as(1), of k] as(2) by simp
    with lru_set_old [OF as(1) Some, of v] as(2) show ?thesis
      by (simp add: spec_set_def) blast
  qed
qed

interpretation lru: lru_contract lru_state "\<lambda>s. nat (lru_size s)" lru_get lru_set
proof
  fix s xs k assume st: "lru_state s xs"
  then show "0 < nat (lru_size s)" by (simp add: lru_state_def)
  show wf: "cache_wf (nat (lru_size s)) xs" using st by (rule lru_state_wf)
  from st have "lru_rel s xs" by (simp add: lru_state_def)
  from lru_get_refines [OF this, of k] wf_spec_get [OF wf, of k] st
  show "\<exists>s'. lru_get s k = Inr (fst (spec_get xs k), s') \<and> lru_state s' (snd (spec_get xs k)) \<and>
      nat (lru_size s') = nat (lru_size s)"
    by (auto simp: lru_state_def cache_wf_def)
next
  fix s xs k v assume st: "lru_state s xs"
  from lru_set_refines [OF this, of k v] wf_spec_set [OF lru_state_wf [OF st], of k v] st
  show "\<exists>s'. lru_set s k v = Inr s' \<and> lru_state s' (spec_set (nat (lru_size s)) xs k v) \<and>
      nat (lru_size s') = nat (lru_size s)"
    by (auto simp: lru_state_def cache_wf_def)
qed

lemma lru_init_state: "0 < c \<Longrightarrow> c \<le> INT_MAX \<Longrightarrow> lru_state (LruCache_init c) []"
  using lru_init_rel by (auto simp: lru_state_def LruCache_init_def)

section \<open>Properties\<close>

text \<open>
  C1. Refinement: any sequence of \<open>set\<close> and \<open>get\<close> calls on a new cache of positive capacity runs
  without dereferencing a null pointer, and every \<open>get\<close> returns what the abstract
  least-recently-used list of that capacity returns; the final heap again represents that list.
\<close>

theorem lru_refines_spec:
  assumes "0 < c" and "c \<le> INT_MAX"
  shows "\<exists>s. run_ops lru_get lru_set (LruCache_init c) ops =
      Inr (fst (spec_run (nat c) [] ops), s) \<and> lru_rel s (snd (spec_run (nat c) [] ops)) \<and>
      length (snd (spec_run (nat c) [] ops)) \<le> nat c"
proof -
  have cap: "nat (lru_size (LruCache_init c)) = nat c" by (simp add: LruCache_init_def)
  from lru.run_ok [OF lru_init_state [OF assms], of ops] obtain s where
    s: "run_ops lru_get lru_set (LruCache_init c) ops = Inr (fst (spec_run (nat c) [] ops), s)"
    "lru_state s (snd (spec_run (nat c) [] ops))" "nat (lru_size s) = nat c"
    unfolding cap by blast
  with lru_state_wf [OF s(2)] show ?thesis by (auto simp: lru_state_def cache_wf_def)
qed

theorem lru_refines_spec_witness:
  "\<exists>s. run_ops lru_get lru_set (LruCache_init 2)
      [Set_Op ''a'' ''1'', Set_Op ''b'' ''2'', Get_Op ''a'', Set_Op ''c'' ''3'', Get_Op ''b'', Get_Op ''a''] =
      Inr ([''1'', [], ''1''], s)"
  using lru_refines_spec [of 2 "[Set_Op ''a'' ''1'', Set_Op ''b'' ''2'', Get_Op ''a'',
      Set_Op ''c'' ''3'', Get_Op ''b'', Get_Op ''a'']"]
  by (auto simp: INT_MAX_def spec_get_def spec_set_def)

text \<open>
  An entry is not lost while fewer distinct other keys than the capacity are used: after
  \<open>set(k, v)\<close> and any calls that do not set \<open>k\<close> again and use fewer than \<open>capacity\<close> other keys,
  \<open>get(k)\<close> still returns \<open>v\<close>.
\<close>

theorem lru_entry_survives:
  assumes "0 < c" and "c \<le> INT_MAX"
    and "\<exists>vs. run_ops lru_get lru_set (LruCache_init c) before = Inr (vs, s)"
    and "card (op_key ` set ops - {k}) < nat c" and "\<forall>v'. Set_Op k v' \<notin> set ops"
  shows "\<exists>vs s'. run_ops lru_get lru_set s (Set_Op k v # ops @ [Get_Op k]) = Inr (vs @ [v], s')"
proof -
  from lru.run_ok [OF lru_init_state [OF assms(1,2)], of before] assms(3) obtain xs where
    "lru_state s xs" "nat (lru_size s) = nat c"
    by (auto simp: LruCache_init_def)
  with lru.survives assms(4,5) show ?thesis by metis
qed

theorem lru_entry_survives_witness:
  "\<exists>vs s'. run_ops lru_get lru_set (LruCache_init 2)
      (Set_Op ''k'' ''v'' # [Set_Op ''x'' ''1'', Get_Op ''x'', Set_Op ''x'' ''2''] @ [Get_Op ''k'']) =
      Inr (vs @ [''v''], s')"
  by (rule lru_entry_survives [where c = 2 and before = "[]"]) (auto simp: INT_MAX_def)

text \<open>
  With capacity \<open>0\<close> the first \<open>set\<close> finds the map full while the list is empty and
  dereferences the null \<open>tail\<close>.
\<close>

theorem lru_zero_capacity: "lru_set (LruCache_init 0) k v = Inl Null_Deref"
  by (simp add: lru_set_def LruCache_init_def new_node_def map_full_def lru_evict_def deref_def store_def)

end
