(* ===== verification/Std_Map.thy ===== *)
theory Std_Map
  imports Cxx_Prelude
begin

text \<open>
  \<open>std::map\<close> as the sources use it: an association list with strictly increasing keys. An
  iterator is the rest of the list from its element on; \<open>end()\<close> is the empty list.
\<close>

type_synonym ('k, 'v) omap = "('k \<times> 'v) list"

definition map_wf :: "('k::linorder, 'v) omap \<Rightarrow> bool" where
  "map_wf m \<longleftrightarrow> sorted_wrt (<) (map fst m)"

text \<open>\<open>m[k] = v\<close>\<close>

fun map_assign :: "('k::linorder, 'v) omap \<Rightarrow> 'k \<Rightarrow> 'v \<Rightarrow> ('k, 'v) omap" where
  "map_assign [] k v = [(k, v)]"
| "map_assign ((k', v') # m) k v =
     (if k < k' then (k, v) # (k', v') # m
      else if k = k' then (k, v) # m
      else (k', v') # map_assign m k v)"

text \<open>\<open>m.insert({k, v})\<close>: an element that is already there is kept.\<close>

definition map_insert :: "('k::linorder, 'v) omap \<Rightarrow> 'k \<Rightarrow> 'v \<Rightarrow> ('k, 'v) omap" where
  "map_insert m k v = (if map_of m k = None then map_assign m k v else m)"

definition map_erase :: "('k, 'v) omap \<Rightarrow> 'k \<Rightarrow> ('k, 'v) omap" where
  "map_erase m k = filter (\<lambda>(k', v). k' \<noteq> k) m"

definition lower_bound :: "('k::linorder, 'v) omap \<Rightarrow> 'k \<Rightarrow> ('k, 'v) omap" where
  "lower_bound m k = dropWhile (\<lambda>(k', v). k' < k) m"

definition upper_bound :: "('k::linorder, 'v) omap \<Rightarrow> 'k \<Rightarrow> ('k, 'v) omap" where
  "upper_bound m k = dropWhile (\<lambda>(k', v). k' \<le> k) m"

text \<open>Dereferencing \<open>end()\<close> is undefined.\<close>

definition iter_second :: "('k, 'v) omap \<Rightarrow> 'v res" where
  "iter_second it = (case it of [] \<Rightarrow> Inl Out_Of_Bounds | (k, v) # _ \<Rightarrow> Inr v)"

section \<open>Lookup after each operation\<close>

lemma fst_map_assign: "fst ` set (map_assign m k v) = insert k (fst ` set m)"
  by (induction m k v rule: map_assign.induct) (simp_all add: insert_commute)

lemma map_wf_Cons: "map_wf ((k, v) # m) \<longleftrightarrow> (\<forall>k' \<in> fst ` set m. k < k') \<and> map_wf m"
  by (auto simp: map_wf_def)

lemma map_wf_Nil [simp]: "map_wf []"
  by (simp add: map_wf_def)

lemma map_wf_assign [simp]: "map_wf m \<Longrightarrow> map_wf (map_assign m k v)"
proof (induction m)
  case Nil
  then show ?case by (simp add: map_wf_def)
next
  case (Cons p m)
  then show ?case by (cases p) (auto simp: map_wf_Cons fst_map_assign)
qed

lemma map_wf_insert [simp]: "map_wf m \<Longrightarrow> map_wf (map_insert m k v)"
  by (simp add: map_insert_def)

lemma map_wf_erase [simp]: "map_wf m \<Longrightarrow> map_wf (map_erase m k)"
proof (induction m)
  case (Cons p m)
  then show ?case by (cases p) (auto simp: map_wf_Cons map_erase_def)
qed (simp add: map_erase_def)

lemma map_of_assign: "map_wf m \<Longrightarrow> map_of (map_assign m k v) = (map_of m)(k \<mapsto> v)"
proof (induction m)
  case (Cons p m)
  obtain a b where p: "p = (a, b)" by (cases p)
  show ?case
  proof (cases "k < a")
    case True
    then show ?thesis by (simp add: p fun_eq_iff)
  next
    case False
    then show ?thesis using Cons by (auto simp: p map_wf_Cons fun_eq_iff)
  qed
qed simp

lemma map_of_insert:
  "map_wf m \<Longrightarrow> map_of (map_insert m k v) = (if map_of m k = None then (map_of m)(k \<mapsto> v) else map_of m)"
  by (simp add: map_insert_def map_of_assign)

lemma map_of_erase: "map_of (map_erase m k) = (map_of m)(k := None)"
  by (induction m) (auto simp: map_erase_def fun_eq_iff)

section \<open>Bounds\<close>

text \<open>The clockwise successor of a point in a set of points on a ring.\<close>

definition ring_succ :: "'k::linorder set \<Rightarrow> 'k \<Rightarrow> 'k" where
  "ring_succ D h = (if \<exists>d \<in> D. h \<le> d then Min {d \<in> D. h \<le> d} else Min D)"

lemma ring_succ_self: "finite D \<Longrightarrow> h \<in> D \<Longrightarrow> ring_succ D h = h"
  unfolding ring_succ_def by (auto intro!: Min_eqI)

lemma ring_succ_in:
  assumes "finite D" and "D \<noteq> {}"
  shows "ring_succ D h \<in> D"
proof (cases "\<exists>d \<in> D. h \<le> d")
  case True
  then have "Min {d \<in> D. h \<le> d} \<in> {d \<in> D. h \<le> d}" using assms(1) by (intro Min_in) auto
  then show ?thesis using True by (simp add: ring_succ_def)
next
  case False
  then show ?thesis using assms by (simp add: ring_succ_def)
qed

text \<open>A successor among more points that is one of the old points is the old successor.\<close>

lemma ring_succ_subset:
  assumes fin: "finite D'" and sub: "D \<subseteq> D'" and inD: "ring_succ D' h \<in> D"
  shows "ring_succ D h = ring_succ D' h"
proof -
  let ?p = "ring_succ D' h"
  have finD: "finite D" using fin sub by (rule rev_finite_subset)
  show ?thesis
  proof (cases "\<exists>d \<in> D'. h \<le> d")
    case True
    then have p: "?p = Min {d \<in> D'. h \<le> d}" by (simp add: ring_succ_def)
    have "?p \<in> {d \<in> D'. h \<le> d}" unfolding p using fin True by (intro Min_in) auto
    then have hp: "h \<le> ?p" by simp
    have "Min {d \<in> D. h \<le> d} = ?p"
    proof (rule Min_eqI)
      show "finite {d \<in> D. h \<le> d}" using finD by simp
      show "?p \<in> {d \<in> D. h \<le> d}" using inD hp by simp
      fix d assume "d \<in> {d \<in> D. h \<le> d}"
      then have "d \<in> {d \<in> D'. h \<le> d}" using sub by blast
      then show "?p \<le> d" unfolding p using fin by (intro Min_le) auto
    qed
    then show ?thesis using inD hp by (auto simp: ring_succ_def [of D])
  next
    case False
    then have p: "?p = Min D'" by (simp add: ring_succ_def)
    have "Min D = ?p"
      using finD inD fin sub unfolding p by (intro Min_eqI) (auto intro: Min_le)
    then show ?thesis using False sub by (auto simp: ring_succ_def [of D])
  qed
qed

lemma Min_map_wf: "map_wf ((k, v) # m) \<Longrightarrow> Min (fst ` set ((k, v) # m)) = k"
  by (intro Min_eqI) (auto simp: map_wf_Cons less_imp_le)

lemma lower_bound_cases:
  assumes "map_wf m"
  shows "case lower_bound m h of
      [] \<Rightarrow> \<forall>k \<in> fst ` set m. k < h
    | (k, v) # r \<Rightarrow> map_of m k = Some v \<and> h \<le> k \<and> Min {d \<in> fst ` set m. h \<le> d} = k"
  using assms
proof (induction m)
  case (Cons p m)
  obtain a b where p: "p = (a, b)" by (cases p)
  show ?case
  proof (cases "a < h")
    case True
    then have "{d \<in> fst ` set (p # m). h \<le> d} = {d \<in> fst ` set m. h \<le> d}" by (auto simp: p)
    moreover have "lower_bound (p # m) h = lower_bound m h"
      using True by (simp add: p lower_bound_def)
    moreover have "map_wf m" using Cons.prems by (simp add: p map_wf_Cons)
    note Cons.IH [OF this]
    ultimately show ?thesis
      using True by (cases "lower_bound m h") (auto simp: p)
  next
    case False
    then have "Min {d \<in> fst ` set (p # m). h \<le> d} = a"
      using Cons.prems by (intro Min_eqI) (auto simp: p map_wf_Cons less_imp_le)
    with False show ?thesis by (simp add: p lower_bound_def)
  qed
qed (simp add: lower_bound_def)

end
