(* ===== verification/Cxx_Strings.thy ===== *)
theory Cxx_Strings
  imports Cxx_Prelude
begin

text \<open>
  The string conversions of the C++ library the sources use: \<open>std::to_string(int)\<close>,
  \<open>std::stoi\<close>, \<open>find_last_of\<close>, \<open>find_first_of\<close> and \<open>substr\<close>. A \<open>std::string\<close> is a list of bytes.
\<close>

section \<open>Decimal numbers\<close>

definition digit_char :: "nat \<Rightarrow> char" where
  "digit_char d = char_of (48 + d)"

fun nat_str :: "nat \<Rightarrow> string" where
  "nat_str n = (if n < 10 then [digit_char n] else nat_str (n div 10) @ [digit_char (n mod 10)])"

declare nat_str.simps [simp del]

definition to_string :: "int \<Rightarrow> string" where
  "to_string i = (if i < 0 then CHR ''-'' # nat_str (nat (- i)) else nat_str (nat i))"

definition is_digit :: "char \<Rightarrow> bool" where
  "is_digit c \<longleftrightarrow> 48 \<le> (of_char c :: nat) \<and> (of_char c :: nat) \<le> 57"

definition digit_val :: "char \<Rightarrow> int" where
  "digit_val c = int (of_char c) - 48"

definition is_space :: "char \<Rightarrow> bool" where
  "is_space c \<longleftrightarrow> c = CHR '' '' \<or> 9 \<le> (of_char c :: nat) \<and> (of_char c :: nat) \<le> 13"

definition digits_val :: "string \<Rightarrow> int" where
  "digits_val ds = foldl (\<lambda>n c. 10 * n + digit_val c) 0 ds"

text \<open>
  \<open>stoi\<close> skips leading white space, takes an optional sign and the longest run of digits; it throws
  \<open>invalid_argument\<close> when there is none and \<open>out_of_range\<close> when the value is not an \<open>int\<close>.
\<close>

definition stoi :: "string \<Rightarrow> int res" where
  "stoi s =
     (let t = dropWhile is_space s;
          neg = (t \<noteq> [] \<and> hd t = CHR ''-'');
          u = (if t \<noteq> [] \<and> (hd t = CHR ''-'' \<or> hd t = CHR ''+'') then tl t else t);
          ds = takeWhile is_digit u;
          n = (if neg then - digits_val ds else digits_val ds)
      in if ds = [] then Inl (Uncaught_Exception ''invalid_argument'')
         else if in_int n then Inr n
         else Inl (Uncaught_Exception ''out_of_range''))"

section \<open>Searching and cutting\<close>

text \<open>\<open>npos\<close> is \<open>None\<close>.\<close>

fun find_first_of :: "string \<Rightarrow> char \<Rightarrow> nat option" where
  "find_first_of [] c = None"
| "find_first_of (x # xs) c = (if x = c then Some 0 else map_option Suc (find_first_of xs c))"

definition find_last_of :: "string \<Rightarrow> char \<Rightarrow> nat option" where
  "find_last_of s c = map_option (\<lambda>i. length s - 1 - i) (find_first_of (rev s) c)"

text \<open>
  The result of \<open>find\<close> stored in an \<open>int\<close> is \<open>-1\<close> for \<open>npos\<close>; passed back as a count it is the
  whole string, and \<open>cut + 1\<close> is then position \<open>0\<close>.
\<close>

definition cut_before :: "string \<Rightarrow> nat option \<Rightarrow> string" where
  "cut_before s p = (case p of None \<Rightarrow> s | Some i \<Rightarrow> take i s)"

definition cut_after :: "string \<Rightarrow> nat option \<Rightarrow> string" where
  "cut_after s p = (case p of None \<Rightarrow> s | Some i \<Rightarrow> drop (Suc i) s)"

section \<open>Round trip\<close>

lemma of_char_digit: "d < 10 \<Longrightarrow> (of_char (digit_char d) :: nat) = 48 + d"
  by (simp add: digit_char_def of_char_of)

lemma is_digit_char [simp]: "d < 10 \<Longrightarrow> is_digit (digit_char d)"
  by (simp add: is_digit_def of_char_digit)

lemma digit_val_char [simp]: "d < 10 \<Longrightarrow> digit_val (digit_char d) = int d"
  by (simp add: digit_val_def of_char_digit)

lemma nat_str_digits: "list_all is_digit (nat_str n)" and nat_str_nonempty: "nat_str n \<noteq> []"
  by (induction n rule: nat_str.induct) (subst nat_str.simps, simp)+

lemma digits_val_snoc: "digits_val (ds @ [c]) = 10 * digits_val ds + digit_val c"
  by (simp add: digits_val_def)

lemma digits_val_nat_str: "digits_val (nat_str n) = int n"
proof (induction n rule: nat_str.induct)
  case (1 n)
  show ?case
  proof (cases "n < 10")
    case True
    then show ?thesis by (subst nat_str.simps) (simp add: digits_val_def)
  next
    case False
    with 1 have "digits_val (nat_str n) = 10 * int (n div 10) + int (n mod 10)"
      by (subst nat_str.simps) (simp add: digits_val_snoc)
    then show ?thesis by presburger
  qed
qed

lemma length_nat_str: "n < 10 ^ k \<Longrightarrow> 0 < k \<Longrightarrow> length (nat_str n) \<le> k"
proof (induction n arbitrary: k rule: nat_str.induct)
  case (1 n)
  show ?case
  proof (cases "n < 10")
    case True
    then show ?thesis using 1(3) by (subst nat_str.simps) simp
  next
    case False
    then obtain j where j: "k = Suc j" "0 < j" using 1(2,3) by (cases k; cases "k - 1") auto
    then have "n div 10 < 10 ^ j" using 1(2) by (simp add: less_mult_imp_div_less mult.commute)
    then have "length (nat_str (n div 10)) \<le> j" using 1(1) False j by simp
    then show ?thesis using False j by (subst nat_str.simps) simp
  qed
qed

lemma nat_str_inj: "nat_str m = nat_str n \<Longrightarrow> m = n"
proof -
  assume "nat_str m = nat_str n"
  then have "digits_val (nat_str m) = digits_val (nat_str n)" by simp
  then show ?thesis by (simp add: digits_val_nat_str)
qed

lemma takeWhile_digits: "list_all is_digit ds \<Longrightarrow> takeWhile is_digit ds = ds"
  by (induction ds) auto

lemma digit_not_space: "is_digit c \<Longrightarrow> \<not> is_space c \<and> c \<noteq> CHR ''-'' \<and> c \<noteq> CHR ''+''"
  by (auto simp: is_digit_def is_space_def)

lemma stoi_nat_str:
  assumes "int n \<le> INT_MAX"
  shows "stoi (nat_str n) = Inr (int n)"
proof -
  obtain c cs where s: "nat_str n = c # cs" using nat_str_nonempty by (meson neq_Nil_conv)
  with nat_str_digits [of n] have c: "is_digit c" and all: "list_all is_digit (nat_str n)" by auto
  have "in_int (int n)" using assms by (simp add: in_int_def INT_MIN_def)
  then show ?thesis
    using s digit_not_space [OF c] takeWhile_digits [OF all] digits_val_nat_str [of n]
    by (simp add: stoi_def Let_def)
qed

lemma find_last_of_append:
  assumes "c \<notin> set t"
  shows "find_last_of (s @ c # t) c = Some (length s)"
proof -
  have "find_first_of (us @ c # vs) c = Some (length us)" if "c \<notin> set us" for us vs
    using that by (induction us) auto
  from this [of "rev t" "rev s"] assms show ?thesis by (simp add: find_last_of_def)
qed

lemma colon_not_digit: "list_all is_digit ds \<Longrightarrow> CHR '':'' \<notin> set ds"
  by (induction ds) (auto simp: is_digit_def)

lemma find_first_of_bound: "find_first_of s c = Some i \<Longrightarrow> i < length s"
  by (induction s arbitrary: i) (auto split: if_splits)

lemma find_last_of_bound: "find_last_of s c = Some i \<Longrightarrow> i < length s"
  using find_first_of_bound [of "rev s" c] by (auto simp: find_last_of_def)

lemma find_first_of_none: "find_first_of s c = None \<longleftrightarrow> c \<notin> set s"
  by (induction s) auto

lemma find_last_of_none: "find_last_of s c = None \<longleftrightarrow> c \<notin> set s"
  by (simp add: find_last_of_def find_first_of_none)

end
