(* ===== verification/Con_Hash.thy ===== *)
theory Con_Hash
  imports Std_Map Cxx_Strings
begin

unbundle bit_operations_syntax

text \<open>
  Consistent hashing (\<open>ConsistentHash::hash\<close>, consistentHash.cpp, and \<open>class NodeConHash\<close>,
  nodeConHash.h and nodeConHash.cpp of Project/Mini_DCS): a 32-bit hash of the key, and a ring of
  virtual nodes kept in a \<open>std::map<uint32_t, string>\<close>.
\<close>

section \<open>The hash function\<close>

text \<open>\<open>key[idx]\<close> is a signed 8-bit \<open>char\<close>, extended to 32 bits before the exclusive or.\<close>

definition fnv_step :: "32 word \<Rightarrow> char \<Rightarrow> 32 word" where
  "fnv_step h c = (h XOR (scast (of_char c :: 8 word))) * 16777619"

definition hash :: "string \<Rightarrow> 32 word" where
  "hash key =
     (let h0 = foldl fnv_step 2166136261 key;
          h1 = h0 + push_bit 13 h0;
          h2 = h1 XOR drop_bit 7 h1;
          h3 = h2 + push_bit 3 h2;
          h4 = h3 XOR drop_bit 17 h3;
          h5 = h4 + push_bit 5 h4
      in if h5 < 0 then - h5 else h5)"

section \<open>The ring\<close>

record node_con_hash =
  virtualCopys :: nat
  allPhysicalMachine :: "string list"
  mp_itoIpPort :: "(32 word, string) omap"

definition NodeConHash_init :: "nat \<Rightarrow> node_con_hash" where
  "NodeConHash_init copies =
     \<lparr>virtualCopys = copies, allPhysicalMachine = [], mp_itoIpPort = []\<rparr>"

definition virtual_point :: "string \<Rightarrow> nat \<Rightarrow> 32 word" where
  "virtual_point ip_port i = hash (ip_port @ to_string (int i))"

definition addPhysicalMachine :: "node_con_hash \<Rightarrow> string \<Rightarrow> node_con_hash" where
  "addPhysicalMachine s ip_port =
     s\<lparr>allPhysicalMachine := allPhysicalMachine s @ [ip_port],
       mp_itoIpPort := foldl (\<lambda>m i. map_assign m (virtual_point ip_port i) ip_port)
                         (mp_itoIpPort s) [0..<virtualCopys s]\<rparr>"

text \<open>
  The loop of \<open>deletePhysicalMachine\<close> over the vector erases while it iterates and increments the
  iterator after the erase too. With iterators as positions, erasing shifts the rest down; the
  loop ends only when the position meets the end, and reads behind the vector once it has passed it.
\<close>

function erase_loop :: "string list \<Rightarrow> string \<Rightarrow> nat \<Rightarrow> string list res" where
  "erase_loop v ip i =
     (if i = length v then Inr v
      else bind_res (vget v i) (\<lambda>x.
        erase_loop (if x = ip then take i v @ drop (Suc i) v else v) ip (Suc i)))"
  by pat_completeness auto
termination
  by (relation "measure (\<lambda>(v, ip, i). Suc (length v) - i)") (auto simp: vget_eq_Inr)

declare erase_loop.simps [simp del]

definition deletePhysicalMachine :: "node_con_hash \<Rightarrow> string \<Rightarrow> node_con_hash res" where
  "deletePhysicalMachine s ip_port =
     bind_res (erase_loop (allPhysicalMachine s) ip_port 0) (\<lambda>v.
     Inr (s\<lparr>allPhysicalMachine := v,
            mp_itoIpPort := foldl (\<lambda>m i. map_erase m (virtual_point ip_port i))
                              (mp_itoIpPort s) [0..<virtualCopys s]\<rparr>))"

definition findPhysicalAccordKey :: "node_con_hash \<Rightarrow> string \<Rightarrow> string res" where
  "findPhysicalAccordKey s key =
     (let it = lower_bound (mp_itoIpPort s) (hash key)
      in if it = [] then iter_second (mp_itoIpPort s) else iter_second it)"

definition RefreshIpList :: "node_con_hash \<Rightarrow> string list \<Rightarrow> node_con_hash" where
  "RefreshIpList s allipls =
     foldl addPhysicalMachine (s\<lparr>allPhysicalMachine := [], mp_itoIpPort := []\<rparr>) allipls"

definition GetServerIndex :: "node_con_hash \<Rightarrow> string \<Rightarrow> string res" where
  "GetServerIndex s key = findPhysicalAccordKey s key"

section \<open>The mixing steps are injective\<close>

lemma odd_mult_inj:
  fixes x y k i :: "32 word"
  assumes "k * i = 1" and "k * x = k * y"
  shows "x = y"
proof -
  have "x = (k * i) * x" using assms(1) by simp
  also have "\<dots> = i * (k * x)" by (simp only: ac_simps)
  also have "\<dots> = i * (k * y)" by (simp only: assms(2))
  also have "\<dots> = (k * i) * y" by (simp only: ac_simps)
  finally show ?thesis using assms(1) by simp
qed

lemma push_bit_add: "(x :: 32 word) + push_bit n x = (1 + 2 ^ n) * x"
  by (simp add: push_bit_eq_mult distrib_right)

lemma shift_add_inj:
  fixes x y :: "32 word"
  shows "x + push_bit 13 x = y + push_bit 13 y \<Longrightarrow> x = y"
    and "x + push_bit 3 x = y + push_bit 3 y \<Longrightarrow> x = y"
    and "x + push_bit 5 x = y + push_bit 5 y \<Longrightarrow> x = y"
  using odd_mult_inj [of 8193 67100673 x y] odd_mult_inj [of 9 954437177 x y]
    odd_mult_inj [of 33 1041204193 x y]
  by (simp_all add: push_bit_add)

lemma xor_shift_7:
  fixes x :: "32 word"
  defines "y \<equiv> x XOR drop_bit 7 x"
  shows "y XOR drop_bit 7 y XOR drop_bit 14 y XOR drop_bit 21 y XOR drop_bit 28 y = x"
  unfolding y_def by (simp add: drop_bit_drop_bit ac_simps)

lemma xor_shift_17:
  fixes x :: "32 word"
  defines "y \<equiv> x XOR drop_bit 17 x"
  shows "y XOR drop_bit 17 y = x"
  unfolding y_def by (simp add: drop_bit_drop_bit ac_simps)

lemma xor_shift_inj:
  fixes x y :: "32 word"
  shows "x XOR drop_bit 7 x = y XOR drop_bit 7 y \<Longrightarrow> x = y"
    and "x XOR drop_bit 17 x = y XOR drop_bit 17 y \<Longrightarrow> x = y"
  using xor_shift_7 [of x] xor_shift_7 [of y] xor_shift_17 [of x] xor_shift_17 [of y] by simp_all

lemma word_not_neg: "(h :: 32 word) < 0 \<longleftrightarrow> False"
  by simp

lemma hash_eq_fnv: "hash s = hash t \<longleftrightarrow> foldl fnv_step 2166136261 s = foldl fnv_step 2166136261 t"
proof
  assume "hash s = hash t"
  then show "foldl fnv_step 2166136261 s = foldl fnv_step 2166136261 t"
    unfolding hash_def Let_def word_not_neg if_False by (blast dest: shift_add_inj xor_shift_inj)
qed (simp only: hash_def)

lemma fnv_step_eq:
  "fnv_step g c = fnv_step h d \<longleftrightarrow>
     g XOR scast (of_char c :: 8 word) = h XOR scast (of_char d :: 8 word)"
proof
  have inv: "(16777619 :: 32 word) * 899433627 = 1" by simp
  assume "fnv_step g c = fnv_step h d"
  then have "16777619 * (g XOR scast (of_char c :: 8 word)) = 16777619 * (h XOR scast (of_char d :: 8 word))"
    by (simp only: fnv_step_def mult.commute)
  with inv show "g XOR scast (of_char c :: 8 word) = h XOR scast (of_char d :: 8 word)"
    by (rule odd_mult_inj)
qed (simp only: fnv_step_def)

lemma xor_cancel_left:
  fixes h x y :: "32 word"
  assumes "h XOR x = h XOR y"
  shows "x = y"
proof -
  have "h XOR (h XOR x) = h XOR (h XOR y)" using assms by (rule arg_cong)
  then show ?thesis by (simp only: xor.left_commute bit.xor_left_self)
qed

lemma fnv_step_inj_state: "fnv_step g c = fnv_step h c \<Longrightarrow> g = h"
  unfolding fnv_step_eq by (subst (asm) (1 2) xor.commute) (rule xor_cancel_left)

lemma unat_char: "unat (of_char c :: 8 word) = of_char c"
proof -
  have "unat (of_nat (of_char c) :: 8 word) = of_char c" by (simp add: unat_of_nat)
  then show ?thesis by (simp only: of_nat_of_char)
qed

lemma fnv_step_inj_char: "fnv_step h c = fnv_step h d \<Longrightarrow> c = d"
proof -
  assume "fnv_step h c = fnv_step h d"
  then have "(scast (of_char c :: 8 word) :: 32 word) = scast (of_char d :: 8 word)"
    unfolding fnv_step_eq by (rule xor_cancel_left)
  then have eq: "scast (scast (of_char c :: 8 word) :: 32 word) =
      (scast (scast (of_char d :: 8 word) :: 32 word) :: 8 word)" by (rule arg_cong)
  have up: "scast (scast w :: 32 word) = w" for w :: "8 word"
    by (rule scast_up_scast_id) (simp add: is_up)
  from eq have "(of_char c :: 8 word) = of_char d" unfolding up .
  then have "unat (of_char c :: 8 word) = unat (of_char d :: 8 word)" by (rule arg_cong)
  then have "(of_char c :: nat) = of_char d" unfolding unat_char .
  then show ?thesis by simp
qed

lemma fnv_foldl_inj: "foldl fnv_step g s = foldl fnv_step h s \<Longrightarrow> g = h"
  by (induction s arbitrary: g h) (auto dest: fnv_step_inj_state)

section \<open>The ring as an interface\<close>

text \<open>
  What a user of a hash ring relies on: the owner of a key is the owner of the clockwise successor
  of the key's point; a machine that joins takes over points or adds some and changes nothing
  else; a machine that leaves takes its own points with it and nothing else.
\<close>

locale hash_ring =
  fixes good :: "'s \<Rightarrow> bool"
    and points :: "'s \<Rightarrow> 32 word \<rightharpoonup> string"
    and locate :: "'s \<Rightarrow> string \<Rightarrow> string res"
    and join :: "'s \<Rightarrow> string \<Rightarrow> 's"
    and place :: "string \<Rightarrow> 32 word"
  assumes fin: "good s \<Longrightarrow> finite (dom (points s))"
    and locate_ok: "good s \<Longrightarrow> points s \<noteq> Map.empty \<Longrightarrow>
      locate s key = Inr (the (points s (ring_succ (dom (points s)) (place key))))"
    and locate_empty: "good s \<Longrightarrow> points s = Map.empty \<Longrightarrow> locate s key = Inl Out_Of_Bounds"
    and join_good: "good s \<Longrightarrow> good (join s ip)"
    and join_points: "good s \<Longrightarrow> points (join s ip) h = points s h \<or> points (join s ip) h = Some ip"
    and join_keeps: "good s \<Longrightarrow> dom (points s) \<subseteq> dom (points (join s ip))"
begin

lemma locate_owner:
  assumes "good s" and "points s \<noteq> Map.empty"
  shows "\<exists>h m. points s h = Some m \<and> locate s key = Inr m \<and> h = ring_succ (dom (points s)) (place key)"
proof -
  have "ring_succ (dom (points s)) (place key) \<in> dom (points s)"
    using fin [OF assms(1)] assms(2) by (intro ring_succ_in) (simp_all add: dom_eq_empty_conv)
  with locate_ok [OF assms] show ?thesis by force
qed

lemma join_monotone:
  assumes g: "good s" and "points s \<noteq> Map.empty"
  shows "locate (join s ip) key = locate s key \<or> locate (join s ip) key = Inr ip"
proof -
  let ?p = "ring_succ (dom (points (join s ip))) (place key)"
  have ne: "points (join s ip) \<noteq> Map.empty"
    using assms(2) join_keeps [OF g] by (metis dom_empty dom_eq_empty_conv subset_empty)
  note lj = locate_ok [OF join_good [OF g] ne, of key]
  show ?thesis
  proof (cases "?p \<in> dom (points s)")
    case True
    with fin [OF join_good [OF g]] join_keeps [OF g] have
      "ring_succ (dom (points s)) (place key) = ?p" by (rule ring_succ_subset)
    with lj locate_ok [OF assms, of key] join_points [OF g, of ip ?p] show ?thesis by auto
  next
    case False
    have "?p \<in> dom (points (join s ip))"
      using fin [OF join_good [OF g]] ne by (intro ring_succ_in) (simp_all add: dom_eq_empty_conv)
    with False join_points [OF g, of ip ?p] have "points (join s ip) ?p = Some ip" by force
    with lj show ?thesis by simp
  qed
qed

end

locale hash_ring_leave = hash_ring +
  fixes leave :: "'s \<Rightarrow> string \<Rightarrow> 's res"
    and marks :: "'s \<Rightarrow> string \<Rightarrow> 32 word set"
  assumes leave_ok: "good s \<Longrightarrow> leave s ip = Inr s' \<Longrightarrow>
      good s' \<and> points s' = (\<lambda>h. if h \<in> marks s ip then None else points s h)"
begin

lemma leave_unmoved:
  assumes g: "good s" and lv: "leave s ip = Inr s'" and ne: "points s \<noteq> Map.empty"
    and stay: "ring_succ (dom (points s)) (place key) \<notin> marks s ip"
  shows "locate s' key = locate s key"
proof -
  note l = leave_ok [OF g lv]
  let ?p = "ring_succ (dom (points s)) (place key)"
  have p: "?p \<in> dom (points s)"
    using fin [OF g] ne by (intro ring_succ_in) (simp_all add: dom_eq_empty_conv)
  then have p': "?p \<in> dom (points s')" using l stay by (auto simp: dom_def)
  have "dom (points s') \<subseteq> dom (points s)" using l by (auto simp: dom_def split: if_splits)
  from ring_succ_subset [OF fin [OF g] this p']
  have same: "ring_succ (dom (points s')) (place key) = ?p" .
  have "points s' \<noteq> Map.empty" using p' by auto
  then show ?thesis using locate_ok [OF g ne, of key] locate_ok [of s' key] l same stay by simp
qed

end

section \<open>The ring of NodeConHash\<close>

definition ring_points :: "node_con_hash \<Rightarrow> 32 word \<rightharpoonup> string" where
  "ring_points s = map_of (mp_itoIpPort s)"

definition ring_good :: "node_con_hash \<Rightarrow> bool" where
  "ring_good s \<longleftrightarrow> map_wf (mp_itoIpPort s)"

definition ring_marks :: "node_con_hash \<Rightarrow> string \<Rightarrow> 32 word set" where
  "ring_marks s ip = virtual_point ip ` {0..<virtualCopys s}"

lemma assign_points:
  "map_wf m \<Longrightarrow> map_wf (foldl (\<lambda>m i. map_assign m (f i) v) m is) \<and>
   map_of (foldl (\<lambda>m i. map_assign m (f i) v) m is) =
     (\<lambda>h. if h \<in> f ` set is then Some v else map_of m h)"
proof (induction "is" arbitrary: m)
  case (Cons i "is")
  from Cons.IH [of "map_assign m (f i) v"] Cons.prems show ?case
    by (auto simp: map_of_assign fun_eq_iff)
qed simp

lemma erase_points:
  "map_wf m \<Longrightarrow> map_wf (foldl (\<lambda>m i. map_erase m (f i)) m is) \<and>
   map_of (foldl (\<lambda>m i. map_erase m (f i)) m is) =
     (\<lambda>h. if h \<in> f ` set is then None else map_of m h)"
proof (induction "is" arbitrary: m)
  case (Cons i "is")
  from Cons.IH [of "map_erase m (f i)"] Cons.prems show ?case
    by (auto simp: map_of_erase fun_eq_iff)
qed simp

lemma add_points:
  assumes "ring_good s"
  shows "ring_good (addPhysicalMachine s ip)" and "virtualCopys (addPhysicalMachine s ip) = virtualCopys s"
    and "ring_points (addPhysicalMachine s ip) =
      (\<lambda>h. if h \<in> ring_marks s ip then Some ip else ring_points s h)"
  using assign_points [of "mp_itoIpPort s" "virtual_point ip" ip "[0..<virtualCopys s]"] assms
  unfolding ring_good_def ring_points_def ring_marks_def addPhysicalMachine_def
  by (simp_all add: fun_eq_iff)

lemma find_point:
  assumes wf: "map_wf m" and ne: "m \<noteq> []"
  shows "(let it = lower_bound m h in if it = [] then iter_second m else iter_second it) =
    Inr (the (map_of m (ring_succ (dom (map_of m)) h)))"
proof (cases "lower_bound m h")
  case Nil
  with lower_bound_cases [OF wf, of h] have none: "\<not> (\<exists>d \<in> fst ` set m. h \<le> d)" by auto
  obtain k v m' where m: "m = (k, v) # m'" using ne by (cases m) auto
  from none Min_map_wf [of k v m'] wf have "ring_succ (dom (map_of m)) h = k"
    by (simp only: ring_succ_def dom_map_of_conv_image_fst m if_False)
  then show ?thesis using Nil m by (simp add: Let_def iter_second_def)
next
  case (Cons p r)
  obtain k v where p: "p = (k, v)" by (cases p)
  from lower_bound_cases [OF wf, of h] Cons p have
    k: "map_of m k = Some v" "h \<le> k" "Min {d \<in> fst ` set m. h \<le> d} = k" by auto
  then have "k \<in> fst ` set m" by (force dest: map_of_SomeD)
  with k have "ring_succ (dom (map_of m)) h = k"
    by (auto simp: ring_succ_def dom_map_of_conv_image_fst)
  then show ?thesis using Cons p k by (simp add: Let_def iter_second_def)
qed

interpretation node_ring: hash_ring_leave ring_good ring_points GetServerIndex addPhysicalMachine hash
  deletePhysicalMachine ring_marks
proof
  fix s key ip h s'
  assume g: "ring_good s"
  show "finite (dom (ring_points s))" by (simp add: ring_points_def finite_dom_map_of)
  show "GetServerIndex s key = Inr (the (ring_points s (ring_succ (dom (ring_points s)) (hash key))))"
    if "ring_points s \<noteq> Map.empty"
    using g that find_point [of "mp_itoIpPort s"]
    by (auto simp: GetServerIndex_def findPhysicalAccordKey_def ring_good_def ring_points_def)
  show "GetServerIndex s key = Inl Out_Of_Bounds" if "ring_points s = Map.empty"
    using that by (simp add: GetServerIndex_def findPhysicalAccordKey_def ring_points_def
      lower_bound_def iter_second_def)
  show "ring_good (addPhysicalMachine s ip)" using g by (rule add_points)
  show "ring_points (addPhysicalMachine s ip) h = ring_points s h \<or>
      ring_points (addPhysicalMachine s ip) h = Some ip" using add_points(3) [OF g] by simp
  show "dom (ring_points s) \<subseteq> dom (ring_points (addPhysicalMachine s ip))"
    using add_points(3) [OF g] by auto
  show "ring_good s' \<and> ring_points s' = (\<lambda>h. if h \<in> ring_marks s ip then None else ring_points s h)"
    if "deletePhysicalMachine s ip = Inr s'"
    using that g erase_points [of "mp_itoIpPort s" "virtual_point ip" "[0..<virtualCopys s]"]
    by (auto simp: deletePhysicalMachine_def res_simps ring_good_def ring_points_def ring_marks_def)
qed

section \<open>Properties\<close>

text \<open>
  The hash separates every two keys that differ in one character only, wherever it stands:
  each round of the FNV loop and each of the five mixing shifts is a bijection of the 32-bit words.
\<close>

theorem hash_one_char:
  "hash (xs @ c # ys) = hash (xs @ d # ys) \<longleftrightarrow> c = d"
proof
  assume "hash (xs @ c # ys) = hash (xs @ d # ys)"
  then have "foldl fnv_step (fnv_step (foldl fnv_step 2166136261 xs) c) ys =
      foldl fnv_step (fnv_step (foldl fnv_step 2166136261 xs) d) ys"
    by (simp add: hash_eq_fnv)
  from fnv_foldl_inj [OF this] show "c = d" by (rule fnv_step_inj_char)
qed simp

lemma refresh_points:
  assumes "ring_good s" and "0 < virtualCopys s"
  shows "ring_good (foldl addPhysicalMachine s ips) \<and>
    virtualCopys (foldl addPhysicalMachine s ips) = virtualCopys s \<and>
    (\<forall>h m. ring_points (foldl addPhysicalMachine s ips) h = Some m \<longrightarrow>
       m \<in> set ips \<and> h \<in> virtual_point m ` {0..<virtualCopys s} \<or> ring_points s h = Some m) \<and>
    (ips \<noteq> [] \<or> ring_points s \<noteq> Map.empty \<longrightarrow> ring_points (foldl addPhysicalMachine s ips) \<noteq> Map.empty) \<and>
    allPhysicalMachine (foldl addPhysicalMachine s ips) = allPhysicalMachine s @ ips"
  using assms
proof (induction ips arbitrary: s)
  case (Cons ip ips)
  note a = add_points [OF Cons.prems(1), of ip]
  have "virtual_point ip 0 \<in> ring_marks s ip" using Cons.prems(2) by (auto simp: ring_marks_def)
  then have ne: "ring_points (addPhysicalMachine s ip) \<noteq> Map.empty" using a(3) by (auto simp: fun_eq_iff)
  have mem: "allPhysicalMachine (addPhysicalMachine s ip) = allPhysicalMachine s @ [ip]"
    by (simp add: addPhysicalMachine_def)
  from Cons.IH [OF a(1)] a Cons.prems(2) ne mem show ?case
    by (auto simp: ring_marks_def split: if_splits)
qed simp

lemma refreshed_owner:
  assumes "ips \<noteq> []" and "0 < virtualCopys s"
  shows "\<exists>h m. GetServerIndex (RefreshIpList s ips) key = Inr m \<and> m \<in> set ips \<and>
      h \<in> virtual_point m ` {0..<virtualCopys s} \<and>
      h = ring_succ (fst ` set (mp_itoIpPort (RefreshIpList s ips))) (hash key)"
proof -
  let ?z = "s\<lparr>allPhysicalMachine := [], mp_itoIpPort := []\<rparr>"
  have z: "ring_good ?z" "ring_points ?z = Map.empty" "0 < virtualCopys ?z"
    using assms(2) by (simp_all add: ring_good_def ring_points_def)
  from refresh_points [OF z(1) z(3), of ips] assms(1) z(2)
  have r: "ring_good (RefreshIpList s ips)" "ring_points (RefreshIpList s ips) \<noteq> Map.empty"
    "\<And>h m. ring_points (RefreshIpList s ips) h = Some m \<Longrightarrow>
       m \<in> set ips \<and> h \<in> virtual_point m ` {0..<virtualCopys s}"
    by (auto simp: RefreshIpList_def)
  from node_ring.locate_owner [OF r(1,2), of key] r(3) show ?thesis
    by (auto simp: ring_points_def dom_map_of_conv_image_fst)
qed

text \<open>
  C3. After \<open>RefreshIpList\<close> with at least one machine, every key has an owner, the owner is
  one of the machines listed, and it is the machine of the virtual node met first clockwise from
  the key's hash.
\<close>

theorem refreshed_ring_serves:
  assumes "ips \<noteq> []" and "0 < virtualCopys s"
  shows "\<exists>h m. GetServerIndex (RefreshIpList s ips) key = Inr m \<and> m \<in> set ips \<and>
      h \<in> virtual_point m ` {0..<virtualCopys s} \<and>
      h = ring_succ (fst ` set (mp_itoIpPort (RefreshIpList s ips))) (hash key)"
  by (rule refreshed_owner [OF assms])

theorem refreshed_ring_serves_witness:
  "\<exists>h m. GetServerIndex (RefreshIpList (NodeConHash_init 2) [''a'', ''b'']) ''k'' = Inr m \<and>
     m \<in> set [''a'', ''b''] \<and> h \<in> virtual_point m ` {0..<virtualCopys (NodeConHash_init 2)} \<and>
     h = ring_succ (fst ` set (mp_itoIpPort (RefreshIpList (NodeConHash_init 2) [''a'', ''b'']))) (hash ''k'')"
  by (rule refreshed_ring_serves) (simp_all add: NodeConHash_init_def)

text \<open>
  C4. Monotonicity: when a machine is added to a ring with a machine already in it, every key
  keeps its owner or moves to the new machine; no key moves between old machines.
\<close>

theorem added_machine_moves_only_to_itself:
  assumes "map_wf (mp_itoIpPort s)" and "mp_itoIpPort s \<noteq> []"
  shows "GetServerIndex (addPhysicalMachine s ip) key = GetServerIndex s key \<or>
    GetServerIndex (addPhysicalMachine s ip) key = Inr ip"
  by (rule node_ring.join_monotone) (use assms in \<open>auto simp: ring_good_def ring_points_def\<close>)

theorem added_machine_moves_only_to_itself_witness:
  "GetServerIndex (addPhysicalMachine (addPhysicalMachine (NodeConHash_init 3) ''a'') ''b'') ''k'' =
     GetServerIndex (addPhysicalMachine (NodeConHash_init 3) ''a'') ''k'' \<or>
   GetServerIndex (addPhysicalMachine (addPhysicalMachine (NodeConHash_init 3) ''a'') ''b'') ''k'' =
     Inr ''b''"
proof (rule added_machine_moves_only_to_itself)
  have "ring_good (NodeConHash_init 3)" by (simp add: ring_good_def NodeConHash_init_def)
  then show "map_wf (mp_itoIpPort (addPhysicalMachine (NodeConHash_init 3) ''a''))"
    using add_points(1) by (simp add: ring_good_def)
  show "mp_itoIpPort (addPhysicalMachine (NodeConHash_init 3) ''a'') \<noteq> []"
    using refresh_points [of "NodeConHash_init 3" "[''a'']"]
    by (auto simp: ring_good_def NodeConHash_init_def ring_points_def)
qed

lemma erase_loop_absent:
  "ip \<notin> set (drop i v) \<Longrightarrow> i \<le> length v \<Longrightarrow> erase_loop v ip i = Inr v"
proof (induction "length v - i" arbitrary: i)
  case (Suc n)
  then have i: "i < length v" by simp
  then have "drop i v = v ! i # drop (Suc i) v" by (simp add: Cons_nth_drop_Suc)
  with Suc i have "v ! i \<noteq> ip" "erase_loop v ip (Suc i) = Inr v" by auto
  with i show ?case by (subst erase_loop.simps) (simp add: res_simps)
qed (simp add: erase_loop.simps)

lemma erase_loop_found:
  "ip \<notin> set xs \<Longrightarrow> ip \<notin> set ys \<Longrightarrow> i \<le> length xs \<Longrightarrow>
   erase_loop (xs @ ip # ys) ip i = (if ys = [] then Inl Out_Of_Bounds else Inr (xs @ ys))"
proof (induction "length xs - i" arbitrary: i)
  case 0
  then have i: "i = length xs" by simp
  have "erase_loop (xs @ ys) ip (Suc i) = (if ys = [] then Inl Out_Of_Bounds else Inr (xs @ ys))"
  proof (cases ys)
    case Nil
    then show ?thesis using i by (subst erase_loop.simps) (simp add: vget_def res_simps)
  next
    case (Cons y zs)
    with 0 i show ?thesis by (subst erase_loop_absent) (auto dest: in_set_dropD)
  qed
  with i show ?case by (subst erase_loop.simps) (simp add: res_simps)
next
  case (Suc n)
  then have i: "i < length xs" by simp
  with Suc.prems have "xs ! i \<noteq> ip" by (metis nth_mem)
  moreover have "erase_loop (xs @ ip # ys) ip (Suc i) = (if ys = [] then Inl Out_Of_Bounds else Inr (xs @ ys))"
    using Suc i by simp
  ultimately show ?case using i by (subst erase_loop.simps) (simp add: res_simps nth_append)
qed

text \<open>
  C5. \<open>deletePhysicalMachine\<close> on a list that names the machine once: when the machine is the last
  of the list the loop steps its iterator past the end and reads behind the vector; otherwise the
  machine leaves the list, its virtual nodes leave the ring, and every key whose clockwise
  successor is not one of those nodes keeps its owner.
\<close>

theorem delete_machine:
  assumes "allPhysicalMachine s = xs @ ip # ys" and "ip \<notin> set (xs @ ys)" and "map_wf (mp_itoIpPort s)"
    and "mp_itoIpPort s \<noteq> []"
  shows "if ys = [] then deletePhysicalMachine s ip = Inl Out_Of_Bounds
    else \<exists>s'. deletePhysicalMachine s ip = Inr s' \<and> allPhysicalMachine s' = xs @ ys \<and>
      fst ` set (mp_itoIpPort s') = fst ` set (mp_itoIpPort s) - virtual_point ip ` {0..<virtualCopys s} \<and>
      (\<forall>key. ring_succ (fst ` set (mp_itoIpPort s)) (hash key) \<notin> virtual_point ip ` {0..<virtualCopys s} \<longrightarrow>
         GetServerIndex s' key = GetServerIndex s key)"
proof -
  have l: "erase_loop (allPhysicalMachine s) ip 0 = (if ys = [] then Inl Out_Of_Bounds else Inr (xs @ ys))"
    using assms by (simp add: erase_loop_found)
  show ?thesis
  proof (cases "ys = []")
    case False
    then obtain s' where s': "deletePhysicalMachine s ip = Inr s'" and v: "allPhysicalMachine s' = xs @ ys"
      using l by (simp add: deletePhysicalMachine_def res_simps)
    have g: "ring_good s" "ring_points s \<noteq> Map.empty" using assms by (auto simp: ring_good_def ring_points_def)
    from node_ring.leave_ok [OF g(1) s']
    have "dom (ring_points s') = dom (ring_points s) - ring_marks s ip"
      by (auto simp: dom_def split: if_splits)
    moreover note node_ring.leave_unmoved [OF g(1) s' g(2)]
    ultimately show ?thesis using False s' v
      by (auto simp: ring_points_def dom_map_of_conv_image_fst ring_marks_def)
  qed (use l in \<open>simp add: deletePhysicalMachine_def res_simps\<close>)
qed

theorem delete_machine_witness:
  "\<exists>s'. deletePhysicalMachine (addPhysicalMachine (addPhysicalMachine (NodeConHash_init 2) ''a'') ''b'') ''a'' = Inr s'
     \<and> allPhysicalMachine s' = [''b'']"
proof -
  let ?a = "addPhysicalMachine (NodeConHash_init 2) ''a''"
  let ?s = "addPhysicalMachine ?a ''b''"
  have "ring_good (NodeConHash_init 2)" by (simp add: ring_good_def NodeConHash_init_def)
  then have "ring_good ?s" by (intro add_points(1))
  moreover have "mp_itoIpPort ?s \<noteq> []"
    using refresh_points [of "NodeConHash_init 2" "[''a'', ''b'']"]
    by (auto simp: ring_good_def NodeConHash_init_def ring_points_def)
  moreover have "allPhysicalMachine ?s = [] @ ''a'' # [''b'']"
    by (simp add: addPhysicalMachine_def NodeConHash_init_def)
  ultimately show ?thesis using delete_machine [of ?s "[]" "''a''" "[''b'']"] by (auto simp: ring_good_def)
qed

end
