(* ===== verification/Bounded_Queue.thy ===== *)
theory Bounded_Queue
  imports Cxx_Prelude
begin

text \<open>
  The contract of a bounded FIFO queue, shared by the ring buffers of the repository
  (\<open>SafeQueue\<close> and \<open>block_queue\<close>): the queue stands for the list of its elements, an insertion
  is refused exactly when the list is at capacity, a removal exactly when it is empty.
  Below, sequences of operations against the contract, and what every implementation inherits.
\<close>

datatype 'a q_op = Put 'a | Take

text \<open>A run collects the values inserted and the values removed, in order.\<close>

fun q_run :: "('s \<Rightarrow> 'a \<Rightarrow> 's option res) \<Rightarrow> ('s \<Rightarrow> ('a \<times> 's) option res) \<Rightarrow> 's \<Rightarrow> 'a q_op list \<Rightarrow>
    ('a list \<times> 'a list \<times> 's) res" where
  "q_run put get s [] = Inr ([], [], s)"
| "q_run put get s (Put x # ops) =
     bind_res (put s x) (\<lambda>r. case r of
         None \<Rightarrow> q_run put get s ops
       | Some s' \<Rightarrow> bind_res (q_run put get s' ops) (\<lambda>(ins, outs, t). Inr (x # ins, outs, t)))"
| "q_run put get s (Take # ops) =
     bind_res (get s) (\<lambda>r. case r of
         None \<Rightarrow> q_run put get s ops
       | Some (x, s') \<Rightarrow> bind_res (q_run put get s' ops) (\<lambda>(ins, outs, t). Inr (ins, x # outs, t)))"

locale bounded_queue =
  fixes inv :: "'s \<Rightarrow> bool"
    and items :: "'s \<Rightarrow> 'a list"
    and cap :: "'s \<Rightarrow> nat"
    and put :: "'s \<Rightarrow> 'a \<Rightarrow> 's option res"
    and get :: "'s \<Rightarrow> ('a \<times> 's) option res"
  assumes bounded: "inv q \<Longrightarrow> length (items q) \<le> cap q"
    and put_ok: "inv q \<Longrightarrow> length (items q) < cap q \<Longrightarrow>
      \<exists>q'. put q x = Inr (Some q') \<and> inv q' \<and> items q' = items q @ [x] \<and> cap q' = cap q"
    and put_full: "inv q \<Longrightarrow> length (items q) = cap q \<Longrightarrow> put q x = Inr None"
    and get_ok: "inv q \<Longrightarrow> items q = x # xs \<Longrightarrow>
      \<exists>q'. get q = Inr (Some (x, q')) \<and> inv q' \<and> items q' = xs \<and> cap q' = cap q"
    and get_empty: "inv q \<Longrightarrow> items q = [] \<Longrightarrow> get q = Inr None"
begin

lemma put_cases:
  assumes "inv q"
  obtains (full) "put q x = Inr None" "length (items q) = cap q"
  | (stored) q' where "put q x = Inr (Some q')" "inv q'" "items q' = items q @ [x]" "cap q' = cap q"
      "length (items q) < cap q"
  using assms bounded [of q] put_ok [of q x] put_full [of q x] by (metis le_neq_implies_less)

lemma get_cases:
  assumes "inv q"
  obtains (empty) "get q = Inr None" "items q = []"
  | (taken) x q' where "get q = Inr (Some (x, q'))" "inv q'" "items q = x # items q'" "cap q' = cap q"
  using assms get_ok [of q] get_empty [of q] by (cases "items q") auto

text \<open>First in, first out, over any sequence of calls; no call reads outside the array.\<close>

lemma run_fifo:
  assumes "inv q"
  shows "\<exists>ins outs t. q_run put get q ops = Inr (ins, outs, t) \<and> inv t \<and> cap t = cap q \<and>
    items q @ ins = outs @ items t"
  using assms
proof (induction ops arbitrary: q)
  case (Cons op ops)
  show ?case
  proof (cases op)
    case (Put x)
    from \<open>inv q\<close> show ?thesis
    proof (cases rule: put_cases [where x = x])
      case full
      with Cons Put show ?thesis by simp
    next
      case (stored q')
      with Cons.IH [of q'] obtain ins outs t where
        r: "q_run put get q' ops = Inr (ins, outs, t)" "inv t" "cap t = cap q" "items q @ x # ins = outs @ items t"
        by auto
      then show ?thesis using Put stored by (intro exI [of _ "x # ins"] exI [of _ outs] exI [of _ t]) simp
    qed
  next
    case Take
    from \<open>inv q\<close> show ?thesis
    proof (cases rule: get_cases)
      case empty
      with Cons.IH [OF \<open>inv q\<close>] Take show ?thesis by auto
    next
      case (taken x q')
      with Cons.IH [of q'] obtain ins outs t where
        r: "q_run put get q' ops = Inr (ins, outs, t)" "inv t" "cap t = cap q" "items q' @ ins = outs @ items t"
        by auto
      then show ?thesis using Take taken by (intro exI [of _ ins] exI [of _ "x # outs"] exI [of _ t]) simp
    qed
  qed
qed simp

end

section \<open>Ring buffers\<close>

text \<open>The elements of a ring of length \<open>length v\<close> that starts at \<open>h\<close> and holds \<open>n\<close> of them.\<close>

definition ring_items :: "'a list \<Rightarrow> nat \<Rightarrow> nat \<Rightarrow> 'a list" where
  "ring_items v h n = map (\<lambda>k. v ! ((h + k) mod length v)) [0..<n]"

lemma length_ring_items [simp]: "length (ring_items v h n) = n"
  by (simp add: ring_items_def)

lemma ring_items_0 [simp]: "ring_items v h 0 = []"
  by (simp add: ring_items_def)

lemma mod_add_inj:
  fixes h i j m :: nat
  assumes "i < m" and "j < m" and "(h + i) mod m = (h + j) mod m"
  shows "i = j"
proof -
  have "i = j" if "i \<le> j" "j < m" "(h + i) mod m = (h + j) mod m" for i j
  proof -
    from that(3) have "m dvd (h + j) - (h + i)" using that(1) by (intro mod_eq_dvd_iff_nat [THEN iffD1]) auto
    with that show ?thesis by (auto dest: dvd_imp_le)
  qed
  from this [of i j] this [of j i] assms show ?thesis by (cases "i \<le> j") auto
qed

lemma ring_put:
  assumes "n < length v"
  shows "ring_items (v[(h + n) mod length v := x]) h (Suc n) = ring_items v h n @ [x]"
proof -
  have "(h + n) mod length v \<noteq> (h + k) mod length v" if "k < n" for k
    using mod_add_inj [of k "length v" n h] that assms by linarith
  moreover have "(h + n) mod length v < length v" using assms by (intro mod_less_divisor) auto
  ultimately show ?thesis by (simp add: ring_items_def)
qed

lemma ring_take:
  "ring_items v h (Suc n) = v ! (h mod length v) # ring_items v (Suc h mod length v) n"
proof -
  have "[0..<Suc n] = 0 # map Suc [0..<n]" by (simp add: map_Suc_upt upt_conv_Cons del: upt_Suc)
  then show ?thesis by (simp add: ring_items_def mod_Suc_eq mod_add_left_eq comp_def mod_simps del: upt_Suc)
qed

end
