(* ===== verification/Safe_Queue.thy ===== *)
theory Safe_Queue
  imports Bounded_Queue "HOL-Library.Multiset"
begin

text \<open>
  The blocking queue of the thread pool (\<open>class SafeQueue\<close>, safeQueue.h of
  Project/Mini_DCS/cache_server/common): a ring of \<open>capacity + 1\<close> slots, a mutex and the two
  condition variables \<open>m_notFull\<close> and \<open>m_notEmpty\<close>. The body between lock and unlock is one
  operation; the interleaving of the threads, their waits and wake-ups, is a step relation.
\<close>

section \<open>The ring\<close>

record 'a safe_queue =
  m_head :: nat
  m_tail :: nat
  m_capacity :: nat
  m_queue :: "'a list"

text \<open>\<open>capacity + 1\<close> is an \<open>unsigned int\<close>; \<open>d\<close> is the default value of the element type.\<close>

definition SafeQueue_init :: "nat \<Rightarrow> 'a \<Rightarrow> 'a safe_queue" where
  "SafeQueue_init capacity d =
     (let c = (capacity + 1) mod 2 ^ 32
      in \<lparr>m_head = 0, m_tail = 0, m_capacity = c, m_queue = replicate c d\<rparr>)"

definition sq_size :: "'a safe_queue \<Rightarrow> nat res" where
  "sq_size q = umod (sz_sub (sz_add (m_tail q) (m_capacity q)) (m_head q)) (m_capacity q)"

definition isEmpty :: "'a safe_queue \<Rightarrow> bool" where
  "isEmpty q \<longleftrightarrow> m_tail q = m_head q"

definition isFull :: "'a safe_queue \<Rightarrow> bool res" where
  "isFull q = bind_res (umod (sz_add (m_tail q) 1) (m_capacity q)) (\<lambda>t. Inr (t = m_head q))"

text \<open>The locked region of \<open>push\<close> and \<open>pop\<close>: \<open>None\<close> when the thread has to wait.\<close>

definition sq_push :: "'a safe_queue \<Rightarrow> 'a \<Rightarrow> 'a safe_queue option res" where
  "sq_push q e =
     bind_res (isFull q) (\<lambda>full.
     if full then Inr None
     else bind_res (vset (m_queue q) (m_tail q) e) (\<lambda>v.
          bind_res (umod (sz_add (m_tail q) 1) (m_capacity q)) (\<lambda>t.
          Inr (Some (q\<lparr>m_queue := v, m_tail := t\<rparr>)))))"

definition sq_pop :: "'a safe_queue \<Rightarrow> ('a \<times> 'a safe_queue) option res" where
  "sq_pop q =
     (if isEmpty q then Inr None
      else bind_res (vget (m_queue q) (m_head q)) (\<lambda>r.
           bind_res (umod (sz_add (m_head q) 1) (m_capacity q)) (\<lambda>h.
           Inr (Some (r, q\<lparr>m_head := h\<rparr>)))))"

section \<open>Threads around the queue\<close>

text \<open>
  \<open>wait_push\<close> holds the values of the threads asleep on \<open>m_notFull\<close>, \<open>woken_push\<close> those of the
  threads that were woken and have not yet run their loop again; \<open>wait_pop\<close> and \<open>woken_pop\<close> count
  the threads on \<open>m_notEmpty\<close>. \<open>pushed\<close> and \<open>popped\<close> record the completed calls in the order of
  the mutex.
\<close>

record 'a sq_sys =
  sq :: "'a safe_queue"
  wait_push :: "'a multiset"
  woken_push :: "'a multiset"
  wait_pop :: nat
  woken_pop :: nat
  pushed :: "'a list"
  popped :: "'a list"

definition sq_start :: "nat \<Rightarrow> 'a \<Rightarrow> 'a sq_sys" where
  "sq_start capacity d =
     \<lparr>sq = SafeQueue_init capacity d, wait_push = {#}, woken_push = {#}, wait_pop = 0, woken_pop = 0,
      pushed = [], popped = []\<rparr>"

definition signal_notEmpty :: "'a sq_sys \<Rightarrow> 'a sq_sys" where
  "signal_notEmpty s =
     (if wait_pop s = 0 then s
      else s\<lparr>wait_pop := wait_pop s - 1, woken_pop := woken_pop s + 1\<rparr>)"

definition push_attempt :: "'a sq_sys \<Rightarrow> 'a \<Rightarrow> 'a sq_sys res" where
  "push_attempt s e =
     bind_res (sq_push (sq s) e) (\<lambda>r. case r of
         None \<Rightarrow> Inr (s\<lparr>wait_push := add_mset e (wait_push s)\<rparr>)
       | Some q \<Rightarrow> Inr (signal_notEmpty (s\<lparr>sq := q, pushed := pushed s @ [e]\<rparr>)))"

text \<open>Which of the threads asleep on \<open>m_notFull\<close> a signal wakes is the scheduler's choice.\<close>

definition signal_notFull :: "'a sq_sys \<Rightarrow> 'a \<Rightarrow> 'a sq_sys" where
  "signal_notFull s c =
     (if wait_push s = {#} then s
      else s\<lparr>wait_push := wait_push s - {#c#}, woken_push := add_mset c (woken_push s)\<rparr>)"

definition pop_attempt :: "'a sq_sys \<Rightarrow> 'a \<Rightarrow> 'a sq_sys res" where
  "pop_attempt s c =
     bind_res (sq_pop (sq s)) (\<lambda>r. case r of
         None \<Rightarrow> Inr (s\<lparr>wait_pop := wait_pop s + 1\<rparr>)
       | Some (x, q) \<Rightarrow> Inr (signal_notFull (s\<lparr>sq := q, popped := popped s @ [x]\<rparr>) c))"

inductive sq_step :: "'a sq_sys \<Rightarrow> 'a sq_sys \<Rightarrow> bool" where
  push_call: "push_attempt s e = Inr t \<Longrightarrow> sq_step s t"
| push_resume: "e \<in># woken_push s \<Longrightarrow>
    push_attempt (s\<lparr>woken_push := woken_push s - {#e#}\<rparr>) e = Inr t \<Longrightarrow> sq_step s t"
| push_spurious: "e \<in># wait_push s \<Longrightarrow>
    sq_step s (s\<lparr>wait_push := wait_push s - {#e#}, woken_push := add_mset e (woken_push s)\<rparr>)"
| pop_call: "wait_push s \<noteq> {#} \<longrightarrow> c \<in># wait_push s \<Longrightarrow> pop_attempt s c = Inr t \<Longrightarrow> sq_step s t"
| pop_resume: "0 < woken_pop s \<Longrightarrow> wait_push s \<noteq> {#} \<longrightarrow> c \<in># wait_push s \<Longrightarrow>
    pop_attempt (s\<lparr>woken_pop := woken_pop s - 1\<rparr>) c = Inr t \<Longrightarrow> sq_step s t"
| pop_spurious: "0 < wait_pop s \<Longrightarrow>
    sq_step s (s\<lparr>wait_pop := wait_pop s - 1, woken_pop := woken_pop s + 1\<rparr>)"

inductive sq_reach :: "nat \<Rightarrow> 'a \<Rightarrow> 'a sq_sys \<Rightarrow> bool" for capacity d where
  start: "sq_reach capacity d (sq_start capacity d)"
| step: "sq_reach capacity d s \<Longrightarrow> sq_step s t \<Longrightarrow> sq_reach capacity d t"

section \<open>The ring implements a bounded queue\<close>

definition sq_inv :: "'a safe_queue \<Rightarrow> bool" where
  "sq_inv q \<longleftrightarrow> 0 < m_capacity q \<and> m_capacity q < 2 ^ 32 \<and> length (m_queue q) = m_capacity q \<and>
     m_head q < m_capacity q \<and> m_tail q < m_capacity q"

definition sq_count :: "'a safe_queue \<Rightarrow> nat" where
  "sq_count q = (m_tail q + m_capacity q - m_head q) mod m_capacity q"

definition sq_items :: "'a safe_queue \<Rightarrow> 'a list" where
  "sq_items q = ring_items (m_queue q) (m_head q) (sq_count q)"

definition sq_cap :: "'a safe_queue \<Rightarrow> nat" where
  "sq_cap q = m_capacity q - 1"

lemma sq_count_split:
  assumes "sq_inv q"
  shows "sq_count q = (if m_head q \<le> m_tail q then m_tail q - m_head q
    else m_tail q + m_capacity q - m_head q)"
proof (cases "m_head q \<le> m_tail q")
  case True
  then have "m_tail q + m_capacity q - m_head q = (m_tail q - m_head q) + m_capacity q" by simp
  with True assms have "sq_count q = (m_tail q - m_head q) mod m_capacity q"
    by (simp only: sq_count_def mod_add_self2)
  moreover have "m_tail q - m_head q < m_capacity q" using assms by (simp add: sq_inv_def less_imp_diff_less)
  ultimately show ?thesis using True by simp
next
  case False
  then have "m_tail q + m_capacity q - m_head q < m_capacity q" using assms by (auto simp: sq_inv_def)
  with False show ?thesis by (simp add: sq_count_def)
qed

lemma suc_mod_wrap: "(a :: nat) < n \<Longrightarrow> Suc a mod n = (if Suc a = n then 0 else Suc a)"
  by auto

lemma sq_sz_add: "sq_inv q \<Longrightarrow> a < m_capacity q \<Longrightarrow> sz_add a 1 = a + 1"
  by (simp add: sq_inv_def)

lemma sq_full: "sq_inv q \<Longrightarrow> isFull q = Inr (sq_count q = sq_cap q)"
  by (auto simp: isFull_def sq_sz_add sq_count_split suc_mod_wrap sq_cap_def sq_inv_def)

lemma sq_empty: "sq_inv q \<Longrightarrow> isEmpty q \<longleftrightarrow> sq_count q = 0"
  by (auto simp: isEmpty_def sq_count_split) (auto simp: sq_inv_def)

lemma sq_tail_pos: "sq_inv q \<Longrightarrow> (m_head q + sq_count q) mod m_capacity q = m_tail q"
  by (auto simp: sq_count_split sq_inv_def)

lemma sq_push_ok:
  assumes q: "sq_inv q" and room: "sq_count q < sq_cap q"
  shows "\<exists>q'. sq_push q e = Inr (Some q') \<and> sq_inv q' \<and> sq_items q' = sq_items q @ [e] \<and> sq_cap q' = sq_cap q"
proof -
  let ?t = "(m_tail q + 1) mod m_capacity q"
  let ?q = "q\<lparr>m_queue := (m_queue q)[m_tail q := e], m_tail := ?t\<rparr>"
  have "sq_push q e = Inr (Some ?q)" using q room
    by (simp add: sq_push_def sq_full sq_sz_add) (simp add: sq_inv_def)
  moreover have inv: "sq_inv ?q" using q by (simp add: sq_inv_def)
  moreover have "sq_count ?q = Suc (sq_count q)" using q room inv
    by (auto simp: sq_count_split suc_mod_wrap sq_cap_def sq_inv_def)
  then have "sq_items ?q = sq_items q @ [e]" using ring_put [of "sq_count q" "m_queue q" "m_head q" e]
    sq_tail_pos [OF q] q room by (simp add: sq_items_def sq_inv_def sq_cap_def)
  ultimately show ?thesis by (auto simp: sq_cap_def)
qed

lemma sq_pop_ok:
  assumes q: "sq_inv q" and xs: "sq_items q = x # xs"
  shows "\<exists>q'. sq_pop q = Inr (Some (x, q')) \<and> sq_inv q' \<and> sq_items q' = xs \<and> sq_cap q' = sq_cap q"
proof -
  let ?q = "q\<lparr>m_head := (m_head q + 1) mod m_capacity q\<rparr>"
  have n: "length (sq_items q) = sq_count q" by (simp add: sq_items_def)
  with xs have pos: "sq_count q = Suc (length xs)" by simp
  have "sq_items q = m_queue q ! m_head q # ring_items (m_queue q) ((m_head q + 1) mod m_capacity q) (length xs)"
    using ring_take [of "m_queue q" "m_head q" "length xs"] q pos by (simp add: sq_items_def sq_inv_def)
  with xs have h: "x = m_queue q ! m_head q"
    "xs = ring_items (m_queue q) ((m_head q + 1) mod m_capacity q) (length xs)" by simp_all
  have "sq_pop q = Inr (Some (x, ?q))" using q pos h(1)
    by (simp add: sq_pop_def sq_empty sq_sz_add) (simp add: sq_inv_def sq_sz_add)
  moreover have inv: "sq_inv ?q" using q by (simp add: sq_inv_def)
  moreover have "sq_count ?q = length xs" using q pos inv
    by (auto simp: sq_count_split suc_mod_wrap sq_inv_def split: if_splits)
  then have "sq_items ?q = xs" using h(2) by (simp add: sq_items_def)
  ultimately show ?thesis by (auto simp: sq_cap_def)
qed

interpretation sq_queue: bounded_queue sq_inv sq_items sq_cap sq_push sq_pop
proof
  fix q :: "'a safe_queue" and x xs
  assume q: "sq_inv q"
  have len: "length (sq_items q) = sq_count q" by (simp add: sq_items_def)
  have "sq_count q < m_capacity q" using q by (simp add: sq_count_def sq_inv_def)
  with len show "length (sq_items q) \<le> sq_cap q" by (simp add: sq_cap_def)
  show "\<exists>q'. sq_push q x = Inr (Some q') \<and> sq_inv q' \<and> sq_items q' = sq_items q @ [x] \<and> sq_cap q' = sq_cap q"
    if "length (sq_items q) < sq_cap q" using q that len by (intro sq_push_ok) simp_all
  show "sq_push q x = Inr None" if "length (sq_items q) = sq_cap q"
    using q that len by (simp add: sq_push_def sq_full)
  show "\<exists>q'. sq_pop q = Inr (Some (x, q')) \<and> sq_inv q' \<and> sq_items q' = xs \<and> sq_cap q' = sq_cap q"
    if "sq_items q = x # xs" using q that by (rule sq_pop_ok)
  show "sq_pop q = Inr None" if "sq_items q = []" using q that len by (simp add: sq_pop_def sq_empty)
qed

section \<open>Invariant of the threads\<close>

text \<open>
  Beside the ring's own invariant and the history, the two clauses on wake-ups: as long as a thread
  sleeps on \<open>m_notEmpty\<close>, at least as many woken threads are on their way as there are elements,
  and dually for \<open>m_notFull\<close> and the free slots.
\<close>

definition sq_sys_inv :: "nat \<Rightarrow> 'a sq_sys \<Rightarrow> bool" where
  "sq_sys_inv capacity s \<longleftrightarrow>
     sq_inv (sq s) \<and> sq_cap (sq s) = capacity \<and> pushed s = popped s @ sq_items (sq s) \<and>
     (0 < wait_pop s \<longrightarrow> length (sq_items (sq s)) \<le> woken_pop s) \<and>
     (wait_push s \<noteq> {#} \<longrightarrow> capacity - length (sq_items (sq s)) \<le> size (woken_push s))"

lemma push_attempt_inv:
  assumes s: "sq_sys_inv c s"
    and r: "r = s \<or> e \<in># woken_push s \<and> r = s\<lparr>woken_push := woken_push s - {#e#}\<rparr>"
  shows "\<exists>t. push_attempt r e = Inr t \<and> sq_sys_inv c t"
proof -
  have q: "sq_inv (sq s)" and rq: "sq r = sq s" using assms by (auto simp: sq_sys_inv_def)
  have sz: "size (woken_push s) \<le> Suc (size (woken_push r))" "wait_push r = wait_push s"
    using r by (auto simp: size_Diff_singleton)
  from q show ?thesis
  proof (cases rule: sq_queue.put_cases [where x = e])
    case full
    then show ?thesis using s r sz(2) by (auto simp: push_attempt_def sq_sys_inv_def)
  next
    case (stored q')
    then show ?thesis using s r sz
      by (cases "wait_pop s = 0") (auto simp: push_attempt_def sq_sys_inv_def signal_notEmpty_def)
  qed
qed

lemma pop_attempt_inv:
  assumes s: "sq_sys_inv c s" and ch: "wait_push s \<noteq> {#} \<longrightarrow> e \<in># wait_push s"
    and r: "r = s \<or> 0 < woken_pop s \<and> r = s\<lparr>woken_pop := woken_pop s - 1\<rparr>"
  shows "\<exists>t. pop_attempt r e = Inr t \<and> sq_sys_inv c t"
proof -
  have q: "sq_inv (sq s)" and rq: "sq r = sq s" using assms by (auto simp: sq_sys_inv_def)
  from q show ?thesis
  proof (cases rule: sq_queue.get_cases)
    case empty
    then show ?thesis using s r by (auto simp: pop_attempt_def sq_sys_inv_def)
  next
    case (taken x q')
    then show ?thesis using s r ch
      by (auto simp: pop_attempt_def sq_sys_inv_def signal_notFull_def size_Diff_singleton)
  qed
qed

lemma sq_start_inv:
  assumes "capacity < 2 ^ 32 - 1"
  shows "sq_sys_inv capacity (sq_start capacity d)"
  using assms by (simp add: sq_sys_inv_def sq_start_def SafeQueue_init_def sq_inv_def sq_cap_def sq_items_def sq_count_def)

lemma sq_step_inv:
  assumes "sq_step s t" and "sq_sys_inv c s"
  shows "sq_sys_inv c t"
  using assms
proof (cases rule: sq_step.cases)
  case (push_call e)
  with push_attempt_inv [OF assms(2), of s e] show ?thesis by auto
next
  case (push_resume e)
  with push_attempt_inv [OF assms(2), of "s\<lparr>woken_push := woken_push s - {#e#}\<rparr>" e] show ?thesis by auto
next
  case (pop_call e)
  with pop_attempt_inv [OF assms(2), of e s] show ?thesis by auto
next
  case (pop_resume e)
  with pop_attempt_inv [OF assms(2), of e "s\<lparr>woken_pop := woken_pop s - 1\<rparr>"] show ?thesis by auto
qed (use assms in \<open>auto simp: sq_sys_inv_def\<close>)

lemma sq_reach_inv:
  assumes "sq_reach capacity d s" and "capacity < 2 ^ 32 - 1"
  shows "sq_sys_inv capacity s"
  using assms by (induction rule: sq_reach.induct) (auto intro: sq_start_inv sq_step_inv)

section \<open>Properties\<close>

text \<open>
  C8. In every interleaving of producers and consumers the values removed so far, followed by the
  content of the ring, are the values inserted so far in the order of insertion; the content never
  exceeds the capacity asked for, and no call ever fails.
\<close>

theorem safe_queue_fifo:
  assumes "sq_reach capacity d s" and "capacity < 2 ^ 32 - 1"
  shows "pushed s = popped s @ sq_items (sq s) \<and> length (sq_items (sq s)) \<le> capacity \<and>
    sq_size (sq s) = Inr (length (sq_items (sq s))) \<and>
    (\<exists>t. push_attempt s e = Inr t) \<and>
    ((wait_push s \<noteq> {#} \<longrightarrow> e \<in># wait_push s) \<longrightarrow> (\<exists>t. pop_attempt s e = Inr t))"
proof -
  have i: "sq_sys_inv capacity s" using assms by (rule sq_reach_inv)
  then have q: "sq_inv (sq s)" by (simp add: sq_sys_inv_def)
  then have "sz_sub (sz_add (m_tail (sq s)) (m_capacity (sq s))) (m_head (sq s)) =
      m_tail (sq s) + m_capacity (sq s) - m_head (sq s)" by (simp add: sq_inv_def)
  with q have "sq_size (sq s) = Inr (length (sq_items (sq s)))"
    by (simp add: sq_size_def sq_items_def sq_count_def) (simp add: sq_inv_def)
  with i sq_queue.bounded [OF q] push_attempt_inv [OF i, of s e] pop_attempt_inv [OF i, of e s]
  show ?thesis by (auto simp: sq_sys_inv_def)
qed

text \<open>
  C9. No wake-up is lost: a thread sleeps in \<open>pop\<close> with no woken thread on its way only while the
  queue is empty, and one sleeps in \<open>push\<close> that way only while it is full; so a queue of positive
  capacity never has a producer and a consumer asleep with nobody woken.
\<close>

theorem safe_queue_no_lost_wakeup:
  assumes "sq_reach capacity d s" and "capacity < 2 ^ 32 - 1"
  shows "(0 < wait_pop s \<and> woken_pop s = 0 \<longrightarrow> sq_items (sq s) = []) \<and>
    (wait_push s \<noteq> {#} \<and> woken_push s = {#} \<longrightarrow> length (sq_items (sq s)) = capacity) \<and>
    (0 < capacity \<longrightarrow> \<not> (0 < wait_pop s \<and> wait_push s \<noteq> {#} \<and> woken_pop s = 0 \<and> woken_push s = {#}))"
proof -
  have i: "sq_sys_inv capacity s" using assms by (rule sq_reach_inv)
  then have "length (sq_items (sq s)) \<le> capacity"
    using sq_queue.bounded [of "sq s"] by (auto simp: sq_sys_inv_def)
  with i show ?thesis by (auto simp: sq_sys_inv_def)
qed

lemma sq_reach_example:
  "sq_reach 2 (0 :: int) (sq_start 2 0)"
  "\<exists>t. push_attempt (sq_start 2 (0 :: int)) 7 = Inr t \<and> sq_reach 2 0 t"
proof -
  show r: "sq_reach 2 (0 :: int) (sq_start 2 0)" by (rule sq_reach.start)
  obtain t where t: "push_attempt (sq_start 2 (0 :: int)) 7 = Inr t"
    using push_attempt_inv [OF sq_start_inv [of 2 0], of "sq_start 2 0" 7] by auto
  then have "sq_reach 2 0 t" by (intro sq_reach.step [OF r] sq_step.push_call)
  with t show "\<exists>t. push_attempt (sq_start 2 (0 :: int)) 7 = Inr t \<and> sq_reach 2 0 t" by auto
qed

theorem safe_queue_fifo_witness:
  "\<exists>t. push_attempt (sq_start 2 (0 :: int)) 7 = Inr t \<and> pushed t = popped t @ sq_items (sq t)"
  using sq_reach_example(2) safe_queue_fifo by fastforce

theorem safe_queue_no_lost_wakeup_witness:
  "\<exists>t. push_attempt (sq_start 2 (0 :: int)) 7 = Inr t \<and>
     \<not> (0 < wait_pop t \<and> wait_push t \<noteq> {#} \<and> woken_pop t = 0 \<and> woken_push t = {#})"
proof -
  obtain t where t: "push_attempt (sq_start 2 (0 :: int)) 7 = Inr t" "sq_reach 2 0 t"
    using sq_reach_example(2) by auto
  from safe_queue_no_lost_wakeup [OF t(2)] t(1) show ?thesis by auto
qed

end
