(* ===== verification/Heap_Order.thy ===== *)
theory Heap_Order
  imports Cxx_Prelude
begin

text \<open>
  Binary heaps in a vector, shared by the timer (timer.cpp) and heap sort (sort.cpp): the order
  on the first \<open>n\<close> positions, the same order with a hole at one position, and what one exchange
  of a sift-up or a sift-down does to it. \<open>le x y\<close> reads: \<open>x\<close> may stand above \<open>y\<close>.
\<close>

definition parent_of :: "nat \<Rightarrow> nat" where
  "parent_of i = (i - 1) div 2"

definition heap_upto :: "('a \<Rightarrow> 'a \<Rightarrow> bool) \<Rightarrow> 'a list \<Rightarrow> nat \<Rightarrow> bool" where
  "heap_upto le v n \<longleftrightarrow> (\<forall>i<n. 0 < i \<longrightarrow> le (v ! parent_of i) (v ! i))"

text \<open>
  Everything is in order except possibly the element at \<open>p\<close>; its children are in order with its parent.
\<close>

definition heap_hole :: "('a \<Rightarrow> 'a \<Rightarrow> bool) \<Rightarrow> 'a list \<Rightarrow> nat \<Rightarrow> nat \<Rightarrow> bool" where
  "heap_hole le v p n \<longleftrightarrow>
     (\<forall>i<n. 0 < i \<and> i \<noteq> p \<and> parent_of i \<noteq> p \<longrightarrow> le (v ! parent_of i) (v ! i)) \<and>
     (\<forall>i<n. 0 < i \<and> parent_of i = p \<and> 0 < p \<longrightarrow> le (v ! parent_of p) (v ! i))"

definition above_children :: "('a \<Rightarrow> 'a \<Rightarrow> bool) \<Rightarrow> 'a list \<Rightarrow> nat \<Rightarrow> nat \<Rightarrow> bool" where
  "above_children le v p n \<longleftrightarrow> (\<forall>i<n. 0 < i \<and> parent_of i = p \<longrightarrow> le (v ! p) (v ! i))"

definition below_parent :: "('a \<Rightarrow> 'a \<Rightarrow> bool) \<Rightarrow> 'a list \<Rightarrow> nat \<Rightarrow> bool" where
  "below_parent le v p \<longleftrightarrow> (0 < p \<longrightarrow> le (v ! parent_of p) (v ! p))"

lemma parent_less: "0 < i \<Longrightarrow> parent_of i < i"
  by (auto simp: parent_of_def)

lemma children_of: "0 < i \<Longrightarrow> parent_of i = p \<longleftrightarrow> i = 2 * p + 1 \<or> i = 2 * p + 2"
  by (auto simp: parent_of_def)

lemma heap_uptoD: "heap_upto le v n \<Longrightarrow> i < n \<Longrightarrow> 0 < i \<Longrightarrow> le (v ! parent_of i) (v ! i)"
  by (simp add: heap_upto_def)

lemma heap_holeD:
  assumes "heap_hole le v p n"
  shows "i < n \<Longrightarrow> 0 < i \<Longrightarrow> i \<noteq> p \<Longrightarrow> parent_of i \<noteq> p \<Longrightarrow> le (v ! parent_of i) (v ! i)"
    and "i < n \<Longrightarrow> 0 < i \<Longrightarrow> parent_of i = p \<Longrightarrow> 0 < p \<Longrightarrow> le (v ! parent_of p) (v ! i)"
  using assms by (simp_all add: heap_hole_def)

lemma above_childrenD:
  "above_children le v p n \<Longrightarrow> i < n \<Longrightarrow> 0 < i \<Longrightarrow> parent_of i = p \<Longrightarrow> le (v ! p) (v ! i)"
  by (simp add: above_children_def)

lemma heap_close:
  assumes "heap_hole le v p n" and "above_children le v p n" and "below_parent le v p"
  shows "heap_upto le v n"
  unfolding heap_upto_def
proof (intro allI impI)
  fix i assume i: "i < n" "0 < i"
  consider "i = p" | "i \<noteq> p" "parent_of i = p" | "i \<noteq> p" "parent_of i \<noteq> p" by blast
  then show "le (v ! parent_of i) (v ! i)"
  proof cases
    case 1
    then show ?thesis using assms(3) i by (simp add: below_parent_def)
  next
    case 2
    then show ?thesis using above_childrenD [OF assms(2) i] by simp
  next
    case 3
    then show ?thesis using heap_holeD(1) [OF assms(1) i] by simp
  qed
qed

lemma swap_parts:
  assumes "p < length v" and "c < length v" and "p \<noteq> c"
  shows "swap_at v p c ! p = v ! c" and "swap_at v p c ! c = v ! p"
    and "i \<noteq> p \<Longrightarrow> i \<noteq> c \<Longrightarrow> swap_at v p c ! i = v ! i"
  using assms by (simp_all add: swap_at_def)

text \<open>The same for the nodes below position \<open>s\<close> only, for a heap that is built from the bottom.\<close>

definition heap_from :: "('a \<Rightarrow> 'a \<Rightarrow> bool) \<Rightarrow> nat \<Rightarrow> 'a list \<Rightarrow> nat \<Rightarrow> bool" where
  "heap_from le s v n \<longleftrightarrow> (\<forall>i<n. 0 < i \<and> s \<le> parent_of i \<longrightarrow> le (v ! parent_of i) (v ! i))"

definition hole_from :: "('a \<Rightarrow> 'a \<Rightarrow> bool) \<Rightarrow> nat \<Rightarrow> 'a list \<Rightarrow> nat \<Rightarrow> nat \<Rightarrow> bool" where
  "hole_from le s v p n \<longleftrightarrow>
     (\<forall>i<n. 0 < i \<and> s \<le> parent_of i \<and> i \<noteq> p \<and> parent_of i \<noteq> p \<longrightarrow> le (v ! parent_of i) (v ! i)) \<and>
     (\<forall>i<n. 0 < i \<and> parent_of i = p \<and> 0 < p \<and> s \<le> parent_of p \<longrightarrow> le (v ! parent_of p) (v ! i))"

definition below_from :: "('a \<Rightarrow> 'a \<Rightarrow> bool) \<Rightarrow> nat \<Rightarrow> 'a list \<Rightarrow> nat \<Rightarrow> bool" where
  "below_from le s v p \<longleftrightarrow> (0 < p \<and> s \<le> parent_of p \<longrightarrow> le (v ! parent_of p) (v ! p))"

lemma hole_fromD:
  assumes "hole_from le s v p n"
  shows "i < n \<Longrightarrow> 0 < i \<Longrightarrow> s \<le> parent_of i \<Longrightarrow> i \<noteq> p \<Longrightarrow> parent_of i \<noteq> p \<Longrightarrow> le (v ! parent_of i) (v ! i)"
    and "i < n \<Longrightarrow> 0 < i \<Longrightarrow> parent_of i = p \<Longrightarrow> 0 < p \<Longrightarrow> s \<le> parent_of p \<Longrightarrow> le (v ! parent_of p) (v ! i)"
  using assms by (simp_all add: hole_from_def)

lemma hole_from_start:
  assumes "heap_from le (Suc s) v n"
  shows "hole_from le s v s n" and "below_from le s v s"
proof -
  have "0 < s \<Longrightarrow> \<not> s \<le> parent_of s" using parent_less [of s] by simp
  then show "hole_from le s v s n" "below_from le s v s"
    using assms by (auto simp: heap_from_def hole_from_def below_from_def)
qed

lemma heap_from_close:
  assumes "hole_from le s v p n" and "above_children le v p n" and "below_from le s v p"
  shows "heap_from le s v n"
  unfolding heap_from_def
proof (intro allI impI)
  fix i assume i: "i < n" "0 < i \<and> s \<le> parent_of i"
  consider "i = p" | "i \<noteq> p" "parent_of i = p" | "i \<noteq> p" "parent_of i \<noteq> p" by blast
  then show "le (v ! parent_of i) (v ! i)"
  proof cases
    case 1
    then show ?thesis using assms(3) i by (simp add: below_from_def)
  next
    case 2
    then show ?thesis using above_childrenD [OF assms(2) i(1)] i by simp
  next
    case 3
    then show ?thesis using hole_fromD(1) [OF assms(1) i(1)] i by simp
  qed
qed

lemma down_step_from:
  assumes hole: "hole_from le s v p n" and c: "c < n" "0 < c" "parent_of c = p" and n: "n \<le> length v" and s: "s \<le> p"
    and best: "\<And>d. d < n \<Longrightarrow> 0 < d \<Longrightarrow> parent_of d = p \<Longrightarrow> le (v ! c) (v ! d)" and le: "le (v ! c) (v ! p)"
  shows "hole_from le s (swap_at v p c) c n \<and> below_from le s (swap_at v p c) c"
proof -
  let ?w = "swap_at v p c"
  have pc: "p < c" using c parent_less by auto
  have w: "?w ! p = v ! c" "?w ! c = v ! p" "\<And>i. i \<noteq> p \<Longrightarrow> i \<noteq> c \<Longrightarrow> ?w ! i = v ! i"
    using swap_parts [of p v c] pc c n by auto
  have a: "le (?w ! parent_of i) (?w ! i)" if i: "i < n" "0 < i" "s \<le> parent_of i" "i \<noteq> c" "parent_of i \<noteq> c" for i
  proof -
    consider "i = p" | "i \<noteq> p" "parent_of i = p" | "i \<noteq> p" "parent_of i \<noteq> p" by blast
    then show ?thesis
    proof cases
      case 1
      then have "le (v ! parent_of p) (v ! c)" using hole_fromD(2) [OF hole c] i by simp
      then show ?thesis using 1 w i parent_less [OF i(2)] pc by simp
    next
      case 2
      then show ?thesis using best [OF i(1,2)] w i by simp
    next
      case 3
      then show ?thesis using hole_fromD(1) [OF hole i(1,2,3)] w i by simp
    qed
  qed
  have b: "le (?w ! parent_of c) (?w ! i)" if i: "i < n" "0 < i" "parent_of i = c" "0 < c" for i
    using hole_fromD(1) [OF hole i(1,2)] w i c pc parent_less [OF i(2)] s by simp
  have "below_from le s ?w c" using w c le by (simp add: below_from_def)
  with a b show ?thesis unfolding hole_from_def by blast
qed

locale heap_order =
  fixes le :: "'a \<Rightarrow> 'a \<Rightarrow> bool"
  assumes total: "le x y \<or> le y x"
    and trans: "le x y \<Longrightarrow> le y z \<Longrightarrow> le x z"
begin

lemma refl: "le x x"
  using total [of x x] by simp

lemma heap_root:
  assumes "heap_upto le v n" and "i < n"
  shows "le (v ! 0) (v ! i)"
  using assms(2)
proof (induction i rule: less_induct)
  case (less i)
  show ?case
  proof (cases "i = 0")
    case False
    then have "le (v ! 0) (v ! parent_of i)" using less parent_less [of i] by (intro less.IH) auto
    with heap_uptoD [OF assms(1) less.prems] False show ?thesis by (blast intro: trans)
  qed (simp add: refl)
qed

lemma hole_of_update:
  assumes v: "heap_upto le v n" and same: "\<And>i. i < n \<Longrightarrow> i \<noteq> p \<Longrightarrow> w ! i = v ! i"
  shows "heap_hole le w p n"
  unfolding heap_hole_def
proof (intro conjI allI impI)
  fix i assume i: "i < n" and "0 < i \<and> i \<noteq> p \<and> parent_of i \<noteq> p"
  then show "le (w ! parent_of i) (w ! i)"
    using heap_uptoD [OF v, of i] same [of i] same [of "parent_of i"] parent_less [of i] by simp
next
  fix i assume i: "i < n" and h: "0 < i \<and> parent_of i = p \<and> 0 < p"
  then have lt: "parent_of p < p" "p < i" using parent_less by auto
  then have "le (v ! parent_of p) (v ! i)"
    using trans heap_uptoD [OF v, of i] heap_uptoD [OF v, of p] i h by auto
  then show "le (w ! parent_of p) (w ! i)" using same [of i] same [of "parent_of p"] lt i by simp
qed

text \<open>A sift-up exchanges \<open>p\<close> with its parent.\<close>

lemma up_step:
  assumes hole: "heap_hole le v p n" and ch: "above_children le v p n"
    and p: "0 < p" "p < n" and n: "n \<le> length v" and le: "le (v ! p) (v ! parent_of p)"
  shows "heap_hole le (swap_at v p (parent_of p)) (parent_of p) n \<and>
    above_children le (swap_at v p (parent_of p)) (parent_of p) n"
proof -
  let ?j = "parent_of p"
  let ?w = "swap_at v p ?j"
  have j: "?j < p" using p parent_less by auto
  have w: "?w ! p = v ! ?j" "?w ! ?j = v ! p" "\<And>i. i \<noteq> p \<Longrightarrow> i \<noteq> ?j \<Longrightarrow> ?w ! i = v ! i"
    using swap_parts [of p v ?j] p j n by auto
  have a: "le (?w ! parent_of i) (?w ! i)" if i: "i < n" "0 < i" "i \<noteq> ?j" "parent_of i \<noteq> ?j" for i
  proof -
    have "i \<noteq> p" using i by auto
    then show ?thesis using heap_holeD [OF hole i(1,2)] w i p by (cases "parent_of i = p") simp_all
  qed
  have up: "le (v ! parent_of ?j) (v ! ?j)" if "0 < ?j"
    using heap_holeD(1) [OF hole _ that] j p parent_less [OF that] by simp
  have side: "le (v ! ?j) (v ! i)" if "i < n" "0 < i" "parent_of i = ?j" "i \<noteq> p" for i
    using heap_holeD(1) [OF hole that(1,2,4)] that(3) j by simp
  have b: "le (?w ! parent_of ?j) (?w ! i)" if i: "i < n" "0 < i" "parent_of i = ?j" "0 < ?j" for i
  proof -
    have "?w ! parent_of ?j = v ! parent_of ?j" using parent_less [OF i(4)] j w(3) by simp
    then show ?thesis using up [OF i(4)] side [OF i(1-3)] w(1) w(3) [of i] i parent_less [OF i(2)]
      by (cases "i = p") (auto intro: trans)
  qed
  have c: "le (?w ! ?j) (?w ! i)" if i: "i < n" "0 < i" "parent_of i = ?j" for i
    using le side [OF i] w i parent_less [OF i(2)] by (cases "i = p") (auto intro: trans)
  from a b c show ?thesis unfolding heap_hole_def above_children_def by blast
qed

text \<open>A sift-down exchanges \<open>p\<close> with the child that may stand above the other one.\<close>

lemma down_step:
  assumes hole: "heap_hole le v p n" and c: "c < n" "0 < c" "parent_of c = p" and n: "n \<le> length v"
    and best: "\<And>d. d < n \<Longrightarrow> 0 < d \<Longrightarrow> parent_of d = p \<Longrightarrow> le (v ! c) (v ! d)" and le: "le (v ! c) (v ! p)"
  shows "heap_hole le (swap_at v p c) c n \<and> below_parent le (swap_at v p c) c"
proof -
  let ?w = "swap_at v p c"
  have pc: "p < c" using c parent_less by auto
  have w: "?w ! p = v ! c" "?w ! c = v ! p" "\<And>i. i \<noteq> p \<Longrightarrow> i \<noteq> c \<Longrightarrow> ?w ! i = v ! i"
    using swap_parts [of p v c] pc c n by auto
  have a: "le (?w ! parent_of i) (?w ! i)" if i: "i < n" "0 < i" "i \<noteq> c" "parent_of i \<noteq> c" for i
  proof -
    consider "i = p" | "i \<noteq> p" "parent_of i = p" | "i \<noteq> p" "parent_of i \<noteq> p" by blast
    then show ?thesis
    proof cases
      case 1
      then have "le (v ! parent_of p) (v ! c)" using heap_holeD(2) [OF hole c] i by simp
      then show ?thesis using 1 w i parent_less [OF i(2)] pc by simp
    next
      case 2
      then show ?thesis using best [OF i(1,2)] w i by simp
    next
      case 3
      then show ?thesis using heap_holeD(1) [OF hole i(1,2)] w i by simp
    qed
  qed
  have b: "le (?w ! parent_of c) (?w ! i)" if i: "i < n" "0 < i" "parent_of i = c" "0 < c" for i
    using heap_holeD(1) [OF hole i(1,2)] w i c pc parent_less [OF i(2)] by simp
  have "below_parent le ?w c" using w c le by (simp add: below_parent_def)
  with a b show ?thesis unfolding heap_hole_def by blast
qed

end

end
