(* ===== verification/Timer_Heap.thy ===== *)
theory Timer_Heap
  imports Heap_Order
begin

text \<open>
  The connection timer (\<open>class TimerManager\<close>, timer.h and timer.cpp of
  Project/Mini_DCS/cache_server/common): a binary heap of deadlines with a map from the identifier
  of a timer to its position. Times are nanoseconds of \<open>Clock\<close>; the readings of \<open>Clock::now()\<close> are
  arguments. A callback is a value \<open>'c\<close> recorded in the order of the calls.
\<close>

section \<open>State and operations\<close>

record 'c time_node =
  tn_id :: int
  expire :: int
  cb :: 'c

record 'c timer_manager =
  heap :: "'c time_node list"
  ref :: "int \<rightharpoonup> nat"

definition TimerManager_init :: "'c timer_manager" where
  "TimerManager_init = \<lparr>heap = [], ref = Map.empty\<rparr>"

definition node_less :: "'c time_node \<Rightarrow> 'c time_node \<Rightarrow> bool" where
  "node_less a b \<longleftrightarrow> expire a < expire b"

definition MS :: "int \<Rightarrow> int" where
  "MS t = t * 1000000"

definition swapNode :: "'c timer_manager \<Rightarrow> nat \<Rightarrow> nat \<Rightarrow> 'c timer_manager res" where
  "swapNode m i j =
     bind_res (assert_res (i < length (heap m))) (\<lambda>_.
     bind_res (assert_res (j < length (heap m))) (\<lambda>_.
     let h = swap_at (heap m) i j
     in Inr (m\<lparr>heap := h, ref := (ref m)(tn_id (h ! i) \<mapsto> i, tn_id (h ! j) \<mapsto> j)\<rparr>)))"

text \<open>
  \<open>shiftup\<close> computes \<open>j = (i-1)/2\<close> in \<open>size_t\<close>: at the root \<open>j\<close> is \<open>2^63 - 1\<close>, an index no vector has
  (\<open>root_parent_index\<close> below), and the loop condition \<open>j>=0\<close> never stops it. The comparison
  \<open>heap_[j]<heap_[i]\<close> is then a read outside of the vector: \<open>root_read\<close>. For the language it is
  undefined, which is the argument \<open>None\<close> and the error \<open>Out_Of_Bounds\<close>; where the address computed
  (it wraps to the words in front of the vector) can be read and holds the deadline \<open>t\<close>, \<open>Some t\<close>, an
  earlier \<open>t\<close> ends the loop and any other leads to the assertion of \<open>swapNode\<close> on \<open>j\<close>.
  No theorem assumes anything of this argument.
\<close>

definition root_read :: "int option \<Rightarrow> int \<Rightarrow> unit res" where
  "root_read stray d =
     (case stray of
        None \<Rightarrow> Inl Out_Of_Bounds
      | Some t \<Rightarrow> if t < d then Inr () else Inl Assert_Failed)"

function shiftup_loop :: "int option \<Rightarrow> 'c timer_manager \<Rightarrow> nat \<Rightarrow> 'c timer_manager res" where
  "shiftup_loop stray m i =
     (if i = 0 then bind_res (vget (heap m) 0) (\<lambda>ni. bind_res (root_read stray (expire ni)) (\<lambda>_. Inr m))
      else
        let j = (i - 1) div 2
        in bind_res (vget (heap m) j) (\<lambda>nj.
           bind_res (vget (heap m) i) (\<lambda>ni.
           if node_less nj ni then Inr m
           else bind_res (swapNode m i j) (\<lambda>m'. shiftup_loop stray m' j))))"
  by pat_completeness auto
termination
  by (relation "measure (\<lambda>(stray, m, i). i)") auto

declare shiftup_loop.simps [simp del]

definition shiftup :: "int option \<Rightarrow> 'c timer_manager \<Rightarrow> nat \<Rightarrow> 'c timer_manager res" where
  "shiftup stray m i =
     bind_res (assert_res (i < length (heap m))) (\<lambda>_. shiftup_loop stray m i)"

definition smaller_child :: "'c timer_manager \<Rightarrow> nat \<Rightarrow> nat \<Rightarrow> nat res" where
  "smaller_child m j n =
     (if j + 1 < n
      then bind_res (vget (heap m) (j + 1)) (\<lambda>a. bind_res (vget (heap m) j) (\<lambda>b.
           Inr (if node_less a b then j + 1 else j)))
      else Inr j)"

function shiftdown_loop :: "'c timer_manager \<Rightarrow> nat \<Rightarrow> nat \<Rightarrow> ('c timer_manager \<times> nat) res" where
  "shiftdown_loop m i n =
     (if \<not> i * 2 + 1 < n then Inr (m, i)
      else bind_res (smaller_child m (i * 2 + 1) n) (\<lambda>j.
           bind_res (vget (heap m) i) (\<lambda>ni. bind_res (vget (heap m) j) (\<lambda>nj.
           if node_less ni nj then Inr (m, i)
           else bind_res (swapNode m i j) (\<lambda>m'. shiftdown_loop m' j n)))))"
  by pat_completeness auto
termination
  by (relation "measure (\<lambda>(m, i, n). n - i)")
    (auto simp: smaller_child_def res_simps split: if_splits)

declare shiftdown_loop.simps [simp del]

definition shiftdown :: "'c timer_manager \<Rightarrow> nat \<Rightarrow> nat \<Rightarrow> (bool \<times> 'c timer_manager) res" where
  "shiftdown m index n =
     bind_res (assert_res (index < length (heap m))) (\<lambda>_.
     bind_res (assert_res (n \<le> length (heap m))) (\<lambda>_.
     bind_res (shiftdown_loop m index n) (\<lambda>(m', i). Inr (index < i, m'))))"

definition sift :: "int option \<Rightarrow> 'c timer_manager \<Rightarrow> nat \<Rightarrow> nat \<Rightarrow> 'c timer_manager res" where
  "sift stray m i n =
     bind_res (shiftdown m i n) (\<lambda>(moved, m'). if moved then Inr m' else shiftup stray m' i)"

definition addTimer :: "int option \<Rightarrow> int \<Rightarrow> 'c timer_manager \<Rightarrow> int \<Rightarrow> int \<Rightarrow> 'c \<Rightarrow> 'c timer_manager res" where
  "addTimer stray now m fd timeout c =
     bind_res (assert_res (0 \<le> fd)) (\<lambda>_.
     case ref m fd of
       None \<Rightarrow>
         let i = length (heap m)
         in shiftup stray (m\<lparr>ref := (ref m)(fd \<mapsto> i),
              heap := heap m @ [\<lparr>tn_id = fd, expire = now + MS timeout, cb = c\<rparr>]\<rparr>) i
     | Some i \<Rightarrow>
         bind_res (vget (heap m) i) (\<lambda>nd.
         sift stray (m\<lparr>heap := (heap m)[i := nd\<lparr>expire := now + MS timeout, cb := c\<rparr>]\<rparr>) i (length (heap m))))"

definition del_at :: "int option \<Rightarrow> 'c timer_manager \<Rightarrow> nat \<Rightarrow> 'c timer_manager res" where
  "del_at stray m index =
     bind_res (assert_res (heap m \<noteq> [] \<and> index < length (heap m))) (\<lambda>_.
     let n = length (heap m) - 1
     in bind_res (assert_res (index \<le> n)) (\<lambda>_.
        bind_res (if index < n
                  then bind_res (swapNode m index n) (\<lambda>m'. sift stray m' index n)
                  else Inr m) (\<lambda>m'.
        Inr (m'\<lparr>ref := (ref m')(tn_id (last (heap m')) := None), heap := butlast (heap m')\<rparr>))))"

definition pop :: "int option \<Rightarrow> 'c timer_manager \<Rightarrow> 'c timer_manager res" where
  "pop stray m = bind_res (assert_res (heap m \<noteq> [])) (\<lambda>_. del_at stray m 0)"

definition clear :: "'c timer_manager \<Rightarrow> 'c timer_manager" where
  "clear m = m\<lparr>ref := Map.empty, heap := []\<rparr>"

text \<open>\<open>work\<close> runs the callback of the timer and deletes it.\<close>

definition work :: "int option \<Rightarrow> 'c timer_manager \<Rightarrow> int \<Rightarrow> ('c list \<times> 'c timer_manager) res" where
  "work stray m fd =
     (if heap m = [] then Inr ([], m)
      else case ref m fd of
        None \<Rightarrow> Inr ([], m)
      | Some i \<Rightarrow> bind_res (vget (heap m) i) (\<lambda>nd.
          bind_res (del_at stray m i) (\<lambda>m'. Inr ([cb nd], m'))))"

definition update :: "int \<Rightarrow> 'c timer_manager \<Rightarrow> int \<Rightarrow> int \<Rightarrow> 'c timer_manager res" where
  "update now m fd timeout =
     bind_res (assert_res (heap m \<noteq> [] \<and> ref m fd \<noteq> None)) (\<lambda>_.
     bind_res (vget (heap m) (the (ref m fd))) (\<lambda>nd.
     let m1 = m\<lparr>heap := (heap m)[the (ref m fd) := nd\<lparr>expire := now + MS timeout\<rparr>]\<rparr>
     in bind_res (shiftdown m1 (the (ref m fd)) (length (heap m1))) (\<lambda>(_, m2). Inr m2)))"

text \<open>Every successful \<open>pop\<close> shortens the heap, so the loop of \<open>handle_expired_event\<close> ends.\<close>

lemma swapNode_eq_Inr [res_simps]:
  "swapNode m i j = Inr m' \<longleftrightarrow> i < length (heap m) \<and> j < length (heap m) \<and>
     m' = m\<lparr>heap := swap_at (heap m) i j,
             ref := (ref m)(tn_id (swap_at (heap m) i j ! i) \<mapsto> i, tn_id (swap_at (heap m) i j ! j) \<mapsto> j)\<rparr>"
  by (auto simp: swapNode_def res_simps Let_def)

lemma shiftup_loop_length:
  "shiftup_loop stray m i = Inr m' \<Longrightarrow> length (heap m') = length (heap m)"
proof (induction i arbitrary: m rule: less_induct)
  case (less i)
  from less.prems show ?case
    by (subst (asm) shiftup_loop.simps)
      (auto simp: res_simps Let_def split: if_splits option.splits dest!: less.IH [rotated])
qed

lemma shiftdown_loop_length:
  "shiftdown_loop m i n = Inr r \<Longrightarrow> length (heap (fst r)) = length (heap m)"
proof (induction "n - i" arbitrary: m i rule: less_induct)
  case less
  from less.prems show ?case
    by (subst (asm) shiftdown_loop.simps)
      (auto simp: res_simps smaller_child_def split: if_splits dest!: less.hyps [rotated])
qed

lemma sift_length: "sift stray m i n = Inr m' \<Longrightarrow> length (heap m') = length (heap m)"
  by (auto simp: sift_def shiftdown_def shiftup_def res_simps split: if_splits prod.splits
      dest!: shiftup_loop_length shiftdown_loop_length)

lemma del_at_length: "del_at stray m i = Inr m' \<Longrightarrow> Suc (length (heap m')) = length (heap m)"
  by (auto simp: del_at_def res_simps Let_def split: if_splits dest!: sift_length)

lemma pop_length: "pop stray m = Inr m' \<Longrightarrow> length (heap m') < length (heap m)"
  using del_at_length [of stray m 0 m'] by (auto simp: pop_def res_simps)

text \<open>
  \<open>duration_cast<MS>\<close> truncates towards zero. The \<open>k\<close>-th reading of the clock during
  \<open>handle_expired_event\<close> is \<open>clock k\<close>, and what a read outside of the heap finds after it \<open>stray k\<close>; the result lists the callbacks run and counts the readings.
\<close>

definition ms_count :: "int \<Rightarrow> int" where
  "ms_count ns = c_div ns 1000000"

function handle_expired_event :: "(nat \<Rightarrow> int option) \<Rightarrow> (nat \<Rightarrow> int) \<Rightarrow> nat \<Rightarrow> 'c timer_manager \<Rightarrow>
    ('c time_node list \<times> nat \<times> 'c timer_manager) res" where
  "handle_expired_event stray clock k m =
     (if heap m = [] then Inr ([], k, m)
      else let nd = hd (heap m)
           in if ms_count (expire nd - clock k) > 0 then Inr ([], Suc k, m)
              else bind_res (pop (stray k) m) (\<lambda>m'.
                   bind_res (handle_expired_event stray clock (Suc k) m') (\<lambda>(fired, k', m'').
                   Inr (nd # fired, k', m''))))"
  by pat_completeness auto
termination
  by (relation "measure (\<lambda>(stray, clock, k, m). length (heap m))") (auto dest: pop_length)

declare handle_expired_event.simps [simp del]

text \<open>
  \<open>getNextHandle\<close> stores the count in a \<open>size_t\<close>, where the test for a negative value is never
  true, and returns it converted to \<open>int\<close>.
\<close>

definition size_t_to_int :: "nat \<Rightarrow> int" where
  "size_t_to_int n = (let w = int n mod 2 ^ 32 in if w < 2 ^ 31 then w else w - 2 ^ 32)"

definition to_size_t :: "int \<Rightarrow> nat" where
  "to_size_t x = nat (x mod 2 ^ 64)"

definition getNextHandle :: "(nat \<Rightarrow> int option) \<Rightarrow> (nat \<Rightarrow> int) \<Rightarrow> 'c timer_manager \<Rightarrow>
    (int \<times> 'c time_node list \<times> 'c timer_manager) res" where
  "getNextHandle stray clock m =
     bind_res (handle_expired_event stray clock 0 m) (\<lambda>(fired, k, m').
     let res = (if heap m' \<noteq> [] then to_size_t (ms_count (expire (hd (heap m')) - clock k))
                else to_size_t (-1))
     in Inr (size_t_to_int res, fired, m'))"

section \<open>The invariant\<close>

text \<open>\<open>ref_\<close> is exactly the inverse of the identifiers along the heap.\<close>

definition ref_ok :: "'c timer_manager \<Rightarrow> bool" where
  "ref_ok m \<longleftrightarrow> (\<forall>x i. ref m x = Some i \<longleftrightarrow> i < length (heap m) \<and> tn_id (heap m ! i) = x)"

abbreviation no_later :: "'c time_node \<Rightarrow> 'c time_node \<Rightarrow> bool" where
  "no_later a b \<equiv> expire a \<le> expire b"

definition timer_inv :: "'c timer_manager \<Rightarrow> bool" where
  "timer_inv m \<longleftrightarrow> ref_ok m \<and> heap_upto no_later (heap m) (length (heap m))"

text \<open>What the exchanges of a sift within the first \<open>n\<close> positions keep.\<close>

definition shuffled :: "nat \<Rightarrow> 'c timer_manager \<Rightarrow> 'c timer_manager \<Rightarrow> bool" where
  "shuffled n m m' \<longleftrightarrow> ref_ok m' \<and> mset (heap m') = mset (heap m) \<and>
     (\<forall>j<length (heap m). n \<le> j \<longrightarrow> heap m' ! j = heap m ! j)"

interpretation timer_order: heap_order no_later
  by unfold_locales auto

lemma shuffled_refl: "ref_ok m \<Longrightarrow> shuffled n m m"
  by (simp add: shuffled_def)

lemma shuffled_trans: "shuffled n a b \<Longrightarrow> shuffled n b c \<Longrightarrow> shuffled n a c"
  by (auto simp: shuffled_def dest: mset_eq_length)

lemma shuffled_length: "shuffled n m m' \<Longrightarrow> length (heap m') = length (heap m)"
  by (auto simp: shuffled_def dest: mset_eq_length)

lemma shuffled_set: "shuffled n m m' \<Longrightarrow> set (heap m') = set (heap m)"
  by (auto simp: shuffled_def dest: mset_eq_setD)

lemma swapNode_shuffled:
  assumes r: "ref_ok m" and i: "i < n" and j: "j < n" and n: "n \<le> length (heap m)"
  shows "\<exists>m'. swapNode m i j = Inr m' \<and> heap m' = swap_at (heap m) i j \<and> shuffled n m m'"
proof -
  let ?h = "swap_at (heap m) i j"
  let ?m = "m\<lparr>heap := ?h, ref := (ref m)(tn_id (?h ! i) \<mapsto> i, tn_id (?h ! j) \<mapsto> j)\<rparr>"
  have l: "i < length (heap m)" "j < length (heap m)" using i j n by auto
  have h: "?h ! k = (if k = i then heap m ! j else if k = j then heap m ! i else heap m ! k)"
    if "k < length (heap m)" for k using l that by (rule nth_swap_at)
  have at: "ref m x = Some k \<longleftrightarrow> k < length (heap m) \<and> tn_id (heap m ! k) = x" for x k
    using r by (simp add: ref_ok_def)
  have inj: "tn_id (heap m ! k) = tn_id (heap m ! k') \<longleftrightarrow> k = k'"
    if "k < length (heap m)" "k' < length (heap m)" for k k'
    using at [of "tn_id (heap m ! k)" k] at [of "tn_id (heap m ! k)" k'] that by auto
  have e: "ref ?m x = (if x = tn_id (heap m ! i) then Some j else if x = tn_id (heap m ! j) then Some i else ref m x)" for x
    using l by (simp add: nth_swap_at)
  have "ref ?m x = Some k \<longleftrightarrow> k < length ?h \<and> tn_id (?h ! k) = x" for x k
  proof (cases "k < length (heap m)")
    case True
    consider "k = i" | "k = j" "k \<noteq> i" | "k \<noteq> i" "k \<noteq> j" by blast
    then show ?thesis
    proof cases
      case 1
      then show ?thesis using l at [of x i] inj [OF l] unfolding e h [OF True] by auto
    next
      case 2
      then show ?thesis using l at [of x j] inj [OF l] unfolding e h [OF True] by auto
    next
      case 3
      then show ?thesis using True at [of x k] inj [OF l(1) True] inj [OF l(2) True] unfolding e h [OF True]
        by auto
    qed
  next
    case False
    then show ?thesis using l at [of x k] unfolding e by auto
  qed
  then have "ref_ok ?m" by (simp add: ref_ok_def)
  moreover have "swapNode m i j = Inr ?m" using l by (simp add: swapNode_eq_Inr)
  ultimately show ?thesis using l h i j by (auto simp: shuffled_def)
qed

text \<open>A sift either just returns, or returns once the read at the root has let it.\<close>

definition settles :: "int option \<Rightarrow> int \<Rightarrow> 'a \<Rightarrow> 'a res \<Rightarrow> bool" where
  "settles stray d m' r \<longleftrightarrow> r = Inr m' \<or> r = bind_res (root_read stray d) (\<lambda>_. Inr m')"

abbreviation first_upto :: "'c time_node list \<Rightarrow> nat \<Rightarrow> nat \<Rightarrow> bool" where
  "first_upto h i n \<equiv> \<forall>k<n. no_later (h ! i) (h ! k)"

lemma first_upto_swap:
  assumes "i < n" and "j < n" and "n \<le> length h"
  shows "first_upto (swap_at h i j) j n \<longleftrightarrow> first_upto h i n"
proof -
  have at: "swap_at h i j ! k = (if k = i then h ! j else if k = j then h ! i else h ! k)" if "k < n" for k
    using assms that by (intro nth_swap_at) auto
  show ?thesis
  proof
    assume f: "first_upto (swap_at h i j) j n"
    have "no_later (h ! i) (swap_at h i j ! k)" if "k < n" for k using f that at [OF assms(2)] assms by (auto split: if_splits)
    then show "first_upto h i n" using at assms(1,2) by (metis order_refl)
  next
    assume "first_upto h i n"
    then show "first_upto (swap_at h i j) j n" using at assms(1,2) by auto
  qed
qed

lemma shiftup_loop_ok:
  assumes "ref_ok m" and "i < n" and "n \<le> length (heap m)"
    and "heap_hole no_later (heap m) i n" and "above_children no_later (heap m) i n"
  shows "\<exists>m'. shuffled n m m' \<and> heap_upto no_later (heap m') n \<and>
    shiftup_loop stray m i = (if first_upto (heap m) i n
      then bind_res (root_read stray (expire (heap m ! i))) (\<lambda>_. Inr m') else Inr m')"
  using assms
proof (induction i arbitrary: m rule: less_induct)
  case (less i)
  note hole = less.prems(4) and ch = less.prems(5)
  have i: "i < length (heap m)" using less.prems by simp
  show ?case
  proof (cases "i = 0")
    case True
    then have up: "heap_upto no_later (heap m) n" using heap_close [OF hole ch] by (simp add: below_parent_def)
    then have "first_upto (heap m) i n" using timer_order.heap_root [of "heap m" n] True by auto
    then show ?thesis using True i up less.prems(1)
      by (intro exI [of _ m], subst shiftup_loop.simps) (simp add: shuffled_refl)
  next
    case False
    let ?j = "parent_of i"
    have j: "?j < i" using False parent_less by auto
    show ?thesis
    proof (cases "node_less (heap m ! ?j) (heap m ! i)")
      case True
      then have "heap_upto no_later (heap m) n"
        by (intro heap_close [OF hole ch]) (simp add: below_parent_def node_less_def)
      moreover have "\<not> first_upto (heap m) i n" using True j less.prems(2) by (metis node_less_def not_le order.strict_trans)
      moreover have "shiftup_loop stray m i = Inr m" using True False i j
        by (subst shiftup_loop.simps) (simp add: Let_def flip: parent_of_def [simplified])
      ultimately show ?thesis using shuffled_refl [OF less.prems(1)] by metis
    next
      case nl: False
      obtain m1 where m1: "swapNode m i ?j = Inr m1" "heap m1 = swap_at (heap m) i ?j" "shuffled n m m1"
        using swapNode_shuffled [OF less.prems(1,2) _ less.prems(3), of ?j] j less.prems(2) by auto
      have hc: "heap_hole no_later (heap m1) ?j n \<and> above_children no_later (heap m1) ?j n" unfolding m1(2)
        using timer_order.up_step [OF hole ch] False less.prems nl by (simp add: node_less_def)
      have m1': "ref_ok m1" "?j < n" "n \<le> length (heap m1)"
        using m1(3) less.prems shuffled_length [OF m1(3)] j by (auto simp: shuffled_def)
      have first: "first_upto (heap m1) ?j n = first_upto (heap m) i n"
        unfolding m1(2) using less.prems(2,3) j by (intro first_upto_swap) auto
      have at: "heap m1 ! ?j = heap m ! i" unfolding m1(2) using i j by (simp add: nth_swap_at)
      obtain m' where m': "shuffled n m1 m'" "heap_upto no_later (heap m') n"
          "shiftup_loop stray m1 ?j = (if first_upto (heap m) i n
             then bind_res (root_read stray (expire (heap m ! i))) (\<lambda>_. Inr m') else Inr m')"
        using less.IH [OF j m1' conjunct1 [OF hc] conjunct2 [OF hc]] unfolding first unfolding at by blast
      have "shiftup_loop stray m i = shiftup_loop stray m1 ?j" using False i j nl m1(1)
        by (subst shiftup_loop.simps) (simp add: Let_def flip: parent_of_def [simplified])
      then have "shiftup_loop stray m i = (if first_upto (heap m) i n
          then bind_res (root_read stray (expire (heap m ! i))) (\<lambda>_. Inr m') else Inr m')" unfolding m'(3) .
      then show ?thesis using m'(2) shuffled_trans [OF m1(3) m'(1)] by (intro exI [of _ m'] conjI)
    qed
  qed
qed

lemma smaller_child_ok:
  assumes "i * 2 + 1 < n" and "n \<le> length (heap m)"
  obtains j where "smaller_child m (i * 2 + 1) n = Inr j" "j < n" "0 < j" "parent_of j = i"
    "\<And>d. d < n \<Longrightarrow> 0 < d \<Longrightarrow> parent_of d = i \<Longrightarrow> no_later (heap m ! j) (heap m ! d)"
proof
  let ?j = "if i * 2 + 2 < n \<and> node_less (heap m ! (i * 2 + 2)) (heap m ! (i * 2 + 1)) then i * 2 + 2 else i * 2 + 1"
  show "smaller_child m (i * 2 + 1) n = Inr ?j" using assms by (simp add: smaller_child_def)
  show "?j < n" "0 < ?j" using assms by auto
  show "parent_of ?j = i" by (simp add: parent_of_def)
  show "no_later (heap m ! ?j) (heap m ! d)" if "d < n" "0 < d" "parent_of d = i" for d
    using that children_of [of d i] by (auto simp: node_less_def mult.commute)
qed

lemma shiftdown_loop_ok:
  assumes "ref_ok m" and "i < length (heap m)" and "n \<le> length (heap m)" and "heap_hole no_later (heap m) i n"
  shows "\<exists>m' k. shiftdown_loop m i n = Inr (m', k) \<and> shuffled n m m' \<and> i \<le> k \<and>
    (k = i \<longrightarrow> m' = m \<and> above_children no_later (heap m) i n) \<and> (i < k \<longrightarrow> heap_upto no_later (heap m') n \<and> (\<exists>d<n. d \<noteq> i \<and> no_later (heap m ! d) (heap m ! i)))"
  using assms
proof (induction "n - i" arbitrary: m i rule: less_induct)
  case less
  note hole = less.prems(4)
  show ?case
  proof (cases "i * 2 + 1 < n")
    case False
    then have "\<not> (d < n \<and> 0 < d \<and> parent_of d = i)" for d using children_of [of d i] by auto
    then have "above_children no_later (heap m) i n" by (auto simp: above_children_def)
    then show ?thesis using False less.prems(1)
      by (intro exI [of _ m] exI [of _ i]) (simp add: shiftdown_loop.simps shuffled_refl)
  next
    case True
    then obtain j where j: "smaller_child m (i * 2 + 1) n = Inr j" "j < n" "0 < j" "parent_of j = i"
      "\<And>d. d < n \<Longrightarrow> 0 < d \<Longrightarrow> parent_of d = i \<Longrightarrow> no_later (heap m ! j) (heap m ! d)"
      using smaller_child_ok less.prems(3) by blast
    have ij: "i < j" using j(3,4) parent_less by auto
    show ?thesis
    proof (cases "node_less (heap m ! i) (heap m ! j)")
      case lt: True
      have "no_later (heap m ! i) (heap m ! d)" if "d < n" "0 < d" "parent_of d = i" for d
        using j(5) [OF that] lt by (simp add: node_less_def)
      then have "above_children no_later (heap m) i n" by (simp add: above_children_def)
      then show ?thesis using True lt j less.prems
        by (intro exI [of _ m] exI [of _ i]) (simp add: shiftdown_loop.simps shuffled_refl)
    next
      case nl: False
      obtain m1 where m1: "swapNode m i j = Inr m1" "heap m1 = swap_at (heap m) i j" "shuffled n m m1"
        using swapNode_shuffled [OF less.prems(1) _ j(2) less.prems(3), of i] ij j(2) by auto
      have nl': "no_later (heap m ! j) (heap m ! i)" using nl by (simp add: node_less_def)
      have "heap_hole no_later (heap m1) j n \<and> below_parent no_later (heap m1) j"
        unfolding m1(2) by (rule timer_order.down_step [OF hole j(2-4) less.prems(3) j(5) nl'])
      then have d: "heap_hole no_later (heap m1) j n" "below_parent no_later (heap m1) j" by (rule conjunct1, rule conjunct2)
      have "ref_ok m1" "j < length (heap m1)" "n \<le> length (heap m1)" "n - j < n - i"
        using m1(3) less.prems j ij shuffled_length [OF m1(3)] by (auto simp: shuffled_def)
      then obtain m' k where r: "shiftdown_loop m1 j n = Inr (m', k)" "shuffled n m1 m'" "j \<le> k"
        "k = j \<longrightarrow> m' = m1 \<and> above_children no_later (heap m1) j n" "j < k \<longrightarrow> heap_upto no_later (heap m') n"
        using less.hyps [of j m1] d(1) by auto
      have "heap_upto no_later (heap m') n" using r d heap_close [OF d(1)] by (cases "k = j") auto
      moreover have "shiftdown_loop m i n = Inr (m', k)" using True j nl m1(1) r(1) less.prems
        by (simp add: shiftdown_loop.simps [of m])
      moreover have "\<exists>d<n. d \<noteq> i \<and> no_later (heap m ! d) (heap m ! i)" using j(2) ij nl' by (metis less_irrefl)
      moreover have "shuffled n m m'" using m1(3) r(2) by (rule shuffled_trans)
      ultimately show ?thesis using r(3) ij by (intro exI [of _ m'] exI [of _ k]) simp
    qed
  qed
qed

lemma sift_ok:
  assumes r: "ref_ok m" and i: "i < n" and n: "n \<le> length (heap m)" and hole: "heap_hole no_later (heap m) i n"
  shows "\<exists>m'. shuffled n m m' \<and> heap_upto no_later (heap m') n \<and>
    settles stray (expire (heap m ! i)) m' (sift stray m i n) \<and>
    (\<not> first_upto (heap m) i n \<longrightarrow> sift stray m i n = Inr m') \<and>
    ((\<forall>k<n. k \<noteq> i \<longrightarrow> expire (heap m ! i) < expire (heap m ! k)) \<longrightarrow>
      sift stray m i n = bind_res (root_read stray (expire (heap m ! i))) (\<lambda>_. Inr m'))"
proof -
  have l: "i < length (heap m)" using i n by simp
  from shiftdown_loop_ok [OF r l n hole] obtain m' k where
    d: "shiftdown_loop m i n = Inr (m', k)" "shuffled n m m'" "i \<le> k"
      "k = i \<longrightarrow> m' = m \<and> above_children no_later (heap m) i n"
      "i < k \<longrightarrow> heap_upto no_later (heap m') n \<and> (\<exists>d<n. d \<noteq> i \<and> no_later (heap m ! d) (heap m ! i))" by blast
  show ?thesis
  proof (cases "k = i")
    case True
    then have s: "sift stray m i n = shiftup_loop stray m i" and ch: "above_children no_later (heap m) i n"
      using d l n by (simp_all add: sift_def shiftdown_def shiftup_def)
    obtain m' where m': "shuffled n m m'" "heap_upto no_later (heap m') n"
        "shiftup_loop stray m i = (if first_upto (heap m) i n
           then bind_res (root_read stray (expire (heap m ! i))) (\<lambda>_. Inr m') else Inr m')"
      using shiftup_loop_ok [OF r i n hole ch] by blast
    have "(\<forall>k<n. k \<noteq> i \<longrightarrow> expire (heap m ! i) < expire (heap m ! k)) \<Longrightarrow> first_upto (heap m) i n"
      by (metis less_imp_le order_refl)
    then show ?thesis using m' by (intro exI [of _ m']) (auto simp: s settles_def)
  next
    case False
    then have k: "i < k" using d(3) by simp
    then have "sift stray m i n = Inr m'" using d(1) l n by (simp add: sift_def shiftdown_def)
    moreover have "\<not> (\<forall>k<n. k \<noteq> i \<longrightarrow> expire (heap m ! i) < expire (heap m ! k))" using d(5) k by (meson not_le)
    ultimately show ?thesis using d(2,5) k unfolding settles_def by blast
  qed
qed

section \<open>The operations keep the invariant\<close>

lemma ref_okD:
  assumes "ref_ok m"
  shows "ref m x = Some i \<longleftrightarrow> i < length (heap m) \<and> tn_id (heap m ! i) = x"
  using assms by (simp add: ref_ok_def)

lemma ref_ok_ids:
  assumes "ref_ok m" and "i < length (heap m)" and "k < length (heap m)"
  shows "tn_id (heap m ! i) = tn_id (heap m ! k) \<longleftrightarrow> i = k"
  using assms by (metis option.inject ref_ok_def)

lemma ref_ok_None: "ref_ok m \<Longrightarrow> ref m x = None \<longleftrightarrow> x \<notin> tn_id ` set (heap m)"
proof -
  assume r: "ref_ok m"
  have "ref m x \<noteq> None \<longleftrightarrow> (\<exists>i. ref m x = Some i)" by auto
  also have "\<dots> \<longleftrightarrow> (\<exists>i<length (heap m). tn_id (heap m ! i) = x)" by (simp only: ref_okD [OF r])
  also have "\<dots> \<longleftrightarrow> x \<in> tn_id ` set (heap m)" unfolding set_conv_nth by auto
  finally show ?thesis by blast
qed

lemma remove_node_mset:
  assumes r: "ref_ok m" and i: "i < length (heap m)"
  shows "filter_mset (\<lambda>nd. tn_id nd \<noteq> tn_id (heap m ! i)) (mset (heap m)) = mset (heap m) - {#heap m ! i#}"
proof -
  let ?h = "heap m"
  have h: "?h = take i ?h @ ?h ! i # drop (Suc i) ?h" using i by (rule id_take_nth_drop)
  have ne: "tn_id nd \<noteq> tn_id (?h ! i)" if "nd \<in> set (take i ?h @ drop (Suc i) ?h)" for nd
  proof -
    from that i consider a where "a < i" "nd = ?h ! a" | b where "b < length ?h - Suc i" "nd = ?h ! Suc (i + b)"
      by (auto simp: in_set_conv_nth)
    then show ?thesis using i by cases (use ref_ok_ids [OF r _ i] in auto)
  qed
  have "mset ?h = add_mset (?h ! i) (mset (take i ?h @ drop (Suc i) ?h))" by (subst h) simp
  moreover have "filter_mset (\<lambda>nd. tn_id nd \<noteq> tn_id (?h ! i)) (mset (take i ?h @ drop (Suc i) ?h)) =
      mset (take i ?h @ drop (Suc i) ?h)"
    using ne by (intro filter_mset_cong [of _ _ _ "\<lambda>_. True", simplified]) auto
  ultimately show ?thesis by simp
qed

lemma addTimer_new:
  assumes m: "timer_inv m" and none: "ref m fd = None" and nd: "tn_id nd = fd"
  shows "\<exists>m'. timer_inv m' \<and> mset (heap m') = add_mset nd (mset (heap m)) \<and>
    shiftup stray (m\<lparr>ref := (ref m)(fd \<mapsto> length (heap m)), heap := heap m @ [nd]\<rparr>) (length (heap m)) =
      (if \<forall>x\<in>set (heap m). no_later nd x then bind_res (root_read stray (expire nd)) (\<lambda>_. Inr m') else Inr m')"
proof -
  let ?n = "length (heap m)"
  let ?m = "m\<lparr>ref := (ref m)(fd \<mapsto> ?n), heap := heap m @ [nd]\<rparr>"
  have r: "ref_ok m" and hp: "heap_upto no_later (heap m) ?n" using m by (auto simp: timer_inv_def)
  have nid: "tn_id (heap m ! i) \<noteq> fd" if "i < ?n" for i using ref_ok_None [OF r, of fd] none that by auto
  have rm: "ref_ok ?m" unfolding ref_ok_def
  proof (intro allI)
    fix x i
    show "ref ?m x = Some i \<longleftrightarrow> i < length (heap ?m) \<and> tn_id (heap ?m ! i) = x"
      using ref_okD [OF r, of x i] nid nd by (auto simp: nth_append less_Suc_eq)
  qed
  have nochild: "parent_of i \<noteq> ?n" if "i < Suc ?n" "0 < i" for i using parent_less [OF that(2)] that(1) by simp
  have "no_later (heap ?m ! parent_of i) (heap ?m ! i)" if "i < Suc ?n" "0 < i" "i \<noteq> ?n" for i
    using heap_uptoD [OF hp, of i] parent_less [OF that(2)] that by (simp add: nth_append)
  then have hole: "heap_hole no_later (heap ?m) ?n (Suc ?n)" using nochild unfolding heap_hole_def by blast
  have ch: "above_children no_later (heap ?m) ?n (Suc ?n)" unfolding above_children_def using nochild by blast
  have first: "first_upto (heap ?m) ?n (Suc ?n) \<longleftrightarrow> (\<forall>x\<in>set (heap m). no_later nd x)"
    unfolding all_set_conv_all_nth by (auto simp: nth_append less_Suc_eq)
  obtain m' where m': "shuffled (Suc ?n) ?m m'" "heap_upto no_later (heap m') (Suc ?n)"
      "shiftup_loop stray ?m ?n = (if \<forall>x\<in>set (heap m). no_later nd x
         then bind_res (root_read stray (expire nd)) (\<lambda>_. Inr m') else Inr m')"
    using shiftup_loop_ok [OF rm _ _ hole ch, of stray] unfolding first by auto
  then have "timer_inv m'" using shuffled_length [OF m'(1)] by (simp add: timer_inv_def shuffled_def)
  moreover have "mset (heap m') = add_mset nd (mset (heap m))" using m'(1) by (simp add: shuffled_def)
  moreover have "shiftup stray ?m ?n = shiftup_loop stray ?m ?n" by (simp add: shiftup_def)
  ultimately show ?thesis using m'(3) by metis
qed

lemma change_node:
  assumes m: "timer_inv m" and i: "i < length (heap m)" and nd: "tn_id nd = tn_id (heap m ! i)"
  shows "ref_ok (m\<lparr>heap := (heap m)[i := nd]\<rparr>)"
    and "heap_hole no_later ((heap m)[i := nd]) i (length (heap m))"
    and "mset ((heap m)[i := nd]) = add_mset nd (filter_mset (\<lambda>x. tn_id x \<noteq> tn_id nd) (mset (heap m)))"
proof -
  have r: "ref_ok m" and hp: "heap_upto no_later (heap m) (length (heap m))" using m by (auto simp: timer_inv_def)
  have "tn_id ((heap m)[i := nd] ! k) = tn_id (heap m ! k)" if "k < length (heap m)" for k
    using that nd by (cases "k = i") simp_all
  then show "ref_ok (m\<lparr>heap := (heap m)[i := nd]\<rparr>)" using r by (auto simp: ref_ok_def)
  show "heap_hole no_later ((heap m)[i := nd]) i (length (heap m))"
    by (rule timer_order.hole_of_update [OF hp]) simp
  show "mset ((heap m)[i := nd]) = add_mset nd (filter_mset (\<lambda>x. tn_id x \<noteq> tn_id nd) (mset (heap m)))"
    using i remove_node_mset [OF r i] nd by (simp add: mset_update)
qed

lemma drop_last_ok:
  assumes r: "ref_ok m" and ne: "heap m \<noteq> []" and hp: "heap_upto no_later (heap m) (length (heap m) - 1)"
  shows "timer_inv (m\<lparr>ref := (ref m)(tn_id (last (heap m)) := None), heap := butlast (heap m)\<rparr>)"
proof -
  let ?n = "length (heap m) - 1"
  have l: "last (heap m) = heap m ! ?n" "?n < length (heap m)" using ne by (auto simp: last_conv_nth)
  have "ref_ok (m\<lparr>ref := (ref m)(tn_id (last (heap m)) := None), heap := butlast (heap m)\<rparr>)"
    unfolding ref_ok_def
  proof (intro allI)
    fix x i
    show "ref (m\<lparr>ref := (ref m)(tn_id (last (heap m)) := None), heap := butlast (heap m)\<rparr>) x = Some i \<longleftrightarrow>
        i < length (heap (m\<lparr>ref := (ref m)(tn_id (last (heap m)) := None), heap := butlast (heap m)\<rparr>)) \<and>
        tn_id (heap (m\<lparr>ref := (ref m)(tn_id (last (heap m)) := None), heap := butlast (heap m)\<rparr>) ! i) = x"
      using ref_okD [OF r, of x i] ref_ok_ids [OF r l(2), of i] l by (auto simp: nth_butlast)
  qed
  moreover have "heap_upto no_later (butlast (heap m)) ?n"
    unfolding heap_upto_def
  proof (intro allI impI)
    fix i assume "i < ?n" "0 < i"
    then show "no_later (butlast (heap m) ! parent_of i) (butlast (heap m) ! i)"
      using heap_uptoD [OF hp, of i] parent_less [of i] by (simp add: nth_butlast)
  qed
  ultimately show ?thesis by (simp add: timer_inv_def)
qed

lemma mset_butlast_last: "xs \<noteq> [] \<Longrightarrow> mset xs = add_mset (last xs) (mset (butlast xs))"
  by (induction xs) auto

lemma settles_bind:
  "settles stray d x r \<Longrightarrow> settles stray d (f x) (bind_res r (\<lambda>y. Inr (f y)))"
  by (auto simp: settles_def root_read_def split: option.splits)

lemma del_at_ok:
  assumes m: "timer_inv m" and i: "i < length (heap m)"
  shows "\<exists>m'. timer_inv m' \<and> mset (heap m') = mset (heap m) - {#heap m ! i#} \<and>
    settles stray (expire (last (heap m))) m' (del_at stray m i)"
proof -
  let ?n = "length (heap m) - 1"
  let ?mid = "if i < ?n then bind_res (swapNode m i ?n) (\<lambda>m'. sift stray m' i ?n) else Inr m"
  let ?cut = "\<lambda>m2. m2\<lparr>ref := (ref m2)(tn_id (last (heap m2)) := None), heap := butlast (heap m2)\<rparr>"
  have r: "ref_ok m" and hp: "heap_upto no_later (heap m) (length (heap m))" using m by (auto simp: timer_inv_def)
  have ne: "heap m \<noteq> []" and n: "?n < length (heap m)" using i by auto
  have hn: "heap_upto no_later (heap m) ?n" using hp by (auto simp: heap_upto_def)
  have "\<exists>m2. settles stray (expire (last (heap m))) m2 ?mid \<and> ref_ok m2 \<and> heap_upto no_later (heap m2) ?n \<and>
      mset (heap m2) = mset (heap m) \<and> last (heap m2) = heap m ! i"
  proof (cases "i < ?n")
    case True
    obtain m1 where m1: "swapNode m i ?n = Inr m1" "heap m1 = swap_at (heap m) i ?n" "shuffled (length (heap m)) m m1"
      using swapNode_shuffled [OF r i n] by auto
    have at: "heap m1 ! ?n = heap m ! i" "heap m1 ! i = last (heap m)" "\<And>k. k < ?n \<Longrightarrow> k \<noteq> i \<Longrightarrow> heap m1 ! k = heap m ! k"
      using swap_parts [OF i n] True ne unfolding m1(2) by (auto simp: last_conv_nth)
    have hole: "heap_hole no_later (heap m1) i ?n" using hn at(3) by (rule timer_order.hole_of_update)
    have m1': "ref_ok m1" "?n \<le> length (heap m1)" using m1(3) shuffled_length [OF m1(3)] by (auto simp: shuffled_def)
    obtain m2 where m2: "shuffled ?n m1 m2" "heap_upto no_later (heap m2) ?n"
        "settles stray (expire (last (heap m))) m2 (sift stray m1 i ?n)"
      using sift_ok [OF m1'(1) True m1'(2) hole] unfolding at(2) by blast
    have "last (heap m2) = heap m ! i"
      using m2(1) shuffled_length [OF m2(1)] shuffled_length [OF m1(3)] at(1) ne n
      by (subst last_conv_nth) (auto simp: shuffled_def)
    then show ?thesis using True m1 m2 by (intro exI [of _ m2]) (simp add: shuffled_def)
  next
    case False
    then have "i = ?n" using i by simp
    then show ?thesis using r ne hn by (intro exI [of _ m]) (simp add: last_conv_nth settles_def)
  qed
  then obtain m2 where m2: "settles stray (expire (last (heap m))) m2 ?mid"
      "ref_ok m2" "heap_upto no_later (heap m2) ?n" "mset (heap m2) = mset (heap m)" "last (heap m2) = heap m ! i" by blast
  have l2: "length (heap m2) = length (heap m)" using mset_eq_length [OF m2(4)] .
  then have ne2: "heap m2 \<noteq> []" using ne by auto
  have "mset (butlast (heap m2)) = mset (heap m2) - {#last (heap m2)#}"
    using mset_butlast_last [OF ne2] by simp
  then have "mset (heap (?cut m2)) = mset (heap m) - {#heap m ! i#}" by (simp add: m2(4,5))
  moreover have "del_at stray m i = bind_res ?mid (\<lambda>m'. Inr (?cut m'))"
    unfolding del_at_def Let_def using ne i by simp
  then have "settles stray (expire (last (heap m))) (?cut m2) (del_at stray m i)"
    using settles_bind [OF m2(1), of ?cut] by (simp only:)
  moreover have "timer_inv (?cut m2)" using m2(3) l2 by (intro drop_last_ok [OF m2(2) ne2]) simp
  ultimately show ?thesis by blast
qed

lemma pop_ok:
  assumes m: "timer_inv m" and ne: "heap m \<noteq> []"
  shows "\<exists>m'. timer_inv m' \<and> mset (heap m) = add_mset (hd (heap m)) (mset (heap m')) \<and>
    settles stray (expire (last (heap m))) m' (pop stray m)"
  using del_at_ok [OF m, of 0 stray] ne by (fastforce simp: pop_def hd_conv_nth)

lemma one_timer: "timer_inv \<lparr>heap = [nd], ref = [tn_id nd \<mapsto> 0]\<rparr>"
  by (auto simp: timer_inv_def ref_ok_def heap_upto_def)

section \<open>Properties\<close>

text \<open>
  C12. \<open>addTimer\<close> on a consistent timer: the result it is to return has the heap order and the
  position map, and holds the timers of the other identifiers plus the one given, whether the
  identifier was present or not. It does return it when some other timer expires earlier than the
  given one. When the given one is strictly the first to expire (so for the first timer, and for a
  timer moved to the front), \<open>shiftup\<close> passes the root and reads outside of the heap, and the call
  returns only if that read lets it: undefined behaviour or the failed assertion otherwise. With
  equal first deadlines one of the two happens.
\<close>

theorem addTimer_keeps_heap:
  assumes "timer_inv m" and "0 \<le> fd"
  shows "\<exists>m'. timer_inv m' \<and>
    mset (heap m') = add_mset \<lparr>tn_id = fd, expire = now + MS timeout, cb = c\<rparr>
      (filter_mset (\<lambda>nd. tn_id nd \<noteq> fd) (mset (heap m))) \<and>
    ((\<exists>x\<in>set (heap m). tn_id x \<noteq> fd \<and> expire x < now + MS timeout) \<longrightarrow>
      addTimer stray now m fd timeout c = Inr m') \<and>
    ((\<forall>x\<in>set (heap m). tn_id x \<noteq> fd \<longrightarrow> now + MS timeout < expire x) \<longrightarrow>
      addTimer stray now m fd timeout c = bind_res (root_read stray (now + MS timeout)) (\<lambda>_. Inr m')) \<and>
    (addTimer stray now m fd timeout c = Inr m' \<or>
      addTimer stray now m fd timeout c = bind_res (root_read stray (now + MS timeout)) (\<lambda>_. Inr m'))"
proof (cases "ref m fd")
  case None
  let ?nd = "\<lparr>tn_id = fd, expire = now + MS timeout, cb = c\<rparr>"
  have fd: "fd \<notin> tn_id ` set (heap m)" using None assms(1) ref_ok_None by (auto simp: timer_inv_def)
  then have "filter_mset (\<lambda>nd. tn_id nd \<noteq> fd) (mset (heap m)) = mset (heap m)"
    by (intro filter_mset_cong [of _ _ _ "\<lambda>_. True", simplified]) auto
  moreover obtain m' where m': "timer_inv m'" "mset (heap m') = add_mset ?nd (mset (heap m))"
      "addTimer stray now m fd timeout c = (if \<forall>x\<in>set (heap m). now + MS timeout \<le> expire x
         then bind_res (root_read stray (now + MS timeout)) (\<lambda>_. Inr m') else Inr m')"
    using addTimer_new [OF assms(1) None, of ?nd stray] None assms(2) by (auto simp: addTimer_def Let_def)
  ultimately show ?thesis using fd by (intro exI [of _ m']) (auto simp: image_iff not_le less_imp_le)
next
  case (Some i)
  let ?nd = "\<lparr>tn_id = fd, expire = now + MS timeout, cb = c\<rparr>"
  let ?m = "m\<lparr>heap := (heap m)[i := ?nd]\<rparr>"
  have i: "i < length (heap m)" "tn_id (heap m ! i) = fd" and r: "ref_ok m"
    using Some assms(1) ref_okD by (auto simp: timer_inv_def)
  have nd: "(heap m ! i)\<lparr>expire := now + MS timeout, cb := c\<rparr> = ?nd" using i(2) by (cases "heap m ! i") simp
  note ch = change_node [OF assms(1) i(1), of ?nd]
  have at: "heap ?m ! k = (if k = i then ?nd else heap m ! k)" if "k < length (heap m)" for k using that i(1) by simp
  have other: "tn_id x \<noteq> fd \<longleftrightarrow> k \<noteq> i" if "k < length (heap m)" "x = heap m ! k" for k x
    using ref_ok_ids [OF r that(1) i(1)] i(2) that(2) by simp
  have add: "addTimer stray now m fd timeout c = sift stray ?m i (length (heap m))"
    using Some i(1) assms(2) nd by (simp add: addTimer_def)
  obtain m' where m': "shuffled (length (heap m)) ?m m'" "heap_upto no_later (heap m') (length (heap m))"
      "settles stray (now + MS timeout) m' (sift stray ?m i (length (heap m)))"
      "\<not> first_upto (heap ?m) i (length (heap m)) \<longrightarrow> sift stray ?m i (length (heap m)) = Inr m'"
      "(\<forall>k<length (heap m). k \<noteq> i \<longrightarrow> now + MS timeout < expire (heap ?m ! k)) \<longrightarrow>
        sift stray ?m i (length (heap m)) = bind_res (root_read stray (now + MS timeout)) (\<lambda>_. Inr m')"
    using sift_ok [of ?m i "length (heap m)" stray] ch i(1,2) at [OF i(1)] by auto
  have "timer_inv m'" using m' shuffled_length [OF m'(1)] by (simp add: timer_inv_def shuffled_def)
  moreover have "mset (heap m') = add_mset ?nd (filter_mset (\<lambda>nd. tn_id nd \<noteq> fd) (mset (heap m)))"
    using m'(1) ch(3) i(2) by (simp add: shuffled_def)
  moreover have "sift stray ?m i (length (heap m)) = Inr m'"
    if x: "x \<in> set (heap m)" "tn_id x \<noteq> fd" "expire x < now + MS timeout" for x
  proof -
    obtain k where k: "k < length (heap m)" "x = heap m ! k" using x(1) by (auto simp: in_set_conv_nth)
    then have "\<not> first_upto (heap ?m) i (length (heap m))"
      using other [OF k] x at [OF i(1)] at [OF k(1)] by (metis not_le time_node.select_convs(2))
    then show ?thesis using m'(4) by simp
  qed
  moreover have "sift stray ?m i (length (heap m)) = bind_res (root_read stray (now + MS timeout)) (\<lambda>_. Inr m')"
    if "\<forall>x\<in>set (heap m). tn_id x \<noteq> fd \<longrightarrow> now + MS timeout < expire x"
    using that other m'(5) by simp
  ultimately show ?thesis using m'(3) unfolding add settles_def by (intro exI [of _ m']) blast
qed

theorem addTimer_keeps_heap_witness:
  "addTimer None 5 (TimerManager_init :: nat timer_manager) 3 1 7 = Inl Out_Of_Bounds \<and>
   (\<exists>m'. addTimer None 5 \<lparr>heap = [\<lparr>tn_id = 3, expire = 9, cb = 1 :: nat\<rparr>], ref = [3 \<mapsto> 0]\<rparr> 4 1 7 = Inr m' \<and> timer_inv m')"
  using addTimer_keeps_heap [of "TimerManager_init :: nat timer_manager" 3 5 1 7 None]
    addTimer_keeps_heap [of "\<lparr>heap = [\<lparr>tn_id = 3, expire = 9, cb = 1 :: nat\<rparr>], ref = [3 \<mapsto> 0]\<rparr>" 4 5 1 7 None]
    one_timer [of "\<lparr>tn_id = 3, expire = 9, cb = 1 :: nat\<rparr>"]
  by (auto simp: timer_inv_def ref_ok_def heap_upto_def TimerManager_init_def MS_def root_read_def)

lemma root_parent_index: "sz_sub 0 1 div 2 = 2 ^ 63 - 1"
  by (simp add: sz_sub_def)

text \<open>Adding the first timer always depends on the read outside of the heap.\<close>

theorem addTimer_first_reads_outside:
  "addTimer stray now TimerManager_init fd timeout c =
     (if fd < 0 then Inl Assert_Failed
      else bind_res (root_read stray (now + MS timeout)) (\<lambda>_.
        Inr \<lparr>heap = [\<lparr>tn_id = fd, expire = now + MS timeout, cb = c\<rparr>], ref = [fd \<mapsto> 0]\<rparr>))"
  by (simp add: addTimer_def TimerManager_init_def shiftup_def shiftup_loop.simps)

text \<open>
  \<open>work\<close> on a timer that is present runs its callback once and removes exactly that timer,
  keeping the heap order and the position map; on an absent identifier it does nothing.
\<close>

theorem work_removes_timer:
  assumes "timer_inv m"
  shows "\<exists>cbs m' d. settles stray d (cbs, m') (work stray m fd) \<and> timer_inv m' \<and>
    mset (heap m') = filter_mset (\<lambda>nd. tn_id nd \<noteq> fd) (mset (heap m)) \<and>
    cbs = map cb (filter (\<lambda>nd. tn_id nd = fd) (heap m))"
proof (cases "ref m fd")
  case None
  then have fd: "fd \<notin> tn_id ` set (heap m)" using assms(1) ref_ok_None by (auto simp: timer_inv_def)
  then have "filter_mset (\<lambda>nd. tn_id nd \<noteq> fd) (mset (heap m)) = mset (heap m)"
    by (intro filter_mset_cong [of _ _ _ "\<lambda>_. True", simplified]) auto
  moreover have "filter (\<lambda>nd. tn_id nd = fd) (heap m) = []" using fd by (auto simp: filter_empty_conv)
  ultimately show ?thesis using None assms(1) by (auto simp: work_def settles_def)
next
  case (Some i)
  then have r: "ref_ok m" and i: "i < length (heap m)" "tn_id (heap m ! i) = fd"
    using assms(1) ref_okD by (auto simp: timer_inv_def)
  have "filter (\<lambda>nd. tn_id nd = fd) (heap m) = [heap m ! i]"
  proof -
    have "mset (filter (\<lambda>nd. tn_id nd = fd) (heap m)) =
        mset (heap m) - filter_mset (\<lambda>nd. tn_id nd \<noteq> fd) (mset (heap m))"
      by (simp add: mset_filter) (metis add_diff_cancel_right' multiset_partition)
    also have "\<dots> = {#heap m ! i#}"
    proof -
      obtain rest where "mset (heap m) = add_mset (heap m ! i) rest"
        using i(1) by (meson multi_member_split nth_mem_mset)
      then show ?thesis using remove_node_mset [OF r i(1)] i by simp
    qed
    finally show ?thesis by (simp only: mset_single_iff)
  qed
  moreover from del_at_ok [OF assms(1) i(1), of stray] obtain m' where m': "timer_inv m'"
      "mset (heap m') = mset (heap m) - {#heap m ! i#}" "settles stray (expire (last (heap m))) m' (del_at stray m i)" by blast
  have "settles stray (expire (last (heap m))) ([cb (heap m ! i)], m') (work stray m fd)"
    using settles_bind [OF m'(3), of "Pair [cb (heap m ! i)]"] Some i(1) by (auto simp: work_def)
  moreover have "mset (heap m') = filter_mset (\<lambda>nd. tn_id nd \<noteq> fd) (mset (heap m))"
    using m'(2) remove_node_mset [OF r i(1)] i(2) by simp
  ultimately show ?thesis using m'(1)
    by (intro exI [of _ "[cb (heap m ! i)]"] exI [of _ m'] exI [of _ "expire (last (heap m))"]) simp
qed

lemma ms_count_pos: "0 < ms_count x \<longleftrightarrow> 1000000 \<le> x"
  by (auto simp: ms_count_def c_div_def sgn_if zero_less_mult_iff pos_imp_zdiv_pos_iff)

text \<open>What one call does: the timers fired, from the clock reading \<open>k\<close> on, and what is left.\<close>

definition due_run :: "(nat \<Rightarrow> int) \<Rightarrow> nat \<Rightarrow> 'c timer_manager \<Rightarrow> 'c time_node list \<Rightarrow> 'c timer_manager \<Rightarrow> bool" where
  "due_run clock k m fired m' \<longleftrightarrow> timer_inv m' \<and> mset (heap m) = mset fired + mset (heap m') \<and> sorted (map expire fired) \<and>
     (\<forall>i<length fired. expire (fired ! i) - clock (k + i) < 1000000) \<and>
     (\<forall>a\<in>set fired. \<forall>b\<in>set (heap m'). expire a \<le> expire b) \<and>
     (\<forall>b\<in>set (heap m'). 1000000 \<le> expire b - clock (k + length fired))"

lemma timer_root_least: "timer_inv m \<Longrightarrow> b \<in> set (heap m) \<Longrightarrow> expire (hd (heap m)) \<le> expire b"
  using timer_order.heap_root [of "heap m" "length (heap m)"]
  by (cases "heap m = []") (auto simp: in_set_conv_nth hd_conv_nth timer_inv_def)

lemma due_run_Cons:
  assumes "due_run clock (Suc k) m1 fired m'" and "mset (heap m) = add_mset x (mset (heap m1))"
    and "\<And>b. b \<in> set (heap m) \<Longrightarrow> expire x \<le> expire b" and "expire x - clock k < 1000000"
  shows "due_run clock k m (x # fired) m'"
proof -
  have sub: "set (heap m1) \<subseteq> set (heap m)" using arg_cong [OF assms(2), of set_mset] by auto
  have "mset (heap m1) = mset fired + mset (heap m')" using assms(1) by (simp add: due_run_def)
  from arg_cong [OF this, of set_mset] have in1: "set fired \<subseteq> set (heap m1)" "set (heap m') \<subseteq> set (heap m1)" by auto
  have "\<forall>i<length (x # fired). expire ((x # fired) ! i) - clock (k + i) < 1000000"
    using assms(1,4) by (auto simp: due_run_def less_Suc_eq_0_disj)
  then show ?thesis using assms(1-3) sub in1 by (auto simp: due_run_def)
qed

text \<open>A run that fails has fired some timers and then read outside of the heap in \<open>pop\<close>.\<close>

definition stray_failure :: "(nat \<Rightarrow> int option) \<Rightarrow> nat \<Rightarrow> 'c timer_manager \<Rightarrow> cxx_error \<Rightarrow> bool" where
  "stray_failure stray k m e \<longleftrightarrow>
     (\<exists>j<length (heap m). \<exists>nd\<in>set (heap m). root_read (stray (k + j)) (expire nd) = Inl e)"

lemma handle_expired_due_run:
  assumes "timer_inv m"
  shows "case handle_expired_event stray clock k m of
      Inr (fired, k', m') \<Rightarrow> k' = k + length fired + of_bool (heap m' \<noteq> []) \<and> due_run clock k m fired m'
    | Inl e \<Rightarrow> stray_failure stray k m e"
  using assms
proof (induction "length (heap m)" arbitrary: m k rule: less_induct)
  case less
  note root = timer_root_least [OF less.prems(1)]
  consider "heap m = []" | "heap m \<noteq> []" "0 < ms_count (expire (hd (heap m)) - clock k)"
    | "heap m \<noteq> []" "\<not> 0 < ms_count (expire (hd (heap m)) - clock k)" by blast
  then show ?case
  proof cases
    case 2
    then have "1000000 \<le> expire b - clock k" if "b \<in> set (heap m)" for b using root [OF that] by (simp add: ms_count_pos)
    then show ?thesis using 2 less.prems(1) by (simp add: handle_expired_event.simps due_run_def)
  next
    case 3
    obtain m1 where m1: "timer_inv m1" "mset (heap m) = add_mset (hd (heap m)) (mset (heap m1))"
        "settles (stray k) (expire (last (heap m))) m1 (pop (stray k) m)"
      using pop_ok [OF less.prems 3(1)] by blast
    have sub: "set (heap m1) \<subseteq> set (heap m)" and len: "length (heap m) = Suc (length (heap m1))"
      using arg_cong [OF m1(2), of set_mset] arg_cong [OF m1(2), of size] by auto
    note IH = less.hyps [OF _ m1(1), of "Suc k"]
    show ?thesis
    proof (cases "pop (stray k) m")
      case (Inl e)
      then have "root_read (stray k) (expire (last (heap m))) = Inl e"
        using m1(3) by (auto simp: settles_def root_read_def split: option.splits if_splits)
      then have "stray_failure stray k m e"
        using 3(1) unfolding stray_failure_def by (intro exI [of _ 0] conjI bexI [of _ "last (heap m)"]) auto
      then show ?thesis using 3 Inl by (simp add: handle_expired_event.simps)
    next
      case (Inr m2)
      then have p: "pop (stray k) m = Inr m1" using m1(3) by (auto simp: settles_def root_read_def split: option.splits if_splits)
      then have h: "handle_expired_event stray clock k m =
          bind_res (handle_expired_event stray clock (Suc k) m1) (\<lambda>(fired, k', m''). Inr (hd (heap m) # fired, k', m''))"
        using 3 by (simp add: handle_expired_event.simps [of _ _ k])
      show ?thesis
      proof (cases "handle_expired_event stray clock (Suc k) m1")
        case (Inl e)
        then have "stray_failure stray (Suc k) m1 e" using IH len by simp
        then obtain j nd where "j < length (heap m1)" "nd \<in> set (heap m1)"
            "root_read (stray (Suc k + j)) (expire nd) = Inl e" unfolding stray_failure_def by blast
        then have "stray_failure stray k m e"
          using sub len unfolding stray_failure_def by (intro exI [of _ "Suc j"] conjI bexI [of _ nd]) auto
        then show ?thesis using h Inl by simp
      next
        case (Inr r)
        obtain fired k' m' where r': "r = (fired, k', m')" by (cases r)
        then have IH': "k' = Suc k + length fired + of_bool (heap m' \<noteq> [])" "due_run clock (Suc k) m1 fired m'"
          using IH Inr len by auto
        have "due_run clock k m (hd (heap m) # fired) m'"
          using 3 root by (intro due_run_Cons [OF IH'(2) m1(2)]) (auto simp: ms_count_pos)
        then show ?thesis using h Inr r' IH'(1) by simp
      qed
    qed
  qed (use less.prems in \<open>simp add: handle_expired_event.simps due_run_def\<close>)
qed

lemma pop_of_two:
  assumes "timer_inv m" and "length (heap m) = 2"
  shows "pop stray m = bind_res (root_read stray (expire (heap m ! 1))) (\<lambda>_.
    Inr \<lparr>heap = [heap m ! 1], ref = [tn_id (heap m ! 1) \<mapsto> 0]\<rparr>)"
proof -
  obtain a b where h: "heap m = [a, b]" using assms(2) by (auto simp: length_Suc_conv numeral_2_eq_2)
  have r: "ref_ok m" using assms(1) by (simp add: timer_inv_def)
  have ab: "tn_id a \<noteq> tn_id b" using ref_ok_ids [OF r, of 0 1] h by simp
  have "ref m x = None" if "x \<noteq> tn_id a" "x \<noteq> tn_id b" for x using ref_ok_None [OF r, of x] that h by simp
  then have "(ref m)(tn_id b \<mapsto> 0, tn_id a := None) = [tn_id b \<mapsto> 0]" using ab by (auto simp: fun_eq_iff)
  moreover have "root_read stray (expire b) = Inr () \<or> (\<exists>e. root_read stray (expire b) = Inl e)"
    by (cases "root_read stray (expire b)") auto
  ultimately show ?thesis using h ab
    by (cases m) (auto simp: pop_def del_at_def swapNode_def swap_at_def sift_def shiftdown_def shiftdown_loop.simps
        shiftup_def shiftup_loop.simps Let_def fun_upd_twist)
qed

text \<open>
  C13. \<open>handle_expired_event\<close> on a consistent timer, for every content of the memory in front of the
  heap. When it returns, it has fired timers in the order of their deadlines, each when less than
  a millisecond of it was left at the clock reading before its call, and stopped with every
  remaining timer at least a millisecond away at the last reading; no timer is lost and the heap
  is consistent. It fails only in the read outside of the heap that \<open>pop\<close> makes when the node moved
  to the root is not moved down; and it does make that read whenever the first of two
  timers is due.
\<close>

theorem handle_expired_fires_due:
  assumes "timer_inv m"
  shows "(case handle_expired_event stray clock k m of
      Inr (fired, k', m') \<Rightarrow> timer_inv m' \<and>
        mset (heap m) = mset fired + mset (heap m') \<and> sorted (map expire fired) \<and>
        (\<forall>i<length fired. expire (fired ! i) - clock (k + i) < 1000000) \<and>
        (\<forall>a\<in>set fired. \<forall>b\<in>set (heap m'). expire a \<le> expire b) \<and>
        (\<forall>b\<in>set (heap m'). 1000000 \<le> expire b - clock (k + length fired))
    | Inl e \<Rightarrow> \<exists>j<length (heap m). \<exists>nd\<in>set (heap m). root_read (stray (k + j)) (expire nd) = Inl e) \<and>
    (length (heap m) = 2 \<and> expire (heap m ! 0) - clock k < 1000000 \<and> stray k = None \<longrightarrow>
      handle_expired_event stray clock k m = Inl Out_Of_Bounds)" (is "?A \<and> ?B")
proof
  show ?A using handle_expired_due_run [OF assms, of stray k clock]
    by (auto simp: due_run_def stray_failure_def split: sum.splits prod.splits)
  show ?B
  proof
    assume a: "length (heap m) = 2 \<and> expire (heap m ! 0) - clock k < 1000000 \<and> stray k = None"
    then have ne: "heap m \<noteq> []" by auto
    then have "\<not> 0 < ms_count (expire (hd (heap m)) - clock k)" using a by (simp add: ms_count_pos hd_conv_nth)
    then show "handle_expired_event stray clock k m = Inl Out_Of_Bounds"
      using a ne by (simp add: handle_expired_event.simps pop_of_two [OF assms] root_read_def)
  qed
qed

theorem handle_expired_fires_due_witness:
  "handle_expired_event (\<lambda>_. None) (\<lambda>k. 50) 0 \<lparr>heap = [\<lparr>tn_id = 3, expire = 9, cb = 1 :: nat\<rparr>, \<lparr>tn_id = 4, expire = 10, cb = 2\<rparr>],
     ref = [3 \<mapsto> 0, 4 \<mapsto> 1]\<rparr> = Inl Out_Of_Bounds"
proof -
  have "timer_inv \<lparr>heap = [\<lparr>tn_id = 3, expire = 9, cb = 1 :: nat\<rparr>, \<lparr>tn_id = 4, expire = 10, cb = 2\<rparr>], ref = [3 \<mapsto> 0, 4 \<mapsto> 1]\<rparr>"
    by (auto simp: timer_inv_def ref_ok_def heap_upto_def parent_of_def nth_Cons' less_Suc_eq split: if_splits)
  from handle_expired_fires_due [OF this, of "\<lambda>_. None" 0 "\<lambda>k. 50"] show ?thesis by simp
qed

text \<open>
  \<open>update\<close> keeps the heap when the new deadline is not before the old one, which is how the
  server extends the life of a connection. (It only sifts down: \<open>update_earlier\<close> below.)
\<close>

theorem update_later_keeps_heap:
  assumes "timer_inv m" and "i < length (heap m)" and "expire (heap m ! i) \<le> now + MS timeout"
  shows "\<exists>m'. update now m (tn_id (heap m ! i)) timeout = Inr m' \<and> timer_inv m' \<and>
    mset (heap m') = add_mset ((heap m ! i)\<lparr>expire := now + MS timeout\<rparr>) (mset (heap m) - {#heap m ! i#})"
proof -
  let ?nd = "(heap m ! i)\<lparr>expire := now + MS timeout\<rparr>"
  let ?m = "m\<lparr>heap := (heap m)[i := ?nd]\<rparr>"
  have r: "ref_ok m" and hp: "heap_upto no_later (heap m) (length (heap m))" using assms(1) by (auto simp: timer_inv_def)
  note ch = change_node [OF assms(1,2), of ?nd, simplified]
  have below: "below_parent no_later ((heap m)[i := ?nd]) i"
    using heap_uptoD [OF hp assms(2)] parent_less [of i] assms(2,3) by (auto simp: below_parent_def)
  from shiftdown_loop_ok [of ?m i "length (heap m)"] ch(1,2) assms(2) obtain m' k where
    d: "shiftdown_loop ?m i (length (heap m)) = Inr (m', k)" "shuffled (length (heap m)) ?m m'" "i \<le> k"
      "k = i \<longrightarrow> m' = ?m \<and> above_children no_later (heap ?m) i (length (heap m))"
      "i < k \<longrightarrow> heap_upto no_later (heap m') (length (heap m))" by auto
  have "heap_upto no_later (heap m') (length (heap m))"
    using d(3-5) heap_close [OF ch(2) _ below] by (cases "k = i") auto
  then have "timer_inv m'" using d(2) shuffled_length [OF d(2)] by (simp add: timer_inv_def shuffled_def)
  moreover have "ref m (tn_id (heap m ! i)) = Some i" using ref_okD [OF r] assms(2) by simp
  then have "update now m (tn_id (heap m ! i)) timeout = Inr m'" using assms(2) d(1) length_greater_0_conv [of "heap m"]
    by (auto simp: update_def shiftdown_def Let_def simp del: length_greater_0_conv)
  moreover have "mset (heap m') = add_mset ?nd (mset (heap m) - {#heap m ! i#})"
    using d(2) assms(2) by (simp add: shuffled_def mset_update)
  ultimately show ?thesis by blast
qed

theorem update_later_keeps_heap_witness:
  "\<exists>m'. update 20 \<lparr>heap = [\<lparr>tn_id = 3, expire = 9, cb = 1 :: nat\<rparr>], ref = [3 \<mapsto> 0]\<rparr> 3 1 = Inr m' \<and> timer_inv m'"
  using update_later_keeps_heap [of "\<lparr>heap = [\<lparr>tn_id = 3, expire = 9, cb = 1 :: nat\<rparr>], ref = [3 \<mapsto> 0]\<rparr>" 0 20 1]
    one_timer [of "\<lparr>tn_id = 3, expire = 9, cb = 1 :: nat\<rparr>"] by (auto simp: MS_def)

text \<open>An earlier deadline is left below a later one: the root is no longer the next to expire.\<close>

lemma update_earlier:
  "update 0 \<lparr>heap = [\<lparr>tn_id = 1, expire = 10, cb = ()\<rparr>, \<lparr>tn_id = 2, expire = 20, cb = ()\<rparr>], ref = [1 \<mapsto> 0, 2 \<mapsto> 1]\<rparr> 2 0 =
   Inr \<lparr>heap = [\<lparr>tn_id = 1, expire = 10, cb = ()\<rparr>, \<lparr>tn_id = 2, expire = 0, cb = ()\<rparr>], ref = [1 \<mapsto> 0, 2 \<mapsto> 1]\<rparr>"
  by (simp add: update_def shiftdown_def shiftdown_loop.simps MS_def Let_def)

text \<open>
  \<open>getNextHandle\<close> returns the milliseconds left to the first deadline, -1 when no timer is left;
  but when the clock passes that deadline between its two readings, it returns a negative
  number and not 0, because the test \<open>res < 0\<close> is made on a \<open>size_t\<close>.
\<close>

theorem getNextHandle_value:
  assumes "handle_expired_event stray clock 0 m = Inr (fired, k, m')"
  shows "(heap m' = [] \<longrightarrow> getNextHandle stray clock m = Inr (-1, fired, m')) \<and>
    (heap m' \<noteq> [] \<and> -(2 ^ 31) \<le> ms_count (expire (hd (heap m')) - clock k) \<and>
       ms_count (expire (hd (heap m')) - clock k) < 2 ^ 31 \<longrightarrow>
     getNextHandle stray clock m = Inr (ms_count (expire (hd (heap m')) - clock k), fired, m'))"
proof -
  have conv: "size_t_to_int (to_size_t x) = x" if "-(2 ^ 31) \<le> x" "x < 2 ^ 31" for x
  proof -
    have "int (to_size_t x) mod 2 ^ 32 = x mod 2 ^ 32" by (simp add: to_size_t_def mod_mod_cancel)
    moreover have "x mod 2 ^ 32 = (if 0 \<le> x then x else x + 2 ^ 32)"
      using that mod_add_self2 [of x "2 ^ 32"] mod_pos_pos_trivial [of "x + 2 ^ 32" "2 ^ 32"] by simp
    ultimately show ?thesis using that by (simp add: size_t_to_int_def Let_def)
  qed
  show ?thesis using assms conv [of "-1"] conv [of "ms_count (expire (hd (heap m')) - clock k)"]
    by (simp add: getNextHandle_def Let_def)
qed

theorem getNextHandle_value_witness:
  "getNextHandle (\<lambda>_. None) (\<lambda>k. if k = 0 then 0 else 9000000) \<lparr>heap = [\<lparr>tn_id = 3, expire = 4000000, cb = 1 :: nat\<rparr>], ref = [3 \<mapsto> 0]\<rparr> =
     Inr (-5, [], \<lparr>heap = [\<lparr>tn_id = 3, expire = 4000000, cb = 1\<rparr>], ref = [3 \<mapsto> 0]\<rparr>)"
  using getNextHandle_value [of "\<lambda>_. None" "\<lambda>k. if k = 0 then 0 else 9000000"
      "\<lparr>heap = [\<lparr>tn_id = 3, expire = 4000000, cb = 1 :: nat\<rparr>], ref = [3 \<mapsto> 0]\<rparr>" "[]" 1
      "\<lparr>heap = [\<lparr>tn_id = 3, expire = 4000000, cb = 1 :: nat\<rparr>], ref = [3 \<mapsto> 0]\<rparr>"]
  by (simp add: handle_expired_event.simps ms_count_def c_div_def)

end
