(* ===== verification/Block_Queue.thy ===== *)
theory Block_Queue
  imports Bounded_Queue
begin

text \<open>
  The log queue of the web server (\<open>class block_queue\<close>, log/block_queue.h of
  Project/TinyWebServer-raw_version): a circular array with \<open>m_front\<close> and \<open>m_back\<close> one position
  before the first and at the last element. Every method runs between \<open>lock\<close> and \<open>unlock\<close>;
  what other threads do during a wait is a parameter of the method that waits.
\<close>

section \<open>State and operations\<close>

record 'a block_queue =
  m_array :: "'a list"
  m_size :: int
  m_max_size :: int
  m_front :: int
  m_back :: int

text \<open>\<open>new T[max_size]\<close> fills the array with default values \<open>d\<close>.\<close>

definition block_queue_init :: "int \<Rightarrow> 'a \<Rightarrow> 'a block_queue res" where
  "block_queue_init max_size d =
     (if max_size \<le> 0 then Inl Process_Exit
      else Inr \<lparr>m_array = replicate (nat max_size) d, m_size = 0, m_max_size = max_size,
                m_front = -1, m_back = -1\<rparr>)"

definition bq_clear :: "'a block_queue \<Rightarrow> 'a block_queue" where
  "bq_clear q = q\<lparr>m_size := 0, m_front := -1, m_back := -1\<rparr>"

definition bq_full :: "'a block_queue \<Rightarrow> bool" where
  "bq_full q \<longleftrightarrow> m_max_size q \<le> m_size q"

definition bq_empty :: "'a block_queue \<Rightarrow> bool" where
  "bq_empty q \<longleftrightarrow> 0 = m_size q"

text \<open>\<open>front\<close> and \<open>back\<close> return \<open>false\<close>, here \<open>None\<close>, on an empty queue.\<close>

definition bq_front :: "'a block_queue \<Rightarrow> 'a option res" where
  "bq_front q =
     (if 0 = m_size q then Inr None
      else bind_res (vget_int (m_array q) (m_front q)) (\<lambda>x. Inr (Some x)))"

definition bq_back :: "'a block_queue \<Rightarrow> 'a option res" where
  "bq_back q =
     (if 0 = m_size q then Inr None
      else bind_res (vget_int (m_array q) (m_back q)) (\<lambda>x. Inr (Some x)))"

definition bq_size :: "'a block_queue \<Rightarrow> int" where
  "bq_size q = m_size q"

definition bq_max_size :: "'a block_queue \<Rightarrow> int" where
  "bq_max_size q = m_max_size q"

text \<open>\<open>push\<close> returns \<open>false\<close>, here \<open>None\<close>, when the array is full; it broadcasts in both cases.\<close>

definition bq_push :: "'a block_queue \<Rightarrow> 'a \<Rightarrow> 'a block_queue option res" where
  "bq_push q item =
     (if m_max_size q \<le> m_size q then Inr None
      else let b = c_mod (m_back q + 1) (m_max_size q)
           in bind_res (vset_int (m_array q) b item) (\<lambda>v.
              Inr (Some (q\<lparr>m_back := b, m_array := v, m_size := m_size q + 1\<rparr>))))"

text \<open>The end of both \<open>pop\<close> methods, reached with an element in the queue.\<close>

definition bq_remove :: "'a block_queue \<Rightarrow> ('a \<times> 'a block_queue) res" where
  "bq_remove q =
     (let f = c_mod (m_front q + 1) (m_max_size q)
      in bind_res (vget_int (m_array q) f) (\<lambda>item.
         Inr (item, q\<lparr>m_front := f, m_size := m_size q - 1\<rparr>)))"

text \<open>One round of \<open>pop\<close>: \<open>None\<close> when it has to wait for the condition variable.\<close>

definition bq_pop :: "'a block_queue \<Rightarrow> ('a \<times> 'a block_queue) option res" where
  "bq_pop q =
     (if m_size q \<le> 0 then Inr None
      else bind_res (bq_remove q) (\<lambda>r. Inr (Some r)))"

text \<open>
  \<open>pop(item, ms_timeout)\<close>: \<open>now\<close> is the time of day in seconds and microseconds, \<open>timewait\<close> answers,
  for the absolute deadline in seconds and nanoseconds, whether the wait was signalled and what the
  queue is afterwards.
\<close>

definition pop_deadline :: "int \<times> int \<Rightarrow> int \<Rightarrow> int \<times> int" where
  "pop_deadline now ms_timeout = (fst now + c_div ms_timeout 1000, c_mod ms_timeout 1000 * 1000)"

definition bq_pop_timed :: "(int \<times> int \<Rightarrow> 'a block_queue \<Rightarrow> bool \<times> 'a block_queue) \<Rightarrow> int \<times> int \<Rightarrow>
    'a block_queue \<Rightarrow> int \<Rightarrow> ('a option \<times> 'a block_queue) res" where
  "bq_pop_timed timewait now q ms_timeout =
     (let (signalled, q1) =
        (if m_size q \<le> 0 then timewait (pop_deadline now ms_timeout) q else (True, q))
      in if \<not> signalled then Inr (None, q1)
         else if m_size q1 \<le> 0 then Inr (None, q1)
         else bind_res (bq_remove q1) (\<lambda>(x, q2). Inr (Some x, q2)))"

section \<open>The array implements a bounded queue\<close>

definition bq_inv :: "'a block_queue \<Rightarrow> bool" where
  "bq_inv q \<longleftrightarrow> 0 < m_max_size q \<and> int (length (m_array q)) = m_max_size q \<and>
     0 \<le> m_size q \<and> m_size q \<le> m_max_size q \<and>
     -1 \<le> m_front q \<and> m_front q < m_max_size q \<and> -1 \<le> m_back q \<and>
     m_back q < m_max_size q \<and> (0 < m_size q \<longrightarrow> 0 \<le> m_back q) \<and>
     (m_front q + m_size q + 1) mod m_max_size q = (m_back q + 1) mod m_max_size q"

definition bq_items :: "'a block_queue \<Rightarrow> 'a list" where
  "bq_items q = ring_items (m_array q) (nat (m_front q + 1)) (nat (m_size q))"

definition bq_cap :: "'a block_queue \<Rightarrow> nat" where
  "bq_cap q = nat (m_max_size q)"

lemma int_mod_pos:
  assumes "0 \<le> a" and "0 < m"
  shows "0 \<le> a mod (m :: int)" and "a mod m < m" and "nat (a mod m) = nat a mod nat m"
  using assms by (auto simp: nat_mod_distrib)

lemma minus_one_le_mod [simp]: "0 < m \<Longrightarrow> -1 \<le> a mod (m :: int)"
  using pos_mod_sign [of m a] by linarith

lemma bq_push_ok:
  assumes q: "bq_inv q" and room: "m_size q < m_max_size q"
  shows "\<exists>q'. bq_push q x = Inr (Some q') \<and> bq_inv q' \<and> bq_items q' = bq_items q @ [x] \<and> bq_cap q' = bq_cap q"
proof -
  let ?b = "(m_back q + 1) mod m_max_size q"
  let ?q = "q\<lparr>m_back := ?b, m_array := (m_array q)[nat ?b := x], m_size := m_size q + 1\<rparr>"
  have b: "0 \<le> ?b" "?b < m_max_size q" "0 < m_max_size q" "0 \<le> m_size q" "-1 \<le> m_front q"
    "-1 \<le> m_back q" and len: "nat (m_max_size q) = length (m_array q)"
    using q by (auto simp: bq_inv_def)
  then have bl: "nat ?b < length (m_array q)" by linarith
  have pos: "nat ?b = (nat (m_front q + 1) + nat (m_size q)) mod length (m_array q)"
  proof -
    have "nat ?b = nat ((m_front q + m_size q + 1) mod m_max_size q)" using q by (simp add: bq_inv_def)
    also have "\<dots> = nat (m_front q + m_size q + 1) mod nat (m_max_size q)" using b by (intro int_mod_pos) auto
    also have "nat (m_front q + m_size q + 1) = nat (m_front q + 1) + nat (m_size q)" using b by simp
    finally show ?thesis using len by simp
  qed
  have "bq_push q x = Inr (Some ?q)" using room b bl
    by (simp add: bq_push_def Let_def)
  moreover have "bq_inv ?q"
  proof -
    have "(m_front q + (m_size q + 1) + 1) mod m_max_size q = ((m_front q + m_size q + 1) mod m_max_size q + 1) mod m_max_size q"
      by (simp add: mod_simps ac_simps)
    also have "\<dots> = (?b + 1) mod m_max_size q" using q by (simp only: bq_inv_def)
    finally have "(m_front q + (m_size q + 1) + 1) mod m_max_size q = (?b + 1) mod m_max_size q" .
    moreover have "-1 \<le> ?b" using b(1) by simp
    ultimately show ?thesis using q room b by (simp add: bq_inv_def)
  qed
  moreover have "bq_items ?q = bq_items q @ [x]"
    using ring_put [of "nat (m_size q)" "m_array q" "nat (m_front q + 1)" x] pos b room len
    by (simp add: bq_items_def Suc_nat_eq_nat_zadd1 ac_simps)
  ultimately show ?thesis by (auto simp: bq_cap_def)
qed

lemma bq_remove_ok:
  assumes q: "bq_inv q" and some: "0 < m_size q"
  shows "\<exists>x q'. bq_remove q = Inr (x, q') \<and> bq_inv q' \<and> bq_items q = x # bq_items q' \<and> bq_cap q' = bq_cap q \<and>
    m_front q' \<ge> 0 \<and> m_array q' ! nat (m_front q') = x"
proof -
  let ?f = "(m_front q + 1) mod m_max_size q"
  let ?q = "q\<lparr>m_front := ?f, m_size := m_size q - 1\<rparr>"
  have f: "0 \<le> ?f" "?f < m_max_size q" "0 < m_max_size q" "-1 \<le> m_front q"
    and len: "nat (m_max_size q) = length (m_array q)" using q by (auto simp: bq_inv_def)
  then have fl: "nat ?f < length (m_array q)" by linarith
  have fn: "nat ?f = nat (m_front q + 1) mod length (m_array q)"
    using int_mod_pos(3) [of "m_front q + 1" "m_max_size q"] f len by simp
  have r: "bq_remove q = Inr (m_array q ! nat ?f, ?q)" using f fl
    by (simp add: bq_remove_def Let_def)
  have "bq_inv ?q"
  proof -
    have "(?f + (m_size q - 1) + 1) mod m_max_size q = (m_front q + m_size q + 1) mod m_max_size q"
      by (simp add: mod_simps ac_simps)
    moreover have "-1 \<le> ?f" using f(1) by simp
    ultimately show ?thesis using q some f by (simp add: bq_inv_def)
  qed
  moreover have "bq_items q = m_array q ! nat ?f # bq_items ?q"
  proof -
    have "Suc (nat (m_size q - 1)) = nat (m_size q)" using some by simp
    moreover have "ring_items v (h mod length v) n = ring_items v h n" for v :: "'a list" and h n
      by (simp add: ring_items_def mod_simps)
    moreover have "nat (?f + 1) mod length (m_array q) = Suc (nat (m_front q + 1)) mod length (m_array q)"
      using f fn by (simp add: nat_add_distrib mod_simps)
    ultimately show ?thesis
      using ring_take [of "m_array q" "nat (m_front q + 1)" "nat (m_size q - 1)"] fn
      by (simp add: bq_items_def) metis
  qed
  ultimately show ?thesis using r f by (auto simp: bq_cap_def)
qed

interpretation bq_queue: bounded_queue bq_inv bq_items bq_cap bq_push bq_pop
proof
  fix q :: "'a block_queue" and x xs
  assume q: "bq_inv q"
  have len: "length (bq_items q) = nat (m_size q)" by (simp add: bq_items_def)
  with q show "length (bq_items q) \<le> bq_cap q" by (auto simp: bq_cap_def bq_inv_def)
  show "\<exists>q'. bq_push q x = Inr (Some q') \<and> bq_inv q' \<and> bq_items q' = bq_items q @ [x] \<and> bq_cap q' = bq_cap q"
    if "length (bq_items q) < bq_cap q" using q that len by (intro bq_push_ok) (simp_all add: bq_cap_def)
  show "bq_push q x = Inr None" if "length (bq_items q) = bq_cap q"
    using q that len by (auto simp: bq_push_def bq_cap_def bq_inv_def)
  show "\<exists>q'. bq_pop q = Inr (Some (x, q')) \<and> bq_inv q' \<and> bq_items q' = xs \<and> bq_cap q' = bq_cap q"
    if "bq_items q = x # xs"
  proof -
    have "0 < m_size q" using that len by (cases "0 < m_size q") auto
    with bq_remove_ok [OF q this] that show ?thesis by (auto simp: bq_pop_def)
  qed
  show "bq_pop q = Inr None" if "bq_items q = []" using that len by (simp add: bq_pop_def)
qed

lemma bq_init_ok:
  "block_queue_init n d = Inr q \<Longrightarrow>
   bq_inv q \<and> bq_items q = [] \<and> int (bq_cap q) = n \<and> m_front q = -1 \<and> m_size q = 0"
  by (auto simp: block_queue_init_def bq_inv_def bq_items_def bq_cap_def split: if_splits)

lemma bq_back_ok:
  assumes q: "bq_inv q"
  shows "bq_back q = Inr (if bq_items q = [] then None else Some (last (bq_items q)))"
proof (cases "m_size q = 0")
  case False
  then have n: "0 < m_size q" "0 \<le> m_back q" "m_back q < m_max_size q" "0 < m_max_size q" "-1 \<le> m_front q"
    and len: "nat (m_max_size q) = length (m_array q)" using q by (auto simp: bq_inv_def)
  then have nb: "nat (m_back q) < length (m_array q)" by linarith
  have ne: "bq_items q \<noteq> []" using n(1) by (simp add: bq_items_def flip: length_greater_0_conv)
  have "(m_front q + m_size q) mod m_max_size q = m_back q mod m_max_size q"
    using q by (auto simp: bq_inv_def dest: mod_diff_cong [where b = 1 and b' = 1 and c = "m_max_size q"])
  then have "m_back q = (m_front q + m_size q) mod m_max_size q" using n by simp
  then have "nat (m_back q) = nat (m_front q + m_size q) mod length (m_array q)"
    using int_mod_pos(3) [of "m_front q + m_size q" "m_max_size q"] n len by simp
  moreover have "nat (m_front q + m_size q) = nat (m_front q + 1) + (nat (m_size q) - 1)" using n by simp
  ultimately have "last (bq_items q) = m_array q ! nat (m_back q)"
    using ne n by (simp add: bq_items_def ring_items_def last_conv_nth)
  then show ?thesis using False n nb ne by (simp add: bq_back_def)
qed (simp add: bq_back_def bq_items_def)

section \<open>Properties\<close>

text \<open>
  C14. Over every sequence of \<open>push\<close> and \<open>pop\<close> calls on a fresh \<open>block_queue\<close> of positive size the
  elements come out in the order they went in; nothing is read outside the array, the size stays
  within \<open>max_size\<close>, and \<open>size\<close>, \<open>full\<close>, \<open>empty\<close> and \<open>back\<close> report the content.
\<close>

theorem block_queue_fifo:
  assumes "block_queue_init n d = Inr q"
  shows "\<exists>ins outs t. q_run bq_push bq_pop q ops = Inr (ins, outs, t) \<and> ins = outs @ bq_items t \<and>
    bq_size t = int (length (bq_items t)) \<and> bq_size t \<le> n \<and> (bq_full t \<longleftrightarrow> bq_size t = n) \<and>
    (bq_empty t \<longleftrightarrow> bq_items t = []) \<and>
    bq_back t = Inr (if bq_items t = [] then None else Some (last (bq_items t)))"
proof -
  note i = bq_init_ok [OF assms]
  then obtain ins outs t where r: "q_run bq_push bq_pop q ops = Inr (ins, outs, t)" "bq_inv t"
      "bq_cap t = bq_cap q" "ins = outs @ bq_items t"
    using bq_queue.run_fifo [of q ops] by auto
  have n: "m_max_size t = n" using r(2,3) i by (auto simp: bq_cap_def bq_inv_def)
  have z: "int (length (bq_items t)) = m_size t" using r(2) by (simp add: bq_items_def bq_inv_def)
  with r n show ?thesis
    by (intro exI [of _ ins] exI [of _ outs] exI [of _ t])
      (auto simp: bq_back_ok bq_size_def bq_full_def bq_empty_def bq_inv_def)
qed

theorem block_queue_fifo_witness:
  "block_queue_init 2 (0::int) = Inr \<lparr>m_array = [0, 0], m_size = 0, m_max_size = 2, m_front = -1, m_back = -1\<rparr> \<and>
   (\<exists>ins outs t. q_run bq_push bq_pop \<lparr>m_array = [0, 0 :: int], m_size = 0, m_max_size = 2, m_front = -1, m_back = -1\<rparr>
      [Put 5, Put 6, Put 7, Take] = Inr (ins, outs, t) \<and> ins = outs @ bq_items t)"
proof -
  have i: "block_queue_init 2 (0::int) = Inr \<lparr>m_array = [0, 0], m_size = 0, m_max_size = 2, m_front = -1, m_back = -1\<rparr>"
    by (simp add: block_queue_init_def numeral_2_eq_2)
  with block_queue_fifo [OF i, of "[Put 5, Put 6, Put 7, Take]"] show ?thesis by blast
qed

text \<open>
  \<open>front\<close> does not return the head of the queue: before the first \<open>pop\<close> it indexes the array
  with -1, and after a \<open>pop\<close> it returns the element that \<open>pop\<close> has already handed out.
\<close>

theorem block_queue_front_wrong:
  "(block_queue_init n d = Inr q0 \<longrightarrow> bq_push q0 y = Inr (Some q1) \<longrightarrow> bq_front q1 = Inl Out_Of_Bounds) \<and>
   (bq_inv q \<longrightarrow> bq_pop q = Inr (Some (x, q')) \<longrightarrow> bq_items q' \<noteq> [] \<longrightarrow> bq_front q' = Inr (Some x))"
proof (intro conjI impI)
  assume "block_queue_init n d = Inr q0" and "bq_push q0 y = Inr (Some q1)"
  then have "m_front q1 = -1" "m_size q1 = 1"
    by (auto simp: bq_push_def Let_def res_simps dest!: bq_init_ok split: if_splits)
  then show "bq_front q1 = Inl Out_Of_Bounds" by (simp add: bq_front_def vget_int_def)
next
  assume q: "bq_inv q" and p: "bq_pop q = Inr (Some (x, q'))" and ne: "bq_items q' \<noteq> []"
  then have "0 < m_size q" by (auto simp: bq_pop_def split: if_splits)
  with p bq_remove_ok [OF q this] have r: "bq_inv q'" "0 \<le> m_front q'" "m_array q' ! nat (m_front q') = x"
    by (auto simp: bq_pop_def split: if_splits)
  then have "nat (m_front q') < length (m_array q')" by (auto simp: bq_inv_def)
  with r ne show "bq_front q' = Inr (Some x)" by (auto simp: bq_front_def bq_items_def)
qed

theorem block_queue_front_wrong_witness:
  "bq_front \<lparr>m_array = [5, 0 :: int], m_size = 1, m_max_size = 2, m_front = -1, m_back = 0\<rparr> = Inl Out_Of_Bounds"
  by (rule block_queue_front_wrong [THEN conjunct1, rule_format, of 2 0
      "\<lparr>m_array = [0, 0 :: int], m_size = 0, m_max_size = 2, m_front = -1, m_back = -1\<rparr>" 5])
    (simp_all add: block_queue_init_def bq_push_def numeral_2_eq_2)

end
