(* ===== verification/Sort_Spec.thy ===== *)
theory Sort_Spec
  imports Cxx_Prelude
begin

text \<open>
  What every routine of sort.cpp promises: it returns, without an access outside the vector, a
  sorted permutation of its argument, hence the value of \<open>sort\<close>. Also the two invariants the
  routines share: the positions from \<open>m\<close> on are final, and the first \<open>i\<close> positions are final.
  Indices are naturals; the sums of indices that the code computes in \<open>int\<close> are checked for overflow
  where they can leave the range for a vector of at most \<open>INT_MAX\<close> elements.
\<close>

locale sorting =
  fixes srt :: "int list \<Rightarrow> int list res"
    and ok :: "int list \<Rightarrow> bool"
  assumes srt_perm: "ok xs \<Longrightarrow> \<exists>ys. srt xs = Inr ys \<and> mset ys = mset xs \<and> sorted ys"
begin

lemma srt_eq: "ok xs \<Longrightarrow> srt xs = Inr (sort xs)"
  using srt_perm properties_for_sort by metis

lemma srt_sorted: "ok xs \<Longrightarrow> ok (sort xs) \<Longrightarrow> srt (sort xs) = Inr (sort xs)"
  using srt_eq [of "sort xs"] by (simp add: sorted_sort_id)

end

definition final_from :: "nat \<Rightarrow> int list \<Rightarrow> bool" where
  "final_from m v \<longleftrightarrow> (\<forall>a b. a < b \<and> m \<le> b \<and> b < length v \<longrightarrow> v ! a \<le> v ! b)"

definition final_upto :: "nat \<Rightarrow> int list \<Rightarrow> bool" where
  "final_upto i v \<longleftrightarrow> (\<forall>a b. a < b \<and> a < i \<and> b < length v \<longrightarrow> v ! a \<le> v ! b)"

lemma final_fromD: "final_from m v \<Longrightarrow> a < b \<Longrightarrow> m \<le> b \<Longrightarrow> b < length v \<Longrightarrow> v ! a \<le> v ! b"
  by (simp add: final_from_def)

lemma final_from_extend:
  assumes "final_from (Suc m) v" and "\<And>a. a < m \<Longrightarrow> v ! a \<le> v ! m"
  shows "final_from m v"
  unfolding final_from_def
proof (intro allI impI)
  fix a b assume "a < b \<and> m \<le> b \<and> b < length v"
  then show "v ! a \<le> v ! b" using assms(2) [of a] final_fromD [OF assms(1), of a b] by (cases "b = m") auto
qed

lemma final_from_sorted: "final_from 1 v \<Longrightarrow> sorted v"
  unfolding final_from_def by (auto simp: sorted_iff_nth_mono_less)

lemma final_upto_sorted: "final_upto i v \<Longrightarrow> length v \<le> Suc i \<Longrightarrow> sorted v"
  unfolding final_upto_def sorted_iff_nth_mono_less by auto

lemma short_sorted: "length (v :: int list) < 2 \<Longrightarrow> sorted v"
  by (cases v; cases "tl v") auto

text \<open>Monotone steps on an interval make a monotone sequence there.\<close>

lemma chain_le:
  fixes v :: "int list"
  assumes "\<And>k. p \<le> k \<Longrightarrow> k < m \<Longrightarrow> v ! k \<le> v ! Suc k" and "p \<le> a" and "a \<le> b" and "b \<le> m"
  shows "v ! a \<le> v ! b"
  using assms(3,4)
proof (induction b rule: dec_induct)
  case (step n)
  then show ?case using assms(1) [of n] assms(2) by simp
qed simp

lemma take_set_nth: "n \<le> length v \<Longrightarrow> x \<in> set (take n v) \<longleftrightarrow> (\<exists>k<n. x = v ! k)"
  by (auto simp: in_set_conv_nth)

section \<open>Permutations of an interval\<close>

definition perm_within :: "nat \<Rightarrow> nat \<Rightarrow> int list \<Rightarrow> int list \<Rightarrow> bool" where
  "perm_within h t v w \<longleftrightarrow> mset w = mset v \<and> (\<forall>k<length v. k < h \<or> t < k \<longrightarrow> w ! k = v ! k) \<and>
     (\<forall>k. h \<le> k \<and> k \<le> t \<longrightarrow> (\<exists>k'. h \<le> k' \<and> k' \<le> t \<and> w ! k = v ! k'))"

lemma perm_within_mset: "perm_within h t v w \<Longrightarrow> mset w = mset v"
  by (simp add: perm_within_def)

lemma perm_within_length: "perm_within h t v w \<Longrightarrow> length w = length v"
  by (auto simp: perm_within_def dest: mset_eq_length)

lemma perm_within_out: "perm_within h t v w \<Longrightarrow> k < length v \<Longrightarrow> k < h \<or> t < k \<Longrightarrow> w ! k = v ! k"
  by (auto simp: perm_within_def)

lemma perm_within_in:
  assumes "perm_within h t v w" and "h \<le> k" and "k \<le> t"
  shows "\<exists>k'. h \<le> k' \<and> k' \<le> t \<and> w ! k = v ! k'"
  using assms unfolding perm_within_def by blast

lemma perm_within_refl: "perm_within h t v v"
  by (auto simp: perm_within_def)

lemma perm_within_trans:
  assumes "perm_within h t u v" and "perm_within h t v w"
  shows "perm_within h t u w"
  using assms perm_within_length [OF assms(1)] unfolding perm_within_def by metis

lemma perm_within_mono:
  assumes p: "perm_within h t v w" and "h' \<le> h" and "t \<le> t'" and "t' < length v"
  shows "perm_within h' t' v w"
  unfolding perm_within_def
proof (intro conjI allI impI)
  fix k assume k: "h' \<le> k \<and> k \<le> t'"
  show "\<exists>k'. h' \<le> k' \<and> k' \<le> t' \<and> w ! k = v ! k'"
  proof (cases "h \<le> k \<and> k \<le> t")
    case True
    then obtain k' where "h \<le> k'" "k' \<le> t" "w ! k = v ! k'" using perm_within_in [OF p] by blast
    then show ?thesis using assms(2,3) by (intro exI [of _ k']) auto
  next
    case False
    then have "w ! k = v ! k" using perm_within_out [OF p, of k] k assms(4) by auto
    then show ?thesis using k by blast
  qed
qed (use perm_within_mset [OF p] perm_within_out [OF p] assms(2,3) in auto)

lemma perm_within_swap:
  assumes "h \<le> i" "i \<le> t" "h \<le> j" "j \<le> t" "t < length v"
  shows "perm_within h t v (swap_at v i j)"
  unfolding perm_within_def
proof (intro conjI allI impI)
  show "mset (swap_at v i j) = mset v" using assms by (intro mset_swap_at) auto
  fix k
  have n: "swap_at v i j ! k = (if k = i then v ! j else if k = j then v ! i else v ! k)" if "k < length v"
    using assms that by (intro nth_swap_at) auto
  show "swap_at v i j ! k = v ! k" if "k < length v" "k < h \<or> t < k" using n that assms by auto
  show "\<exists>k'. h \<le> k' \<and> k' \<le> t \<and> swap_at v i j ! k = v ! k'" if "h \<le> k \<and> k \<le> t"
    using n that assms by (cases "k = i"; cases "k = j") auto
qed

lemma final_upto_perm:
  assumes f: "final_upto h v" and p: "perm_within h t v w" and t: "t < length v"
  shows "final_upto h w"
  unfolding final_upto_def
proof (intro allI impI)
  fix a b assume ab: "a < b \<and> a < h \<and> b < length w"
  have a: "w ! a = v ! a" using perm_within_out [OF p, of a] ab perm_within_length [OF p] by auto
  have le: "v ! a \<le> v ! k" if "a < k" "k < length v" for k using f ab that by (simp add: final_upto_def)
  show "w ! a \<le> w ! b"
  proof (cases "h \<le> b \<and> b \<le> t")
    case True
    then obtain k where "h \<le> k" "k \<le> t" "w ! b = v ! k" using perm_within_in [OF p] by blast
    then show ?thesis using a le [of k] ab t by simp
  next
    case False
    then have "w ! b = v ! b" using perm_within_out [OF p, of b] ab perm_within_length [OF p] by auto
    then show ?thesis using a le [of b] ab perm_within_length [OF p] by simp
  qed
qed

lemma final_from_perm:
  assumes f: "final_from (Suc t) v" and p: "perm_within h t v w" and t: "t < length v"
  shows "final_from (Suc t) w"
  unfolding final_from_def
proof (intro allI impI)
  fix a b assume ab: "a < b \<and> Suc t \<le> b \<and> b < length w"
  have b: "w ! b = v ! b" "b < length v" using perm_within_out [OF p, of b] ab perm_within_length [OF p] by auto
  have le: "v ! k \<le> v ! b" if "k < b" for k using f ab b that by (simp add: final_from_def)
  show "w ! a \<le> w ! b"
  proof (cases "h \<le> a \<and> a \<le> t")
    case True
    then obtain k where "h \<le> k" "k \<le> t" "w ! a = v ! k" using perm_within_in [OF p] by blast
    then show ?thesis using b le [of k] ab by simp
  next
    case False
    then have "w ! a = v ! a" using perm_within_out [OF p, of a] ab b by auto
    then show ?thesis using b le [of a] ab by simp
  qed
qed

end
