(* ===== verification/Sort_Bubble.thy ===== *)
theory Sort_Bubble
  imports Sort_Spec
begin

text \<open>
  The three bubble sorts of sort.cpp. They share the scan \<open>for(j=0;j<m;++j)\<close> and differ in what it
  records at an exchange: nothing, a flag, or the index.
\<close>

section \<open>Definitions\<close>

text \<open>\<open>swap_tmp\<close>, and the same three statements written out in the bubble sorts.\<close>

definition swap_tmp :: "int list \<Rightarrow> nat \<Rightarrow> nat \<Rightarrow> int list res" where
  "swap_tmp arr i j =
     bind_res (vget arr i) (\<lambda>tmp.
     bind_res (vget arr j) (\<lambda>b.
     bind_res (vset arr i b) (\<lambda>arr. vset arr j tmp)))"

function bubble_pass :: "(nat \<Rightarrow> 'b) \<Rightarrow> int list \<Rightarrow> 'b \<Rightarrow> nat \<Rightarrow> nat \<Rightarrow> (int list \<times> 'b) res" where
  "bubble_pass mark nums acc j m =
     (if j < m then
        bind_res (vget nums j) (\<lambda>a. bind_res (vget nums (j + 1)) (\<lambda>b.
        if a > b
        then bind_res (swap_tmp nums j (j + 1)) (\<lambda>nums. bubble_pass mark nums (mark j) (j + 1) m)
        else bubble_pass mark nums acc (j + 1) m))
      else Inr (nums, acc))"
  by pat_completeness auto
termination
  by (relation "measure (\<lambda>(mark, nums, acc, j, m). m - j)") auto

declare bubble_pass.simps [simp del]

lemma swap_tmp_swap [simp]:
  "i < length arr \<Longrightarrow> j < length arr \<Longrightarrow> swap_tmp arr i j = Inr (swap_at arr i j)"
  by (simp add: swap_tmp_def swap_at_def)

lemma swap_tmp_length: "swap_tmp arr i j = Inr arr' \<Longrightarrow> length arr' = length arr"
  by (auto simp: swap_tmp_def res_simps)

lemma bubble_pass_length: "bubble_pass mark nums acc j m = Inr r \<Longrightarrow> length (fst r) = length nums"
proof (induction "m - j" arbitrary: nums acc j)
  case (Suc n)
  from Suc.prems Suc.hyps(2) show ?case
    by (subst (asm) bubble_pass.simps)
      (auto simp: res_simps split: if_splits dest!: Suc.hyps(1) [rotated] swap_tmp_length)
qed (auto simp: bubble_pass.simps)

function bubble_loop :: "int list \<Rightarrow> nat \<Rightarrow> int list res" where
  "bubble_loop nums i =
     (if i < length nums - 1
      then bind_res (bubble_pass (\<lambda>_. ()) nums () 0 (length nums - 1 - i)) (\<lambda>r. bubble_loop (fst r) (i + 1))
      else Inr nums)"
  by pat_completeness auto
termination
  by (relation "measure (\<lambda>(nums, i). length nums - i)") (auto dest!: bubble_pass_length)

definition BubbleSort :: "int list \<Rightarrow> int list res" where
  "BubbleSort nums = (if length nums < 2 then Inr nums else bubble_loop nums 0)"

function bubble_loop2 :: "int list \<Rightarrow> nat \<Rightarrow> int list res" where
  "bubble_loop2 nums i =
     (if i < length nums - 1
      then bind_res (bubble_pass (\<lambda>_. True) nums False 0 (length nums - 1 - i)) (\<lambda>r.
           let isSwap = snd r
           in if \<not> isSwap then Inr (fst r) else bubble_loop2 (fst r) (i + 1))
      else Inr nums)"
  by pat_completeness auto
termination
  by (relation "measure (\<lambda>(nums, i). length nums - i)") (auto dest!: bubble_pass_length)

definition BubbleSort2 :: "int list \<Rightarrow> int list res" where
  "BubbleSort2 nums = (if length nums < 2 then Inr nums else bubble_loop2 nums 0)"

lemma bubble_pass_mark:
  "bubble_pass mark nums acc j m = Inr r \<Longrightarrow> snd r = acc \<or> (\<exists>k. j \<le> k \<and> k < m \<and> snd r = mark k)"
proof (induction "m - j" arbitrary: nums acc j)
  case (Suc n)
  have n: "n = m - (j + 1)" and j: "j < m" using Suc.hyps(2) by auto
  from Suc.prems j consider nums' where "bubble_pass mark nums' (mark j) (j + 1) m = Inr r"
    | "bubble_pass mark nums acc (j + 1) m = Inr r"
    by (subst (asm) bubble_pass.simps) (auto simp: res_simps split: if_splits)
  then show ?case
  proof cases
    case 1
    from Suc.hyps(1) [OF n 1] j show ?thesis by (metis Suc_eq_plus1 Suc_leD order_refl)
  next
    case 2
    from Suc.hyps(1) [OF n 2] show ?thesis by (metis Suc_eq_plus1 Suc_leD)
  qed
qed (auto simp: bubble_pass.simps)

function bubble_loop3 :: "int list \<Rightarrow> nat \<Rightarrow> int list res" where
  "bubble_loop3 nums lastSortedIdx =
     (if lastSortedIdx > 0
      then bind_res (bubble_pass (\<lambda>j. j) nums 0 0 lastSortedIdx) (\<lambda>r. bubble_loop3 (fst r) (snd r))
      else Inr nums)"
  by pat_completeness auto
termination
  by (relation "measure (\<lambda>(nums, l). l)") (auto dest!: bubble_pass_mark)

definition BubbleSort3 :: "int list \<Rightarrow> int list res" where
  "BubbleSort3 nums = (if length nums < 2 then Inr nums else bubble_loop3 nums (length nums - 1))"

declare bubble_loop.simps [simp del] bubble_loop2.simps [simp del] bubble_loop3.simps [simp del]

section \<open>One scan\<close>

text \<open>
  A scan from \<open>j\<close> over \<open>[j..m]\<close>: the elements of \<open>[0..m]\<close> are permuted, the rest is kept, and
  everything behind the last exchange \<open>c\<close> is in place with respect to what is before it.
\<close>

lemma bubble_pass_scan:
  assumes "j \<le> m" and "m < length v" and "\<And>k. k \<le> j \<Longrightarrow> v ! k \<le> v ! j"
  shows "\<exists>r c. bubble_pass mark v acc j m = Inr (r, case c of None \<Rightarrow> acc | Some k \<Rightarrow> mark k) \<and>
    mset r = mset v \<and> set (take (Suc m) r) = set (take (Suc m) v) \<and> drop (Suc m) r = drop (Suc m) v \<and>
    (c = None \<longrightarrow> r = v) \<and> (\<forall>k. c = Some k \<longrightarrow> j \<le> k \<and> k < m) \<and>
    (\<forall>a b. a < b \<and> b \<le> m \<and> j \<le> b \<and> (\<forall>k. c = Some k \<longrightarrow> k < b) \<longrightarrow> r ! a \<le> r ! b)"
  using assms
proof (induction "m - j" arbitrary: v acc j)
  case 0
  then have "j = m" by simp
  moreover have "bubble_pass mark v acc j m = Inr (v, acc)" using 0 by (simp add: bubble_pass.simps)
  ultimately show ?case using 0 by (intro exI [of _ v] exI [of _ None]) auto
next
  case (Suc n)
  have n: "n = m - Suc j" and j: "j < m" using Suc.hyps(2) by auto
  have l: "j < length v" "Suc j < length v" using j Suc.prems by auto
  show ?case
  proof (cases "v ! j > v ! Suc j")
    case True
    let ?v = "swap_at v j (Suc j)"
    have w: "?v ! j = v ! Suc j" "?v ! Suc j = v ! j" "\<And>k. k \<noteq> j \<Longrightarrow> k \<noteq> Suc j \<Longrightarrow> ?v ! k = v ! k"
      using l by (auto simp: swap_at_def)
    have max: "?v ! k \<le> ?v ! Suc j" if "k \<le> Suc j" for k
      using that True Suc.prems(3) [of k] w by (cases "k = j"; cases "k = Suc j") auto
    from Suc.hyps(1) [OF n, of ?v "mark j"] j Suc.prems(2) max obtain r c where
      r: "bubble_pass mark ?v (mark j) (Suc j) m = Inr (r, case c of None \<Rightarrow> mark j | Some k \<Rightarrow> mark k)"
        "mset r = mset ?v" "set (take (Suc m) r) = set (take (Suc m) ?v)" "drop (Suc m) r = drop (Suc m) ?v"
        "c = None \<longrightarrow> r = ?v" "\<forall>k. c = Some k \<longrightarrow> Suc j \<le> k \<and> k < m"
        "\<forall>a b. a < b \<and> b \<le> m \<and> Suc j \<le> b \<and> (\<forall>k. c = Some k \<longrightarrow> k < b) \<longrightarrow> r ! a \<le> r ! b" by auto
    have tk: "take (Suc m) ?v = swap_at (take (Suc m) v) j (Suc j)" and dr: "drop (Suc m) ?v = drop (Suc m) v"
      using j l by (auto simp: swap_at_def take_update_swap drop_update_cancel)
    have st: "set (take (Suc m) ?v) = set (take (Suc m) v)"
      unfolding tk using j Suc.prems(2) by (intro mset_eq_setD mset_swap_at) auto
    have "bubble_pass mark v acc j m = Inr (r, case c of None \<Rightarrow> mark j | Some k \<Rightarrow> mark k)"
      using True j l r(1) by (subst bubble_pass.simps) simp
    then show ?thesis using r st dr l j
      by (intro exI [of _ r] exI [of _ "Some (case c of None \<Rightarrow> j | Some k \<Rightarrow> k)"])
        (auto split: option.splits)
  next
    case False
    then have max: "v ! k \<le> v ! Suc j" if "k \<le> Suc j" for k
      using that Suc.prems(3) [of k] by (cases "k = Suc j") auto
    from Suc.hyps(1) [OF n, of v acc] j Suc.prems(2) max obtain r c where
      r: "bubble_pass mark v acc (Suc j) m = Inr (r, case c of None \<Rightarrow> acc | Some k \<Rightarrow> mark k)"
        "mset r = mset v" "set (take (Suc m) r) = set (take (Suc m) v)" "drop (Suc m) r = drop (Suc m) v"
        "c = None \<longrightarrow> r = v" "\<forall>k. c = Some k \<longrightarrow> Suc j \<le> k \<and> k < m"
        "\<forall>a b. a < b \<and> b \<le> m \<and> Suc j \<le> b \<and> (\<forall>k. c = Some k \<longrightarrow> k < b) \<longrightarrow> r ! a \<le> r ! b" by auto
    have "bubble_pass mark v acc j m = Inr (r, case c of None \<Rightarrow> acc | Some k \<Rightarrow> mark k)"
      using False j l r(1) by (subst bubble_pass.simps) simp
    moreover have "r ! a \<le> r ! b" if "a < b" "b \<le> m" "j \<le> b" "\<forall>k. c = Some k \<longrightarrow> k < b" for a b
      using r(5,6,7) that Suc.prems(3) [of a] by (cases "b = j"; cases c) auto
    ultimately show ?thesis using r by (intro exI [of _ r] exI [of _ c]) auto
  qed
qed

lemma bubble_pass_final:
  assumes m: "m < length v" and fin: "final_from (Suc m) v"
  shows "\<exists>r c. bubble_pass mark v acc 0 m = Inr (r, case c of None \<Rightarrow> acc | Some k \<Rightarrow> mark k) \<and>
    mset r = mset v \<and> (\<forall>k. c = Some k \<longrightarrow> k < m) \<and> final_from (case c of None \<Rightarrow> 0 | Some k \<Rightarrow> Suc k) r"
proof -
  have "\<exists>r c. bubble_pass mark v acc 0 m = Inr (r, case c of None \<Rightarrow> acc | Some k \<Rightarrow> mark k) \<and>
    mset r = mset v \<and> set (take (Suc m) r) = set (take (Suc m) v) \<and> drop (Suc m) r = drop (Suc m) v \<and>
    (c = None \<longrightarrow> r = v) \<and> (\<forall>k. c = Some k \<longrightarrow> 0 \<le> k \<and> k < m) \<and>
    (\<forall>a b. a < b \<and> b \<le> m \<and> 0 \<le> b \<and> (\<forall>k. c = Some k \<longrightarrow> k < b) \<longrightarrow> r ! a \<le> r ! b)"
    by (rule bubble_pass_scan) (use m in auto)
  then obtain r c where
    r: "bubble_pass mark v acc 0 m = Inr (r, case c of None \<Rightarrow> acc | Some k \<Rightarrow> mark k)"
      "mset r = mset v" "set (take (Suc m) r) = set (take (Suc m) v)" "drop (Suc m) r = drop (Suc m) v"
      "\<forall>k. c = Some k \<longrightarrow> 0 \<le> k \<and> k < m"
      "\<forall>a b. a < b \<and> b \<le> m \<and> 0 \<le> b \<and> (\<forall>k. c = Some k \<longrightarrow> k < b) \<longrightarrow> r ! a \<le> r ! b"
    by (elim exE conjE)
  have len: "length r = length v" using mset_eq_length [OF r(2)] .
  have tail: "r ! b = v ! b" if "m < b" "b < length v" for b
    using arg_cong [OF r(4), of "\<lambda>xs. xs ! (b - Suc m)"] that len by simp
  have "r ! a \<le> r ! b" if ab: "a < b" "b < length r" and c: "\<forall>k. c = Some k \<longrightarrow> k < b" for a b
  proof (cases "b \<le> m")
    case False
    then have b: "r ! b = v ! b" using tail ab len by simp
    show ?thesis
    proof (cases "a \<le> m")
      case True
      then have "r ! a \<in> set (take (Suc m) r)" using len m by (subst take_set_nth) (auto intro!: exI [of _ a])
      then have "r ! a \<in> set (take (Suc m) v)" by (simp only: r(3))
      then obtain k where "k < Suc m" "r ! a = v ! k" using m by (subst (asm) take_set_nth) auto
      then show ?thesis using final_fromD [OF fin, of k b] b False ab len by simp
    next
      case a: False
      then show ?thesis using final_fromD [OF fin, of a b] tail [of a] b False ab len by simp
    qed
  qed (use r(6) ab c in blast)
  then have "final_from (case c of None \<Rightarrow> 0 | Some k \<Rightarrow> Suc k) r"
    by (auto simp: final_from_def split: option.splits)
  with r show ?thesis by blast
qed

lemma final_from_mono: "final_from m v \<Longrightarrow> m \<le> m' \<Longrightarrow> final_from m' v"
  by (auto simp: final_from_def)

section \<open>The loops\<close>

lemma bubble_loop_ok:
  assumes "final_from (length v - i) v"
  shows "\<exists>r. bubble_loop v i = Inr r \<and> mset r = mset v \<and> sorted r"
  using assms
proof (induction "length v - i" arbitrary: v i rule: less_induct)
  case less
  show ?case
  proof (cases "i < length v - 1")
    case True
    let ?m = "length v - 1 - i"
    have m: "?m < length v" "Suc ?m = length v - i" using True by auto
    from bubble_pass_final [of ?m v "\<lambda>_. ()" "()"] m less.prems obtain r u c where
      r: "bubble_pass (\<lambda>_. ()) v () 0 ?m = Inr (r, u)" "mset r = mset v" "\<forall>k. c = Some k \<longrightarrow> k < ?m"
      "final_from (case c of None \<Rightarrow> 0 | Some k \<Rightarrow> Suc k) r" by auto
    have len: "length r = length v" using mset_eq_length [OF r(2)] .
    have "final_from (length r - Suc i) r" using r(3) len True
      by (intro final_from_mono [OF r(4)]) (auto split: option.splits)
    moreover have "length r - Suc i < length v - i" using len True by linarith
    ultimately obtain r' where "bubble_loop r (Suc i) = Inr r'" "mset r' = mset r" "sorted r'"
      using less.hyps [of r "Suc i"] by blast
    then show ?thesis using True r(1,2) by (subst bubble_loop.simps) simp
  next
    case False
    then have "sorted v" using final_from_mono [OF less.prems, of 1] final_from_sorted by simp
    then show ?thesis using False by (subst bubble_loop.simps) simp
  qed
qed

lemma bubble_loop2_ok:
  assumes "final_from (length v - i) v"
  shows "\<exists>r. bubble_loop2 v i = Inr r \<and> mset r = mset v \<and> sorted r"
  using assms
proof (induction "length v - i" arbitrary: v i rule: less_induct)
  case less
  show ?case
  proof (cases "i < length v - 1")
    case True
    let ?m = "length v - 1 - i"
    have m: "?m < length v" "Suc ?m = length v - i" using True by auto
    from bubble_pass_final [of ?m v "\<lambda>_. True" False] m less.prems obtain r c where
      r: "bubble_pass (\<lambda>_. True) v False 0 ?m = Inr (r, case c of None \<Rightarrow> False | Some k \<Rightarrow> True)"
      "mset r = mset v" "\<forall>k. c = Some k \<longrightarrow> k < ?m" "final_from (case c of None \<Rightarrow> 0 | Some k \<Rightarrow> Suc k) r" by auto
    have len: "length r = length v" using mset_eq_length [OF r(2)] .
    show ?thesis
    proof (cases c)
      case None
      then have "sorted r" using r(4) final_from_mono [of 0 r 1] final_from_sorted by simp
      then show ?thesis using None True r(1,2) by (subst bubble_loop2.simps) simp
    next
      case (Some k)
      have "final_from (length r - Suc i) r" using r(3) len True Some
        by (intro final_from_mono [OF r(4)]) auto
      moreover have "length r - Suc i < length v - i" using len True by linarith
    ultimately obtain r' where "bubble_loop2 r (Suc i) = Inr r'" "mset r' = mset r" "sorted r'"
      using less.hyps [of r "Suc i"] by blast
      then show ?thesis using True Some r(1,2) by (subst bubble_loop2.simps) simp
    qed
  next
    case False
    then have "sorted v" using final_from_mono [OF less.prems, of 1] final_from_sorted by simp
    then show ?thesis using False by (subst bubble_loop2.simps) simp
  qed
qed

lemma bubble_loop3_ok:
  assumes "final_from (Suc l) v" and "l < length v"
  shows "\<exists>r. bubble_loop3 v l = Inr r \<and> mset r = mset v \<and> sorted r"
  using assms
proof (induction l arbitrary: v rule: less_induct)
  case (less l)
  show ?case
  proof (cases "0 < l")
    case True
    from bubble_pass_final [OF less.prems(2,1), of "\<lambda>j. j" 0] obtain r c where
      r: "bubble_pass (\<lambda>j. j) v 0 0 l = Inr (r, case c of None \<Rightarrow> 0 | Some k \<Rightarrow> k)"
      "mset r = mset v" "\<forall>k. c = Some k \<longrightarrow> k < l" "final_from (case c of None \<Rightarrow> 0 | Some k \<Rightarrow> Suc k) r" by auto
    let ?k = "case c of None \<Rightarrow> 0 | Some k \<Rightarrow> k"
    have k: "?k < l" "final_from (Suc ?k) r" using True r(3,4) final_from_mono [of 0 r 1] by (auto split: option.splits)
    have "?k < length r" using k(1) less.prems(2) mset_eq_length [OF r(2)] by simp
    from less.IH [OF k(1,2) this] r True show ?thesis by (subst bubble_loop3.simps) auto
  next
    case False
    then have "sorted v" using less.prems final_from_sorted by simp
    then show ?thesis using False by (subst bubble_loop3.simps) simp
  qed
qed

interpretation bubble: sorting BubbleSort "\<lambda>_. True"
  by unfold_locales (auto simp: BubbleSort_def short_sorted final_from_def intro!: bubble_loop_ok)

interpretation bubble2: sorting BubbleSort2 "\<lambda>_. True"
  by unfold_locales (auto simp: BubbleSort2_def short_sorted final_from_def intro!: bubble_loop2_ok)

interpretation bubble3: sorting BubbleSort3 "\<lambda>_. True"
  by unfold_locales (auto simp: BubbleSort3_def short_sorted final_from_def intro!: bubble_loop3_ok)

section \<open>Property\<close>

text \<open>
  The three bubble sorts return the sorted permutation of every vector, with no access outside
  of it: the version that stops at a scan without an exchange and the version that cuts the scan
  at the last exchange agree with the plain one.
\<close>

theorem bubble_sorts_sort:
  "BubbleSort nums = Inr (sort nums) \<and> BubbleSort2 nums = Inr (sort nums) \<and> BubbleSort3 nums = Inr (sort nums)"
  by (simp add: bubble.srt_eq bubble2.srt_eq bubble3.srt_eq)

end
