(* ===== verification/Sort_Select.thy ===== *)
theory Sort_Select
  imports Sort_Spec Sort_Bubble
begin

unbundle bit_operations_syntax

text \<open>The exchange helpers and the two selection sorts of sort.cpp.\<close>

section \<open>Exchanging two elements\<close>

text \<open>\<open>swap_cal\<close> adds the two values first, which is undefined when the sum leaves the range of \<open>int\<close>.\<close>

definition swap_cal :: "int list \<Rightarrow> nat \<Rightarrow> nat \<Rightarrow> int list res" where
  "swap_cal arr i j =
     (if i = j then Inr arr
      else bind_res (vget arr i) (\<lambda>a. bind_res (vget arr j) (\<lambda>b.
           bind_res (as_int (a + b)) (\<lambda>s. bind_res (vset arr i s) (\<lambda>arr.
           bind_res (vget arr i) (\<lambda>a. bind_res (vget arr j) (\<lambda>b.
           bind_res (as_int (a - b)) (\<lambda>d. bind_res (vset arr j d) (\<lambda>arr.
           bind_res (vget arr i) (\<lambda>a. bind_res (vget arr j) (\<lambda>b.
           bind_res (as_int (a - b)) (\<lambda>d. vset arr i d))))))))))))"

definition swap_xor :: "int list \<Rightarrow> nat \<Rightarrow> nat \<Rightarrow> int list res" where
  "swap_xor arr i j =
     (if i = j then Inr arr
      else bind_res (vget arr i) (\<lambda>a. bind_res (vget arr j) (\<lambda>b.
           bind_res (vset arr i (a XOR b)) (\<lambda>arr.
           bind_res (vget arr i) (\<lambda>a. bind_res (vget arr j) (\<lambda>b.
           bind_res (vset arr j (a XOR b)) (\<lambda>arr.
           bind_res (vget arr i) (\<lambda>a. bind_res (vget arr j) (\<lambda>b.
           vset arr i (a XOR b))))))))))"

section \<open>Selection sort\<close>

function min_scan :: "int list \<Rightarrow> nat \<Rightarrow> nat \<Rightarrow> nat res" where
  "min_scan nums minIdx j =
     (if j < length nums
      then bind_res (vget nums j) (\<lambda>x. bind_res (vget nums minIdx) (\<lambda>y.
           min_scan nums (if x < y then j else minIdx) (j + 1)))
      else Inr minIdx)"
  by pat_completeness auto
termination
  by (relation "measure (\<lambda>(nums, m, j). length nums - j)") auto

declare min_scan.simps [simp del]

function select_loop :: "int list \<Rightarrow> nat \<Rightarrow> int list res" where
  "select_loop nums i =
     (if i < length nums - 1
      then bind_res (min_scan nums i (i + 1)) (\<lambda>minIdx.
           bind_res (vswap nums i minIdx) (\<lambda>nums'. select_loop nums' (i + 1)))
      else Inr nums)"
  by pat_completeness auto
termination
  by (relation "measure (\<lambda>(nums, i). length nums - i)") (auto simp: vswap_def split: if_splits)

definition SelectSort :: "int list \<Rightarrow> int list res" where
  "SelectSort nums = (if length nums < 2 then Inr nums else select_loop nums 0)"

text \<open>
  The two-sided version. \<open>tail--\<close> is only reached with \<open>head < tail\<close>, because a single element ends
  the loop by \<open>minIdx == maxIdx\<close>, so it never goes below zero.
\<close>

function minmax_scan :: "int list \<Rightarrow> nat \<Rightarrow> nat \<Rightarrow> nat \<Rightarrow> nat \<Rightarrow> (nat \<times> nat) res" where
  "minmax_scan nums minIdx maxIdx j tail =
     (if j \<le> tail
      then bind_res (vget nums j) (\<lambda>x. bind_res (vget nums minIdx) (\<lambda>lo. bind_res (vget nums maxIdx) (\<lambda>hi.
           minmax_scan nums (if x < lo then j else minIdx) (if x > hi then j else maxIdx) (j + 1) tail)))
      else Inr (minIdx, maxIdx))"
  by pat_completeness auto
termination
  by (relation "measure (\<lambda>(nums, mi, ma, j, t). Suc t - j)") auto

declare select_loop.simps [simp del] minmax_scan.simps [simp del]

function select2_loop :: "int list \<Rightarrow> nat \<Rightarrow> nat \<Rightarrow> int list res" where
  "select2_loop nums head tail =
     (if head \<le> tail
      then bind_res (minmax_scan nums head head (head + 1) tail) (\<lambda>r.
           let minIdx = fst r; maxIdx = snd r
           in if minIdx = maxIdx then Inr nums
              else bind_res (vswap nums head minIdx) (\<lambda>nums1.
                   let maxIdx' = (if maxIdx = head then minIdx else maxIdx)
                   in bind_res (vswap nums1 tail maxIdx') (\<lambda>nums2.
                      select2_loop nums2 (head + 1) (tail - 1))))
      else Inr nums)"
  by pat_completeness auto
termination
  by (relation "measure (\<lambda>(nums, h, t). Suc t - h)") auto

definition SelectSort2 :: "int list \<Rightarrow> int list res" where
  "SelectSort2 nums = (if length nums < 2 then Inr nums else select2_loop nums 0 (length nums - 1))"

declare select2_loop.simps [simp del]

section \<open>Correctness\<close>

lemma min_scan_ok:
  assumes "m < j" and "j \<le> length v" and "\<And>k. i \<le> k \<Longrightarrow> k < j \<Longrightarrow> v ! m \<le> v ! k" and "i \<le> m"
  shows "\<exists>r. min_scan v m j = Inr r \<and> i \<le> r \<and> r < length v \<and> (\<forall>k. i \<le> k \<and> k < length v \<longrightarrow> v ! r \<le> v ! k)"
  using assms
proof (induction "length v - j" arbitrary: m j)
  case 0
  then show ?case by (subst min_scan.simps) auto
next
  case (Suc n)
  let ?m = "if v ! j < v ! m then j else m"
  have j: "j < length v" using Suc.hyps(2) by simp
  have "v ! ?m \<le> v ! k" if "i \<le> k" "k < Suc j" for k
    using Suc.prems(3) [OF that(1)] that by (cases "k = j") fastforce+
  moreover have "?m < Suc j" "i \<le> ?m" using Suc.prems by auto
  ultimately have "\<exists>r. min_scan v ?m (Suc j) = Inr r \<and> i \<le> r \<and> r < length v \<and> (\<forall>k. i \<le> k \<and> k < length v \<longrightarrow> v ! r \<le> v ! k)"
    using Suc.hyps(2) j by (intro Suc.hyps(1)) auto
  then show ?case using j Suc.prems(1) by (subst min_scan.simps) simp
qed

lemma select_loop_ok:
  assumes "final_upto i v"
  shows "\<exists>r. select_loop v i = Inr r \<and> mset r = mset v \<and> sorted r"
  using assms
proof (induction "length v - i" arbitrary: v i rule: less_induct)
  case less
  show ?case
  proof (cases "i < length v - 1")
    case True
    then have i: "i < length v" by simp
    have "\<exists>m. min_scan v i (Suc i) = Inr m \<and> i \<le> m \<and> m < length v \<and> (\<forall>k. i \<le> k \<and> k < length v \<longrightarrow> v ! m \<le> v ! k)"
      using i by (intro min_scan_ok) (auto simp: less_Suc_eq_le)
    then obtain m where m: "min_scan v i (Suc i) = Inr m" "i \<le> m" "m < length v" "\<And>k. i \<le> k \<Longrightarrow> k < length v \<Longrightarrow> v ! m \<le> v ! k"
      by blast
    let ?w = "swap_at v i m"
    have p: "perm_within i (length v - 1) v ?w" using m i by (intro perm_within_swap) auto
    have "final_upto i ?w" using final_upto_perm [OF less.prems p] i by simp
    moreover have "?w ! i \<le> ?w ! b" if "i < b" "b < length v" for b
    proof -
      have "?w ! i = v ! m" using i m(3) by (simp add: swap_at_def nth_list_update)
      moreover have "i \<le> b" "b \<le> length v - 1" using that by auto
      then obtain k where "i \<le> k" "k \<le> length v - 1" "?w ! b = v ! k"
        using perm_within_in [OF p] by blast
      ultimately show ?thesis using m(4) [of k] i by auto
    qed
    ultimately have "final_upto (Suc i) ?w" by (auto simp: final_upto_def less_Suc_eq)
    moreover have "length ?w - Suc i < length v - i" using True by auto
    ultimately obtain r where "select_loop ?w (Suc i) = Inr r" "mset r = mset ?w" "sorted r"
      using less.hyps [of ?w "Suc i"] by blast
    then show ?thesis using True i m(1,3) by (subst select_loop.simps) simp
  next
    case False
    then show ?thesis using final_upto_sorted [OF less.prems] by (subst select_loop.simps) simp
  qed
qed

interpretation select: sorting SelectSort "\<lambda>_. True"
  by unfold_locales (auto simp: SelectSort_def short_sorted final_upto_def intro!: select_loop_ok)

lemma minmax_scan_ok:
  assumes "h \<le> mi" "mi < j" "h \<le> ma" "ma < j" and "j \<le> Suc t" and "t < length v"
    and "\<And>k. h \<le> k \<Longrightarrow> k < j \<Longrightarrow> v ! mi \<le> v ! k \<and> v ! k \<le> v ! ma"
  shows "\<exists>a b. minmax_scan v mi ma j t = Inr (a, b) \<and> h \<le> a \<and> a \<le> t \<and> h \<le> b \<and> b \<le> t \<and>
    (\<forall>k. h \<le> k \<and> k \<le> t \<longrightarrow> v ! a \<le> v ! k \<and> v ! k \<le> v ! b)"
  using assms
proof (induction "Suc t - j" arbitrary: mi ma j)
  case 0
  then show ?case by (subst minmax_scan.simps) auto
next
  case (Suc n)
  let ?mi = "if v ! j < v ! mi then j else mi" and ?ma = "if v ! j > v ! ma then j else ma"
  have j: "j \<le> t" using Suc.hyps(2) by simp
  have "v ! ?mi \<le> v ! k \<and> v ! k \<le> v ! ?ma" if "h \<le> k" "k < Suc j" for k
    using Suc.prems(7) [OF that(1)] that by (cases "k = j") fastforce+
  moreover have "?mi < Suc j" "h \<le> ?mi" "?ma < Suc j" "h \<le> ?ma" using Suc.prems by auto
  ultimately have "\<exists>a b. minmax_scan v ?mi ?ma (Suc j) t = Inr (a, b) \<and> h \<le> a \<and> a \<le> t \<and> h \<le> b \<and> b \<le> t \<and>
    (\<forall>k. h \<le> k \<and> k \<le> t \<longrightarrow> v ! a \<le> v ! k \<and> v ! k \<le> v ! b)"
    using Suc.hyps(2) j Suc.prems(6) by (intro Suc.hyps(1)) auto
  then show ?case using j Suc.prems by (subst minmax_scan.simps) simp
qed

text \<open>One round moves the least element of \<open>[h..t]\<close> to \<open>h\<close> and the greatest to \<open>t\<close>.\<close>

lemma select2_round:
  assumes "h < t" "t < length v" "h \<le> a" "a \<le> t" "h \<le> b" "b \<le> t" "a \<noteq> b"
  defines "w \<equiv> swap_at (swap_at v h a) t (if b = h then a else b)"
  shows "perm_within h t v w \<and> w ! h = v ! a \<and> w ! t = v ! b"
proof -
  have "perm_within h t v (swap_at v h a)" using assms by (intro perm_within_swap) auto
  moreover have "perm_within h t (swap_at v h a) w" unfolding w_def using assms by (intro perm_within_swap) auto
  moreover have "w ! h = v ! a" "w ! t = v ! b" using assms unfolding w_def
    by (auto simp: swap_at_def nth_list_update)
  ultimately show ?thesis using perm_within_trans by blast
qed

lemma select2_final:
  assumes up: "final_upto h v" and down: "final_from (Suc t) v" and t: "h \<le> t" "t < length v"
    and p: "perm_within h t v w" and w: "\<And>k. h \<le> k \<Longrightarrow> k \<le> t \<Longrightarrow> w ! h \<le> v ! k \<and> v ! k \<le> w ! t"
  shows "final_upto (Suc h) w \<and> final_from t w"
proof -
  have len: "length w = length v" using perm_within_length [OF p] .
  have up': "final_upto h w" and down': "final_from (Suc t) w"
    using final_upto_perm [OF up p] final_from_perm [OF down p] t by auto
  have mid: "w ! h \<le> w ! k \<and> w ! k \<le> w ! t" if k: "h \<le> k" "k \<le> t" for k
    using perm_within_in [OF p k] w by auto
  have "w ! h \<le> w ! b" if "h < b" "b < length w" for b
    using that mid [of b] final_fromD [OF down', of h b] by (cases "b \<le> t") auto
  moreover have "w ! a \<le> w ! t" if "a < t" for a
    using that mid [of a] up' t len by (cases "h \<le> a") (auto simp: final_upto_def)
  moreover have "w ! a \<le> w ! b" if "a < b" "b < length w" "t < b" for a b
    using final_fromD [OF down', of a b] that by simp
  ultimately show ?thesis using up' by (auto simp: final_upto_def final_from_def less_Suc_eq le_less)
qed

lemma select2_loop_ok:
  assumes "final_upto h v" and "final_from (Suc t) v" and "h \<le> Suc t" and "t < length v"
  shows "\<exists>r. select2_loop v h t = Inr r \<and> mset r = mset v \<and> sorted r"
  using assms
proof (induction "Suc t - h" arbitrary: v h t rule: less_induct)
  case less
  note up = less.prems(1) and down = less.prems(2)
  show ?case
  proof (cases "h \<le> t")
    case True
    have "\<exists>a b. minmax_scan v h h (Suc h) t = Inr (a, b) \<and> h \<le> a \<and> a \<le> t \<and> h \<le> b \<and> b \<le> t \<and>
      (\<forall>k. h \<le> k \<and> k \<le> t \<longrightarrow> v ! a \<le> v ! k \<and> v ! k \<le> v ! b)"
      using True less.prems(4) by (intro minmax_scan_ok) (auto simp: less_Suc_eq_le)
    then obtain a b where ab: "minmax_scan v h h (Suc h) t = Inr (a, b)" "h \<le> a" "a \<le> t" "h \<le> b" "b \<le> t"
      and m: "\<And>k. h \<le> k \<Longrightarrow> k \<le> t \<Longrightarrow> v ! a \<le> v ! k \<and> v ! k \<le> v ! b" by blast
    show ?thesis
    proof (cases "a = b")
      case same: True
      have "v ! x \<le> v ! y" if "x < y" "y < length v" for x y
        using up down that m [of x] m [of y] same by (cases "x < h"; cases "t < y") (auto simp: final_upto_def final_from_def)
      then have "sorted v" by (simp add: sorted_iff_nth_mono_less)
      then show ?thesis using True same ab(1) by (subst select2_loop.simps) simp
    next
      case False
      then have ht: "h < t" using ab by auto
      let ?b = "if b = h then a else b"
      let ?w = "swap_at (swap_at v h a) t ?b"
      note r = select2_round [OF ht less.prems(4) ab(2-5) False]
      have "final_upto (Suc h) ?w \<and> final_from t ?w"
        using r m by (intro select2_final [OF up down True less.prems(4)]) auto
      moreover have "Suc (t - 1) - Suc h < Suc t - h" "Suc h \<le> Suc (t - 1)" "t - 1 < length ?w" "Suc (t - 1) = t"
        using ht less.prems(4) by auto
      ultimately obtain u where "select2_loop ?w (Suc h) (t - 1) = Inr u" "mset u = mset ?w" "sorted u"
        using less.hyps [of "t - 1" "Suc h" ?w] by metis
      moreover have "mset ?w = mset v" using r perm_within_mset by blast
      ultimately show ?thesis using True False ab less.prems(4) by (subst select2_loop.simps) (auto simp: Let_def)
    qed
  next
    case False
    then have "h = Suc t" using less.prems by simp
    then have "v ! x \<le> v ! y" if "x < y" "y < length v" for x y
      using up down that by (cases "x < h") (auto simp: final_upto_def final_from_def)
    then have "sorted v" by (simp add: sorted_iff_nth_mono_less)
    then show ?thesis using False by (subst select2_loop.simps) simp
  qed
qed

interpretation select2: sorting SelectSort2 "\<lambda>_. True"
  by unfold_locales (auto simp: SelectSort2_def short_sorted final_upto_def final_from_def intro!: select2_loop_ok)

section \<open>Properties\<close>

text \<open>
  Both selection sorts return the sorted permutation of every vector with no access outside of
  it; in the two-sided one this covers the case in which the greatest element is moved away by the
  first of the two exchanges.
\<close>

theorem selection_sorts_sort:
  "SelectSort nums = Inr (sort nums) \<and> SelectSort2 nums = Inr (sort nums)"
  by (simp add: select.srt_eq select2.srt_eq)

lemma xor_back:
  fixes x y :: int
  shows "(x XOR y) XOR y = x" and "(x XOR y) XOR x = y"
  by (rule bit_eqI, auto simp: bit_simps)+

text \<open>
  The three ways of exchanging two elements agree on valid indices, except that \<open>swap_cal\<close> is
  undefined exactly when the positions differ and the sum of the two values is not an \<open>int\<close>.
\<close>

theorem swaps_agree:
  assumes "i < length arr" and "j < length arr" and "\<forall>x\<in>set arr. in_int x"
  shows "swap_tmp arr i j = Inr (swap_at arr i j) \<and> swap_xor arr i j = Inr (swap_at arr i j) \<and>
    swap_cal arr i j = (if i = j \<or> in_int (arr ! i + arr ! j) then Inr (swap_at arr i j) else Inl Signed_Overflow)"
proof (cases "i = j")
  case False
  have a: "in_int (arr ! i)" "in_int (arr ! j)" using assms by auto
  have "swap_xor arr i j = Inr (arr[i := arr ! i XOR arr ! j, j := (arr ! i XOR arr ! j) XOR arr ! j,
      i := (arr ! i XOR arr ! j) XOR ((arr ! i XOR arr ! j) XOR arr ! j)])"
    using assms False by (simp add: swap_xor_def)
  also have "\<dots> = Inr (swap_at arr i j)"
    using False by (simp add: swap_at_def list_update_swap xor_back)
  finally have "swap_xor arr i j = Inr (swap_at arr i j)" .
  moreover have "swap_cal arr i j = Inr (swap_at arr i j)" if "in_int (arr ! i + arr ! j)"
    using assms False that a by (simp add: swap_cal_def swap_at_def list_update_swap)
  moreover have "swap_cal arr i j = Inl Signed_Overflow" if "\<not> in_int (arr ! i + arr ! j)"
    using assms False that by (simp add: swap_cal_def as_int_def)
  ultimately show ?thesis using assms False by simp
qed (use assms in \<open>simp add: swap_xor_def swap_cal_def\<close>)

theorem swaps_agree_witness:
  "swap_xor [5, 9] 0 1 = Inr [9, 5] \<and> swap_cal [2000000000, 2000000000] 0 1 = Inl Signed_Overflow"
  using swaps_agree [of 0 "[5, 9]" 1] swaps_agree [of 0 "[2000000000, 2000000000]" 1]
  by (simp add: swap_at_def in_int_def INT_MAX_def INT_MIN_def)

end
