(* ===== verification/Sort_Insert.thy ===== *)
theory Sort_Insert
  imports Sort_Spec
begin

text \<open>
  Insertion sort, insertion sort with binary search, and Shell sort of sort.cpp. The loops that
  move elements to the right keep a hole: with the code's \<open>cur\<close>, the hole is \<open>p = cur + gap\<close>
  (\<open>gap\<close> is 1 in \<open>InsertSort\<close>), so that \<open>cur >= st\<close> is \<open>st + gap \<le> p\<close> and \<open>p\<close> is never negative.
\<close>

section \<open>Definitions\<close>

function shift_right :: "nat \<Rightarrow> nat \<Rightarrow> int list \<Rightarrow> int \<Rightarrow> nat \<Rightarrow> (int list \<times> nat) res" where
  "shift_right gap st nums tmp p =
     (if 0 < gap \<and> st + gap \<le> p
      then bind_res (vget nums (p - gap)) (\<lambda>x.
           if x > tmp
           then bind_res (vset nums p x) (\<lambda>nums. shift_right gap st nums tmp (p - gap))
           else Inr (nums, p))
      else Inr (nums, p))"
  by pat_completeness auto
termination
  by (relation "measure (\<lambda>(gap, st, nums, tmp, p). p)") auto

declare shift_right.simps [simp del]

definition insert_at :: "nat \<Rightarrow> nat \<Rightarrow> int list \<Rightarrow> nat \<Rightarrow> int list res" where
  "insert_at gap st nums i =
     bind_res (vget nums i) (\<lambda>tmp.
     bind_res (shift_right gap st nums tmp i) (\<lambda>(nums', p). vset nums' p tmp))"

function insert_loop :: "nat \<Rightarrow> nat \<Rightarrow> nat \<Rightarrow> int list \<Rightarrow> nat \<Rightarrow> int list res" where
  "insert_loop gap st len nums i =
     (if 0 < gap \<and> i < len
      then bind_res (insert_at gap st nums i) (\<lambda>nums'. insert_loop gap st len nums' (i + gap))
      else Inr nums)"
  by pat_completeness auto
termination
  by (relation "measure (\<lambda>(gap, st, len, nums, i). len - i)") auto

declare insert_loop.simps [simp del]

definition InsertSort :: "int list \<Rightarrow> int list res" where
  "InsertSort nums = (if length nums < 2 then Inr nums else insert_loop 1 0 (length nums) nums 1)"

function upper_pos :: "int list \<Rightarrow> int \<Rightarrow> nat \<Rightarrow> nat \<Rightarrow> nat res" where
  "upper_pos nums tmp lo hi =
     (if lo < hi
      then bind_res (as_int (int lo + int hi)) (\<lambda>s.
           let mi = nat s div 2
           in bind_res (vget nums mi) (\<lambda>x.
              if tmp < x then upper_pos nums tmp lo mi else upper_pos nums tmp (mi + 1) hi))
      else Inr lo)"
  by pat_completeness auto
termination
  by (relation "measure (\<lambda>(nums, tmp, lo, hi). hi - lo)") (auto simp: as_int_def split: if_splits)

declare upper_pos.simps [simp del]

fun move_right :: "int list \<Rightarrow> nat \<Rightarrow> nat \<Rightarrow> int list res" where
  "move_right nums lo 0 = Inr nums"
| "move_right nums lo (Suc j) =
     (if Suc j > lo
      then bind_res (vget nums j) (\<lambda>x. bind_res (vset nums (Suc j) x) (\<lambda>nums. move_right nums lo j))
      else Inr nums)"

definition insert_at2 :: "int list \<Rightarrow> nat \<Rightarrow> int list res" where
  "insert_at2 nums i =
     bind_res (vget nums i) (\<lambda>tmp.
     bind_res (upper_pos nums tmp 0 i) (\<lambda>lo.
     bind_res (move_right nums lo i) (\<lambda>nums'. vset nums' lo tmp)))"

function insert_loop2 :: "nat \<Rightarrow> int list \<Rightarrow> nat \<Rightarrow> int list res" where
  "insert_loop2 len nums i =
     (if i < len then bind_res (insert_at2 nums i) (\<lambda>nums'. insert_loop2 len nums' (i + 1)) else Inr nums)"
  by pat_completeness auto
termination
  by (relation "measure (\<lambda>(len, nums, i). len - i)") auto

declare insert_loop2.simps [simp del]

definition InsertSort2 :: "int list \<Rightarrow> int list res" where
  "InsertSort2 nums = (if length nums < 2 then Inr nums else insert_loop2 (length nums) nums 1)"

fun shell_groups :: "nat \<Rightarrow> nat \<Rightarrow> int list \<Rightarrow> nat \<Rightarrow> int list res" where
  "shell_groups gap len nums 0 = Inr nums"
| "shell_groups gap len nums (Suc k) =
     bind_res (insert_loop gap (gap - Suc k) len nums (gap - Suc k + gap)) (\<lambda>nums'.
     shell_groups gap len nums' k)"

function shell_gaps :: "nat \<Rightarrow> int list \<Rightarrow> nat \<Rightarrow> int list res" where
  "shell_gaps len nums gap =
     (if gap > 0
      then bind_res (shell_groups gap len nums gap) (\<lambda>nums'. shell_gaps len nums' (gap div 2))
      else Inr nums)"
  by pat_completeness auto
termination
  by (relation "measure (\<lambda>(len, nums, gap). gap)") auto

declare shell_gaps.simps [simp del]

definition ShellSort :: "int list \<Rightarrow> int list res" where
  "ShellSort nums =
     (if length nums < 2 then Inr nums else shell_gaps (length nums) nums (length nums div 2))"

section \<open>Moving to the right\<close>

text \<open>Moving an element into the hole and putting \<open>t\<close> into its place is the same multiset.\<close>

lemma hole_move:
  assumes "q < length v" and "p < length v" and "q \<noteq> p"
  shows "mset (v[p := v ! q, q := t]) = mset (v[p := t])"
proof -
  have "v[p := v ! q, q := t] = swap_at (v[p := t]) p q"
    using assms by (simp add: swap_at_def list_update_swap)
  then show ?thesis using assms by (simp only: mset_swap_at length_list_update)
qed

lemma shift_right_ok:
  assumes "p < length v"
  shows "\<exists>w q. shift_right gap st v tmp p = Inr (w, q) \<and> q \<le> p \<and> length w = length v \<and>
    mset (w[q := tmp]) = mset (v[p := tmp])"
  using assms
proof (induction p arbitrary: v rule: less_induct)
  case (less p)
  show ?case
  proof (cases "0 < gap \<and> st + gap \<le> p \<and> v ! (p - gap) > tmp")
    case True
    let ?v = "v[p := v ! (p - gap)]"
    have "p - gap < p" "p - gap < length ?v" using True less.prems by auto
    from less.IH [OF this] obtain w q where
      w: "shift_right gap st ?v tmp (p - gap) = Inr (w, q)" "q \<le> p - gap" "length w = length v"
        "mset (w[q := tmp]) = mset (?v[p - gap := tmp])" by force
    have "mset (?v[p - gap := tmp]) = mset (v[p := tmp])" using less.prems True by (intro hole_move) auto
    then show ?thesis using w True less.prems by (subst shift_right.simps) auto
  next
    case False
    then show ?thesis using less.prems by (subst shift_right.simps) auto
  qed
qed

lemma insert_at_perm:
  assumes "i < length v"
  shows "\<exists>w. insert_at gap st v i = Inr w \<and> mset w = mset v"
  using shift_right_ok [OF assms, of gap st "v ! i"] assms by (auto simp: insert_at_def)

text \<open>With gap 1 the moved part is the part of the sorted prefix that is greater than \<open>tmp\<close>.\<close>

definition sorted_upto :: "nat \<Rightarrow> int list \<Rightarrow> bool" where
  "sorted_upto i v \<longleftrightarrow> (\<forall>a b. a < b \<and> b < i \<longrightarrow> v ! a \<le> v ! b)"

lemma sorted_upto_all: "sorted_upto (length v) v \<Longrightarrow> sorted v"
  by (auto simp: sorted_upto_def sorted_iff_nth_mono_less)

text \<open>The prefix up to \<open>i\<close> around a hole at \<open>p\<close>, with all behind the hole greater than \<open>tmp\<close>.\<close>

definition holed :: "nat \<Rightarrow> int \<Rightarrow> nat \<Rightarrow> int list \<Rightarrow> bool" where
  "holed i tmp p v \<longleftrightarrow> p \<le> i \<and> (\<forall>a b. a < b \<and> b \<le> i \<and> a \<noteq> p \<and> b \<noteq> p \<longrightarrow> v ! a \<le> v ! b) \<and>
     (\<forall>b. p < b \<and> b \<le> i \<longrightarrow> tmp < v ! b)"

lemma holed_fill:
  assumes "holed i tmp p v" and "i < length v" and "p = 0 \<or> v ! (p - 1) \<le> tmp"
  shows "sorted_upto (Suc i) (v[p := tmp])"
  unfolding sorted_upto_def
proof (intro allI impI)
  fix a b assume ab: "a < b \<and> b < Suc i"
  have low: "v ! a \<le> tmp" if "a < p" "p \<le> i" for a
  proof -
    have "a = p - 1 \<or> a < p - 1 \<and> p - 1 \<le> i \<and> a \<noteq> p \<and> p - 1 \<noteq> p" using that by arith
    then have "v ! a \<le> v ! (p - 1)" using assms(1) unfolding holed_def by auto
    then show ?thesis using assms(3) that by auto
  qed
  show "v[p := tmp] ! a \<le> v[p := tmp] ! b"
    using assms(1,2) ab low [of a] by (cases "a = p"; cases "b = p") (auto simp: holed_def intro: less_imp_le)
qed

lemma shift_right_sorted:
  assumes "holed i tmp p v" and "i < length v"
  shows "\<exists>w q. shift_right 1 0 v tmp p = Inr (w, q) \<and> q \<le> i \<and> length w = length v \<and>
    sorted_upto (Suc i) (w[q := tmp])"
  using assms
proof (induction p arbitrary: v)
  case 0
  then show ?case using holed_fill [OF 0] by (subst shift_right.simps) (auto simp: holed_def)
next
  case (Suc p)
  have p: "p < i" "Suc p < length v" using Suc.prems by (auto simp: holed_def)
  show ?case
  proof (cases "tmp < v ! p")
    case True
    let ?v = "v[Suc p := v ! p]"
    have "?v ! a \<le> ?v ! b" if "a < b" "b \<le> i" "a \<noteq> p" "b \<noteq> p" for a b
      using Suc.prems(1) that p by (cases "a = Suc p"; cases "b = Suc p") (auto simp: holed_def)
    moreover have "tmp < ?v ! b" if "p < b" "b \<le> i" for b
      using Suc.prems(1) that p True by (cases "b = Suc p") (auto simp: holed_def)
    ultimately have "holed i tmp p ?v" using p by (auto simp: holed_def)
    from Suc.IH [OF this] Suc.prems(2) obtain w q where "shift_right 1 0 ?v tmp p = Inr (w, q)" "q \<le> i"
      "length w = length v" "sorted_upto (Suc i) (w[q := tmp])" by auto
    then show ?thesis using True p by (subst shift_right.simps) simp
  next
    case False
    then have "sorted_upto (Suc i) (v[Suc p := tmp])" using holed_fill [OF Suc.prems] by simp
    then show ?thesis using False p by (subst shift_right.simps) simp
  qed
qed

lemma holed_start: "sorted_upto i v \<Longrightarrow> holed i tmp i v"
  by (auto simp: sorted_upto_def holed_def)

lemma insert_at_sorted:
  assumes "sorted_upto i v" and "i < length v"
  shows "\<exists>w. insert_at 1 0 v i = Inr w \<and> mset w = mset v \<and> sorted_upto (Suc i) w"
  using shift_right_sorted [OF holed_start [OF assms(1)] assms(2), of "v ! i"]
    insert_at_perm [OF assms(2), of 1 0] assms(2) by (auto simp: insert_at_def)

section \<open>Insertion sort and Shell sort\<close>

lemma insert_loop_perm:
  assumes "len = length v"
  shows "\<exists>w. insert_loop gap st len v i = Inr w \<and> mset w = mset v"
  using assms
proof (induction "len - i" arbitrary: v i rule: less_induct)
  case less
  show ?case
  proof (cases "0 < gap \<and> i < len")
    case True
    with insert_at_perm [of i v gap st] less.prems obtain w where w: "insert_at gap st v i = Inr w" "mset w = mset v" by auto
    have "len - (i + gap) < len - i" "len = length w" using True less.prems mset_eq_length [OF w(2)] by auto
    from less.hyps [OF this] w True show ?thesis by (subst insert_loop.simps) auto
  next
    case False
    then show ?thesis by (subst insert_loop.simps) auto
  qed
qed

lemma insert_loop_sorted:
  assumes "sorted_upto i v" and "i \<le> length v"
  shows "\<exists>w. insert_loop 1 0 (length v) v i = Inr w \<and> mset w = mset v \<and> sorted w"
  using assms
proof (induction "length v - i" arbitrary: v i)
  case 0
  then show ?case by (subst insert_loop.simps) (auto intro: sorted_upto_all)
next
  case (Suc n)
  then have i: "i < length v" by simp
  from insert_at_sorted [OF Suc.prems(1) i] obtain w where
    w: "insert_at 1 0 v i = Inr w" "mset w = mset v" "sorted_upto (Suc i) w" by blast
  have len: "length w = length v" using mset_eq_length [OF w(2)] .
  have "n = length w - Suc i" "Suc i \<le> length w" using Suc.hyps(2) i len by auto
  from Suc.hyps(1) [OF this(1) w(3) this(2)] len obtain u where
    "insert_loop 1 0 (length v) w (Suc i) = Inr u" "mset u = mset w" "sorted u" by auto
  then show ?case using w i by (subst insert_loop.simps) simp
qed

lemma sorted_upto_1: "sorted_upto (Suc 0) v"
  by (simp add: sorted_upto_def)

interpretation insertion: sorting InsertSort "\<lambda>_. True"
proof
  fix xs :: "int list"
  show "\<exists>ys. InsertSort xs = Inr ys \<and> mset ys = mset xs \<and> sorted ys"
    using insert_loop_sorted [OF sorted_upto_1, of xs] by (auto simp: InsertSort_def short_sorted)
qed

lemma shell_groups_perm:
  "len = length v \<Longrightarrow> \<exists>w. shell_groups gap len v k = Inr w \<and> mset w = mset v"
proof (induction k arbitrary: v)
  case (Suc k)
  obtain w where w: "insert_loop gap (gap - Suc k) len v (gap - Suc k + gap) = Inr w" "mset w = mset v"
    using insert_loop_perm [OF Suc.prems] by blast
  have "len = length w" using Suc.prems mset_eq_length [OF w(2)] by simp
  from Suc.IH [OF this] w show ?case by auto
qed simp

lemma shell_gaps_ok:
  assumes "len = length v" and "0 < gap"
  shows "\<exists>w. shell_gaps len v gap = Inr w \<and> mset w = mset v \<and> sorted w"
  using assms
proof (induction gap arbitrary: v rule: less_induct)
  case (less gap)
  show ?case
  proof (cases "gap = 1")
    case True
    have "\<exists>w. insert_loop 1 0 len v 1 = Inr w \<and> mset w = mset v \<and> sorted w"
    proof (cases v)
      case Nil
      then show ?thesis using less.prems(1) by (subst insert_loop.simps) simp
    qed (use insert_loop_sorted [OF sorted_upto_1, of v] less.prems(1) in auto)
    then show ?thesis using True by (subst shell_gaps.simps) (auto simp: shell_gaps.simps [of _ _ 0])
  next
    case False
    with less.prems have g: "0 < gap div 2" "gap div 2 < gap" by auto
    obtain w where w: "shell_groups gap len v gap = Inr w" "mset w = mset v" using shell_groups_perm [OF less.prems(1)] by blast
    have "len = length w" using less.prems(1) mset_eq_length [OF w(2)] by simp
    from less.IH [OF g(2) this g(1)] w less.prems(2) show ?thesis by (subst shell_gaps.simps) auto
  qed
qed

interpretation shell: sorting ShellSort "\<lambda>_. True"
proof
  fix xs :: "int list"
  show "\<exists>ys. ShellSort xs = Inr ys \<and> mset ys = mset xs \<and> sorted ys"
    using shell_gaps_ok [of "length xs" xs "length xs div 2"] by (auto simp: ShellSort_def short_sorted)
qed

section \<open>Binary insertion sort\<close>

lemma upper_pos_ok:
  assumes "sorted_upto i v" and "i \<le> length v" and "2 * int (length v) \<le> INT_MAX + 1" and "lo \<le> hi" and "hi \<le> i"
    and "\<forall>k<lo. v ! k \<le> tmp" and "\<forall>k. hi \<le> k \<and> k < i \<longrightarrow> tmp < v ! k"
  shows "\<exists>q. upper_pos v tmp lo hi = Inr q \<and> q \<le> i \<and> (\<forall>k<q. v ! k \<le> tmp) \<and> (\<forall>k. q \<le> k \<and> k < i \<longrightarrow> tmp < v ! k)"
  using assms(4-7)
proof (induction "hi - lo" arbitrary: lo hi rule: less_induct)
  case less
  show ?case
  proof (cases "lo < hi")
    case True
    let ?mi = "(lo + hi) div 2"
    have mi: "lo \<le> ?mi" "?mi < hi" "?mi < i" "?mi < length v" using True less.prems assms(2) by auto
    have s: "in_int (int lo + int hi)" using True less.prems assms(2,3) by (auto simp: in_int_def INT_MAX_def INT_MIN_def)
    have mono: "v ! a \<le> v ! b" if "a \<le> b" "b < i" for a b
      using assms(1) that by (cases "a = b") (auto simp: sorted_upto_def)
    have n: "nat (int lo + int hi) div 2 = ?mi" by (simp add: nat_add_distrib)
    show ?thesis
    proof (cases "tmp < v ! ?mi")
      case lt: True
      have "\<forall>k. ?mi \<le> k \<and> k < i \<longrightarrow> tmp < v ! k" using lt mono by (auto intro: less_le_trans)
      moreover have "?mi - lo < hi - lo" "?mi \<le> i" using mi by arith+
      ultimately obtain q where
        "upper_pos v tmp lo ?mi = Inr q \<and> q \<le> i \<and> (\<forall>k<q. v ! k \<le> tmp) \<and> (\<forall>k. q \<le> k \<and> k < i \<longrightarrow> tmp < v ! k)"
        using less.hyps [OF _ mi(1) _ less.prems(3)] by blast
      then show ?thesis using True lt s mi by (subst upper_pos.simps) (simp add: n)
    next
      case ge: False
      have "\<forall>k<Suc ?mi. v ! k \<le> tmp" using ge mono [of _ ?mi] mi by (fastforce simp: less_Suc_eq_le)
      moreover have "hi - Suc ?mi < hi - lo" "Suc ?mi \<le> hi" using mi by arith+
      ultimately obtain q where
        "upper_pos v tmp (Suc ?mi) hi = Inr q \<and> q \<le> i \<and> (\<forall>k<q. v ! k \<le> tmp) \<and> (\<forall>k. q \<le> k \<and> k < i \<longrightarrow> tmp < v ! k)"
        using less.hyps [OF _ _ less.prems(2) _ less.prems(4)] by blast
      then show ?thesis using True ge s mi by (subst upper_pos.simps) (simp add: n)
    qed
  next
    case False
    then show ?thesis using less.prems by (subst upper_pos.simps) auto
  qed
qed

lemma move_right_ok:
  assumes "lo \<le> j" and "j < length v"
  shows "\<exists>w. move_right v lo j = Inr w \<and> length w = length v \<and> mset (w[lo := t]) = mset (v[j := t]) \<and>
    (\<forall>k<length v. w ! k = (if lo < k \<and> k \<le> j then v ! (k - 1) else v ! k))"
  using assms
proof (induction j arbitrary: v)
  case (Suc j)
  show ?case
  proof (cases "lo < Suc j")
    case True
    let ?v = "v[Suc j := v ! j]"
    from Suc.IH [of ?v] True Suc.prems(2) obtain w where w: "move_right ?v lo j = Inr w" "length w = length v"
      "mset (w[lo := t]) = mset (?v[j := t])" "\<forall>k<length v. w ! k = (if lo < k \<and> k \<le> j then ?v ! (k - 1) else ?v ! k)" by auto
    have "mset (?v[j := t]) = mset (v[Suc j := t])" using Suc.prems by (intro hole_move) auto
    moreover have "w ! k = (if lo < k \<and> k \<le> Suc j then v ! (k - 1) else v ! k)" if "k < length v" for k
      using w(4) [rule_format, OF that] that True by (cases "k = Suc j") (auto simp: nth_list_update)
    ultimately show ?thesis using w True Suc.prems by auto
  next
    case False
    then show ?thesis using Suc.prems by auto
  qed
qed auto

lemma insert_at2_sorted:
  assumes s: "sorted_upto i v" and i: "i < length v" and small: "2 * int (length v) \<le> INT_MAX + 1"
  shows "\<exists>w. insert_at2 v i = Inr w \<and> mset w = mset v \<and> sorted_upto (Suc i) w"
proof -
  let ?t = "v ! i"
  obtain q where q: "upper_pos v ?t 0 i = Inr q" "q \<le> i" "\<forall>k<q. v ! k \<le> ?t" "\<forall>k. q \<le> k \<and> k < i \<longrightarrow> ?t < v ! k"
    using upper_pos_ok [OF s less_imp_le [OF i] small, of 0 i ?t] by auto
  obtain w where w: "move_right v q i = Inr w" "length w = length v" "mset (w[q := ?t]) = mset (v[i := ?t])"
    "\<forall>k<length v. w ! k = (if q < k \<and> k \<le> i then v ! (k - 1) else v ! k)"
    using move_right_ok [OF q(2) i, of ?t] by auto
  have n: "w[q := ?t] ! k = (if k = q then ?t else if q < k \<and> k \<le> i then v ! (k - 1) else v ! k)" if "k \<le> i" for k
    using w(2,4) that i by auto
  have mono: "v ! a \<le> v ! b" if "a \<le> b" "b < i" for a b using s that by (cases "a = b") (auto simp: sorted_upto_def)
  have "w[q := ?t] ! a \<le> w[q := ?t] ! b" if ab: "a < b" "b \<le> i" for a b
  proof -
    have "a \<le> i" using ab by simp
    consider "b < q" | "b = q" | "q < b" "a < q" | "q < b" "a = q" | "q < a" using ab by linarith
    then show ?thesis
    proof cases
      case 3
      then have "q \<le> b - 1 \<and> b - 1 < i" using ab by arith
      then have "v ! a \<le> ?t" "?t < v ! (b - 1)" using q(3,4) 3 by blast+
      then show ?thesis using 3 ab by (simp only: n [OF ab(2)] n [OF \<open>a \<le> i\<close>]) auto
    next
      case 4
      then have "q \<le> b - 1 \<and> b - 1 < i" using ab by arith
      then have "?t < v ! (b - 1)" using q(4) by blast
      then show ?thesis using 4 n [OF ab(2)] n [OF \<open>a \<le> i\<close>] ab by simp
    next
      case 2
      then show ?thesis using n [OF ab(2)] n [OF \<open>a \<le> i\<close>] ab q(3) by simp
    qed (use ab q(2) mono n [OF ab(2)] n [OF \<open>a \<le> i\<close>] in auto)
  qed
  then have "sorted_upto (Suc i) (w[q := ?t])" by (auto simp: sorted_upto_def)
  moreover have "insert_at2 v i = Inr (w[q := ?t])" using q(1,2) w(1,2) i by (simp add: insert_at2_def)
  ultimately show ?thesis using w(3) by simp
qed

lemma insert_loop2_sorted:
  assumes "sorted_upto i v" and "i \<le> length v" and "2 * int (length v) \<le> INT_MAX + 1"
  shows "\<exists>w. insert_loop2 (length v) v i = Inr w \<and> mset w = mset v \<and> sorted w"
  using assms
proof (induction "length v - i" arbitrary: v i)
  case 0
  then show ?case by (subst insert_loop2.simps) (auto intro: sorted_upto_all)
next
  case (Suc n)
  then have i: "i < length v" by simp
  from insert_at2_sorted [OF Suc.prems(1) i Suc.prems(3)] obtain w where
    w: "insert_at2 v i = Inr w" "mset w = mset v" "sorted_upto (Suc i) w" by blast
  have len: "length w = length v" using mset_eq_length [OF w(2)] .
  have "n = length w - Suc i" "Suc i \<le> length w" "2 * int (length w) \<le> INT_MAX + 1" using Suc.hyps(2) Suc.prems i len by auto
  from Suc.hyps(1) [OF this(1) w(3) this(2,3)] len obtain u where
    "insert_loop2 (length v) w (Suc i) = Inr u" "mset u = mset w" "sorted u" by auto
  then show ?case using w i by (subst insert_loop2.simps) simp
qed

interpretation insertion2: sorting InsertSort2 "\<lambda>xs. 2 * int (length xs) \<le> INT_MAX + 1"
proof
  fix xs :: "int list"
  assume "2 * int (length xs) \<le> INT_MAX + 1"
  then show "\<exists>ys. InsertSort2 xs = Inr ys \<and> mset ys = mset xs \<and> sorted ys"
    using insert_loop2_sorted [OF sorted_upto_1, of xs] by (auto simp: InsertSort2_def short_sorted)
qed

section \<open>Property\<close>

text \<open>
  Insertion sort and Shell sort return the sorted permutation of every vector, and insertion sort
  with binary search does so for vectors of at most \<open>2^30\<close> elements, for which \<open>lo + hi\<close> is an \<open>int\<close>.
\<close>

theorem insertion_sorts_sort:
  assumes "length nums \<le> 2 ^ 30"
  shows "InsertSort nums = Inr (sort nums) \<and> InsertSort2 nums = Inr (sort nums) \<and> ShellSort nums = Inr (sort nums)"
proof -
  have "2 * int (length nums) \<le> INT_MAX + 1" using assms by (simp add: INT_MAX_def)
  then show ?thesis by (simp add: insertion.srt_eq insertion2.srt_eq shell.srt_eq)
qed

theorem insertion_sorts_sort_witness:
  "InsertSort [3, 1, 2] = Inr (sort [3, 1, 2]) \<and> InsertSort2 [3, 1, 2] = Inr (sort [3, 1, 2]) \<and>
   ShellSort [3, 1, 2] = Inr (sort [3, 1, 2])"
  by (rule insertion_sorts_sort) simp

end
