(* ===== verification/Sort_Merge.thy ===== *)
theory Sort_Merge
  imports Sort_Spec
begin

text \<open>The two merge sorts of sort.cpp, top-down and bottom-up, over a second vector \<open>tmpArr\<close>.\<close>

section \<open>Definitions\<close>

text \<open>The back-up loop \<open>for(i=lo;i<hi;++i) tmpArr[i] = nums[i]\<close>.\<close>

function backup :: "int list \<Rightarrow> int list \<Rightarrow> nat \<Rightarrow> nat \<Rightarrow> int list res" where
  "backup nums tmpArr i hi =
     (if i < hi
      then bind_res (vget nums i) (\<lambda>x. bind_res (vset tmpArr i x) (\<lambda>tmpArr. backup nums tmpArr (i + 1) hi))
      else Inr tmpArr)"
  by pat_completeness auto
termination
  by (relation "measure (\<lambda>(nums, t, i, hi). hi - i)") auto

text \<open>\<open>while(i<mi&&j<hi)\<close>, and the loop that copies what is left of one side.\<close>

function merge_loop :: "int list \<Rightarrow> int list \<Rightarrow> nat \<Rightarrow> nat \<Rightarrow> nat \<Rightarrow> nat \<Rightarrow> nat \<Rightarrow> (int list \<times> nat \<times> nat \<times> nat) res" where
  "merge_loop nums tmpArr i j k mi hi =
     (if i < mi \<and> j < hi
      then bind_res (vget tmpArr i) (\<lambda>a. bind_res (vget tmpArr j) (\<lambda>b.
           if a \<le> b
           then bind_res (vset nums k a) (\<lambda>nums. merge_loop nums tmpArr (i + 1) j (k + 1) mi hi)
           else bind_res (vset nums k b) (\<lambda>nums. merge_loop nums tmpArr i (j + 1) (k + 1) mi hi)))
      else Inr (nums, i, j, k))"
  by pat_completeness auto
termination
  by (relation "measure (\<lambda>(nums, t, i, j, k, mi, hi). (mi - i) + (hi - j))") auto

function copy_rest :: "int list \<Rightarrow> int list \<Rightarrow> nat \<Rightarrow> nat \<Rightarrow> nat \<Rightarrow> (int list \<times> nat) res" where
  "copy_rest nums tmpArr i k e =
     (if i < e
      then bind_res (vget tmpArr i) (\<lambda>a. bind_res (vset nums k a) (\<lambda>nums. copy_rest nums tmpArr (i + 1) (k + 1) e))
      else Inr (nums, k))"
  by pat_completeness auto
termination
  by (relation "measure (\<lambda>(nums, t, i, k, e). e - i)") auto

declare backup.simps [simp del] merge_loop.simps [simp del] copy_rest.simps [simp del]

definition merge_seg :: "int list \<Rightarrow> int list \<Rightarrow> nat \<Rightarrow> nat \<Rightarrow> nat \<Rightarrow> (int list \<times> int list) res" where
  "merge_seg nums tmpArr lo mi hi =
     bind_res (backup nums tmpArr lo hi) (\<lambda>tmpArr.
     bind_res (merge_loop nums tmpArr lo mi lo mi hi) (\<lambda>(nums, i, j, k).
     bind_res (copy_rest nums tmpArr i k mi) (\<lambda>(nums, k).
     bind_res (copy_rest nums tmpArr j k hi) (\<lambda>(nums, k). Inr (nums, tmpArr)))))"

function MergeSort_rec :: "int list \<Rightarrow> int list \<Rightarrow> nat \<Rightarrow> nat \<Rightarrow> (int list \<times> int list) res" where
  "MergeSort_rec nums tmpArr lo hi =
     (if hi \<le> lo + 1 then Inr (nums, tmpArr)
      else bind_res (as_int (int lo + int hi)) (\<lambda>s.
           let mi = nat s div 2
           in bind_res (MergeSort_rec nums tmpArr lo mi) (\<lambda>r.
              bind_res (MergeSort_rec (fst r) (snd r) mi hi) (\<lambda>r.
              merge_seg (fst r) (snd r) lo mi hi))))"
  by pat_completeness auto
termination
  by (relation "measure (\<lambda>(nums, t, lo, hi). hi - lo)") (auto simp: as_int_def nat_add_distrib split: if_splits)

declare MergeSort_rec.simps [simp del]

definition MergeSort :: "int list \<Rightarrow> int list res" where
  "MergeSort nums =
     (if length nums < 2 then Inr nums
      else bind_res (MergeSort_rec nums nums 0 (length nums)) (\<lambda>r. Inr (fst r)))"

text \<open>The bottom-up version: the loop over \<open>lo\<close> for one gap, and the loop over the gaps.\<close>

function merge_pass :: "nat \<Rightarrow> nat \<Rightarrow> int list \<Rightarrow> int list \<Rightarrow> nat \<Rightarrow> (int list \<times> int list) res" where
  "merge_pass gap len nums tmpArr lo =
     (if 0 < gap \<and> int lo < int len - int gap
      then bind_res (as_int (int lo + 2 * int gap)) (\<lambda>e.
           bind_res (merge_seg nums tmpArr lo (lo + gap) (min (nat e) len)) (\<lambda>r.
           merge_pass gap len (fst r) (snd r) (lo + 2 * gap)))
      else Inr (nums, tmpArr))"
  by pat_completeness auto
termination
  by (relation "measure (\<lambda>(gap, len, nums, t, lo). len - lo)") auto

declare merge_pass.simps [simp del]

function merge_gaps :: "nat \<Rightarrow> int list \<Rightarrow> int list \<Rightarrow> nat \<Rightarrow> int list res" where
  "merge_gaps len nums tmpArr gap =
     (if 0 < gap \<and> gap < len
      then bind_res (merge_pass gap len nums tmpArr 0) (\<lambda>r.
           bind_res (as_int (int gap * 2)) (\<lambda>g. merge_gaps len (fst r) (snd r) (nat g)))
      else Inr nums)"
  by pat_completeness auto
termination
  by (relation "measure (\<lambda>(len, nums, t, gap). len - gap)") (auto simp: as_int_def nat_mult_distrib split: if_splits)

declare merge_gaps.simps [simp del]

definition MergeSort2 :: "int list \<Rightarrow> int list res" where
  "MergeSort2 nums = (if length nums < 2 then Inr nums else merge_gaps (length nums) nums nums 1)"

section \<open>Merging\<close>

definition segm :: "'a list \<Rightarrow> nat \<Rightarrow> nat \<Rightarrow> 'a list" where
  "segm v a b = take (b - a) (drop a v)"

fun merge2 :: "int list \<Rightarrow> int list \<Rightarrow> int list" where
  "merge2 [] ys = ys"
| "merge2 xs [] = xs"
| "merge2 (x # xs) (y # ys) = (if x \<le> y then x # merge2 xs (y # ys) else y # merge2 (x # xs) ys)"

lemma mset_merge2 [simp]: "mset (merge2 xs ys) = mset xs + mset ys"
  by (induction xs ys rule: merge2.induct) auto

lemma length_merge2 [simp]: "length (merge2 xs ys) = length xs + length ys"
  using mset_merge2 [of xs ys] by (metis size_mset size_union)

lemma set_merge2 [simp]: "set (merge2 xs ys) = set xs \<union> set ys"
  by (induction xs ys rule: merge2.induct) auto

lemma sorted_merge2: "sorted xs \<Longrightarrow> sorted ys \<Longrightarrow> sorted (merge2 xs ys)"
  by (induction xs ys rule: merge2.induct) auto

lemma merge2_Nil2 [simp]: "merge2 xs [] = xs"
  by (cases xs) simp_all

lemma segm_empty [simp]: "b \<le> a \<Longrightarrow> segm v a b = []"
  by (simp add: segm_def)

lemma segm_Cons: "a < b \<Longrightarrow> a < length v \<Longrightarrow> segm v a b = v ! a # segm v (Suc a) b"
proof -
  assume "a < b" "a < length v"
  then have "drop a v = v ! a # drop (Suc a) v" "b - a = Suc (b - Suc a)" by (auto simp: Cons_nth_drop_Suc)
  then show ?thesis by (simp add: segm_def)
qed

lemma length_segm [simp]: "b \<le> length v \<Longrightarrow> length (segm v a b) = b - a"
  by (auto simp: segm_def)

lemma segm_append: "a \<le> b \<Longrightarrow> b \<le> c \<Longrightarrow> segm v a b @ segm v b c = segm v a c"
proof -
  assume "a \<le> b" "b \<le> c"
  then have "c - a = (b - a) + (c - b)" "drop b v = drop (b - a) (drop a v)" by simp_all
  then show ?thesis by (simp only: segm_def take_add)
qed

text \<open>Writing \<open>x\<close> at position \<open>k\<close> of a vector that is being filled from the left.\<close>

lemma fill_step:
  assumes "k < length v"
  shows "take (Suc k) (v[k := x]) @ ys @ drop (Suc k + n) (v[k := x]) = take k v @ (x # ys) @ drop (k + Suc n) v"
  using assms by (simp add: take_Suc_conv_app_nth)

lemma backup_ok:
  assumes "hi \<le> length nums" and "hi \<le> length t" and "i \<le> hi"
  shows "backup nums t i hi = Inr (take i t @ segm nums i hi @ drop hi t)"
  using assms
proof (induction "hi - i" arbitrary: i t)
  case 0
  then show ?case by (subst backup.simps) simp
next
  case (Suc n)
  then have i: "i < hi" by simp
  have "backup nums (t[i := nums ! i]) (Suc i) hi =
      Inr (take (Suc i) (t[i := nums ! i]) @ segm nums (Suc i) hi @ drop hi (t[i := nums ! i]))"
    using Suc i by (intro Suc.hyps) auto
  also have "\<dots> = Inr (take i t @ segm nums i hi @ drop hi t)"
    using fill_step [of i t "nums ! i" "segm nums (Suc i) hi" "hi - Suc i"] i Suc.prems by (simp add: segm_Cons)
  finally show ?case using i Suc.prems by (subst backup.simps) simp
qed

lemma copy_rest_ok:
  assumes "e \<le> length t" and "k + (e - i) \<le> length nums"
  shows "copy_rest nums t i k e = Inr (take k nums @ segm t i e @ drop (k + (e - i)) nums, k + (e - i))"
  using assms
proof (induction "e - i" arbitrary: i k nums)
  case 0
  then show ?case by (subst copy_rest.simps) simp
next
  case (Suc n)
  then have i: "i < e" by simp
  have "copy_rest (nums[k := t ! i]) t (Suc i) (Suc k) e =
      Inr (take (Suc k) (nums[k := t ! i]) @ segm t (Suc i) e @ drop (Suc k + (e - Suc i)) (nums[k := t ! i]),
        Suc k + (e - Suc i))"
    using Suc i by (intro Suc.hyps) auto
  also have "\<dots> = Inr (take k nums @ segm t i e @ drop (k + (e - i)) nums, k + (e - i))"
    using fill_step [of k nums "t ! i" "segm t (Suc i) e" "e - Suc i"] i Suc.prems
    by (simp add: segm_Cons Suc_diff_Suc)
  finally show ?case using i Suc.prems by (subst copy_rest.simps) simp
qed

lemma copy_rest_done: "e \<le> i \<Longrightarrow> copy_rest nums t i k e = Inr (nums, k)"
  by (subst copy_rest.simps) simp

lemma merge_loop_ok:
  assumes "mi \<le> length t" and "hi \<le> length t" and "k + (mi - i) + (hi - j) \<le> length nums"
  shows "bind_res (merge_loop nums t i j k mi hi) (\<lambda>(nums, i, j, k).
     bind_res (copy_rest nums t i k mi) (\<lambda>(nums, k).
     bind_res (copy_rest nums t j k hi) (\<lambda>(nums, k). Inr (nums, t)))) =
   Inr (take k nums @ merge2 (segm t i mi) (segm t j hi) @ drop (k + (mi - i) + (hi - j)) nums, t)"
  using assms
proof (induction "(mi - i) + (hi - j)" arbitrary: i j k nums)
  case 0
  then show ?case by (subst merge_loop.simps) (simp add: copy_rest_ok)
next
  case (Suc n)
  show ?case
  proof (cases "i < mi \<and> j < hi")
    case False
    then have "merge_loop nums t i j k mi hi = Inr (nums, i, j, k)" by (subst merge_loop.simps) auto
    then show ?thesis using Suc.prems False by (cases "i < mi") (simp_all add: copy_rest_ok copy_rest_done)
  next
    case True
    then have ij: "i < mi" "j < hi" "i < length t" "j < length t" "k < length nums" using Suc.prems by auto
    show ?thesis
    proof (cases "t ! i \<le> t ! j")
      case le: True
      let ?w = "nums[k := t ! i]"
      have e: "mi - i = Suc (mi - Suc i)" using ij by simp
      have "bind_res (merge_loop ?w t (Suc i) j (Suc k) mi hi) (\<lambda>(nums, i, j, k).
          bind_res (copy_rest nums t i k mi) (\<lambda>(nums, k).
          bind_res (copy_rest nums t j k hi) (\<lambda>(nums, k). Inr (nums, t)))) =
        Inr (take (Suc k) ?w @ merge2 (segm t (Suc i) mi) (segm t j hi) @ drop (Suc k + (mi - Suc i) + (hi - j)) ?w, t)"
        using Suc.hyps(2) Suc.prems ij by (intro Suc.hyps(1)) auto
      then show ?thesis using True le ij
          fill_step [of k nums "t ! i" "merge2 (segm t (Suc i) mi) (segm t j hi)" "(mi - Suc i) + (hi - j)"]
        by (subst merge_loop.simps) (simp add: segm_Cons [of i] segm_Cons [of j] e add.assoc)
    next
      case gt: False
      let ?w = "nums[k := t ! j]"
      have e: "hi - j = Suc (hi - Suc j)" using ij by simp
      have "bind_res (merge_loop ?w t i (Suc j) (Suc k) mi hi) (\<lambda>(nums, i, j, k).
          bind_res (copy_rest nums t i k mi) (\<lambda>(nums, k).
          bind_res (copy_rest nums t j k hi) (\<lambda>(nums, k). Inr (nums, t)))) =
        Inr (take (Suc k) ?w @ merge2 (segm t i mi) (segm t (Suc j) hi) @ drop (Suc k + (mi - i) + (hi - Suc j)) ?w, t)"
        using Suc.hyps(2) Suc.prems ij by (intro Suc.hyps(1)) auto
      then show ?thesis using True gt ij
          fill_step [of k nums "t ! j" "merge2 (segm t i mi) (segm t (Suc j) hi)" "(mi - i) + (hi - Suc j)"]
        by (subst merge_loop.simps) (simp add: segm_Cons [of i] segm_Cons [of j] e add.assoc)
    qed
  qed
qed

lemma segm_whole: "lo \<le> hi \<Longrightarrow> take lo v @ segm v lo hi @ drop hi v = v"
  using append_take_drop_id [of "hi - lo" "drop lo v"] by (simp add: segm_def)

lemma segm_patch:
  assumes "length xs = hi - lo" and "lo \<le> hi" and "hi \<le> length v"
  shows "segm (take lo v @ xs @ drop hi v) lo hi = xs"
    and "b \<le> lo \<Longrightarrow> segm (take lo v @ xs @ drop hi v) a b = segm v a b"
    and "hi \<le> a \<Longrightarrow> segm (take lo v @ xs @ drop hi v) a b = segm v a b"
    and "take lo (take lo v @ xs @ drop hi v) = take lo v"
    and "drop hi (take lo v @ xs @ drop hi v) = drop hi v"
proof -
  have l: "length (take lo v) = lo" using assms by simp
  show "segm (take lo v @ xs @ drop hi v) lo hi = xs" using assms l by (simp add: segm_def)
  show "drop hi (take lo v @ xs @ drop hi v) = drop hi v" using assms l by simp
  show "take lo (take lo v @ xs @ drop hi v) = take lo v" using l by simp
  show "segm (take lo v @ xs @ drop hi v) a b = segm v a b" if "b \<le> lo"
  proof -
    have "segm w a b = drop a (take b w)" for w :: "'a list" by (simp add: segm_def drop_take)
    moreover have "take b (take lo v @ xs @ drop hi v) = take b v" using that l by (simp add: min_def)
    ultimately show ?thesis by simp
  qed
  show "segm (take lo v @ xs @ drop hi v) a b = segm v a b" if "hi \<le> a"
  proof -
    have "drop a (take lo v @ xs @ drop hi v) = drop a v" using that assms l by simp
    then show ?thesis by (simp add: segm_def)
  qed
qed

lemma merge_seg_ok:
  assumes "lo \<le> mi" "mi \<le> hi" "hi \<le> length nums" "length t = length nums"
  shows "\<exists>t'. merge_seg nums t lo mi hi =
    Inr (take lo nums @ merge2 (segm nums lo mi) (segm nums mi hi) @ drop hi nums, t') \<and> length t' = length nums"
proof -
  let ?t = "take lo t @ segm nums lo hi @ drop hi t"
  have len: "length ?t = length nums" using assms by simp
  have b: "backup nums t lo hi = Inr ?t" using assms by (intro backup_ok) auto
  have "segm ?t lo mi @ segm ?t mi hi = segm nums lo mi @ segm nums mi hi"
    using assms segm_patch(1) [of "segm nums lo hi" hi lo t] by (simp add: segm_append)
  moreover have "length (segm ?t lo mi) = length (segm nums lo mi)" using assms len by simp
  ultimately have "segm ?t lo mi = segm nums lo mi" "segm ?t mi hi = segm nums mi hi" by (auto simp: append_eq_append_conv)
  moreover have "lo + (mi - lo) + (hi - mi) = hi" using assms by simp
  ultimately have "merge_seg nums t lo mi hi =
      Inr (take lo nums @ merge2 (segm nums lo mi) (segm nums mi hi) @ drop hi nums, ?t)"
    using merge_loop_ok [of mi ?t hi lo lo mi nums] b assms len by (simp add: merge_seg_def)
  then show ?thesis using len by blast
qed

section \<open>Top-down\<close>

abbreviation small :: "int list \<Rightarrow> bool" where
  "small xs \<equiv> 2 * int (length xs) \<le> INT_MAX + 1"

lemma MergeSort_rec_ok:
  assumes "lo \<le> hi" "hi \<le> length nums" "length t = length nums" "small nums"
  shows "\<exists>t'. MergeSort_rec nums t lo hi = Inr (take lo nums @ sort (segm nums lo hi) @ drop hi nums, t') \<and>
    length t' = length nums"
  using assms
proof (induction "hi - lo" arbitrary: nums t lo hi rule: less_induct)
  case less
  show ?case
  proof (cases "hi \<le> lo + 1")
    case True
    then have "length (segm nums lo hi) \<le> 1" using less.prems by simp
    then have "sort (segm nums lo hi) = segm nums lo hi" by (intro sorted_sort_id short_sorted) simp
    then have "take lo nums @ sort (segm nums lo hi) @ drop hi nums = nums"
      using less.prems(1) by (simp add: segm_whole)
    then show ?thesis using True less.prems by (subst MergeSort_rec.simps) simp
  next
    case False
    let ?mi = "(lo + hi) div 2"
    have mi: "lo < ?mi" "?mi < hi" using False by auto
    have s: "in_int (int lo + int hi)" using less.prems False by (auto simp: in_int_def INT_MAX_def INT_MIN_def)
    have n: "nat (int lo + int hi) div 2 = ?mi" by (simp add: nat_add_distrib)
    let ?A = "sort (segm nums lo ?mi)" and ?B = "sort (segm nums ?mi hi)"
    let ?v1 = "take lo nums @ ?A @ drop ?mi nums"
    have lA: "length ?A = ?mi - lo" and lB: "length ?B = hi - ?mi" using mi less.prems by auto
    have l1: "length ?v1 = length nums" using lA mi less.prems by simp
    have "?mi - lo < hi - lo" using mi by arith
    from less.hyps [OF this, of nums t] less.prems mi obtain t1 where
      r1: "MergeSort_rec nums t lo ?mi = Inr (?v1, t1)" "length t1 = length nums" by auto
    have s2: "segm ?v1 ?mi hi = segm nums ?mi hi" using lA mi less.prems by (intro segm_patch(3)) auto
    let ?v2 = "take ?mi ?v1 @ ?B @ drop hi ?v1"
    have l2: "length ?v2 = length nums" using l1 lB mi less.prems by simp
    have "hi - ?mi < hi - lo" using mi by arith
    from less.hyps [OF this, of ?v1 t1] less.prems mi l1 r1(2) s2 obtain t2 where
      r2: "MergeSort_rec ?v1 t1 ?mi hi = Inr (?v2, t2)" "length t2 = length nums" by auto
    have v2: "?v2 = take lo nums @ (?A @ ?B) @ drop hi nums"
      using lA mi less.prems by (simp add: min_def)
    have A: "segm ?v2 lo ?mi = ?A"
      using lA mi less.prems l1 segm_patch(1) [OF lA, of nums] segm_patch(2) [of ?B hi ?mi ?v1 ?mi lo] lB by simp
    have B: "segm ?v2 ?mi hi = ?B" using lB mi less.prems l1 by (intro segm_patch(1)) auto
    have T: "take lo ?v2 = take lo nums" "drop hi ?v2 = drop hi nums"
      unfolding v2 using lA lB mi less.prems by auto
    from merge_seg_ok [of lo ?mi hi ?v2 t2] mi less.prems l2 r2(2) obtain t3 where
      r3: "merge_seg ?v2 t2 lo ?mi hi = Inr (take lo nums @ merge2 ?A ?B @ drop hi nums, t3)" "length t3 = length nums"
      unfolding A B T by auto
    have "merge2 ?A ?B = sort (segm nums lo hi)"
    proof (rule properties_for_sort [symmetric])
      show "mset (merge2 ?A ?B) = mset (segm nums lo hi)"
        using mi by (simp add: segm_append [of lo ?mi hi nums, symmetric])
    qed (simp add: sorted_merge2)
    then show ?thesis using False s r1 r2 r3 by (subst MergeSort_rec.simps) (simp add: n)
  qed
qed

interpretation merge: sorting MergeSort small
proof
  fix xs :: "int list" assume "small xs"
  then show "\<exists>ys. MergeSort xs = Inr ys \<and> mset ys = mset xs \<and> sorted ys"
    using MergeSort_rec_ok [of 0 "length xs" xs xs]
    by (auto simp: MergeSort_def short_sorted segm_def)
qed

section \<open>Bottom-up\<close>

text \<open>Every block of \<open>g\<close> elements from \<open>lo\<close> on is sorted, and every block of \<open>2 * g\<close> before it.\<close>

definition blocks_sorted :: "nat \<Rightarrow> int list \<Rightarrow> bool" where
  "blocks_sorted g v \<longleftrightarrow> (\<forall>c. sorted (segm v (c * g) (c * g + g)))"

definition pass_inv :: "nat \<Rightarrow> nat \<Rightarrow> int list \<Rightarrow> bool" where
  "pass_inv g lo v \<longleftrightarrow> (2 * g) dvd lo \<and>
     (\<forall>c. c * (2 * g) < lo \<longrightarrow> sorted (segm v (c * (2 * g)) (c * (2 * g) + 2 * g))) \<and>
     (\<forall>c. lo \<le> c * g \<longrightarrow> sorted (segm v (c * g) (c * g + g)))"

lemma segm_beyond: "length v \<le> b \<Longrightarrow> length v \<le> b' \<Longrightarrow> segm v a b = segm v a b'"
  by (simp add: segm_def)

lemma pass_invD: "pass_inv g lo v \<Longrightarrow> lo \<le> c * g \<Longrightarrow> sorted (segm v (c * g) (c * g + g))"
  by (simp add: pass_inv_def)

lemma pass_inv_end:
  assumes p: "pass_inv g lo v" and e: "length v \<le> lo + g"
  shows "blocks_sorted (2 * g) v"
  unfolding blocks_sorted_def
proof
  fix c
  show "sorted (segm v (c * (2 * g)) (c * (2 * g) + 2 * g))"
  proof (cases "c * (2 * g) < lo")
    case False
    have "sorted (segm v (2 * c * g) (2 * c * g + g))" using False by (intro pass_invD [OF p]) (simp add: ac_simps)
    moreover have "segm v (2 * c * g) (2 * c * g + g) = segm v (c * (2 * g)) (c * (2 * g) + 2 * g)"
      using segm_beyond [of v "2 * c * g + g" "c * (2 * g) + 2 * g" "2 * c * g"] False e by (simp add: ac_simps)
    ultimately show ?thesis by simp
  qed (use p in \<open>simp add: pass_inv_def\<close>)
qed

lemma pass_inv_step:
  assumes p: "pass_inv g lo v" and g: "0 < g" and lo: "lo + g < length v"
  defines "hi \<equiv> min (lo + 2 * g) (length v)"
  defines "w \<equiv> take lo v @ merge2 (segm v lo (lo + g)) (segm v (lo + g) hi) @ drop hi v"
  shows "pass_inv g (lo + 2 * g) w \<and> mset w = mset v"
proof -
  have hi: "lo + g \<le> hi" "hi \<le> length v" "lo \<le> hi" unfolding hi_def using lo by auto
  have d: "(2 * g) dvd lo" using p by (simp add: pass_inv_def)
  have lm: "length (merge2 (segm v lo (lo + g)) (segm v (lo + g) hi)) = hi - lo" using hi lo by simp
  have lw: "length w = length v" unfolding w_def using lm hi by simp
  obtain c where c: "lo = c * (2 * g)" using d by (metis dvd_def mult.commute)
  have "2 * c * g = lo" "(2 * c + 1) * g = lo + g" using c by (simp_all add: algebra_simps)
  then have "sorted (segm v lo (lo + g))" "sorted (segm v (lo + g) (lo + g + g))"
    using pass_invD [OF p, of "2 * c"] pass_invD [OF p, of "2 * c + 1"] by (simp_all add: add.commute)
  moreover have "segm v (lo + g) (lo + g + g) = segm v (lo + g) hi"
    unfolding hi_def using segm_beyond [of v "lo + g + g" "length v" "lo + g"] by (auto simp: min_def mult_2 add.assoc)
  ultimately have srt: "sorted (merge2 (segm v lo (lo + g)) (segm v (lo + g) hi))" by (simp add: sorted_merge2)
  have new: "sorted (segm w lo (lo + 2 * g))"
  proof -
    have "segm w lo (lo + 2 * g) = segm w lo hi"
      unfolding hi_def using segm_beyond [of w "lo + 2 * g" "length v" lo] lw by (auto simp: min_def)
    then show ?thesis using srt segm_patch(1) [OF lm hi(3,2)] by (simp add: w_def)
  qed
  have old: "sorted (segm w (k * (2 * g)) (k * (2 * g) + 2 * g))" if k: "k * (2 * g) < lo + 2 * g" for k
  proof (cases "k = c")
    case False
    have "k * (2 * g) < (c + 1) * (2 * g)" using k c by simp
    then have "k < c" using False by (simp only: mult_less_cancel2) simp
    then have kk: "k * (2 * g) + 2 * g \<le> lo" using c g by (metis Suc_leI add.commute mult_Suc mult_le_mono1)
    then have "segm w (k * (2 * g)) (k * (2 * g) + 2 * g) = segm v (k * (2 * g)) (k * (2 * g) + 2 * g)"
      unfolding w_def using segm_patch(2) [OF lm hi(3,2)] by simp
    moreover have "k * (2 * g) < lo" using kk g by simp
    ultimately show ?thesis using p by (simp add: pass_inv_def)
  qed (use new c in simp)
  have rest: "sorted (segm w (k * g) (k * g + g))" if k: "lo + 2 * g \<le> k * g" for k
  proof -
    have "segm w (k * g) (k * g + g) = segm v (k * g) (k * g + g)"
      unfolding w_def using segm_patch(3) [OF lm hi(3,2), of "k * g"] k hi_def by simp
    then show ?thesis using p k by (simp add: pass_inv_def)
  qed
  have "take lo v @ segm v lo hi @ drop hi v = v" using hi by (intro segm_whole)
  from arg_cong [OF this, of mset] have "mset v = mset (take lo v) + mset (segm v lo hi) + mset (drop hi v)" by (simp add: add.assoc)
  moreover from arg_cong [OF segm_append [of lo "lo + g" hi v], of mset] hi(1)
  have "mset (segm v lo hi) = mset (segm v lo (lo + g)) + mset (segm v (lo + g) hi)" by simp
  ultimately have "mset w = mset v" unfolding w_def by simp
  then show ?thesis using old rest d by (simp add: pass_inv_def)
qed

lemma merge_pass_ok:
  assumes "pass_inv g lo v" "0 < g" "g < length v" "length t = length v" "small v"
  shows "\<exists>w t'. merge_pass g (length v) v t lo = Inr (w, t') \<and> mset w = mset v \<and> length t' = length v \<and>
    blocks_sorted (2 * g) w"
  using assms
proof (induction "length v - lo" arbitrary: v t lo rule: less_induct)
  case less
  show ?case
  proof (cases "lo + g < length v")
    case True
    let ?hi = "min (lo + 2 * g) (length v)"
    let ?w = "take lo v @ merge2 (segm v lo (lo + g)) (segm v (lo + g) ?hi) @ drop ?hi v"
    have w: "pass_inv g (lo + 2 * g) ?w" "mset ?w = mset v" using pass_inv_step [OF less.prems(1,2) True] by auto
    have lw: "length ?w = length v" using mset_eq_length [OF w(2)] .
    obtain t1 where t1: "merge_seg v t lo (lo + g) ?hi = Inr (?w, t1)" "length t1 = length v"
      using merge_seg_ok [of lo "lo + g" ?hi v t] True less.prems(4) by auto
    have ii: "in_int (int lo + 2 * int g)" using True less.prems(3,5) by (auto simp: in_int_def INT_MAX_def INT_MIN_def)
    have "length ?w - (lo + 2 * g) < length v - lo" using lw True less.prems(2) by arith
    from less.hyps [OF this w(1) less.prems(2), of t1] lw t1(2) less.prems(3,5) w(2) obtain u t2 where
      u: "merge_pass g (length v) ?w t1 (lo + 2 * g) = Inr (u, t2)" "mset u = mset v" "length t2 = length v" "blocks_sorted (2 * g) u"
      by auto
    have e: "nat (int lo + 2 * int g) = lo + 2 * g" by (simp add: nat_add_distrib nat_mult_distrib)
    have "merge_pass g (length v) v t lo = Inr (u, t2)"
      using True less.prems(2) ii t1(1) u(1) by (subst merge_pass.simps) (simp add: e)
    then show ?thesis using u by blast
  next
    case False
    then have "merge_pass g (length v) v t lo = Inr (v, t)" by (subst merge_pass.simps) auto
    then show ?thesis using False pass_inv_end [OF less.prems(1)] less.prems(4) by simp
  qed
qed

lemma merge_gaps_ok:
  assumes "blocks_sorted g v" "0 < g" "length t = length v" "small v"
  shows "\<exists>w. merge_gaps (length v) v t g = Inr w \<and> mset w = mset v \<and> sorted w"
  using assms
proof (induction "length v - g" arbitrary: v t g rule: less_induct)
  case less
  show ?case
  proof (cases "g < length v")
    case True
    have "pass_inv g 0 v" using less.prems(1) by (simp add: pass_inv_def blocks_sorted_def)
    from merge_pass_ok [OF this less.prems(2) True less.prems(3,4)] obtain w t' where
      w: "merge_pass g (length v) v t 0 = Inr (w, t')" "mset w = mset v" "length t' = length v" "blocks_sorted (2 * g) w" by blast
    have lw: "length w = length v" using mset_eq_length [OF w(2)] .
    have ii: "in_int (int g * 2)" using True less.prems(4) by (auto simp: in_int_def INT_MAX_def INT_MIN_def)
    have "length w - 2 * g < length v - g" using lw True less.prems(2) by arith
    from less.hyps [OF this w(4)] less.prems lw w(3) obtain u where
      u: "merge_gaps (length v) w t' (2 * g) = Inr u" "mset u = mset w" "sorted u" by auto
    have e: "nat (int g * 2) = 2 * g" by (simp add: nat_mult_distrib)
    have "merge_gaps (length v) v t g = Inr u"
      using True less.prems(2) w(1) ii u(1) by (subst merge_gaps.simps) (simp add: e)
    then show ?thesis using u w(2) by simp
  next
    case False
    have "sorted (segm v (0 * g) (0 * g + g))" using less.prems(1) unfolding blocks_sorted_def by blast
    then have "sorted v" using False by (simp add: segm_def)
    then show ?thesis using False by (subst merge_gaps.simps) simp
  qed
qed

lemma blocks_sorted_1: "blocks_sorted 1 v"
proof -
  have "length (segm v a (a + 1)) < 2" for a by (simp add: segm_def)
  then show ?thesis unfolding blocks_sorted_def using short_sorted by simp
qed

interpretation merge_up: sorting MergeSort2 small
proof
  fix xs :: "int list" assume "small xs"
  then show "\<exists>ys. MergeSort2 xs = Inr ys \<and> mset ys = mset xs \<and> sorted ys"
    using merge_gaps_ok [OF blocks_sorted_1, of xs xs] by (auto simp: MergeSort2_def short_sorted)
qed

section \<open>Property\<close>

text \<open>
  Both merge sorts return the sorted permutation of every vector of at most \<open>2^30\<close> elements,
  with no access outside \<open>nums\<close> and \<open>tmpArr\<close> and no overflow of the index sums.
\<close>

theorem merge_sorts_sort:
  assumes "length nums \<le> 2 ^ 30"
  shows "MergeSort nums = Inr (sort nums) \<and> MergeSort2 nums = Inr (sort nums)"
proof -
  have "small nums" using assms by (simp add: INT_MAX_def)
  then show ?thesis by (simp add: merge.srt_eq merge_up.srt_eq)
qed

theorem merge_sorts_sort_witness:
  "MergeSort [3, 1, 2] = Inr (sort [3, 1, 2]) \<and> MergeSort2 [3, 1, 2] = Inr (sort [3, 1, 2])"
  by (rule merge_sorts_sort) simp

end
