(* ===== verification/Sort_Quick.thy ===== *)
theory Sort_Quick
  imports Sort_Spec
begin

text \<open>
  The quick sorts of sort.cpp: first element or random element as the pivot, recursive or with an
  explicit stack. Ranges are closed intervals \<open>[lo, hi]\<close>; where the code passes \<open>i-1\<close> for \<open>i = 0\<close>
  (an empty range up to -1), the model passes 0, and both return at once since \<open>lo >= hi\<close>.
\<close>

section \<open>Definitions\<close>

text \<open>\<open>while(i<j && nums[j]>=pivot) j--\<close> and \<open>while(i<j && nums[i]<=pivot) i++\<close>.\<close>

fun scan_down :: "int list \<Rightarrow> int \<Rightarrow> nat \<Rightarrow> nat \<Rightarrow> nat res" where
  "scan_down nums pivot i 0 = Inr 0"
| "scan_down nums pivot i (Suc j) =
     (if i < Suc j
      then bind_res (vget nums (Suc j)) (\<lambda>x. if x \<ge> pivot then scan_down nums pivot i j else Inr (Suc j))
      else Inr (Suc j))"

function scan_up :: "int list \<Rightarrow> int \<Rightarrow> nat \<Rightarrow> nat \<Rightarrow> nat res" where
  "scan_up nums pivot i j =
     (if i < j
      then bind_res (vget nums i) (\<lambda>x. if x \<le> pivot then scan_up nums pivot (i + 1) j else Inr i)
      else Inr i)"
  by pat_completeness auto
termination
  by (relation "measure (\<lambda>(nums, pivot, i, j). j - i)") auto

declare scan_up.simps [simp del]

lemma scan_down_le: "scan_down nums pivot i j = Inr r \<Longrightarrow> i \<le> j \<Longrightarrow> i \<le> r \<and> r \<le> j"
  by (induction j) (auto simp: res_simps split: if_splits)

lemma scan_down_stop:
  "scan_down nums pivot i j = Inr r \<Longrightarrow> i \<le> j \<Longrightarrow> i < r \<Longrightarrow> r < length nums \<and> nums ! r < pivot"
  by (induction j) (auto simp: res_simps split: if_splits)

lemma scan_up_le: "scan_up nums pivot i j = Inr r \<Longrightarrow> i \<le> j \<Longrightarrow> i \<le> r \<and> r \<le> j"
proof (induction "j - i" arbitrary: i)
  case (Suc n)
  from Suc.prems Suc.hyps(2) show ?case
    by (subst (asm) scan_up.simps) (fastforce simp: res_simps split: if_splits dest: Suc.hyps(1) [rotated])
qed (simp add: scan_up.simps)

lemma scan_up_stop: "scan_up nums pivot i j = Inr r \<Longrightarrow> r < j \<Longrightarrow> r < length nums \<and> pivot < nums ! r"
proof (induction "j - i" arbitrary: i)
  case (Suc n)
  from Suc.prems Suc.hyps(2) show ?case
    by (subst (asm) scan_up.simps) (fastforce simp: res_simps split: if_splits dest: Suc.hyps(1) [rotated])
qed (simp add: scan_up.simps)

text \<open>The loop \<open>while(i<j)\<close> of the partition.\<close>

function part_loop :: "int list \<Rightarrow> int \<Rightarrow> nat \<Rightarrow> nat \<Rightarrow> (int list \<times> nat) res" where
  "part_loop nums pivot i j =
     (if i < j
      then bind_res (scan_down nums pivot i j) (\<lambda>j'.
           bind_res (scan_up nums pivot i j') (\<lambda>i'.
           if i' < j' then bind_res (vswap nums i' j') (\<lambda>nums'. part_loop nums' pivot i' j')
           else part_loop nums pivot i' j'))
      else Inr (nums, i))"
  by pat_completeness auto
termination
proof (relation "measure (\<lambda>(nums, pivot, i, j). 2 * (j - i) + (if nums ! j < pivot then 1 else 0))", goal_cases)
  case (2 nums pivot i j j' i' nums')
  then have le: "i \<le> j'" "j' \<le> j" "i \<le> i'" "i' \<le> j'" using scan_down_le scan_up_le by (meson less_imp_le)+
  have i': "i' < length nums" "pivot < nums ! i'" using scan_up_stop 2 by blast+
  have j': "j' < length nums" "nums ! j' < pivot" using scan_down_stop 2 le by (meson le_less_trans less_imp_le)+
  have "nums' ! j' = nums ! i'" using 2 i' j' by (auto simp: swap_at_def)
  then show ?case using le i' j' 2 by (cases "j' = j") auto
next
  case (3 nums pivot i j j' i')
  then have "i \<le> j'" "j' \<le> j" "i \<le> i'" "i' \<le> j'" using scan_down_le scan_up_le by (meson less_imp_le)+
  then show ?case using 3 by auto
qed simp

declare part_loop.simps [simp del]

text \<open>One partition with the pivot at \<open>lo\<close>: the loop, then the pivot goes to its place.\<close>

definition partition_at :: "int list \<Rightarrow> nat \<Rightarrow> nat \<Rightarrow> (int list \<times> nat) res" where
  "partition_at nums lo hi =
     bind_res (vget nums lo) (\<lambda>pivot.
     bind_res (part_loop nums pivot lo hi) (\<lambda>(nums', i).
     bind_res (vswap nums' i lo) (\<lambda>nums''. Inr (nums'', i))))"

lemma part_loop_le: "part_loop nums pivot i j = Inr r \<Longrightarrow> i \<le> j \<Longrightarrow> i \<le> snd r \<and> snd r \<le> j"
proof (induction nums pivot i j rule: part_loop.induct)
  case (1 nums pivot i j)
  show ?case
  proof (cases "i < j")
    case True
    with "1.prems"(1) obtain j' i' where s: "scan_down nums pivot i j = Inr j'" "scan_up nums pivot i j' = Inr i'"
      by (subst (asm) part_loop.simps) (auto simp: res_simps)
    have le: "i \<le> j'" "j' \<le> j" "i \<le> i'" "i' \<le> j'" using scan_down_le [OF s(1)] scan_up_le [OF s(2)] True by auto
    show ?thesis
    proof (cases "i' < j'")
      case lt: True
      with "1.prems"(1) s True obtain w where w: "vswap nums i' j' = Inr w" "part_loop w pivot i' j' = Inr r"
        by (subst (asm) part_loop.simps) (auto simp: res_simps)
      from "1.IH"(1) [OF True s lt w] le show ?thesis by auto
    next
      case ge: False
      with "1.prems"(1) s True have "part_loop nums pivot i' j' = Inr r" by (subst (asm) part_loop.simps) simp
      from "1.IH"(2) [OF True s ge this] le show ?thesis by auto
    qed
  qed (use "1.prems" in \<open>auto simp: part_loop.simps\<close>)
qed

lemma partition_at_le: "partition_at nums lo hi = Inr r \<Longrightarrow> lo \<le> hi \<Longrightarrow> lo \<le> snd r \<and> snd r \<le> hi"
  by (auto simp: partition_at_def res_simps dest!: part_loop_le)

function QuickSort_Head :: "int list \<Rightarrow> nat \<Rightarrow> nat \<Rightarrow> int list res" where
  "QuickSort_Head nums lo hi =
     (if lo \<ge> hi then Inr nums
      else bind_res (partition_at nums lo hi) (\<lambda>r.
           bind_res (QuickSort_Head (fst r) lo (snd r - 1)) (\<lambda>nums1.
           QuickSort_Head nums1 (snd r + 1) hi)))"
  by pat_completeness auto
termination
  by (relation "measure (\<lambda>(nums, lo, hi). hi - lo)") (auto dest!: partition_at_le)

text \<open>\<open>rnd k\<close> is the \<open>k\<close>-th value of \<open>rand()\<close>, which is not negative.\<close>

function QuickSort_Random :: "(nat \<Rightarrow> nat) \<Rightarrow> nat \<Rightarrow> int list \<Rightarrow> nat \<Rightarrow> nat \<Rightarrow> (int list \<times> nat) res" where
  "QuickSort_Random rnd k nums lo hi =
     (if lo \<ge> hi then Inr (nums, k)
      else let randomIdx = lo + rnd k mod (hi - lo + 1)
           in bind_res (vswap nums lo randomIdx) (\<lambda>nums0.
              bind_res (partition_at nums0 lo hi) (\<lambda>r.
              bind_res (QuickSort_Random rnd (Suc k) (fst r) lo (snd r - 1)) (\<lambda>q.
              QuickSort_Random rnd (snd q) (fst q) (snd r + 1) hi))))"
  by pat_completeness auto
termination
  by (relation "measure (\<lambda>(rnd, k, nums, lo, hi). hi - lo)") (auto dest!: partition_at_le)

definition QuickSort :: "(nat \<Rightarrow> nat) \<Rightarrow> int list \<Rightarrow> int list res" where
  "QuickSort rnd nums =
     (if length nums < 2 then Inr nums
      else bind_res (QuickSort_Random rnd 0 nums 0 (length nums - 1)) (\<lambda>q. Inr (fst q)))"

text \<open>The stack of \<open>QuickSort2\<close>, top first; \<open>top\<close> and \<open>pop\<close> on an empty stack are undefined.\<close>

fun stack_weight :: "nat list \<Rightarrow> nat" where
  "stack_weight (hi # lo # sta) = 2 * (hi - lo) + 1 + stack_weight sta"
| "stack_weight sta = length sta"

function quick2_loop :: "int list \<Rightarrow> nat list \<Rightarrow> int list res" where
  "quick2_loop nums [] = Inr nums"
| "quick2_loop nums [hi] = Inl Out_Of_Bounds"
| "quick2_loop nums (hi # lo # sta) =
     (if lo \<ge> hi then quick2_loop nums sta
      else bind_res (partition_at nums lo hi) (\<lambda>r.
           quick2_loop (fst r) (hi # (snd r + 1) # (snd r - 1) # lo # sta)))"
  by pat_completeness auto
termination
  by (relation "measure (\<lambda>(nums, sta). stack_weight sta)") (auto dest!: partition_at_le)

definition QuickSort2 :: "int list \<Rightarrow> int list res" where
  "QuickSort2 nums = (if length nums < 2 then Inr nums else quick2_loop nums [length nums - 1, 0])"

declare QuickSort_Head.simps [simp del] QuickSort_Random.simps [simp del] quick2_loop.simps [simp del]

section \<open>The partition\<close>

lemma scan_down_ok:
  "i \<le> j \<Longrightarrow> j < length v \<Longrightarrow> \<exists>r. scan_down v pivot i j = Inr r \<and> (\<forall>k. r < k \<and> k \<le> j \<longrightarrow> pivot \<le> v ! k)"
  by (induction j) (auto simp: le_Suc_eq)

lemma scan_up_ok:
  "i \<le> j \<Longrightarrow> j < length v \<Longrightarrow> \<exists>r. scan_up v pivot i j = Inr r \<and> (\<forall>k. i \<le> k \<and> k < r \<longrightarrow> v ! k \<le> pivot)"
proof (induction "j - i" arbitrary: i)
  case (Suc n)
  then have i: "i < j" "i < length v" by auto
  show ?case
  proof (cases "v ! i \<le> pivot")
    case True
    have "n = j - Suc i" "Suc i \<le> j" using Suc.hyps(2) i by auto
    then obtain r where
      r: "scan_up v pivot (Suc i) j = Inr r" "\<forall>k. Suc i \<le> k \<and> k < r \<longrightarrow> v ! k \<le> pivot"
      using Suc.hyps(1) Suc.prems(2) by blast
    have "v ! k \<le> pivot" if "i \<le> k" "k < r" for k using that True r(2) by (cases "k = i") auto
    then show ?thesis using True i r(1) by (subst scan_up.simps) simp
  next
    case False
    then show ?thesis using i by (subst scan_up.simps) simp
  qed
qed (simp add: scan_up.simps)

lemma part_loop_ok:
  assumes "lo \<le> i" "i \<le> j" "j \<le> hi" "hi < length v" "v ! lo = pivot"
    and "\<forall>k. lo \<le> k \<and> k \<le> i \<longrightarrow> v ! k \<le> pivot" and "\<forall>k. j < k \<and> k \<le> hi \<longrightarrow> pivot \<le> v ! k"
  shows "\<exists>w r. part_loop v pivot i j = Inr (w, r) \<and> perm_within lo hi v w \<and> w ! lo = pivot \<and> lo \<le> r \<and> r \<le> hi \<and>
    (\<forall>k. lo \<le> k \<and> k \<le> r \<longrightarrow> w ! k \<le> pivot) \<and> (\<forall>k. r < k \<and> k \<le> hi \<longrightarrow> pivot \<le> w ! k)"
  using assms
proof (induction v pivot i j rule: part_loop.induct)
  case (1 v pivot i j)
  note pre = "1.prems"
  show ?case
  proof (cases "i < j")
    case True
    obtain j' where j': "scan_down v pivot i j = Inr j'" "\<forall>k. j' < k \<and> k \<le> j \<longrightarrow> pivot \<le> v ! k"
      using scan_down_ok [of i j v pivot] pre by auto
    have lj: "i \<le> j'" "j' \<le> j" using scan_down_le [OF j'(1)] pre by auto
    obtain i' where i': "scan_up v pivot i j' = Inr i'" "\<forall>k. i \<le> k \<and> k < i' \<longrightarrow> v ! k \<le> pivot"
      using scan_up_ok [of i j' v pivot] lj pre by auto
    have li: "i \<le> i'" "i' \<le> j'" using scan_up_le [OF i'(1)] lj by auto
    have low: "v ! k \<le> pivot" if "lo \<le> k" "k < i'" for k using pre(6) i'(2) that by (cases "k \<le> i") auto
    have high: "pivot \<le> v ! k" if "j' < k" "k \<le> hi" for k using pre(7) j'(2) that by (cases "k \<le> j") auto
    show ?thesis
    proof (cases "i' < j'")
      case lt: True
      have gi: "pivot < v ! i'" using scan_up_stop [OF i'(1) lt] by simp
      have lj': "v ! j' < pivot" using scan_down_stop [OF j'(1)] pre li lt by auto
      let ?w = "swap_at v i' j'"
      have b: "i' < length v" "j' < length v" using lt lj pre by auto
      have w: "?w ! i' = v ! j'" "?w ! j' = v ! i'" "\<And>k. k \<noteq> i' \<Longrightarrow> k \<noteq> j' \<Longrightarrow> ?w ! k = v ! k"
        using b lt by (auto simp: swap_at_def)
      have "lo \<noteq> i'" using gi pre(5) by auto
      then have wl: "?w ! lo = pivot" using w(3) [of lo] pre li lt by auto
      have "?w ! k \<le> pivot" if "lo \<le> k" "k \<le> i'" for k using low [of k] w lj' lt that by (cases "k = i'") auto
      then have "\<forall>k. lo \<le> k \<and> k \<le> i' \<longrightarrow> ?w ! k \<le> pivot" by blast
      moreover have "\<forall>k. j' < k \<and> k \<le> hi \<longrightarrow> pivot \<le> ?w ! k" using high w lt by auto
      moreover have "lo \<le> i'" "i' \<le> j'" "j' \<le> hi" "hi < length ?w" using pre li lj by auto
      moreover have sw: "vswap v i' j' = Inr ?w" using b by simp
      ultimately obtain u r where u: "part_loop ?w pivot i' j' = Inr (u, r)" "perm_within lo hi ?w u" "u ! lo = pivot"
          "lo \<le> r" "r \<le> hi" "\<forall>k. lo \<le> k \<and> k \<le> r \<longrightarrow> u ! k \<le> pivot" "\<forall>k. r < k \<and> k \<le> hi \<longrightarrow> pivot \<le> u ! k"
        using "1.IH"(1) [OF True j'(1) i'(1) lt sw] wl by blast
      have "perm_within lo hi v ?w" using pre li lj by (intro perm_within_swap) auto
      then have "perm_within lo hi v u" using u(2) perm_within_trans by blast
      moreover have "part_loop v pivot i j = Inr (u, r)" using True j'(1) i'(1) lt b u(1) by (subst part_loop.simps) simp
      ultimately show ?thesis using u by blast
    next
      case False
      then have e: "i' = j'" using li by simp
      have "v ! j' \<le> pivot"
      proof (cases "i = j'")
        case True
        then show ?thesis using pre(1,6) by simp
      next
        case False
        then show ?thesis using scan_down_stop [OF j'(1)] lj pre(2) by simp
      qed
      then have "v ! k \<le> pivot" if "lo \<le> k" "k \<le> i'" for k using low [of k] e that by (cases "k = i'") auto
      then have "\<forall>k. lo \<le> k \<and> k \<le> i' \<longrightarrow> v ! k \<le> pivot" by blast
      moreover have "\<forall>k. j' < k \<and> k \<le> hi \<longrightarrow> pivot \<le> v ! k" using high by blast
      moreover have "lo \<le> i'" "j' \<le> hi" using pre li lj by auto
      ultimately have "\<exists>w r. part_loop v pivot i' j' = Inr (w, r) \<and> perm_within lo hi v w \<and> w ! lo = pivot \<and> lo \<le> r \<and> r \<le> hi \<and>
        (\<forall>k. lo \<le> k \<and> k \<le> r \<longrightarrow> w ! k \<le> pivot) \<and> (\<forall>k. r < k \<and> k \<le> hi \<longrightarrow> pivot \<le> w ! k)"
        using "1.IH"(2) [OF True j'(1) i'(1) False] li pre(4,5) by blast
      then show ?thesis using True j'(1) i'(1) False by (subst part_loop.simps) simp
    qed
  next
    case False
    then have "i = j" using pre by simp
    then show ?thesis using pre False perm_within_refl by (subst part_loop.simps) auto
  qed
qed

lemma partition_at_ok:
  assumes "lo < hi" "hi < length v"
  shows "\<exists>w i. partition_at v lo hi = Inr (w, i) \<and> lo \<le> i \<and> i \<le> hi \<and> perm_within lo hi v w \<and>
    (\<forall>k. lo \<le> k \<and> k < i \<longrightarrow> w ! k \<le> w ! i) \<and> (\<forall>k. i < k \<and> k \<le> hi \<longrightarrow> w ! i \<le> w ! k)"
proof -
  have "\<exists>w r. part_loop v (v ! lo) lo hi = Inr (w, r) \<and> perm_within lo hi v w \<and> w ! lo = v ! lo \<and> lo \<le> r \<and> r \<le> hi \<and>
    (\<forall>k. lo \<le> k \<and> k \<le> r \<longrightarrow> w ! k \<le> v ! lo) \<and> (\<forall>k. r < k \<and> k \<le> hi \<longrightarrow> v ! lo \<le> w ! k)"
    using assms by (intro part_loop_ok) auto
  then obtain w r where w: "part_loop v (v ! lo) lo hi = Inr (w, r)" "perm_within lo hi v w" "w ! lo = v ! lo" "lo \<le> r" "r \<le> hi"
    "\<forall>k. lo \<le> k \<and> k \<le> r \<longrightarrow> w ! k \<le> v ! lo" "\<forall>k. r < k \<and> k \<le> hi \<longrightarrow> v ! lo \<le> w ! k" by blast
  have len: "length w = length v" using perm_within_length [OF w(2)] .
  let ?u = "swap_at w r lo"
  have n: "?u ! k = (if k = r then v ! lo else if k = lo then w ! r else w ! k)" if "k < length v" for k
    using nth_swap_at [of r w lo k] that w(3-5) assms len by auto
  have "perm_within lo hi w ?u" using w(4,5) assms len by (intro perm_within_swap) auto
  then have "perm_within lo hi v ?u" using w(2) perm_within_trans by blast
  moreover have "?u ! k \<le> ?u ! r" if "lo \<le> k" "k < r" for k
    using n [of k] n [of r] w(4,5,6) that assms by auto
  moreover have "?u ! r \<le> ?u ! k" if "r < k" "k \<le> hi" for k
    using n [of k] n [of r] w(4,5,7) that assms by auto
  moreover have "partition_at v lo hi = Inr (?u, r)" using w(1,4,5) len assms by (simp add: partition_at_def)
  ultimately show ?thesis using w(4,5) by blast
qed

section \<open>The recursive versions\<close>

definition ordered_in :: "nat \<Rightarrow> nat \<Rightarrow> int list \<Rightarrow> bool" where
  "ordered_in lo hi v \<longleftrightarrow> (\<forall>a b. lo \<le> a \<and> a < b \<and> b \<le> hi \<longrightarrow> v ! a \<le> v ! b)"

text \<open>Sorting the two sides of a partition sorts the range.\<close>

lemma sides_sorted:
  assumes len: "hi < length v" and i: "lo \<le> i" "i \<le> hi"
    and left: "\<forall>k. lo \<le> k \<and> k < i \<longrightarrow> v ! k \<le> v ! i" and right: "\<forall>k. i < k \<and> k \<le> hi \<longrightarrow> v ! i \<le> v ! k"
    and p: "v1 = v \<or> lo < i \<and> perm_within lo (i - 1) v v1" and s: "ordered_in lo (i - 1) v1"
    and p2: "v2 = v1 \<or> i < hi \<and> perm_within (i + 1) hi v1 v2" and s2: "ordered_in (i + 1) hi v2"
  shows "perm_within lo hi v v2 \<and> ordered_in lo hi v2"
proof -
  have w1: "perm_within lo hi v v1" using p len i perm_within_mono [of lo "i - 1" v v1 lo hi] perm_within_refl by auto
  have l1: "length v1 = length v" using perm_within_length [OF w1] .
  have w2: "perm_within lo hi v1 v2" using p2 len l1 i perm_within_mono [of "i + 1" hi v1 v2 lo hi] perm_within_refl by auto
  have l2: "length v2 = length v" using perm_within_length [OF w2] l1 by simp
  have at: "v1 ! i = v ! i" using p perm_within_out [of lo "i - 1" v v1 i] len i by auto
  have same: "v2 ! k = v1 ! k" if "k \<le> i" for k
    using p2 perm_within_out [of "i + 1" hi v1 v2 k] that len l1 i by auto
  have same1: "v1 ! k = v ! k" if "i \<le> k" "k \<le> hi" for k
    using p perm_within_out [of lo "i - 1" v v1 k] that len i by auto
  have lo1: "v1 ! k \<le> v ! i" if "lo \<le> k" "k < i" for k
  proof -
    have k: "k \<le> i - 1" "i - 1 < i" using that by arith+
    show ?thesis
    proof (cases "v1 = v")
      case False
      then have "perm_within lo (i - 1) v v1" using p by simp
      from perm_within_in [OF this that(1) k(1)] obtain k' where k': "lo \<le> k'" "k' \<le> i - 1" "v1 ! k = v ! k'" by blast
      then have "k' < i" using k(2) by simp
      then show ?thesis using left k' by simp
    qed (use left that in simp)
  qed
  have hi2: "v ! i \<le> v2 ! k" if "i < k" "k \<le> hi" for k
  proof -
    have "i + 1 \<le> k" using that by simp
    show ?thesis
    proof (cases "v2 = v1")
      case False
      then have "perm_within (i + 1) hi v1 v2" using p2 by simp
      from perm_within_in [OF this \<open>i + 1 \<le> k\<close> that(2)] obtain k' where
        "i + 1 \<le> k'" "k' \<le> hi" "v2 ! k = v1 ! k'" by blast
      then show ?thesis using right same1 [of k'] by simp
    qed (use right same1 [of k] that in simp)
  qed
  have "v2 ! a \<le> v2 ! b" if ab: "lo \<le> a" "a < b" "b \<le> hi" for a b
  proof -
    consider "b < i" | "b = i" | "a < i" "i < b" | "a = i" | "i < a" using ab by linarith
    then show ?thesis
    proof cases
      case 1
      then have "b \<le> i - 1" by arith
      then have "v1 ! a \<le> v1 ! b" using s ab unfolding ordered_in_def by blast
      then show ?thesis using same 1 ab by auto
    next
      case 2
      then show ?thesis using lo1 [of a] same [of a] same [of i] at ab by auto
    next
      case 3
      then show ?thesis using lo1 [of a] hi2 [of b] same [of a] ab by auto
    next
      case 4
      then show ?thesis using hi2 [of b] same [of i] at ab by auto
    next
      case 5
      then show ?thesis using s2 ab unfolding ordered_in_def by auto
    qed
  qed
  then show ?thesis using perm_within_trans [OF w1 w2] by (simp add: ordered_in_def)
qed

lemma QuickSort_Head_ok:
  assumes "hi < length v"
  shows "\<exists>w. QuickSort_Head v lo hi = Inr w \<and> (w = v \<or> lo < hi \<and> perm_within lo hi v w) \<and> ordered_in lo hi w"
  using assms
proof (induction "hi - lo" arbitrary: v lo hi rule: less_induct)
  case less
  show ?case
  proof (cases "lo < hi")
    case True
    obtain w i where w: "partition_at v lo hi = Inr (w, i)" "lo \<le> i" "i \<le> hi" "perm_within lo hi v w"
      "\<forall>k. lo \<le> k \<and> k < i \<longrightarrow> w ! k \<le> w ! i" "\<forall>k. i < k \<and> k \<le> hi \<longrightarrow> w ! i \<le> w ! k"
      using partition_at_ok [OF True less.prems] by blast
    have lw: "length w = length v" using perm_within_length [OF w(4)] .
    have "i - 1 - lo < hi - lo" "i - 1 < length w" using w(2,3) True less.prems lw by arith+
    then obtain w1 where w1: "QuickSort_Head w lo (i - 1) = Inr w1" "w1 = w \<or> lo < i - 1 \<and> perm_within lo (i - 1) w w1" "ordered_in lo (i - 1) w1"
      using less.hyps [of "i - 1" lo w] by blast
    have l1: "length w1 = length w" using w1(2) perm_within_length by auto
    have "hi - (i + 1) < hi - lo" "hi < length w1" using w(2,3) True less.prems lw l1 by arith+
    then obtain w2 where w2: "QuickSort_Head w1 (i + 1) hi = Inr w2" "w2 = w1 \<or> i + 1 < hi \<and> perm_within (i + 1) hi w1 w2" "ordered_in (i + 1) hi w2"
      using less.hyps [of hi "i + 1" w1] by blast
    have "perm_within lo hi w w2 \<and> ordered_in lo hi w2"
      using less.prems lw w1(2) w2(2) by (intro sides_sorted [OF _ w(2,3,5,6) _ w1(3) _ w2(3)]) auto
    moreover have "QuickSort_Head v lo hi = Inr w2" using True w(1) w1(1) w2(1) by (subst QuickSort_Head.simps) simp
    ultimately show ?thesis using True w(4) perm_within_trans by blast
  next
    case False
    then show ?thesis by (subst QuickSort_Head.simps) (auto simp: ordered_in_def)
  qed
qed

lemma QuickSort_Random_ok:
  assumes "hi < length v"
  shows "\<exists>w k'. QuickSort_Random rnd k v lo hi = Inr (w, k') \<and> (w = v \<or> lo < hi \<and> perm_within lo hi v w) \<and> ordered_in lo hi w"
  using assms
proof (induction "hi - lo" arbitrary: v lo hi k rule: less_induct)
  case less
  show ?case
  proof (cases "lo < hi")
    case True
    let ?x = "lo + rnd k mod (hi - lo + 1)"
    let ?v = "swap_at v lo ?x"
    have "rnd k mod (hi - lo + 1) < hi - lo + 1" by simp
    then have x: "?x \<le> hi" using True by arith
    have v: "perm_within lo hi v ?v" using x True less.prems by (intro perm_within_swap) auto
    have lv: "hi < length ?v" using less.prems by simp
    obtain w i where w: "partition_at ?v lo hi = Inr (w, i)" "lo \<le> i" "i \<le> hi" "perm_within lo hi ?v w"
      "\<forall>k. lo \<le> k \<and> k < i \<longrightarrow> w ! k \<le> w ! i" "\<forall>k. i < k \<and> k \<le> hi \<longrightarrow> w ! i \<le> w ! k"
      using partition_at_ok [OF True lv] by blast
    have lw: "length w = length v" using perm_within_length [OF w(4)] by simp
    have "i - 1 - lo < hi - lo" "i - 1 < length w" using w(2,3) True less.prems lw by arith+
    then obtain w1 k1 where w1: "QuickSort_Random rnd (Suc k) w lo (i - 1) = Inr (w1, k1)"
      "w1 = w \<or> lo < i - 1 \<and> perm_within lo (i - 1) w w1" "ordered_in lo (i - 1) w1"
      using less.hyps [of "i - 1" lo w "Suc k"] by blast
    have l1: "length w1 = length w" using w1(2) perm_within_length by auto
    have "hi - (i + 1) < hi - lo" "hi < length w1" using w(2,3) True less.prems lw l1 by arith+
    then obtain w2 k2 where w2: "QuickSort_Random rnd k1 w1 (i + 1) hi = Inr (w2, k2)"
      "w2 = w1 \<or> i + 1 < hi \<and> perm_within (i + 1) hi w1 w2" "ordered_in (i + 1) hi w2"
      using less.hyps [of hi "i + 1" w1 k1] by blast
    have "perm_within lo hi w w2 \<and> ordered_in lo hi w2"
      using less.prems lw w1(2) w2(2) by (intro sides_sorted [OF _ w(2,3,5,6) _ w1(3) _ w2(3)]) auto
    moreover have "vswap v lo ?x = Inr ?v" using x True less.prems by simp
    then have "QuickSort_Random rnd k v lo hi = Inr (w2, k2)" using True w(1) w1(1) w2(1)
      by (subst QuickSort_Random.simps) (simp add: Let_def)
    ultimately show ?thesis using True v w(4) perm_within_trans by blast
  next
    case False
    then show ?thesis by (subst QuickSort_Random.simps) (auto simp: ordered_in_def)
  qed
qed

lemma ordered_in_sorted: "ordered_in 0 (length v - 1) v \<Longrightarrow> sorted v"
  by (auto simp: ordered_in_def sorted_iff_nth_mono_less)

interpretation quick_head: sorting "\<lambda>nums. QuickSort_Head nums 0 (length nums - 1)" "\<lambda>nums. nums \<noteq> []"
proof
  fix xs :: "int list" assume "xs \<noteq> []"
  then obtain w where w: "QuickSort_Head xs 0 (length xs - 1) = Inr w" "w = xs \<or> perm_within 0 (length xs - 1) xs w" "ordered_in 0 (length xs - 1) w"
    using QuickSort_Head_ok [of "length xs - 1" xs 0] by auto
  have "mset w = mset xs" using w(2) perm_within_mset by auto
  with w mset_eq_length [OF this] ordered_in_sorted [of w]
  show "\<exists>ys. QuickSort_Head xs 0 (length xs - 1) = Inr ys \<and> mset ys = mset xs \<and> sorted ys" by simp
qed

lemma QuickSort_sorts: "\<exists>ys. QuickSort rnd xs = Inr ys \<and> mset ys = mset xs \<and> sorted ys"
proof (cases "length xs < 2")
  case False
  then have "length xs - 1 < length xs" by arith
  then obtain w k where w: "QuickSort_Random rnd 0 xs 0 (length xs - 1) = Inr (w, k)" "w = xs \<or> perm_within 0 (length xs - 1) xs w" "ordered_in 0 (length xs - 1) w"
    using QuickSort_Random_ok [of "length xs - 1" xs rnd 0 0] by blast
  have "mset w = mset xs" using w(2) perm_within_mset by auto
  with w False mset_eq_length [OF this] ordered_in_sorted [of w] show ?thesis by (simp add: QuickSort_def)
qed (simp add: QuickSort_def short_sorted)

interpretation quick: sorting "QuickSort rnd" "\<lambda>_. True" for rnd
  by unfold_locales (rule QuickSort_sorts)

section \<open>The version with a stack\<close>

text \<open>
  The ranges on the stack are disjoint, and two positions are out of order only inside one of them.
\<close>

fun ranges :: "nat list \<Rightarrow> (nat \<times> nat) list" where
  "ranges (hi # lo # sta) = (lo, hi) # ranges sta"
| "ranges sta = []"

definition meet :: "nat \<times> nat \<Rightarrow> nat \<Rightarrow> bool" where
  "meet r k \<longleftrightarrow> fst r \<le> k \<and> k \<le> snd r"

definition stack_inv :: "int list \<Rightarrow> nat list \<Rightarrow> bool" where
  "stack_inv v sta \<longleftrightarrow> even (length sta) \<and>
     (\<forall>r\<in>set (ranges sta). fst r < snd r \<longrightarrow> snd r < length v) \<and>
     (\<forall>k. length (filter (\<lambda>r. meet r k) (ranges sta)) \<le> 1) \<and>
     (\<forall>a b. a < b \<and> b < length v \<longrightarrow> v ! a \<le> v ! b \<or> (\<exists>r\<in>set (ranges sta). meet r a \<and> meet r b))"

lemma stack_inv_skip:
  assumes "stack_inv v (hi # lo # sta)" and "hi \<le> lo"
  shows "stack_inv v sta"
proof -
  have "length (filter (\<lambda>r. meet r k) (ranges sta)) \<le> 1" for k
  proof -
    have "length (filter (\<lambda>r. meet r k) (ranges (hi # lo # sta))) \<le> 1" using assms(1) by (simp only: stack_inv_def)
    then show ?thesis by (auto split: if_splits)
  qed
  moreover have "v ! a \<le> v ! b \<or> (\<exists>r\<in>set (ranges sta). meet r a \<and> meet r b)" if "a < b" "b < length v" for a b
  proof -
    have "\<not> (meet (lo, hi) a \<and> meet (lo, hi) b)" using that assms(2) by (auto simp: meet_def)
    then show ?thesis using assms(1) that by (auto simp: stack_inv_def)
  qed
  ultimately show ?thesis using assms(1) by (simp add: stack_inv_def)
qed

lemma stack_inv_split:
  assumes inv: "stack_inv v (hi # lo # sta)" and lt: "lo < hi" and i: "lo \<le> i" "i \<le> hi"
    and p: "perm_within lo hi v w" and left: "\<forall>k. lo \<le> k \<and> k < i \<longrightarrow> w ! k \<le> w ! i"
    and right: "\<forall>k. i < k \<and> k \<le> hi \<longrightarrow> w ! i \<le> w ! k"
  shows "stack_inv w (hi # (i + 1) # (i - 1) # lo # sta)"
proof -
  have hi: "hi < length v" using inv lt by (auto simp: stack_inv_def)
  have len: "length w = length v" using perm_within_length [OF p] .
  have cnt: "length (filter (\<lambda>r. meet r k) ((lo, hi) # ranges sta)) \<le> 1" for k
    using inv by (simp only: stack_inv_def ranges.simps)
  have other: "\<not> meet r k" if "r \<in> set (ranges sta)" "lo \<le> k" "k \<le> hi" for r k
  proof
    assume "meet r k"
    with that(1) have "filter (\<lambda>r. meet r k) (ranges sta) \<noteq> []" by (auto simp: filter_empty_conv)
    then show False using cnt [of k] that by (auto simp: meet_def)
  qed
  have ord: "v ! a \<le> v ! b \<or> meet (lo, hi) a \<and> meet (lo, hi) b \<or> (\<exists>r\<in>set (ranges sta). meet r a \<and> meet r b)"
    if "a < b" "b < length v" for a b using inv that by (auto simp: stack_inv_def)
  let ?S = "(i + 1, hi) # (lo, i - 1) # ranges sta"
  have one: "length (filter (\<lambda>r. meet r k) ?S) \<le> 1" for k
  proof (cases "lo \<le> k \<and> k \<le> hi")
    case True
    then have "filter (\<lambda>r. meet r k) (ranges sta) = []" using other by (auto simp: filter_empty_conv)
    then show ?thesis using i by (auto simp: meet_def)
  next
    case False
    then have "\<not> meet (i + 1, hi) k" "\<not> meet (lo, i - 1) k" using i by (auto simp: meet_def)
    then show ?thesis using cnt [of k] by (auto split: if_splits)
  qed
  have "w ! a \<le> w ! b \<or> (\<exists>r\<in>set ?S. meet r a \<and> meet r b)" if ab: "a < b" "b < length v" for a b
  proof (cases "lo \<le> a \<and> b \<le> hi")
    case True
    consider "b < i" | "b = i" | "a < i" "i < b" | "a = i" | "i < a" using ab by linarith
    then show ?thesis
    proof cases
      case 1
      then have "meet (lo, i - 1) a \<and> meet (lo, i - 1) b" using True ab by (auto simp: meet_def)
      then show ?thesis by auto
    next
      case 3
      then have "w ! a \<le> w ! i" "w ! i \<le> w ! b" using left right True by auto
      then show ?thesis by simp
    next
      case 5
      then have "meet (i + 1, hi) a \<and> meet (i + 1, hi) b" using True ab by (auto simp: meet_def)
      then show ?thesis by auto
    qed (use left right True ab in auto)
  next
    case False
    have val: "\<exists>k'. w ! k = v ! k' \<and> (if lo \<le> k \<and> k \<le> hi then lo \<le> k' \<and> k' \<le> hi else k' = k)" if "k < length v" for k
      using perm_within_in [OF p, of k] perm_within_out [OF p that] by (cases "lo \<le> k \<and> k \<le> hi") auto
    obtain a' where a': "w ! a = v ! a'" "if lo \<le> a \<and> a \<le> hi then lo \<le> a' \<and> a' \<le> hi else a' = a"
      using val [of a] ab by auto
    obtain b' where b': "w ! b = v ! b'" "if lo \<le> b \<and> b \<le> hi then lo \<le> b' \<and> b' \<le> hi else b' = b"
      using val [of b] ab by auto
    have lt': "a' < b'" "b' < length v" using a'(2) b'(2) ab False hi by (auto split: if_splits)
    have notboth: "\<not> (meet (lo, hi) a' \<and> meet (lo, hi) b')" using a'(2) b'(2) ab False by (auto simp: meet_def split: if_splits)
    from ord [OF lt'] notboth consider "v ! a' \<le> v ! b'" | r where "r \<in> set (ranges sta)" "meet r a'" "meet r b'" by blast
    then show ?thesis
    proof cases
      case 1
      then show ?thesis using a'(1) b'(1) by simp
    next
      case 2
      then have "a' = a" "b' = b" using other a'(2) b'(2) by (metis (no_types, lifting))+
      then show ?thesis using 2 by auto
    qed
  qed
  moreover have "fst r < snd r \<longrightarrow> snd r < length v" if "r \<in> set ?S" for r
    using that inv hi i by (auto simp: stack_inv_def)
  ultimately show ?thesis using one inv len by (simp add: stack_inv_def)
qed

lemma quick2_loop_ok:
  assumes "stack_inv v sta"
  shows "\<exists>w. quick2_loop v sta = Inr w \<and> mset w = mset v \<and> sorted w"
  using assms
proof (induction v sta rule: quick2_loop.induct)
  case (1 v)
  then have "sorted v" by (auto simp: stack_inv_def sorted_iff_nth_mono_less)
  then show ?case by (simp add: quick2_loop.simps)
next
  case (2 v hi)
  then show ?case by (simp add: stack_inv_def)
next
  case (3 v hi lo sta)
  show ?case
  proof (cases "lo < hi")
    case True
    have "hi < length v" using "3.prems" True by (auto simp: stack_inv_def)
    from partition_at_ok [OF True this] obtain w i where
      w: "partition_at v lo hi = Inr (w, i)" "lo \<le> i" "i \<le> hi" "perm_within lo hi v w"
        "\<forall>k. lo \<le> k \<and> k < i \<longrightarrow> w ! k \<le> w ! i" "\<forall>k. i < k \<and> k \<le> hi \<longrightarrow> w ! i \<le> w ! k" by blast
    have "stack_inv w (hi # (i + 1) # (i - 1) # lo # sta)" using stack_inv_split [OF "3.prems" True w(2-6)] .
    moreover have "\<not> hi \<le> lo" using True by simp
    ultimately obtain u where "quick2_loop w (hi # (i + 1) # (i - 1) # lo # sta) = Inr u" "mset u = mset w" "sorted u"
      using "3.IH"(2) [OF _ w(1)] by auto
    then show ?thesis using True w(1) perm_within_mset [OF w(4)] by (subst quick2_loop.simps) simp
  next
    case False
    then show ?thesis using "3.IH"(1) stack_inv_skip [OF "3.prems"] by (subst quick2_loop.simps) simp
  qed
qed

interpretation quick_stack: sorting QuickSort2 "\<lambda>_. True"
proof
  fix xs :: "int list"
  show "\<exists>ys. QuickSort2 xs = Inr ys \<and> mset ys = mset xs \<and> sorted ys"
  proof (cases "length xs < 2")
    case False
    then have "stack_inv xs [length xs - 1, 0]" by (auto simp: stack_inv_def meet_def)
    from quick2_loop_ok [OF this] False show ?thesis by (simp add: QuickSort2_def)
  qed (simp add: QuickSort2_def short_sorted)
qed

section \<open>Property\<close>

text \<open>
  Quick sort returns the sorted permutation of every vector with no access outside of it: with
  the first element as the pivot on a non-empty vector, with a random pivot whatever \<open>rand()\<close>
  returns, and with the explicit stack, which is never popped empty.
\<close>

theorem quick_sorts_sort:
  "(nums \<noteq> [] \<longrightarrow> QuickSort_Head nums 0 (length nums - 1) = Inr (sort nums)) \<and>
   QuickSort rnd nums = Inr (sort nums) \<and> QuickSort2 nums = Inr (sort nums)"
  using quick_head.srt_eq [of nums] by (simp add: quick.srt_eq quick_stack.srt_eq)

theorem quick_sorts_sort_witness:
  "QuickSort_Head [3, 1, 2] 0 (length [3, 1, 2 :: int] - 1) = Inr (sort [3, 1, 2])"
  by (rule quick_sorts_sort [THEN conjunct1, rule_format]) simp

end
