(* ===== verification/Sort_Heap.thy ===== *)
theory Sort_Heap
  imports Sort_Spec Heap_Order
begin

text \<open>
  The heap sorts of sort.cpp: \<open>HeapSort\<close> with \<open>Heapify\<close> and \<open>ShiftDown\<close>, and the quadratic
  version that the file calls incorrect.
\<close>

section \<open>Definitions\<close>















section \<open>Building the heap\<close>







section \<open>The quadratic version\<close>




section \<open>Properties\<close>




end
