(* ===== verification/Sort_Count.thy ===== *)
theory Sort_Count
  imports Sort_Spec
begin

text \<open>
  Counting sort, stable and unstable, and radix sort of sort.cpp. The stable counting sort and every
  round of radix sort are the same three loops over different keys: count the keys, add the counts
  up, and place the elements from the last to the first. Counters are naturals: the code only
  increments them or decrements a counter after using it as a position.
\<close>

section \<open>Definitions\<close>

text \<open>The loops that find the least and the greatest element.\<close>

definition min_max :: "int list \<Rightarrow> int \<times> int" where
  "min_max nums =
     foldl (\<lambda>(mn, mx) x. (if x < mn then x else mn, if x > mx then x else mx)) (nums ! 0, nums ! 0) nums"

definition at_index :: "'a list \<Rightarrow> int \<Rightarrow> ('a \<Rightarrow> 'a) \<Rightarrow> 'a list res" where
  "at_index v i f = bind_res (vget_int v i) (\<lambda>x. vset_int v i (f x))"

text \<open>\<open>for(...) counter[key(nums[i])]++\<close>.\<close>

fun count_keys :: "(int \<Rightarrow> int) \<Rightarrow> nat list \<Rightarrow> int list \<Rightarrow> nat list res" where
  "count_keys key counter [] = Inr counter"
| "count_keys key counter (x # xs) = bind_res (at_index counter (key x) Suc) (\<lambda>c. count_keys key c xs)"

text \<open>\<open>for(i=1;i<counter.size();++i) counter[i]+=counter[i-1]\<close>.\<close>

fun add_up :: "nat \<Rightarrow> nat list \<Rightarrow> nat list" where
  "add_up acc [] = []"
| "add_up acc (c # cs) = (acc + c) # add_up (acc + c) cs"

text \<open>\<open>for(i=nums.size()-1;i>=0;--i)\<close>: the list holds the elements from the last to the first.\<close>

fun place :: "(int \<Rightarrow> int) \<Rightarrow> nat list \<Rightarrow> int list \<Rightarrow> int list \<Rightarrow> int list res" where
  "place key counter sortedNums [] = Inr sortedNums"
| "place key counter sortedNums (x # rxs) =
     bind_res (vget_int counter (key x)) (\<lambda>c.
     bind_res (vset_int sortedNums (int c - 1) x) (\<lambda>s.
     bind_res (vset_int counter (key x) (c - 1)) (\<lambda>counter'. place key counter' s rxs)))"

definition counting_pass :: "(int \<Rightarrow> int) \<Rightarrow> nat \<Rightarrow> int list \<Rightarrow> int list \<Rightarrow> int list res" where
  "counting_pass key sz nums sortedNums =
     bind_res (count_keys key (replicate sz 0) nums) (\<lambda>counter.
     place key (add_up 0 counter) sortedNums (rev nums))"

definition CountingSort_Stable :: "int list \<Rightarrow> int list res" where
  "CountingSort_Stable nums =
     (if length nums < 2 then Inr nums
      else let (mn, mx) = min_max nums
           in bind_res (as_int (mx - mn)) (\<lambda>d. bind_res (as_int (d + 1)) (\<lambda>sz.
              counting_pass (\<lambda>x. x - mn) (nat sz) nums (replicate (length nums) 0))))"

text \<open>\<open>while(counter[i]) { nums[idx++] = i+min; counter[i]--; }\<close>.\<close>

fun fill :: "int list \<Rightarrow> nat \<Rightarrow> int \<Rightarrow> nat \<Rightarrow> (int list \<times> nat) res" where
  "fill nums idx x 0 = Inr (nums, idx)"
| "fill nums idx x (Suc n) = bind_res (vset nums idx x) (\<lambda>nums. fill nums (idx + 1) x n)"

fun emit :: "int list \<Rightarrow> nat \<Rightarrow> int \<Rightarrow> nat list \<Rightarrow> int list res" where
  "emit nums idx x [] = Inr nums"
| "emit nums idx x (c # cs) = bind_res (fill nums idx x c) (\<lambda>(nums, idx). emit nums idx (x + 1) cs)"

definition CountingSort_UnStable :: "int list \<Rightarrow> int list res" where
  "CountingSort_UnStable nums =
     (if length nums < 2 then Inr nums
      else let (mn, mx) = min_max nums
           in bind_res (as_int (mx - mn)) (\<lambda>d. bind_res (as_int (d + 1)) (\<lambda>sz.
              bind_res (count_keys (\<lambda>x. x - mn) (replicate (nat sz) 0) nums) (\<lambda>counter.
              emit nums 0 mn counter))))"

text \<open>
  Radix sort: the greatest absolute value, its number of digits, and one counting round per
  digit. \<open>abs\<close> of the least \<open>int\<close> and \<open>base*=10\<close> beyond the greatest are undefined.
\<close>

fun max_abs :: "int \<Rightarrow> int list \<Rightarrow> int res" where
  "max_abs mx [] = Inr mx"
| "max_abs mx (x # xs) = bind_res (as_int \<bar>x\<bar>) (\<lambda>a. max_abs (if a > mx then a else mx) xs)"

function width_of :: "int \<Rightarrow> nat" where
  "width_of mx = (if mx \<le> 0 then 0 else Suc (width_of (mx div 10)))"
  by pat_completeness auto
termination
  by (relation "measure nat") auto

declare width_of.simps [simp del]

definition digit_key :: "int \<Rightarrow> int \<Rightarrow> int" where
  "digit_key base x = c_div (c_mod x base) (c_div base 10) + 9"

fun radix_rounds :: "nat \<Rightarrow> int \<Rightarrow> int list \<Rightarrow> int list \<Rightarrow> int list res" where
  "radix_rounds 0 base nums sortedNums = Inr nums"
| "radix_rounds (Suc w) base nums sortedNums =
     bind_res (counting_pass (digit_key base) 19 nums sortedNums) (\<lambda>s.
     bind_res (as_int (base * 10)) (\<lambda>base'. radix_rounds w base' s nums))"

definition RadixSort :: "int list \<Rightarrow> int list res" where
  "RadixSort nums =
     (if length nums < 2 then Inr nums
      else bind_res (as_int \<bar>nums ! 0\<bar>) (\<lambda>m0.
           bind_res (max_abs m0 nums) (\<lambda>mx.
           radix_rounds (width_of mx) 10 nums (replicate (length nums) 0))))"

section \<open>A counting round is the stable sort by key\<close>

text \<open>The elements grouped by key, keys ascending.\<close>

definition group :: "(int \<Rightarrow> nat) \<Rightarrow> int list \<Rightarrow> nat \<Rightarrow> int list" where
  "group f xs k = filter (\<lambda>x. f x = k) xs"

definition by_key :: "(int \<Rightarrow> nat) \<Rightarrow> int list \<Rightarrow> nat \<Rightarrow> int list" where
  "by_key f xs K = concat (map (group f xs) [0..<K])"

lemma by_key_Suc: "by_key f xs (Suc K) = by_key f xs K @ group f xs K"
  by (simp add: by_key_def)

lemma length_by_key_mono: "k \<le> K \<Longrightarrow> \<exists>ys. by_key f xs K = by_key f xs k @ ys"
proof (induction K rule: dec_induct)
  case (step n)
  then show ?case by (auto simp: by_key_Suc)
qed simp

lemma by_key_nth:
  assumes "k < K" and "q < length (group f xs k)"
  shows "by_key f xs K ! (length (by_key f xs k) + q) = group f xs k ! q"
    and "length (by_key f xs k) + q < length (by_key f xs K)"
proof -
  obtain ys where "by_key f xs K = by_key f xs (Suc k) @ ys" using length_by_key_mono [of "Suc k" K f xs] assms(1) by auto
  then show "by_key f xs K ! (length (by_key f xs k) + q) = group f xs k ! q"
    "length (by_key f xs k) + q < length (by_key f xs K)"
    using assms(2) by (auto simp: by_key_Suc nth_append)
qed

lemma by_key_cover:
  "j < length (by_key f xs K) \<Longrightarrow> \<exists>k q. k < K \<and> q < length (group f xs k) \<and> j = length (by_key f xs k) + q"
proof (induction K)
  case (Suc K)
  show ?case
  proof (cases "j < length (by_key f xs K)")
    case True
    then show ?thesis using Suc.IH less_SucI by blast
  next
    case False
    then have "j - length (by_key f xs K) < length (group f xs K)" using Suc.prems by (simp add: by_key_Suc)
    with False show ?thesis by (intro exI [of _ K] exI [of _ "j - length (by_key f xs K)"]) simp
  qed
qed (simp add: by_key_def)

lemma mset_by_key: "\<forall>x\<in>set xs. f x < K \<Longrightarrow> mset (by_key f xs K) = mset xs"
proof -
  have "mset (by_key f xs K) = mset (filter (\<lambda>x. f x < K) xs)" for K
  proof (induction K)
    case (Suc K)
    have "mset (filter (\<lambda>x. f x < Suc K) xs) = mset (filter (\<lambda>x. f x < K) xs) + mset (group f xs K)"
      by (induction xs) (auto simp: group_def less_Suc_eq)
    then show ?case using Suc by (simp add: by_key_Suc)
  qed (simp add: by_key_def)
  moreover assume "\<forall>x\<in>set xs. f x < K"
  then have "filter (\<lambda>x. f x < K) xs = xs" by (simp add: filter_id_conv)
  ultimately show ?thesis by metis
qed

lemma count_keys_ok:
  assumes "\<forall>x\<in>set xs. key x = int (f x) \<and> f x < length c"
  shows "\<exists>c'. count_keys key c xs = Inr c' \<and> length c' = length c \<and>
    (\<forall>k<length c. c' ! k = c ! k + length (group f xs k))"
  using assms
proof (induction xs arbitrary: c)
  case (Cons x xs)
  let ?c = "c[f x := Suc (c ! f x)]"
  have "at_index c (key x) Suc = Inr ?c" using Cons.prems by (simp add: at_index_def)
  with Cons.IH [of ?c] Cons.prems show ?case by (auto simp: group_def nth_list_update)
qed (simp add: group_def)

lemma add_up_ok: "length (add_up a c) = length c \<and> (\<forall>k<length c. add_up a c ! k = a + sum_list (take (Suc k) c))"
  by (induction c arbitrary: a) (auto simp: nth_Cons split: nat.splits)

lemma length_by_key: "(\<And>k. k < K \<Longrightarrow> c ! k = length (group f xs k)) \<Longrightarrow> K \<le> length c \<Longrightarrow>
    sum_list (take K c) = length (by_key f xs K)"
  by (induction K) (auto simp: by_key_def take_Suc_conv_app_nth)

text \<open>
  The placing loop, with \<open>ps\<close> still to be placed in front of \<open>ss\<close>: each counter is the start of its
  group plus the members among \<open>ps\<close>, and the slots of the members in \<open>ss\<close> are filled.
\<close>

lemma place_ok:
  assumes "xs = ps @ ss" and "\<forall>x\<in>set xs. key x = int (f x) \<and> f x < K" and "length c = K" and "length s = length xs"
    and "\<forall>k<K. c ! k = length (by_key f xs k) + length (group f ps k)"
    and "\<forall>k<K. \<forall>q<length (group f xs k). length (group f ps k) \<le> q \<longrightarrow> s ! (length (by_key f xs k) + q) = group f xs k ! q"
  shows "place key c s (rev ps) = Inr (by_key f xs K)"
  using assms
proof (induction ps arbitrary: c s ss rule: rev_induct)
  case Nil
  have len: "length (by_key f xs K) = length xs"
    using mset_eq_length [OF mset_by_key [of xs f K]] Nil.prems(2) by simp
  have "s = by_key f xs K"
  proof (rule nth_equalityI)
    fix j assume "j < length s"
    then have "j < length (by_key f xs K)" using len Nil.prems(4) by simp
    then obtain k q where "k < K" "q < length (group f xs k)" "j = length (by_key f xs k) + q"
      using by_key_cover by blast
    then show "s ! j = by_key f xs K ! j" using Nil.prems(6) by_key_nth(1) by (simp add: group_def)
  qed (simp add: len Nil.prems(4))
  then show ?case by simp
next
  case (snoc x ps)
  let ?k = "f x" and ?B = "length (by_key f xs (f x))" and ?q = "length (group f ps (f x))"
  have k: "?k < K" "key x = int ?k" using snoc.prems(1,2) by auto
  have g: "group f xs ?k = group f ps ?k @ x # group f ss ?k" using snoc.prems(1) by (simp add: group_def)
  have ck: "c ! ?k = ?B + Suc ?q" using snoc.prems(5) k by (simp add: group_def)
  have pos: "?B + ?q < length (by_key f xs K)" using by_key_nth(2) [OF k(1), of ?q f xs] g by simp
  have len: "length (by_key f xs K) = length xs" using mset_eq_length [OF mset_by_key [of xs f K]] snoc.prems(2) by simp
  let ?c = "c[?k := ?B + ?q]" and ?s = "s[?B + ?q := x]"
  have "place key ?c ?s (rev ps) = Inr (by_key f xs K)"
  proof (rule snoc.IH [of "x # ss"])
    show "xs = ps @ x # ss" using snoc.prems(1) by simp
    show "\<forall>k<K. ?c ! k = length (by_key f xs k) + length (group f ps k)"
    proof (intro allI impI)
      fix k assume "k < K"
      then show "?c ! k = length (by_key f xs k) + length (group f ps k)"
        using snoc.prems(3,5) by (cases "k = f x") (auto simp: group_def)
    qed
    show "\<forall>k<K. \<forall>q<length (group f xs k). length (group f ps k) \<le> q \<longrightarrow> ?s ! (length (by_key f xs k) + q) = group f xs k ! q"
    proof (intro allI impI)
      fix k q assume kq: "k < K" "q < length (group f xs k)" "length (group f ps k) \<le> q"
      have val: "by_key f xs K ! (length (by_key f xs k) + q) = group f xs k ! q" "length (by_key f xs k) + q < length (by_key f xs K)"
        using by_key_nth [OF kq(1,2)] by auto
      show "?s ! (length (by_key f xs k) + q) = group f xs k ! q"
      proof (cases "length (by_key f xs k) + q = ?B + ?q")
        case True
        have "group f xs k ! q = by_key f xs K ! (?B + ?q)" using val True by simp
        also have "\<dots> = group f xs ?k ! ?q" using by_key_nth(1) [OF k(1), of ?q f xs] g by simp
        also have "\<dots> = x" using g by simp
        finally show ?thesis using True pos len snoc.prems(4) by simp
      next
        case False
        have "length (group f (ps @ [x]) k) \<le> q"
          using kq(3) False by (cases "k = ?k") (auto simp: group_def)
        then show ?thesis using False snoc.prems(6) kq by simp
      qed
    qed
  qed (use snoc.prems in auto)
  moreover have "nat (int (c ! ?k) - 1) = ?B + ?q" "c ! ?k - 1 = ?B + ?q" "0 \<le> int (c ! ?k) - 1" using ck by auto
  ultimately show ?case using k pos len snoc.prems(3,4) by simp
qed

lemma counting_pass_ok:
  assumes "\<forall>x\<in>set xs. key x = int (f x) \<and> f x < K" and "length s = length xs"
  shows "counting_pass key K xs s = Inr (by_key f xs K)"
proof -
  obtain c where c: "count_keys key (replicate K 0) xs = Inr c" "length c = K" "\<forall>k<K. c ! k = length (group f xs k)"
    using count_keys_ok [of xs key f "replicate K 0"] assms(1) by auto
  have "place key (add_up 0 c) s (rev xs) = Inr (by_key f xs K)"
  proof (rule place_ok [of xs xs "[]"])
    show "\<forall>k<K. add_up 0 c ! k = length (by_key f xs k) + length (group f xs k)"
      using add_up_ok [of 0 c] length_by_key [of _ c f xs] c(2,3) by (auto simp: by_key_Suc [symmetric] simp flip: length_append)
  qed (use assms add_up_ok [of 0 c] c in auto)
  then show ?thesis using c(1) by (simp add: counting_pass_def)
qed

lemma by_key_sorted_wrt:
  assumes "\<And>k. sorted_wrt P (group f xs k)" and "\<And>x y. x \<in> set xs \<Longrightarrow> y \<in> set xs \<Longrightarrow> f x < f y \<Longrightarrow> P x y"
  shows "sorted_wrt P (by_key f xs K)"
proof (induction K)
  case (Suc K)
  have "f x < K \<and> x \<in> set xs" if "x \<in> set (by_key f xs K)" for x
    using that by (auto simp: by_key_def group_def)
  moreover have "f y = K \<and> y \<in> set xs" if "y \<in> set (group f xs K)" for y using that by (auto simp: group_def)
  ultimately show ?case using Suc assms by (auto simp: by_key_Suc sorted_wrt_append)
qed (simp add: by_key_def)

section \<open>Counting sort\<close>

lemma min_max_ok:
  assumes "xs \<noteq> []" and "min_max xs = (mn, mx)"
  shows "mn \<in> set xs \<and> mx \<in> set xs \<and> (\<forall>x\<in>set xs. mn \<le> x \<and> x \<le> mx)"
proof -
  have "foldl (\<lambda>(mn, mx) x. (if x < mn then x else mn, if x > mx then x else mx)) (a, b) ys = (a', b') \<Longrightarrow>
      a \<le> b \<Longrightarrow> a' \<in> insert a (set ys) \<and> b' \<in> insert b (set ys) \<and> a' \<le> a \<and> b \<le> b' \<and> (\<forall>y\<in>set ys. a' \<le> y \<and> y \<le> b')"
    for a b a' b' :: int and ys
  proof (induction ys arbitrary: a b)
    case (Cons y ys)
    let ?a = "if y < a then y else a" and ?b = "if y > b then y else b"
    have "?a \<le> ?b" using Cons.prems(2) by simp
    moreover have "foldl (\<lambda>(mn, mx) x. (if x < mn then x else mn, if x > mx then x else mx)) (?a, ?b) ys = (a', b')"
      using Cons.prems(1) by simp
    ultimately show ?case using Cons.IH [of ?a ?b] by (auto split: if_splits)
  qed auto
  from this [of "xs ! 0" "xs ! 0" xs mn mx] assms show ?thesis by (auto simp: min_max_def)
qed

definition span_ok :: "int list \<Rightarrow> bool" where
  "span_ok xs \<longleftrightarrow> (\<forall>x\<in>set xs. \<forall>y\<in>set xs. x - y < INT_MAX)"

text \<open>With the offset from the least element as the key, grouping by key is sorting.\<close>

lemma offset_group:
  assumes "\<forall>x\<in>set xs. mn \<le> x"
  shows "group (\<lambda>x. nat (x - mn)) xs k = replicate (length (group (\<lambda>x. nat (x - mn)) xs k)) (mn + int k)"
  using assms by (intro replicate_eqI [symmetric, THEN sym]) (auto simp: group_def)

lemma offset_sorted:
  assumes "\<forall>x\<in>set xs. mn \<le> x \<and> nat (x - mn) < K"
  shows "by_key (\<lambda>x. nat (x - mn)) xs K = sort xs"
proof (rule properties_for_sort [symmetric])
  show "mset (by_key (\<lambda>x. nat (x - mn)) xs K) = mset xs" using assms by (intro mset_by_key) auto
  have "sorted_wrt (\<le>) (group (\<lambda>x. nat (x - mn)) xs k)" for k
    using offset_group [of xs mn k] assms by (metis sorted_replicate)
  then show "sorted (by_key (\<lambda>x. nat (x - mn)) xs K)" using assms by (intro by_key_sorted_wrt) auto
qed

lemma counting_setup:
  assumes "xs \<noteq> []" and "span_ok xs" and "min_max xs = (mn, mx)"
  shows "as_int (mx - mn) = Inr (mx - mn)" and "as_int (mx - mn + 1) = Inr (mx - mn + 1)"
    and "\<forall>x\<in>set xs. x - mn = int (nat (x - mn)) \<and> nat (x - mn) < nat (mx - mn + 1)"
    and "\<forall>x\<in>set xs. mn \<le> x \<and> nat (x - mn) < nat (mx - mn + 1)"
proof -
  note m = min_max_ok [OF assms(1,3)]
  then have "0 \<le> mx - mn" "mx - mn < INT_MAX" using assms(2) by (auto simp: span_ok_def)
  then show "as_int (mx - mn) = Inr (mx - mn)" "as_int (mx - mn + 1) = Inr (mx - mn + 1)"
    by (auto simp: in_int_def INT_MIN_def)
  show "\<forall>x\<in>set xs. x - mn = int (nat (x - mn)) \<and> nat (x - mn) < nat (mx - mn + 1)"
    "\<forall>x\<in>set xs. mn \<le> x \<and> nat (x - mn) < nat (mx - mn + 1)" using m by auto
qed

lemma CountingSort_Stable_sort:
  assumes "span_ok xs"
  shows "CountingSort_Stable xs = Inr (sort xs)"
proof (cases "length xs < 2")
  case True
  then show ?thesis by (simp add: CountingSort_Stable_def sorted_sort_id short_sorted)
next
  case False
  then have ne: "xs \<noteq> []" by auto
  obtain mn mx where m: "min_max xs = (mn, mx)" by (cases "min_max xs")
  note c = counting_setup [OF ne assms m]
  show ?thesis using False m c(1,2) counting_pass_ok [OF c(3), of "replicate (length xs) 0"] offset_sorted [OF c(4)]
    by (simp add: CountingSort_Stable_def)
qed

fun runs :: "int \<Rightarrow> nat list \<Rightarrow> int list" where
  "runs x [] = []"
| "runs x (c # cs) = replicate c x @ runs (x + 1) cs"

lemma length_runs [simp]: "length (runs x cs) = sum_list cs"
  by (induction cs arbitrary: x) auto

lemma runs_concat: "runs x cs = concat (map (\<lambda>k. replicate (cs ! k) (x + int k)) [0..<length cs])"
proof (induction cs arbitrary: x)
  case (Cons c cs)
  have "[0..<length (c # cs)] = 0 # map Suc [0..<length cs]" by (simp add: map_Suc_upt upt_conv_Cons del: upt_Suc)
  then show ?case using Cons [of "x + 1"] by (simp add: comp_def ac_simps del: upt_Suc)
qed simp

lemma fill_ok:
  "idx + n \<le> length v \<Longrightarrow> fill v idx x n = Inr (take idx v @ replicate n x @ drop (idx + n) v, idx + n)"
proof (induction n arbitrary: v idx)
  case (Suc n)
  have "fill (v[idx := x]) (idx + 1) x n =
      Inr (take (idx + 1) (v[idx := x]) @ replicate n x @ drop (idx + 1 + n) (v[idx := x]), idx + 1 + n)"
    using Suc by simp
  also have "take (idx + 1) (v[idx := x]) = take idx v @ [x]" using Suc.prems by (simp add: take_Suc_conv_app_nth)
  finally show ?case using Suc.prems by simp
qed simp

lemma emit_ok:
  "idx + sum_list cs \<le> length v \<Longrightarrow> emit v idx x cs = Inr (take idx v @ runs x cs @ drop (idx + sum_list cs) v)"
proof (induction cs arbitrary: v idx x)
  case (Cons c cs)
  let ?v = "take idx v @ replicate c x @ drop (idx + c) v"
  have "emit ?v (idx + c) (x + 1) cs = Inr (take (idx + c) ?v @ runs (x + 1) cs @ drop (idx + c + sum_list cs) ?v)"
    using Cons.prems by (intro Cons.IH) simp
  moreover have "take (idx + c) ?v = take idx v @ replicate c x" using Cons.prems by simp
  moreover have "drop (idx + c + sum_list cs) ?v = drop (idx + c + sum_list cs) v" using Cons.prems by (simp add: add.commute)
  ultimately show ?case using Cons.prems fill_ok [of idx c v x] by (simp add: add.assoc)
qed simp

lemma CountingSort_UnStable_sort:
  assumes "span_ok xs"
  shows "CountingSort_UnStable xs = Inr (sort xs)"
proof (cases "length xs < 2")
  case True
  then show ?thesis by (simp add: CountingSort_UnStable_def sorted_sort_id short_sorted)
next
  case False
  then have ne: "xs \<noteq> []" by auto
  obtain mn mx where m: "min_max xs = (mn, mx)" by (cases "min_max xs")
  note c = counting_setup [OF ne assms m]
  let ?f = "\<lambda>x. nat (x - mn)" and ?K = "nat (mx - mn + 1)"
  obtain cs where cs: "count_keys (\<lambda>x. x - mn) (replicate ?K 0) xs = Inr cs" "length cs = ?K"
      "\<forall>k<?K. cs ! k = length (group ?f xs k)"
    using count_keys_ok [of xs "\<lambda>x. x - mn" ?f "replicate ?K 0"] c(3) by auto
  have "runs mn cs = by_key ?f xs ?K" unfolding runs_concat by_key_def cs(2)
    using cs(3) offset_group [of xs mn] c(4) by (intro arg_cong [of _ _ concat] map_cong) auto
  then have r: "runs mn cs = sort xs" using offset_sorted [OF c(4)] by simp
  have "sum_list cs = length xs" using arg_cong [OF r, of length] by simp
  then have "emit xs 0 mn cs = Inr (sort xs)" using emit_ok [of 0 cs xs mn] r by simp
  then show ?thesis using False m c(1,2) cs(1) by (simp add: CountingSort_UnStable_def)
qed

interpretation counting: sorting CountingSort_Stable span_ok
  by unfold_locales (simp add: CountingSort_Stable_sort)

interpretation counting_unstable: sorting CountingSort_UnStable span_ok
  by unfold_locales (simp add: CountingSort_UnStable_sort)

section \<open>Radix sort\<close>

text \<open>The number formed by the last \<open>i\<close> digits, with the sign of \<open>x\<close>, and digit \<open>i\<close> with that sign.\<close>

definition low :: "nat \<Rightarrow> int \<Rightarrow> int" where
  "low i x = sgn x * (\<bar>x\<bar> mod 10 ^ i)"

definition digit :: "nat \<Rightarrow> int \<Rightarrow> int" where
  "digit i x = sgn x * ((\<bar>x\<bar> mod 10 ^ Suc i) div 10 ^ i)"

lemma div_below: "0 < B \<Longrightarrow> m < n * B \<Longrightarrow> m div B < (n :: int)"
proof (rule ccontr)
  assume b: "0 < B" "m < n * B" and "\<not> m div B < n"
  then have "n * B \<le> m div B * B" by (intro mult_right_mono) auto
  also have "\<dots> \<le> m" using div_mult_mod_eq [of m B] pos_mod_sign [OF b(1), of m] by linarith
  finally show False using b(2) by simp
qed

lemma c_div_sgn:
  assumes "0 \<le> m" and "0 < B"
  shows "c_div (sgn x * m) B = sgn x * (m div B)"
  using assms by (cases "m = 0"; cases "x = 0") (simp_all add: c_div_def abs_mult sgn_mult)

lemma c_mod_sgn:
  assumes "0 < B"
  shows "c_mod x B = sgn x * (\<bar>x\<bar> mod B)"
proof -
  have "c_mod x B = sgn x * \<bar>x\<bar> - sgn x * (\<bar>x\<bar> div B) * B"
    using assms by (simp add: c_mod_def c_div_def sgn_mult_abs)
  also have "\<dots> = sgn x * (\<bar>x\<bar> - \<bar>x\<bar> div B * B)" by (simp only: right_diff_distrib mult.assoc)
  finally show ?thesis by (simp only: minus_div_mult_eq_mod)
qed

lemma abs_digit: "0 \<le> (\<bar>x\<bar> mod 10 ^ Suc i) div 10 ^ i" "(\<bar>x\<bar> mod 10 ^ Suc i) div 10 ^ i \<le> (9 :: int)"
proof -
  have "\<bar>x\<bar> mod 10 ^ Suc i < (10 :: int) * 10 ^ i" using pos_mod_bound [of "10 ^ Suc i" "\<bar>x\<bar>"] by simp
  then have "(\<bar>x\<bar> mod 10 ^ Suc i) div 10 ^ i < (10 :: int)" by (intro div_below) simp_all
  then show "(\<bar>x\<bar> mod 10 ^ Suc i) div 10 ^ i \<le> (9 :: int)" by simp
qed (simp add: pos_imp_zdiv_nonneg_iff)

lemma digit_range: "-9 \<le> digit i x \<and> digit i x \<le> 9"
  using abs_digit [of x i] by (cases "x = 0"; cases "x < 0") (auto simp: digit_def)

lemma low_Suc: "low (Suc i) x = digit i x * 10 ^ i + low i x"
proof -
  have "\<bar>x\<bar> mod 10 ^ Suc i mod 10 ^ i = \<bar>x\<bar> mod (10 :: int) ^ i" by (simp add: mod_mod_cancel)
  then have "\<bar>x\<bar> mod (10 :: int) ^ Suc i = (\<bar>x\<bar> mod 10 ^ Suc i) div 10 ^ i * 10 ^ i + \<bar>x\<bar> mod 10 ^ i"
    using div_mult_mod_eq [of "\<bar>x\<bar> mod 10 ^ Suc i" "10 ^ i"] by metis
  then have "sgn x * (\<bar>x\<bar> mod (10 :: int) ^ Suc i) = sgn x * ((\<bar>x\<bar> mod 10 ^ Suc i) div 10 ^ i * 10 ^ i + \<bar>x\<bar> mod 10 ^ i)"
    by (rule arg_cong)
  then show ?thesis unfolding low_def digit_def by (simp only: distrib_left mult.assoc)
qed

lemma digit_key_eq: "digit_key (10 ^ Suc i) x = digit i x + 9"
proof -
  have "c_div (10 ^ Suc i) 10 = (10 :: int) ^ i" by simp
  moreover have "c_mod x (10 ^ Suc i) = sgn x * (\<bar>x\<bar> mod 10 ^ Suc i)" by (rule c_mod_sgn) simp
  moreover have "c_div (sgn x * (\<bar>x\<bar> mod 10 ^ Suc i)) (10 ^ i) = sgn x * ((\<bar>x\<bar> mod 10 ^ Suc i) div 10 ^ i)"
    by (rule c_div_sgn) (simp_all only: zero_less_power zero_less_numeral pos_mod_sign)
  ultimately show ?thesis by (simp only: digit_key_def digit_def)
qed

lemma low_bound: "\<bar>low i x\<bar> < 10 ^ i" and low_sign: "0 \<le> sgn x * low i x"
  by (auto simp: low_def abs_mult sgn_if)

lemma digit_less_low:
  assumes "digit i x < digit i y"
  shows "low (Suc i) x \<le> low (Suc i) y"
proof -
  have s: "digit i x < 0 \<longrightarrow> low i x \<le> 0" "digit i y > 0 \<longrightarrow> low i y \<ge> 0"
    using abs_digit [of x i] abs_digit [of y i] by (auto simp: digit_def low_def sgn_if mult_less_0_iff zero_less_mult_iff)
  have s': "digit i x > 0 \<longrightarrow> low i x \<ge> 0" "digit i y < 0 \<longrightarrow> low i y \<le> 0"
    using abs_digit [of x i] abs_digit [of y i] by (auto simp: digit_def low_def sgn_if mult_less_0_iff zero_less_mult_iff)
  have "low i x - low i y \<le> 10 ^ i" using s s' assms low_bound [of i x] low_bound [of i y] by linarith
  moreover have "(10 :: int) ^ i \<le> (digit i y - digit i x) * 10 ^ i" using assms by (simp add: mult_le_cancel_right1)
  ultimately show ?thesis by (simp add: low_Suc algebra_simps)
qed

abbreviation low_le :: "nat \<Rightarrow> int \<Rightarrow> int \<Rightarrow> bool" where
  "low_le i x y \<equiv> low i x \<le> low i y"

lemma radix_round:
  assumes "sorted_wrt (low_le i) xs" and "length s = length xs"
  shows "\<exists>ys. counting_pass (digit_key (10 ^ Suc i)) 19 xs s = Inr ys \<and> mset ys = mset xs \<and> sorted_wrt (low_le (Suc i)) ys"
proof -
  let ?f = "\<lambda>x. nat (digit i x + 9)"
  have k: "\<forall>x\<in>set xs. digit_key (10 ^ Suc i) x = int (?f x) \<and> ?f x < 19"
  proof
    fix x
    show "digit_key (10 ^ Suc i) x = int (?f x) \<and> ?f x < 19"
      unfolding digit_key_eq using digit_range [of i x] by linarith
  qed
  have "sorted_wrt (low_le (Suc i)) (by_key ?f xs 19)"
  proof (rule by_key_sorted_wrt)
    fix k
    have d: "digit i x = digit i y" if "x \<in> set (group ?f xs k)" "y \<in> set (group ?f xs k)" for x y
      using that digit_range [of i x] digit_range [of i y] by (auto simp: group_def)
    have "sorted_wrt (low_le i) (group ?f xs k)" unfolding group_def using assms(1) by (rule sorted_wrt_filter)
    moreover have "low_le (Suc i) x y"
      if "x \<in> set (group ?f xs k)" "y \<in> set (group ?f xs k)" "low_le i x y" for x y
      using d [OF that(1,2)] that(3) by (simp add: low_Suc)
    ultimately show "sorted_wrt (low_le (Suc i)) (group ?f xs k)" by (rule sorted_wrt_mono_rel [rotated])
  next
    fix x y assume "?f x < ?f y"
    then show "low_le (Suc i) x y" using digit_range [of i x] by (intro digit_less_low) auto
  qed
  moreover have "mset (by_key ?f xs 19) = mset xs" using k by (intro mset_by_key) blast
  ultimately show ?thesis using counting_pass_ok [OF k assms(2)] by blast
qed

lemma base_fits:
  assumes "i < 8"
  shows "in_int (10 ^ Suc i * 10)"
proof -
  have "(10 :: int) ^ Suc (Suc i) \<le> 10 ^ 9" using assms by (intro power_increasing) auto
  moreover have "0 \<le> (10 :: int) ^ Suc (Suc i)" by simp
  moreover have "(10 :: int) ^ Suc i * 10 = 10 ^ Suc (Suc i)" by simp
  moreover have "(10 :: int) ^ 9 = 1000000000" by simp
  ultimately have "0 \<le> (10 :: int) ^ Suc i * 10" "(10 :: int) ^ Suc i * 10 \<le> 1000000000" by (simp_all only:)
  then show ?thesis unfolding in_int_def INT_MAX_def INT_MIN_def by linarith
qed

lemma radix_rounds_ok:
  assumes "sorted_wrt (low_le i) xs" and "length s = length xs" and "i + w \<le> 8"
  shows "\<exists>ys. radix_rounds w (10 ^ Suc i) xs s = Inr ys \<and> mset ys = mset xs \<and> sorted_wrt (low_le (i + w)) ys"
  using assms
proof (induction w arbitrary: i xs s)
  case (Suc w)
  obtain ys where y: "counting_pass (digit_key (10 ^ Suc i)) 19 xs s = Inr ys" "mset ys = mset xs" "sorted_wrt (low_le (Suc i)) ys"
    using radix_round [OF Suc.prems(1,2)] by blast
  have "in_int (10 ^ Suc i * 10)" using Suc.prems(3) by (intro base_fits) simp
  then have "radix_rounds (Suc w) (10 ^ Suc i) xs s = radix_rounds w (10 ^ Suc (Suc i)) ys xs"
    using y(1) by (simp add: mult.commute del: power_Suc) (simp add: mult.commute)
  with Suc.IH [OF y(3), of xs] y(2) Suc.prems(3) mset_eq_length [OF y(2)] show ?case by simp
qed simp

lemma radix_rounds_overflow:
  assumes "sorted_wrt (low_le i) xs" and "length s = length xs" and "i \<le> 8" and "9 \<le> i + w"
  shows "radix_rounds w (10 ^ Suc i) xs s = Inl Signed_Overflow"
  using assms
proof (induction w arbitrary: i xs s)
  case (Suc w)
  obtain ys where y: "counting_pass (digit_key (10 ^ Suc i)) 19 xs s = Inr ys" "mset ys = mset xs" "sorted_wrt (low_le (Suc i)) ys"
    using radix_round [OF Suc.prems(1,2)] by blast
  show ?case
  proof (cases "i = 8")
    case True
    then have "\<not> in_int (10 ^ Suc i * 10)" by (simp add: in_int_def INT_MAX_def)
    then show ?thesis using y(1) by (simp add: as_int_def del: power_Suc)
  next
    case False
    have "in_int (10 ^ Suc i * 10)" using Suc.prems(3) False by (intro base_fits) simp
    then have "radix_rounds (Suc w) (10 ^ Suc i) xs s = radix_rounds w (10 ^ Suc (Suc i)) ys xs"
      using y(1) by (simp add: mult.commute del: power_Suc) (simp add: mult.commute)
    with Suc.IH [OF y(3), of xs] Suc.prems(3,4) False mset_eq_length [OF y(2)] show ?thesis by simp
  qed
qed simp

lemma width_of_le: "mx < 10 ^ n \<Longrightarrow> width_of mx \<le> n"
proof (induction n arbitrary: mx)
  case 0
  then show ?case by (subst width_of.simps) simp
next
  case (Suc n)
  have "mx div 10 < 10 ^ n" using Suc.prems by (simp add: div_less_iff_less_mult mult.commute)
  from Suc.IH [OF this] show ?case by (subst width_of.simps) simp
qed

lemma width_of_bound: "mx < 10 ^ width_of mx"
proof (induction mx rule: width_of.induct)
  case (1 mx)
  show ?case
  proof (cases "mx \<le> 0")
    case False
    then have "mx div 10 < 10 ^ width_of (mx div 10)" using "1.IH" by simp
    then have "mx < 10 * 10 ^ width_of (mx div 10)" by (simp add: div_less_iff_less_mult mult.commute)
    then show ?thesis using False by (subst width_of.simps) simp
  qed (simp add: width_of.simps)
qed

lemma max_abs_ok:
  "\<forall>x\<in>set xs. in_int \<bar>x\<bar> \<Longrightarrow> \<exists>mx. max_abs m xs = Inr mx \<and> m \<le> mx \<and> (\<forall>x\<in>set xs. \<bar>x\<bar> \<le> mx) \<and> (mx = m \<or> mx \<in> abs ` set xs)"
proof (induction xs arbitrary: m)
  case (Cons x xs)
  from Cons.IH [of "if \<bar>x\<bar> > m then \<bar>x\<bar> else m"] Cons.prems show ?case
    by (auto split: if_splits)
qed simp

lemma radix_setup:
  assumes "2 \<le> length xs" and "\<forall>x\<in>set xs. in_int \<bar>x\<bar>"
  shows "\<exists>mx\<in>abs ` set xs. (\<forall>x\<in>set xs. \<bar>x\<bar> \<le> mx) \<and>
    RadixSort xs = radix_rounds (width_of mx) (10 ^ Suc 0) xs (replicate (length xs) 0)"
proof -
  have x0: "xs ! 0 \<in> set xs" using assms(1) by (intro nth_mem) linarith
  obtain mx where mx: "max_abs \<bar>xs ! 0\<bar> xs = Inr mx" "\<forall>x\<in>set xs. \<bar>x\<bar> \<le> mx" "mx = \<bar>xs ! 0\<bar> \<or> mx \<in> abs ` set xs"
    using max_abs_ok [OF assms(2)] by blast
  then have "mx \<in> abs ` set xs" using x0 by auto
  moreover have "RadixSort xs = radix_rounds (width_of mx) (10 ^ Suc 0) xs (replicate (length xs) 0)"
    using assms x0 mx(1) by (simp add: RadixSort_def)
  ultimately show ?thesis using mx(2) by blast
qed

lemma low_0: "sorted_wrt (low_le 0) xs"
  by (induction xs) (auto simp: low_def)

lemma RadixSort_sort:
  assumes small: "\<forall>x\<in>set xs. \<bar>x\<bar> < 10 ^ 8"
  shows "RadixSort xs = Inr (sort xs)"
proof (cases "length xs < 2")
  case True
  then show ?thesis by (simp add: RadixSort_def sorted_sort_id short_sorted)
next
  case False
  then have two: "2 \<le> length xs" by simp
  have "\<forall>x\<in>set xs. in_int \<bar>x\<bar>" using small by (auto simp: in_int_def INT_MAX_def INT_MIN_def)
  from radix_setup [OF two this] obtain mx where
    mx: "mx \<in> abs ` set xs" "\<forall>x\<in>set xs. \<bar>x\<bar> \<le> mx" "RadixSort xs = radix_rounds (width_of mx) (10 ^ Suc 0) xs (replicate (length xs) 0)"
    by blast
  have "mx < 10 ^ 8" using mx(1) small by auto
  then have "0 + width_of mx \<le> 8" using width_of_le [of mx 8] by simp
  from radix_rounds_ok [OF low_0 _ this, of "replicate (length xs) 0"] mx(3) obtain ys where
    y: "RadixSort xs = Inr ys" "mset ys = mset xs" "sorted_wrt (low_le (width_of mx)) ys" by auto
  have "low (width_of mx) x = x" if "x \<in> set ys" for x
  proof -
    have "\<bar>x\<bar> < 10 ^ width_of mx" using that mx(2) width_of_bound [of mx] mset_eq_setD [OF y(2)] by fastforce
    then show ?thesis by (simp add: low_def sgn_mult_abs)
  qed
  then have "sorted ys" using y(3) by (auto intro: sorted_wrt_mono_rel [rotated])
  then show ?thesis using y properties_for_sort by metis
qed

interpretation radix: sorting RadixSort "\<lambda>xs. \<forall>x\<in>set xs. \<bar>x\<bar> < 10 ^ 8"
  by unfold_locales (simp add: RadixSort_sort)

section \<open>Properties\<close>

lemma counting_sorts_sort:
  assumes "\<forall>x\<in>set nums. \<forall>y\<in>set nums. x - y < INT_MAX"
  shows "CountingSort_Stable nums = Inr (sort nums) \<and> CountingSort_UnStable nums = Inr (sort nums)"
  using counting.srt_eq [of nums] counting_unstable.srt_eq [of nums] assms by (simp add: span_ok_def)

lemma radix_sort_sorts:
  "((\<forall>x\<in>set nums. \<bar>x\<bar> < 10 ^ 8) \<longrightarrow> RadixSort nums = Inr (sort nums)) \<and>
   (2 \<le> length nums \<and> (\<forall>x\<in>set nums. \<bar>x\<bar> \<le> INT_MAX) \<and> (\<exists>x\<in>set nums. 10 ^ 8 \<le> \<bar>x\<bar>) \<longrightarrow>
    RadixSort nums = Inl Signed_Overflow)"
proof (intro conjI impI)
  show "RadixSort nums = Inr (sort nums)" if "\<forall>x\<in>set nums. \<bar>x\<bar> < 10 ^ 8" using radix.srt_eq [OF that] .
next
  assume h: "2 \<le> length nums \<and> (\<forall>x\<in>set nums. \<bar>x\<bar> \<le> INT_MAX) \<and> (\<exists>x\<in>set nums. 10 ^ 8 \<le> \<bar>x\<bar>)"
  then have two: "2 \<le> length nums" and "\<forall>x\<in>set nums. in_int \<bar>x\<bar>" by (auto simp: in_int_def INT_MIN_def)
  from radix_setup [OF this] obtain mx where mx: "\<forall>x\<in>set nums. \<bar>x\<bar> \<le> mx"
    "RadixSort nums = radix_rounds (width_of mx) (10 ^ Suc 0) nums (replicate (length nums) 0)" by blast
  have "10 ^ 8 \<le> mx" using h mx(1) by (meson order_trans)
  then have "(10 :: int) ^ 8 < 10 ^ width_of mx" using width_of_bound [of mx] by (rule le_less_trans)
  then have "9 \<le> 0 + width_of mx" using power_less_imp_less_exp [of "10 :: int" 8 "width_of mx"] by simp
  then show "RadixSort nums = Inl Signed_Overflow"
    using radix_rounds_overflow [OF low_0 _ _, of "replicate (length nums) 0" nums] mx(2) by simp
qed

text \<open>
  C16. The sorts by distribution. Both counting sorts return the sorted permutation of every vector whose greatest difference is
  less than \<open>INT_MAX\<close>, with every index into \<open>counter\<close>, \<open>nums\<close> and \<open>sortedNums\<close> in range. Radix sort returns it, negative numbers included,
  when every absolute value is below \<open>10^8\<close>; for a vector of at least two numbers with one of nine or more digits (and none
  equal to \<open>INT_MIN\<close>), \<open>base*=10\<close> overflows \<open>int\<close>.
\<close>

theorem distribution_sorts_sort:
  "((\<forall>x\<in>set nums. \<forall>y\<in>set nums. x - y < INT_MAX) \<longrightarrow> CountingSort_Stable nums = Inr (sort nums) \<and> CountingSort_UnStable nums = Inr (sort nums)) \<and>
   ((\<forall>x\<in>set nums. \<bar>x\<bar> < 10 ^ 8) \<longrightarrow> RadixSort nums = Inr (sort nums)) \<and>
   (2 \<le> length nums \<and> (\<forall>x\<in>set nums. \<bar>x\<bar> \<le> INT_MAX) \<and> (\<exists>x\<in>set nums. 10 ^ 8 \<le> \<bar>x\<bar>) \<longrightarrow>
    RadixSort nums = Inl Signed_Overflow)"
  using counting_sorts_sort [of nums] radix_sort_sorts [of nums] by blast

theorem distribution_sorts_sort_witness:
  "CountingSort_Stable [3, -12, 2] = Inr (sort [3, -12, 2]) \<and> CountingSort_UnStable [3, -12, 2] = Inr (sort [3, -12, 2])
   \<and> RadixSort [3, -12, 2] = Inr (sort [3, -12, 2]) \<and> RadixSort [1, 100000000] = Inl Signed_Overflow"
  using distribution_sorts_sort [of "[3, -12, 2]"] distribution_sorts_sort [of "[1, 100000000]"] by (simp add: INT_MAX_def)

end
