(* ===== verification/C_Strings.thy ===== *)
theory C_Strings
  imports Cxx_Strings
begin

text \<open>
  The functions of \<open>string.h\<close> and \<open>stdlib.h\<close> on character arrays, as the web server uses them. An
  array is a list of characters; a pointer into it is an index. A function that would read or
  write outside the array returns \<open>Out_Of_Bounds\<close>; it reads no further than the C function does.
\<close>

definition NUL :: char where
  "NUL = CHR 0x00"

definition CR :: char where "CR = CHR 0x0D"

definition LF :: char where "LF = CHR 0x0A"

section \<open>Reading\<close>

text \<open>The string that starts at \<open>p\<close>; the array must hold its terminator.\<close>

definition cstr :: "char list \<Rightarrow> nat \<Rightarrow> string res" where
  "cstr b p =
     (let s = takeWhile (\<lambda>c. c \<noteq> NUL) (drop p b)
      in if p + length s < length b then Inr s else Inl Out_Of_Bounds)"

definition strlen :: "char list \<Rightarrow> nat \<Rightarrow> nat res" where
  "strlen b p = bind_res (cstr b p) (\<lambda>s. Inr (length s))"

text \<open>\<open>strpbrk\<close> and \<open>strchr\<close> return the index found, \<open>None\<close> for the null pointer.\<close>

definition strpbrk :: "char list \<Rightarrow> nat \<Rightarrow> char list \<Rightarrow> nat option res" where
  "strpbrk b p cs =
     (let q = p + length (takeWhile (\<lambda>c. c \<noteq> NUL \<and> c \<notin> set cs) (drop p b))
      in bind_res (vget b q) (\<lambda>c. Inr (if c = NUL then None else Some q)))"

definition strchr :: "char list \<Rightarrow> nat \<Rightarrow> char \<Rightarrow> nat option res" where
  "strchr b p c = strpbrk b p [c]"

definition strrchr :: "char list \<Rightarrow> nat \<Rightarrow> char \<Rightarrow> nat option res" where
  "strrchr b p c = bind_res (cstr b p) (\<lambda>s. Inr (map_option (\<lambda>i. p + i) (find_last_of s c)))"

definition strspn :: "char list \<Rightarrow> nat \<Rightarrow> char list \<Rightarrow> nat res" where
  "strspn b p cs =
     (let n = length (takeWhile (\<lambda>c. c \<in> set cs) (drop p b))
      in bind_res (vget b (p + n)) (\<lambda>_. Inr n))"

section \<open>Comparing\<close>

definition to_lower :: "char \<Rightarrow> char" where
  "to_lower c =
     (if 65 \<le> (of_char c :: nat) \<and> (of_char c :: nat) \<le> 90 then char_of ((of_char c :: nat) + 32)
      else c)"

text \<open>
  \<open>strcasecmp(p, lit) == 0\<close> and \<open>strncasecmp(p, lit, strlen(lit)) == 0\<close> for a literal without a
  terminator inside.
\<close>

fun strcasecmp_eq :: "char list \<Rightarrow> nat \<Rightarrow> string \<Rightarrow> bool res" where
  "strcasecmp_eq b p [] = bind_res (vget b p) (\<lambda>c. Inr (c = NUL))"
| "strcasecmp_eq b p (x # xs) =
     bind_res (vget b p) (\<lambda>c.
       if to_lower c = to_lower x then strcasecmp_eq b (Suc p) xs else Inr False)"

fun strncasecmp_eq :: "char list \<Rightarrow> nat \<Rightarrow> string \<Rightarrow> bool res" where
  "strncasecmp_eq b p [] = Inr True"
| "strncasecmp_eq b p (x # xs) =
     bind_res (vget b p) (\<lambda>c.
       if to_lower c = to_lower x then strncasecmp_eq b (Suc p) xs else Inr False)"

section \<open>Writing\<close>

definition strcpy :: "char list \<Rightarrow> nat \<Rightarrow> string \<Rightarrow> char list res" where
  "strcpy b p s = vcopy b p (s @ [NUL])"

definition strcat :: "char list \<Rightarrow> nat \<Rightarrow> string \<Rightarrow> char list res" where
  "strcat b p s = bind_res (strlen b p) (\<lambda>n. strcpy b (p + n) s)"

text \<open>\<open>strncpy\<close> copies at most \<open>n\<close> characters and fills the rest of the \<open>n\<close> with terminators.\<close>

definition strncpy :: "char list \<Rightarrow> nat \<Rightarrow> string \<Rightarrow> nat \<Rightarrow> char list res" where
  "strncpy b p s n = vcopy b p (take n s @ replicate (n - length s) NUL)"

section \<open>Numbers\<close>

text \<open>
  \<open>atol\<close> is \<open>strtol\<close> to base ten: white space, a sign, the longest run of digits, \<open>0\<close> when there is
  none, clamped to the range of \<open>long\<close>. Storing a \<open>long\<close> in an \<open>int\<close> keeps its low 32 bits.
\<close>

definition LONG_MAX :: int where
  "LONG_MAX = 9223372036854775807"

definition LONG_MIN :: int where
  "LONG_MIN = -9223372036854775808"

definition atol :: "string \<Rightarrow> int" where
  "atol s =
     (let t = dropWhile is_space s;
          neg = (t \<noteq> [] \<and> hd t = CHR ''-'');
          u = (if t \<noteq> [] \<and> (hd t = CHR ''-'' \<or> hd t = CHR ''+'') then tl t else t);
          n = digits_val (takeWhile is_digit u)
      in max LONG_MIN (min LONG_MAX (if neg then - n else n)))"

definition long_to_int :: "int \<Rightarrow> int" where
  "long_to_int n = (n + 2147483648) mod 4294967296 - 2147483648"

section \<open>Lemmas\<close>

text \<open>An array that holds \<open>s\<close> and its terminator at \<open>p\<close>.\<close>

definition holds_str :: "char list \<Rightarrow> nat \<Rightarrow> string \<Rightarrow> bool" where
  "holds_str b p s \<longleftrightarrow>
     NUL \<notin> set s \<and> p + length s < length b \<and> take (length s + 1) (drop p b) = s @ [NUL]"

lemma holds_str_decomp:
  "holds_str b p s \<longleftrightarrow> NUL \<notin> set s \<and> (\<exists>u v. b = u @ s @ NUL # v \<and> length u = p)"
proof
  assume h: "holds_str b p s"
  have "b = take p b @ take (length s + 1) (drop p b) @ drop (length s + 1) (drop p b)"
    by (simp only: append_take_drop_id)
  with h have "b = take p b @ s @ NUL # drop (length s + 1) (drop p b)" "length (take p b) = p"
    by (simp_all add: holds_str_def)
  with h show "NUL \<notin> set s \<and> (\<exists>u v. b = u @ s @ NUL # v \<and> length u = p)"
    unfolding holds_str_def by blast
qed (auto simp: holds_str_def)

lemma holds_strI: "NUL \<notin> set s \<Longrightarrow> length u = p \<Longrightarrow> holds_str (u @ s @ NUL # v) p s"
  by (auto simp: holds_str_decomp)

lemma takeWhile_nul: "NUL \<notin> set s \<Longrightarrow> takeWhile (\<lambda>c. c \<noteq> NUL) (s @ NUL # v) = s"
  by (induction s) auto

lemma cstr_holds: "holds_str b p s \<Longrightarrow> cstr b p = Inr s"
  by (auto simp: holds_str_decomp cstr_def takeWhile_nul)

lemma cstr_eq_Inr: "cstr b p = Inr s \<longleftrightarrow> holds_str b p s"
proof
  assume c: "cstr b p = Inr s"
  define t where "t = takeWhile (\<lambda>c. c \<noteq> NUL) (drop p b)"
  have s: "s = t" and lt: "p + length t < length b"
    using c by (auto simp: cstr_def t_def Let_def split: if_splits)
  have "length t < length (drop p b)" using lt by simp
  then have nul: "drop p b ! length t = NUL"
    using nth_length_takeWhile [of "\<lambda>c. c \<noteq> NUL" "drop p b"] by (simp add: t_def)
  have "take (length t) (drop p b) = t" by (simp add: t_def takeWhile_eq_take [symmetric])
  then have "take (length t + 1) (drop p b) = t @ [NUL]"
    using nul lt by (simp add: take_Suc_conv_app_nth)
  moreover have "NUL \<notin> set t" unfolding t_def using set_takeWhileD by fastforce
  ultimately show "holds_str b p s" using s lt by (simp add: holds_str_def)
qed (rule cstr_holds)

lemma strlen_holds: "holds_str b p s \<Longrightarrow> strlen b p = Inr (length s)"
  by (simp add: strlen_def cstr_holds)

lemma holds_str_nth: "holds_str b p s \<Longrightarrow> i < length s \<Longrightarrow> b ! (p + i) = s ! i"
  by (auto simp: holds_str_decomp nth_append)

lemma holds_str_end: "holds_str b p s \<Longrightarrow> b ! (p + length s) = NUL"
  by (auto simp: holds_str_decomp nth_append)

lemma holds_str_vget:
  "holds_str b p s \<Longrightarrow> vget b p = Inr (case s of [] \<Rightarrow> NUL | c # _ \<Rightarrow> c)"
  by (auto simp: holds_str_decomp nth_append split: list.split)

lemma holds_str_Suc: "holds_str b p (c # s) \<Longrightarrow> holds_str b (Suc p) s"
proof -
  assume "holds_str b p (c # s)"
  then obtain u v where "b = (u @ [c]) @ s @ NUL # v" "length (u @ [c]) = Suc p" "NUL \<notin> set s"
    by (auto simp: holds_str_decomp)
  then show ?thesis using holds_strI by blast
qed

lemma holds_str_append: "holds_str b p (s @ t) \<Longrightarrow> holds_str b (p + length s) t"
proof (induction s arbitrary: p)
  case (Cons a s)
  from Cons.prems have "holds_str b (Suc p) (s @ t)" by (auto intro: holds_str_Suc)
  from Cons.IH [OF this] show ?case by simp
qed simp

lemma strpbrk_holds:
  assumes "holds_str b p s"
  shows "strpbrk b p cs =
    Inr (let n = length (takeWhile (\<lambda>c. c \<notin> set cs) s) in if n < length s then Some (p + n) else None)"
proof -
  obtain u v where b: "b = u @ s @ NUL # v" "length u = p" and nul: "NUL \<notin> set s"
    using assms by (auto simp: holds_str_decomp)
  define n where "n = length (takeWhile (\<lambda>c. c \<notin> set cs) s)"
  have tw: "length (takeWhile (\<lambda>c. c \<noteq> NUL \<and> c \<notin> set cs) (s @ NUL # v)) = n"
    using nul unfolding n_def by (induction s) auto
  have "n \<le> length s" by (simp add: n_def length_takeWhile_le)
  show ?thesis
  proof (cases "n < length s")
    case True
    then have "s ! n \<in> set s" by simp
    then have "s ! n \<noteq> NUL" using nul by metis
    then show ?thesis using True b tw by (simp add: strpbrk_def n_def [symmetric] nth_append Let_def)
  next
    case False
    then have "n = length s" using \<open>n \<le> length s\<close> by simp
    then show ?thesis using b tw by (simp add: strpbrk_def n_def [symmetric] nth_append Let_def)
  qed
qed

lemma strspn_holds:
  assumes "holds_str b p s" and "NUL \<notin> set cs"
  shows "strspn b p cs = Inr (length (takeWhile (\<lambda>c. c \<in> set cs) s))"
proof -
  obtain u v where b: "b = u @ s @ NUL # v" "length u = p"
    using assms by (auto simp: holds_str_decomp)
  have tw: "takeWhile (\<lambda>c. c \<in> set cs) (s @ NUL # v) = takeWhile (\<lambda>c. c \<in> set cs) s"
    using assms(2) by (induction s) auto
  have "length (takeWhile (\<lambda>c. c \<in> set cs) s) \<le> length s" by (rule length_takeWhile_le)
  then show ?thesis using b tw by (simp add: strspn_def Let_def)
qed

lemma to_lower_nul [simp]: "to_lower NUL = NUL"
  by (simp add: to_lower_def NUL_def)

lemma to_lower_eq_nul: "to_lower c = NUL \<Longrightarrow> c = NUL"
proof (rule ccontr)
  assume c: "to_lower c = NUL" and n: "c \<noteq> NUL"
  then have up: "65 \<le> (of_char c :: nat) \<and> (of_char c :: nat) \<le> 90"
    by (auto simp: to_lower_def split: if_splits)
  then have "(of_char (to_lower c) :: nat) = of_char c + 32" by (simp add: to_lower_def of_char_of)
  then show False using c up by (simp add: NUL_def)
qed

lemma strcasecmp_holds:
  "holds_str b p s \<Longrightarrow> NUL \<notin> set lit \<Longrightarrow>
   strcasecmp_eq b p lit = Inr (map to_lower s = map to_lower lit)"
proof (induction lit arbitrary: p s)
  case Nil
  have "NUL \<notin> set s" using Nil.prems(1) by (simp add: holds_str_def)
  then show ?case using Nil.prems(1) by (cases s) (auto simp: holds_str_vget)
next
  case (Cons x xs)
  show ?case
  proof (cases s)
    case Nil
    have "to_lower x \<noteq> NUL" using Cons.prems to_lower_eq_nul by fastforce
    then show ?thesis using Nil Cons.prems by (simp add: holds_str_vget)
  next
    case (Cons c s')
    show ?thesis
      using Cons Cons.prems Cons.IH [OF holds_str_Suc, of p c s'] by (simp add: holds_str_vget)
  qed
qed

lemma strncasecmp_holds:
  "holds_str b p s \<Longrightarrow> NUL \<notin> set lit \<Longrightarrow>
   strncasecmp_eq b p lit = Inr (length lit \<le> length s \<and> map to_lower (take (length lit) s) = map to_lower lit)"
proof (induction lit arbitrary: p s)
  case (Cons x xs)
  show ?case
  proof (cases s)
    case Nil
    have "to_lower x \<noteq> NUL" using Cons.prems to_lower_eq_nul by fastforce
    then show ?thesis using Nil Cons.prems by (simp add: holds_str_vget)
  next
    case (Cons c s')
    show ?thesis
      using Cons Cons.prems Cons.IH [OF holds_str_Suc, of p c s'] by (simp add: holds_str_vget)
  qed
qed simp

section \<open>Longer arrays\<close>

text \<open>
  A function that succeeds on an array does the same on the array followed by more characters.
  \<open>res_ext h m m'\<close>: when \<open>m\<close> returns \<open>x\<close>, \<open>m'\<close> returns \<open>h x\<close>, and a failure of \<open>m\<close> that is not
  an access outside the array is the failure of \<open>m'\<close>.
\<close>

named_theorems ext_post \<open>introduction rules for longer arrays\<close>

definition res_ext :: "('a \<Rightarrow> 'b) \<Rightarrow> 'a res \<Rightarrow> 'b res \<Rightarrow> bool" where
  "res_ext h m m' \<longleftrightarrow>
     (case m of Inr x \<Rightarrow> m' = Inr (h x) | Inl e \<Rightarrow> e = Out_Of_Bounds \<or> m' = Inl e)"

lemma res_extD: "res_ext h m m' \<Longrightarrow> m = Inr x \<Longrightarrow> m' = Inr (h x)"
  by (simp add: res_ext_def)

lemma res_extE: "res_ext h m m' \<Longrightarrow> m = Inl e \<Longrightarrow> e \<noteq> Out_Of_Bounds \<Longrightarrow> m' = Inl e"
  by (simp add: res_ext_def)

lemma res_ext_Inr [ext_post]: "y = h x \<Longrightarrow> res_ext h (Inr x) (Inr y)"
  by (simp add: res_ext_def)

lemma res_ext_Inl [ext_post]: "res_ext h (Inl e) (Inl e)"
  by (simp add: res_ext_def)

lemma res_ext_bind [ext_post]:
  "res_ext g m m' \<Longrightarrow> (\<And>x. m = Inr x \<Longrightarrow> res_ext h (f x) (f' (g x))) \<Longrightarrow>
   res_ext h (bind_res m f) (bind_res m' f')"
  by (cases m) (auto simp: res_ext_def)

lemma res_ext_if [ext_post]:
  "(b \<Longrightarrow> res_ext h m m') \<Longrightarrow> (\<not> b \<Longrightarrow> res_ext h n n') \<Longrightarrow>
   res_ext h (if b then m else n) (if b then m' else n')"
  by simp

lemma res_ext_option [ext_post]:
  "(x = None \<Longrightarrow> res_ext h m m') \<Longrightarrow> (\<And>y. x = Some y \<Longrightarrow> res_ext h (f y) (f' y)) \<Longrightarrow>
   res_ext h (case x of None \<Rightarrow> m | Some y \<Rightarrow> f y) (case x of None \<Rightarrow> m' | Some y \<Rightarrow> f' y)"
  by (cases x) auto

lemma res_extI:
  "(\<And>x. m = Inr x \<Longrightarrow> m' = Inr (h x)) \<Longrightarrow> (\<And>e. m = Inl e \<Longrightarrow> e = Out_Of_Bounds) \<Longrightarrow> res_ext h m m'"
  by (cases m) (auto simp: res_ext_def)

lemma vget_ext: "res_ext (\<lambda>x. x) (vget b i) (vget (b @ r) i)"
  by (rule res_extI) (auto simp: vget_def nth_append split: if_splits)

lemma vset_ext: "res_ext (\<lambda>b. b @ r) (vset b i x) (vset (b @ r) i x)"
  by (rule res_extI) (auto simp: vset_def list_update_append split: if_splits)

lemma vcopy_ext: "res_ext (\<lambda>b. b @ r) (vcopy b i s) (vcopy (b @ r) i s)"
  by (rule res_extI) (auto simp: vcopy_def split: if_splits)

lemma takeWhile_ext:
  "p + length (takeWhile P (drop p b)) < length b \<Longrightarrow>
   takeWhile P (drop p (b @ r)) = takeWhile P (drop p b)"
proof -
  assume lt: "p + length (takeWhile P (drop p b)) < length b"
  then have "length (takeWhile P (drop p b)) < length (drop p b)" by simp
  then have "\<exists>x\<in>set (drop p b). \<not> P x" by (metis nat_less_le takeWhile_eq_all_conv)
  then have "takeWhile P (drop p b @ r) = takeWhile P (drop p b)" by (metis takeWhile_append1)
  then show ?thesis using lt by simp
qed

lemma cstr_ext: "res_ext (\<lambda>x. x) (cstr b p) (cstr (b @ r) p)"
  using takeWhile_ext [of p "\<lambda>c. c \<noteq> NUL" b r]
  by (intro res_extI) (auto simp: cstr_def Let_def split: if_splits)

lemma strlen_ext: "res_ext (\<lambda>x. x) (strlen b p) (strlen (b @ r) p)"
  unfolding strlen_def by (rule cstr_ext ext_post | simp)+

lemma strpbrk_ext: "res_ext (\<lambda>x. x) (strpbrk b p cs) (strpbrk (b @ r) p cs)"
  using takeWhile_ext [of p "\<lambda>c. c \<noteq> NUL \<and> c \<notin> set cs" b r]
  by (intro res_extI) (auto simp: strpbrk_def Let_def res_simps vget_def nth_append split: if_splits)

lemma strchr_ext: "res_ext (\<lambda>x. x) (strchr b p x) (strchr (b @ r) p x)"
  unfolding strchr_def by (rule strpbrk_ext)

lemma strspn_ext: "res_ext (\<lambda>x. x) (strspn b p cs) (strspn (b @ r) p cs)"
  using takeWhile_ext [of p "\<lambda>c. c \<in> set cs" b r]
  by (intro res_extI) (auto simp: strspn_def Let_def res_simps vget_def split: if_splits)

lemma strcasecmp_ext: "res_ext (\<lambda>x. x) (strcasecmp_eq b p lit) (strcasecmp_eq (b @ r) p lit)"
  by (induction lit arbitrary: p) (auto intro!: ext_post vget_ext)

lemma strncasecmp_ext: "res_ext (\<lambda>x. x) (strncasecmp_eq b p lit) (strncasecmp_eq (b @ r) p lit)"
  by (induction lit arbitrary: p) (auto intro!: ext_post vget_ext)

lemma strcpy_ext: "res_ext (\<lambda>b. b @ r) (strcpy b p s) (strcpy (b @ r) p s)"
  unfolding strcpy_def by (rule vcopy_ext)

lemma strcat_ext: "res_ext (\<lambda>b. b @ r) (strcat b p s) (strcat (b @ r) p s)"
  unfolding strcat_def by (rule strlen_ext strcpy_ext ext_post)+

lemmas array_ext = vget_ext vset_ext cstr_ext strlen_ext strpbrk_ext strchr_ext strspn_ext
  strcasecmp_ext strncasecmp_ext strcat_ext

section \<open>Writing into a string\<close>

lemma holds_str_other:
  "holds_str b p s \<Longrightarrow> q < p \<or> p + length s < q \<Longrightarrow> holds_str (b[q := x]) p s"
proof -
  assume h: "holds_str b p s" and q: "q < p \<or> p + length s < q"
  obtain u v where b: "b = u @ s @ NUL # v" "length u = p" "NUL \<notin> set s"
    using h by (auto simp: holds_str_decomp)
  show ?thesis
  proof (cases "q < p")
    case True
    then have "b[q := x] = u[q := x] @ s @ NUL # v" using b by (simp add: list_update_append)
    then show ?thesis using b(2,3) holds_strI [of s "u[q := x]"] by simp
  next
    case False
    then have gt: "p + length s < q" using q by simp
    obtain d where d: "q = length (u @ s @ [NUL]) + d"
      using gt b(2) less_imp_Suc_add [OF gt] by auto
    have "b[q := x] = ((u @ s @ [NUL]) @ v)[q := x]" using b(1) by simp
    also have "\<dots> = (u @ s @ [NUL]) @ v[d := x]"
      unfolding d by (simp only: list_update_append) simp
    finally have "b[q := x] = u @ s @ NUL # v[d := x]" by simp
    then show ?thesis using b(2,3) holds_strI [of s u] by simp
  qed
qed

lemma holds_str_cut:
  assumes "holds_str b p (s @ x # t)"
  shows "holds_str (b[p + length s := NUL]) p s"
    and "holds_str (b[p + length s := NUL]) (p + length s + 1) t"
proof -
  obtain u v where b: "b = u @ (s @ x # t) @ NUL # v" "length u = p" "NUL \<notin> set (s @ x # t)"
    using assms by (auto simp: holds_str_decomp)
  have e: "b[p + length s := NUL] = u @ s @ NUL # (t @ NUL # v)"
    using b(1,2) by (simp add: list_update_append)
  show "holds_str (b[p + length s := NUL]) p s" unfolding e using b by (intro holds_strI) auto
  have e2: "b[p + length s := NUL] = (u @ s @ [NUL]) @ t @ NUL # v" using e by simp
  show "holds_str (b[p + length s := NUL]) (p + length s + 1) t"
    unfolding e2 using b by (intro holds_strI) auto
qed

end
