(* ===== verification/Http_Conn.thy ===== *)
theory Http_Conn
  imports C_Strings
begin

text \<open>
  The connection object of TinyWebServer (\<open>http/http_conn.h\<close>, \<open>http/http_conn.cpp\<close>): its fields, its
  initialisation and the reading half, from \<open>read_once\<close> to the loop of \<open>process_read\<close>. The pointers
  \<open>m_url\<close>, \<open>m_version\<close>, \<open>m_host\<close> and \<open>m_string\<close> point into \<open>m_read_buf\<close> and are indices of it,
  \<open>None\<close> when null or never assigned.
\<close>

section \<open>The connection\<close>

datatype http_method = GET | POST | HEAD | PUT | DELETE | TRACE | OPTIONS | CONNECT | PATH

datatype check_state = CHECK_STATE_REQUESTLINE | CHECK_STATE_HEADER | CHECK_STATE_CONTENT

datatype http_code =
    NO_REQUEST | GET_REQUEST | BAD_REQUEST | NO_RESOURCE | FORBIDDEN_REQUEST | FILE_REQUEST
  | INTERNAL_ERROR | CLOSED_CONNECTION

datatype line_status = LINE_OK | LINE_BAD | LINE_OPEN

definition FILENAME_LEN :: nat where "FILENAME_LEN = 200"

definition READ_BUFFER_SIZE :: nat where "READ_BUFFER_SIZE = 2048"

definition WRITE_BUFFER_SIZE :: nat where "WRITE_BUFFER_SIZE = 1024"

text \<open>The base address of an \<open>iovec\<close>: inside \<open>m_write_buf\<close> or inside the mapped file.\<close>

datatype iov_base = Unset_Base | Write_Buf int | File_Map int

record file_stat =
  st_mode_dir :: bool
  st_mode_iroth :: bool
  st_size :: nat

record http_conn =
  mysql :: "nat option"
  m_sockfd :: int
  m_read_buf :: "char list"
  m_read_idx :: int
  m_checked_idx :: nat
  m_start_line :: nat
  m_write_buf :: "char list"
  m_write_idx :: nat
  m_check_state :: check_state
  m_method :: http_method
  m_real_file :: "char list"
  m_url :: "nat option"
  m_version :: "nat option"
  m_host :: "nat option"
  m_content_length :: int
  m_linger :: bool
  m_file_address :: "string option"
  m_file_stat :: file_stat
  m_iv :: "(iov_base \<times> nat) list"
  m_iv_count :: nat
  cgi :: int
  m_string :: "nat option"
  bytes_to_send :: int
  bytes_have_send :: int

definition http_init :: "http_conn \<Rightarrow> http_conn" where
  "http_init c = c\<lparr>
     mysql := None,
     bytes_to_send := 0,
     bytes_have_send := 0,
     m_check_state := CHECK_STATE_REQUESTLINE,
     m_linger := False,
     m_method := GET,
     m_url := None,
     m_version := None,
     m_content_length := 0,
     m_host := None,
     m_start_line := 0,
     m_checked_idx := 0,
     m_read_idx := 0,
     m_write_idx := 0,
     cgi := 0,
     m_read_buf := replicate READ_BUFFER_SIZE NUL,
     m_write_buf := replicate WRITE_BUFFER_SIZE NUL,
     m_real_file := replicate FILENAME_LEN NUL\<rparr>"

text \<open>
  \<open>new http_conn[MAX_FD]\<close> leaves every field indeterminate; \<open>fresh_conn\<close> is one such object, used as
  an example.
\<close>

definition fresh_conn :: http_conn where
  "fresh_conn = \<lparr>mysql = None, m_sockfd = 0, m_read_buf = [], m_read_idx = 0, m_checked_idx = 0,
     m_start_line = 0, m_write_buf = [], m_write_idx = 0, m_check_state = CHECK_STATE_REQUESTLINE,
     m_method = GET, m_real_file = [], m_url = None, m_version = None, m_host = None,
     m_content_length = 0, m_linger = False, m_file_address = None,
     m_file_stat = \<lparr>st_mode_dir = False, st_mode_iroth = False, st_size = 0\<rparr>,
     m_iv = [(Unset_Base, 0), (Unset_Base, 0)], m_iv_count = 0, cgi = 0, m_string = None,
     bytes_to_send = 0, bytes_have_send = 0\<rparr>"

section \<open>Reading\<close>

text \<open>
  \<open>read_once\<close> in the level-triggered build: \<open>recv\<close> returns \<open>-1\<close>, or delivers at most the bytes that
  fit behind \<open>m_read_idx\<close>. The index is moved even by the \<open>-1\<close>.
\<close>

datatype recv_result = Recv_Error | Recv_Bytes string

definition recv_ok :: "recv_result \<Rightarrow> nat \<Rightarrow> bool" where
  "recv_ok r n = (case r of Recv_Error \<Rightarrow> True | Recv_Bytes bs \<Rightarrow> length bs \<le> n)"

definition read_once :: "recv_result \<Rightarrow> http_conn \<Rightarrow> (bool \<times> http_conn) res" where
  "read_once r c =
     (if m_read_idx c \<ge> int READ_BUFFER_SIZE then Inr (False, c)
      else (case r of
         Recv_Error \<Rightarrow> Inr (False, c\<lparr>m_read_idx := m_read_idx c - 1\<rparr>)
       | Recv_Bytes bs \<Rightarrow>
           if m_read_idx c < 0 then Inl Out_Of_Bounds
           else bind_res (vcopy (m_read_buf c) (nat (m_read_idx c)) bs) (\<lambda>buf.
             Inr (0 < length bs, c\<lparr>m_read_buf := buf, m_read_idx := m_read_idx c + int (length bs)\<rparr>))))"

section \<open>Splitting into lines\<close>

function parse_line :: "http_conn \<Rightarrow> (line_status \<times> http_conn) res" where
  "parse_line c =
     (let i = m_checked_idx c; b = m_read_buf c in
      if int i < m_read_idx c then
        bind_res (vget b i) (\<lambda>temp.
          if temp = CR then
            if int (i + 1) = m_read_idx c then Inr (LINE_OPEN, c)
            else bind_res (vget b (i + 1)) (\<lambda>nxt.
              if nxt = LF then
                bind_res (vset b i NUL) (\<lambda>b1.
                bind_res (vset b1 (i + 1) NUL) (\<lambda>b2.
                  Inr (LINE_OK, c\<lparr>m_read_buf := b2, m_checked_idx := i + 2\<rparr>)))
              else Inr (LINE_BAD, c))
          else if temp = LF then
            bind_res (if i > 1 then bind_res (vget b (i - 1)) (\<lambda>prv. Inr (prv = CR)) else Inr False)
              (\<lambda>after_cr.
                if after_cr then
                  bind_res (vset b (i - 1) NUL) (\<lambda>b1.
                  bind_res (vset b1 i NUL) (\<lambda>b2.
                    Inr (LINE_OK, c\<lparr>m_read_buf := b2, m_checked_idx := i + 1\<rparr>)))
                else Inr (LINE_BAD, c))
          else parse_line (c\<lparr>m_checked_idx := i + 1\<rparr>))
      else Inr (LINE_OPEN, c))"
  by pat_completeness auto
termination
  by (relation "measure (\<lambda>c. nat (m_read_idx c) - m_checked_idx c)") auto

declare parse_line.simps [simp del]

section \<open>Parsing a line\<close>

definition BLANKS :: "char list" where
  "BLANKS = [CHR '' '', CHR 0x09]"

text \<open>
  \<open>parse_target\<close> is the part of \<open>parse_request_line\<close> after the line has been cut in three: the
  version is checked, scheme and host are cut off, and \<open>/\<close> is completed.
\<close>

definition skip_scheme :: "char list \<Rightarrow> nat option \<Rightarrow> string \<Rightarrow> nat option res" where
  "skip_scheme b url scheme =
     (case url of
        None \<Rightarrow> Inl Null_Deref
      | Some u \<Rightarrow> bind_res (strncasecmp_eq b u scheme) (\<lambda>eq.
          if eq then strchr b (u + length scheme) (CHR ''/'') else Inr (Some u)))"

definition parse_target :: "nat \<Rightarrow> nat \<Rightarrow> http_conn \<Rightarrow> (http_code \<times> http_conn) res" where
  "parse_target url version c =
     (let b = m_read_buf c in
      bind_res (strcasecmp_eq b version ''HTTP/1.1'') (\<lambda>is_11.
      if \<not> is_11 then Inr (BAD_REQUEST, c)
      else
      bind_res (skip_scheme b (Some url) ''http://'') (\<lambda>u1.
      bind_res (skip_scheme b u1 ''https://'') (\<lambda>u2.
      case u2 of
        None \<Rightarrow> Inr (BAD_REQUEST, c\<lparr>m_url := None\<rparr>)
      | Some u \<Rightarrow>
        bind_res (vget b u) (\<lambda>first.
        if first \<noteq> CHR ''/'' then Inr (BAD_REQUEST, c\<lparr>m_url := Some u\<rparr>)
        else
        bind_res (strlen b u) (\<lambda>len.
        bind_res (if len = 1 then strcat b u ''judge.html'' else Inr b) (\<lambda>b1.
        Inr (NO_REQUEST, c\<lparr>m_read_buf := b1, m_url := Some u,
                           m_check_state := CHECK_STATE_HEADER\<rparr>))))))))"

definition parse_request_line :: "nat \<Rightarrow> http_conn \<Rightarrow> (http_code \<times> http_conn) res" where
  "parse_request_line text c =
     (let b = m_read_buf c in
      bind_res (strpbrk b text BLANKS) (\<lambda>url. case url of
        None \<Rightarrow> Inr (BAD_REQUEST, c\<lparr>m_url := None\<rparr>)
      | Some u0 \<Rightarrow>
        bind_res (vset b u0 NUL) (\<lambda>b1.
        (let u1 = u0 + 1; c1 = c\<lparr>m_read_buf := b1, m_url := Some u1\<rparr> in
        bind_res (strcasecmp_eq b1 text ''GET'') (\<lambda>is_get.
        bind_res (if is_get then Inr False else strcasecmp_eq b1 text ''POST'') (\<lambda>is_post.
        if \<not> is_get \<and> \<not> is_post then Inr (BAD_REQUEST, c1)
        else
        (let c2 = (if is_get then c1\<lparr>m_method := GET\<rparr> else c1\<lparr>m_method := POST, cgi := 1\<rparr>) in
        bind_res (strspn b1 u1 BLANKS) (\<lambda>n1.
        (let u2 = u1 + n1; c3 = c2\<lparr>m_url := Some u2\<rparr> in
        bind_res (strpbrk b1 u2 BLANKS) (\<lambda>ver. case ver of
          None \<Rightarrow> Inr (BAD_REQUEST, c3\<lparr>m_version := None\<rparr>)
        | Some v0 \<Rightarrow>
          bind_res (vset b1 v0 NUL) (\<lambda>b2.
          bind_res (strspn b2 (v0 + 1) BLANKS) (\<lambda>n2.
          (let v = v0 + 1 + n2 in
          parse_target u2 v (c3\<lparr>m_read_buf := b2, m_version := Some v\<rparr>))))))))))))))"

definition parse_headers :: "nat \<Rightarrow> http_conn \<Rightarrow> (http_code \<times> http_conn) res" where
  "parse_headers text c =
     (let b = m_read_buf c in
      bind_res (vget b text) (\<lambda>first.
      if first = NUL then
        if m_content_length c \<noteq> 0 then Inr (NO_REQUEST, c\<lparr>m_check_state := CHECK_STATE_CONTENT\<rparr>)
        else Inr (GET_REQUEST, c)
      else
      bind_res (strncasecmp_eq b text ''Connection:'') (\<lambda>is_conn.
      if is_conn then
        bind_res (strspn b (text + 11) BLANKS) (\<lambda>n.
        bind_res (strcasecmp_eq b (text + 11 + n) ''keep-alive'') (\<lambda>alive.
        Inr (NO_REQUEST, if alive then c\<lparr>m_linger := True\<rparr> else c)))
      else
      bind_res (strncasecmp_eq b text ''Content-length:'') (\<lambda>is_len.
      if is_len then
        bind_res (strspn b (text + 15) BLANKS) (\<lambda>n.
        bind_res (cstr b (text + 15 + n)) (\<lambda>s.
        Inr (NO_REQUEST, c\<lparr>m_content_length := long_to_int (atol s)\<rparr>)))
      else
      bind_res (strncasecmp_eq b text ''Host:'') (\<lambda>is_host.
      if is_host then
        bind_res (strspn b (text + 5) BLANKS) (\<lambda>n.
        Inr (NO_REQUEST, c\<lparr>m_host := Some (text + 5 + n)\<rparr>))
      else Inr (NO_REQUEST, c))))))"

definition parse_content :: "nat \<Rightarrow> http_conn \<Rightarrow> (http_code \<times> http_conn) res" where
  "parse_content text c =
     bind_res (as_int (m_content_length c + int (m_checked_idx c))) (\<lambda>end_idx.
     if m_read_idx c \<ge> end_idx then
       bind_res (vset_int (m_read_buf c) (int text + m_content_length c) NUL) (\<lambda>b.
       Inr (GET_REQUEST, c\<lparr>m_read_buf := b, m_string := Some text\<rparr>))
     else Inr (NO_REQUEST, c))"

section \<open>The loop of process_read\<close>

text \<open>
  The loop either falls out and returns a code, or reaches \<open>return do_request()\<close>. \<open>handle_line\<close> is
  its body: the code it returns with, if any, and \<open>line_status\<close> for the next test. The lines that
  the loop writes to the log on the way are added in \<open>Http_Log\<close>.
\<close>

datatype read_outcome = Return_Code http_code | Do_Request

definition handle_line :: "http_conn \<Rightarrow> (read_outcome option \<times> line_status \<times> http_conn) res" where
  "handle_line c =
     (let text = m_start_line c; c1 = c\<lparr>m_start_line := m_checked_idx c\<rparr> in
      case m_check_state c of
        CHECK_STATE_REQUESTLINE \<Rightarrow>
          bind_res (parse_request_line text c1) (\<lambda>(ret, c2).
            Inr (if ret = BAD_REQUEST then Some (Return_Code BAD_REQUEST) else None, LINE_OK, c2))
      | CHECK_STATE_HEADER \<Rightarrow>
          bind_res (parse_headers text c1) (\<lambda>(ret, c2).
            Inr (if ret = BAD_REQUEST then Some (Return_Code BAD_REQUEST)
                 else if ret = GET_REQUEST then Some Do_Request else None, LINE_OK, c2))
      | CHECK_STATE_CONTENT \<Rightarrow>
          bind_res (parse_content text c1) (\<lambda>(ret, c2).
            Inr (if ret = GET_REQUEST then Some Do_Request else None, LINE_OPEN, c2)))"

definition next_line :: "line_status \<Rightarrow> http_conn \<Rightarrow> (line_status \<times> http_conn) res" where
  "next_line ls c =
     (if m_check_state c = CHECK_STATE_CONTENT \<and> ls = LINE_OK then Inr (LINE_OK, c) else parse_line c)"

lemma parse_line_ok:
  "parse_line c = Inr (LINE_OK, c') \<Longrightarrow>
   \<exists>b. c' = c\<lparr>m_read_buf := b, m_checked_idx := m_checked_idx c'\<rparr>
     \<and> length b = length (m_read_buf c)
     \<and> m_checked_idx c < m_checked_idx c' \<and> int (m_checked_idx c') \<le> m_read_idx c"
proof (induction c rule: parse_line.induct)
  case (1 c)
  show ?case
  proof (cases "int (m_checked_idx c) < m_read_idx c \<and> m_checked_idx c < length (m_read_buf c)
      \<and> m_read_buf c ! m_checked_idx c \<notin> {CR, LF}")
    case True
    then have st: "parse_line c = parse_line (c\<lparr>m_checked_idx := m_checked_idx c + 1\<rparr>)"
      by (subst parse_line.simps) (simp add: Let_def)
    have "\<exists>b. c' = (c\<lparr>m_checked_idx := m_checked_idx c + 1\<rparr>)\<lparr>m_read_buf := b, m_checked_idx := m_checked_idx c'\<rparr>
        \<and> length b = length (m_read_buf c)
        \<and> m_checked_idx c + 1 < m_checked_idx c' \<and> int (m_checked_idx c') \<le> m_read_idx c"
      using 1 True st by simp
    then show ?thesis by auto
  next
    case False
    with 1(2) show ?thesis
      by (subst (asm) parse_line.simps)
        (auto simp: Let_def res_simps split: if_splits)
  qed
qed

text \<open>The parsers of one line leave the indices of the read buffer alone.\<close>

abbreviation same_idx :: "http_conn \<Rightarrow> http_code \<times> http_conn \<Rightarrow> bool" where
  "same_idx c r \<equiv> m_read_idx (snd r) = m_read_idx c \<and> m_checked_idx (snd r) = m_checked_idx c
     \<and> m_start_line (snd r) = m_start_line c"

lemma parse_target_idx: "res_all (same_idx c) (parse_target u v c)"
  unfolding parse_target_def Let_def by (intro res_post) simp_all

lemma parse_request_line_idx: "res_all (same_idx c) (parse_request_line t c)"
  unfolding parse_request_line_def Let_def
  by (intro res_post) (simp_all add: res_all_def res_allD [OF parse_target_idx])

lemma parse_headers_idx: "res_all (same_idx c) (parse_headers t c)"
  unfolding parse_headers_def Let_def by (intro res_post) simp_all

lemma parse_content_idx: "res_all (same_idx c) (parse_content t c)"
  unfolding parse_content_def Let_def by (intro res_post) simp_all

lemma handle_line_idx:
  "handle_line c = Inr (out, ls, c') \<Longrightarrow>
   m_read_idx c' = m_read_idx c \<and> m_checked_idx c' = m_checked_idx c
   \<and> (m_check_state c = CHECK_STATE_CONTENT \<longrightarrow> ls = LINE_OPEN)"
  using res_allD [OF parse_request_line_idx] res_allD [OF parse_headers_idx]
    res_allD [OF parse_content_idx]
  by (fastforce simp: handle_line_def Let_def res_simps split: check_state.splits)

text \<open>Every round moves behind a line end, or leaves the body for a line end that must follow.\<close>

definition read_measure :: "((line_status \<times> http_conn) \<times> (line_status \<times> http_conn)) set" where
  "read_measure = inv_image (less_than <*lex*> less_than)
    (\<lambda>(ls, c). (nat (m_read_idx c) - m_checked_idx c,
       if m_check_state c = CHECK_STATE_CONTENT \<and> ls = LINE_OK then 1 else (0::nat)))"

lemma wf_read_measure: "wf read_measure"
  unfolding read_measure_def by (intro wf_inv_image wf_lex_prod wf_less_than)

lemma read_round_decreases:
  assumes n: "next_line ls c = Inr (LINE_OK, c1)" and h: "handle_line c1 = Inr (None, ls2, c2)"
  shows "((ls2, c2), ls, c) \<in> read_measure"
proof -
  note hi = handle_line_idx [OF h]
  show ?thesis
  proof (cases "m_check_state c = CHECK_STATE_CONTENT \<and> ls = LINE_OK")
    case True
    then have "c1 = c" using n by (auto simp: next_line_def)
    then show ?thesis using True hi by (auto simp: read_measure_def)
  next
    case False
    then have p: "parse_line c = Inr (LINE_OK, c1)" using n by (auto simp: next_line_def)
    obtain b where c1: "c1 = c\<lparr>m_read_buf := b, m_checked_idx := m_checked_idx c1\<rparr>"
      and lt: "m_checked_idx c < m_checked_idx c1" "int (m_checked_idx c1) \<le> m_read_idx c"
      using parse_line_ok [OF p] by blast
    have "m_read_idx c1 = m_read_idx c" by (subst c1) simp
    then have "nat (m_read_idx c2) - m_checked_idx c2 < nat (m_read_idx c) - m_checked_idx c"
      using hi lt by linarith
    then show ?thesis by (simp add: read_measure_def)
  qed
qed

function process_read_loop :: "line_status \<Rightarrow> http_conn \<Rightarrow> (read_outcome \<times> http_conn) res" where
  "process_read_loop ls c =
     bind_res (next_line ls c) (\<lambda>(ls1, c1).
       if ls1 = LINE_OK then
         bind_res (handle_line c1) (\<lambda>(out, ls2, c2).
           case out of Some r \<Rightarrow> Inr (r, c2) | None \<Rightarrow> process_read_loop ls2 c2)
       else Inr (Return_Code NO_REQUEST, c1))"
  by pat_completeness auto
termination
  by (relation read_measure) (auto intro: wf_read_measure read_round_decreases)

declare process_read_loop.simps [simp del]

end
