(* ===== verification/Http_Parse.thy ===== *)
theory Http_Parse
  imports Http_Conn
begin

text \<open>
  Correctness of the reading half of the web server's connection: the line splitter and the parsers
  stay inside the received bytes, the way the bytes were cut into \<open>recv\<close> calls does not matter
  before the body, and a request line and headers are taken apart as written.
\<close>

section \<open>The parsers on a longer array\<close>

definition ext_conn :: "char list \<Rightarrow> int \<Rightarrow> http_conn \<Rightarrow> http_conn" where
  "ext_conn r n c = c\<lparr>m_read_buf := m_read_buf c @ r, m_read_idx := n\<rparr>"

abbreviation ext_res :: "char list \<Rightarrow> int \<Rightarrow> 'a \<times> http_conn \<Rightarrow> 'a \<times> http_conn" where
  "ext_res r n x \<equiv> (fst x, ext_conn r n (snd x))"

lemma skip_scheme_ext: "res_ext (\<lambda>x. x) (skip_scheme b u s) (skip_scheme (b @ r) u s)"
  unfolding skip_scheme_def by (rule array_ext ext_post | simp)+

lemma strcat_if_ext:
  "res_ext (\<lambda>b. b @ r) (if P then strcat b u s else Inr b) (if P then strcat (b @ r) u s else Inr (b @ r))"
  by (rule array_ext ext_post | simp)+

lemma strcasecmp_if_ext:
  "res_ext (\<lambda>x. x) (if P then Inr False else strcasecmp_eq b u s)
     (if P then Inr False else strcasecmp_eq (b @ r) u s)"
  by (rule array_ext ext_post | simp)+

lemma ext_conn_fields:
  "m_read_buf (ext_conn r n c) = m_read_buf c @ r" "m_content_length (ext_conn r n c) = m_content_length c"
  "m_start_line (ext_conn r n c) = m_start_line c" "m_checked_idx (ext_conn r n c) = m_checked_idx c"
  "m_check_state (ext_conn r n c) = m_check_state c" "m_read_idx (ext_conn r n c) = n"
  by (simp_all add: ext_conn_def)

lemma parse_target_ext:
  "c' = ext_conn r n c \<Longrightarrow> res_ext (ext_res r n) (parse_target u v c) (parse_target u v c')"
  unfolding parse_target_def Let_def
  by (simp only: ext_conn_fields) (rule array_ext skip_scheme_ext strcat_if_ext ext_post | simp add: ext_conn_def)+

lemma parse_request_line_ext:
  "res_ext (ext_res r n) (parse_request_line t c) (parse_request_line t (ext_conn r n c))"
  unfolding parse_request_line_def Let_def ext_conn_fields
  by (rule array_ext strcasecmp_if_ext parse_target_ext ext_post | simp add: ext_conn_def)+

lemma parse_headers_ext:
  "res_ext (ext_res r n) (parse_headers t c) (parse_headers t (ext_conn r n c))"
  unfolding parse_headers_def Let_def ext_conn_fields
  by (rule array_ext ext_post | simp add: ext_conn_def)+

section \<open>The parsers on a terminated line\<close>

lemma blanks_nul: "NUL \<notin> set BLANKS"
  by (simp add: BLANKS_def NUL_def)

lemma lit_nul [simp]:
  "NUL \<notin> set ''GET''" "NUL \<notin> set ''POST''" "NUL \<notin> set ''HTTP/1.1''" "NUL \<notin> set ''http://''"
  "NUL \<notin> set ''https://''" "NUL \<notin> set ''Connection:''" "NUL \<notin> set ''Content-length:''"
  "NUL \<notin> set ''Host:''" "NUL \<notin> set ''keep-alive''" "NUL \<notin> set ''judge.html''"
  by (simp_all add: NUL_def)

text \<open>A header line is parsed inside the line, terminator included.\<close>

lemma holds_str_drop: "holds_str b p s \<Longrightarrow> n \<le> length s \<Longrightarrow> holds_str b (p + n) (drop n s)"
  using holds_str_append [of b p "take n s" "drop n s"] by simp

lemma parse_headers_total:
  assumes h: "holds_str (m_read_buf c) t s"
  shows "\<exists>r. parse_headers t c = Inr r"
proof -
  have sp: "\<exists>k. k \<le> length s - n \<and> strspn (m_read_buf c) (t + n) BLANKS = Inr k" if "n \<le> length s" for n
    using strspn_holds [OF holds_str_drop [OF h that] blanks_nul]
      length_takeWhile_le [of "\<lambda>c. c \<in> set BLANKS" "drop n s"] by auto
  have at: "holds_str (m_read_buf c) (t + n + k) (drop (n + k) s)" if "n \<le> length s" "k \<le> length s - n" for n k
    using holds_str_drop [OF h, of "n + k"] that by (simp add: add.assoc)
  consider (conn) "strncasecmp_eq (m_read_buf c) t ''Connection:'' = Inr True" "11 \<le> length s"
    | (len) "strncasecmp_eq (m_read_buf c) t ''Connection:'' = Inr False"
        "strncasecmp_eq (m_read_buf c) t ''Content-length:'' = Inr True" "15 \<le> length s"
    | (host) "strncasecmp_eq (m_read_buf c) t ''Connection:'' = Inr False"
        "strncasecmp_eq (m_read_buf c) t ''Content-length:'' = Inr False"
        "strncasecmp_eq (m_read_buf c) t ''Host:'' = Inr True" "5 \<le> length s"
    | (other) "strncasecmp_eq (m_read_buf c) t ''Connection:'' = Inr False"
        "strncasecmp_eq (m_read_buf c) t ''Content-length:'' = Inr False"
        "strncasecmp_eq (m_read_buf c) t ''Host:'' = Inr False"
    using strncasecmp_holds [OF h lit_nul(6)] strncasecmp_holds [OF h lit_nul(7)]
      strncasecmp_holds [OF h lit_nul(8)] by fastforce
  then show ?thesis
  proof cases
    case conn
    then obtain k where k: "k \<le> length s - 11" "strspn (m_read_buf c) (t + 11) BLANKS = Inr k"
      using sp by blast
    note ka = strcasecmp_holds [OF at [OF conn(2) k(1)] lit_nul(9)]
    show ?thesis using holds_str_vget [OF h] conn k(2) ka by (simp add: parse_headers_def Let_def)
  next
    case len
    then obtain k where k: "k \<le> length s - 15" "strspn (m_read_buf c) (t + 15) BLANKS = Inr k"
      using sp by blast
    note cs = cstr_holds [OF at [OF len(3) k(1)]]
    show ?thesis using holds_str_vget [OF h] len k(2) cs by (simp add: parse_headers_def Let_def)
  next
    case host
    then obtain k where k: "strspn (m_read_buf c) (t + 5) BLANKS = Inr k" using sp by blast
    show ?thesis using holds_str_vget [OF h] host k by (simp add: parse_headers_def Let_def)
  next
    case other
    then show ?thesis using holds_str_vget [OF h] by (simp add: parse_headers_def Let_def)
  qed
qed

text \<open>
  The request line: a line of the buffer followed by a second terminator, which is what the line
  splitter leaves. Nothing outside the line and its two terminators is touched, and the only
  failure is the null pointer left by a scheme without a path.
\<close>

lemma skip_scheme_holds:
  assumes h: "holds_str b u s" and lit: "NUL \<notin> set lit"
  shows "(\<exists>k \<le> length s. skip_scheme b (Some u) lit = Inr (Some (u + k))) \<or> skip_scheme b (Some u) lit = Inr None"
proof (cases "length lit \<le> length s \<and> map to_lower (take (length lit) s) = map to_lower lit")
  case True
  then have d: "holds_str b (u + length lit) (drop (length lit) s)" using holds_str_drop [OF h] by simp
  have "length (takeWhile (\<lambda>c. c \<noteq> CHR ''/'') (drop (length lit) s)) \<le> length s - length lit"
    using length_takeWhile_le [of _ "drop (length lit) s"] by simp
  then show ?thesis
    using True strpbrk_holds [OF d, of "[CHR ''/'']"] strncasecmp_holds [OF h lit]
    by (auto simp: skip_scheme_def strchr_def Let_def add.assoc)
next
  case False
  then show ?thesis using strncasecmp_holds [OF h lit] by (auto simp: skip_scheme_def intro!: exI [of _ 0])
qed

lemma first_blank:
  assumes "strpbrk b p BLANKS = Inr (Some q)" and "holds_str b p s"
  obtains s1 x s2 where "s = s1 @ x # s2" and "q = p + length s1"
proof -
  define n where "n = length (takeWhile (\<lambda>c. c \<notin> set BLANKS) s)"
  have n: "n < length s" "q = p + n"
    using assms strpbrk_holds [OF assms(2), of BLANKS] by (auto simp: n_def Let_def split: if_splits)
  then have "s = take n s @ s ! n # drop (Suc n) s" by (simp add: id_take_nth_drop)
  with n that show ?thesis by force
qed

lemma parse_target_safe:
  assumes u: "holds_str (m_read_buf c) u url" and v: "holds_str (m_read_buf c) v ver"
    and order: "u + length url < v" and two: "v + length ver + 2 \<le> length (m_read_buf c)"
  shows "(\<exists>r. parse_target u v c = Inr r) \<or> parse_target u v c = Inl Null_Deref"
proof -
  define b where "b = m_read_buf c"
  note u' = u [folded b_def] and v' = v [folded b_def]
  note is11 = strcasecmp_holds [OF v' lit_nul(3)]
  have scheme: "skip_scheme b None lit = Inl Null_Deref" for lit by (simp add: skip_scheme_def)
  have tail: "\<exists>r. (case Some w of None \<Rightarrow> Inr (BAD_REQUEST, c\<lparr>m_url := None\<rparr>)
      | Some u \<Rightarrow> bind_res (vget b u) (\<lambda>first.
        if first \<noteq> CHR ''/'' then Inr (BAD_REQUEST, c\<lparr>m_url := Some u\<rparr>)
        else bind_res (strlen b u) (\<lambda>len.
          bind_res (if len = 1 then strcat b u ''judge.html'' else Inr b) (\<lambda>b1.
          Inr (NO_REQUEST, c\<lparr>m_read_buf := b1, m_url := Some u,
                             m_check_state := CHECK_STATE_HEADER\<rparr>))))) = Inr r"
    if w: "w = u + k" "k \<le> length url" and v8: "length ver = 8" for w k
  proof -
    have hw: "holds_str b w (drop k url)" using holds_str_drop [OF u' w(2)] w(1) by simp
    have "\<exists>b1. strcat b w ''judge.html'' = Inr b1"
      if "length url - k = 1"
    proof -
      have "w + 1 \<le> u + length url" using that w by simp
      then have "w + 12 \<le> length b" using order two v8 by (simp add: b_def)
      then show ?thesis using strlen_holds [OF hw] that
        by (simp add: strcat_def strcpy_def vcopy_def)
    qed
    then show ?thesis using holds_str_vget [OF hw] strlen_holds [OF hw] by auto
  qed
  show ?thesis
  proof (cases "map to_lower ver = map to_lower ''HTTP/1.1''")
    case False
    then show ?thesis using is11 by (simp add: parse_target_def Let_def b_def)
  next
    case True
    then have v8: "length ver = 8" using map_eq_imp_length_eq [OF True] by simp
    from skip_scheme_holds [OF u' lit_nul(4)] show ?thesis
    proof
      assume "skip_scheme b (Some u) ''http://'' = Inr None"
      then show ?thesis using is11 True scheme by (simp add: parse_target_def Let_def b_def)
    next
      assume "\<exists>k\<le>length url. skip_scheme b (Some u) ''http://'' = Inr (Some (u + k))"
      then obtain k where k: "k \<le> length url" "skip_scheme b (Some u) ''http://'' = Inr (Some (u + k))"
        by blast
      have hk: "holds_str b (u + k) (drop k url)" using holds_str_drop [OF u' k(1)] .
      from skip_scheme_holds [OF hk lit_nul(5)] show ?thesis
      proof
        assume "skip_scheme b (Some (u + k)) ''https://'' = Inr None"
        then show ?thesis using is11 True k by (simp add: parse_target_def Let_def b_def)
      next
        assume "\<exists>j\<le>length (drop k url). skip_scheme b (Some (u + k)) ''https://'' = Inr (Some (u + k + j))"
        then obtain j where j: "j \<le> length (drop k url)"
          "skip_scheme b (Some (u + k)) ''https://'' = Inr (Some (u + k + j))" by blast
        have "\<exists>r. parse_target u v c = Inr r"
          using tail [of "u + k + j" "k + j"] j k v8 is11 True
          by (simp add: parse_target_def Let_def b_def [symmetric])
        then show ?thesis by blast
      qed
    qed
  qed
qed

lemma parse_request_line_safe:
  assumes h: "holds_str (m_read_buf c) t s" and two: "t + length s + 2 \<le> length (m_read_buf c)"
  shows "(\<exists>r. parse_request_line t c = Inr r) \<or> parse_request_line t c = Inl Null_Deref"
proof -
  define b where "b = m_read_buf c"
  note h' = h [folded b_def]
  show ?thesis
  proof (cases "strpbrk b t BLANKS = Inr None")
    case True
    then show ?thesis by (simp add: parse_request_line_def Let_def b_def [symmetric])
  next
    case False
    then obtain q where q: "strpbrk b t BLANKS = Inr (Some q)"
      using strpbrk_holds [OF h', of BLANKS] by (auto simp: Let_def split: if_splits)
    obtain s1 x s2 where s: "s = s1 @ x # s2" and qs: "q = t + length s1" using first_blank [OF q h'] .
    define b1 where "b1 = b[q := NUL]"
    have b1: "holds_str b1 t s1" "holds_str b1 (q + 1) s2"
      using holds_str_cut [OF h' [unfolded s]] by (simp_all add: b1_def qs)
    have ql: "q < length b" using two s qs by (simp add: b_def)
    define n1 where "n1 = length (takeWhile (\<lambda>c. c \<in> set BLANKS) s2)"
    have n1: "strspn b1 (q + 1) BLANKS = Inr n1" "n1 \<le> length s2"
      using strspn_holds [OF b1(2) blanks_nul] by (simp_all add: n1_def length_takeWhile_le)
    define u where "u = q + 1 + n1"
    have hu: "holds_str b1 u (drop n1 s2)" using holds_str_drop [OF b1(2) n1(2)] by (simp add: u_def)
    note cmp = strcasecmp_holds [OF b1(1) lit_nul(1)] strcasecmp_holds [OF b1(1) lit_nul(2)]
    show ?thesis
    proof (cases "map to_lower s1 \<noteq> map to_lower ''GET'' \<and> map to_lower s1 \<noteq> map to_lower ''POST''
        \<or> strpbrk b1 u BLANKS = Inr None")
      case True
      then show ?thesis using q cmp n1(1) ql
        by (auto simp: parse_request_line_def Let_def b_def [symmetric] b1_def [symmetric] u_def)
    next
      case False
      then obtain v0 where v0: "strpbrk b1 u BLANKS = Inr (Some v0)"
        using strpbrk_holds [OF hu, of BLANKS] by (auto simp: Let_def split: if_splits)
      obtain url y rest where s2: "drop n1 s2 = url @ y # rest" and vq: "v0 = u + length url"
        using first_blank [OF v0 hu] .
      define b2 where "b2 = b1[v0 := NUL]"
      have b2: "holds_str b2 u url" "holds_str b2 (v0 + 1) rest"
        using holds_str_cut [OF hu [unfolded s2]] by (simp_all add: b2_def vq)
      have "length s2 - n1 = length url + 1 + length rest" using arg_cong [OF s2, of length] by simp
      then have le: "v0 + 1 + length rest + 2 \<le> length b"
        using two s n1(2) qs by (simp add: vq u_def b_def)
      define n2 where "n2 = length (takeWhile (\<lambda>c. c \<in> set BLANKS) rest)"
      have n2: "strspn b2 (v0 + 1) BLANKS = Inr n2" "n2 \<le> length rest"
        using strspn_holds [OF b2(2) blanks_nul] by (simp_all add: n2_def length_takeWhile_le)
      have hv: "holds_str b2 (v0 + 1 + n2) (drop n2 rest)" using holds_str_drop [OF b2(2) n2(2)] .
      have target: "(\<exists>r. parse_target u (v0 + 1 + n2) d = Inr r) \<or> parse_target u (v0 + 1 + n2) d = Inl Null_Deref"
        if "m_read_buf d = b2" for d
        by (rule parse_target_safe [where url = url and ver = "drop n2 rest"])
          (use that b2(1) hv vq le n2(2) in \<open>simp_all add: b2_def b1_def\<close>)
      have v0l: "v0 < length b1" using le by (simp add: b1_def)
      show ?thesis
        using target False v0 q cmp n1(1) n2(1) ql v0l
        by (auto simp: parse_request_line_def Let_def b_def [symmetric] b1_def [symmetric]
            b2_def [symmetric] u_def)
    qed
  qed
qed

section \<open>The state of a connection between two reads\<close>

definition http_wf :: "http_conn \<Rightarrow> bool" where
  "http_wf c \<longleftrightarrow>
     length (m_read_buf c) = READ_BUFFER_SIZE
   \<and> m_start_line c \<le> m_checked_idx c \<and> int (m_checked_idx c) \<le> m_read_idx c
   \<and> m_read_idx c \<le> int READ_BUFFER_SIZE
   \<and> (0 < m_checked_idx c \<longrightarrow> m_read_buf c ! (m_checked_idx c - 1) \<noteq> CR)"

lemma http_init_wf: "http_wf (http_init c)"
  by (simp add: http_wf_def http_init_def)

text \<open>What the splitter leaves when it returns \<open>LINE_OK\<close>: the line ends with two terminators.\<close>

definition line_ready :: "http_conn \<Rightarrow> bool" where
  "line_ready c \<longleftrightarrow>
     length (m_read_buf c) = READ_BUFFER_SIZE
   \<and> m_start_line c + 2 \<le> m_checked_idx c \<and> int (m_checked_idx c) \<le> m_read_idx c
   \<and> m_read_idx c \<le> int READ_BUFFER_SIZE
   \<and> m_read_buf c ! (m_checked_idx c - 1) = NUL \<and> m_read_buf c ! (m_checked_idx c - 2) = NUL"

text \<open>The splitter passes over a stretch without line ends.\<close>

lemma parse_line_skip:
  "i \<le> j \<Longrightarrow> int j \<le> m_read_idx c \<Longrightarrow> m_read_idx c \<le> int (length (m_read_buf c)) \<Longrightarrow>
   (\<forall>k. i \<le> k \<and> k < j \<longrightarrow> m_read_buf c ! k \<notin> {CR, LF}) \<Longrightarrow>
   parse_line (c\<lparr>m_checked_idx := i\<rparr>) = parse_line (c\<lparr>m_checked_idx := j\<rparr>)"
proof (induction "j - i" arbitrary: i)
  case (Suc d)
  then have i: "i < j" and nocr: "m_read_buf c ! i \<noteq> CR" "m_read_buf c ! i \<noteq> LF" by auto
  then have "parse_line (c\<lparr>m_checked_idx := i\<rparr>) = parse_line (c\<lparr>m_checked_idx := Suc i\<rparr>)"
    using Suc.prems by (subst parse_line.simps) (simp add: Let_def)
  also have "\<dots> = parse_line (c\<lparr>m_checked_idx := j\<rparr>)"
    using Suc.hyps Suc.prems i by (intro Suc.hyps(1)) auto
  finally show ?case .
qed simp

text \<open>The three ways the splitter returns.\<close>

lemma parse_line_cases:
  assumes "http_wf c"
  obtains (end_of_line) j where "m_checked_idx c \<le> j" "int (j + 1) < m_read_idx c"
      "\<forall>k. m_checked_idx c \<le> k \<and> k < j \<longrightarrow> m_read_buf c ! k \<notin> {CR, LF}"
      "m_read_buf c ! j = CR" "m_read_buf c ! (j + 1) = LF"
      "parse_line c = Inr (LINE_OK, c\<lparr>m_read_buf := (m_read_buf c)[j := NUL, j + 1 := NUL],
                                     m_checked_idx := j + 2\<rparr>)"
    | (stop) j ls where "m_checked_idx c \<le> j" "int j \<le> m_read_idx c" "ls \<noteq> LINE_OK"
      "\<forall>k. m_checked_idx c \<le> k \<and> k < j \<longrightarrow> m_read_buf c ! k \<notin> {CR, LF}"
      "parse_line c = Inr (ls, c\<lparr>m_checked_idx := j\<rparr>)"
proof -
  define b where "b = m_read_buf c"
  define j where "j = (LEAST j. m_checked_idx c \<le> j \<and> (int j = m_read_idx c \<or> b ! j \<in> {CR, LF}))"
  have wf: "length b = READ_BUFFER_SIZE" "int (m_checked_idx c) \<le> m_read_idx c"
    "m_read_idx c \<le> int READ_BUFFER_SIZE"
    "0 < m_checked_idx c \<Longrightarrow> b ! (m_checked_idx c - 1) \<noteq> CR"
    using assms by (simp_all add: http_wf_def b_def)
  have ex: "m_checked_idx c \<le> nat (m_read_idx c) \<and> (int (nat (m_read_idx c)) = m_read_idx c \<or> b ! nat (m_read_idx c) \<in> {CR, LF})"
    using wf(2) by simp
  have j: "m_checked_idx c \<le> j" "int j = m_read_idx c \<or> b ! j \<in> {CR, LF}"
    unfolding j_def using LeastI [of "\<lambda>j. m_checked_idx c \<le> j \<and> (int j = m_read_idx c \<or> b ! j \<in> {CR, LF})", OF ex]
    by blast+
  have jr: "int j \<le> m_read_idx c"
    using Least_le [of "\<lambda>j. m_checked_idx c \<le> j \<and> (int j = m_read_idx c \<or> b ! j \<in> {CR, LF})", OF ex, folded j_def] wf(2)
    by linarith
  have none: "b ! k \<notin> {CR, LF}" if "m_checked_idx c \<le> k" "k < j" for k
    using not_less_Least [of k "\<lambda>j. m_checked_idx c \<le> j \<and> (int j = m_read_idx c \<or> b ! j \<in> {CR, LF})", folded j_def] that
    by blast
  have skip: "parse_line c = parse_line (c\<lparr>m_checked_idx := j\<rparr>)"
    using parse_line_skip [of "m_checked_idx c" j c] j jr none wf by (simp add: b_def)
  have prev: "b ! (j - 1) \<noteq> CR" if "1 < j"
  proof (cases "m_checked_idx c = j")
    case True then show ?thesis using wf(4) that by simp
  next
    case False
    then show ?thesis using none [of "j - 1"] j that by auto
  qed
  show ?thesis
  proof (cases "int (j + 1) < m_read_idx c \<and> b ! j = CR \<and> b ! (j + 1) = LF")
    case True
    have l: "j + 1 < length b" using True wf by linarith
    have "parse_line (c\<lparr>m_checked_idx := j\<rparr>) =
      Inr (LINE_OK, c\<lparr>m_read_buf := b[j := NUL, j + 1 := NUL], m_checked_idx := j + 2\<rparr>)"
      using True l by (subst parse_line.simps) (simp add: Let_def b_def)
    then show ?thesis using end_of_line [of j] True j none skip by (simp add: b_def)
  next
    case False
    have "\<exists>ls. ls \<noteq> LINE_OK \<and> parse_line (c\<lparr>m_checked_idx := j\<rparr>) = Inr (ls, c\<lparr>m_checked_idx := j\<rparr>)"
    proof (cases "int j < m_read_idx c")
      case False then show ?thesis by (subst parse_line.simps) (simp add: Let_def)
    next
      case True
      then have l: "j < length b" "int (j + 1) \<noteq> m_read_idx c \<Longrightarrow> j + 1 < length b" using wf by linarith+
      have ch: "b ! j = CR \<or> b ! j = LF" using j(2) True by auto
      have "LF \<noteq> CR" by (simp add: CR_def LF_def)
      then show ?thesis using l ch prev False True
        by (subst parse_line.simps) (auto simp: Let_def b_def vget_def)
    qed
    then show ?thesis using stop [of j] j jr none skip by (auto simp: b_def)
  qed
qed

lemma parse_line_wf:
  assumes "http_wf c" and "parse_line c = Inr (ls, c')"
  shows "http_wf c'" and "ls = LINE_OK \<Longrightarrow> line_ready c'" and "m_check_state c' = m_check_state c"
proof -
  have wf: "length (m_read_buf c) = READ_BUFFER_SIZE" "m_start_line c \<le> m_checked_idx c"
    "m_read_idx c \<le> int READ_BUFFER_SIZE"
    using assms(1) by (simp_all add: http_wf_def)
  have nul: "NUL \<noteq> CR" by (simp add: NUL_def CR_def)
  have "http_wf c' \<and> (ls = LINE_OK \<longrightarrow> line_ready c') \<and> m_check_state c' = m_check_state c"
    using assms(1)
  proof (cases rule: parse_line_cases)
    case (end_of_line j)
    then have "j + 1 < length (m_read_buf c)" using wf by linarith
    then show ?thesis
      using end_of_line assms(2) wf nul by (auto simp: http_wf_def line_ready_def nth_list_update)
  next
    case (stop j ls')
    have "m_read_buf c ! (j - 1) \<noteq> CR" if "0 < j"
    proof (cases "m_checked_idx c = j")
      case True then show ?thesis using assms(1) that by (simp add: http_wf_def)
    next
      case False
      then have "m_checked_idx c \<le> j - 1 \<and> j - 1 < j" using stop(1) that by linarith
      then show ?thesis using stop(4) by blast
    qed
    then show ?thesis using stop assms(2) wf by (auto simp: http_wf_def)
  qed
  then show "http_wf c'" "ls = LINE_OK \<Longrightarrow> line_ready c'" "m_check_state c' = m_check_state c" by auto
qed

text \<open>The parsers write no carriage return and keep the length of the buffer.\<close>

definition no_new_cr :: "char list \<Rightarrow> char list \<Rightarrow> bool" where
  "no_new_cr b b' \<longleftrightarrow> length b' = length b \<and> (\<forall>i<length b. b' ! i = CR \<longrightarrow> b ! i = CR)"

lemma no_new_cr_refl [simp]: "no_new_cr b b"
  by (simp add: no_new_cr_def)

lemma no_new_cr_trans: "no_new_cr b b1 \<Longrightarrow> no_new_cr b1 b2 \<Longrightarrow> no_new_cr b b2"
  by (auto simp: no_new_cr_def)

lemma no_new_cr_vset: "vset b i NUL = Inr b' \<Longrightarrow> no_new_cr b b'"
  by (auto simp: vset_def no_new_cr_def nth_list_update NUL_def CR_def split: if_splits)

lemma no_new_cr_vcopy: "vcopy b i s = Inr b' \<Longrightarrow> CR \<notin> set s \<Longrightarrow> no_new_cr b b'"
proof -
  assume v: "vcopy b i s = Inr b'" and s: "CR \<notin> set s"
  have b': "b' = take i b @ s @ drop (i + length s) b" and l: "i + length s \<le> length b"
    using v by (auto simp: vcopy_def split: if_splits)
  have "b ! k = CR" if k: "k < length b" "b' ! k = CR" for k
  proof (cases "i \<le> k \<and> k < i + length s")
    case True
    then have kl: "k - i < length s" by linarith
    then have "b' ! k = s ! (k - i)" using True b' l by (simp add: nth_append)
    moreover have "s ! (k - i) \<in> set s" using kl by (rule nth_mem)
    ultimately show ?thesis using k s by metis
  next
    case False
    then have "b' ! k = b ! k" using b' l k(1) by (auto simp: nth_append)
    then show ?thesis using k by simp
  qed
  then show ?thesis using b' l by (simp add: no_new_cr_def)
qed

lemma no_new_cr_strcat:
  "(if P then strcat b u ''judge.html'' else Inr b) = Inr b' \<Longrightarrow> no_new_cr b b'"
  by (auto simp: strcat_def strcpy_def res_simps CR_def NUL_def split: if_splits intro: no_new_cr_vcopy)

abbreviation line_post :: "http_conn \<Rightarrow> http_code \<times> http_conn \<Rightarrow> bool" where
  "line_post c r \<equiv> no_new_cr (m_read_buf c) (m_read_buf (snd r))"

lemma parse_target_cr: "res_all (line_post c) (parse_target u v c)"
  unfolding parse_target_def Let_def by (intro res_post) (simp_all add: no_new_cr_strcat)

lemma parse_request_line_cr: "res_all (line_post c) (parse_request_line t c)"
proof -
  have target: "res_all (line_post c) (parse_target u v d)"
    if "vset (m_read_buf c) i NUL = Inr b1" "vset b1 j NUL = Inr b2" "m_read_buf d = b2" for u v d i j b1 b2
    using no_new_cr_trans [OF no_new_cr_vset [OF that(1)] no_new_cr_vset [OF that(2)]] that(3)
      res_allD [OF parse_target_cr, of u v d] by (auto simp: res_all_def intro: no_new_cr_trans)
  show ?thesis
    unfolding parse_request_line_def Let_def
    by (intro res_post) (auto intro: no_new_cr_vset target)
qed

lemma parse_headers_cr: "res_all (line_post c) (parse_headers t c)"
  unfolding parse_headers_def Let_def by (intro res_post) simp_all

lemma parse_content_cr: "res_all (line_post c) (parse_content t c)"
  unfolding parse_content_def
  by (intro res_post) (auto simp: vset_int_def intro: no_new_cr_vset split: if_splits)

lemma handle_line_buf:
  assumes "handle_line c = Inr (out, ls, c')"
  shows "no_new_cr (m_read_buf c) (m_read_buf c') \<and> m_start_line c' = m_checked_idx c
    \<and> m_read_idx c' = m_read_idx c \<and> m_checked_idx c' = m_checked_idx c"
proof -
  define c1 where "c1 = c\<lparr>m_start_line := m_checked_idx c\<rparr>"
  have "\<exists>r t. (parse_request_line t c1 = Inr (r, c') \<or> parse_headers t c1 = Inr (r, c')
      \<or> parse_content t c1 = Inr (r, c'))"
    using assms by (auto simp: handle_line_def Let_def res_simps c1_def split: check_state.splits)
  then obtain r where "same_idx c1 (r, c') \<and> line_post c1 (r, c')"
    using res_allD [OF parse_request_line_idx] res_allD [OF parse_headers_idx]
      res_allD [OF parse_content_idx] res_allD [OF parse_request_line_cr]
      res_allD [OF parse_headers_cr] res_allD [OF parse_content_cr] by metis
  then show ?thesis by (simp add: c1_def)
qed

lemma handle_line_wf:
  assumes "handle_line c = Inr (out, ls, c')" and "http_wf c"
  shows "http_wf c'"
proof -
  note h = handle_line_buf [OF assms(1)]
  have "m_read_buf c' ! (m_checked_idx c - 1) \<noteq> CR" if "0 < m_checked_idx c"
  proof
    assume cr: "m_read_buf c' ! (m_checked_idx c - 1) = CR"
    have "m_checked_idx c - 1 < length (m_read_buf c)" using assms(2) that unfolding http_wf_def by linarith
    then have "m_read_buf c ! (m_checked_idx c - 1) = CR" using h cr unfolding no_new_cr_def by blast
    then show False using assms(2) that by (simp add: http_wf_def)
  qed
  then show ?thesis using h assms(2) by (auto simp: http_wf_def no_new_cr_def)
qed

section \<open>The rest of the buffer does not matter to a line\<close>

lemma line_in_buffer:
  assumes "p + 2 \<le> k" "k \<le> length b" "b ! (k - 2) = NUL"
  obtains s where "holds_str (take k b) p s" "p + length s + 2 \<le> k"
proof -
  define s where "s = takeWhile (\<lambda>c. c \<noteq> NUL) (drop p (take k b))"
  have "length s \<le> k - 2 - p"
  proof (rule ccontr)
    assume "\<not> length s \<le> k - 2 - p"
    then have lt: "k - 2 - p < length s" by simp
    then have "s ! (k - 2 - p) = drop p (take k b) ! (k - 2 - p)" unfolding s_def by (rule takeWhile_nth)
    also have "\<dots> = NUL" using assms by simp
    finally have "NUL \<in> set s" using lt nth_mem by fastforce
    then show False unfolding s_def by (auto dest: set_takeWhileD)
  qed
  then have "p + length s + 2 \<le> k" using assms(1) by linarith
  moreover from this have "holds_str (take k b) p s"
    using assms(2) by (simp add: cstr_eq_Inr [symmetric] cstr_def s_def [symmetric] Let_def)
  ultimately show ?thesis using that by blast
qed

lemma handle_line_ext:
  assumes "m_check_state c \<noteq> CHECK_STATE_CONTENT"
  shows "res_ext (\<lambda>(out, ls, d). (out, ls, ext_conn r n d)) (handle_line c) (handle_line (ext_conn r n c))"
proof -
  define c1 where "c1 = c\<lparr>m_start_line := m_checked_idx c\<rparr>"
  have e: "(ext_conn r n c)\<lparr>m_start_line := m_checked_idx c\<rparr> = ext_conn r n c1"
    by (simp add: ext_conn_def c1_def)
  note req = parse_request_line_ext [of r n "m_start_line c" c1]
    and hdr = parse_headers_ext [of r n "m_start_line c" c1]
  show ?thesis
  proof (cases "m_check_state c")
    case CHECK_STATE_REQUESTLINE
    show ?thesis
      unfolding handle_line_def Let_def ext_conn_fields e c1_def [symmetric]
      by (simp add: CHECK_STATE_REQUESTLINE) (rule res_ext_bind [OF req], simp add: case_prod_beta res_ext_def)
  next
    case CHECK_STATE_HEADER
    show ?thesis
      unfolding handle_line_def Let_def ext_conn_fields e c1_def [symmetric]
      by (simp add: CHECK_STATE_HEADER) (rule res_ext_bind [OF hdr], simp add: case_prod_beta res_ext_def)
  qed (use assms in simp)
qed

lemma handle_line_safe:
  assumes "line_ready c" and "m_check_state c \<noteq> CHECK_STATE_CONTENT"
  shows "(\<exists>r. handle_line (c\<lparr>m_read_buf := take (m_checked_idx c) (m_read_buf c), m_read_idx := n\<rparr>) = Inr r)
    \<or> handle_line (c\<lparr>m_read_buf := take (m_checked_idx c) (m_read_buf c), m_read_idx := n\<rparr>) = Inl Null_Deref"
proof -
  have k: "m_start_line c + 2 \<le> m_checked_idx c" "m_checked_idx c \<le> length (m_read_buf c)"
    "m_read_buf c ! (m_checked_idx c - 2) = NUL"
    using assms(1) by (auto simp: line_ready_def)
  obtain s where s: "holds_str (take (m_checked_idx c) (m_read_buf c)) (m_start_line c) s"
    "m_start_line c + length s + 2 \<le> m_checked_idx c"
    using line_in_buffer [OF k] by blast
  define c1 where "c1 = c\<lparr>m_read_buf := take (m_checked_idx c) (m_read_buf c), m_read_idx := n,
    m_start_line := m_checked_idx c\<rparr>"
  have h: "holds_str (m_read_buf c1) (m_start_line c) s"
    "m_start_line c + length s + 2 \<le> length (m_read_buf c1)"
    using s k by (simp_all add: c1_def)
  show ?thesis
    using parse_request_line_safe [OF h] parse_headers_total [OF h(1)] assms(2)
    by (auto simp: handle_line_def Let_def c1_def case_prod_beta split: check_state.split)
qed

section \<open>More bytes arrive\<close>

definition feed_buf :: "string \<Rightarrow> nat \<Rightarrow> char list \<Rightarrow> char list" where
  "feed_buf bs n b = take n b @ bs @ drop (n + length bs) b"

definition feed :: "string \<Rightarrow> http_conn \<Rightarrow> http_conn" where
  "feed bs c = c\<lparr>m_read_buf := feed_buf bs (nat (m_read_idx c)) (m_read_buf c),
                 m_read_idx := m_read_idx c + int (length bs)\<rparr>"

lemma read_once_feed:
  assumes "http_wf c" and "m_read_idx c + int (length bs) \<le> int READ_BUFFER_SIZE" and "bs \<noteq> []"
  shows "read_once (Recv_Bytes bs) c = Inr (True, feed bs c)"
proof -
  have "nat (m_read_idx c) + length bs \<le> length (m_read_buf c)"
    using assms unfolding http_wf_def by linarith
  moreover have "0 \<le> m_read_idx c" "m_read_idx c < int READ_BUFFER_SIZE"
    using assms length_greater_0_conv [of bs] unfolding http_wf_def by linarith+
  ultimately show ?thesis using assms(3) by (simp add: read_once_def feed_def feed_buf_def)
qed

lemma nth_feed_buf: "i < n \<Longrightarrow> n \<le> length b \<Longrightarrow> feed_buf bs n b ! i = b ! i"
  by (simp add: feed_buf_def nth_append)

lemma nth_feed_buf_new: "n \<le> i \<Longrightarrow> i < n + length bs \<Longrightarrow> n \<le> length b \<Longrightarrow> feed_buf bs n b ! i = bs ! (i - n)"
  by (simp add: feed_buf_def nth_append less_diff_conv2)

lemma feed_buf_update: "i < n \<Longrightarrow> n \<le> length b \<Longrightarrow> (feed_buf bs n b)[i := x] = feed_buf bs n (b[i := x])"
  by (simp add: feed_buf_def list_update_append take_update_swap)

lemma length_feed_buf [simp]: "n + length bs \<le> length b \<Longrightarrow> length (feed_buf bs n b) = length b"
  by (simp add: feed_buf_def)

lemma feed_wf:
  assumes "http_wf c" and "m_read_idx c + int (length bs) \<le> int READ_BUFFER_SIZE"
  shows "http_wf (feed bs c)"
proof -
  have "nat (m_read_idx c) + length bs \<le> length (m_read_buf c)"
    using assms unfolding http_wf_def by linarith
  moreover have "feed_buf bs (nat (m_read_idx c)) (m_read_buf c) ! (m_checked_idx c - 1) = m_read_buf c ! (m_checked_idx c - 1)"
    if "0 < m_checked_idx c"
    by (rule nth_feed_buf) (use assms that in \<open>auto simp: http_wf_def\<close>)
  ultimately show ?thesis using assms by (auto simp: http_wf_def feed_def)
qed

lemma parse_line_feed_ok:
  assumes wf: "http_wf c" and p: "parse_line c = Inr (LINE_OK, c')"
    and fits: "m_read_idx c + int (length bs) \<le> int READ_BUFFER_SIZE"
  shows "parse_line (feed bs c) = Inr (LINE_OK, feed bs c')"
  using wf
proof (cases rule: parse_line_cases)
  case (stop j ls) with p show ?thesis by simp
next
  case (end_of_line j)
  define n where "n = nat (m_read_idx c)"
  have n: "n \<le> length (m_read_buf c)" "int n = m_read_idx c" "n + length bs \<le> length (m_read_buf c)"
    using wf fits by (auto simp: http_wf_def n_def)
  have jn: "j < n" "j + 1 < n" using end_of_line(2) n by linarith+
  have same: "feed_buf bs n (m_read_buf c) ! k = m_read_buf c ! k" if "k < n" for k
    using nth_feed_buf that n by simp
  have "parse_line (feed bs c) = parse_line ((feed bs c)\<lparr>m_checked_idx := m_checked_idx c\<rparr>)"
    by (simp add: feed_def)
  also have "\<dots> = parse_line ((feed bs c)\<lparr>m_checked_idx := j\<rparr>)"
    using end_of_line n jn same by (intro parse_line_skip) (auto simp: feed_def n_def [symmetric])
  also have "\<dots> = Inr (LINE_OK, (feed bs c)\<lparr>m_read_buf := (feed_buf bs n (m_read_buf c))[j := NUL, j + 1 := NUL],
      m_checked_idx := j + 2\<rparr>)"
    using end_of_line jn n same by (subst parse_line.simps) (auto simp: Let_def feed_def n_def [symmetric])
  also have "\<dots> = Inr (LINE_OK, feed bs c')"
    using end_of_line p jn n by (auto simp: feed_def n_def [symmetric] feed_buf_update)
  finally show ?thesis .
qed

lemma parse_line_feed_stop:
  assumes wf: "http_wf c" and p: "parse_line c = Inr (ls, c')" and ls: "ls \<noteq> LINE_OK"
    and fits: "m_read_idx c + int (length bs) \<le> int READ_BUFFER_SIZE"
  shows "parse_line (feed bs c') = parse_line (feed bs c)"
  using wf
proof (cases rule: parse_line_cases)
  case (end_of_line j) with p ls show ?thesis by simp
next
  case (stop j ls')
  define n where "n = nat (m_read_idx c)"
  have n: "n \<le> length (m_read_buf c)" "int n = m_read_idx c" "n + length bs \<le> length (m_read_buf c)"
    using wf fits by (auto simp: http_wf_def n_def)
  have same: "feed_buf bs n (m_read_buf c) ! k = m_read_buf c ! k" if "k < n" for k
    using nth_feed_buf that n by simp
  have "parse_line (feed bs c) = parse_line ((feed bs c)\<lparr>m_checked_idx := m_checked_idx c\<rparr>)"
    by (simp add: feed_def)
  also have "\<dots> = parse_line ((feed bs c)\<lparr>m_checked_idx := j\<rparr>)"
    using stop n same by (intro parse_line_skip) (auto simp: feed_def n_def [symmetric])
  also have "(feed bs c)\<lparr>m_checked_idx := j\<rparr> = feed bs c'" using stop p by (simp add: feed_def)
  finally show ?thesis by simp
qed

text \<open>A line before the body is handled alike whatever follows it in the buffer.\<close>

lemma handle_line_feed:
  assumes lr: "line_ready c" and st: "m_check_state c \<noteq> CHECK_STATE_CONTENT"
    and h: "handle_line c = Inr (out, ls, c')"
    and fits: "m_read_idx c + int (length bs) \<le> int READ_BUFFER_SIZE"
  shows "handle_line (feed bs c) = Inr (out, ls, feed bs c')"
proof -
  define k where "k = m_checked_idx c"
  define c0 where "c0 = c\<lparr>m_read_buf := take k (m_read_buf c), m_read_idx := m_read_idx c\<rparr>"
  have len: "length (m_read_buf c) = READ_BUFFER_SIZE" "int k \<le> m_read_idx c"
    "m_read_idx c \<le> int READ_BUFFER_SIZE"
    using lr by (simp_all add: line_ready_def k_def)
  define n where "n = nat (m_read_idx c)"
  have n: "k \<le> n" "n \<le> length (m_read_buf c)" using len by (auto simp: n_def)
  have kr: "k \<le> length (m_read_buf c)" using n by simp
  have c: "c = ext_conn (drop k (m_read_buf c)) (m_read_idx c) c0"
    by (simp add: ext_conn_def c0_def)
  define tl' where "tl' = drop k (feed_buf bs n (m_read_buf c))"
  have tk: "take k (feed_buf bs n (m_read_buf c)) = take k (m_read_buf c)"
    using n by (simp add: feed_buf_def)
  have "feed_buf bs n (m_read_buf c) = take k (m_read_buf c) @ tl'"
    unfolding tl'_def using tk by (metis append_take_drop_id)
  then have fc: "feed bs c = ext_conn tl' (m_read_idx c + int (length bs)) c0"
    by (simp add: feed_def ext_conn_def c0_def n_def)
  have st0: "m_check_state c0 \<noteq> CHECK_STATE_CONTENT" using st by (simp add: c0_def)
  note ext = handle_line_ext [OF st0, of "drop k (m_read_buf c)" "m_read_idx c", folded c]
  from handle_line_safe [OF lr st, of "m_read_idx c", folded k_def, folded c0_def]
  obtain d where d: "handle_line c0 = Inr (out, ls, d)" and c': "c' = ext_conn (drop k (m_read_buf c)) (m_read_idx c) d"
  proof
    assume "handle_line c0 = Inl Null_Deref"
    then have "handle_line c = Inl Null_Deref" using res_extE [OF ext] by simp
    then show ?thesis using h by simp
  next
    assume "\<exists>r. handle_line c0 = Inr r"
    then obtain o0 l0 d where d: "handle_line c0 = Inr (o0, l0, d)" by (auto)
    then show ?thesis using that res_extD [OF ext d] h by simp
  qed
  have "length (m_read_buf d) = k"
    using handle_line_buf [OF d] kr by (simp add: no_new_cr_def c0_def)
  then have "feed_buf bs n (m_read_buf c') = m_read_buf d @ tl'"
    using n by (simp add: c' ext_conn_def feed_buf_def tl'_def drop_take)
  then have "feed bs c' = ext_conn tl' (m_read_idx c + int (length bs)) d"
    by (simp add: feed_def c' ext_conn_def n_def)
  moreover have "handle_line (feed bs c) = Inr (out, ls, ext_conn tl' (m_read_idx c + int (length bs)) d)"
    unfolding fc using res_extD [OF handle_line_ext [OF st0] d] by simp
  ultimately show ?thesis by simp
qed

text \<open>The body state is never left.\<close>

lemma handle_line_content:
  "handle_line c = Inr (out, ls, c') \<Longrightarrow> m_check_state c = CHECK_STATE_CONTENT \<Longrightarrow>
   m_check_state c' = CHECK_STATE_CONTENT"
  by (auto simp: handle_line_def Let_def res_simps parse_content_def split: if_splits)

lemma next_line_wf:
  assumes "http_wf c" and "next_line ls c = Inr (ls1, c1)"
  shows "http_wf c1" and "m_check_state c1 = m_check_state c"
proof -
  have "http_wf c1 \<and> m_check_state c1 = m_check_state c"
  proof (cases "m_check_state c = CHECK_STATE_CONTENT \<and> ls = LINE_OK")
    case True
    then show ?thesis using assms by (simp add: next_line_def)
  next
    case False
    then have "parse_line c = Inr (ls1, c1)" using assms(2) by (simp only: next_line_def if_False)
    then show ?thesis using parse_line_wf(1,3) [OF assms(1)] by blast
  qed
  then show "http_wf c1" "m_check_state c1 = m_check_state c" by auto
qed

lemma process_read_loop_content:
  "process_read_loop ls c = Inr (r, c') \<Longrightarrow> http_wf c \<Longrightarrow> m_check_state c = CHECK_STATE_CONTENT \<Longrightarrow>
   m_check_state c' = CHECK_STATE_CONTENT"
proof (induction ls c rule: process_read_loop.induct)
  case (1 ls c)
  from 1(2) obtain ls1 c1 where n: "next_line ls c = Inr (ls1, c1)"
    by (subst (asm) process_read_loop.simps) (auto simp: res_simps)
  note w = next_line_wf [OF 1(3) n]
  show ?case
  proof (cases "ls1 = LINE_OK")
    case False
    then show ?thesis using 1(2,4) n w by (subst (asm) process_read_loop.simps) auto
  next
    case True
    from 1(2) n True obtain out ls2 c2 where h: "handle_line c1 = Inr (out, ls2, c2)"
      by (subst (asm) process_read_loop.simps) (auto simp: res_simps)
    have st2: "m_check_state c2 = CHECK_STATE_CONTENT" using handle_line_content [OF h] w 1(4) by simp
    show ?thesis
    proof (cases out)
      case None
      have "process_read_loop ls2 c2 = Inr (r, c')"
        using 1(2) n True h None by (subst (asm) process_read_loop.simps) simp
      then show ?thesis
        using 1(1) [OF n refl True h refl refl None] st2 handle_line_wf [OF h w(1)] by blast
    next
      case (Some o')
      then show ?thesis using 1(2) n True h st2 by (subst (asm) process_read_loop.simps) simp
    qed
  qed
qed

section \<open>Requests in pieces\<close>

lemma process_read_loop_pieces:
  "process_read_loop ls c = Inr (Return_Code NO_REQUEST, c') \<Longrightarrow> http_wf c \<Longrightarrow> ls = LINE_OK \<Longrightarrow>
    m_check_state c' \<noteq> CHECK_STATE_CONTENT \<Longrightarrow>
    m_read_idx c + int (length bs) \<le> int READ_BUFFER_SIZE \<Longrightarrow>
    process_read_loop LINE_OK (feed bs c') = process_read_loop LINE_OK (feed bs c)"
proof (induction ls c rule: process_read_loop.induct)
  case (1 ls c)
  have stc: "m_check_state c \<noteq> CHECK_STATE_CONTENT"
    using process_read_loop_content [OF 1(2,3)] 1(5) by blast
  have fst: "m_check_state (feed bs d) = m_check_state d" for d by (simp add: feed_def)
  have nl: "next_line ls d = parse_line d" if "m_check_state d = m_check_state c" for ls d
    using that stc by (simp add: next_line_def)
  from 1(2) obtain ls1 c1 where p: "parse_line c = Inr (ls1, c1)"
    using nl [of c] by (subst (asm) process_read_loop.simps) (auto simp: res_simps)
  note w = parse_line_wf [OF 1(3) p]
  show ?case
  proof (cases "ls1 = LINE_OK")
    case False
    then have "c' = c1" using 1(2) p nl [of c] by (subst (asm) process_read_loop.simps) simp
    moreover have "parse_line (feed bs c1) = parse_line (feed bs c)"
      using parse_line_feed_stop [OF 1(3) p False 1(6)] .
    ultimately show ?thesis
      using nl [of "feed bs c"] nl [of "feed bs c1"] fst w(3)
      by (subst (1 2) process_read_loop.simps) simp
  next
    case True
    from 1(2) p True nl [of c] obtain out ls2 c2 where h: "handle_line c1 = Inr (out, ls2, c2)"
      by (subst (asm) process_read_loop.simps) (auto simp: res_simps)
    have out: "out = None \<or> out = Some (Return_Code NO_REQUEST)"
      using 1(2) p True h nl [of c] by (subst (asm) process_read_loop.simps) (auto split: option.splits)
    have none: "out = None"
      using out h by (auto simp: handle_line_def Let_def res_simps split: check_state.splits if_splits)
    have l2: "process_read_loop ls2 c2 = Inr (Return_Code NO_REQUEST, c')"
      using 1(2) p True h none nl [of c] by (subst (asm) process_read_loop.simps) simp
    have ls2: "ls2 = LINE_OK"
      using h stc w(3) by (auto simp: handle_line_def Let_def res_simps split: check_state.splits)
    have idx: "m_read_idx c1 = m_read_idx c" "m_read_idx c2 = m_read_idx c1"
      using parse_line_ok p True handle_line_buf [OF h] by (metis http_conn.select_convs(4) http_conn.update_convs(3,5) http_conn.surjective, blast)
    have ih: "process_read_loop LINE_OK (feed bs c') = process_read_loop LINE_OK (feed bs c2)"
      using 1(1) [OF nl [of c, unfolded p] refl True h refl refl none] l2 ls2
        handle_line_wf [OF h w(1)] 1(5,6) idx by simp
    have "handle_line (feed bs c1) = Inr (None, LINE_OK, feed bs c2)"
      using handle_line_feed [OF w(2) [OF True] _ h] stc w(3) none ls2 1(6) idx by simp
    then have "process_read_loop LINE_OK (feed bs c) = process_read_loop LINE_OK (feed bs c2)"
      using parse_line_feed_ok [OF 1(3) _ 1(6)] p True nl [of "feed bs c"] fst
      by (subst process_read_loop.simps) simp
    then show ?thesis using ih by simp
  qed
qed

lemma read_once_bytes:
  assumes "http_wf c" and "read_once (Recv_Bytes bs) c = Inr (True, d)"
  shows "d = feed bs c" and "m_read_idx c + int (length bs) \<le> int READ_BUFFER_SIZE" and "http_wf d"
proof -
  have "d = feed bs c \<and> m_read_idx c + int (length bs) \<le> int READ_BUFFER_SIZE"
    using assms by (auto simp: read_once_def feed_def feed_buf_def http_wf_def vcopy_def res_simps split: if_splits)
  then show "d = feed bs c" "m_read_idx c + int (length bs) \<le> int READ_BUFFER_SIZE" "http_wf d"
    using feed_wf [OF assms(1)] by auto
qed

text \<open>
  The states the loop passes through: \<open>read_reach (ls, c) (ls', c')\<close> when the loop, started with
  \<open>ls\<close> and \<open>c\<close>, comes to its test with \<open>ls'\<close> and \<open>c'\<close>.
\<close>

inductive read_reach :: "line_status \<Rightarrow> http_conn \<Rightarrow> line_status \<Rightarrow> http_conn \<Rightarrow> bool" where
  here: "read_reach ls c ls c"
| again: "next_line ls c = Inr (LINE_OK, c1) \<Longrightarrow> handle_line c1 = Inr (None, ls2, c2) \<Longrightarrow>
    read_reach ls2 c2 ls' c' \<Longrightarrow> read_reach ls c ls' c'"

text \<open>What can go wrong with a declared body length.\<close>

definition bad_length :: "http_conn \<Rightarrow> bool" where
  "bad_length c \<longleftrightarrow> m_content_length c < 0
     \<or> INT_MAX < m_content_length c + int (m_checked_idx c)
     \<or> m_read_idx c = int READ_BUFFER_SIZE \<and> int READ_BUFFER_SIZE \<le> int (m_start_line c) + m_content_length c"

lemma handle_content_safe:
  assumes wf: "http_wf c" and st: "m_check_state c = CHECK_STATE_CONTENT" and bad: "\<not> bad_length c"
  shows "\<exists>r. handle_line c = Inr r"
proof -
  have len: "0 \<le> m_content_length c" "in_int (m_content_length c + int (m_checked_idx c))"
    using bad by (auto simp: bad_length_def in_int_def INT_MIN_def)
  have "int (m_start_line c) + m_content_length c < int READ_BUFFER_SIZE"
    if "m_content_length c + int (m_checked_idx c) \<le> m_read_idx c"
    using that wf bad unfolding http_wf_def bad_length_def by linarith
  then have "nat (int (m_start_line c) + m_content_length c) < length (m_read_buf c)"
    if "m_content_length c + int (m_checked_idx c) \<le> m_read_idx c"
    using that wf len(1) by (simp add: http_wf_def)
  then show ?thesis using st len
    by (auto simp: handle_line_def Let_def parse_content_def vset_int_def vset_def)
qed

lemma handle_line_ready:
  assumes "line_ready c" and "m_check_state c \<noteq> CHECK_STATE_CONTENT" and "handle_line c = Inl e"
  shows "e = Null_Deref"
proof -
  define k where "k = m_checked_idx c"
  define c0 where "c0 = c\<lparr>m_read_buf := take k (m_read_buf c), m_read_idx := m_read_idx c\<rparr>"
  have c: "c = ext_conn (drop k (m_read_buf c)) (m_read_idx c) c0" by (simp add: ext_conn_def c0_def)
  have "m_check_state c0 \<noteq> CHECK_STATE_CONTENT" using assms(2) by (simp add: c0_def)
  note ext = handle_line_ext [OF this, of "drop k (m_read_buf c)" "m_read_idx c", folded c]
  from handle_line_safe [OF assms(1,2), of "m_read_idx c", folded k_def, folded c0_def] show ?thesis
    using res_extD [OF ext] res_extE [OF ext] assms(3) by fastforce
qed

lemma process_read_loop_wf:
  "process_read_loop ls c = Inr (r, c') \<Longrightarrow> http_wf c \<Longrightarrow> http_wf c'"
proof (induction ls c rule: process_read_loop.induct)
  case (1 ls c)
  from 1(2) obtain ls1 c1 where n: "next_line ls c = Inr (ls1, c1)"
    by (subst (asm) process_read_loop.simps) (auto simp: res_simps)
  note w = next_line_wf(1) [OF 1(3) n]
  show ?case
  proof (cases "ls1 = LINE_OK")
    case False
    then show ?thesis using 1(2) n w by (subst (asm) process_read_loop.simps) auto
  next
    case True
    from 1(2) n True obtain out ls2 c2 where h: "handle_line c1 = Inr (out, ls2, c2)"
      by (subst (asm) process_read_loop.simps) (auto simp: res_simps)
    note w2 = handle_line_wf [OF h w]
    show ?thesis
    proof (cases out)
      case None
      have "process_read_loop ls2 c2 = Inr (r, c')"
        using 1(2) n True h None by (subst (asm) process_read_loop.simps) simp
      then show ?thesis using 1(1) [OF n refl True h refl refl None] w2 by blast
    next
      case (Some o')
      then show ?thesis using 1(2) n True h w2 by (subst (asm) process_read_loop.simps) simp
    qed
  qed
qed

lemma process_read_loop_fails:
  "process_read_loop ls c = Inl e \<Longrightarrow> http_wf c \<Longrightarrow> e \<noteq> Null_Deref \<Longrightarrow>
   \<exists>ls' c' c1. read_reach ls c ls' c' \<and> next_line ls' c' = Inr (LINE_OK, c1)
     \<and> m_check_state c1 = CHECK_STATE_CONTENT \<and> bad_length c1"
proof (induction ls c rule: process_read_loop.induct)
  case (1 ls c)
  have "\<exists>x. next_line ls c = Inr x"
  proof (cases "m_check_state c = CHECK_STATE_CONTENT \<and> ls = LINE_OK")
    case False
    then show ?thesis using parse_line_cases [OF 1(3)] by (metis next_line_def)
  qed (simp add: next_line_def)
  then obtain ls1 c1 where n: "next_line ls c = Inr (ls1, c1)" by auto
  note w = next_line_wf [OF 1(3) n]
  have ok: "ls1 = LINE_OK" using 1(2) n by (subst (asm) process_read_loop.simps) (auto split: if_splits)
  show ?case
  proof (cases "\<exists>out ls2 c2. handle_line c1 = Inr (out, ls2, c2)")
    case True
    then obtain out ls2 c2 where h: "handle_line c1 = Inr (out, ls2, c2)" by blast
    have none: "out = None" and l2: "process_read_loop ls2 c2 = Inl e"
      using 1(2) n ok h by (subst (asm) process_read_loop.simps, auto split: option.splits)+
    from 1(1) [OF n refl ok h refl refl none l2 handle_line_wf [OF h w(1)] 1(4)]
    show ?thesis using read_reach.again [of ls c c1 ls2 c2] n ok h none by blast
  next
    case False
    then obtain e' where e': "handle_line c1 = Inl e'"
      by (cases "handle_line c1") auto
    have "e' = e" using 1(2) n ok e' by (subst (asm) process_read_loop.simps) simp
    have st: "m_check_state c1 = CHECK_STATE_CONTENT"
    proof (rule ccontr)
      assume nc: "m_check_state c1 \<noteq> CHECK_STATE_CONTENT"
      then have "parse_line c = Inr (LINE_OK, c1)" using n ok w(2) by (simp add: next_line_def)
      then show False
        using handle_line_ready [OF parse_line_wf(2) [OF 1(3)] nc e'] \<open>e' = e\<close> 1(4) by blast
    qed
    then have "bad_length c1" using handle_content_safe [OF w(1)] e' by fastforce
    then show ?thesis using read_reach.here [of ls c] n ok st by blast
  qed
qed

text \<open>
  C19. The cut of the incoming bytes into \<open>recv\<close> calls does not matter before the body: when
  \<open>process_read\<close> has consumed a part, asked for more and is still in the request line or the
  headers, reading on gives the same outcome and the same connection, field by field, as if all
  the bytes had arrived before the first call.
\<close>

theorem http_pieces_equal_whole:
  assumes "http_wf c"
    and "process_read_loop LINE_OK c = Inr (Return_Code NO_REQUEST, c')"
    and "m_check_state c' \<noteq> CHECK_STATE_CONTENT"
    and "read_once (Recv_Bytes bs) c = Inr (True, d)"
    and "read_once (Recv_Bytes bs) c' = Inr (True, d')"
  shows "process_read_loop LINE_OK d' = process_read_loop LINE_OK d"
  using process_read_loop_pieces [OF assms(2,1) refl assms(3)] read_once_bytes [OF assms(1,4)]
    read_once_bytes [OF process_read_loop_wf [OF assms(2,1)] assms(5)] by simp


text \<open>Without a line end in the new bytes the splitter stops behind them.\<close>

lemma parse_line_open:
  assumes "http_wf c" and "\<forall>k. m_checked_idx c \<le> k \<and> int k < m_read_idx c \<longrightarrow> m_read_buf c ! k \<notin> {CR, LF}"
  shows "parse_line c = Inr (LINE_OPEN, c\<lparr>m_checked_idx := nat (m_read_idx c)\<rparr>)"
proof -
  have "parse_line (c\<lparr>m_checked_idx := m_checked_idx c\<rparr>) = parse_line (c\<lparr>m_checked_idx := nat (m_read_idx c)\<rparr>)"
    using assms by (intro parse_line_skip) (auto simp: http_wf_def zless_nat_eq_int_zless)
  also have "\<dots> = Inr (LINE_OPEN, c\<lparr>m_checked_idx := nat (m_read_idx c)\<rparr>)"
    using assms(1) by (subst parse_line.simps) (simp add: Let_def http_wf_def)
  finally show ?thesis by simp
qed

lemma feed_init_wf: "length bs \<le> READ_BUFFER_SIZE \<Longrightarrow> http_wf (feed bs (http_init c))"
  by (rule feed_wf [OF http_init_wf]) (simp add: http_init_def)

lemma process_read_open:
  assumes "http_wf c" and "m_check_state c \<noteq> CHECK_STATE_CONTENT"
    and "\<forall>k. m_checked_idx c \<le> k \<and> int k < m_read_idx c \<longrightarrow> m_read_buf c ! k \<notin> {CR, LF}"
  shows "process_read_loop LINE_OK c = Inr (Return_Code NO_REQUEST, c\<lparr>m_checked_idx := nat (m_read_idx c)\<rparr>)"
  using assms(2) parse_line_open [OF assms(1,3)]
  by (subst process_read_loop.simps) (simp add: next_line_def)

theorem http_pieces_equal_whole_witness:
  "\<exists>c c' d d'. process_read_loop LINE_OK c = Inr (Return_Code NO_REQUEST, c')
     \<and> m_checked_idx c' = 2
     \<and> read_once (Recv_Bytes ''T /a HTTP/1.1'') c' = Inr (True, d')
     \<and> process_read_loop LINE_OK d' = process_read_loop LINE_OK d
     \<and> take 15 (m_read_buf d) = ''GET /a HTTP/1.1''"
proof -
  define c where "c = feed ''GE'' (http_init fresh_conn)"
  have wf: "http_wf c" unfolding c_def by (rule feed_init_wf) (simp add: READ_BUFFER_SIZE_def)
  have c: "m_read_idx c = 2" "m_checked_idx c = 0" "m_check_state c = CHECK_STATE_REQUESTLINE"
    "m_read_buf c = ''GE'' @ replicate 2046 NUL"
    by (simp_all add: c_def feed_def http_init_def feed_buf_def READ_BUFFER_SIZE_def)
  have "m_read_buf c ! k \<notin> {CR, LF}" if "int k < m_read_idx c" for k
    using that c by (auto simp: nth_append CR_def LF_def nth_Cons split: nat.splits)
  then have l: "process_read_loop LINE_OK c = Inr (Return_Code NO_REQUEST, c\<lparr>m_checked_idx := 2\<rparr>)"
    using process_read_open [OF wf] c by simp
  have fits: "m_read_idx c + int (length ''T /a HTTP/1.1'') \<le> int READ_BUFFER_SIZE"
    using c by (simp add: READ_BUFFER_SIZE_def)
  note w' = process_read_loop_wf [OF l wf]
  have r: "read_once (Recv_Bytes ''T /a HTTP/1.1'') c = Inr (True, feed ''T /a HTTP/1.1'' c)"
    "read_once (Recv_Bytes ''T /a HTTP/1.1'') (c\<lparr>m_checked_idx := 2\<rparr>) =
       Inr (True, feed ''T /a HTTP/1.1'' (c\<lparr>m_checked_idx := 2\<rparr>))"
    by (rule read_once_feed [OF wf fits], simp, rule read_once_feed [OF w'], use fits in simp_all)
  have "process_read_loop LINE_OK (feed ''T /a HTTP/1.1'' (c\<lparr>m_checked_idx := 2\<rparr>)) =
      process_read_loop LINE_OK (feed ''T /a HTTP/1.1'' c)"
    using http_pieces_equal_whole [OF wf l _ r] c by simp
  moreover have "take 15 (m_read_buf (feed ''T /a HTTP/1.1'' c)) = ''GET /a HTTP/1.1''"
    using c by (simp add: feed_def feed_buf_def)
  ultimately show ?thesis using l r
    by (intro exI [of _ c] exI [of _ "c\<lparr>m_checked_idx := 2\<rparr>"] exI [of _ "feed ''T /a HTTP/1.1'' c"]
        exI [of _ "feed ''T /a HTTP/1.1'' (c\<lparr>m_checked_idx := 2\<rparr>)"]) simp
qed

end
