(* ===== verification/Web_Log.thy ===== *)
theory Web_Log
  imports Block_Queue C_Strings
begin

text \<open>
  The log of TinyWebServer (\<open>class Log\<close>, log/log.h and log/log.cpp): opening and rotating the log
  file, formatting a line into \<open>m_buf\<close>, and handing it to the file or to the queue of the writer thread.
  The files are a map from names to what was written; the broken-down time is an argument.
\<close>

section \<open>State\<close>

record tm_time =
  tm_year :: int
  tm_mon :: int
  tm_mday :: int
  tm_hour :: int
  tm_min :: int
  tm_sec :: int
  tm_usec :: int

record web_log =
  dir_name :: string
  log_name :: string
  m_split_lines :: int
  m_log_buf_size :: nat
  m_count :: int
  m_today :: int
  m_fp :: "string option"
  m_buf :: "char list"
  m_log_queue :: "string block_queue option"
  m_is_async :: bool
  log_files :: "string \<Rightarrow> string"

text \<open>
  The only object is a local \<open>static\<close>: its fields are zero before the constructor runs, so the two
  names are empty strings.
\<close>

definition Log_new :: web_log where
  "Log_new = \<lparr>dir_name = [], log_name = [], m_split_lines = 0, m_log_buf_size = 0, m_count = 0, m_today = 0,
     m_fp = None, m_buf = [], m_log_queue = None, m_is_async = False, log_files = (\<lambda>_. [])\<rparr>"

section \<open>Formatting\<close>

text \<open>\<open>%02d\<close> and \<open>%06ld\<close> for numbers that are not negative; \<open>snprintf\<close> keeps one character less than its size.\<close>

definition pad :: "nat \<Rightarrow> int \<Rightarrow> string" where
  "pad w i = replicate (w - length (to_string i)) (CHR ''0'') @ to_string i"

definition snprintf :: "nat \<Rightarrow> string \<Rightarrow> string" where
  "snprintf sz s = take (sz - 1) s"

text \<open>What \<open>snprintf(buf, sz, ...)\<close> stores at \<open>buf\<close>.\<close>

definition stored :: "nat \<Rightarrow> string \<Rightarrow> string" where
  "stored sz s = (if sz = 0 then [] else snprintf sz s @ [NUL])"

definition date_text :: "tm_time \<Rightarrow> char \<Rightarrow> string" where
  "date_text t sep =
     to_string (tm_year t + 1900) @ [sep] @ pad 2 (tm_mon t + 1) @ [sep] @ pad 2 (tm_mday t)"

definition level_text :: "int \<Rightarrow> string" where
  "level_text level =
     (if level = 0 then ''[debug]:'' else if level = 1 then ''[info]:'' else if level = 2 then ''[warn]:''
      else if level = 3 then ''[erro]:'' else ''[info]:'')"

definition stamp_text :: "tm_time \<Rightarrow> int \<Rightarrow> string" where
  "stamp_text t level =
     date_text t (CHR ''-'') @ '' '' @ pad 2 (tm_hour t) @ '':'' @ pad 2 (tm_min t) @ '':'' @ pad 2 (tm_sec t)
     @ ''.'' @ pad 6 (tm_usec t) @ '' '' @ level_text level @ '' ''"

section \<open>Opening\<close>

text \<open>\<open>fopen(name, "a")\<close> may fail; \<open>can_open\<close> says whether it does.\<close>

definition log_init ::
  "(string \<Rightarrow> bool) \<Rightarrow> tm_time \<Rightarrow> string \<Rightarrow> nat \<Rightarrow> int \<Rightarrow> int \<Rightarrow> web_log \<Rightarrow> (bool \<times> web_log) res" where
  "log_init can_open t file_name log_buf_size split_lines max_queue_size l =
     bind_res (if 1 \<le> max_queue_size
               then bind_res (block_queue_init max_queue_size []) (\<lambda>q. Inr (l\<lparr>m_is_async := True, m_log_queue := Some q\<rparr>))
               else Inr l) (\<lambda>l1.
     (let l2 = l1\<lparr>m_log_buf_size := log_buf_size, m_buf := replicate log_buf_size NUL, m_split_lines := split_lines\<rparr>;
          p = find_last_of file_name (CHR ''/'') in
      bind_res (case p of
          None \<Rightarrow> Inr (l2, snprintf 255 (date_text t (CHR ''_'') @ ''_'' @ file_name))
        | Some i \<Rightarrow>
            if 128 \<le> length (drop (i + 1) file_name) \<or> 128 \<le> i + 1 then Inl Out_Of_Bounds
            else
              (let l3 = l2\<lparr>log_name := drop (i + 1) file_name, dir_name := take (i + 1) file_name\<rparr>
               in Inr (l3, snprintf 255 (dir_name l3 @ date_text t (CHR ''_'') @ ''_'' @ log_name l3)))) (\<lambda>(l4, full).
      (let l5 = l4\<lparr>m_today := tm_mday t\<rparr> in
       Inr (if can_open full then (True, l5\<lparr>m_fp := Some full\<rparr>) else (False, l5\<lparr>m_fp := None\<rparr>))))))"

section \<open>Writing\<close>

text \<open>The rotation at the start of \<open>write_log\<close>: a new day, or \<open>m_split_lines\<close> lines.\<close>

definition rotated_name :: "tm_time \<Rightarrow> web_log \<Rightarrow> string" where
  "rotated_name t l =
     (let tail = snprintf 16 (date_text t (CHR ''_'') @ ''_'') in
      if m_today l \<noteq> tm_mday t then snprintf 255 (dir_name l @ tail @ log_name l)
      else snprintf 255 (dir_name l @ tail @ log_name l @ ''.'' @ to_string (c_div (m_count l) (m_split_lines l))))"

definition reopen :: "(string \<Rightarrow> bool) \<Rightarrow> string \<Rightarrow> web_log \<Rightarrow> web_log res" where
  "reopen can_open name l =
     (case m_fp l of
        None \<Rightarrow> Inl Null_Deref
      | Some _ \<Rightarrow> Inr (l\<lparr>m_fp := (if can_open name then Some name else None)\<rparr>))"

definition log_rotate :: "(string \<Rightarrow> bool) \<Rightarrow> tm_time \<Rightarrow> web_log \<Rightarrow> web_log res" where
  "log_rotate can_open t l =
     (let l1 = l\<lparr>m_count := m_count l + 1\<rparr> in
      if m_today l1 \<noteq> tm_mday t then reopen can_open (rotated_name t l1) (l1\<lparr>m_today := tm_mday t, m_count := 0\<rparr>)
      else if m_split_lines l1 = 0 then Inl Division_By_Zero
      else if c_mod (m_count l1) (m_split_lines l1) = 0 then reopen can_open (rotated_name t l1) l1
      else Inr l1)"

text \<open>
  The line is built in \<open>m_buf\<close>: the time stamp in the first 48 characters, the message behind it with a
  limit that does not count the stamp, then a line feed and a terminator.
\<close>

definition format_line :: "tm_time \<Rightarrow> int \<Rightarrow> string \<Rightarrow> web_log \<Rightarrow> (string \<times> web_log) res" where
  "format_line t level msg l =
     (let stamp = stamp_text t level; n = length stamp; m = length msg in
      bind_res (vcopy (m_buf l) 0 (stored 48 stamp)) (\<lambda>b1.
      bind_res (vcopy b1 n (stored (m_log_buf_size l - 1) msg)) (\<lambda>b2.
      bind_res (vset b2 (n + m) LF) (\<lambda>b3.
      bind_res (vset b3 (n + m + 1) NUL) (\<lambda>b4.
      bind_res (cstr b4 0) (\<lambda>line. Inr (line, l\<lparr>m_buf := b4\<rparr>)))))))"

definition put_file :: "string \<Rightarrow> web_log \<Rightarrow> web_log res" where
  "put_file s l =
     (case m_fp l of
        None \<Rightarrow> Inl Null_Deref
      | Some name \<Rightarrow> Inr (l\<lparr>log_files := (log_files l)(name := log_files l name @ s)\<rparr>))"

definition write_log :: "(string \<Rightarrow> bool) \<Rightarrow> tm_time \<Rightarrow> int \<Rightarrow> string \<Rightarrow> web_log \<Rightarrow> web_log res" where
  "write_log can_open t level msg l =
     bind_res (log_rotate can_open t l) (\<lambda>l1.
     bind_res (format_line t level msg l1) (\<lambda>(log_str, l2).
     case m_log_queue l2 of
       Some q \<Rightarrow>
         if m_is_async l2 \<and> \<not> bq_full q then
           bind_res (bq_push q log_str) (\<lambda>r. Inr (case r of Some q1 \<Rightarrow> l2\<lparr>m_log_queue := Some q1\<rparr> | None \<Rightarrow> l2))
         else put_file log_str l2
     | None \<Rightarrow> put_file log_str l2))"

text \<open>One round of the writer thread: \<open>None\<close> when the queue is empty and it waits.\<close>

definition async_write_log :: "web_log \<Rightarrow> web_log option res" where
  "async_write_log l =
     (case m_log_queue l of
        None \<Rightarrow> Inl Uninit_Read
      | Some q \<Rightarrow>
          bind_res (bq_pop q) (\<lambda>r. case r of
            None \<Rightarrow> Inr None
          | Some (single_log, q1) \<Rightarrow> bind_res (put_file single_log (l\<lparr>m_log_queue := Some q1\<rparr>)) (\<lambda>l1. Inr (Some l1))))"

section \<open>Correctness\<close>

definition valid_time :: "tm_time \<Rightarrow> bool" where
  "valid_time t \<longleftrightarrow> 0 \<le> tm_year t \<and> tm_year t < 8000 \<and> 0 \<le> tm_mon t \<and> tm_mon t < 12 \<and> 1 \<le> tm_mday t
     \<and> tm_mday t < 32 \<and> 0 \<le> tm_hour t \<and> tm_hour t < 24 \<and> 0 \<le> tm_min t \<and> tm_min t < 60 \<and> 0 \<le> tm_sec t
     \<and> tm_sec t \<le> 60 \<and> 0 \<le> tm_usec t \<and> tm_usec t < 1000000"

lemma to_string_width: "0 \<le> i \<Longrightarrow> i < 10 ^ k \<Longrightarrow> 0 < k \<Longrightarrow> length (to_string i) \<le> k"
proof -
  assume i: "0 \<le> i" "i < 10 ^ k" "0 < k"
  then have "nat i < 10 ^ k" by (metis nat_less_iff of_nat_numeral of_nat_power)
  then show ?thesis using length_nat_str i by (simp add: to_string_def)
qed

lemma pad_width: "0 \<le> i \<Longrightarrow> i < 10 ^ k \<Longrightarrow> 0 < k \<Longrightarrow> length (pad k i) = k"
  using to_string_width [of i k] by (simp add: pad_def)

lemma to_string_no_nul: "0 \<le> i \<Longrightarrow> NUL \<notin> set (to_string i)"
proof -
  assume "0 \<le> i"
  have "\<not> is_digit NUL" by (simp add: is_digit_def NUL_def)
  then have "NUL \<notin> set (nat_str (nat i))" using nat_str_digits [of "nat i"] by (auto simp: list_all_iff)
  then show ?thesis using \<open>0 \<le> i\<close> by (simp add: to_string_def)
qed

lemma pad_no_nul: "0 \<le> i \<Longrightarrow> NUL \<notin> set (pad k i)"
  using to_string_no_nul [of i] by (auto simp: pad_def NUL_def)

lemma stamp_fits:
  assumes "valid_time t"
  shows "length (stamp_text t level) < 48" and "NUL \<notin> set (stamp_text t level)" and "2 \<le> length (stamp_text t level)"
proof -
  have "length (to_string (tm_year t + 1900)) \<le> 4" using assms by (intro to_string_width) (auto simp: valid_time_def)
  moreover have "length (pad 2 (tm_mon t + 1)) = 2" "length (pad 2 (tm_mday t)) = 2" "length (pad 2 (tm_hour t)) = 2"
    "length (pad 2 (tm_min t)) = 2" "length (pad 2 (tm_sec t)) = 2" "length (pad 6 (tm_usec t)) = 6"
    using assms by (auto simp: valid_time_def intro!: pad_width)
  moreover have "length (level_text level) \<le> 8" by (simp add: level_text_def)
  ultimately show "length (stamp_text t level) < 48" "2 \<le> length (stamp_text t level)"
    by (simp_all add: stamp_text_def date_text_def)
  show "NUL \<notin> set (stamp_text t level)"
    using assms to_string_no_nul [of "tm_year t + 1900"] pad_no_nul
    by (simp add: stamp_text_def date_text_def valid_time_def level_text_def) (simp add: NUL_def)
qed

lemma format_line_fits:
  assumes t: "valid_time t" and size: "m_log_buf_size l = length (m_buf l)" and msg: "NUL \<notin> set msg"
    and fits: "length (stamp_text t level) + length msg + 2 \<le> length (m_buf l)"
  shows "\<exists>b. format_line t level msg l = Inr (stamp_text t level @ msg @ [LF], l\<lparr>m_buf := b\<rparr>) \<and> length b = length (m_buf l)"
proof -
  define stamp where "stamp = stamp_text t level"
  define n where "n = length stamp"
  note st = stamp_fits [OF t, of level, folded stamp_def n_def]
  have s1: "stored 48 stamp = stamp @ [NUL]" using st(1) by (simp add: stored_def snprintf_def n_def)
  have s2: "stored (m_log_buf_size l - 1) msg = msg @ [NUL]"
    using fits st(3) by (simp add: stored_def snprintf_def size stamp_def [symmetric] n_def)
  define b1 where "b1 = stamp @ NUL # drop (n + 1) (m_buf l)"
  have c1: "vcopy (m_buf l) 0 (stamp @ [NUL]) = Inr b1" using fits by (simp add: vcopy_def b1_def n_def stamp_def)
  have l1: "length b1 = length (m_buf l)" using fits by (simp add: b1_def n_def stamp_def)
  define r where "r = drop (n + length msg + 1) b1"
  have c2: "vcopy b1 n (msg @ [NUL]) = Inr (stamp @ msg @ NUL # r)"
    using fits l1 by (simp add: vcopy_def n_def r_def stamp_def [symmetric]) (simp add: b1_def)
  obtain r0 rs where r: "r = r0 # rs" using fits l1 by (cases r) (auto simp: r_def n_def stamp_def)
  have nm: "n + length msg = length (stamp @ msg)" by (simp add: n_def)
  have c3: "vset (stamp @ msg @ NUL # r) (n + length msg) LF = Inr (stamp @ msg @ LF # r)"
    unfolding nm by (simp add: vset_def list_update_append)
  have c4: "vset (stamp @ msg @ LF # r) (n + length msg + 1) NUL = Inr (stamp @ msg @ LF # NUL # rs)"
    unfolding nm r by (simp add: vset_def list_update_append)
  have "NUL \<notin> set (stamp @ msg @ [LF])" using st(2) msg by (simp add: LF_def NUL_def)
  from holds_strI [OF this, of "[]" 0 rs] have c5: "cstr (stamp @ msg @ LF # NUL # rs) 0 = Inr (stamp @ msg @ [LF])"
    by (simp add: cstr_holds)
  have "length (stamp @ msg @ LF # NUL # rs) = length (m_buf l)"
    using l1 fits arg_cong [OF r, of length] by (simp add: r_def n_def stamp_def [symmetric])
  moreover have "format_line t level msg l = Inr (stamp @ msg @ [LF], l\<lparr>m_buf := stamp @ msg @ LF # NUL # rs\<rparr>)"
    unfolding format_line_def Let_def stamp_def [symmetric] n_def [symmetric] s1 s2
    by (simp add: c1 c2 c3 c4 [simplified] c5)
  ultimately show ?thesis unfolding stamp_def by blast
qed

lemma vcopy_cases:
  obtains "vcopy b i s = Inl Out_Of_Bounds" | b1 where "vcopy b i s = Inr b1" "length b1 = length b"
  by (cases "vcopy b i s") (auto simp: vcopy_def split: if_splits)

lemma format_line_overflows:
  assumes long: "length (m_buf l) < length (stamp_text t level) + length msg + 2"
  shows "format_line t level msg l = Inl Out_Of_Bounds"
proof (cases rule: vcopy_cases [of "m_buf l" 0 "stored 48 (stamp_text t level)"])
  case 1
  then show ?thesis by (simp add: format_line_def Let_def)
next
  case (2 b1)
  let ?n = "length (stamp_text t level)"
  show ?thesis
  proof (cases rule: vcopy_cases [of b1 ?n "stored (m_log_buf_size l - 1) msg"])
    case 1
    then show ?thesis using 2 by (simp add: format_line_def Let_def)
  next
    case c2: (2 b2)
    then show ?thesis using 2 long
      by (cases "length b2 \<le> ?n + length msg") (simp_all add: format_line_def Let_def vset_def)
  qed
qed

section \<open>A run of lines\<close>

text \<open>A call \<open>write_log(level, ...)\<close> at time \<open>t\<close> whose format expands to \<open>msg\<close>.\<close>

type_synonym log_call = "tm_time \<times> int \<times> string"

fun write_logs :: "(string \<Rightarrow> bool) \<Rightarrow> log_call list \<Rightarrow> web_log \<Rightarrow> web_log res" where
  "write_logs can_open [] l = Inr l"
| "write_logs can_open ((t, level, msg) # cs) l = bind_res (write_log can_open t level msg l) (write_logs can_open cs)"

definition log_line :: "log_call \<Rightarrow> string" where
  "log_line c = (case c of (t, level, msg) \<Rightarrow> stamp_text t level @ msg @ [LF])"

text \<open>What \<open>init\<close> makes of the file name: directory and base name are kept only if it has a slash.\<close>

definition log_dir :: "string \<Rightarrow> string" where
  "log_dir file_name = (case find_last_of file_name (CHR ''/'') of None \<Rightarrow> [] | Some i \<Rightarrow> take (i + 1) file_name)"

definition log_base :: "string \<Rightarrow> string" where
  "log_base file_name = (case find_last_of file_name (CHR ''/'') of None \<Rightarrow> [] | Some i \<Rightarrow> drop (i + 1) file_name)"

definition first_file :: "tm_time \<Rightarrow> string \<Rightarrow> string" where
  "first_file t file_name = snprintf 255
     (log_dir file_name @ date_text t (CHR ''_'') @ ''_'' @ (if CHR ''/'' \<in> set file_name then log_base file_name else file_name))"

definition later_file :: "tm_time \<Rightarrow> string \<Rightarrow> int \<Rightarrow> string" where
  "later_file t file_name j = snprintf 255
     (log_dir file_name @ date_text t (CHR ''_'') @ ''_'' @ log_base file_name @ ''.'' @ to_string j)"

text \<open>The file that takes line \<open>k\<close> (counted from 1) of the day.\<close>

definition file_of_line :: "tm_time \<Rightarrow> string \<Rightarrow> int \<Rightarrow> nat \<Rightarrow> string" where
  "file_of_line t file_name split k =
     (if int k < split then first_file t file_name else later_file t file_name (int k div split))"

text \<open>The file of the first line of a later day.\<close>

definition day_file :: "tm_time \<Rightarrow> string \<Rightarrow> string" where
  "day_file t file_name = snprintf 255 (log_dir file_name @ date_text t (CHR ''_'') @ ''_'' @ log_base file_name)"

text \<open>
  Where the lines of a log go: the file, the day and the number of the line within the day after a call at time \<open>t\<close>. The line that
  finds a new day is number 0 of it.
\<close>

definition next_place :: "string \<Rightarrow> int \<Rightarrow> string \<times> int \<times> nat \<Rightarrow> tm_time \<Rightarrow> string \<times> int \<times> nat" where
  "next_place file_name split p t =
     (case p of (cur, day, k) \<Rightarrow>
        if tm_mday t \<noteq> day then (day_file t file_name, tm_mday t, 0)
        else if int (k + 1) mod split = 0 then (later_file t file_name (int (k + 1) div split), day, k + 1)
        else (cur, day, k + 1))"

definition places :: "string \<Rightarrow> int \<Rightarrow> string \<times> int \<times> nat \<Rightarrow> log_call list \<Rightarrow> string \<times> int \<times> nat" where
  "places file_name split p cs = foldl (\<lambda>q c. next_place file_name split q (fst c)) p cs"

fun files_of :: "string \<Rightarrow> int \<Rightarrow> string \<times> int \<times> nat \<Rightarrow> log_call list \<Rightarrow> string list" where
  "files_of file_name split p [] = []"
| "files_of file_name split p (c # cs) =
     (let q = next_place file_name split p (fst c) in fst q # files_of file_name split q cs)"

definition lines_in :: "string list \<Rightarrow> string list \<Rightarrow> string \<Rightarrow> string" where
  "lines_in names ls name = concat (map snd (filter (\<lambda>(n, _). n = name) (zip names ls)))"

lemma files_of_snoc:
  "files_of f split p (cs @ [c]) = files_of f split p cs @ [fst (next_place f split (places f split p cs) (fst c))]"
  by (induction cs arbitrary: p) (simp_all add: places_def Let_def)

lemma length_files_of [simp]: "length (files_of f split p cs) = length cs"
  by (induction cs arbitrary: p) (simp_all add: Let_def)

lemma lines_in_snoc:
  "length names = length ls \<Longrightarrow> lines_in (names @ [n]) (ls @ [x]) name = lines_in names ls name @ (if n = name then x else [])"
  by (simp add: lines_in_def)

definition log_start :: "tm_time \<Rightarrow> string \<Rightarrow> string \<times> int \<times> nat" where
  "log_start t file_name = (first_file t file_name, tm_mday t, 0)"

text \<open>What holds of a log written without a queue between two lines.\<close>

definition log_at :: "string \<Rightarrow> int \<Rightarrow> nat \<Rightarrow> string \<times> int \<times> nat \<Rightarrow> web_log \<Rightarrow> bool" where
  "log_at file_name split sz p l \<longleftrightarrow>
     dir_name l = log_dir file_name \<and> log_name l = log_base file_name \<and> m_split_lines l = split
     \<and> m_log_queue l = None \<and> m_log_buf_size l = sz \<and> length (m_buf l) = sz
     \<and> (case p of (cur, day, k) \<Rightarrow> m_count l = int k \<and> m_today l = day \<and> m_fp l = Some cur)"

definition same_day :: "tm_time \<Rightarrow> tm_time \<Rightarrow> bool" where
  "same_day t0 t \<longleftrightarrow> valid_time t \<and> tm_year t = tm_year t0 \<and> tm_mon t = tm_mon t0 \<and> tm_mday t = tm_mday t0"

definition good_call :: "nat \<Rightarrow> log_call \<Rightarrow> bool" where
  "good_call sz c \<longleftrightarrow> (case c of (t, level, msg) \<Rightarrow>
     valid_time t \<and> NUL \<notin> set msg \<and> length (stamp_text t level) + length msg + 2 \<le> sz)"

lemma log_init_at:
  assumes "length (log_dir file_name) < 128" "length (log_base file_name) < 128" "0 < split"
  shows "\<exists>l. log_init can_open t file_name sz split 0 Log_new = Inr (can_open (first_file t file_name), l)
           \<and> (can_open (first_file t file_name) \<longrightarrow>
                log_at file_name split sz (first_file t file_name, tm_mday t, 0) l \<and> log_files l = (\<lambda>_. []))"
proof (cases "find_last_of file_name (CHR ''/'')")
  case None
  then have "CHR ''/'' \<notin> set file_name" by (simp add: find_last_of_none)
  then show ?thesis using None assms
    by (simp add: log_init_def Log_new_def log_at_def first_file_def log_dir_def log_base_def Let_def)
next
  case (Some i)
  then have "CHR ''/'' \<in> set file_name" using find_last_of_none [of file_name "CHR ''/''"] by simp
  moreover have "i < length file_name" using find_last_of_bound Some by simp
  ultimately show ?thesis using Some assms
    by (simp add: log_init_def Log_new_def log_at_def first_file_def log_dir_def log_base_def Let_def)
qed

lemma date_tail: "valid_time t \<Longrightarrow> snprintf 16 (date_text t c @ [d]) = date_text t c @ [d]"
proof -
  assume v: "valid_time t"
  have "length (to_string (tm_year t + 1900)) \<le> 4" using v by (intro to_string_width) (auto simp: valid_time_def)
  moreover have "length (pad 2 (tm_mon t + 1)) = 2" "length (pad 2 (tm_mday t)) = 2"
    using v by (auto simp: valid_time_def intro!: pad_width)
  ultimately show ?thesis by (simp add: snprintf_def date_text_def)
qed

lemma int_div_succ: "0 < b \<Longrightarrow> (a + 1) mod b \<noteq> 0 \<Longrightarrow> (a + 1) div b = a div b" for a b :: int
proof -
  assume b: "0 < b" and m: "(a + 1) mod b \<noteq> 0"
  have "a mod b + 1 \<noteq> b" using m mod_add_left_eq [of a b 1] by auto
  then have "a mod b + 1 < b" using pos_mod_bound [OF b, of a] by simp
  then show ?thesis using b by (intro int_div_pos_eq [of _ _ _ "a mod b + 1"]) simp_all
qed

lemma file_of_next_line:
  assumes sp: "0 < split" and d: "same_day t0 t"
  shows "next_place f split (file_of_line t0 f split k, tm_mday t0, k) t = (file_of_line t0 f split (k + 1), tm_mday t0, k + 1)"
proof (cases "(int k + 1) mod split = 0")
  case False
  have "file_of_line t0 f split (k + 1) = file_of_line t0 f split k"
  proof (cases "int (k + 1) < split")
    case True
    then show ?thesis by (simp add: file_of_line_def)
  next
    case big: False
    then have "int k \<ge> split" using False sp by (cases "int k + 1 = split") auto
    moreover have "int (k + 1) div split = int k div split"
      using False sp int_div_succ [of split "int k"] by (simp add: add.commute)
    ultimately show ?thesis using big by (simp add: file_of_line_def)
  qed
  then show ?thesis using False d by (simp add: next_place_def same_day_def add.commute)
next
  case True
  have "split \<le> int (k + 1)" using True sp zmod_trivial_iff [of "int k + 1" split] by force
  then have "file_of_line t0 f split (k + 1) = later_file t0 f (int (k + 1) div split)"
    by (simp add: file_of_line_def)
  moreover have "date_text t c = date_text t0 c" for c using d by (simp add: date_text_def same_day_def)
  ultimately show ?thesis using True d by (simp add: next_place_def same_day_def later_file_def add.commute)
qed

lemma files_of_one_day:
  assumes "0 < split" "\<forall>c\<in>set cs. same_day t0 (fst c)"
  shows "files_of f split (file_of_line t0 f split k, tm_mday t0, k) cs = map (file_of_line t0 f split) [k + 1..<k + 1 + length cs]"
  using assms(2)
proof (induction cs arbitrary: k)
  case (Cons c cs)
  have "next_place f split (file_of_line t0 f split k, tm_mday t0, k) (fst c) = (file_of_line t0 f split (k + 1), tm_mday t0, k + 1)"
    using Cons.prems by (intro file_of_next_line [OF assms(1)]) simp
  moreover have "[k + 1..<k + 1 + length (c # cs)] = (k + 1) # [k + 2..<k + 2 + length cs]"
    by (subst upt_conv_Cons) simp_all
  ultimately show ?case using Cons.IH [of "k + 1"] Cons.prems by (simp add: Let_def)
qed simp

text \<open>A rotation leaves no open file when the new one cannot be opened.\<close>

lemma rotate_at:
  assumes r: "log_at f split sz p l" and sp: "0 < split" and t: "valid_time t"
    and cur: "can_open (fst p)"
  defines "q \<equiv> next_place f split p t"
  shows "\<exists>l1. log_rotate can_open t l = Inr l1 \<and> log_files l1 = log_files l \<and> m_log_queue l1 = None
    \<and> m_log_buf_size l1 = sz \<and> length (m_buf l1) = sz
    \<and> (if can_open (fst q) then log_at f split sz q l1 else m_fp l1 = None)"
proof -
  obtain c day k where p: "p = (c, day, k)" by (cases p)
  consider "tm_mday t \<noteq> day" | "tm_mday t = day" "(int k + 1) mod split = 0" | "tm_mday t = day" "(int k + 1) mod split \<noteq> 0" by blast
  then show ?thesis
  proof cases
    case 1
    then show ?thesis using r p date_tail [OF t, of "CHR ''_''" "CHR ''_''"]
      by (auto simp: q_def next_place_def log_rotate_def log_at_def reopen_def rotated_name_def day_file_def Let_def)
  next
    case 2
    then show ?thesis using r p sp date_tail [OF t, of "CHR ''_''" "CHR ''_''"]
      by (auto simp: q_def next_place_def log_rotate_def log_at_def reopen_def rotated_name_def later_file_def Let_def
          c_mod_def minus_div_mult_eq_mod add.commute)
  next
    case 3
    then show ?thesis using r p sp cur
      by (auto simp: q_def next_place_def log_rotate_def log_at_def Let_def c_mod_def minus_div_mult_eq_mod add.commute)
  qed
qed

text \<open>One line: it reaches its file, or that cannot be opened, or it does not fit.\<close>

lemma write_log_at:
  assumes r: "log_at f split sz p l" and sp: "0 < split" and t: "valid_time t" and msg: "NUL \<notin> set msg" and cur: "can_open (fst p)"
  defines "q \<equiv> next_place f split p t"
  shows "sz < length (stamp_text t level) + length msg + 2 \<Longrightarrow> write_log can_open t level msg l = Inl Out_Of_Bounds"
    and "length (stamp_text t level) + length msg + 2 \<le> sz \<Longrightarrow> \<not> can_open (fst q) \<Longrightarrow> write_log can_open t level msg l = Inl Null_Deref"
    and "length (stamp_text t level) + length msg + 2 \<le> sz \<Longrightarrow> can_open (fst q) \<Longrightarrow>
      \<exists>l'. write_log can_open t level msg l = Inr l' \<and> log_at f split sz q l'
        \<and> log_files l' = (log_files l)(fst q := log_files l (fst q) @ log_line (t, level, msg))"
proof -
  obtain l1 where l1: "log_rotate can_open t l = Inr l1" "log_files l1 = log_files l" "m_log_queue l1 = None"
    "m_log_buf_size l1 = sz" "length (m_buf l1) = sz" "if can_open (fst q) then log_at f split sz q l1 else m_fp l1 = None"
    using rotate_at [where can_open = can_open, OF r sp t cur] unfolding q_def by blast
  show "write_log can_open t level msg l = Inl Out_Of_Bounds" if "sz < length (stamp_text t level) + length msg + 2"
    using format_line_overflows [of l1 t level msg] that l1(1,5) by (simp add: write_log_def)
  assume "length (stamp_text t level) + length msg + 2 \<le> sz"
  then obtain b where b: "format_line t level msg l1 = Inr (stamp_text t level @ msg @ [LF], l1\<lparr>m_buf := b\<rparr>)"
      "length b = length (m_buf l1)" using format_line_fits [OF t _ msg, of l1 level] l1(4,5) by auto
  show "write_log can_open t level msg l = Inl Null_Deref" if "\<not> can_open (fst q)"
    using l1 b that by (simp add: write_log_def put_file_def)
  show "\<exists>l'. write_log can_open t level msg l = Inr l' \<and> log_at f split sz q l'
        \<and> log_files l' = (log_files l)(fst q := log_files l (fst q) @ log_line (t, level, msg))" if "can_open (fst q)"
    using l1 b that by (cases q) (simp add: write_log_def log_at_def put_file_def log_line_def)
qed

text \<open>With a queue that is full the line goes to the file at once, in front of the lines in the queue.\<close>

lemma write_log_full_queue:
  assumes "m_log_queue l = Some q" "m_is_async l" "bq_full q" "m_fp l = Some name" "m_log_buf_size l = length (m_buf l)"
    and "m_today l = tm_mday t" "m_split_lines l \<noteq> 0" "c_mod (m_count l + 1) (m_split_lines l) \<noteq> 0"
    and "good_call (length (m_buf l)) (t, level, msg)"
  shows "\<exists>l'. write_log can_open t level msg l = Inr l' \<and> m_log_queue l' = Some q
    \<and> log_files l' = (log_files l)(name := log_files l name @ log_line (t, level, msg))"
proof -
  define l1 where "l1 = l\<lparr>m_count := m_count l + 1\<rparr>"
  have "log_rotate can_open t l = Inr l1" using assms(6-8) by (simp add: log_rotate_def Let_def l1_def)
  moreover obtain b where "format_line t level msg l1 = Inr (stamp_text t level @ msg @ [LF], l1\<lparr>m_buf := b\<rparr>)"
    using format_line_fits [of t l1 msg level] assms(5,9) by (auto simp: good_call_def l1_def)
  ultimately show ?thesis using assms(1-4) by (simp add: write_log_def put_file_def log_line_def l1_def)
qed

lemma write_logs_snoc: "write_logs op (cs @ [(t, level, msg)]) l = bind_res (write_logs op cs l) (write_log op t level msg)"
proof (induction cs arbitrary: l)
  case Nil
  show ?case by (cases "write_log op t level msg l") simp_all
next
  case (Cons c cs)
  then have "write_logs op (cs @ [(t, level, msg)]) = (\<lambda>x. bind_res (write_logs op cs x) (write_log op t level msg))" by blast
  then show ?case by (cases c) (simp add: bind_res_assoc)
qed

lemma write_logs_at:
  assumes l: "log_at f split sz p l" "log_files l = (\<lambda>_. [])" "0 < split" "can_open (fst p)"
    and cs: "\<forall>c\<in>set cs. good_call sz c" "\<forall>n\<in>set (files_of f split p cs). can_open n"
  shows "\<exists>l'. write_logs can_open cs l = Inr l' \<and> log_at f split sz (places f split p cs) l' \<and> can_open (fst (places f split p cs))
     \<and> log_files l' = lines_in (files_of f split p cs) (map log_line cs)"
  using cs
proof (induction cs rule: rev_induct)
  case Nil
  then show ?case using l by (simp add: lines_in_def places_def)
next
  case (snoc c cs)
  then obtain l1 where l1: "write_logs can_open cs l = Inr l1" "log_at f split sz (places f split p cs) l1"
    "can_open (fst (places f split p cs))" "log_files l1 = lines_in (files_of f split p cs) (map log_line cs)"
    by (auto simp: files_of_snoc)
  obtain t level msg where c: "c = (t, level, msg)" by (cases c)
  have good: "valid_time t" "NUL \<notin> set msg" "length (stamp_text t level) + length msg + 2 \<le> sz" using snoc.prems(1) c by (simp_all add: good_call_def)
  define q where "q = next_place f split (places f split p cs) t"
  have q: "can_open (fst q)" using snoc.prems(2) c by (simp add: files_of_snoc q_def)
  from write_log_at(3) [where can_open = can_open and level = level, OF l1(2) l(3) good(1,2) l1(3) good(3), folded q_def, OF q] obtain l' where
    l': "write_log can_open t level msg l1 = Inr l'" "log_at f split sz q l'"
    "log_files l' = (log_files l1)(fst q := log_files l1 (fst q) @ log_line (t, level, msg))" by blast
  have "places f split p (cs @ [c]) = q" by (simp add: places_def q_def c)
  moreover have "log_files l' = lines_in (files_of f split p (cs @ [c])) (map log_line (cs @ [c]))"
    using l'(3) l1(4) by (auto simp: fun_eq_iff files_of_snoc lines_in_snoc c q_def)
  ultimately show ?case using l' l1(1) q by (simp add: c write_logs_snoc)
qed

text \<open>
  C30. The log opened without a queue (the build \<open>main\<close> selects), for a file name whose parts fit their arrays and a positive number of lines per file, over any number of days. If the first file can be opened: a sequence of
  calls whose lines fit the buffer with stamp, line feed and terminator, and whose files can be opened, puts every line whole and in order into the file its day and number select (\<open>files_of\<close>); on the first day
  line \<open>k\<close> goes to the first file below \<open>m_split_lines\<close> and to the \<open>k div m_split_lines\<close>-th numbered
  one from then on, and the numbered files lose the base name when the file name has no slash. A next line that
  does not fit is an access outside the buffer; one whose file cannot be opened is written through a null pointer. With the queue of the asynchronous build the order is not kept: a line that
  finds the queue full is in the file at once, in front of those still in the queue.
\<close>

theorem log_lines_in_files:
  assumes "length (log_dir file_name) < 128" "length (log_base file_name) < 128" "0 < split"
  shows "\<exists>l. log_init can_open t0 file_name sz split 0 Log_new = Inr (can_open (first_file t0 file_name), l)
    \<and> (can_open (first_file t0 file_name) \<and> (\<forall>c\<in>set cs. good_call sz c) \<and> (\<forall>n\<in>set (files_of file_name split (log_start t0 file_name) cs). can_open n) \<longrightarrow>
         (\<exists>l'. write_logs can_open cs l = Inr l'
            \<and> log_files l' = lines_in (files_of file_name split (log_start t0 file_name) cs) (map log_line cs)
            \<and> ((\<forall>c\<in>set cs. same_day t0 (fst c)) \<longrightarrow>
                 files_of file_name split (log_start t0 file_name) cs = map (file_of_line t0 file_name split) [1..<Suc (length cs)])
            \<and> (valid_time t \<and> NUL \<notin> set msg \<and> sz < length (stamp_text t level) + length msg + 2 \<longrightarrow>
               write_log can_open t level msg l' = Inl Out_Of_Bounds)
            \<and> (good_call sz (t, level, msg) \<and> \<not> can_open (last (files_of file_name split (log_start t0 file_name) (cs @ [(t, level, msg)]))) \<longrightarrow>
               write_log can_open t level msg l' = Inl Null_Deref)))
    \<and> (\<forall>la q name. m_log_queue la = Some q \<and> m_is_async la \<and> bq_full q \<and> m_fp la = Some name \<and> m_log_buf_size la = length (m_buf la)
         \<and> m_today la = tm_mday t \<and> m_split_lines la \<noteq> 0 \<and> c_mod (m_count la + 1) (m_split_lines la) \<noteq> 0
         \<and> good_call (length (m_buf la)) (t, level, msg) \<longrightarrow>
         (\<exists>lb. write_log can_open t level msg la = Inr lb \<and> m_log_queue lb = Some q
            \<and> log_files lb = (log_files la)(name := log_files la name @ log_line (t, level, msg))))"
proof -
  from log_init_at [OF assms(1-3)] obtain l where l: "log_init can_open t0 file_name sz split 0 Log_new = Inr (can_open (first_file t0 file_name), l)"
    "can_open (first_file t0 file_name) \<longrightarrow> log_at file_name split sz (log_start t0 file_name) l \<and> log_files l = (\<lambda>_. [])" unfolding log_start_def by blast
  have run: "\<exists>l'. write_logs can_open cs l = Inr l'
            \<and> log_files l' = lines_in (files_of file_name split (log_start t0 file_name) cs) (map log_line cs)
            \<and> ((\<forall>c\<in>set cs. same_day t0 (fst c)) \<longrightarrow>
                 files_of file_name split (log_start t0 file_name) cs = map (file_of_line t0 file_name split) [1..<Suc (length cs)])
            \<and> (valid_time t \<and> NUL \<notin> set msg \<and> sz < length (stamp_text t level) + length msg + 2 \<longrightarrow>
               write_log can_open t level msg l' = Inl Out_Of_Bounds)
            \<and> (good_call sz (t, level, msg) \<and> \<not> can_open (last (files_of file_name split (log_start t0 file_name) (cs @ [(t, level, msg)]))) \<longrightarrow>
               write_log can_open t level msg l' = Inl Null_Deref)"
    if o: "can_open (first_file t0 file_name)" and cs: "\<forall>c\<in>set cs. good_call sz c" "\<forall>n\<in>set (files_of file_name split (log_start t0 file_name) cs). can_open n"
  proof -
    have "can_open (fst (log_start t0 file_name))" using o by (simp add: log_start_def)
    with write_logs_at [where can_open = can_open, OF _ _ assms(3) _ cs] l(2) o obtain l' where l': "write_logs can_open cs l = Inr l'"
      "log_at file_name split sz (places file_name split (log_start t0 file_name) cs) l'" "can_open (fst (places file_name split (log_start t0 file_name) cs))"
      "log_files l' = lines_in (files_of file_name split (log_start t0 file_name) cs) (map log_line cs)" by blast
    have "files_of file_name split (log_start t0 file_name) cs = map (file_of_line t0 file_name split) [1..<Suc (length cs)]"
      if "\<forall>c\<in>set cs. same_day t0 (fst c)"
      using files_of_one_day [OF assms(3) that, of file_name 0] assms(3) by (simp add: log_start_def file_of_line_def)
    then show ?thesis using l' write_log_at(1,2) [where can_open = can_open and t = t and msg = msg and level = level, OF l'(2) assms(3) _ _ l'(3)]
      by (intro exI [of _ l']) (simp add: good_call_def files_of_snoc)
  qed
  show ?thesis using l(1) run write_log_full_queue by (intro exI [of _ l] conjI) blast+
qed

theorem log_lines_in_files_witness:
  "\<exists>l'. log_files l' (''2024_05_07_ServerLog'') = ''2024-05-07 01:02:03.000004 [info]: ab'' @ [LF]
     \<and> log_files l' (''2024_05_07_.1'') = ''2024-05-07 01:02:03.000004 [erro]: c'' @ [LF]
     \<and> write_log (\<lambda>_. True) \<lparr>tm_year = 124, tm_mon = 4, tm_mday = 7, tm_hour = 1, tm_min = 2, tm_sec = 3, tm_usec = 4\<rparr> 1
         (replicate 30 CHR ''x'') l' = Inl Out_Of_Bounds"
proof -
  let ?t = "\<lparr>tm_year = 124, tm_mon = 4, tm_mday = 7, tm_hour = 1, tm_min = 2, tm_sec = 3, tm_usec = 4\<rparr>"
  let ?cs = "[(?t, 1, ''ab''), (?t, 3, ''c'')]" and ?x = "replicate 30 CHR ''x''"
  let ?fs = "files_of ''ServerLog'' 2 (log_start ?t ''ServerLog'') ?cs"
  have h: "length (log_dir ''ServerLog'') < 128" "length (log_base ''ServerLog'') < 128" "(0::int) < 2" by code_simp+
  have c: "\<forall>c\<in>set ?cs. good_call 60 c" "valid_time ?t \<and> NUL \<notin> set ?x \<and> 60 < length (stamp_text ?t 1) + length ?x + 2"
    by code_simp+
  have v: "lines_in ?fs (map log_line ?cs) ''2024_05_07_ServerLog'' = ''2024-05-07 01:02:03.000004 [info]: ab'' @ [LF]"
    "lines_in ?fs (map log_line ?cs) ''2024_05_07_.1'' = ''2024-05-07 01:02:03.000004 [erro]: c'' @ [LF]" by code_simp+
  obtain l' where "log_files l' = lines_in ?fs (map log_line ?cs)" "write_log (\<lambda>_. True) ?t 1 ?x l' = Inl Out_Of_Bounds"
    using log_lines_in_files [OF h, where can_open = "\<lambda>_. True" and ?t0.0 = ?t and sz = 60 and cs = ?cs and t = ?t and level = 1 and msg = ?x]
      c by blast
  then show ?thesis using v by (intro exI [of _ l']) simp
qed

end
