(* ===== verification/Http_Log.thy ===== *)
theory Http_Log
  imports Http_Parse Web_Log
begin

text \<open>
  The reading loop of TinyWebServer with the lines it writes to the log (http/http_conn.cpp: \<open>LOG_INFO\<close> in \<open>process_read\<close> and
  in \<open>parse_headers\<close>). Every line of a request goes to the log before it is parsed, a header that is not known a second
  time; the log formats it in its own buffer of \<open>m_log_buf_size\<close> bytes. \<open>Flush\<close> has no effect on the model of the files.
\<close>

section \<open>The loop with its log\<close>

definition header_named :: "string \<Rightarrow> string \<Rightarrow> bool" where
  "header_named s lit \<longleftrightarrow> map to_lower (take (length lit) s) = map to_lower lit"

text \<open>The messages of one line, which reads \<open>s\<close>: the line, and again when \<open>parse_headers\<close> does not know it.\<close>

definition line_logs :: "check_state \<Rightarrow> string \<Rightarrow> string list" where
  "line_logs st s =
     s # (if st = CHECK_STATE_HEADER \<and> s \<noteq> [] \<and> \<not> header_named s ''Connection:''
             \<and> \<not> header_named s ''Content-length:'' \<and> \<not> header_named s ''Host:''
          then [''oop!unknow header: '' @ s] else [])"

text \<open>The state of the log and the number of calls so far; call \<open>k\<close> reads the time \<open>clk k\<close>. \<open>LOG_INFO\<close> is level 1.\<close>

fun log_messages :: "(nat \<Rightarrow> tm_time) \<Rightarrow> (string \<Rightarrow> bool) \<Rightarrow> string list \<Rightarrow> nat \<times> web_log \<Rightarrow> (nat \<times> web_log) res" where
  "log_messages clk op [] kl = Inr kl"
| "log_messages clk op (msg # ms) (k, l) = bind_res (write_log op (clk k) 1 msg l) (\<lambda>l1. log_messages clk op ms (Suc k, l1))"

definition logged_line :: "(nat \<Rightarrow> tm_time) \<Rightarrow> (string \<Rightarrow> bool) \<Rightarrow> http_conn \<Rightarrow> nat \<times> web_log \<Rightarrow>
    ((read_outcome option \<times> line_status \<times> http_conn) \<times> nat \<times> web_log) res" where
  "logged_line clk op c kl =
     bind_res (cstr (m_read_buf c) (m_start_line c)) (\<lambda>text.
     bind_res (log_messages clk op (line_logs (m_check_state c) text) kl) (\<lambda>kl1.
     bind_res (handle_line c) (\<lambda>r. Inr (r, kl1))))"

function logged_read :: "(nat \<Rightarrow> tm_time) \<Rightarrow> (string \<Rightarrow> bool) \<Rightarrow> line_status \<Rightarrow> http_conn \<Rightarrow> nat \<times> web_log \<Rightarrow>
    (read_outcome \<times> http_conn \<times> nat \<times> web_log) res" where
  "logged_read clk op ls c kl =
     bind_res (next_line ls c) (\<lambda>(ls1, c1).
       if ls1 = LINE_OK then
         bind_res (logged_line clk op c1 kl) (\<lambda>((out, ls2, c2), kl1).
           case out of Some r \<Rightarrow> Inr (r, c2, kl1) | None \<Rightarrow> logged_read clk op ls2 c2 kl1)
       else Inr (Return_Code NO_REQUEST, c1, kl))"
  by pat_completeness auto
termination
  by (relation "inv_image read_measure (\<lambda>(clk, op, ls, c, kl). (ls, c))")
    (auto simp: logged_line_def res_simps intro: wf_read_measure read_round_decreases)

declare logged_read.simps [simp del]

section \<open>The log during the loop\<close>

text \<open>An open log without a queue, as \<open>main\<close> sets it up with \<open>SYNLOG\<close>.\<close>

definition log_open :: "web_log \<Rightarrow> bool" where
  "log_open l \<longleftrightarrow> m_fp l \<noteq> None \<and> m_log_queue l = None \<and> m_split_lines l \<noteq> 0 \<and> m_log_buf_size l = length (m_buf l)"

lemma log_rotate_open:
  assumes "log_open l"
  shows "\<exists>l1. log_rotate op t l = Inr l1 \<and> m_log_queue l1 = None \<and> m_split_lines l1 \<noteq> 0 \<and> m_log_buf_size l1 = length (m_buf l1)
    \<and> m_buf l1 = m_buf l \<and> (m_fp l1 \<noteq> None \<or> (\<exists>name. \<not> op name))"
  using assms by (auto simp: log_rotate_def log_open_def reopen_def Let_def)

lemma write_log_open:
  assumes l: "log_open l" and t: "valid_time t" and msg: "NUL \<notin> set msg"
  shows "case write_log op t level msg l of
      Inr l' \<Rightarrow> log_open l' \<and> length (m_buf l') = length (m_buf l)
        \<and> length (stamp_text t level) + length msg + 2 \<le> length (m_buf l)
    | Inl e \<Rightarrow> (e = Out_Of_Bounds \<and> length (m_buf l) < length (stamp_text t level) + length msg + 2)
        \<or> (e = Null_Deref \<and> (\<exists>name. \<not> op name))"
proof -
  obtain l1 where l1: "log_rotate op t l = Inr l1" "m_log_queue l1 = None" "m_split_lines l1 \<noteq> 0"
    "m_log_buf_size l1 = length (m_buf l1)" "m_buf l1 = m_buf l" "m_fp l1 \<noteq> None \<or> (\<exists>name. \<not> op name)"
    using log_rotate_open [OF l] by blast
  show ?thesis
  proof (cases "length (stamp_text t level) + length msg + 2 \<le> length (m_buf l)")
    case False
    then have "format_line t level msg l1 = Inl Out_Of_Bounds" using l1(5) by (intro format_line_overflows) simp
    then show ?thesis using l1(1) False by (simp add: write_log_def)
  next
    case True
    then obtain b where b: "format_line t level msg l1 = Inr (stamp_text t level @ msg @ [LF], l1\<lparr>m_buf := b\<rparr>)"
        "length b = length (m_buf l1)" using format_line_fits [OF t l1(4) msg] l1(5) by auto
    show ?thesis using l1 b True by (cases "m_fp l1") (simp_all add: write_log_def put_file_def log_open_def)
  qed
qed

lemma log_messages_open:
  assumes "log_open l" "\<forall>k. valid_time (clk k)" "\<forall>m\<in>set ms. NUL \<notin> set m"
  shows "case log_messages clk op ms (k, l) of
      Inr (k', l') \<Rightarrow> log_open l' \<and> length (m_buf l') = length (m_buf l)
    | Inl e \<Rightarrow> (e = Out_Of_Bounds \<and> (\<exists>m\<in>set ms. \<exists>j. length (m_buf l) < length (stamp_text (clk j) 1) + length m + 2))
        \<or> (e = Null_Deref \<and> (\<exists>name. \<not> op name))"
  using assms
proof (induction ms arbitrary: k l)
  case (Cons m ms)
  have w: "case write_log op (clk k) 1 m l of
      Inr l' \<Rightarrow> log_open l' \<and> length (m_buf l') = length (m_buf l)
        \<and> length (stamp_text (clk k) 1) + length m + 2 \<le> length (m_buf l)
    | Inl e \<Rightarrow> (e = Out_Of_Bounds \<and> length (m_buf l) < length (stamp_text (clk k) 1) + length m + 2)
        \<or> (e = Null_Deref \<and> (\<exists>name. \<not> op name))"
    using Cons.prems by (intro write_log_open) auto
  show ?case
  proof (cases "write_log op (clk k) 1 m l")
    case (Inl e)
    then show ?thesis using w by auto
  next
    case (Inr l1)
    then have l1: "log_open l1" "length (m_buf l1) = length (m_buf l)" using w by auto
    from Cons.IH [OF l1(1) Cons.prems(2), of "Suc k"] Cons.prems(3) show ?thesis
      unfolding l1(2) using Inr by (auto split: sum.splits)
  qed
qed simp

lemma log_messages_too_long:
  assumes "log_open l" "valid_time (clk k)" "NUL \<notin> set m" "length (m_buf l) < length (stamp_text (clk k) 1) + length m + 2"
  shows "\<exists>e. log_messages clk op (m # ms) (k, l) = Inl e"
  using write_log_open [OF assms(1-3), where op = op and level = 1] assms(4) by (cases "write_log op (clk k) 1 m l") auto

lemma line_logs_no_nul: "NUL \<notin> set s \<Longrightarrow> \<forall>m\<in>set (line_logs st s). NUL \<notin> set m"
  by (auto simp: line_logs_def NUL_def)

lemma cstr_no_nul: "cstr b p = Inr s \<Longrightarrow> NUL \<notin> set s"
  by (simp add: cstr_eq_Inr holds_str_def)

section \<open>Safety\<close>

text \<open>How the handling of one line can fail with the error \<open>e\<close>, with a log buffer of \<open>sz\<close> bytes.\<close>

definition line_failure :: "(nat \<Rightarrow> tm_time) \<Rightarrow> (string \<Rightarrow> bool) \<Rightarrow> nat \<Rightarrow> http_conn \<Rightarrow> cxx_error \<Rightarrow> bool" where
  "line_failure clk op sz d e \<longleftrightarrow>
     m_check_state d = CHECK_STATE_REQUESTLINE \<and> e = Null_Deref \<and> handle_line d = Inl Null_Deref
   \<or> m_check_state d = CHECK_STATE_CONTENT \<and> bad_length d
   \<or> m_check_state d = CHECK_STATE_CONTENT \<and> e = Out_Of_Bounds \<and> NUL \<notin> set (drop (m_start_line d) (m_read_buf d))
   \<or> e = Out_Of_Bounds \<and> (\<exists>s. cstr (m_read_buf d) (m_start_line d) = Inr s \<and>
       (\<exists>m\<in>set (line_logs (m_check_state d) s). \<exists>j. sz < length (stamp_text (clk j) 1) + length m + 2))
   \<or> e = Null_Deref \<and> (\<exists>name. \<not> op name)"

lemma cstr_fails: "cstr b p = Inl e \<Longrightarrow> e = Out_Of_Bounds \<and> NUL \<notin> set (drop p b)"
proof -
  assume c: "cstr b p = Inl e"
  have "NUL \<notin> set (drop p b)"
  proof
    assume "NUL \<in> set (drop p b)"
    then have "takeWhile (\<lambda>c. c \<noteq> NUL) (drop p b) \<noteq> drop p b" unfolding takeWhile_eq_all_conv by auto
    then have "length (takeWhile (\<lambda>c. c \<noteq> NUL) (drop p b)) < length (drop p b)"
      by (metis le_neq_implies_less length_takeWhile_le take_all_iff order_refl takeWhile_eq_take)
    then show False using c by (auto simp: cstr_def Let_def split: if_splits)
  qed
  then show ?thesis using c by (auto simp: cstr_def Let_def split: if_splits)
qed

lemma ready_line_text:
  assumes "line_ready c"
  shows "\<exists>s. cstr (m_read_buf c) (m_start_line c) = Inr s"
proof -
  have k: "m_start_line c + 2 \<le> m_checked_idx c" "m_checked_idx c \<le> length (m_read_buf c)"
    "m_read_buf c ! (m_checked_idx c - 2) = NUL" using assms by (auto simp: line_ready_def)
  then have "m_read_buf c ! (m_checked_idx c - 2) = drop (m_start_line c) (m_read_buf c) ! (m_checked_idx c - 2 - m_start_line c)"
    "m_checked_idx c - 2 - m_start_line c < length (drop (m_start_line c) (m_read_buf c))" by auto
  then have "NUL \<in> set (drop (m_start_line c) (m_read_buf c))" using k(3) by (metis nth_mem)
  then show ?thesis using cstr_fails by (cases "cstr (m_read_buf c) (m_start_line c)") auto
qed

lemma ready_line_fails:
  assumes r: "line_ready c" and st: "m_check_state c \<noteq> CHECK_STATE_CONTENT" and f: "handle_line c = Inl e"
  shows "m_check_state c = CHECK_STATE_REQUESTLINE \<and> e = Null_Deref"
proof -
  obtain s where "holds_str (m_read_buf c) (m_start_line c) s" using ready_line_text [OF r] by (auto simp: cstr_eq_Inr)
  then have "\<exists>x. parse_headers (m_start_line c) (c\<lparr>m_start_line := m_checked_idx c\<rparr>) = Inr x"
    by (intro parse_headers_total) simp
  then have "m_check_state c \<noteq> CHECK_STATE_HEADER" using f by (auto simp: handle_line_def Let_def case_prod_beta)
  then show ?thesis using st handle_line_ready [OF r st f] by (cases "m_check_state c") auto
qed

lemma logged_line_fails:
  assumes wf: "http_wf d" and ready: "m_check_state d \<noteq> CHECK_STATE_CONTENT \<Longrightarrow> line_ready d"
    and l: "log_open l" "\<forall>k. valid_time (clk k)" and f: "logged_line clk op d (k, l) = Inl e"
  shows "line_failure clk op (length (m_buf l)) d e"
proof (cases "cstr (m_read_buf d) (m_start_line d)")
  case (Inl e')
  then have "e = Out_Of_Bounds" "NUL \<notin> set (drop (m_start_line d) (m_read_buf d))"
    using f cstr_fails [OF Inl] by (auto simp: logged_line_def)
  moreover have "m_check_state d = CHECK_STATE_CONTENT" using ready_line_text [OF ready] Inl by force
  ultimately show ?thesis by (simp add: line_failure_def)
next
  case (Inr s)
  note lo = log_messages_open [OF l line_logs_no_nul [OF cstr_no_nul [OF Inr], of "m_check_state d"], where op = op and k = k]
  show ?thesis
  proof (cases "log_messages clk op (line_logs (m_check_state d) s) (k, l)")
    case (Inl e')
    then have "e' = e" using f Inr by (simp add: logged_line_def)
    then show ?thesis using lo Inl Inr unfolding line_failure_def by auto
  next
    case i: (Inr kl)
    then have h: "handle_line d = Inl e" using f Inr by (cases "handle_line d") (auto simp: logged_line_def)
    show ?thesis
    proof (cases "m_check_state d = CHECK_STATE_CONTENT")
      case True
      then show ?thesis using handle_content_safe [OF wf True] h by (auto simp: line_failure_def)
    next
      case False
      from ready_line_fails [OF ready [OF False] False h] h show ?thesis by (simp add: line_failure_def)
    qed
  qed
qed

lemma logged_line_returns:
  assumes l: "log_open l" "\<forall>k. valid_time (clk k)" and r: "logged_line clk op d (k, l) = Inr (x, k', l')"
  shows "handle_line d = Inr x \<and> log_open l' \<and> length (m_buf l') = length (m_buf l)"
proof -
  obtain s where s: "cstr (m_read_buf d) (m_start_line d) = Inr s"
    "log_messages clk op (line_logs (m_check_state d) s) (k, l) = Inr (k', l')" "handle_line d = Inr x"
    using r by (auto simp: logged_line_def res_simps)
  then show ?thesis
    using log_messages_open [OF l line_logs_no_nul [OF cstr_no_nul [OF s(1)], of "m_check_state d"], where op = op and k = k] by simp
qed

lemma next_line_total:
  assumes "http_wf c"
  shows "\<exists>ls1 c1. next_line ls c = Inr (ls1, c1)"
proof (cases "m_check_state c = CHECK_STATE_CONTENT \<and> ls = LINE_OK")
  case False
  then show ?thesis using parse_line_cases [OF assms] by (metis next_line_def)
qed (simp add: next_line_def)

lemma logged_read_outcome:
  "http_wf c \<Longrightarrow> log_open (snd kl) \<Longrightarrow> \<forall>k. valid_time (clk k) \<Longrightarrow>
   case logged_read clk op ls c kl of
     Inr (r, c', kl') \<Rightarrow> http_wf c' \<and> process_read_loop ls c = Inr (r, c')
   | Inl e \<Rightarrow> \<exists>ls' d d1. read_reach ls c ls' d \<and> next_line ls' d = Inr (LINE_OK, d1)
       \<and> line_failure clk op (length (m_buf (snd kl))) d1 e"
proof (induction clk op ls c kl rule: logged_read.induct)
  case (1 clk op ls c kl)
  obtain k l where kl: "kl = (k, l)" by (cases kl)
  have l: "log_open l" using 1(3) kl by simp
  obtain ls1 c1 where n: "next_line ls c = Inr (ls1, c1)" using next_line_total [OF 1(2)] by blast
  note w = next_line_wf [OF 1(2) n]
  show ?case
  proof (cases "ls1 = LINE_OK")
    case False
    then show ?thesis using n w(1) by (simp add: logged_read.simps [of clk op ls] process_read_loop.simps [of ls])
  next
    case ok: True
    have ready: "line_ready c1" if "m_check_state c1 \<noteq> CHECK_STATE_CONTENT"
      using parse_line_wf(2) [OF 1(2), of ls1 c1] n ok that w(2) by (auto simp: next_line_def split: if_splits)
    show ?thesis
    proof (cases "logged_line clk op c1 kl")
      case (Inl e)
      then have "logged_read clk op ls c kl = Inl e" using n ok by (simp add: logged_read.simps [of clk op ls])
      moreover have "line_failure clk op (length (m_buf l)) c1 e"
        using logged_line_fails [OF w(1) ready l 1(4)] Inl kl by simp
      ultimately show ?thesis using read_reach.here [of ls c] n ok kl by auto
    next
      case (Inr x)
      obtain out ls2 c2 k1 l1 where x: "x = ((out, ls2, c2), k1, l1)" by (metis prod.exhaust)
      then have h: "handle_line c1 = Inr (out, ls2, c2)" and l1: "log_open l1" "length (m_buf l1) = length (m_buf l)"
        using logged_line_returns [OF l 1(4)] Inr kl by auto
      note w2 = handle_line_wf [OF h w(1)]
      show ?thesis
      proof (cases out)
        case (Some r)
        then show ?thesis using n ok Inr x h w2
          by (simp add: logged_read.simps [of clk op ls] process_read_loop.simps [of ls])
      next
        case None
        have step: "logged_read clk op ls c kl = logged_read clk op ls2 c2 (k1, l1)"
          "process_read_loop ls c = process_read_loop ls2 c2"
          using n ok Inr x h None by (simp_all add: logged_read.simps [of clk op ls] process_read_loop.simps [of ls])
        have reach: "read_reach ls c ls' d" if "read_reach ls2 c2 ls' d" for ls' d
          using read_reach.again [of ls c c1 ls2 c2] n ok h None that by blast
        have "log_open (snd (k1, l1))" using l1(1) by simp
        note IH = 1(1) [OF n refl ok Inr x [symmetric] refl refl None w2 this 1(4), unfolded snd_conv l1(2)]
        show ?thesis
        proof (cases "logged_read clk op ls2 c2 (k1, l1)")
          case (Inl e)
          then show ?thesis using IH reach unfolding step by (auto simp: kl)
        next
          case (Inr y)
          then show ?thesis using IH unfolding step by (auto split: prod.splits)
        qed
      qed
    qed
  qed
qed

text \<open>
  C18. Type and memory safety of the reading half, its log included. \<open>init\<close> establishes the relation between the three
  indices and the buffer, \<open>read_once\<close> and \<open>process_read\<close> keep it for every input, whatever the log does the parse is
  that of \<open>process_read_loop\<close>, and no byte outside \<open>m_read_buf\<close> or the buffer of the log is read or written, except while a line is handled in one of these situations
  (\<open>line_failure\<close>): a request target \<open>http://host\<close> without a path leaves a null \<open>m_url\<close> that is dereferenced; the
  declared body length is negative, too large for \<open>int\<close>, or reaches the end of a full buffer; the body is logged as a string and
  fills the buffer without a terminator; a line, or a header not known with its prefix, is too long for the buffer of the
  log with its stamp; or a file of the log cannot be opened. A first line too long for the log does make the loop fail.
\<close>

theorem http_reading_safe:
  assumes "http_wf c" and "log_open l" and "\<forall>k. valid_time (clk k)"
  shows "http_wf (http_init c0)
    \<and> (\<forall>bs d. read_once (Recv_Bytes bs) c = Inr (True, d) \<longrightarrow> http_wf d)
    \<and> (case logged_read clk op LINE_OK c (k, l) of
         Inr (r, c', kl') \<Rightarrow> http_wf c' \<and> process_read_loop LINE_OK c = Inr (r, c')
       | Inl e \<Rightarrow> \<exists>ls' d d1. read_reach LINE_OK c ls' d \<and> next_line ls' d = Inr (LINE_OK, d1)
           \<and> line_failure clk op (length (m_buf l)) d1 e)
    \<and> (\<forall>d1 s. next_line LINE_OK c = Inr (LINE_OK, d1) \<and> cstr (m_read_buf d1) (m_start_line d1) = Inr s
         \<and> length (m_buf l) < length (stamp_text (clk k) 1) + length s + 2 \<longrightarrow>
         (\<exists>e. logged_read clk op LINE_OK c (k, l) = Inl e))"
proof (intro conjI allI impI)
  fix d1 s
  assume a: "next_line LINE_OK c = Inr (LINE_OK, d1) \<and> cstr (m_read_buf d1) (m_start_line d1) = Inr s
    \<and> length (m_buf l) < length (stamp_text (clk k) 1) + length s + 2"
  then have "NUL \<notin> set s" using cstr_no_nul by blast
  then obtain e where "log_messages clk op (line_logs (m_check_state d1) s) (k, l) = Inl e"
    using log_messages_too_long [OF assms(2), of clk k s op] assms(3) a unfolding line_logs_def by blast
  then show "\<exists>e. logged_read clk op LINE_OK c (k, l) = Inl e"
    using a by (simp add: logged_read.simps logged_line_def)
next
  show "case logged_read clk op LINE_OK c (k, l) of
         Inr (r, c', kl') \<Rightarrow> http_wf c' \<and> process_read_loop LINE_OK c = Inr (r, c')
       | Inl e \<Rightarrow> \<exists>ls' d d1. read_reach LINE_OK c ls' d \<and> next_line ls' d = Inr (LINE_OK, d1)
           \<and> line_failure clk op (length (m_buf l)) d1 e"
    using logged_read_outcome [where c = c and kl = "(k, l)" and clk = clk and op = op and ls = LINE_OK] assms unfolding snd_conv by blast
qed (use http_init_wf read_once_bytes(3) [OF assms(1)] in blast)+

text \<open>The example reads two bytes, and runs the loop before any line is complete.\<close>

theorem http_reading_safe_witness:
  "(\<exists>d. read_once (Recv_Bytes ''GE'') (http_init fresh_conn) = Inr (True, d) \<and> http_wf d \<and> m_read_idx d = 2)
   \<and> (\<exists>r c' kl'. logged_read (\<lambda>_. \<lparr>tm_year = 124, tm_mon = 4, tm_mday = 7, tm_hour = 1, tm_min = 2, tm_sec = 3, tm_usec = 4\<rparr>) (\<lambda>_. True)
          LINE_OK (http_init fresh_conn) (0, Log_new\<lparr>m_fp := Some ''log'', m_split_lines := 8\<rparr>) = Inr (r, c', kl')
        \<and> http_wf c' \<and> process_read_loop LINE_OK (http_init fresh_conn) = Inr (r, c'))"
proof -
  let ?t = "\<lparr>tm_year = 124, tm_mon = 4, tm_mday = 7, tm_hour = 1, tm_min = 2, tm_sec = 3, tm_usec = 4\<rparr>"
  let ?l = "Log_new\<lparr>m_fp := Some ''log'', m_split_lines := 8\<rparr>"
  define d where "d = (http_init fresh_conn)\<lparr>m_read_buf := ''GE'' @ replicate (READ_BUFFER_SIZE - 2) NUL, m_read_idx := 2\<rparr>"
  have d: "read_once (Recv_Bytes ''GE'') (http_init fresh_conn) = Inr (True, d)"
    by (simp add: read_once_def d_def http_init_def vcopy_def READ_BUFFER_SIZE_def)
  have l: "log_open ?l" "\<forall>k::nat. valid_time ?t" by (simp_all add: log_open_def Log_new_def valid_time_def)
  have "\<exists>x. logged_read (\<lambda>_. ?t) (\<lambda>_. True) LINE_OK (http_init fresh_conn) (0, ?l) = Inr x"
    by (simp add: logged_read.simps next_line_def parse_line.simps http_init_def Let_def)
  then show ?thesis
    using http_reading_safe [OF http_init_wf [of fresh_conn] l, of fresh_conn "\<lambda>_. True" 0] d
    by (auto simp: d_def split: prod.splits)
qed

end
