(* ===== verification/Http_Request.thy ===== *)
theory Http_Request
  imports Http_Parse
begin

text \<open>
  What the web server's parser makes of a well-formed request, and of a body that arrives in two
  pieces.
\<close>

section \<open>A body in two pieces\<close>

lemma process_read_content:
  assumes "http_wf c" and "m_check_state c = CHECK_STATE_CONTENT"
    and "in_int (m_content_length c + int (m_checked_idx c))"
    and "m_read_idx c < m_content_length c + int (m_checked_idx c)"
    and "\<forall>k. m_checked_idx c \<le> k \<and> int k < m_read_idx c \<longrightarrow> m_read_buf c ! k \<notin> {CR, LF}"
  shows "process_read_loop LINE_OK c = Inr (Return_Code NO_REQUEST,
    c\<lparr>m_start_line := m_checked_idx c, m_checked_idx := nat (m_read_idx c)\<rparr>)"
proof -
  define c1 where "c1 = c\<lparr>m_start_line := m_checked_idx c\<rparr>"
  have h: "handle_line c = Inr (None, LINE_OPEN, c1)"
    using assms by (simp add: handle_line_def Let_def parse_content_def c1_def)
  have "parse_line c1 = Inr (LINE_OPEN, c1\<lparr>m_checked_idx := nat (m_read_idx c1)\<rparr>)"
    using assms by (intro parse_line_open) (auto simp: c1_def http_wf_def)
  then have "process_read_loop LINE_OPEN c1 = Inr (Return_Code NO_REQUEST, c1\<lparr>m_checked_idx := nat (m_read_idx c)\<rparr>)"
    using assms(2) by (subst process_read_loop.simps) (simp add: next_line_def c1_def)
  then show ?thesis
    using h assms(2) by (subst process_read_loop.simps) (simp add: next_line_def c1_def)
qed

lemma body_piece:
  assumes wf: "http_wf c" and st: "m_check_state c = CHECK_STATE_CONTENT"
    and idx: "m_read_idx c = int (m_checked_idx c)" and part: "int (length a) < m_content_length c"
    and len: "in_int (m_content_length c + int (m_checked_idx c))"
    and a: "a \<noteq> []" "set a \<inter> {CR, LF} = {}"
    and fits: "m_checked_idx c + length a \<le> READ_BUFFER_SIZE"
  shows "read_once (Recv_Bytes a) c = Inr (True, feed a c)"
    and "process_read_loop LINE_OK (feed a c) = Inr (Return_Code NO_REQUEST,
      (feed a c)\<lparr>m_start_line := m_checked_idx c, m_checked_idx := m_checked_idx c + length a\<rparr>)"
proof -
  define k where "k = m_checked_idx c"
  have k: "m_read_idx c = int k" "k \<le> length (m_read_buf c)" using wf idx by (auto simp: k_def http_wf_def)
  show r: "read_once (Recv_Bytes a) c = Inr (True, feed a c)"
    using wf a(1) fits idx by (intro read_once_feed) auto
  note w1 = read_once_bytes(3) [OF wf r]
  have c1: "m_read_idx (feed a c) = int (k + length a)" "m_checked_idx (feed a c) = k"
    "m_content_length (feed a c) = m_content_length c" "m_check_state (feed a c) = CHECK_STATE_CONTENT"
    "nat (m_read_idx (feed a c)) = k + length a"
    using k st by (simp_all add: feed_def k_def nat_add_distrib)
  have "m_read_buf (feed a c) ! i \<notin> {CR, LF}" if "k \<le> i" "i < k + length a" for i
  proof -
    have "m_read_buf (feed a c) ! i = a ! (i - k)" using nth_feed_buf_new that k by (simp add: feed_def)
    moreover have "a ! (i - k) \<in> set a" using that by (intro nth_mem) linarith
    ultimately show ?thesis using a(2) by fastforce
  qed
  then show "process_read_loop LINE_OK (feed a c) = Inr (Return_Code NO_REQUEST,
      (feed a c)\<lparr>m_start_line := m_checked_idx c, m_checked_idx := m_checked_idx c + length a\<rparr>)"
    using process_read_content [OF w1 c1(4)] c1 len part by (simp add: k_def)
qed

lemma body_whole:
  assumes wf: "http_wf c" and st: "m_check_state c = CHECK_STATE_CONTENT"
    and idx: "m_read_idx c = int (m_checked_idx c)" "m_start_line c = m_checked_idx c"
    and len: "m_content_length c = int (length s)" and s: "s \<noteq> []"
    and fits: "m_checked_idx c + length s < READ_BUFFER_SIZE"
  shows "read_once (Recv_Bytes s) c = Inr (True, feed s c)"
    and "\<exists>d. process_read_loop LINE_OK (feed s c) = Inr (Do_Request, d)"
proof -
  define k where "k = m_checked_idx c"
  show r: "read_once (Recv_Bytes s) c = Inr (True, feed s c)"
    using wf s fits idx by (intro read_once_feed) auto
  have c1: "m_read_idx (feed s c) = int (k + length s)" "m_checked_idx (feed s c) = k"
    "m_start_line (feed s c) = k" "m_content_length (feed s c) = int (length s)"
    "m_check_state (feed s c) = CHECK_STATE_CONTENT" "length (m_read_buf (feed s c)) = READ_BUFFER_SIZE"
    using idx len st read_once_bytes(3) [OF wf r] by (simp_all add: feed_def k_def http_wf_def)
  have "in_int (int (length s) + int k)"
    using fits by (simp add: in_int_def INT_MIN_def INT_MAX_def READ_BUFFER_SIZE_def k_def)
  then have "\<exists>d. handle_line (feed s c) = Inr (Some Do_Request, LINE_OPEN, d)"
    using c1 fits by (simp add: handle_line_def Let_def parse_content_def vset_int_def vset_def k_def nat_add_distrib)
  moreover have "next_line LINE_OK (feed s c) = Inr (LINE_OK, feed s c)" using c1 by (simp add: next_line_def)
  ultimately show "\<exists>d. process_read_loop LINE_OK (feed s c) = Inr (Do_Request, d)"
    by (subst process_read_loop.simps) auto
qed

text \<open>
  A body that arrives in two pieces is not recognised. After a first piece \<open>a\<close> that is not the
  whole body, \<open>process_read\<close> asks for more but lets \<open>parse_line\<close> run over the piece, which moves
  \<open>m_checked_idx\<close>; when the rest arrives, the length is counted from there, so the request is still
  incomplete, although the same bytes in one piece are the complete request.
\<close>

theorem http_split_body_lost:
  assumes "http_wf c" and "m_check_state c = CHECK_STATE_CONTENT"
    and "m_start_line c = m_checked_idx c" and "m_read_idx c = int (m_checked_idx c)"
    and "m_content_length c = int (length (a @ b))" and "a \<noteq> []" and "b \<noteq> []"
    and "set (a @ b) \<inter> {CR, LF} = {}"
    and "m_read_idx c + int (length (a @ b)) < int READ_BUFFER_SIZE"
  shows "\<exists>c1 c2 c3 c4 c5 c6.
      read_once (Recv_Bytes a) c = Inr (True, c1)
    \<and> process_read_loop LINE_OK c1 = Inr (Return_Code NO_REQUEST, c2)
    \<and> read_once (Recv_Bytes b) c2 = Inr (True, c3)
    \<and> process_read_loop LINE_OK c3 = Inr (Return_Code NO_REQUEST, c4)
    \<and> read_once (Recv_Bytes (a @ b)) c = Inr (True, c5)
    \<and> process_read_loop LINE_OK c5 = Inr (Do_Request, c6)"
proof -
  have small: "m_checked_idx c + length a + length b < READ_BUFFER_SIZE" using assms(4,9) by simp
  have int_ok: "in_int (int (length (a @ b)) + int j)" if "j \<le> READ_BUFFER_SIZE" for j
    using small that by (simp add: in_int_def INT_MIN_def INT_MAX_def READ_BUFFER_SIZE_def)
  have nolf: "set a \<inter> {CR, LF} = {}" "set b \<inter> {CR, LF} = {}" using assms(8) by auto
  have part: "int (length a) < m_content_length c" "int (length b) < m_content_length c"
    using assms(5-7) by auto
  have p1: "in_int (m_content_length c + int (m_checked_idx c))" "m_checked_idx c + length a \<le> READ_BUFFER_SIZE"
    using int_ok [of "m_checked_idx c"] assms(5) small by simp_all
  note one = body_piece [OF assms(1,2,4) part(1) p1(1) assms(6) nolf(1) p1(2)]
  define c2 where "c2 = (feed a c)\<lparr>m_start_line := m_checked_idx c, m_checked_idx := m_checked_idx c + length a\<rparr>"
  have w2: "http_wf c2"
    using process_read_loop_wf [OF one(2) read_once_bytes(3) [OF assms(1) one(1)]] by (simp add: c2_def)
  have c2: "m_check_state c2 = CHECK_STATE_CONTENT" "m_read_idx c2 = int (m_checked_idx c2)"
    "int (length b) < m_content_length c2" "in_int (m_content_length c2 + int (m_checked_idx c2))"
    "m_checked_idx c2 + length b \<le> READ_BUFFER_SIZE"
    using assms(2,4,5) part(2) small int_ok [of "m_checked_idx c + length a"]
    by (simp_all add: c2_def feed_def)
  note two = body_piece [OF w2 c2(1-4) assms(7) nolf(2) c2(5)]
  have "a @ b \<noteq> []" "m_checked_idx c + length (a @ b) < READ_BUFFER_SIZE" using assms(6) small by auto
  note whole = body_whole [OF assms(1,2,4,3,5) this]
  show ?thesis using one two whole by (fold c2_def) blast
qed

text \<open>A request line, the headers and the blank line have been read; six bytes of body follow.\<close>

definition waiting_conn :: http_conn where
  "waiting_conn = (http_init fresh_conn)\<lparr>m_check_state := CHECK_STATE_CONTENT, m_content_length := 6\<rparr>"

theorem http_split_body_lost_witness:
  "\<exists>c1 c2 c3 c4 c5 c6.
      read_once (Recv_Bytes ''use'') waiting_conn = Inr (True, c1)
    \<and> process_read_loop LINE_OK c1 = Inr (Return_Code NO_REQUEST, c2)
    \<and> read_once (Recv_Bytes ''r=a'') c2 = Inr (True, c3)
    \<and> process_read_loop LINE_OK c3 = Inr (Return_Code NO_REQUEST, c4)
    \<and> read_once (Recv_Bytes (''use'' @ ''r=a'')) waiting_conn = Inr (True, c5)
    \<and> process_read_loop LINE_OK c5 = Inr (Do_Request, c6)"
proof (rule http_split_body_lost)
  show "http_wf waiting_conn" using http_init_wf [of fresh_conn] by (simp add: waiting_conn_def http_wf_def)
qed (simp_all add: waiting_conn_def http_init_def CR_def LF_def READ_BUFFER_SIZE_def)

section \<open>Headers\<close>

abbreviation lower :: "string \<Rightarrow> string" where
  "lower s \<equiv> map to_lower s"

definition has_name :: "string \<Rightarrow> string \<Rightarrow> bool" where
  "has_name nm h \<longleftrightarrow> lower (take (length nm) h) = lower nm"

definition hdr_value :: "nat \<Rightarrow> string \<Rightarrow> string" where
  "hdr_value k h = dropWhile (\<lambda>c. c \<in> set BLANKS) (drop k h)"

text \<open>What one header line changes, as a function of its text.\<close>

definition hdr_linger :: "string \<Rightarrow> bool" where
  "hdr_linger h \<longleftrightarrow> has_name ''Connection:'' h \<and> lower (hdr_value 11 h) = lower ''keep-alive''"

definition hdr_length :: "string \<Rightarrow> int \<Rightarrow> int" where
  "hdr_length h n =
     (if has_name ''Content-length:'' h then long_to_int (atol (hdr_value 15 h)) else n)"

lemma has_name_length: "has_name nm h \<Longrightarrow> length nm \<le> length h"
  using map_eq_imp_length_eq [of to_lower "take (length nm) h" to_lower nm] by (simp add: has_name_def)

lemma has_name_nth: "has_name nm h \<Longrightarrow> i < length nm \<Longrightarrow> to_lower (h ! i) = to_lower (nm ! i)"
proof -
  assume n: "has_name nm h" and i: "i < length nm"
  have "lower (take (length nm) h) ! i = lower nm ! i" using n by (simp only: has_name_def)
  then show ?thesis using i has_name_length [OF n] by simp
qed

lemma has_name_excl: "has_name ''Connection:'' h \<Longrightarrow> \<not> has_name ''Content-length:'' h"
  using has_name_nth [of "''Connection:''" h 3] has_name_nth [of "''Content-length:''" h 3]
  by (auto simp: to_lower_def of_char_of)

lemma strncasecmp_name:
  "holds_str b p s \<Longrightarrow> NUL \<notin> set nm \<Longrightarrow> strncasecmp_eq b p nm = Inr (has_name nm s)"
  using strncasecmp_holds [of b p s nm] map_eq_imp_length_eq [of to_lower "take (length nm) s" to_lower nm]
  by (auto simp: has_name_def)

lemma value_at:
  assumes "holds_str b p h" and "k \<le> length h"
  obtains n where "strspn b (p + k) BLANKS = Inr n" and "holds_str b (p + k + n) (hdr_value k h)"
proof -
  define n where "n = length (takeWhile (\<lambda>c. c \<in> set BLANKS) (drop k h))"
  have d: "holds_str b (p + k) (drop k h)" using holds_str_drop [OF assms] .
  have "n \<le> length (drop k h)" unfolding n_def by (rule length_takeWhile_le)
  from holds_str_drop [OF d this] have "holds_str b (p + k + n) (hdr_value k h)"
    by (simp add: hdr_value_def n_def dropWhile_eq_drop)
  then show ?thesis using that strspn_holds [OF d blanks_nul] by (simp add: n_def)
qed

lemma parse_headers_line:
  assumes h: "holds_str (m_read_buf c) t h" and ne: "h \<noteq> []"
  shows "\<exists>host. parse_headers t c = Inr (NO_REQUEST, c\<lparr>
     m_linger := m_linger c \<or> hdr_linger h,
     m_content_length := hdr_length h (m_content_length c), m_host := host\<rparr>)"
proof -
  have first: "\<exists>x. vget (m_read_buf c) t = Inr x \<and> x \<noteq> NUL"
    using holds_str_vget [OF h] ne h by (cases h) (auto simp: holds_str_def)
  note name = strncasecmp_name [OF h lit_nul(6)] strncasecmp_name [OF h lit_nul(7)]
    strncasecmp_name [OF h lit_nul(8)]
  consider (conn) "has_name ''Connection:'' h" | (len) "\<not> has_name ''Connection:'' h" "has_name ''Content-length:'' h"
    | (host) "\<not> has_name ''Connection:'' h" "\<not> has_name ''Content-length:'' h" "has_name ''Host:'' h"
    | (other) "\<not> has_name ''Connection:'' h" "\<not> has_name ''Content-length:'' h" "\<not> has_name ''Host:'' h"
    by blast
  then show ?thesis
  proof cases
    case conn
    have "11 \<le> length h" using has_name_length [OF conn] by simp
    then obtain n where n: "strspn (m_read_buf c) (t + 11) BLANKS = Inr n"
      "holds_str (m_read_buf c) (t + 11 + n) (hdr_value 11 h)" using value_at [OF h] by blast
    show ?thesis
      using first name conn n(1) strcasecmp_holds [OF n(2) lit_nul(9)] has_name_excl [OF conn]
      by (intro exI [of _ "m_host c"]) (auto simp: parse_headers_def Let_def hdr_linger_def hdr_length_def)
  next
    case len
    have "15 \<le> length h" using has_name_length [OF len(2)] by simp
    then obtain n where n: "strspn (m_read_buf c) (t + 15) BLANKS = Inr n"
      "holds_str (m_read_buf c) (t + 15 + n) (hdr_value 15 h)" using value_at [OF h] by blast
    show ?thesis
      using first name len n(1) cstr_holds [OF n(2)]
      by (intro exI [of _ "m_host c"]) (auto simp: parse_headers_def Let_def hdr_linger_def hdr_length_def)
  next
    case host
    have "5 \<le> length h" using has_name_length [OF host(3)] by simp
    then obtain n where n: "strspn (m_read_buf c) (t + 5) BLANKS = Inr n" using value_at [OF h] by blast
    show ?thesis
      using first name host n
      by (intro exI [of _ "Some (t + 5 + n)"]) (auto simp: parse_headers_def Let_def hdr_linger_def hdr_length_def)
  next
    case other
    then show ?thesis using first name
      by (intro exI [of _ "m_host c"]) (auto simp: parse_headers_def Let_def hdr_linger_def hdr_length_def)
  qed
qed

section \<open>Lines\<close>

text \<open>The connection stands at the start of a line and \<open>rest\<close> is what has been received from there on.\<close>

definition at_line :: "http_conn \<Rightarrow> string \<Rightarrow> bool" where
  "at_line c rest \<longleftrightarrow> http_wf c \<and> m_start_line c = m_checked_idx c
     \<and> take (nat (m_read_idx c) - m_checked_idx c) (drop (m_checked_idx c) (m_read_buf c)) = rest"

lemma at_line_decomp:
  assumes "at_line c rest"
  obtains u v where "m_read_buf c = u @ rest @ v" "length u = m_checked_idx c"
    "m_read_idx c = int (m_checked_idx c + length rest)"
proof -
  define k where "k = m_checked_idx c"
  define n where "n = nat (m_read_idx c) - k"
  have wf: "int k \<le> m_read_idx c" "m_read_idx c \<le> int (length (m_read_buf c))"
    and rest: "take n (drop k (m_read_buf c)) = rest"
    using assms by (simp_all add: at_line_def http_wf_def k_def n_def)
  have len: "length rest = n" using rest wf by (auto simp: n_def)
  have "m_read_buf c = take k (m_read_buf c) @ rest @ drop n (drop k (m_read_buf c))"
    using rest by (metis append_take_drop_id)
  moreover have "length (take k (m_read_buf c)) = k" "m_read_idx c = int (k + length rest)"
    using wf len by (auto simp: n_def)
  ultimately show ?thesis using that by (simp add: k_def)
qed

lemma at_lineI:
  assumes "http_wf c" "m_start_line c = m_checked_idx c" "m_read_buf c = u @ rest @ v"
    "length u = m_checked_idx c" "m_read_idx c = int (m_checked_idx c + length rest)"
  shows "at_line c rest"
  using assms by (simp add: at_line_def)

lemma split_line:
  assumes al: "at_line c (h @ CR # LF # rest)" and h: "set h \<inter> {CR, LF} = {}"
  obtains c1 b where "parse_line c = Inr (LINE_OK, c1)"
    "c1 = c\<lparr>m_read_buf := b, m_checked_idx := m_checked_idx c + length h + 2\<rparr>"
    "at_line (c1\<lparr>m_start_line := m_checked_idx c1\<rparr>) rest"
    "NUL \<notin> set h \<Longrightarrow> holds_str b (m_start_line c) h"
    "take (m_start_line c) b = take (m_start_line c) (m_read_buf c)"
proof -
  obtain u v where b: "m_read_buf c = u @ (h @ CR # LF # rest) @ v" "length u = m_checked_idx c"
    and idx: "m_read_idx c = int (m_checked_idx c + length (h @ CR # LF # rest))"
    using at_line_decomp [OF al] .
  have wf: "http_wf c" and start: "m_start_line c = m_checked_idx c" using al by (auto simp: at_line_def)
  define j where "j = m_checked_idx c + length h"
  have b': "m_read_buf c = (u @ h) @ CR # LF # (rest @ v)" "length (u @ h) = j" using b by (simp_all add: j_def)
  have nth: "m_read_buf c ! j = CR" "m_read_buf c ! (j + 1) = LF"
    by (simp_all only: b'(1) b'(2) [symmetric]) (simp_all add: nth_append)
  have "m_read_buf c ! k \<notin> {CR, LF}" if "m_checked_idx c \<le> k" "k < j" for k
  proof -
    have "m_read_buf c ! k = h ! (k - m_checked_idx c)"
      using that b by (simp add: nth_append j_def less_diff_conv2)
    moreover have "h ! (k - m_checked_idx c) \<in> set h" using that by (intro nth_mem) (simp add: j_def less_diff_conv2)
    ultimately show ?thesis using h by fastforce
  qed
  then have "parse_line (c\<lparr>m_checked_idx := m_checked_idx c\<rparr>) = parse_line (c\<lparr>m_checked_idx := j\<rparr>)"
    using wf idx by (intro parse_line_skip) (auto simp: j_def http_wf_def)
  moreover define b1 where "b1 = u @ h @ NUL # NUL # rest @ v"
  have upd: "(m_read_buf c)[j := NUL, j + 1 := NUL] = b1"
    unfolding b'(1) b'(2) [symmetric] b1_def by (simp add: list_update_append)
  have "j + 1 < length (m_read_buf c)" "int (j + 1) < m_read_idx c" using b' idx by (simp_all add: j_def)
  then have "parse_line (c\<lparr>m_checked_idx := j\<rparr>) = Inr (LINE_OK, c\<lparr>m_read_buf := b1, m_checked_idx := j + 2\<rparr>)"
    using nth upd by (subst parse_line.simps) (simp add: Let_def)
  ultimately have p: "parse_line c = Inr (LINE_OK, c\<lparr>m_read_buf := b1, m_checked_idx := j + 2\<rparr>)" by simp
  have "at_line ((c\<lparr>m_read_buf := b1, m_checked_idx := j + 2\<rparr>)\<lparr>m_start_line := j + 2\<rparr>) rest"
    using parse_line_wf(1) [OF wf p] b(2) idx
    by (intro at_lineI [where u = "u @ h @ [NUL, NUL]" and v = v])
      (simp_all add: http_wf_def b1_def j_def)
  moreover have "NUL \<notin> set h \<Longrightarrow> holds_str b1 (m_start_line c) h"
    unfolding b1_def by (rule holds_strI) (simp_all add: b(2) start)
  moreover have "take (m_start_line c) b1 = take (m_start_line c) (m_read_buf c)"
    using b start by (simp add: b1_def)
  ultimately show ?thesis using that [of "c\<lparr>m_read_buf := b1, m_checked_idx := j + 2\<rparr>" b1] p
    by (simp add: j_def)
qed

definition crlf_lines :: "string list \<Rightarrow> string" where
  "crlf_lines ls = concat (map (\<lambda>l. l @ [CR, LF]) ls)"

definition plain_line :: "string \<Rightarrow> bool" where
  "plain_line l \<longleftrightarrow> l \<noteq> [] \<and> set l \<inter> {CR, LF, NUL} = {}"

text \<open>Header lines are consumed one by one and only add up their effects.\<close>

lemma headers_consumed:
  "at_line c (crlf_lines hs @ rest) \<Longrightarrow> m_check_state c = CHECK_STATE_HEADER \<Longrightarrow> list_all plain_line hs \<Longrightarrow>
   \<exists>c'. process_read_loop LINE_OK c = process_read_loop LINE_OK c' \<and> at_line c' rest
     \<and> m_check_state c' = CHECK_STATE_HEADER \<and> m_url c' = m_url c \<and> m_method c' = m_method c
     \<and> cgi c' = cgi c \<and> m_linger c' = (m_linger c \<or> list_ex hdr_linger hs)
     \<and> m_content_length c' = fold hdr_length hs (m_content_length c)
     \<and> m_read_idx c' = m_read_idx c
     \<and> m_start_line c \<le> m_start_line c'
     \<and> take (m_start_line c) (m_read_buf c') = take (m_start_line c) (m_read_buf c)"
proof (induction hs arbitrary: c)
  case Nil
  then show ?case by (intro exI [of _ c]) (simp add: crlf_lines_def)
next
  case (Cons h hs)
  have al: "at_line c (h @ CR # LF # (crlf_lines hs @ rest))" using Cons.prems(1) by (simp add: crlf_lines_def)
  have h: "set h \<inter> {CR, LF} = {}" "NUL \<notin> set h" "h \<noteq> []" using Cons.prems(3) by (auto simp: plain_line_def)
  obtain c1 b where p: "parse_line c = Inr (LINE_OK, c1)"
    "c1 = c\<lparr>m_read_buf := b, m_checked_idx := m_checked_idx c + length h + 2\<rparr>"
    "at_line (c1\<lparr>m_start_line := m_checked_idx c1\<rparr>) (crlf_lines hs @ rest)"
    "holds_str b (m_start_line c) h" "take (m_start_line c) b = take (m_start_line c) (m_read_buf c)"
    using split_line [OF al h(1)] h(2) by blast
  define c2 where "c2 = c1\<lparr>m_start_line := m_checked_idx c1\<rparr>"
  obtain host where ph: "parse_headers (m_start_line c) c2 = Inr (NO_REQUEST, c2\<lparr>
      m_linger := m_linger c \<or> hdr_linger h, m_content_length := hdr_length h (m_content_length c), m_host := host\<rparr>)"
    using parse_headers_line [of c2 "m_start_line c" h] p(2,4) h(3) by (auto simp: c2_def)
  define c3 where "c3 = c2\<lparr>m_linger := m_linger c \<or> hdr_linger h,
    m_content_length := hdr_length h (m_content_length c), m_host := host\<rparr>"
  have "handle_line c1 = Inr (None, LINE_OK, c3)"
    using ph p(2) Cons.prems(2) by (simp add: handle_line_def Let_def c2_def c3_def)
  then have step: "process_read_loop LINE_OK c = process_read_loop LINE_OK c3"
    using p(1) Cons.prems(2) by (subst process_read_loop.simps) (simp add: next_line_def)
  have "at_line c3 (crlf_lines hs @ rest)" using p(3) by (simp add: c3_def c2_def at_line_def http_wf_def)
  moreover have c3: "m_check_state c3 = CHECK_STATE_HEADER" "m_url c3 = m_url c" "m_method c3 = m_method c"
    "cgi c3 = cgi c" "m_linger c3 = (m_linger c \<or> hdr_linger h)" "m_content_length c3 = hdr_length h (m_content_length c)"
    "m_start_line c3 = m_checked_idx c + length h + 2" "m_read_buf c3 = b"
    "m_read_idx c3 = m_read_idx c"
    using p(2) Cons.prems(2) by (simp_all add: c3_def c2_def)
  ultimately obtain c' where c': "process_read_loop LINE_OK c3 = process_read_loop LINE_OK c'" "at_line c' rest"
     "m_check_state c' = CHECK_STATE_HEADER" "m_url c' = m_url c3" "m_method c' = m_method c3"
     "cgi c' = cgi c3" "m_linger c' = (m_linger c3 \<or> list_ex hdr_linger hs)"
     "m_content_length c' = fold hdr_length hs (m_content_length c3)" "m_start_line c3 \<le> m_start_line c'"
     "take (m_start_line c3) (m_read_buf c') = take (m_start_line c3) (m_read_buf c3)"
     "m_read_idx c' = m_read_idx c3"
    using Cons.IH [of c3] Cons.prems(3) by auto
  have le: "m_start_line c \<le> m_start_line c3" using al c3(7) by (simp add: at_line_def)
  have "take (m_start_line c) (m_read_buf c') = take (m_start_line c) (take (m_start_line c3) (m_read_buf c'))"
    using le by (simp add: min_def)
  also have "\<dots> = take (m_start_line c) (m_read_buf c)" using c'(10) c3(8) p(5) le by (simp add: min_def)
  finally show ?case using c' c3 step le by (intro exI [of _ c']) auto
qed

section \<open>The request line\<close>

definition plain_url :: "string \<Rightarrow> bool" where
  "plain_url url \<longleftrightarrow> (\<exists>r. url = CHR ''/'' # r) \<and> set url \<inter> {CR, LF, NUL, CHR '' '', CHR 0x09} = {}"

definition method_name :: "http_method \<Rightarrow> string" where
  "method_name m = (if m = POST then ''POST'' else ''GET'')"

definition request_line :: "http_method \<Rightarrow> string \<Rightarrow> string" where
  "request_line m url = method_name m @ CHR '' '' # url @ CHR '' '' # ''HTTP/1.1''"

text \<open>The target kept for \<open>/\<close> is \<open>/judge.html\<close>.\<close>

definition served_url :: "string \<Rightarrow> string" where
  "served_url url = (if url = ''/'' then ''/judge.html'' else url)"

lemma strpbrk_blank:
  assumes "holds_str b p (s @ CHR '' '' # t)" and "set s \<inter> set BLANKS = {}"
  shows "strpbrk b p BLANKS = Inr (Some (p + length s))"
proof -
  have "takeWhile (\<lambda>c. c \<notin> set BLANKS) (s @ CHR '' '' # t) = s"
    using assms(2) by (induction s) (auto simp: BLANKS_def)
  then show ?thesis using strpbrk_holds [OF assms(1), of BLANKS] by simp
qed

lemma parse_target_plain:
  assumes u: "holds_str (m_read_buf c) u url" and v: "holds_str (m_read_buf c) v ''HTTP/1.1''"
    and url: "plain_url url" and room: "u + length url + 11 \<le> length (m_read_buf c)"
  obtains b where "parse_target u v c = Inr (NO_REQUEST, c\<lparr>m_read_buf := b, m_url := Some u,
      m_check_state := CHECK_STATE_HEADER\<rparr>)"
    "holds_str b u (served_url url)" "length b = length (m_read_buf c)"
    "\<And>i. u + length url + 11 \<le> i \<Longrightarrow> drop i b = drop i (m_read_buf c)"
proof -
  obtain r where r: "url = CHR ''/'' # r" using url by (auto simp: plain_url_def)
  have "\<not> has_name ''http://'' url" "\<not> has_name ''https://'' url"
    using has_name_nth [of "''http://''" url 0] has_name_nth [of "''https://''" url 0] r
    by (auto simp: to_lower_def of_char_of)
  then have scheme: "skip_scheme (m_read_buf c) (Some u) ''http://'' = Inr (Some u)"
    "skip_scheme (m_read_buf c) (Some u) ''https://'' = Inr (Some u)"
    using strncasecmp_name [OF u lit_nul(4)] strncasecmp_name [OF u lit_nul(5)]
    by (simp_all add: skip_scheme_def)
  note eval = strcasecmp_holds [OF v lit_nul(3)] scheme holds_str_vget [OF u] strlen_holds [OF u]
  show ?thesis
  proof (cases "length url = 1")
    case False
    then show ?thesis
      using that [of "m_read_buf c"] eval r u
      by (simp add: parse_target_def Let_def served_url_def split: if_splits)
  next
    case True
    then have url1: "url = ''/''" using r by simp
    define b where "b = take (u + 1) (m_read_buf c) @ ''judge.html'' @ NUL # drop (u + 12) (m_read_buf c)"
    obtain x y where xy: "m_read_buf c = x @ ''/'' @ NUL # y" "length x = u"
      using u url1 by (auto simp: holds_str_decomp)
    have cat: "strcat (m_read_buf c) u ''judge.html'' = Inr b"
      using strlen_holds [OF u] url1 room by (simp add: strcat_def strcpy_def vcopy_def b_def numeral_eq_Suc)
    have "b = x @ ''/judge.html'' @ NUL # drop (u + 12) (m_read_buf c)" using xy by (simp add: b_def)
    then have "holds_str b u ''/judge.html''" using xy(2) holds_strI [of "''/judge.html''" x u] by (simp add: NUL_def)
    moreover have "drop i b = drop i (m_read_buf c)" if "u + 12 \<le> i" for i
    proof -
      define d where "d = i - (u + 12)"
      have d: "i = u + 12 + d" using that by (simp add: d_def)
      have "length (take (u + 1) (m_read_buf c) @ ''judge.html'' @ [NUL]) = u + 12" using room url1 by simp
      then have "drop (u + 12) b = drop (u + 12) (m_read_buf c)" by (simp add: b_def)
      then have "drop d (drop (u + 12) b) = drop d (drop (u + 12) (m_read_buf c))" by simp
      then show ?thesis by (simp add: d add.commute)
    qed
    moreover have "length b = length (m_read_buf c)" using room url1 by (simp add: b_def)
    moreover have "parse_target u v c = Inr (NO_REQUEST, c\<lparr>m_read_buf := b, m_url := Some u,
      m_check_state := CHECK_STATE_HEADER\<rparr>)"
      using eval cat True url1 by (simp add: parse_target_def Let_def)
    ultimately show ?thesis using that [of b] url1 by (simp add: served_url_def)
  qed
qed

lemma parse_request_line_plain:
  assumes h: "holds_str (m_read_buf c) t (request_line m url)" and url: "plain_url url"
    and m: "m = GET \<or> m = POST" and room: "t + length (request_line m url) + 2 \<le> length (m_read_buf c)"
  obtains b u ver where "parse_request_line t c = Inr (NO_REQUEST, c\<lparr>m_read_buf := b, m_url := Some u,
      m_method := m, cgi := (if m = POST then 1 else cgi c), m_version := ver, m_check_state := CHECK_STATE_HEADER\<rparr>)"
    "holds_str b u (served_url url)" "length b = length (m_read_buf c)"
    "drop (t + length (request_line m url) + 2) b = drop (t + length (request_line m url) + 2) (m_read_buf c)"
    "u + length (served_url url) < t + length (request_line m url) + 2"
proof -
  define nm where "nm = method_name m"
  define q where "q = t + length nm"
  define u where "u = q + 1"
  define v where "v = u + length url"
  define b1 where "b1 = (m_read_buf c)[q := NUL]"
  define b2 where "b2 = b1[v := NUL]"
  have h1: "holds_str (m_read_buf c) t (nm @ CHR '' '' # url @ CHR '' '' # ''HTTP/1.1'')"
    using h by (simp add: request_line_def nm_def)
  have nm: "set nm \<inter> set BLANKS = {}" by (simp add: nm_def method_name_def BLANKS_def)
  obtain r where r: "url = CHR ''/'' # r" using url by (auto simp: plain_url_def)
  have ub: "set url \<inter> set BLANKS = {}" using url by (auto simp: plain_url_def BLANKS_def)
  have len: "length (request_line m url) = length nm + length url + 10"
    by (simp add: request_line_def nm_def)
  have ql: "q < length (m_read_buf c)" and vl: "v < length b1"
    using room len by (simp_all add: q_def v_def u_def b1_def)
  have p1: "strpbrk (m_read_buf c) t BLANKS = Inr (Some q)" using strpbrk_blank [OF h1 nm] by (simp add: q_def)
  have b1: "holds_str b1 t nm" "holds_str b1 u (url @ CHR '' '' # ''HTTP/1.1'')"
    using holds_str_cut [OF h1] by (simp_all add: b1_def q_def u_def)
  have sp1: "strspn b1 u BLANKS = Inr 0" using strspn_holds [OF b1(2) blanks_nul] r by (simp add: BLANKS_def)
  have p2: "strpbrk b1 u BLANKS = Inr (Some v)" using strpbrk_blank [OF b1(2) ub] by (simp add: v_def)
  have b2: "holds_str b2 u url" "holds_str b2 (v + 1) ''HTTP/1.1''"
    using holds_str_cut [OF b1(2)] by (simp_all add: b2_def v_def)
  have sp2: "strspn b2 (v + 1) BLANKS = Inr 0" using strspn_holds [OF b2(2) blanks_nul] by (simp add: BLANKS_def)
  define c1 where "c1 = (if m = POST
    then c\<lparr>m_method := POST, cgi := 1, m_url := Some u, m_read_buf := b2, m_version := Some (Suc v)\<rparr>
    else c\<lparr>m_method := GET, m_url := Some u, m_read_buf := b2, m_version := Some (Suc v)\<rparr>)"
  have bc1: "m_read_buf c1 = b2" by (simp add: c1_def)
  have "length b2 = length (m_read_buf c)" by (simp add: b2_def b1_def)
  then have room1: "u + length url + 11 \<le> length (m_read_buf c1)"
    using room len by (simp add: bc1 u_def q_def)
  obtain b where b: "parse_target u (v + 1) c1 = Inr (NO_REQUEST, c1\<lparr>m_read_buf := b, m_url := Some u,
      m_check_state := CHECK_STATE_HEADER\<rparr>)" "holds_str b u (served_url url)" "length b = length (m_read_buf c1)"
    "\<And>i. u + length url + 11 \<le> i \<Longrightarrow> drop i b = drop i (m_read_buf c1)"
    using parse_target_plain [of c1 u url "v + 1"] b2 url room1 by (auto simp: bc1)
  have cmp: "strcasecmp_eq b1 t ''GET'' = Inr (m = GET)" "m = POST \<Longrightarrow> strcasecmp_eq b1 t ''POST'' = Inr True"
    using strcasecmp_holds [OF b1(1) lit_nul(1)] strcasecmp_holds [OF b1(1) lit_nul(2)] m
    by (auto simp: nm_def method_name_def to_lower_def of_char_of)
  have uq: "Suc q = u" by (simp add: u_def)
  note eval = p1 ql cmp sp1 p2 vl sp2 [simplified] uq b1_def [symmetric] b2_def [symmetric]
  have whole: "parse_request_line t c = parse_target u (v + 1) c1"
    using m by (elim disjE) (simp_all add: parse_request_line_def Let_def eval c1_def del: strcasecmp_eq.simps)
  show ?thesis
  proof (rule that [where b = b and u = u and ver = "Some (v + 1)"])
    show "parse_request_line t c = Inr (NO_REQUEST, c\<lparr>m_read_buf := b, m_url := Some u,
      m_method := m, cgi := (if m = POST then 1 else cgi c), m_version := Some (v + 1),
      m_check_state := CHECK_STATE_HEADER\<rparr>)" unfolding whole b(1) using m by (auto simp: c1_def)
    show "holds_str b u (served_url url)" by (rule b(2))
    show "length b = length (m_read_buf c)" using b(3) by (simp add: bc1 b2_def b1_def)
    show "drop (t + length (request_line m url) + 2) b = drop (t + length (request_line m url) + 2) (m_read_buf c)"
      using b(4) [of "t + length (request_line m url) + 2"] len by (simp add: bc1 b2_def b1_def u_def q_def v_def)
    show "u + length (served_url url) < t + length (request_line m url) + 2"
      using len by (simp add: served_url_def u_def q_def)
  qed
qed

section \<open>A whole request\<close>

lemma holds_str_take:
  assumes "holds_str b p s" and "p + length s < k"
  shows "holds_str (take k b @ x) p s"
proof -
  obtain u v where b: "b = u @ s @ NUL # v" "length u = p" "NUL \<notin> set s"
    using assms(1) by (auto simp: holds_str_decomp)
  obtain d where d: "k = length (u @ s @ [NUL]) + d" using assms(2) b(2) less_iff_Suc_add by auto
  have "b = (u @ s @ [NUL]) @ v" using b(1) by simp
  then have "take k b @ x = (u @ s @ [NUL]) @ (take d v @ x)" unfolding d by simp
  then show ?thesis using holds_strI [OF b(3,2), of "take d v @ x"] by simp
qed

text \<open>The loop up to the blank line, for a request received from the start of the buffer.\<close>

lemma request_head_parsed:
  assumes at: "at_line c (crlf_lines (request_line m url # hs) @ rest)" and st: "m_check_state c = CHECK_STATE_REQUESTLINE"
    and m: "m = GET \<or> m = POST" and url: "plain_url url" and hs: "list_all plain_line hs"
    and zero: "m_content_length c = 0" "\<not> m_linger c" "cgi c = 0"
  obtains c' u where "process_read_loop LINE_OK c = process_read_loop LINE_OK c'" "at_line c' rest"
    "m_check_state c' = CHECK_STATE_HEADER" "m_url c' = Some u" "m_method c' = m"
    "cgi c' = (if m = POST then 1 else 0)" "m_linger c' = list_ex hdr_linger hs"
    "m_content_length c' = fold hdr_length hs 0"
    "holds_str (m_read_buf c') u (served_url url)" "u + length (served_url url) < m_start_line c'"
    "m_read_idx c' = m_read_idx c"
proof -
  define line where "line = request_line m url"
  have al: "at_line c (line @ CR # LF # (crlf_lines hs @ rest))" using at by (simp add: crlf_lines_def line_def)
  have ln: "set line \<inter> {CR, LF} = {}" "NUL \<notin> set line"
    using url by (auto simp: line_def request_line_def method_name_def plain_url_def CR_def LF_def NUL_def)
  obtain c1 b where p: "parse_line c = Inr (LINE_OK, c1)"
    "c1 = c\<lparr>m_read_buf := b, m_checked_idx := m_checked_idx c + length line + 2\<rparr>"
    "at_line (c1\<lparr>m_start_line := m_checked_idx c1\<rparr>) (crlf_lines hs @ rest)"
    "holds_str b (m_start_line c) line"
    using split_line [OF al ln(1)] ln(2) by blast
  define c2 where "c2 = c1\<lparr>m_start_line := m_checked_idx c1\<rparr>"
  define k where "k = m_start_line c + length line + 2"
  have k: "m_checked_idx c2 = k" "m_start_line c2 = k" "m_read_buf c2 = b"
    using p(2) al by (simp_all add: c2_def k_def at_line_def)
  have kl: "k \<le> length b" using p(3) k by (simp add: c2_def [symmetric] at_line_def http_wf_def)
  have "holds_str (m_read_buf c2) (m_start_line c) (request_line m url)"
    "m_start_line c + length (request_line m url) + 2 \<le> length (m_read_buf c2)"
    using p(4) kl by (simp_all add: k line_def [symmetric] k_def)
  from parse_request_line_plain [OF this(1) url m this(2)]
  obtain b' u ver where b0: "parse_request_line (m_start_line c) c2 = Inr (NO_REQUEST, c2\<lparr>m_read_buf := b', m_url := Some u,
      m_method := m, cgi := (if m = POST then 1 else cgi c2), m_version := ver, m_check_state := CHECK_STATE_HEADER\<rparr>)"
    "holds_str b' u (served_url url)" "length b' = length (m_read_buf c2)"
    "drop (m_start_line c + length (request_line m url) + 2) b' = drop (m_start_line c + length (request_line m url) + 2) (m_read_buf c2)"
    "u + length (served_url url) < m_start_line c + length (request_line m url) + 2" .
  have b': "length b' = length b" "drop k b' = drop k b" "u + length (served_url url) < k"
    using b0(3-5) by (simp_all add: k(3) line_def k_def)
  define c3 where "c3 = c2\<lparr>m_read_buf := b', m_url := Some u, m_method := m,
    cgi := (if m = POST then 1 else cgi c2), m_version := ver, m_check_state := CHECK_STATE_HEADER\<rparr>"
  have h: "handle_line c1 = Inr (None, LINE_OK, c3)"
    using b0(1) p(2) st by (simp add: handle_line_def Let_def c2_def c3_def)
  then have step: "process_read_loop LINE_OK c = process_read_loop LINE_OK c3"
    using p(1) st by (subst process_read_loop.simps) (simp add: next_line_def)
  have "http_wf c1" using parse_line_wf(1) p(1) al by (auto simp: at_line_def)
  then have w3: "http_wf c3" using handle_line_wf [OF h] by blast
  have at3: "at_line c3 (crlf_lines hs @ rest)"
    using p(3) w3 b'(2) k by (simp add: c2_def [symmetric] at_line_def c3_def)
  have c3: "m_check_state c3 = CHECK_STATE_HEADER" "m_url c3 = Some u" "m_method c3 = m"
    "cgi c3 = (if m = POST then 1 else 0)" "\<not> m_linger c3" "m_content_length c3 = 0" "m_start_line c3 = k"
    "m_read_buf c3 = b'" "m_read_idx c3 = m_read_idx c"
    using p(2) zero k by (simp_all add: c3_def c2_def)
  obtain c' where c': "process_read_loop LINE_OK c3 = process_read_loop LINE_OK c'" "at_line c' rest"
     "m_check_state c' = CHECK_STATE_HEADER" "m_url c' = m_url c3" "m_method c' = m_method c3"
     "cgi c' = cgi c3" "m_linger c' = (m_linger c3 \<or> list_ex hdr_linger hs)"
     "m_content_length c' = fold hdr_length hs (m_content_length c3)" "k \<le> m_start_line c'"
     "take k (m_read_buf c') = take k b'" "m_read_idx c' = m_read_idx c3"
    using headers_consumed [OF at3 c3(1) hs] c3(7,8) by auto
  have "holds_str (take k (m_read_buf c') @ drop k (m_read_buf c')) u (served_url url)"
    unfolding c'(10) by (rule holds_str_take [OF b0(2) b'(3)])
  then have "holds_str (m_read_buf c') u (served_url url)" by simp
  then show ?thesis using that [of c' u] c' c3 step b'(3) by simp
qed

text \<open>The blank line ends a request without a body; with a body the loop goes on to \<open>parse_content\<close>.\<close>

lemma request_finished:
  assumes at: "at_line c (CR # LF # body)" and st: "m_check_state c = CHECK_STATE_HEADER"
    and len: "m_content_length c = int (length body)" and room: "m_read_idx c < int READ_BUFFER_SIZE"
    and url: "m_url c = Some u" "holds_str (m_read_buf c) u s" "u + length s < m_start_line c"
    and body: "NUL \<notin> set body"
  obtains c' where "process_read_loop LINE_OK c = Inr (Do_Request, c')" "m_url c' = Some u"
    "holds_str (m_read_buf c') u s" "m_method c' = m_method c" "cgi c' = cgi c" "m_linger c' = m_linger c"
    "body \<noteq> [] \<Longrightarrow> \<exists>p. m_string c' = Some p \<and> holds_str (m_read_buf c') p body"
proof -
  have al: "at_line c ([] @ CR # LF # body)" using at by simp
  obtain c1 b where p: "parse_line c = Inr (LINE_OK, c1)"
    "c1 = c\<lparr>m_read_buf := b, m_checked_idx := m_checked_idx c + 2\<rparr>"
    "at_line (c1\<lparr>m_start_line := m_checked_idx c1\<rparr>) body"
    "holds_str b (m_start_line c) []" "take (m_start_line c) b = take (m_start_line c) (m_read_buf c)"
    using split_line [OF al] by (auto simp: add_2_eq_Suc' simp del: add_2_eq_Suc)
  define k where "k = m_checked_idx c + 2"
  have first: "vget b (m_start_line c) = Inr NUL" using holds_str_vget [OF p(4)] by simp
  have hu: "holds_str b u s"
    using holds_str_take [OF url(2,3), of "drop (m_start_line c) b"] by (simp only: p(5) [symmetric] append_take_drop_id)
  define c2 where "c2 = c1\<lparr>m_start_line := m_checked_idx c1\<rparr>"
  have nl: "next_line LINE_OK c = Inr (LINE_OK, c1)" using p(1) st by (simp add: next_line_def)
  show ?thesis
  proof (cases "body = []")
    case True
    then have "handle_line c1 = Inr (Some Do_Request, LINE_OK, c2)"
      using first p(2) st len by (simp add: handle_line_def Let_def parse_headers_def c2_def)
    then have "process_read_loop LINE_OK c = Inr (Do_Request, c2)"
      using nl by (subst process_read_loop.simps) simp
    then show ?thesis using that [of c2] True hu url p(2) by (simp add: c2_def)
  next
    case False
    define c3 where "c3 = c2\<lparr>m_check_state := CHECK_STATE_CONTENT\<rparr>"
    have h: "handle_line c1 = Inr (None, LINE_OK, c3)"
      using first p(2) st len False by (simp add: handle_line_def Let_def parse_headers_def c2_def c3_def)
    have c3: "m_checked_idx c3 = k" "m_start_line c3 = k" "m_content_length c3 = int (length body)"
      "m_check_state c3 = CHECK_STATE_CONTENT" "m_read_buf c3 = b"
      using p(2) len by (simp_all add: c3_def c2_def k_def)
    obtain x y where xy: "b = x @ body @ y" "length x = k" "m_read_idx c2 = int (k + length body)"
      using at_line_decomp [OF p(3)] p(2) by (auto simp: c2_def k_def)
    have idx: "m_read_idx c3 = int (k + length body)" "m_read_idx c = m_read_idx c2" "length b = READ_BUFFER_SIZE"
      using xy p(2,3) by (simp_all add: c3_def c2_def at_line_def http_wf_def)
    then have lt: "k + length body < length b" using room xy(3) by simp
    define b3 where "b3 = b[k + length body := NUL]"
    define c4 where "c4 = c3\<lparr>m_read_buf := b3, m_string := Some k\<rparr>"
    have "in_int (int (length body) + int k)"
      using lt idx(3) by (simp add: in_int_def INT_MIN_def INT_MAX_def READ_BUFFER_SIZE_def)
    then have "handle_line c3 = Inr (Some Do_Request, LINE_OPEN, c4)"
      using c3 idx lt
      by (simp add: handle_line_def Let_def parse_content_def vset_int_def vset_def c4_def b3_def nat_add_distrib add.commute)
    then have "process_read_loop LINE_OK c3 = Inr (Do_Request, c4)"
      using c3(4) by (subst process_read_loop.simps) (simp add: next_line_def)
    then have run: "process_read_loop LINE_OK c = Inr (Do_Request, c4)"
      using nl h by (subst process_read_loop.simps) simp
    obtain y0 ys where y: "y = y0 # ys" using lt xy(1,2) by (cases y) auto
    have "b3 = x @ body @ NUL # ys" using xy y by (simp add: b3_def list_update_append)
    then have "holds_str b3 k body" using body xy(2) by (auto intro: holds_strI)
    moreover have "holds_str b3 u s" unfolding b3_def
      using hu url(3) by (intro holds_str_other) (use al in \<open>auto simp: k_def at_line_def\<close>)
    ultimately show ?thesis using that [of c4] run url p(2) by (simp add: c4_def c3_def c2_def)
  qed
qed

text \<open>
  C20. A well-formed request is understood as written: method, target (\<open>/\<close> meaning \<open>/judge.html\<close>), any
  header lines and a body of the declared length, received in one piece from the start of a
  connection, make \<open>process_read\<close> call \<open>do_request\<close> with \<open>m_url\<close> pointing at the target, \<open>m_method\<close> and
  \<open>cgi\<close> set from the method, \<open>m_linger\<close> set iff some header says \<open>Connection: keep-alive\<close> in any
  case, and \<open>m_string\<close> pointing at the body.
\<close>

theorem http_request_parsed:
  assumes "m = GET \<or> m = POST" and "plain_url url" and "list_all plain_line hs" and "NUL \<notin> set body"
    and "fold hdr_length hs 0 = int (length body)"
    and "msg = crlf_lines (request_line m url # hs) @ CR # LF # body" and "length msg < READ_BUFFER_SIZE"
  shows "\<exists>d c' u. read_once (Recv_Bytes msg) (http_init c) = Inr (True, d)
    \<and> process_read_loop LINE_OK d = Inr (Do_Request, c')
    \<and> m_url c' = Some u \<and> cstr (m_read_buf c') u = Inr (served_url url)
    \<and> m_method c' = m \<and> cgi c' = (if m = POST then 1 else 0)
    \<and> m_linger c' = list_ex hdr_linger hs
    \<and> (body \<noteq> [] \<longrightarrow> (\<exists>p. m_string c' = Some p \<and> cstr (m_read_buf c') p = Inr body))"
proof -
  define d where "d = feed msg (http_init c)"
  have msg: "msg \<noteq> []" using assms(6) by simp
  have r: "read_once (Recv_Bytes msg) (http_init c) = Inr (True, d)"
    unfolding d_def using assms(7) msg by (intro read_once_feed [OF http_init_wf]) (auto simp: http_init_def)
  have d: "m_check_state d = CHECK_STATE_REQUESTLINE" "m_content_length d = 0" "\<not> m_linger d" "cgi d = 0"
    "m_read_idx d = int (length msg)" "m_read_buf d = [] @ msg @ replicate (READ_BUFFER_SIZE - length msg) NUL"
    "m_checked_idx d = 0" "m_start_line d = 0"
    by (simp_all add: d_def feed_def http_init_def feed_buf_def)
  have "at_line d msg"
    using read_once_bytes(3) [OF http_init_wf r] d by (intro at_lineI [where u = "[]"]) simp_all
  then have "at_line d (crlf_lines (request_line m url # hs) @ CR # LF # body)" by (simp only: assms(6))
  from request_head_parsed [OF this d(1) assms(1-3) d(2-4)]
  obtain c1 u where c1: "process_read_loop LINE_OK d = process_read_loop LINE_OK c1" "at_line c1 (CR # LF # body)"
    "m_check_state c1 = CHECK_STATE_HEADER" "m_url c1 = Some u" "m_method c1 = m"
    "cgi c1 = (if m = POST then 1 else 0)" "m_linger c1 = list_ex hdr_linger hs"
    "m_content_length c1 = fold hdr_length hs 0"
    "holds_str (m_read_buf c1) u (served_url url)" "u + length (served_url url) < m_start_line c1"
    "m_read_idx c1 = m_read_idx d" .
  have len: "m_content_length c1 = int (length body)" and room: "m_read_idx c1 < int READ_BUFFER_SIZE"
    using c1(8,11) assms(5,7) d(5) by simp_all
  obtain c' where c': "process_read_loop LINE_OK c1 = Inr (Do_Request, c')" "m_url c' = Some u"
    "holds_str (m_read_buf c') u (served_url url)" "m_method c' = m_method c1" "cgi c' = cgi c1"
    "m_linger c' = m_linger c1" "body \<noteq> [] \<longrightarrow> (\<exists>p. m_string c' = Some p \<and> holds_str (m_read_buf c') p body)"
    using request_finished [OF c1(2,3) len room c1(4,9,10) assms(4)] by metis
  show ?thesis
    using r c1 c' by (intro exI [of _ d] exI [of _ c'] exI [of _ u]) (auto simp: cstr_eq_Inr)
qed

theorem http_request_parsed_witness:
  "\<exists>d c' u. read_once (Recv_Bytes (crlf_lines [''POST /2CGISQL.cgi HTTP/1.1'',
        ''connection:  Keep-Alive'', ''Content-Length: 6''] @ CR # LF # ''user=a'')) (http_init fresh_conn) = Inr (True, d)
    \<and> process_read_loop LINE_OK d = Inr (Do_Request, c')
    \<and> m_url c' = Some u \<and> cstr (m_read_buf c') u = Inr ''/2CGISQL.cgi''
    \<and> m_method c' = POST \<and> cgi c' = 1 \<and> m_linger c'
    \<and> (\<exists>p. m_string c' = Some p \<and> cstr (m_read_buf c') p = Inr ''user=a'')"
proof -
  have h: "list_ex hdr_linger [''connection:  Keep-Alive'', ''Content-Length: 6'']" by code_simp
  have l: "fold hdr_length [''connection:  Keep-Alive'', ''Content-Length: 6''] 0 = int (length ''user=a'')" by code_simp
  have p: "list_all plain_line [''connection:  Keep-Alive'', ''Content-Length: 6'']" "NUL \<notin> set ''user=a''"
    "plain_url ''/2CGISQL.cgi''"
    by (simp_all add: plain_line_def plain_url_def CR_def LF_def NUL_def)
  have rl: "request_line POST ''/2CGISQL.cgi'' = ''POST /2CGISQL.cgi HTTP/1.1''"
    by (simp add: request_line_def method_name_def)
  have len: "length (crlf_lines (request_line POST ''/2CGISQL.cgi'' # [''connection:  Keep-Alive'', ''Content-Length: 6''])
      @ CR # LF # ''user=a'') < READ_BUFFER_SIZE"
    by (simp add: rl crlf_lines_def READ_BUFFER_SIZE_def)
  show ?thesis
    using http_request_parsed [OF _ p(3) p(1) p(2) l refl len, of fresh_conn] h rl by (simp add: served_url_def)
qed

end
