(* ===== verification/Http_Reply.thy ===== *)
theory Http_Reply
  imports Http_Conn
begin

text \<open>
  The answering half of TinyWebServer's connection (\<open>http/http_conn.cpp\<close>): \<open>do_request\<close> with the
  login and registration pages, the reply written by \<open>process_write\<close>, the transmission loop of
  \<open>write\<close>, and the entry points that thread the static members through them. The file system and
  the database are parameters (\<open>http_world\<close>); the calls to \<open>epoll_ctl\<close> and \<open>close\<close> are recorded.
\<close>

section \<open>Static members and the outside\<close>

datatype ep_flag = EPOLLIN | EPOLLOUT | EPOLLRDHUP | EPOLLONESHOT | EPOLLHUP | EPOLLERR

datatype ep_op =
    Epoll_Add int "ep_flag list"
  | Epoll_Mod int "ep_flag list"
  | Epoll_Del int
  | Set_Nonblocking int
  | Close_Fd int

record http_static =
  m_user_count :: int
  users :: "(string, string) map"
  ep_ops :: "ep_op list"

record http_world =
  stat_of :: "string \<Rightarrow> file_stat option"
  file_data :: "string \<Rightarrow> string option"
  sql_query :: "nat option \<Rightarrow> string \<Rightarrow> int"

definition initmysql_result :: "(string \<times> string) list \<Rightarrow> http_static \<Rightarrow> http_static" where
  "initmysql_result rows g = g\<lparr>users := fold (\<lambda>(temp1, temp2) m. m(temp1 \<mapsto> temp2)) rows (users g)\<rparr>"

definition record_op :: "ep_op \<Rightarrow> http_static \<Rightarrow> http_static" where
  "record_op x g = g\<lparr>ep_ops := ep_ops g @ [x]\<rparr>"

definition setnonblocking :: "int \<Rightarrow> http_static \<Rightarrow> http_static" where
  "setnonblocking fd g = record_op (Set_Nonblocking fd) g"

definition addfd :: "int \<Rightarrow> bool \<Rightarrow> http_static \<Rightarrow> http_static" where
  "addfd fd one_shot g =
     setnonblocking fd
       (record_op (Epoll_Add fd ([EPOLLIN, EPOLLRDHUP] @ (if one_shot then [EPOLLONESHOT] else []))) g)"

definition removefd :: "int \<Rightarrow> http_static \<Rightarrow> http_static" where
  "removefd fd g = record_op (Close_Fd fd) (record_op (Epoll_Del fd) g)"

definition modfd :: "int \<Rightarrow> ep_flag \<Rightarrow> http_static \<Rightarrow> http_static" where
  "modfd fd ev g = record_op (Epoll_Mod fd [ev, EPOLLONESHOT, EPOLLRDHUP]) g"

definition close_conn :: "bool \<Rightarrow> http_conn \<Rightarrow> http_static \<Rightarrow> http_conn \<times> http_static" where
  "close_conn real_close c g =
     (if real_close \<and> m_sockfd c \<noteq> -1 then
        (c\<lparr>m_sockfd := -1\<rparr>,
         (removefd (m_sockfd c) g)\<lparr>m_user_count := m_user_count g - 1\<rparr>)
      else (c, g))"

definition conn_init :: "int \<Rightarrow> http_conn \<Rightarrow> http_static \<Rightarrow> http_conn \<times> http_static" where
  "conn_init sockfd c g =
     (http_init (c\<lparr>m_sockfd := sockfd\<rparr>),
      (addfd sockfd True g)\<lparr>m_user_count := m_user_count g + 1\<rparr>)"

section \<open>The requested file\<close>

definition doc_root :: string where
  "doc_root = ''Project/TinyWebServer-raw_version/root''"

text \<open>
  The two loops that copy the name and the password out of \<open>m_string\<close> into arrays of 100
  characters. The first one stops at \<open>&\<close>, the second one at the terminator.
\<close>

function copy_until :: "char \<Rightarrow> char list \<Rightarrow> nat \<Rightarrow> string \<Rightarrow> (string \<times> nat) res" where
  "copy_until stop b i acc =
     (if i < length b then
        if b ! i = stop then
          if length acc < 100 then Inr (acc, i) else Inl Out_Of_Bounds
        else if length acc < 100 then copy_until stop b (i + 1) (acc @ [b ! i])
        else Inl Out_Of_Bounds
      else Inl Out_Of_Bounds)"
  by pat_completeness auto
termination
  by (relation "measure (\<lambda>(stop, b, i, acc). length b - i)") auto

declare copy_until.simps [simp del]

text \<open>An array used as a C string ends at its first terminator.\<close>

definition as_cstr :: "string \<Rightarrow> string" where
  "as_cstr s = takeWhile (\<lambda>c. c \<noteq> NUL) s"

definition insert_stmt :: "string \<Rightarrow> string \<Rightarrow> string" where
  "insert_stmt name password =
     ''INSERT INTO user(username, passwd) VALUES('' @ [CHR 39] @ name @ [CHR 39] @ '', '' @ [CHR 39]
       @ password @ [CHR 39] @ '')''"

text \<open>The login and registration block; \<open>sel\<close> is \<open>*(p + 1)\<close>.\<close>

definition read_credentials :: "http_conn \<Rightarrow> (string \<times> string) res" where
  "read_credentials c =
     (case m_string c of
        None \<Rightarrow> Inl Uninit_Read
      | Some s \<Rightarrow>
          bind_res (copy_until (CHR ''&'') (m_read_buf c) (s + 5) []) (\<lambda>(name, i).
          bind_res (copy_until NUL (m_read_buf c) (i + 10) []) (\<lambda>(password, _).
          Inr (as_cstr name, as_cstr password))))"

definition do_cgi ::
  "http_world \<Rightarrow> char \<Rightarrow> nat \<Rightarrow> http_conn \<Rightarrow> http_static \<Rightarrow> (http_conn \<times> http_static) res" where
  "do_cgi w sel url c g =
     bind_res (vget (m_read_buf c) (url + 1)) (\<lambda>flag.
     bind_res (cstr (m_read_buf c) (url + 2)) (\<lambda>rest.
     if 200 < length rest + 2 then Inl Out_Of_Bounds
     else
     bind_res (strncpy (m_real_file c) (length doc_root) (CHR ''/'' # rest) (FILENAME_LEN - length doc_root - 1))
       (\<lambda>rf.
     (let c1 = c\<lparr>m_real_file := rf\<rparr> in
     bind_res (read_credentials c1) (\<lambda>(name, password).
     if sel = CHR ''3'' then
       if 200 < length (insert_stmt name password) + 1 then Inl Out_Of_Bounds
       else if users g name = None then
         (let res = sql_query w (mysql c1) (insert_stmt name password);
              g1 = g\<lparr>users := (users g)(name \<mapsto> password)\<rparr> in
          bind_res (strcpy (m_read_buf c1) url (if res = 0 then ''/log.html'' else ''/registerError.html''))
            (\<lambda>b. Inr (c1\<lparr>m_read_buf := b\<rparr>, g1)))
       else
         bind_res (strcpy (m_read_buf c1) url ''/registerError.html'') (\<lambda>b. Inr (c1\<lparr>m_read_buf := b\<rparr>, g))
     else if sel = CHR ''2'' then
       bind_res (strcpy (m_read_buf c1) url
           (if users g name = Some password then ''/welcome.html'' else ''/logError.html''))
         (\<lambda>b. Inr (c1\<lparr>m_read_buf := b\<rparr>, g))
     else Inr (c1, g))))))"

text \<open>The pages selected by one digit behind the last slash.\<close>

definition digit_page :: "char \<Rightarrow> string option" where
  "digit_page x =
     (if x = CHR ''0'' then Some ''/register.html''
      else if x = CHR ''1'' then Some ''/log.html''
      else if x = CHR ''5'' then Some ''/picture.html''
      else if x = CHR ''6'' then Some ''/video.html''
      else if x = CHR ''7'' then Some ''/fans.html''
      else None)"

definition real_file :: "nat \<Rightarrow> nat \<Rightarrow> http_conn \<Rightarrow> char list res" where
  "real_file p url c =
     bind_res (vget (m_read_buf c) (p + 1)) (\<lambda>x.
     (case digit_page x of
        Some page \<Rightarrow> strncpy (m_real_file c) (length doc_root) page (length page)
      | None \<Rightarrow>
          bind_res (cstr (m_read_buf c) url) (\<lambda>s.
          strncpy (m_real_file c) (length doc_root) s (FILENAME_LEN - length doc_root - 1))))"

text \<open>
  \<open>file_data\<close> is what \<open>open\<close> and \<open>mmap\<close> give for a path, \<open>None\<close> when one of them fails. Neither result is tested: \<open>m_file_address\<close>
  is then \<open>MAP_FAILED\<close>, which is not null, an address with no byte behind it.
\<close>

definition open_file :: "http_world \<Rightarrow> http_conn \<Rightarrow> (http_code \<times> http_conn) res" where
  "open_file w c =
     bind_res (cstr (m_real_file c) 0) (\<lambda>path.
     case stat_of w path of
       None \<Rightarrow> Inr (NO_RESOURCE, c)
     | Some st \<Rightarrow>
         (let c1 = c\<lparr>m_file_stat := st\<rparr> in
          if \<not> st_mode_iroth st then Inr (FORBIDDEN_REQUEST, c1)
          else if st_mode_dir st then Inr (BAD_REQUEST, c1)
          else Inr (FILE_REQUEST, c1\<lparr>m_file_address := Some (case file_data w path of Some f \<Rightarrow> f | None \<Rightarrow> [])\<rparr>)))"

definition do_request ::
  "http_world \<Rightarrow> http_conn \<Rightarrow> http_static \<Rightarrow> (http_code \<times> http_conn \<times> http_static) res" where
  "do_request w c g =
     bind_res (strcpy (m_real_file c) 0 doc_root) (\<lambda>rf.
     (let c1 = c\<lparr>m_real_file := rf\<rparr> in
     case m_url c of
       None \<Rightarrow> Inl Null_Deref
     | Some url \<Rightarrow>
       bind_res (strrchr (m_read_buf c) url (CHR ''/'')) (\<lambda>p. case p of
         None \<Rightarrow> Inl Null_Deref
       | Some p \<Rightarrow>
         bind_res (vget (m_read_buf c) (p + 1)) (\<lambda>sel.
         bind_res (if cgi c = 1 \<and> (sel = CHR ''2'' \<or> sel = CHR ''3'') then do_cgi w sel url c1 g
                   else Inr (c1, g)) (\<lambda>(c2, g2).
         bind_res (real_file p url c2) (\<lambda>rf2.
         bind_res (open_file w (c2\<lparr>m_real_file := rf2\<rparr>)) (\<lambda>(code, c3).
         Inr (code, c3, g2))))))))"

definition process_read ::
  "http_world \<Rightarrow> http_conn \<Rightarrow> http_static \<Rightarrow> (http_code \<times> http_conn \<times> http_static) res" where
  "process_read w c g =
     bind_res (process_read_loop LINE_OK c) (\<lambda>(out, c1).
       case out of Return_Code code \<Rightarrow> Inr (code, c1, g) | Do_Request \<Rightarrow> do_request w c1 g)"

section \<open>The reply\<close>

text \<open>
  \<open>add_response\<close> with the text its format produces: \<open>vsnprintf\<close> writes what fits and a terminator, and
  returns the length the text would have had.
\<close>

definition add_response :: "string \<Rightarrow> http_conn \<Rightarrow> (bool \<times> http_conn) res" where
  "add_response s c =
     (if m_write_idx c \<ge> WRITE_BUFFER_SIZE then Inr (False, c)
      else
        (let n = WRITE_BUFFER_SIZE - 1 - m_write_idx c in
         bind_res (if n = 0 then Inr (m_write_buf c)
                   else vcopy (m_write_buf c) (m_write_idx c) (take (n - 1) s @ [NUL])) (\<lambda>b.
         if length s \<ge> n then Inr (False, c\<lparr>m_write_buf := b\<rparr>)
         else Inr (True, c\<lparr>m_write_buf := b, m_write_idx := m_write_idx c + length s\<rparr>))))"

definition CRLF :: string where "CRLF = [CR, LF]"

definition add_status_line :: "int \<Rightarrow> string \<Rightarrow> http_conn \<Rightarrow> (bool \<times> http_conn) res" where
  "add_status_line status title c =
     add_response (''HTTP/1.1'' @ '' '' @ to_string status @ '' '' @ title @ CRLF) c"

definition add_content_length :: "int \<Rightarrow> http_conn \<Rightarrow> (bool \<times> http_conn) res" where
  "add_content_length content_len c = add_response (''Content-Length:'' @ to_string content_len @ CRLF) c"

definition add_content_type :: "http_conn \<Rightarrow> (bool \<times> http_conn) res" where
  "add_content_type c = add_response (''Content-Type:'' @ ''text/html'' @ CRLF) c"

definition add_linger :: "http_conn \<Rightarrow> (bool \<times> http_conn) res" where
  "add_linger c = add_response (''Connection:'' @ (if m_linger c then ''keep-alive'' else ''close'') @ CRLF) c"

definition add_blank_line :: "http_conn \<Rightarrow> (bool \<times> http_conn) res" where
  "add_blank_line c = add_response CRLF c"

definition add_content :: "string \<Rightarrow> http_conn \<Rightarrow> (bool \<times> http_conn) res" where
  "add_content content c = add_response content c"

text \<open>\<open>add_headers\<close> has no return statement; the callers ignore its value.\<close>

definition add_headers :: "int \<Rightarrow> http_conn \<Rightarrow> http_conn res" where
  "add_headers content_len c =
     bind_res (add_content_length content_len c) (\<lambda>(_, c1).
     bind_res (add_linger c1) (\<lambda>(_, c2).
     bind_res (add_blank_line c2) (\<lambda>(_, c3). Inr c3)))"

definition ok_200_title :: string where "ok_200_title = ''OK''"

definition error_403_title :: string where "error_403_title = ''Forbidden''"

definition error_403_form :: string where
  "error_403_form = ''You do not have permission to get file form this server.'' @ [LF]"

definition error_404_title :: string where "error_404_title = ''Not Found''"

definition error_404_form :: string where
  "error_404_form = ''The requested file was not found on this server.'' @ [LF]"

definition error_500_title :: string where "error_500_title = ''Internal Error''"

definition error_500_form :: string where
  "error_500_form = ''There was an unusual problem serving the request file.'' @ [LF]"

definition ok_string :: string where "ok_string = ''<html><body></body></html>''"

text \<open>A page made of a status line, headers and a text; \<open>False\<close> when the text does not fit.\<close>

definition add_page :: "int \<Rightarrow> string \<Rightarrow> string \<Rightarrow> http_conn \<Rightarrow> (bool \<times> http_conn) res" where
  "add_page status title form c =
     bind_res (add_status_line status title c) (\<lambda>(_, c1).
     bind_res (add_headers (int (length form)) c1) (\<lambda>c2. add_content form c2))"

definition send_buffer :: "http_conn \<Rightarrow> http_conn" where
  "send_buffer c = c\<lparr>m_iv := (m_iv c)[0 := (Write_Buf 0, m_write_idx c)], m_iv_count := 1,
                    bytes_to_send := int (m_write_idx c)\<rparr>"

definition error_page :: "int \<Rightarrow> string \<Rightarrow> string \<Rightarrow> http_conn \<Rightarrow> (bool \<times> http_conn) res" where
  "error_page status title form c =
     bind_res (add_page status title form c) (\<lambda>(ok, c1).
       Inr (if ok then (True, send_buffer c1) else (False, c1)))"

definition process_write :: "http_code \<Rightarrow> http_conn \<Rightarrow> (bool \<times> http_conn) res" where
  "process_write ret c =
     (case ret of
        INTERNAL_ERROR \<Rightarrow> error_page 500 error_500_title error_500_form c
      | BAD_REQUEST \<Rightarrow> error_page 404 error_404_title error_404_form c
      | FORBIDDEN_REQUEST \<Rightarrow> error_page 403 error_403_title error_403_form c
      | FILE_REQUEST \<Rightarrow>
          bind_res (add_status_line 200 ok_200_title c) (\<lambda>(_, c1).
          if st_size (m_file_stat c1) \<noteq> 0 then
            bind_res (add_headers (long_to_int (int (st_size (m_file_stat c1)))) c1) (\<lambda>c2.
            Inr (True, c2\<lparr>
              m_iv := [(Write_Buf 0, m_write_idx c2), (File_Map 0, st_size (m_file_stat c2))],
              m_iv_count := 2,
              bytes_to_send := long_to_int (int (m_write_idx c2) + int (st_size (m_file_stat c2)))\<rparr>))
          else
            bind_res (add_headers (int (length ok_string)) c1) (\<lambda>c2.
            bind_res (add_content ok_string c2) (\<lambda>(_, c3). Inr (False, c3))))
      | _ \<Rightarrow> Inr (False, c))"

section \<open>Transmission\<close>

text \<open>The bytes an \<open>iovec\<close> describes; reading outside the buffer or before the mapped file is an error.\<close>

definition iov_bytes :: "http_conn \<Rightarrow> iov_base \<times> nat \<Rightarrow> string res" where
  "iov_bytes c iv =
     (if snd iv = 0 then Inr []
      else case fst iv of
        Unset_Base \<Rightarrow> Inl Uninit_Read
      | Write_Buf o1 \<Rightarrow>
          if 0 \<le> o1 \<and> nat o1 + snd iv \<le> length (m_write_buf c)
          then Inr (take (snd iv) (drop (nat o1) (m_write_buf c))) else Inl Out_Of_Bounds
      | File_Map o1 \<Rightarrow>
          (case m_file_address c of
             None \<Rightarrow> Inl Null_Deref
           | Some f \<Rightarrow>
               if 0 \<le> o1 \<and> nat o1 + snd iv \<le> length f
               then Inr (take (snd iv) (drop (nat o1) f)) else Inl Out_Of_Bounds))"

definition iov_all :: "http_conn \<Rightarrow> string res" where
  "iov_all c =
     bind_res (vget (m_iv c) 0) (\<lambda>iv0.
     bind_res (iov_bytes c iv0) (\<lambda>s0.
     if m_iv_count c = 2 then
       bind_res (vget (m_iv c) 1) (\<lambda>iv1. bind_res (iov_bytes c iv1) (\<lambda>s1. Inr (s0 @ s1)))
     else Inr s0))"

definition unmap :: "http_conn \<Rightarrow> http_conn" where
  "unmap c = (if m_file_address c = None then c else c\<lparr>m_file_address := None\<rparr>)"

text \<open>
  A call of \<open>writev\<close>: the socket is full (\<open>EAGAIN\<close>), an error, or the number of bytes taken, at most
  those described.
\<close>

datatype writev_result = Writev_Again | Writev_Error | Written nat

text \<open>The adjustment of the two \<open>iovec\<close>s after \<open>temp\<close> bytes were taken.\<close>

definition advance_iov :: "nat \<Rightarrow> http_conn \<Rightarrow> http_conn" where
  "advance_iov temp c =
     (let have_sent = bytes_have_send c + int temp; to_send = bytes_to_send c - int temp;
          c1 = c\<lparr>bytes_have_send := have_sent, bytes_to_send := to_send\<rparr>;
          len0 = snd (m_iv c ! 0) in
      if have_sent \<ge> int len0 then
        c1\<lparr>m_iv := [(fst (m_iv c ! 0), 0), (File_Map (have_sent - int (m_write_idx c)), nat to_send)]\<rparr>
      else
        c1\<lparr>m_iv := [(Write_Buf have_sent, len0 - nat have_sent), m_iv c ! 1]\<rparr>)"

text \<open>
  The loop of \<open>write\<close>, given the results of its \<open>writev\<close> calls and the bytes already sent. When the list
  of results ends the loop is waiting in the next call (\<open>None\<close>).
\<close>

fun write_loop ::
  "writev_result list \<Rightarrow> string \<Rightarrow> http_conn \<Rightarrow> http_static
     \<Rightarrow> (bool option \<times> string \<times> http_conn \<times> http_static) res" where
  "write_loop [] sent c g = Inr (None, sent, c, g)"
| "write_loop (Writev_Again # rs) sent c g = Inr (Some True, sent, c, modfd (m_sockfd c) EPOLLOUT g)"
| "write_loop (Writev_Error # rs) sent c g = Inr (Some False, sent, unmap c, g)"
| "write_loop (Written n # rs) sent c g =
     bind_res (iov_all c) (\<lambda>bytes.
     (let sent1 = sent @ take n bytes; c1 = advance_iov n c in
      if bytes_to_send c1 \<le> 0 then
        (let c2 = unmap c1; g2 = modfd (m_sockfd c) EPOLLIN g in
         Inr (if m_linger c2 then (Some True, sent1, http_init c2, g2) else (Some False, sent1, c2, g2)))
      else write_loop rs sent1 c1 g))"

definition http_write ::
  "writev_result list \<Rightarrow> http_conn \<Rightarrow> http_static
     \<Rightarrow> (bool option \<times> string \<times> http_conn \<times> http_static) res" where
  "http_write rs c g =
     (if bytes_to_send c = 0 then Inr (Some True, [], http_init c, modfd (m_sockfd c) EPOLLIN g)
      else write_loop rs [] c g)"

section \<open>One round of a worker thread\<close>

definition process :: "http_world \<Rightarrow> http_conn \<Rightarrow> http_static \<Rightarrow> (http_conn \<times> http_static) res" where
  "process w c g =
     bind_res (process_read w c g) (\<lambda>(read_ret, c1, g1).
     if read_ret = NO_REQUEST then Inr (c1, modfd (m_sockfd c1) EPOLLIN g1)
     else
       bind_res (process_write read_ret c1) (\<lambda>(write_ret, c2).
       (let (c3, g3) = (if write_ret then (c2, g1) else close_conn True c2 g1)
        in Inr (c3, modfd (m_sockfd c3) EPOLLOUT g3))))"

end
