(* ===== verification/Http_Serve.thy ===== *)
theory Http_Serve
  imports Http_Reply Http_Request
begin

text \<open>
  Correctness of the answering half of the web server's connection: which file a request is answered
  with, what a registration and a login do, the text of every reply, and the bytes that reach the
  socket.
\<close>

section \<open>Text of the replies\<close>

definition reply :: "http_conn \<Rightarrow> string" where
  "reply c = take (m_write_idx c) (m_write_buf c)"

lemma add_response_fits:
  assumes "length (m_write_buf c) = WRITE_BUFFER_SIZE" and "m_write_idx c + length s < WRITE_BUFFER_SIZE - 1"
  obtains b where "add_response s c = Inr (True, c\<lparr>m_write_buf := b, m_write_idx := m_write_idx c + length s\<rparr>)"
    "length b = WRITE_BUFFER_SIZE" "take (m_write_idx c + length s) b = reply c @ s"
proof -
  define n where "n = WRITE_BUFFER_SIZE - 1 - m_write_idx c"
  have n: "length s < n" "m_write_idx c < WRITE_BUFFER_SIZE" using assms(2) by (auto simp: n_def)
  define b where "b = take (m_write_idx c) (m_write_buf c) @ (s @ [NUL]) @ drop (m_write_idx c + length (s @ [NUL])) (m_write_buf c)"
  have t: "take (n - 1) s = s" using n(1) by simp
  have "vcopy (m_write_buf c) (m_write_idx c) (s @ [NUL]) = Inr b"
    using assms by (simp add: vcopy_def b_def)
  then have "add_response s c = Inr (True, c\<lparr>m_write_buf := b, m_write_idx := m_write_idx c + length s\<rparr>)"
    unfolding add_response_def Let_def n_def [symmetric] using n t by simp
  moreover have "length b = WRITE_BUFFER_SIZE" "take (m_write_idx c + length s) b = reply c @ s"
    using assms n(2) by (simp_all add: b_def reply_def)
  ultimately show ?thesis using that by blast
qed

text \<open>\<open>wrote c s c'\<close>: \<open>c'\<close> is \<open>c\<close> with \<open>s\<close> appended to the reply, nothing else changed.\<close>

definition wrote :: "http_conn \<Rightarrow> string \<Rightarrow> http_conn \<Rightarrow> bool" where
  "wrote c s c' \<longleftrightarrow>
     (\<exists>b. c' = c\<lparr>m_write_buf := b, m_write_idx := m_write_idx c + length s\<rparr>
        \<and> length b = WRITE_BUFFER_SIZE \<and> reply c' = reply c @ s)"

lemma add_response_wrote:
  assumes "length (m_write_buf c) = WRITE_BUFFER_SIZE" and "m_write_idx c + length s < WRITE_BUFFER_SIZE - 1"
  shows "\<exists>c'. add_response s c = Inr (True, c') \<and> wrote c s c'"
proof -
  obtain b where "add_response s c = Inr (True, c\<lparr>m_write_buf := b, m_write_idx := m_write_idx c + length s\<rparr>)"
    "length b = WRITE_BUFFER_SIZE" "take (m_write_idx c + length s) b = reply c @ s"
    using add_response_fits [OF assms] .
  then show ?thesis by (auto simp: wrote_def reply_def)
qed

lemma wrote_trans: "wrote c s c1 \<Longrightarrow> wrote c1 t c2 \<Longrightarrow> wrote c (s @ t) c2"
  by (fastforce simp: wrote_def add.assoc)

lemma wrote_fields:
  assumes "wrote c s c'"
  shows "length (m_write_buf c') = WRITE_BUFFER_SIZE" "m_write_idx c' = m_write_idx c + length s"
    "m_linger c' = m_linger c" "m_file_stat c' = m_file_stat c" "m_file_address c' = m_file_address c"
    "reply c' = reply c @ s" "m_iv c' = m_iv c" "m_sockfd c' = m_sockfd c"
    "bytes_have_send c' = bytes_have_send c"
  using assms by (auto simp: wrote_def)

definition head_text :: "bool \<Rightarrow> int \<Rightarrow> string" where
  "head_text linger n =
     (''Content-Length:'' @ to_string n @ CRLF)
     @ (''Connection:'' @ (if linger then ''keep-alive'' else ''close'') @ CRLF) @ CRLF"

definition status_text :: "int \<Rightarrow> string \<Rightarrow> string" where
  "status_text status title = ''HTTP/1.1'' @ '' '' @ to_string status @ '' '' @ title @ CRLF"

lemma add_headers_wrote:
  assumes "length (m_write_buf c) = WRITE_BUFFER_SIZE"
    and "m_write_idx c + length (head_text (m_linger c) n) < WRITE_BUFFER_SIZE - 1"
  shows "\<exists>c'. add_headers n c = Inr c' \<and> wrote c (head_text (m_linger c) n) c'"
proof -
  define s1 where "s1 = ''Content-Length:'' @ to_string n @ CRLF"
  define s2 where "s2 = ''Connection:'' @ (if m_linger c then ''keep-alive'' else ''close'') @ CRLF"
  have len: "m_write_idx c + length s1 + length s2 + length CRLF < WRITE_BUFFER_SIZE - 1"
    using assms(2) by (simp add: head_text_def s1_def s2_def)
  obtain c1 where c1: "add_response s1 c = Inr (True, c1)" "wrote c s1 c1"
    using add_response_wrote [OF assms(1), of s1] len by auto
  note f1 = wrote_fields [OF c1(2)]
  obtain c2 where c2: "add_response s2 c1 = Inr (True, c2)" "wrote c1 s2 c2"
    using add_response_wrote [OF f1(1), of s2] f1(2) len by auto
  note f2 = wrote_fields [OF c2(2)]
  obtain c3 where c3: "add_response CRLF c2 = Inr (True, c3)" "wrote c2 CRLF c3"
    using add_response_wrote [OF f2(1), of CRLF] f1(2) f2(2) len by auto
  have "add_headers n c = Inr c3"
    using c1(1) c2(1) c3(1) f1(3)
    by (simp add: add_headers_def add_content_length_def add_linger_def add_blank_line_def s1_def s2_def)
  moreover have "wrote c (s1 @ s2 @ CRLF) c3" using c1(2) c2(2) c3(2) by (blast intro: wrote_trans)
  ultimately show ?thesis by (auto simp: head_text_def s1_def s2_def)
qed

lemma length_to_string: "0 \<le> i \<Longrightarrow> i \<le> INT_MAX \<Longrightarrow> length (to_string i) \<le> 10"
  using length_nat_str [of "nat i" 10] by (simp add: to_string_def INT_MAX_def)

lemma length_head: "0 \<le> n \<Longrightarrow> n \<le> INT_MAX \<Longrightarrow> length (head_text l n) \<le> 54"
  using length_to_string [of n] by (simp add: head_text_def CRLF_def)

lemma status_wrote:
  assumes "length (m_write_buf c) = WRITE_BUFFER_SIZE" and "m_write_idx c = 0"
    and "0 \<le> status" "status \<le> INT_MAX" "length title \<le> 100"
  shows "\<exists>c'. add_status_line status title c = Inr (True, c') \<and> wrote c (status_text status title) c'"
    and "length (status_text status title) \<le> 122"
proof -
  show l: "length (status_text status title) \<le> 122"
    using length_to_string [of status] assms(3-5) by (simp add: status_text_def CRLF_def)
  then have "m_write_idx c + length (status_text status title) < WRITE_BUFFER_SIZE - 1"
    using assms(2) by (simp add: WRITE_BUFFER_SIZE_def)
  from add_response_wrote [OF assms(1) this]
  show "\<exists>c'. add_status_line status title c = Inr (True, c') \<and> wrote c (status_text status title) c'"
    by (simp add: add_status_line_def status_text_def)
qed

text \<open>A connection whose reply has not been started.\<close>

definition fresh_reply :: "http_conn \<Rightarrow> bool" where
  "fresh_reply c \<longleftrightarrow> length (m_write_buf c) = WRITE_BUFFER_SIZE \<and> m_write_idx c = 0
     \<and> bytes_have_send c = 0 \<and> length (m_iv c) = 2"

definition page_text :: "bool \<Rightarrow> int \<Rightarrow> string \<Rightarrow> string \<Rightarrow> string" where
  "page_text linger status title form =
     status_text status title @ head_text linger (int (length form)) @ form"

text \<open>The state \<open>process_write\<close> leaves: header \<open>h\<close> in the write buffer, file \<open>f\<close> mapped or empty.\<close>

definition prepared :: "http_conn \<Rightarrow> string \<Rightarrow> string \<Rightarrow> bool" where
  "prepared c h f \<longleftrightarrow> h \<noteq> [] \<and> length (m_write_buf c) = WRITE_BUFFER_SIZE \<and> m_write_idx c = length h
     \<and> length h \<le> WRITE_BUFFER_SIZE \<and> reply c = h
     \<and> bytes_have_send c = 0 \<and> bytes_to_send c = int (length (h @ f))
     \<and> (if f = [] then m_iv_count c = 1 \<and> (\<exists>x. m_iv c = [(Write_Buf 0, length h), x])
        else m_iv_count c = 2 \<and> m_file_address c = Some f
           \<and> m_iv c = [(Write_Buf 0, length h), (File_Map 0, length f)])"

lemma prepared_bytes: "prepared c h f \<Longrightarrow> iov_all c = Inr (h @ f)"
  by (auto simp: prepared_def iov_all_def iov_bytes_def reply_def split: if_splits)

lemma prepared_sends: "prepared c h f \<Longrightarrow> iov_all c = Inr (h @ f) \<and> bytes_to_send c = int (length (h @ f))"
  using prepared_bytes [of c h f] unfolding prepared_def by blast

lemma error_page_text:
  assumes c: "fresh_reply c" and s: "0 \<le> status" "status \<le> INT_MAX" "length title \<le> 100" "length form \<le> 100"
  shows "\<exists>c'. error_page status title form c = Inr (True, c') \<and> m_linger c' = m_linger c
    \<and> prepared c' (page_text (m_linger c) status title form) []"
proof -
  have f: "length (m_write_buf c) = WRITE_BUFFER_SIZE" "m_write_idx c = 0" "length (m_iv c) = 2"
    using c by (simp_all add: fresh_reply_def)
  note st = status_wrote [OF f(1,2) s(1-3)]
  obtain c1 where c1: "add_status_line status title c = Inr (True, c1)" "wrote c (status_text status title) c1"
    using st(1) by blast
  note f1 = wrote_fields [OF c1(2)]
  have hl: "length (head_text (m_linger c) (int (length form))) \<le> 54"
    using s(4) by (intro length_head) (simp_all add: INT_MAX_def)
  obtain c2 where c2: "add_headers (int (length form)) c1 = Inr c2"
    "wrote c1 (head_text (m_linger c) (int (length form))) c2"
    using add_headers_wrote [OF f1(1), of "int (length form)"] f1(2,3) st(2) hl f(2)
    by (auto simp: WRITE_BUFFER_SIZE_def)
  note f2 = wrote_fields [OF c2(2)]
  obtain c3 where c3: "add_response form c2 = Inr (True, c3)" "wrote c2 form c3"
    using add_response_wrote [OF f2(1), of form] f1(2) f2(2) st(2) hl f(2) s(4)
    by (auto simp: WRITE_BUFFER_SIZE_def)
  have w: "wrote c (page_text (m_linger c) status title form) c3"
    unfolding page_text_def using c1(2) c2(2) c3(2) by (blast intro: wrote_trans)
  note f3 = wrote_fields [OF w]
  have "length (page_text (m_linger c) status title form) \<le> WRITE_BUFFER_SIZE"
    using st(2) hl s(4) by (simp add: page_text_def WRITE_BUFFER_SIZE_def)
  moreover obtain x y where "m_iv c = [x, y]" using f(3) by (auto simp: length_Suc_conv numeral_2_eq_2)
  moreover have "page_text (m_linger c) status title form \<noteq> []" by (simp add: page_text_def status_text_def)
  ultimately have "prepared (send_buffer c3) (page_text (m_linger c) status title form) []"
    using f3 f(2) c by (simp add: prepared_def send_buffer_def reply_def fresh_reply_def)
  moreover have "error_page status title form c = Inr (True, send_buffer c3)"
    using c1(1) c2(1) c3(1) by (simp add: error_page_def add_page_def add_content_def)
  moreover have "m_linger (send_buffer c3) = m_linger c" using f3(3) by (simp add: send_buffer_def)
  ultimately show ?thesis by blast
qed

lemma long_to_int_small: "0 \<le> n \<Longrightarrow> n \<le> INT_MAX \<Longrightarrow> long_to_int n = n"
  by (simp add: long_to_int_def INT_MAX_def)

text \<open>The reply to a file request is announced from the size \<open>stat\<close> gave, whatever has been mapped.\<close>

lemma file_reply_announced:
  assumes c: "fresh_reply c" and n: "st_size (m_file_stat c) = n" "0 < n" "int n + 1024 \<le> INT_MAX"
  defines "h \<equiv> status_text 200 ok_200_title @ head_text (m_linger c) (int n)"
  shows "\<exists>c'. process_write FILE_REQUEST c = Inr (True, c') \<and> m_linger c' = m_linger c \<and> m_file_address c' = m_file_address c
    \<and> length (m_write_buf c') = WRITE_BUFFER_SIZE \<and> m_write_idx c' = length h \<and> length h \<le> WRITE_BUFFER_SIZE \<and> reply c' = h
    \<and> bytes_have_send c' = 0 \<and> bytes_to_send c' = int (length h) + int n
    \<and> m_iv_count c' = 2 \<and> m_iv c' = [(Write_Buf 0, length h), (File_Map 0, n)]"
proof -
  have fc: "length (m_write_buf c) = WRITE_BUFFER_SIZE" "m_write_idx c = 0" using c by (simp_all add: fresh_reply_def)
  note st = status_wrote [OF fc, of 200 ok_200_title, simplified INT_MAX_def ok_200_title_def, simplified, folded ok_200_title_def]
  obtain c1 where c1: "add_status_line 200 ok_200_title c = Inr (True, c1)" "wrote c (status_text 200 ok_200_title) c1"
    using st(1) by blast
  note f1 = wrote_fields [OF c1(2)]
  define head where "head = head_text (m_linger c) (int n)"
  have hl: "length head \<le> 54" unfolding head_def using n by (intro length_head) simp_all
  have li: "long_to_int (int n) = int n" using n by (intro long_to_int_small) simp_all
  obtain c2 where c2: "add_headers (int n) c1 = Inr c2" "wrote c1 head c2"
    using add_headers_wrote [OF f1(1), of "int n"] f1(2,3) st(2) hl fc(2)
    by (auto simp: head_def WRITE_BUFFER_SIZE_def)
  have w: "wrote c h c2" unfolding h_def head_def [symmetric] using c1(2) c2(2) by (rule wrote_trans)
  note f2 = wrote_fields [OF w]
  define c3 where "c3 = c2\<lparr>m_iv := [(Write_Buf 0, m_write_idx c2), (File_Map 0, n)], m_iv_count := 2,
    bytes_to_send := int (m_write_idx c2) + int n\<rparr>"
  have hw: "length h \<le> 1024" unfolding h_def head_def [symmetric] using st(2) hl by simp
  have "long_to_int (int (m_write_idx c2) + int n) = int (m_write_idx c2) + int n"
    using n f2(2) fc(2) hw by (intro long_to_int_small) simp_all
  then have "process_write FILE_REQUEST c = Inr (True, c3)"
    using c1(1) c2(1) f1(4) f2(4) n li by (simp add: process_write_def c3_def)
  then show ?thesis using f2 fc(2) c hw
    by (intro exI [of _ c3]) (simp add: c3_def reply_def fresh_reply_def WRITE_BUFFER_SIZE_def)
qed

lemma file_reply_text:
  assumes c: "fresh_reply c" and fl: "m_file_address c = Some f" "st_size (m_file_stat c) = length f" "f \<noteq> []"
    and small: "int (length f) + 1024 \<le> INT_MAX"
  shows "\<exists>c'. process_write FILE_REQUEST c = Inr (True, c') \<and> m_linger c' = m_linger c
    \<and> prepared c' (status_text 200 ok_200_title @ head_text (m_linger c) (int (length f))) f"
  using file_reply_announced [OF c fl(2) _ small] fl(1,3) by (auto simp: prepared_def status_text_def)

lemma failed_map_reply:
  assumes c: "fresh_reply c" and fl: "m_file_address c = Some []"
    and n: "st_size (m_file_stat c) = n" "0 < n" "int n + 1024 \<le> INT_MAX"
  shows "\<exists>c'. process_write FILE_REQUEST c = Inr (True, c') \<and> iov_all c' = Inl Out_Of_Bounds
    \<and> reply c' = status_text 200 ok_200_title @ head_text (m_linger c) (int n)"
  using file_reply_announced [OF c n] fl n(2) by (auto simp: iov_all_def iov_bytes_def)

lemma empty_file_refused:
  assumes c: "fresh_reply c" and "st_size (m_file_stat c) = 0"
  shows "\<exists>c'. process_write FILE_REQUEST c = Inr (False, c')"
proof -
  have fc: "length (m_write_buf c) = WRITE_BUFFER_SIZE" "m_write_idx c = 0" using c by (simp_all add: fresh_reply_def)
  note st = status_wrote [OF fc, of 200 ok_200_title, simplified INT_MAX_def ok_200_title_def, simplified, folded ok_200_title_def]
  obtain c1 where c1: "add_status_line 200 ok_200_title c = Inr (True, c1)" "wrote c (status_text 200 ok_200_title) c1"
    using st(1) by blast
  note f1 = wrote_fields [OF c1(2)]
  define head where "head = head_text (m_linger c) (int (length ok_string))"
  have hl: "length head \<le> 54" unfolding head_def by (intro length_head) (simp_all add: ok_string_def INT_MAX_def)
  obtain c2 where c2: "add_headers (int (length ok_string)) c1 = Inr c2" "wrote c1 head c2"
    using add_headers_wrote [OF f1(1), of "int (length ok_string)"] f1(2,3) st(2) hl fc(2)
    by (auto simp: head_def WRITE_BUFFER_SIZE_def)
  note f2 = wrote_fields [OF c2(2)]
  have "m_write_idx c2 + length ok_string < WRITE_BUFFER_SIZE - 1"
    using f1(2) f2(2) fc(2) st(2) hl by (simp add: WRITE_BUFFER_SIZE_def ok_string_def)
  from add_response_wrote [OF f2(1) this] obtain c3 where "add_response ok_string c2 = Inr (True, c3)" by blast
  then show ?thesis using c1(1) c2(1) f1(4) assms(2) by (simp add: process_write_def add_content_def)
qed

lemma page_sizes:
  "length error_500_title \<le> 100" "length error_500_form \<le> 100" "length error_404_title \<le> 100"
  "length error_404_form \<le> 100" "length error_403_title \<le> 100" "length error_403_form \<le> 100"
  by (simp_all add: error_500_title_def error_500_form_def error_404_title_def error_404_form_def
      error_403_title_def error_403_form_def)

text \<open>
  C23. Every reply is complete and announces its length: for the three error codes the reply is the status
  line, the headers with the length of the text, and the text; for a file that is not empty it is
  the status line, the headers with the size of the file and the file; the number of bytes to send is
  the length of all of it. No reply is produced for \<open>NO_RESOURCE\<close>, although a page for it exists, nor
  for an empty file, although a page for it is written into the buffer: \<open>process_write\<close> returns
  \<open>false\<close> and the connection is closed.
\<close>

theorem http_replies:
  assumes "fresh_reply c"
  shows "(\<forall>(code, status, title, form) \<in> {(INTERNAL_ERROR, 500, error_500_title, error_500_form),
        (BAD_REQUEST, 404, error_404_title, error_404_form), (FORBIDDEN_REQUEST, 403, error_403_title, error_403_form)}.
      \<exists>c'. process_write code c = Inr (True, c')
        \<and> iov_all c' = Inr (page_text (m_linger c) status title form)
        \<and> bytes_to_send c' = int (length (page_text (m_linger c) status title form)))
    \<and> (\<forall>f. m_file_address c = Some f \<and> st_size (m_file_stat c) = length f \<and> f \<noteq> [] \<and> int (length f) + 1024 \<le> INT_MAX
        \<longrightarrow> (\<exists>c'. process_write FILE_REQUEST c = Inr (True, c')
          \<and> iov_all c' = Inr (page_text (m_linger c) 200 ok_200_title f)
          \<and> bytes_to_send c' = int (length (page_text (m_linger c) 200 ok_200_title f))))
    \<and> process_write NO_RESOURCE c = Inr (False, c)
    \<and> (st_size (m_file_stat c) = 0 \<longrightarrow> (\<exists>c'. process_write FILE_REQUEST c = Inr (False, c')))"
proof (intro conjI)
  show "\<forall>(code, status, title, form) \<in> {(INTERNAL_ERROR, 500, error_500_title, error_500_form),
        (BAD_REQUEST, 404, error_404_title, error_404_form), (FORBIDDEN_REQUEST, 403, error_403_title, error_403_form)}.
      \<exists>c'. process_write code c = Inr (True, c')
        \<and> iov_all c' = Inr (page_text (m_linger c) status title form)
        \<and> bytes_to_send c' = int (length (page_text (m_linger c) status title form))"
    using error_page_text [OF assms, of 500 error_500_title error_500_form]
      error_page_text [OF assms, of 404 error_404_title error_404_form]
      error_page_text [OF assms, of 403 error_403_title error_403_form] page_sizes
    by (auto simp: process_write_def INT_MAX_def dest!: prepared_sends)
  show "\<forall>f. m_file_address c = Some f \<and> st_size (m_file_stat c) = length f \<and> f \<noteq> [] \<and> int (length f) + 1024 \<le> INT_MAX
        \<longrightarrow> (\<exists>c'. process_write FILE_REQUEST c = Inr (True, c')
          \<and> iov_all c' = Inr (page_text (m_linger c) 200 ok_200_title f)
          \<and> bytes_to_send c' = int (length (page_text (m_linger c) 200 ok_200_title f)))"
    using file_reply_text [OF assms] by (fastforce simp: page_text_def dest: prepared_sends)
  show "process_write NO_RESOURCE c = Inr (False, c)" by (simp add: process_write_def)
  show "st_size (m_file_stat c) = 0 \<longrightarrow> (\<exists>c'. process_write FILE_REQUEST c = Inr (False, c'))"
    using empty_file_refused [OF assms] by blast
qed

theorem http_replies_witness:
  "\<exists>c'. process_write BAD_REQUEST ((http_init fresh_conn)\<lparr>m_linger := True\<rparr>) = Inr (True, c')
     \<and> bytes_to_send c' = int (length (page_text True 404 error_404_title error_404_form))"
proof -
  have "fresh_reply ((http_init fresh_conn)\<lparr>m_linger := True\<rparr>)"
    by (simp add: fresh_reply_def http_init_def fresh_conn_def)
  from http_replies [OF this] show ?thesis by auto
qed

section \<open>Transmission\<close>

text \<open>
  The state of the transmission of \<open>h @ f\<close>, header and file, when the header and \<open>j\<close> bytes of the
  file are out.
\<close>

definition sending :: "http_conn \<Rightarrow> string \<Rightarrow> string \<Rightarrow> nat \<Rightarrow> bool" where
  "sending c h f j \<longleftrightarrow> j \<le> length f \<and> m_write_idx c = length h
     \<and> bytes_have_send c = int (length h) + int j \<and> bytes_to_send c = int (length f) - int j
     \<and> (j < length f \<longrightarrow> m_file_address c = Some f \<and> m_iv_count c = 2)
     \<and> (\<exists>x. m_iv c = [(x, 0), (File_Map (int j), length f - j)])"

lemma sending_bytes: "sending c h f j \<Longrightarrow> j < length f \<Longrightarrow> iov_all c = Inr (drop j f)"
  by (auto simp: sending_def iov_all_def iov_bytes_def)

lemma sending_step:
  assumes "sending c h f j" and "j + n \<le> length f"
  shows "sending (advance_iov n c) h f (j + n)"
proof -
  obtain x where a: "m_write_idx c = length h" "bytes_have_send c = int (length h) + int j"
    "bytes_to_send c = int (length f) - int j" "m_iv c = [(x, 0), (File_Map (int j), length f - j)]"
    using assms(1) by (auto simp: sending_def)
  have "nat (int (length f) - int j - int n) = length f - (j + n)" using assms(2) by simp
  then show ?thesis using assms a by (auto simp: sending_def advance_iov_def Let_def)
qed

lemma sending_all:
  "sending c h f j \<Longrightarrow> j < length f \<Longrightarrow> j + sum_list ns = length f \<Longrightarrow> 0 \<notin> set ns \<Longrightarrow>
   \<exists>c'. write_loop (map Written ns) sent c g =
     Inr (Some (m_linger c), sent @ drop j f, c', modfd (m_sockfd c) EPOLLIN g)"
proof (induction ns arbitrary: c j sent)
  case (Cons n ns)
  have n: "0 < n" "j + n \<le> length f" using Cons.prems by auto
  note st = sending_step [OF Cons.prems(1) n(2)]
  have same: "m_linger (advance_iov n c) = m_linger c" "m_sockfd (advance_iov n c) = m_sockfd c"
    by (simp_all add: advance_iov_def Let_def)
  have unm: "m_linger (unmap d) = m_linger d" for d by (simp add: unmap_def)
  have to_send: "bytes_to_send (advance_iov n c) = int (length f) - int (j + n)"
    using st by (simp add: sending_def)
  show ?case
  proof (cases "j + n = length f")
    case True
    then have "take n (drop j f) = drop j f" by simp
    then show ?thesis
      using sending_bytes [OF Cons.prems(1,2)] to_send True same unm by (simp add: Let_def)
  next
    case False
    then have lt: "j + n < length f" using n by simp
    have sum: "j + n + sum_list ns = length f" "0 \<notin> set ns" using Cons.prems by auto
    from Cons.IH [OF st lt sum, of "sent @ take n (drop j f)"]
    obtain c' where "write_loop (map Written ns) (sent @ take n (drop j f)) (advance_iov n c) g =
        Inr (Some (m_linger c), (sent @ take n (drop j f)) @ drop (j + n) f, c', modfd (m_sockfd c) EPOLLIN g)"
      using same by auto
    moreover have "take n (drop j f) @ drop (j + n) f = drop j f"
      using append_take_drop_id [of n "drop j f"] by (simp add: add.commute)
    moreover have "\<not> bytes_to_send (advance_iov n c) \<le> 0" using to_send lt by simp
    ultimately show ?thesis using sending_bytes [OF Cons.prems(1,2)] by (simp add: Let_def)
  qed
qed simp

lemma prepared_header_out:
  assumes "prepared c h f" and "j \<le> length f"
  shows "sending (advance_iov (length h + j) c) h f j"
  using assms by (auto simp: prepared_def sending_def advance_iov_def Let_def nat_diff_distrib split: if_splits)

text \<open>After a first call that stops inside the header.\<close>

definition stopped :: "http_conn \<Rightarrow> string \<Rightarrow> string \<Rightarrow> nat \<Rightarrow> bool" where
  "stopped c h f k \<longleftrightarrow> 0 < k \<and> k < length h \<and> m_write_idx c = length h \<and> reply c = h
     \<and> length (m_write_buf c) = WRITE_BUFFER_SIZE \<and> length h \<le> WRITE_BUFFER_SIZE
     \<and> bytes_have_send c = int k \<and> bytes_to_send c = int (length (h @ f)) - int k
     \<and> (if f = [] then m_iv_count c = 1 \<and> (\<exists>x. m_iv c = [(Write_Buf (int k), length h - k), x])
        else m_iv_count c = 2 \<and> m_file_address c = Some f
           \<and> m_iv c = [(Write_Buf (int k), length h - k), (File_Map 0, length f)])"

lemma prepared_stopped:
  assumes "prepared c h f" and "0 < n" and "n < length h"
  shows "stopped (advance_iov n c) h f n"
  using assms by (auto simp: prepared_def stopped_def advance_iov_def Let_def reply_def split: if_splits)

lemma stopped_bytes: "stopped c h f k \<Longrightarrow> iov_all c = Inr (drop k (h @ f))"
proof -
  assume s: "stopped c h f k"
  have "take (length h - k) (drop k (m_write_buf c)) = drop k h"
    using s by (auto simp: stopped_def reply_def take_drop)
  then show ?thesis using s by (auto simp: stopped_def iov_all_def iov_bytes_def split: if_splits)
qed

lemma stopped_header_out:
  assumes "stopped c h f k" and "j \<le> length f"
  shows "sending (advance_iov (length h - k + j) c) h f j"
proof -
  have "nat (int (length h) + int (length f) - int k - (int (length h - k) + int j)) = length f - j"
    using assms by (simp add: stopped_def of_nat_diff nat_diff_distrib)
  then show ?thesis using assms
    by (auto simp: stopped_def sending_def advance_iov_def Let_def of_nat_diff split: if_splits)
qed

lemma finish_or_go_on:
  assumes "sending (advance_iov n c) h f j" and "iov_all c = Inr (s @ f)" and "n = length s + j"
    and "j + sum_list ns = length f" and "0 \<notin> set ns" and "j \<le> length f"
  shows "\<exists>c'. write_loop (Written n # map Written ns) sent c g =
     Inr (Some (m_linger c), sent @ s @ f, c', modfd (m_sockfd c) EPOLLIN g)"
proof -
  have same: "m_linger (advance_iov n c) = m_linger c" "m_sockfd (advance_iov n c) = m_sockfd c"
    by (simp_all add: advance_iov_def Let_def)
  have unm: "m_linger (unmap d) = m_linger d" for d by (simp add: unmap_def)
  have to_send: "bytes_to_send (advance_iov n c) = int (length f) - int j" using assms(1) by (simp add: sending_def)
  have tk: "take n (s @ f) = s @ take j f" using assms(3) by simp
  show ?thesis
  proof (cases "j = length f")
    case True
    then show ?thesis using assms(2) tk to_send same unm by (simp add: Let_def)
  next
    case False
    then have lt: "j < length f" using assms(6) by simp
    from sending_all [OF assms(1) lt assms(4,5), of "sent @ s @ take j f"]
    obtain c' where "write_loop (map Written ns) (sent @ s @ take j f) (advance_iov n c) g =
        Inr (Some (m_linger c), (sent @ s @ take j f) @ drop j f, c', modfd (m_sockfd c) EPOLLIN g)"
      using same by auto
    then show ?thesis using assms(2) tk to_send lt by (simp add: Let_def)
  qed
qed

lemma prepared_delivers:
  assumes p: "prepared c h f" and ns: "0 \<notin> set ns" "sum_list ns = length (h @ f)"
    and stops: "ns = n1 # ms" "length h \<le> n1 \<or> (\<exists>n2 ms'. ms = n2 # ms' \<and> length h \<le> n1 + n2)"
  shows "\<exists>c'. http_write (map Written ns) c g = Inr (Some (m_linger c), h @ f, c', modfd (m_sockfd c) EPOLLIN g)"
proof -
  have "bytes_to_send c = int (length (h @ f))" "h \<noteq> []" using p unfolding prepared_def by blast+
  then have "bytes_to_send c \<noteq> 0" by (cases h) auto
  then have start: "http_write (map Written ns) c g = write_loop (map Written ns) [] c g"
    by (simp add: http_write_def)
  show ?thesis
  proof (cases "length h \<le> n1")
    case True
    then obtain j where j: "n1 = length h + j" using le_iff_add by blast
    have "j \<le> length f" "j + sum_list ms = length f" "0 \<notin> set ms" using ns stops(1) j by auto
    from finish_or_go_on [OF _ prepared_bytes [OF p] j this(2,3,1), where sent = "[]" and g = g] prepared_header_out [OF p this(1)] j
    show ?thesis using start stops(1) by simp
  next
    case False
    then obtain n2 ms' where ms: "ms = n2 # ms'" "length h \<le> n1 + n2" using stops(2) by blast
    have n1: "0 < n1" "n1 < length h" using False ns(1) stops(1) by auto
    define c1 where "c1 = advance_iov n1 c"
    note st = prepared_stopped [OF p n1, folded c1_def]
    define j where "j = n1 + n2 - length h"
    have n2: "n2 = length h - n1 + j" using ms(2) n1 by (simp add: j_def)
    have j: "j \<le> length f" "j + sum_list ms' = length f" "0 \<notin> set ms'"
      using ns stops(1) ms(1) n1 n2 by auto
    have bytes: "iov_all c1 = Inr (drop n1 h @ f)" using stopped_bytes [OF st] n1 by simp
    have len: "n2 = length (drop n1 h) + j" using n2 by simp
    have sn: "sending (advance_iov n2 c1) h f j" using stopped_header_out [OF st j(1)] n2 by simp
    from finish_or_go_on [OF sn bytes len j(2,3,1), where sent = "take n1 h" and g = g]
    obtain c' where c': "write_loop (Written n2 # map Written ms') (take n1 h) c1 g =
        Inr (Some (m_linger c), h @ f, c', modfd (m_sockfd c) EPOLLIN g)"
      by (auto simp: c1_def advance_iov_def Let_def)
    have pos: "\<not> bytes_to_send c1 \<le> 0" using st n1 by (simp add: stopped_def)
    have "take n1 (h @ f) = take n1 h" using n1 by simp
    then have "write_loop (Written n1 # Written n2 # map Written ms') [] c g =
        write_loop (Written n2 # map Written ms') (take n1 h) c1 g"
      using pos prepared_bytes [OF p]
      by (subst write_loop.simps(4)) (simp add: Let_def c1_def [symmetric] del: write_loop.simps take_append)
    then show ?thesis using start stops(1) ms(1) c' by simp
  qed
qed

text \<open>What a second stop inside the header leaves to send: the length of the first stop is subtracted again.\<close>

definition after_two_stops :: "string \<Rightarrow> string \<Rightarrow> nat \<Rightarrow> nat \<Rightarrow> string res" where
  "after_two_stops h f n1 n2 =
     (if 2 * n1 + n2 < length h then Inr (take (length h - (2 * n1 + n2)) (drop (n1 + n2) h) @ f)
      else if f = [] then Inr [] else Inl Out_Of_Bounds)"

lemma stopped_twice:
  assumes st: "stopped c h f k" and n: "0 < n" "k + n < length h"
  shows "iov_all (advance_iov n c) = after_two_stops h f k n"
proof -
  have wb: "length (m_write_buf c) = WRITE_BUFFER_SIZE" "length h \<le> WRITE_BUFFER_SIZE" "0 < k"
    "take (length h) (m_write_buf c) = h"
    using st unfolding stopped_def reply_def by auto
  show ?thesis
  proof (cases "length h - k \<le> k + n")
    case True
    then have "\<not> 2 * k + n < length h" using n by linarith
    then show ?thesis using st n True
      by (auto simp: stopped_def advance_iov_def Let_def iov_all_def iov_bytes_def after_two_stops_def split: if_splits)
  next
    case False
    define s where "s = take (length h - k - (k + n)) (drop (k + n) (m_write_buf c))"
    have "iov_all (advance_iov n c) = Inr (s @ f)"
      using st n False wb(1-3)
      by (auto simp: stopped_def advance_iov_def Let_def iov_all_def iov_bytes_def s_def nat_add_distrib split: if_splits)
    moreover have "s = take (length h - (2 * k + n)) (drop (k + n) h)"
      unfolding arg_cong [OF wb(4) [symmetric], of "drop (k + n)"] using False by (simp add: s_def drop_take min_def mult_2 add.assoc)
    moreover have "2 * k + n < length h" using False by linarith
    ultimately show ?thesis by (simp add: after_two_stops_def)
  qed
qed

text \<open>
  C24. Transmission. After \<open>process_write\<close> has prepared a reply of header \<open>h\<close> and file \<open>f\<close>, \<open>write\<close> sends
  exactly \<open>h @ f\<close> and then keeps or closes the connection as requested, however the socket cuts the
  bytes, provided at most one \<open>writev\<close> call stops inside the header. When the first two do, after \<open>n1\<close> and \<open>n2\<close>
  bytes, the second adjustment subtracts the bytes of the first one again: the next call is given the header
  from \<open>n1 + n2\<close> on without its last \<open>n1\<close> bytes, and then the file; and if nothing of the header is left by that count, it is
  given nothing when there is no file, and otherwise an address before the mapped file.
\<close>

theorem http_write_delivers:
  assumes "prepared c h f"
  shows "(\<forall>n1 ms. 0 \<notin> set (n1 # ms) \<and> sum_list (n1 # ms) = length (h @ f)
        \<and> (length h \<le> n1 \<or> (\<exists>n2 ms'. ms = n2 # ms' \<and> length h \<le> n1 + n2)) \<longrightarrow>
        (\<exists>c'. http_write (map Written (n1 # ms)) c g =
           Inr (Some (m_linger c), h @ f, c', modfd (m_sockfd c) EPOLLIN g)))
    \<and> (\<forall>n1 n2. 0 < n1 \<and> 0 < n2 \<and> n1 + n2 < length h \<longrightarrow>
         iov_all (advance_iov n2 (advance_iov n1 c)) =
           (if 2 * n1 + n2 < length h then Inr (take (length h - (2 * n1 + n2)) (drop (n1 + n2) h) @ f)
            else if f = [] then Inr [] else Inl Out_Of_Bounds))"
proof (intro conjI allI impI)
  fix n1 ms
  assume "0 \<notin> set (n1 # ms) \<and> sum_list (n1 # ms) = length (h @ f)
        \<and> (length h \<le> n1 \<or> (\<exists>n2 ms'. ms = n2 # ms' \<and> length h \<le> n1 + n2))"
  then show "\<exists>c'. http_write (map Written (n1 # ms)) c g =
           Inr (Some (m_linger c), h @ f, c', modfd (m_sockfd c) EPOLLIN g)"
    using prepared_delivers [OF assms, of "n1 # ms" n1 ms g] by blast
next
  fix n1 n2 :: nat
  assume n: "0 < n1 \<and> 0 < n2 \<and> n1 + n2 < length h"
  then have "n1 < length h" by simp
  from stopped_twice [OF prepared_stopped [OF assms _ this]] n
  show "iov_all (advance_iov n2 (advance_iov n1 c)) =
      (if 2 * n1 + n2 < length h then Inr (take (length h - (2 * n1 + n2)) (drop (n1 + n2) h) @ f)
       else if f = [] then Inr [] else Inl Out_Of_Bounds)" by (simp add: after_two_stops_def)
qed

definition no_clients :: http_static where
  "no_clients = \<lparr>m_user_count = 0, users = Map.empty, ep_ops = []\<rparr>"

theorem http_write_delivers_witness:
  "\<exists>c c'. process_write FORBIDDEN_REQUEST (http_init fresh_conn) = Inr (True, c)
     \<and> http_write (map Written [20, length (page_text False 403 error_403_title error_403_form) - 20]) c no_clients =
        Inr (Some False, page_text False 403 error_403_title error_403_form, c', modfd (m_sockfd c) EPOLLIN no_clients)"
proof -
  define page where "page = page_text False 403 error_403_title error_403_form"
  have fr: "fresh_reply (http_init fresh_conn)" "\<not> m_linger (http_init fresh_conn)"
    by (simp_all add: fresh_reply_def http_init_def fresh_conn_def)
  obtain c where c: "error_page 403 error_403_title error_403_form (http_init fresh_conn) = Inr (True, c)"
    "\<not> m_linger c" "prepared c page []"
    using error_page_text [OF fr(1), of 403 error_403_title error_403_form] fr(2) page_sizes
    by (auto simp: page_def INT_MAX_def)
  have "20 < length page" by (simp add: page_def page_text_def status_text_def head_text_def error_403_form_def)
  then have "0 \<notin> set (20 # [length page - 20]) \<and> sum_list (20 # [length page - 20]) = length (page @ [])
      \<and> (length page \<le> 20 \<or> (\<exists>n2 ms'. [length page - 20] = n2 # ms' \<and> length page \<le> 20 + n2))" by simp
  then obtain c' where "http_write (map Written (20 # [length page - 20])) c no_clients =
      Inr (Some (m_linger c), page @ [], c', modfd (m_sockfd c) EPOLLIN no_clients)"
    using http_write_delivers [OF c(3), of no_clients] by blast
  then show ?thesis using c(1,2) by (auto simp: process_write_def page_def)
qed

end
