(* ===== verification/Http_Files.thy ===== *)
theory Http_Files
  imports Http_Serve
begin

text \<open>
  Which file \<open>do_request\<close> of the web server answers with, and what the login and registration pages do
  to the table of users.
\<close>

section \<open>The path\<close>

text \<open>The outcome of \<open>stat\<close> and the permission checks for a path.\<close>

definition file_code :: "http_world \<Rightarrow> string \<Rightarrow> http_code" where
  "file_code w path =
     (case stat_of w path of
        None \<Rightarrow> NO_RESOURCE
      | Some st \<Rightarrow> if \<not> st_mode_iroth st then FORBIDDEN_REQUEST
          else if st_mode_dir st then BAD_REQUEST else FILE_REQUEST)"

lemma open_file_code:
  assumes "holds_str (m_real_file c) 0 path"
  shows "\<exists>c'. open_file w c = Inr (file_code w path, c') \<and> fresh_reply c' = fresh_reply c \<and> m_linger c' = m_linger c
    \<and> (file_code w path = FILE_REQUEST \<longrightarrow>
        m_file_address c' = Some (case file_data w path of Some f \<Rightarrow> f | None \<Rightarrow> []) \<and> stat_of w path = Some (m_file_stat c'))"
  using cstr_holds [OF assms] by (auto simp: open_file_def file_code_def fresh_reply_def Let_def split: option.split)

text \<open>The character behind the last slash, which selects the page.\<close>

definition selector :: "string \<Rightarrow> char" where
  "selector url =
     (case find_last_of url (CHR ''/'') of
        None \<Rightarrow> NUL
      | Some i \<Rightarrow> if Suc i < length url then url ! Suc i else NUL)"

definition target :: "string \<Rightarrow> string" where
  "target url = (case digit_page (selector url) of Some page \<Rightarrow> page | None \<Rightarrow> take 161 url)"

lemma find_first_of_mem: "c \<in> set s \<Longrightarrow> \<exists>i. find_first_of s c = Some i"
  by (induction s) auto

lemma slash_found: "url = CHR ''/'' # r \<Longrightarrow> \<exists>i. find_last_of url (CHR ''/'') = Some i"
  using find_first_of_mem [of "CHR ''/''" "rev url"] by (auto simp: find_last_of_def)

lemma selector_read:
  assumes "holds_str b u url" and "find_last_of url (CHR ''/'') = Some i"
  shows "vget b (u + i + 1) = Inr (selector url)"
proof -
  have i: "i < length url" using find_last_of_bound [OF assms(2)] .
  obtain x y where b: "b = x @ url @ NUL # y" "length x = u" using assms(1) by (auto simp: holds_str_decomp)
  show ?thesis
  proof (cases "Suc i < length url")
    case True
    then show ?thesis using b assms(2) by (simp add: selector_def nth_append)
  next
    case False
    then have "Suc i = length url" using i by simp
    then show ?thesis using b assms(2) by (simp add: selector_def nth_append)
  qed
qed

text \<open>\<open>m_real_file\<close> as \<open>init\<close> leaves it, and with the document root copied in.\<close>

lemma doc_root_copied:
  "strcpy (replicate FILENAME_LEN NUL) 0 doc_root = Inr (doc_root @ replicate 162 NUL)"
  by (simp add: strcpy_def vcopy_def doc_root_def FILENAME_LEN_def numeral_eq_Suc)

lemma doc_root_length: "length doc_root = 38" "NUL \<notin> set doc_root" "FILENAME_LEN - length doc_root - 1 = 161"
  by (simp_all add: doc_root_def NUL_def FILENAME_LEN_def)

lemma page_copied:
  assumes "NUL \<notin> set page" and "length page \<le> 161"
  shows "strncpy (doc_root @ replicate 162 NUL) (length doc_root) page (length page) =
    Inr ((doc_root @ page) @ NUL # replicate (161 - length page) NUL)"
proof -
  have "Suc (161 - length page) = 162 - length page" using assms(2) by simp
  then have r: "NUL # replicate (161 - length page) NUL = replicate (162 - length page) NUL"
    by (metis replicate_Suc)
  show ?thesis unfolding r using assms by (simp add: strncpy_def vcopy_def)
qed

lemma page_padded:
  assumes "length x = 161"
  shows "strncpy (doc_root @ x @ [NUL]) (length doc_root) s 161 =
    Inr (doc_root @ (take 161 s @ replicate (161 - length s) NUL) @ [NUL])"
  using assms by (simp add: strncpy_def vcopy_def)

lemma padded_held:
  assumes "NUL \<notin> set s"
  shows "holds_str (doc_root @ (take 161 s @ replicate (161 - length s) NUL) @ [NUL]) 0 (doc_root @ take 161 s)"
proof -
  have "replicate (161 - length s) NUL @ [NUL] = NUL # replicate (161 - length s) NUL"
    by (metis replicate_append_same)
  then have "doc_root @ (take 161 s @ replicate (161 - length s) NUL) @ [NUL] =
      [] @ (doc_root @ take 161 s) @ NUL # replicate (161 - length s) NUL" by simp
  moreover have "NUL \<notin> set (doc_root @ take 161 s)"
    using assms doc_root_length(2) in_set_takeD [of NUL 161 s] by auto
  ultimately show ?thesis using holds_strI [of "doc_root @ take 161 s" "[]" 0] by simp
qed

lemma path_held:
  "NUL \<notin> set page \<Longrightarrow> holds_str ((doc_root @ page) @ NUL # r) 0 (doc_root @ page)"
  using holds_strI [of "doc_root @ page" "[]" 0 r] doc_root_length by simp

lemma digit_page_plain:
  "digit_page x = Some page \<Longrightarrow> NUL \<notin> set page \<and> length page \<le> 161"
  by (auto simp: digit_page_def NUL_def split: if_splits)

lemma real_file_held:
  assumes "holds_str (m_read_buf c) u url" and "find_last_of url (CHR ''/'') = Some i"
    and "m_real_file c = doc_root @ replicate 161 NUL @ [NUL]"
  shows "\<exists>rf. real_file (u + i) u c = Inr rf \<and> holds_str rf 0 (doc_root @ target url)"
proof -
  note sel = selector_read [OF assms(1,2)]
  have nul: "NUL \<notin> set url" using assms(1) by (simp add: holds_str_def)
  have rep: "replicate 161 NUL @ [NUL] = replicate 162 NUL"
    using replicate_append_same [of 161 NUL] by (simp flip: replicate_Suc)
  show ?thesis
  proof (cases "digit_page (selector url)")
    case None
    then show ?thesis
      using sel cstr_holds [OF assms(1)] assms(3) padded_held [OF nul] page_padded [of "replicate 161 NUL" url]
      by (simp add: real_file_def target_def doc_root_length FILENAME_LEN_def)
  next
    case (Some page)
    then show ?thesis
      using sel assms(3) page_copied [of page] digit_page_plain [OF Some] path_held [of page] rep
      by (simp add: real_file_def target_def)
  qed
qed

text \<open>
  C21. The file behind a target. For a request that is not a login or registration, \<open>do_request\<close> looks at the
  character behind the last slash: the digits 0, 1, 5, 6 and 7 stand for the registration, login,
  picture, video and fans page, any other target is the path below the document root, cut after
  161 characters; nothing removes \<open>..\<close> from it. The code returned is that of the path,
  and the table of users is not touched. For a readable file that is not empty, and whose size with its header is an \<open>int\<close>, \<open>process_write\<close> then
  answers with the status line, the headers with the length of the file, and exactly its bytes. If
  \<open>open\<close> or \<open>mmap\<close> fails the same header is announced, with an address behind which there is no file.
\<close>

theorem http_file_served:
  assumes "m_url c = Some u" and "holds_str (m_read_buf c) u url" and "url = CHR ''/'' # r"
    and "m_real_file c = replicate FILENAME_LEN NUL" and "fresh_reply c"
    and "cgi c = 0 \<or> selector url \<notin> {CHR ''2'', CHR ''3''}"
  shows "\<exists>c'. do_request w c g = Inr (file_code w (doc_root @ target url), c', g)
    \<and> (\<forall>st f. stat_of w (doc_root @ target url) = Some st \<and> file_code w (doc_root @ target url) = FILE_REQUEST
          \<and> file_data w (doc_root @ target url) = Some f \<and> st_size st = length f \<and> f \<noteq> [] \<and> int (length f) + 1024 \<le> INT_MAX \<longrightarrow>
         (\<exists>c2. process_write FILE_REQUEST c' = Inr (True, c2)
            \<and> iov_all c2 = Inr (status_text 200 ok_200_title @ head_text (m_linger c) (int (length f)) @ f)
            \<and> bytes_to_send c2 = int (length (status_text 200 ok_200_title @ head_text (m_linger c) (int (length f)) @ f))))
    \<and> (\<forall>st. stat_of w (doc_root @ target url) = Some st \<and> file_code w (doc_root @ target url) = FILE_REQUEST
          \<and> file_data w (doc_root @ target url) = None \<and> 0 < st_size st \<and> int (st_size st) + 1024 \<le> INT_MAX \<longrightarrow>
         (\<exists>c2. process_write FILE_REQUEST c' = Inr (True, c2) \<and> iov_all c2 = Inl Out_Of_Bounds
            \<and> reply c2 = status_text 200 ok_200_title @ head_text (m_linger c) (int (st_size st))))"
proof -
  let ?path = "doc_root @ target url"
  obtain i where i: "find_last_of url (CHR ''/'') = Some i" using slash_found [OF assms(3)] by blast
  define c1 where "c1 = c\<lparr>m_real_file := doc_root @ replicate 162 NUL\<rparr>"
  have "doc_root @ replicate 162 NUL = doc_root @ replicate 161 NUL @ [NUL]"
    using replicate_append_same [of 161 NUL] by (simp flip: replicate_Suc)
  then obtain rf where rf: "real_file (u + i) u c1 = Inr rf" "holds_str rf 0 ?path"
    using real_file_held [of c1 u url i] assms(2) i by (auto simp: c1_def)
  have same: "fresh_reply (c1\<lparr>m_real_file := rf\<rparr>) = fresh_reply c" "m_linger (c1\<lparr>m_real_file := rf\<rparr>) = m_linger c"
    by (simp_all add: c1_def fresh_reply_def)
  obtain c' where c': "open_file w (c1\<lparr>m_real_file := rf\<rparr>) = Inr (file_code w ?path, c')"
    "fresh_reply c' = fresh_reply c" "m_linger c' = m_linger c"
    "file_code w ?path = FILE_REQUEST \<longrightarrow>
      m_file_address c' = Some (case file_data w ?path of Some f \<Rightarrow> f | None \<Rightarrow> []) \<and> stat_of w ?path = Some (m_file_stat c')"
    using open_file_code [of "c1\<lparr>m_real_file := rf\<rparr>" ?path w] rf(2) unfolding same by auto
  have fr: "fresh_reply c'" "m_linger c' = m_linger c" using c'(2,3) assms(5) by simp_all
  have "strrchr (m_read_buf c) u (CHR ''/'') = Inr (Some (u + i))"
    using cstr_holds [OF assms(2)] i by (simp add: strrchr_def)
  then have r: "do_request w c g = Inr (file_code w ?path, c', g)"
    using assms(1,4,6) doc_root_copied selector_read [OF assms(2) i] rf(1) c'(1)
    by (auto simp: do_request_def Let_def c1_def)
  have ok: "\<exists>c2. process_write FILE_REQUEST c' = Inr (True, c2)
      \<and> iov_all c2 = Inr (status_text 200 ok_200_title @ head_text (m_linger c) (int (length f)) @ f)
      \<and> bytes_to_send c2 = int (length (status_text 200 ok_200_title @ head_text (m_linger c) (int (length f)) @ f))"
    if "stat_of w ?path = Some st" "file_code w ?path = FILE_REQUEST" "file_data w ?path = Some f" "st_size st = length f" "f \<noteq> []"
      "int (length f) + 1024 \<le> INT_MAX" for st f
    using file_reply_text [OF fr(1), of f] c'(4) that fr(2) by (auto dest!: prepared_sends)
  have bad: "\<exists>c2. process_write FILE_REQUEST c' = Inr (True, c2) \<and> iov_all c2 = Inl Out_Of_Bounds
      \<and> reply c2 = status_text 200 ok_200_title @ head_text (m_linger c) (int (st_size st))"
    if "stat_of w ?path = Some st" "file_code w ?path = FILE_REQUEST" "file_data w ?path = None" "0 < st_size st"
      "int (st_size st) + 1024 \<le> INT_MAX" for st
    using failed_map_reply [OF fr(1)] c'(4) that fr(2) by auto
  show ?thesis using r ok bad by (intro exI [of _ c']) blast
qed

definition one_page :: "string option \<Rightarrow> http_world" where
  "one_page data = \<lparr>stat_of = (\<lambda>p. if p = doc_root @ ''/video.html'' then Some \<lparr>st_mode_dir = False, st_mode_iroth = True, st_size = 3\<rparr> else None),
     file_data = (\<lambda>p. data), sql_query = (\<lambda>_ _. 0)\<rparr>"

theorem http_file_served_witness:
  "\<exists>c' c2. do_request (one_page (Some ''abc'')) ((http_init fresh_conn)\<lparr>m_url := Some 0, m_read_buf := ''/6'' @ replicate 2046 NUL\<rparr>) no_clients =
       Inr (FILE_REQUEST, c', no_clients)
     \<and> process_write FILE_REQUEST c' = Inr (True, c2)
     \<and> iov_all c2 = Inr (status_text 200 ok_200_title @ head_text False 3 @ ''abc'')"
proof -
  define c where "c = (http_init fresh_conn)\<lparr>m_url := Some 0, m_read_buf := ''/6'' @ replicate 2046 NUL\<rparr>"
  have rep: "replicate 2046 NUL = NUL # replicate 2045 NUL" by (simp flip: replicate_Suc)
  have h: "holds_str (m_read_buf c) 0 ''/6''"
    using holds_strI [of "''/6''" "[]" 0 "replicate 2045 NUL"] rep by (simp add: c_def NUL_def)
  have f: "m_url c = Some 0" "m_real_file c = replicate FILENAME_LEN NUL" "cgi c = 0" "fresh_reply c" "\<not> m_linger c"
    by (simp_all add: c_def http_init_def fresh_reply_def fresh_conn_def)
  have t: "target ''/6'' = ''/video.html''" by code_simp
  have "file_code (one_page (Some ''abc'')) (doc_root @ target ''/6'') = FILE_REQUEST" by (simp add: t one_page_def file_code_def)
  then show ?thesis
    unfolding c_def [symmetric]
    using http_file_served [OF f(1) h refl f(2,4), of "one_page (Some ''abc'')" no_clients] f(3,5)
    by (fastforce simp: t one_page_def INT_MAX_def)
qed

section \<open>Accounts\<close>

lemma copy_until_str:
  "i + length s < length b \<Longrightarrow> take (length s) (drop i b) = s \<Longrightarrow> b ! (i + length s) = stop \<Longrightarrow>
   stop \<notin> set s \<Longrightarrow> length acc + length s < 100 \<Longrightarrow>
   copy_until stop b i acc = Inr (acc @ s, i + length s)"
proof (induction s arbitrary: i acc)
  case Nil
  then show ?case by (subst copy_until.simps) simp
next
  case (Cons x s)
  have d: "drop i b = b ! i # drop (Suc i) b" using Cons.prems(1) by (simp add: Cons_nth_drop_Suc)
  then have x: "b ! i = x" "take (length s) (drop (Suc i) b) = s" using Cons.prems(2) by simp_all
  have "copy_until stop b i acc = copy_until stop b (Suc i) (acc @ [x])"
    using Cons.prems x by (subst copy_until.simps) auto
  also have "\<dots> = Inr ((acc @ [x]) @ s, Suc i + length s)"
    using Cons.prems x by (intro Cons.IH) auto
  finally show ?case by simp
qed

lemma copy_until_at:
  "stop \<notin> set s \<Longrightarrow> length s < 100 \<Longrightarrow>
   copy_until stop (x @ s @ stop # y) (length x) [] = Inr (s, length x + length s)"
  using copy_until_str [of "length x" s "x @ s @ stop # y" stop "[]"] by (simp add: nth_append)

text \<open>The body the forms send.\<close>

definition form_body :: "string \<Rightarrow> string \<Rightarrow> string" where
  "form_body name password = ''user='' @ name @ ''&password='' @ password"

definition plain_word :: "string \<Rightarrow> bool" where
  "plain_word s \<longleftrightarrow> set s \<inter> {CHR ''&'', NUL} = {} \<and> length s < 100"

lemma as_cstr_plain: "plain_word s \<Longrightarrow> as_cstr s = s"
  unfolding as_cstr_def plain_word_def by (rule takeWhile_eq_all_conv [THEN iffD2]) auto

lemma credentials_read:
  assumes s: "m_string c = Some s" "holds_str (m_read_buf c) s (form_body name password)"
    and w: "plain_word name" "plain_word password"
  shows "read_credentials c = Inr (name, password)"
proof -
  obtain x y where b: "m_read_buf c = x @ form_body name password @ NUL # y" "length x = s"
    using s(2) by (auto simp: holds_str_decomp)
  have b1: "m_read_buf c = (x @ ''user='') @ name @ CHR ''&'' # (''password='' @ password @ NUL # y)"
    "length (x @ ''user='') = s + 5"
    using b by (simp_all add: form_body_def)
  have b2: "m_read_buf c = (x @ ''user='' @ name @ ''&password='') @ password @ NUL # y"
    "length (x @ ''user='' @ name @ ''&password='') = s + 5 + length name + 10"
    using b by (simp_all add: form_body_def)
  have n: "copy_until (CHR ''&'') (m_read_buf c) (s + 5) [] = Inr (name, s + 5 + length name)"
    using copy_until_at [of "CHR ''&''" name "x @ ''user=''"] w(1) unfolding b1(1) b1(2) [symmetric]
    by (simp add: plain_word_def)
  have p: "copy_until NUL (m_read_buf c) (s + 5 + length name + 10) [] =
      Inr (password, s + 5 + length name + 10 + length password)"
    using copy_until_at [of NUL password "x @ ''user='' @ name @ ''&password=''"] w(2)
    unfolding b2(1) b2(2) [symmetric] by (simp add: plain_word_def)
  show ?thesis using s(1) n p as_cstr_plain w by (simp add: read_credentials_def)
qed

text \<open>The page that answers a login or a registration, and the table of users afterwards.\<close>

definition account_page :: "http_world \<Rightarrow> nat option \<Rightarrow> char \<Rightarrow> (string, string) map \<Rightarrow> string \<Rightarrow> string \<Rightarrow> string" where
  "account_page w con sel m name password =
     (if sel = CHR ''3'' then
        if m name = None \<and> sql_query w con (insert_stmt name password) = 0 then ''/log.html''
        else ''/registerError.html''
      else if m name = Some password then ''/welcome.html'' else ''/logError.html'')"

definition account_users :: "char \<Rightarrow> (string, string) map \<Rightarrow> string \<Rightarrow> string \<Rightarrow> (string, string) map" where
  "account_users sel m name password =
     (if sel = CHR ''3'' \<and> m name = None then m(name \<mapsto> password) else m)"

lemma account_page_plain:
  "account_page w con sel m name password \<in> {''/log.html'', ''/registerError.html'', ''/welcome.html'', ''/logError.html''}"
  by (simp add: account_page_def)

lemma page_no_digit:
  assumes "page \<in> {''/log.html'', ''/registerError.html'', ''/welcome.html'', ''/logError.html''}"
  shows "\<forall>x \<in> set page. digit_page x = None" and "NUL \<notin> set page" and "length page \<le> 19"
  using assms by (auto simp: digit_page_def NUL_def)

text \<open>After the target has been overwritten by a page, no digit selects another one.\<close>

lemma strcpy_page:
  assumes h: "holds_str b u url" and i: "find_last_of url (CHR ''/'') = Some i"
    and sel: "selector url = CHR ''2'' \<or> selector url = CHR ''3''"
    and page: "page \<in> {''/log.html'', ''/registerError.html'', ''/welcome.html'', ''/logError.html''}"
    and room: "u + 20 \<le> length b"
  obtains b' x where "strcpy b u page = Inr b'" "holds_str b' u page" "vget b' (u + i + 1) = Inr x" "digit_page x = None"
proof -
  note pg = page_no_digit [OF page]
  define b' where "b' = take u b @ (page @ [NUL]) @ drop (u + length (page @ [NUL])) b"
  have cp: "strcpy b u page = Inr b'" using room pg(3) by (simp add: strcpy_def vcopy_def b'_def)
  have lu: "length (take u b) = u" using room by simp
  have hd: "holds_str b' u page"
    using holds_strI [OF pg(2) lu, of "drop (u + length (page @ [NUL])) b"] by (simp add: b'_def)
  have sr: "vget b (u + i + 1) = Inr (selector url)" using selector_read [OF h i] .
  have len: "length b' = length b" using room pg(3) by (simp add: b'_def)
  have lt: "u + i + 1 < length b" and bx: "b ! (u + i + 1) = selector url" using sr by (auto simp: res_simps)
  have "digit_page (b' ! (u + i + 1)) = None"
  proof (cases "i + 1 < length page")
    case True
    then have "b' ! (u + i + 1) = page ! (i + 1)" using holds_str_nth [OF hd True] by (simp add: add.assoc)
    then show ?thesis using pg(1) True by simp
  next
    case False
    show ?thesis
    proof (cases "i + 1 = length page")
      case True
      then have "u + i + 1 = u + length page" by simp
      then have "b' ! (u + i + 1) = NUL" using holds_str_end [OF hd] by (simp only:)
      then show ?thesis by (simp add: digit_page_def NUL_def)
    next
      case False
      then have ge: "length page + 1 \<le> i + 1" using \<open>\<not> i + 1 < length page\<close> by simp
      then obtain d where d: "i + 1 = length page + 1 + d" using le_iff_add by blast
      have "b' ! (u + i + 1) = b ! (u + i + 1)"
        using d lu lt pg(3) room by (simp add: b'_def nth_append add.assoc)
      then show ?thesis using bx sel by (auto simp: digit_page_def)
    qed
  qed
  then show ?thesis using that [of b' "b' ! (u + i + 1)"] cp hd lt len by simp
qed

lemma do_cgi_page:
  assumes url: "holds_str (m_read_buf c) u url" "find_last_of url (CHR ''/'') = Some i" "length url \<le> 198" "2 \<le> length url"
    and sel: "selector url = CHR ''2'' \<or> selector url = CHR ''3''"
    and body: "m_string c = Some s" "holds_str (m_read_buf c) s (form_body name password)"
    and words: "plain_word name" "plain_word password" "length name + length password \<le> 149"
    and rf: "m_real_file c = doc_root @ replicate 161 NUL @ [NUL]" and room: "u + 20 \<le> length (m_read_buf c)"
  obtains b x y where "do_cgi w (selector url) u c g = Inr (c\<lparr>m_real_file := doc_root @ y @ [NUL], m_read_buf := b\<rparr>,
      g\<lparr>users := account_users (selector url) (users g) name password\<rparr>)"
    "holds_str b u (account_page w (mysql c) (selector url) (users g) name password)"
    "vget b (u + i + 1) = Inr x" "digit_page x = None" "length y = 161"
proof -
  define page where "page = account_page w (mysql c) (selector url) (users g) name password"
  have pp: "page \<in> {''/log.html'', ''/registerError.html'', ''/welcome.html'', ''/logError.html''}"
    unfolding page_def by (rule account_page_plain)
  obtain b x where b: "strcpy (m_read_buf c) u page = Inr b" "holds_str b u page" "vget b (u + i + 1) = Inr x" "digit_page x = None"
    using strcpy_page [OF url(1,2) sel pp room] .
  define rest where "rest = drop 2 url"
  have rest: "cstr (m_read_buf c) (u + 2) = Inr rest"
    using holds_str_drop [OF url(1,4)] by (simp add: rest_def cstr_holds)
  define y where "y = take 161 (CHR ''/'' # rest) @ replicate (161 - length (CHR ''/'' # rest)) NUL"
  have ly: "length y = 161" by (simp add: y_def)
  have cp: "strncpy (m_real_file c) (length doc_root) (CHR ''/'' # rest) (FILENAME_LEN - length doc_root - 1) =
      Inr (doc_root @ y @ [NUL])"
    unfolding rf doc_root_length(3) y_def by (rule page_padded) simp
  have flag: "vget (m_read_buf c) (u + 1) = Inr (url ! 1)"
  proof -
    have "u + 1 < length (m_read_buf c)" "m_read_buf c ! (u + 1) = url ! 1"
      using url(1,4) holds_str_nth [OF url(1), of 1] by (simp_all add: holds_str_def)
    then show ?thesis by simp
  qed
  have cred: "read_credentials (c\<lparr>m_real_file := r\<rparr>) = Inr (name, password)" for r
    by (rule credentials_read) (use body words in simp_all)
  have stmt: "length (insert_stmt name password) + 1 \<le> 200"
    using words(3) by (simp add: insert_stmt_def)
  have "length rest + 2 \<le> 200" using url(3) by (simp add: rest_def)
  then have "do_cgi w (selector url) u c g = Inr (c\<lparr>m_real_file := doc_root @ y @ [NUL], m_read_buf := b\<rparr>,
      g\<lparr>users := account_users (selector url) (users g) name password\<rparr>)"
    using sel flag rest cp cred stmt b(1)
    by (elim disjE) (auto simp: do_cgi_def Let_def page_def account_page_def account_users_def split: if_splits)
  then show ?thesis using that [of b y x] b ly by (simp add: page_def)
qed

text \<open>
  C22. Accounts. A \<open>POST\<close> to a target whose last component starts with 3 registers the name and password of its
  body when the name is new, and answers with the login page, or with the error page when the database
  refuses; with a known name it changes nothing and answers with the error page. A target starting
  with 2 answers with the welcome page exactly when the name is registered with that password. So a
  login with the registered password succeeds after a registration, also after one that was
  reported as failed: the name is entered in \<open>users\<close> whatever the database says.
\<close>

theorem http_accounts:
  assumes "m_url c = Some u" and "holds_str (m_read_buf c) u url" and "url = CHR ''/'' # r"
    and "2 \<le> length url" and "length url \<le> 198"
    and "cgi c = 1" and "selector url = CHR ''2'' \<or> selector url = CHR ''3''"
    and "m_string c = Some s" and "holds_str (m_read_buf c) s (form_body name password)"
    and "plain_word name" and "plain_word password" and "length name + length password \<le> 149"
    and "m_real_file c = replicate FILENAME_LEN NUL" and "u + 20 \<le> length (m_read_buf c)"
  shows "\<exists>c'. do_request w c g =
      Inr (file_code w (doc_root @ account_page w (mysql c) (selector url) (users g) name password), c',
           g\<lparr>users := account_users (selector url) (users g) name password\<rparr>)"
proof -
  define page where "page = account_page w (mysql c) (selector url) (users g) name password"
  define g2 where "g2 = g\<lparr>users := account_users (selector url) (users g) name password\<rparr>"
  obtain i where i: "find_last_of url (CHR ''/'') = Some i" using slash_found [OF assms(3)] by blast
  define c1 where "c1 = c\<lparr>m_real_file := doc_root @ replicate 162 NUL\<rparr>"
  have rep: "doc_root @ replicate 162 NUL = doc_root @ replicate 161 NUL @ [NUL]"
    using replicate_append_same [of 161 NUL] by (simp flip: replicate_Suc)
  have c1: "m_read_buf c1 = m_read_buf c" "m_string c1 = m_string c" "mysql c1 = mysql c"
    "m_real_file c1 = doc_root @ replicate 161 NUL @ [NUL]" using rep by (simp_all add: c1_def)
  have p: "holds_str (m_read_buf c1) u url" "m_string c1 = Some s"
    "holds_str (m_read_buf c1) s (form_body name password)" "u + 20 \<le> length (m_read_buf c1)"
    using assms(2,8,9,14) by (simp_all add: c1)
  obtain b x y where cgi: "do_cgi w (selector url) u c1 g = Inr (c1\<lparr>m_real_file := doc_root @ y @ [NUL], m_read_buf := b\<rparr>, g2)"
    "holds_str b u page" "vget b (u + i + 1) = Inr x" "digit_page x = None" "length y = 161"
    using do_cgi_page [OF p(1) i assms(5,4,7) p(2,3) assms(10-12) c1(4) p(4), where w = w and g = g,
        unfolded c1(3), folded page_def g2_def] .
  define c2 where "c2 = c1\<lparr>m_real_file := doc_root @ y @ [NUL], m_read_buf := b\<rparr>"
  note pg = page_no_digit [OF account_page_plain, of w "mysql c" "selector url" "users g" name password, folded page_def]
  define rf where "rf = doc_root @ (take 161 page @ replicate (161 - length page) NUL) @ [NUL]"
  have "real_file (u + i) u c2 = Inr rf"
    unfolding rf_def using cgi cstr_holds [OF cgi(2)] page_padded [OF cgi(5), of page]
    by (simp add: real_file_def c2_def doc_root_length FILENAME_LEN_def)
  moreover have "holds_str rf 0 (doc_root @ page)"
    unfolding rf_def using padded_held [OF pg(2)] pg(3) by simp
  then obtain c' where "open_file w (c2\<lparr>m_real_file := rf\<rparr>) = Inr (file_code w (doc_root @ page), c')"
    using open_file_code [of "c2\<lparr>m_real_file := rf\<rparr>"] by fastforce
  moreover have "strrchr (m_read_buf c) u (CHR ''/'') = Inr (Some (u + i))"
    using cstr_holds [OF assms(2)] i by (simp add: strrchr_def)
  ultimately have "do_request w c g = Inr (file_code w (doc_root @ page), c', g2)"
    using assms(1,6,7,13) doc_root_copied selector_read [OF assms(2) i] cgi(1)
    by (simp add: do_request_def Let_def c1_def c2_def)
  then show ?thesis by (auto simp: page_def g2_def)
qed

text \<open>A registration the database refuses, and the login after it.\<close>

definition account_conn :: "char \<Rightarrow> http_conn" where
  "account_conn d = (http_init fresh_conn)\<lparr>cgi := 1, m_url := Some 0, m_string := Some 3,
     m_read_buf := [CHR ''/'', d, NUL] @ form_body ''bob'' ''pw'' @ replicate 2000 NUL\<rparr>"

definition refusing_world :: http_world where
  "refusing_world = \<lparr>stat_of = (\<lambda>p. None), file_data = (\<lambda>p. None), sql_query = (\<lambda>_ _. 1)\<rparr>"

theorem http_accounts_witness:
  "\<exists>c1 c2.
     do_request refusing_world (account_conn (CHR ''3'')) no_clients =
       Inr (file_code refusing_world (doc_root @ ''/registerError.html''), c1,
            no_clients\<lparr>users := [''bob'' \<mapsto> ''pw'']\<rparr>)
   \<and> do_request refusing_world (account_conn (CHR ''2'')) (no_clients\<lparr>users := [''bob'' \<mapsto> ''pw'']\<rparr>) =
       Inr (file_code refusing_world (doc_root @ ''/welcome.html''), c2,
            no_clients\<lparr>users := [''bob'' \<mapsto> ''pw'']\<rparr>)"
proof -
  have rep: "replicate 2000 NUL = NUL # replicate 1999 NUL" by (simp flip: replicate_Suc)
  have w: "plain_word ''bob''" "plain_word ''pw''" by (simp_all add: plain_word_def NUL_def)
  have body: "holds_str (m_read_buf (account_conn d)) 3 (form_body ''bob'' ''pw'')" for d
    using holds_strI [of "form_body ''bob'' ''pw''" "[CHR ''/'', d, NUL]" 3 "replicate 1999 NUL"] rep
    by (simp add: account_conn_def form_body_def NUL_def)
  have url: "holds_str (m_read_buf (account_conn d)) 0 [CHR ''/'', d]" if "d \<noteq> NUL" for d
    using holds_strI [of "[CHR ''/'', d]" "[]" 0 "form_body ''bob'' ''pw'' @ replicate 2000 NUL"] that
    by (simp add: account_conn_def) (simp add: NUL_def)
  have f: "m_url (account_conn d) = Some 0" "cgi (account_conn d) = 1" "m_string (account_conn d) = Some 3"
    "m_real_file (account_conn d) = replicate FILENAME_LEN NUL" "0 + 20 \<le> length (m_read_buf (account_conn d))" for d
    by (simp_all add: account_conn_def http_init_def)
  have sel: "selector ''/2'' = CHR ''2''" "selector ''/3'' = CHR ''3''" by code_simp+
  have u: "holds_str (m_read_buf (account_conn (CHR ''2''))) 0 ''/2''" "holds_str (m_read_buf (account_conn (CHR ''3''))) 0 ''/3''"
    using url [of "CHR ''2''"] url [of "CHR ''3''"] by (simp_all add: NUL_def)
  note reg = http_accounts [OF f(1) u(2) refl _ _ f(2) _ f(3) body w _ f(4,5), of refusing_world no_clients]
  note log = http_accounts [OF f(1) u(1) refl _ _ f(2) _ f(3) body w _ f(4,5), of refusing_world "no_clients\<lparr>users := [''bob'' \<mapsto> ''pw'']\<rparr>"]
  have pages: "account_page refusing_world m (CHR ''3'') (users no_clients) ''bob'' ''pw'' = ''/registerError.html''"
    "account_page refusing_world m (CHR ''2'') [''bob'' \<mapsto> ''pw''] ''bob'' ''pw'' = ''/welcome.html''"
    "account_users (CHR ''3'') (users no_clients) ''bob'' ''pw'' = [''bob'' \<mapsto> ''pw'']"
    "account_users (CHR ''2'') [''bob'' \<mapsto> ''pw''] ''bob'' ''pw'' = [''bob'' \<mapsto> ''pw'']" for m
    by (simp_all add: account_page_def account_users_def refusing_world_def no_clients_def)
  show ?thesis using reg log pages sel by (simp add: refusing_world_def file_code_def)
qed

end
