(* ===== verification/Timer_List.thy ===== *)
theory Timer_List
  imports Linked_Nodes
begin

text \<open>
  The timer list of TinyWebServer (\<open>class util_timer\<close>, \<open>class sort_timer_lst\<close>, timer/lst_timer.h): a doubly
  linked list of heap nodes in the order of their deadlines, without sentinels. The heap is a map
  from addresses to nodes; a deleted node is no longer in it, and reading one is the error
  \<open>Use_After_Free\<close>. The loops have fuel; the lemmas show that they return.
\<close>

section \<open>State\<close>

record util_timer =
  ut_expire :: int
  ut_user_data :: nat
  ut_prev :: "addr option"
  ut_next :: "addr option"

record sort_timer_lst =
  tl_head :: "addr option"
  tl_tail :: "addr option"
  tl_heap :: "addr \<rightharpoonup> util_timer"
  tl_fresh :: addr

definition sort_timer_lst_init :: sort_timer_lst where
  "sort_timer_lst_init = \<lparr>tl_head = None, tl_tail = None, tl_heap = Map.empty, tl_fresh = 0\<rparr>"

text \<open>\<open>new util_timer\<close>, with the fields the server assigns before it adds the timer.\<close>

definition new_timer :: "int \<Rightarrow> nat \<Rightarrow> sort_timer_lst \<Rightarrow> addr \<times> sort_timer_lst" where
  "new_timer e d s =
     (tl_fresh s, s\<lparr>tl_heap := (tl_heap s)(tl_fresh s \<mapsto>
        \<lparr>ut_expire = e, ut_user_data = d, ut_prev = None, ut_next = None\<rparr>), tl_fresh := Suc (tl_fresh s)\<rparr>)"

definition tderef :: "sort_timer_lst \<Rightarrow> addr option \<Rightarrow> util_timer res" where
  "tderef s p =
     (case p of None \<Rightarrow> Inl Null_Deref
      | Some a \<Rightarrow> (case tl_heap s a of None \<Rightarrow> Inl Use_After_Free | Some n \<Rightarrow> Inr n))"

definition tput :: "addr option \<Rightarrow> (util_timer \<Rightarrow> util_timer) \<Rightarrow> sort_timer_lst \<Rightarrow> sort_timer_lst res" where
  "tput p f s = bind_res (tderef s p) (\<lambda>n. Inr (s\<lparr>tl_heap := (tl_heap s)(the p \<mapsto> f n)\<rparr>))"

definition tdelete :: "addr \<Rightarrow> sort_timer_lst \<Rightarrow> sort_timer_lst res" where
  "tdelete a s = bind_res (tderef s (Some a)) (\<lambda>_. Inr (s\<lparr>tl_heap := (tl_heap s)(a := None)\<rparr>))"

abbreviation put_prev :: "addr option \<Rightarrow> addr option \<Rightarrow> sort_timer_lst \<Rightarrow> sort_timer_lst res" where
  "put_prev p x \<equiv> tput p (\<lambda>n. n\<lparr>ut_prev := x\<rparr>)"

abbreviation put_next :: "addr option \<Rightarrow> addr option \<Rightarrow> sort_timer_lst \<Rightarrow> sort_timer_lst res" where
  "put_next p x \<equiv> tput p (\<lambda>n. n\<lparr>ut_next := x\<rparr>)"

section \<open>Operations\<close>

text \<open>The private \<open>add_timer(timer, lst_head)\<close> and its loop.\<close>

fun add_timer_loop :: "nat \<Rightarrow> addr \<Rightarrow> addr \<Rightarrow> addr option \<Rightarrow> sort_timer_lst \<Rightarrow> sort_timer_lst res" where
  "add_timer_loop 0 timer prev tmp s = Inl No_Return"
| "add_timer_loop (Suc fuel) timer prev tmp s =
     (case tmp of
        None \<Rightarrow>
          bind_res (put_next (Some prev) (Some timer) s) (\<lambda>s1.
          bind_res (put_prev (Some timer) (Some prev) s1) (\<lambda>s2.
          bind_res (put_next (Some timer) None s2) (\<lambda>s3.
          Inr (s3\<lparr>tl_tail := Some timer\<rparr>))))
      | Some t \<Rightarrow>
          bind_res (tderef s (Some timer)) (\<lambda>n.
          bind_res (tderef s (Some t)) (\<lambda>m.
          if ut_expire n < ut_expire m then
            bind_res (put_next (Some prev) (Some timer) s) (\<lambda>s1.
            bind_res (put_next (Some timer) tmp s1) (\<lambda>s2.
            bind_res (put_prev tmp (Some timer) s2) (\<lambda>s3.
            put_prev (Some timer) (Some prev) s3)))
          else add_timer_loop fuel timer t (ut_next m) s)))"

definition add_timer_from :: "addr \<Rightarrow> addr option \<Rightarrow> sort_timer_lst \<Rightarrow> sort_timer_lst res" where
  "add_timer_from timer lst_head s =
     bind_res (tderef s lst_head) (\<lambda>n. add_timer_loop (Suc (tl_fresh s)) timer (the lst_head) (ut_next n) s)"

definition add_timer :: "addr option \<Rightarrow> sort_timer_lst \<Rightarrow> sort_timer_lst res" where
  "add_timer timer s =
     (case timer of
        None \<Rightarrow> Inr s
      | Some t \<Rightarrow>
          if tl_head s = None then Inr (s\<lparr>tl_head := timer, tl_tail := timer\<rparr>)
          else
            bind_res (tderef s timer) (\<lambda>n.
            bind_res (tderef s (tl_head s)) (\<lambda>m.
            if ut_expire n < ut_expire m then
              bind_res (put_next timer (tl_head s) s) (\<lambda>s1.
              bind_res (put_prev (tl_head s1) timer s1) (\<lambda>s2.
              Inr (s2\<lparr>tl_head := timer\<rparr>)))
            else add_timer_from t (tl_head s) s)))"

definition adjust_timer :: "addr option \<Rightarrow> sort_timer_lst \<Rightarrow> sort_timer_lst res" where
  "adjust_timer timer s =
     (case timer of
        None \<Rightarrow> Inr s
      | Some t \<Rightarrow>
          bind_res (tderef s timer) (\<lambda>n.
          bind_res (case ut_next n of None \<Rightarrow> Inr True
                    | Some _ \<Rightarrow> bind_res (tderef s (ut_next n)) (\<lambda>m. Inr (ut_expire n < ut_expire m))) (\<lambda>stay.
          if stay then Inr s
          else if timer = tl_head s then
            (let s1 = s\<lparr>tl_head := ut_next n\<rparr> in
             bind_res (put_prev (tl_head s1) None s1) (\<lambda>s2.
             bind_res (put_next timer None s2) (\<lambda>s3.
             add_timer_from t (tl_head s3) s3)))
          else
            bind_res (put_next (ut_prev n) (ut_next n) s) (\<lambda>s1.
            bind_res (tderef s1 timer) (\<lambda>n1.
            bind_res (put_prev (ut_next n1) (ut_prev n1) s1) (\<lambda>s2.
            bind_res (tderef s2 timer) (\<lambda>n2.
            add_timer_from t (ut_next n2) s2)))))))"

definition del_timer :: "addr option \<Rightarrow> sort_timer_lst \<Rightarrow> sort_timer_lst res" where
  "del_timer timer s =
     (case timer of
        None \<Rightarrow> Inr s
      | Some t \<Rightarrow>
          if timer = tl_head s \<and> timer = tl_tail s then
            bind_res (tdelete t s) (\<lambda>s1. Inr (s1\<lparr>tl_head := None, tl_tail := None\<rparr>))
          else if timer = tl_head s then
            bind_res (tderef s (tl_head s)) (\<lambda>n.
            (let s1 = s\<lparr>tl_head := ut_next n\<rparr> in
             bind_res (put_prev (tl_head s1) None s1) (\<lambda>s2. tdelete t s2)))
          else if timer = tl_tail s then
            bind_res (tderef s (tl_tail s)) (\<lambda>n.
            (let s1 = s\<lparr>tl_tail := ut_prev n\<rparr> in
             bind_res (put_next (tl_tail s1) None s1) (\<lambda>s2. tdelete t s2)))
          else
            bind_res (tderef s timer) (\<lambda>n.
            bind_res (put_next (ut_prev n) (ut_next n) s) (\<lambda>s1.
            bind_res (tderef s1 timer) (\<lambda>n1.
            bind_res (put_prev (ut_next n1) (ut_prev n1) s1) (\<lambda>s2. tdelete t s2)))))"

text \<open>The loop of \<open>tick\<close>; the result has the user data handed to \<open>cb_func\<close>, in order.\<close>

fun tick_loop :: "nat \<Rightarrow> int \<Rightarrow> addr option \<Rightarrow> nat list \<Rightarrow> sort_timer_lst \<Rightarrow> (nat list \<times> sort_timer_lst) res" where
  "tick_loop 0 cur tmp fired s = Inl No_Return"
| "tick_loop (Suc fuel) cur tmp fired s =
     (case tmp of
        None \<Rightarrow> Inr (fired, s)
      | Some t \<Rightarrow>
          bind_res (tderef s tmp) (\<lambda>n.
          if cur < ut_expire n then Inr (fired, s)
          else
            (let s1 = s\<lparr>tl_head := ut_next n\<rparr> in
             bind_res (if tl_head s1 = None then Inr s1 else put_prev (tl_head s1) None s1) (\<lambda>s2.
             bind_res (tdelete t s2) (\<lambda>s3.
             tick_loop fuel cur (tl_head s3) (fired @ [ut_user_data n]) s3)))))"

definition tick :: "int \<Rightarrow> sort_timer_lst \<Rightarrow> (nat list \<times> sort_timer_lst) res" where
  "tick cur s = (if tl_head s = None then Inr ([], s) else tick_loop (Suc (tl_fresh s)) cur (tl_head s) [] s)"

text \<open>The destructor.\<close>

fun free_loop :: "nat \<Rightarrow> addr option \<Rightarrow> sort_timer_lst \<Rightarrow> sort_timer_lst res" where
  "free_loop 0 tmp s = Inl No_Return"
| "free_loop (Suc fuel) tmp s =
     (case tmp of
        None \<Rightarrow> Inr s
      | Some t \<Rightarrow>
          bind_res (tderef s tmp) (\<lambda>n.
          bind_res (tdelete t (s\<lparr>tl_head := ut_next n\<rparr>)) (\<lambda>s1. free_loop fuel (tl_head s1) s1)))"

definition sort_timer_lst_free :: "sort_timer_lst \<Rightarrow> sort_timer_lst res" where
  "sort_timer_lst_free s = free_loop (Suc (tl_fresh s)) (tl_head s) s"

section \<open>The list in the heap\<close>

abbreviation tseg :: "(addr \<rightharpoonup> util_timer) \<Rightarrow> addr option \<Rightarrow> addr list \<Rightarrow> addr option \<Rightarrow> bool" where
  "tseg \<equiv> dnodes ut_prev ut_next"

definition tlist :: "sort_timer_lst \<Rightarrow> addr list \<Rightarrow> bool" where
  "tlist s as \<longleftrightarrow> tseg (tl_heap s) None as None \<and> distinct as \<and> tl_head s = first_of as None
     \<and> (as \<noteq> [] \<longrightarrow> tl_tail s = Some (last as)) \<and> (\<forall>a\<in>set as. a < tl_fresh s)"

text \<open>Deadline and user data of a node; no pointer operation touches them.\<close>

definition tdata :: "sort_timer_lst \<Rightarrow> addr \<Rightarrow> int \<times> nat" where
  "tdata s a = (ut_expire (the (tl_heap s a)), ut_user_data (the (tl_heap s a)))"

abbreviation texp :: "sort_timer_lst \<Rightarrow> addr \<Rightarrow> int" where
  "texp s a \<equiv> fst (tdata s a)"

definition same_tdata :: "sort_timer_lst \<Rightarrow> sort_timer_lst \<Rightarrow> bool" where
  "same_tdata s s' \<longleftrightarrow> tdata s' = tdata s \<and> dom (tl_heap s') = dom (tl_heap s) \<and> tl_fresh s' = tl_fresh s"

lemma tderef_Some [simp]: "tl_heap s a = Some n \<Longrightarrow> tderef s (Some a) = Inr n"
  by (simp add: tderef_def)

lemma tput_Some [simp]:
  "tl_heap s a = Some n \<Longrightarrow> tput (Some a) f s = Inr (s\<lparr>tl_heap := (tl_heap s)(a \<mapsto> f n)\<rparr>)"
  by (simp add: tput_def)

lemma tdelete_Some [simp]: "tl_heap s a = Some n \<Longrightarrow> tdelete a s = Inr (s\<lparr>tl_heap := (tl_heap s)(a := None)\<rparr>)"
  by (simp add: tdelete_def)

lemma tlist_length: "tlist s as \<Longrightarrow> length as \<le> tl_fresh s"
proof -
  assume t: "tlist s as"
  then have "set as \<subseteq> {..<tl_fresh s}" "distinct as" by (auto simp: tlist_def)
  then have "card (set as) \<le> tl_fresh s" using card_mono [of "{..<tl_fresh s}" "set as"] by simp
  then show ?thesis using \<open>distinct as\<close> by (simp add: distinct_card)
qed

lemma add_timer_loop_ok:
  "length ys < fuel \<Longrightarrow> tlist s (xs @ p # ys) \<Longrightarrow> timer \<notin> set (xs @ p # ys) \<Longrightarrow> tl_heap s timer = Some n \<Longrightarrow>
   timer < tl_fresh s \<Longrightarrow>
   \<exists>s'. add_timer_loop fuel timer p (first_of ys None) s = Inr s' \<and> same_tdata s s'
     \<and> tlist s' (xs @ p # takeWhile (\<lambda>y. texp s y \<le> ut_expire n) ys @ timer # dropWhile (\<lambda>y. texp s y \<le> ut_expire n) ys)"
proof (induction ys arbitrary: fuel xs p)
  case Nil
  then obtain k where k: "fuel = Suc k" by (cases fuel) auto
  obtain pn where pn: "tl_heap s p = Some pn" using Nil.prems(2) by (auto simp: tlist_def)
  show ?case using Nil.prems k pn
    by (auto simp: tlist_def same_tdata_def tdata_def fun_eq_iff)
next
  case (Cons y ys)
  then obtain k where k: "fuel = Suc k" by (cases fuel) auto
  obtain pn m where pn: "tl_heap s p = Some pn" and m: "tl_heap s y = Some m" "ut_next m = first_of ys None"
    using Cons.prems(2) by (auto simp: tlist_def)
  have ym: "texp s y = ut_expire m" using m by (simp add: tdata_def)
  show ?case
  proof (cases "ut_expire n < ut_expire m")
    case True
    then show ?thesis using Cons.prems k pn m ym
      by (auto simp: tlist_def same_tdata_def tdata_def fun_eq_iff)
  next
    case False
    from Cons.IH [of k "xs @ [p]" y] Cons.prems k
    obtain s' where s': "add_timer_loop k timer y (first_of ys None) s = Inr s'" "same_tdata s s'"
      "tlist s' ((xs @ [p]) @ y # takeWhile (\<lambda>y. texp s y \<le> ut_expire n) ys @ timer # dropWhile (\<lambda>y. texp s y \<le> ut_expire n) ys)"
      by auto
    then show ?thesis using False k m ym Cons.prems(4) by auto
  qed
qed

definition insert_at_deadline :: "sort_timer_lst \<Rightarrow> addr \<Rightarrow> addr list \<Rightarrow> addr list" where
  "insert_at_deadline s a as =
     takeWhile (\<lambda>y. texp s y \<le> texp s a) as @ a # dropWhile (\<lambda>y. texp s y \<le> texp s a) as"

lemma add_timer_from_ok:
  assumes "tlist s (xs @ p # ys)" "timer \<notin> set (xs @ p # ys)" "tl_heap s timer = Some n" "timer < tl_fresh s"
    and "texp s p \<le> texp s timer"
  shows "\<exists>s'. add_timer_from timer (Some p) s = Inr s' \<and> same_tdata s s'
    \<and> tlist s' (xs @ insert_at_deadline s timer (p # ys))"
proof -
  obtain m where m: "tl_heap s p = Some m" "ut_next m = first_of ys None"
    using assms(1) by (auto simp: tlist_def)
  have "length ys < Suc (tl_fresh s)" using tlist_length [OF assms(1)] by simp
  from add_timer_loop_ok [OF this assms(1-4)] show ?thesis
    using m assms(3,5) by (auto simp: add_timer_from_def insert_at_deadline_def tdata_def simp del: add_timer_loop.simps)
qed

lemma add_timer_ok:
  assumes "tlist s as" "a \<notin> set as" "tl_heap s a = Some n" "a < tl_fresh s" "ut_prev n = None" "ut_next n = None"
  shows "\<exists>s'. add_timer (Some a) s = Inr s' \<and> same_tdata s s' \<and> tlist s' (insert_at_deadline s a as)"
proof (cases as)
  case Nil
  then show ?thesis using assms
    by (auto simp: add_timer_def tlist_def insert_at_deadline_def same_tdata_def tdata_def)
next
  case (Cons h ys)
  obtain m where m: "tl_heap s h = Some m" using assms(1) Cons by (auto simp: tlist_def)
  have hd: "tl_head s = Some h" using assms(1) Cons by (simp add: tlist_def)
  show ?thesis
  proof (cases "ut_expire n < ut_expire m")
    case True
    then show ?thesis using assms Cons m hd
      by (auto simp: add_timer_def tlist_def insert_at_deadline_def same_tdata_def tdata_def fun_eq_iff)
  next
    case False
    then have "texp s h \<le> texp s a" using m assms(3) by (simp add: tdata_def)
    from add_timer_from_ok [where xs = "[]" and p = h and ys = ys, OF _ _ assms(3,4) this] assms(1,2) Cons
    show ?thesis using False m hd assms(3) by (auto simp: add_timer_def)
  qed
qed

lemma del_timer_ok:
  assumes t: "tlist s (xs @ a # ys)"
  shows "\<exists>s'. del_timer (Some a) s = Inr s' \<and> tlist s' (xs @ ys) \<and> (\<forall>b. b \<noteq> a \<longrightarrow> tdata s' b = tdata s b)
    \<and> tl_heap s' a = None \<and> tl_fresh s' = tl_fresh s"
proof (cases xs rule: rev_cases)
  case Nil
  then show ?thesis using t
    by (cases ys) (auto simp: del_timer_def tlist_def tdata_def Let_def split: if_splits)
next
  case (snoc zs z)
  have tail: "tl_tail s = (if ys = [] then Some a else Some (last ys))" using t by (auto simp: tlist_def)
  have head: "tl_head s \<noteq> Some a" using t snoc by (cases zs) (auto simp: tlist_def)
  show ?thesis
  proof (cases ys)
    case Nil
    then show ?thesis using t snoc head tail
      by (auto simp: del_timer_def tlist_def tdata_def Let_def)
  next
    case (Cons y ws)
    then have "tl_tail s \<noteq> Some a" using t tail by (auto simp: tlist_def)
    then show ?thesis using t snoc head Cons
      by (auto simp: del_timer_def tlist_def tdata_def Let_def)
  qed
qed

lemma adjust_timer_ok:
  assumes t: "tlist s (xs @ a # ys)"
  shows "\<exists>s'. adjust_timer (Some a) s = Inr s' \<and> same_tdata s s' \<and> tlist s' (xs @ insert_at_deadline s a ys)"
proof -
  obtain n where n: "tl_heap s a = Some n" "ut_next n = first_of ys None" "ut_prev n = last_of None xs"
    using t by (auto simp: tlist_def)
  have fresh: "a < tl_fresh s" using t by (simp add: tlist_def)
  show ?thesis
  proof (cases ys)
    case Nil
    then show ?thesis using n t by (simp add: adjust_timer_def insert_at_deadline_def same_tdata_def)
  next
    case (Cons y ws)
    obtain m where m: "tl_heap s y = Some m" using t Cons by (auto simp: tlist_def)
    show ?thesis
    proof (cases "ut_expire n < ut_expire m")
      case True
      then show ?thesis using n m t Cons by (simp add: adjust_timer_def insert_at_deadline_def same_tdata_def tdata_def)
    next
      case False
      note later = False
      obtain s2 where s2: "adjust_timer (Some a) s = add_timer_from a (Some y) s2" "same_tdata s s2" "tlist s2 (xs @ y # ws)"
        "\<exists>n2. tl_heap s2 a = Some n2"
      proof (cases xs rule: rev_cases)
        case Nil
        define s2 where "s2 = s\<lparr>tl_head := Some y,
          tl_heap := (tl_heap s)(y \<mapsto> m\<lparr>ut_prev := None\<rparr>, a \<mapsto> n\<lparr>ut_next := None\<rparr>)\<rparr>"
        have ne: "a \<noteq> y" "tl_head s = Some a" using t Nil Cons by (auto simp: tlist_def)
        show ?thesis
        proof (rule that [of s2])
          show "adjust_timer (Some a) s = add_timer_from a (Some y) s2"
            using n m ne Cons later by (simp add: adjust_timer_def Let_def s2_def)
          show "same_tdata s s2" using n m ne by (auto simp: same_tdata_def tdata_def s2_def fun_eq_iff)
          show "tlist s2 (xs @ y # ws)" using t n m ne Nil Cons by (auto simp: tlist_def s2_def)
          show "\<exists>n2. tl_heap s2 a = Some n2" by (simp add: s2_def)
        qed
      next
        case (snoc zs z)
        have head: "tl_head s \<noteq> Some a" using t snoc by (cases zs) (auto simp: tlist_def)
        have pz: "ut_prev n = Some z" using n(3) snoc by (simp add: last_of_def)
        obtain zn where zn: "tl_heap s z = Some zn" using t snoc by (auto simp: tlist_def)
        define s2 where "s2 = s\<lparr>tl_heap := (tl_heap s)(z \<mapsto> zn\<lparr>ut_next := Some y\<rparr>, y \<mapsto> m\<lparr>ut_prev := Some z\<rparr>)\<rparr>"
        have ne: "a \<noteq> y" "a \<noteq> z" "y \<noteq> z" using t snoc Cons by (auto simp: tlist_def)
        show ?thesis
        proof (rule that [of s2])
          show "adjust_timer (Some a) s = add_timer_from a (Some y) s2"
            using n(1,2) m zn pz ne head Cons later by (simp add: adjust_timer_def Let_def s2_def)
          show "same_tdata s s2" using zn m ne by (auto simp: same_tdata_def tdata_def s2_def fun_eq_iff)
          show "tlist s2 (xs @ y # ws)" using t zn m ne snoc Cons by (auto simp: tlist_def s2_def)
          show "\<exists>n2. tl_heap s2 a = Some n2" using n ne by (simp add: s2_def)
        qed
      qed
      then obtain n2 where n2: "tl_heap s2 a = Some n2" by blast
      have td: "tdata s2 = tdata s" "tl_fresh s2 = tl_fresh s" using s2(2) by (simp_all add: same_tdata_def)
      have "texp s2 y \<le> texp s2 a" using later n m by (simp add: td) (simp add: tdata_def)
      moreover have "a \<notin> set (xs @ y # ws)" using t Cons by (auto simp: tlist_def)
      ultimately obtain s' where "add_timer_from a (Some y) s2 = Inr s'" "same_tdata s2 s'"
        "tlist s' (xs @ insert_at_deadline s2 a (y # ws))"
        using add_timer_from_ok [OF s2(3) _ n2] fresh td(2) by auto
      moreover have "insert_at_deadline s2 a = insert_at_deadline s a"
        by (simp add: insert_at_deadline_def td fun_eq_iff)
      ultimately show ?thesis using s2(1,2) Cons by (auto simp: same_tdata_def)
    qed
  qed
qed

lemma tick_loop_ok:
  "length as < fuel \<Longrightarrow> tlist s as \<Longrightarrow>
   \<exists>s'. tick_loop fuel cur (first_of as None) fired s =
     Inr (fired @ map (snd \<circ> tdata s) (takeWhile (\<lambda>a. texp s a \<le> cur) as), s')
     \<and> tlist s' (dropWhile (\<lambda>a. texp s a \<le> cur) as)
     \<and> (\<forall>b \<in> set (dropWhile (\<lambda>a. texp s a \<le> cur) as). tdata s' b = tdata s b) \<and> tl_fresh s' = tl_fresh s"
proof (induction as arbitrary: fuel s fired)
  case Nil
  then show ?case by (cases fuel) auto
next
  case (Cons a as)
  then obtain k where k: "fuel = Suc k" by (cases fuel) auto
  obtain n where n: "tl_heap s a = Some n" "ut_next n = first_of as None" using Cons.prems(2) by (auto simp: tlist_def)
  have ta: "tdata s a = (ut_expire n, ut_user_data n)" using n by (simp add: tdata_def)
  show ?case
  proof (cases "cur < ut_expire n")
    case True
    then show ?thesis using k n ta Cons.prems(2) by (simp add: tlist_def)
  next
    case False
    obtain s3 where s3: "tick_loop fuel cur (Some a) fired s = tick_loop k cur (first_of as None) (fired @ [ut_user_data n]) s3"
      "tlist s3 as" "\<forall>b\<in>set as. tdata s3 b = tdata s b" "tl_fresh s3 = tl_fresh s"
    proof (cases as)
      case Nil
      then show ?thesis using that k n False Cons.prems(2) by (auto simp: tlist_def tdata_def Let_def)
    next
      case (Cons y ws)
      obtain m where m: "tl_heap s y = Some m" using \<open>tlist s (a # as)\<close> Cons by (auto simp: tlist_def)
      show ?thesis using that k n False \<open>tlist s (a # as)\<close> Cons m
        by (auto simp: tlist_def tdata_def Let_def)
    qed
    have "takeWhile (\<lambda>a. texp s3 a \<le> cur) as = takeWhile (\<lambda>a. texp s a \<le> cur) as"
      "dropWhile (\<lambda>a. texp s3 a \<le> cur) as = dropWhile (\<lambda>a. texp s a \<le> cur) as"
      using s3(3) by (auto intro: takeWhile_cong dropWhile_cong)
    moreover have "map (snd \<circ> tdata s3) (takeWhile (\<lambda>a. texp s a \<le> cur) as) = map (snd \<circ> tdata s) (takeWhile (\<lambda>a. texp s a \<le> cur) as)"
      using s3(3) set_takeWhileD by (fastforce intro!: map_cong)
    moreover have "length as < k" using Cons.prems(1) k by simp
    moreover have "\<forall>b\<in>set (dropWhile (\<lambda>a. texp s a \<le> cur) as). tdata s3 b = tdata s b"
      using s3(3) set_dropWhileD by fast
    ultimately show ?thesis
      using Cons.IH [OF _ s3(2), of k "fired @ [ut_user_data n]"] s3 False ta by auto
  qed
qed

section \<open>What the list promises\<close>

text \<open>
  The abstract timers: address, deadline and user data, in the order in which they will fire.
  \<open>spec_add\<close> puts a timer behind those with the same deadline.
\<close>

type_synonym timer_entry = "addr \<times> int \<times> nat"

abbreviation deadline :: "timer_entry \<Rightarrow> int" where
  "deadline t \<equiv> fst (snd t)"

definition spec_add :: "timer_entry \<Rightarrow> timer_entry list \<Rightarrow> timer_entry list" where
  "spec_add t ts = takeWhile (\<lambda>u. deadline u \<le> deadline t) ts @ t # dropWhile (\<lambda>u. deadline u \<le> deadline t) ts"

datatype timer_op = Start int nat | Postpone addr int | Cancel addr | Tick int

text \<open>A step of the specification: the next address, the timers, and the user data that fire.\<close>

fun spec_step :: "timer_op \<Rightarrow> addr \<times> timer_entry list \<Rightarrow> nat list \<times> addr \<times> timer_entry list" where
  "spec_step (Start e d) (k, ts) = ([], Suc k, spec_add (k, e, d) ts)"
| "spec_step (Postpone a e) (k, ts) =
     ([], k, spec_add (a, e, snd (the (map_of ts a))) (filter (\<lambda>u. fst u \<noteq> a) ts))"
| "spec_step (Cancel a) (k, ts) = ([], k, filter (\<lambda>u. fst u \<noteq> a) ts)"
| "spec_step (Tick cur) (k, ts) = (map (snd \<circ> snd) (filter (\<lambda>u. deadline u \<le> cur) ts), k, filter (\<lambda>u. cur < deadline u) ts)"

text \<open>The client names live timers only and does not move a deadline forward.\<close>

fun op_allowed :: "timer_op \<Rightarrow> addr \<times> timer_entry list \<Rightarrow> bool" where
  "op_allowed (Postpone a e) (k, ts) = (case map_of ts a of None \<Rightarrow> False | Some (e0, d) \<Rightarrow> e0 \<le> e)"
| "op_allowed (Cancel a) (k, ts) = (map_of ts a \<noteq> None)"
| "op_allowed _ _ = True"

fun spec_run :: "timer_op list \<Rightarrow> addr \<times> timer_entry list \<Rightarrow> nat list" where
  "spec_run [] st = []"
| "spec_run (x # xs) st = (case spec_step x st of (fired, st') \<Rightarrow> fired @ spec_run xs st')"

fun ops_allowed :: "timer_op list \<Rightarrow> addr \<times> timer_entry list \<Rightarrow> bool" where
  "ops_allowed [] st = True"
| "ops_allowed (x # xs) st = (op_allowed x st \<and> ops_allowed xs (snd (spec_step x st)))"

text \<open>The run of a sequence of calls, and the interface of a timer service.\<close>

fun ops_run :: "(timer_op \<Rightarrow> 's \<Rightarrow> (nat list \<times> 's) res) \<Rightarrow> timer_op list \<Rightarrow> 's \<Rightarrow> nat list res" where
  "ops_run step [] s = Inr []"
| "ops_run step (x # xs) s =
     bind_res (step x s) (\<lambda>(fired, s'). bind_res (ops_run step xs s') (\<lambda>rest. Inr (fired @ rest)))"

locale timer_service =
  fixes rel :: "'s \<Rightarrow> addr \<times> timer_entry list \<Rightarrow> bool"
    and step :: "timer_op \<Rightarrow> 's \<Rightarrow> (nat list \<times> 's) res"
  assumes step_refines: "rel s st \<Longrightarrow> op_allowed x st \<Longrightarrow>
    \<exists>s'. step x s = Inr (fst (spec_step x st), s') \<and> rel s' (snd (spec_step x st))"
begin

lemma run_refines: "rel s st \<Longrightarrow> ops_allowed xs st \<Longrightarrow> ops_run step xs s = Inr (spec_run xs st)"
proof (induction xs arbitrary: s st)
  case (Cons x xs)
  then obtain s' where s': "step x s = Inr (fst (spec_step x st), s')" "rel s' (snd (spec_step x st))"
    using step_refines [of s st x] by auto
  then have "ops_run step xs s' = Inr (spec_run xs (snd (spec_step x st)))" using Cons by simp
  then show ?case using s'(1) by (simp add: case_prod_beta)
qed simp

end

section \<open>The list keeps its promise\<close>

text \<open>
  The calls of the server: \<open>postpone_timer\<close> assigns the new deadline and calls \<open>adjust_timer\<close>.
\<close>

definition postpone_timer :: "addr \<Rightarrow> int \<Rightarrow> sort_timer_lst \<Rightarrow> sort_timer_lst res" where
  "postpone_timer a e s =
     bind_res (tput (Some a) (\<lambda>n. n\<lparr>ut_expire := e\<rparr>) s) (\<lambda>s1. adjust_timer (Some a) s1)"

fun tl_step :: "timer_op \<Rightarrow> sort_timer_lst \<Rightarrow> (nat list \<times> sort_timer_lst) res" where
  "tl_step (Start e d) s =
     (case new_timer e d s of (a, s1) \<Rightarrow> bind_res (add_timer (Some a) s1) (\<lambda>s2. Inr ([], s2)))"
| "tl_step (Postpone a e) s = bind_res (postpone_timer a e s) (\<lambda>s1. Inr ([], s1))"
| "tl_step (Cancel a) s = bind_res (del_timer (Some a) s) (\<lambda>s1. Inr ([], s1))"
| "tl_step (Tick cur) s = tick cur s"

definition timers :: "sort_timer_lst \<Rightarrow> addr \<times> timer_entry list \<Rightarrow> bool" where
  "timers s st \<longleftrightarrow> tl_fresh s = fst st \<and> tlist s (map fst (snd st))
     \<and> (\<forall>t\<in>set (snd st). tdata s (fst t) = snd t) \<and> sorted (map deadline (snd st))"

lemma takeWhile_texp:
  assumes "\<forall>t\<in>set ts. tdata s (fst t) = snd t"
  shows "takeWhile (\<lambda>a. texp s a \<le> x) (map fst ts) = map fst (takeWhile (\<lambda>t. deadline t \<le> x) ts)"
    and "dropWhile (\<lambda>a. texp s a \<le> x) (map fst ts) = map fst (dropWhile (\<lambda>t. deadline t \<le> x) ts)"
  using assms by (induction ts) auto

lemma spec_add_simps [simp]:
  "spec_add t [] = [t]"
  "spec_add t (u # ts) = (if deadline u \<le> deadline t then u # spec_add t ts else t # u # ts)"
  by (simp_all add: spec_add_def)

lemma set_spec_add [simp]: "set (spec_add t ts) = insert t (set ts)"
  by (induction ts) (auto simp del: split_paired_All)

lemma sorted_spec_add: "sorted (map deadline ts) \<Longrightarrow> sorted (map deadline (spec_add t ts))"
proof (induction ts)
  case (Cons u ts)
  show ?case
  proof (cases "deadline u \<le> deadline t")
    case True
    then show ?thesis using Cons by simp
  next
    case False
    then have "\<forall>x\<in>set ts. deadline t \<le> deadline x" using Cons.prems by fastforce
    then show ?thesis using False Cons.prems by simp
  qed
qed simp

lemma spec_add_pass:
  "\<forall>u\<in>set xs. deadline u \<le> deadline t \<Longrightarrow> spec_add t (xs @ ys) = xs @ spec_add t ys"
  by (induction xs) auto

lemma sorted_due:
  assumes "sorted (map deadline ts)"
  shows "takeWhile (\<lambda>t. deadline t \<le> x) ts = filter (\<lambda>t. deadline t \<le> x) ts \<and>
    dropWhile (\<lambda>t. deadline t \<le> x) ts = filter (\<lambda>t. x < deadline t) ts"
  using assms
proof (induction ts)
  case (Cons u ts)
  show ?case
  proof (cases "deadline u \<le> x")
    case True
    then show ?thesis using Cons by simp
  next
    case False
    then have "\<forall>t\<in>set ts. x < deadline t" using Cons.prems by fastforce
    then have "filter (\<lambda>t. deadline t \<le> x) ts = []" "filter (\<lambda>t. x < deadline t) ts = ts"
      by (auto simp: filter_empty_conv filter_id_conv)
    then show ?thesis using False by simp
  qed
qed simp

lemma insert_spec_add:
  assumes "\<forall>t\<in>set ts. tdata s (fst t) = snd t" and "tdata s a = x"
  shows "insert_at_deadline s a (map fst ts) = map fst (spec_add (a, x) ts)"
  using assms takeWhile_texp [OF assms(1), of "fst x"] by (simp add: insert_at_deadline_def spec_add_def)

lemma split_timers:
  assumes "map_of ts a = Some x" and "distinct (map fst ts)"
  obtains xs ys where "ts = xs @ (a, x) # ys" "filter (\<lambda>u. fst u \<noteq> a) ts = xs @ ys"
proof -
  obtain xs ys where ts: "ts = xs @ (a, x) # ys" using map_of_SomeD [OF assms(1)] by (meson split_list)
  have "a \<notin> fst ` set xs" "a \<notin> fst ` set ys" using assms(2) ts by auto
  then have "filter (\<lambda>u. fst u \<noteq> a) xs = xs" "filter (\<lambda>u. fst u \<noteq> a) ys = ys"
    by (force simp: filter_id_conv)+
  then show ?thesis using that ts by simp
qed

lemma start_refines:
  assumes "timers s (k, ts)"
  shows "\<exists>s'. tl_step (Start e d) s = Inr ([], s') \<and> timers s' (Suc k, spec_add (k, e, d) ts)"
proof -
  have t: "tl_fresh s = k" "tlist s (map fst ts)" "\<forall>t\<in>set ts. tdata s (fst t) = snd t" "sorted (map deadline ts)"
    using assms by (simp_all add: timers_def)
  define n where "n = \<lparr>ut_expire = e, ut_user_data = d, ut_prev = None, ut_next = None\<rparr>"
  define s1 where "s1 = s\<lparr>tl_heap := (tl_heap s)(k \<mapsto> n), tl_fresh := Suc k\<rparr>"
  have live: "\<forall>a\<in>set (map fst ts). a < k" using t(1,2) by (simp add: tlist_def)
  then have notin: "k \<notin> set (map fst ts)" by blast
  have tl1: "tlist s1 (map fst ts)" using t(2) live notin by (auto simp: tlist_def s1_def)
  have td1: "\<forall>t\<in>set ts. tdata s1 (fst t) = snd t" "tdata s1 k = (e, d)"
    using t(3) notin by (auto simp: tdata_def s1_def n_def)
  have n1: "tl_heap s1 k = Some n" "k < tl_fresh s1" "ut_prev n = None" "ut_next n = None"
    by (simp_all add: s1_def n_def)
  obtain s' where s': "add_timer (Some k) s1 = Inr s'" "same_tdata s1 s'" "tlist s' (insert_at_deadline s1 k (map fst ts))"
    using add_timer_ok [OF tl1 notin n1] by blast
  have "timers s' (Suc k, spec_add (k, e, d) ts)"
    using s'(2,3) td1 insert_spec_add [OF td1] sorted_spec_add [OF t(4)]
    by (auto simp: timers_def same_tdata_def s1_def)
  then show ?thesis using s'(1) t(1) by (simp add: new_timer_def s1_def n_def)
qed

lemma cancel_refines:
  assumes "timers s (k, ts)" and "map_of ts a \<noteq> None"
  shows "\<exists>s'. tl_step (Cancel a) s = Inr ([], s') \<and> timers s' (k, filter (\<lambda>u. fst u \<noteq> a) ts)"
proof -
  have t: "tl_fresh s = k" "tlist s (map fst ts)" "\<forall>t\<in>set ts. tdata s (fst t) = snd t" "sorted (map deadline ts)"
    using assms by (simp_all add: timers_def)
  obtain x where x: "map_of ts a = Some x" using assms(2) by blast
  obtain xs ys where ts: "ts = xs @ (a, x) # ys" "filter (\<lambda>u. fst u \<noteq> a) ts = xs @ ys"
    using split_timers [OF x] t(2) by (auto simp: tlist_def)
  obtain s' where s': "del_timer (Some a) s = Inr s'" "tlist s' (map fst xs @ map fst ys)"
    "\<forall>b. b \<noteq> a \<longrightarrow> tdata s' b = tdata s b" "tl_fresh s' = tl_fresh s"
    using del_timer_ok [of s "map fst xs" a "map fst ys"] t(2) ts(1) by auto
  have "a \<notin> fst ` set (xs @ ys)" using t(2) ts(1) by (auto simp: tlist_def)
  then have "\<forall>t\<in>set (xs @ ys). fst t \<noteq> a" by force
  then have "\<forall>t\<in>set (xs @ ys). tdata s' (fst t) = snd t" using s'(3) t(3) ts(1) by simp
  moreover have "sorted (map deadline (xs @ ys))" using t(4) ts(1) by (auto simp: sorted_append)
  ultimately have "timers s' (k, xs @ ys)" using s'(2,4) t(1) by (simp add: timers_def)
  then show ?thesis using s'(1) ts(2) by simp
qed

lemma postpone_refines:
  assumes "timers s (k, ts)" and "map_of ts a = Some (e0, d)" and "e0 \<le> e"
  shows "\<exists>s'. tl_step (Postpone a e) s = Inr ([], s')
    \<and> timers s' (k, spec_add (a, e, d) (filter (\<lambda>u. fst u \<noteq> a) ts))"
proof -
  have t: "tl_fresh s = k" "tlist s (map fst ts)" "\<forall>t\<in>set ts. tdata s (fst t) = snd t" "sorted (map deadline ts)"
    using assms by (simp_all add: timers_def)
  obtain xs ys where ts: "ts = xs @ (a, e0, d) # ys" "filter (\<lambda>u. fst u \<noteq> a) ts = xs @ ys"
    using split_timers [OF assms(2)] t(2) by (auto simp: tlist_def)
  have "a \<notin> fst ` set (xs @ ys)" using t(2) ts(1) by (auto simp: tlist_def)
  then have other: "\<forall>t\<in>set (xs @ ys). fst t \<noteq> a" by force
  obtain n where n: "tl_heap s a = Some n" using t(2) ts(1) by (auto simp: tlist_def)
  define s1 where "s1 = s\<lparr>tl_heap := (tl_heap s)(a \<mapsto> n\<lparr>ut_expire := e\<rparr>)\<rparr>"
  have al: "a \<notin> set (map fst xs)" "a \<notin> set (map fst ys)" using other by auto
  have tl1: "tlist s1 (map fst xs @ a # map fst ys)"
    using t(2) ts(1) n al by (auto simp: tlist_def s1_def)
  have "tdata s a = (e0, d)" using t(3) ts(1) by simp
  then have da: "tdata s1 a = (e, d)" using n by (simp add: tdata_def s1_def)
  have td1: "\<forall>t\<in>set (xs @ ys). tdata s1 (fst t) = snd t"
    using t(3) ts(1) other by (simp add: tdata_def s1_def)
  obtain s' where s': "adjust_timer (Some a) s1 = Inr s'" "same_tdata s1 s'"
    "tlist s' (map fst xs @ insert_at_deadline s1 a (map fst ys))"
    using adjust_timer_ok [OF tl1] by blast
  have "\<forall>u\<in>set xs. deadline u \<le> e0" using t(4) ts(1) by (auto simp: sorted_append)
  then have "\<forall>u\<in>set xs. deadline u \<le> deadline (a, e, d)" using assms(3) by (auto intro: order_trans)
  from spec_add_pass [OF this, of ys]
  have sp: "map fst (spec_add (a, e, d) (xs @ ys)) = map fst xs @ insert_at_deadline s1 a (map fst ys)"
    using insert_spec_add [of ys s1 a "(e, d)"] td1 da by simp
  have "sorted (map deadline (xs @ ys))" using t(4) ts(1) by (auto simp: sorted_append)
  then have "timers s' (k, spec_add (a, e, d) (xs @ ys))"
    using s'(2,3) sp td1 da t(1) sorted_spec_add [of "xs @ ys" "(a, e, d)"]
    by (simp add: timers_def same_tdata_def s1_def)
  then show ?thesis using s'(1) n ts(2) by (simp add: postpone_timer_def s1_def)
qed

lemma tick_refines:
  assumes "timers s (k, ts)"
  shows "\<exists>s'. tl_step (Tick cur) s = Inr (map (snd \<circ> snd) (filter (\<lambda>u. deadline u \<le> cur) ts), s')
    \<and> timers s' (k, filter (\<lambda>u. cur < deadline u) ts)"
proof -
  have t: "tl_fresh s = k" "tlist s (map fst ts)" "\<forall>t\<in>set ts. tdata s (fst t) = snd t" "sorted (map deadline ts)"
    using assms by (simp_all add: timers_def)
  show ?thesis
  proof (cases ts)
    case Nil
    then have "tl_head s = None" using t(2) by (simp add: tlist_def)
    then show ?thesis using Nil assms by (simp add: tick_def)
  next
    case (Cons u us)
    have head: "tl_head s = first_of (map fst ts) None" "tl_head s \<noteq> None" using t(2) Cons by (simp_all add: tlist_def)
    have "length (map fst ts) < Suc (tl_fresh s)" using tlist_length [OF t(2)] by simp
    from tick_loop_ok [OF this t(2), of cur "[]"]
    obtain s' where s': "tick cur s = Inr (map (snd \<circ> tdata s) (map fst (filter (\<lambda>u. deadline u \<le> cur) ts)), s')"
      "tlist s' (map fst (filter (\<lambda>u. cur < deadline u) ts))"
      "\<forall>b\<in>set (map fst (filter (\<lambda>u. cur < deadline u) ts)). tdata s' b = tdata s b" "tl_fresh s' = tl_fresh s"
      using head takeWhile_texp [OF t(3), of cur] sorted_due [OF t(4), of cur] by (auto simp: tick_def)
    have "map (snd \<circ> tdata s) (map fst (filter (\<lambda>u. deadline u \<le> cur) ts)) = map (snd \<circ> snd) (filter (\<lambda>u. deadline u \<le> cur) ts)"
      using t(3) by simp
    moreover have "timers s' (k, filter (\<lambda>u. cur < deadline u) ts)"
      using s'(2-4) t sorted_filter [of deadline ts] by (auto simp: timers_def)
    ultimately show ?thesis using s'(1) by simp
  qed
qed

interpretation lst_timer: timer_service timers tl_step
proof
  fix s st x
  assume rel: "timers s st" and ok: "op_allowed x st"
  obtain k ts where st: "st = (k, ts)" by force
  show "\<exists>s'. tl_step x s = Inr (fst (spec_step x st), s') \<and> timers s' (snd (spec_step x st))"
  proof (cases x)
    case (Start e d)
    then show ?thesis using start_refines rel st by simp
  next
    case (Postpone a e)
    then obtain e0 d where m: "map_of ts a = Some (e0, d)" "e0 \<le> e" using ok st by (auto split: option.splits)
    then show ?thesis using postpone_refines [OF rel [unfolded st] m] Postpone st by simp
  next
    case (Cancel a)
    then show ?thesis using cancel_refines [OF rel [unfolded st]] ok st by simp
  next
    case (Tick cur)
    then show ?thesis using tick_refines [OF rel [unfolded st], of cur] st by (auto simp del: tl_step.simps)
  qed
qed

lemma timers_init: "timers sort_timer_lst_init (0, [])"
  by (simp add: timers_def sort_timer_lst_init_def tlist_def)

text \<open>
  C25. The timer list works as an ordered list of deadlines. Every sequence of starting, postponing, cancelling
  and ticking that names live timers and only moves deadlines later runs without a null or
  dangling pointer, every loop returns, and the callbacks fire exactly as in the
  specification: at each tick those of all timers whose deadline has come, in the order of the
  deadlines, and no other.
\<close>

theorem timer_list_fires:
  assumes "ops_allowed ops (0, [])"
  shows "ops_run tl_step ops sort_timer_lst_init = Inr (spec_run ops (0, []))"
  using lst_timer.run_refines [OF timers_init assms] .

theorem timer_list_fires_witness:
  "ops_run tl_step [Start 15 7, Start 15 8, Start 20 9, Postpone 0 25, Tick 16, Cancel 2, Tick 30] sort_timer_lst_init =
     Inr [8, 7]"
  using timer_list_fires [of "[Start 15 7, Start 15 8, Start 20 9, Postpone 0 25, Tick 16, Cancel 2, Tick 30]"]
  by simp

end
