(* ===== verification/Sem_Guard.thy ===== *)
theory Sem_Guard
  imports Cxx_Prelude
begin

text \<open>
  The semaphore and mutex wrappers of TinyWebServer (\<open>class sem\<close>, \<open>class locker\<close>, lock/locker.h), and the
  discipline its two pools share: a list guarded by a mutex whose length is counted by a semaphore.
  One thread adds an element under the lock and posts afterwards; another one waits on the semaphore
  first and removes an element under the lock afterwards. The locale \<open>sem_guarded\<close> states the moves a pool
  makes on its list, its semaphore and the threads between the two halves, and derives what both pools
  rely on.
\<close>

section \<open>Wrappers\<close>

text \<open>\<open>sem_init\<close> returns \<open>0\<close> or fails, in which case the constructor throws.\<close>

definition sem_new :: "int \<Rightarrow> nat \<Rightarrow> nat res" where
  "sem_new sem_init_ret num = (if sem_init_ret \<noteq> 0 then Inl (Uncaught_Exception ''exception'') else Inr num)"

text \<open>\<open>wait\<close> returns when the count is positive (\<open>None\<close>: the caller is blocked).\<close>

definition sem_wait :: "nat \<Rightarrow> nat option" where
  "sem_wait n = (if n = 0 then None else Some (n - 1))"

definition sem_post :: "nat \<Rightarrow> nat" where
  "sem_post n = Suc n"

text \<open>A mutex is held or free; unlocking a free one is undefined.\<close>

definition lock :: "bool \<Rightarrow> bool res" where
  "lock held = (if held then Inl Self_Deadlock else Inr True)"

definition unlock :: "bool \<Rightarrow> bool res" where
  "unlock held = (if held then Inr False else Inl Double_Unlock)"

section \<open>The discipline\<close>

text \<open>
  What the discipline sees of a pool: the list, the count of the semaphore, the threads that have added
  an element and not posted yet, the threads that have passed the semaphore and not removed yet, and
  the elements added and removed so far.
\<close>

record 'a guard =
  g_items :: "'a list"
  g_count :: nat
  g_posting :: nat
  g_passed :: nat
  g_in :: "'a list"
  g_out :: "'a list"

inductive guard_step :: "'a guard \<Rightarrow> 'a guard \<Rightarrow> bool" where
  put: "guard_step g (g\<lparr>g_items := g_items g @ [x], g_posting := Suc (g_posting g), g_in := g_in g @ [x]\<rparr>)"
| posted: "0 < g_posting g \<Longrightarrow>
    guard_step g (g\<lparr>g_count := sem_post (g_count g), g_posting := g_posting g - 1\<rparr>)"
| pass: "sem_wait (g_count g) = Some n \<Longrightarrow>
    guard_step g (g\<lparr>g_count := n, g_passed := Suc (g_passed g)\<rparr>)"
| remove: "0 < g_passed g \<Longrightarrow> g_items g = x # xs \<Longrightarrow>
    guard_step g (g\<lparr>g_items := xs, g_passed := g_passed g - 1, g_out := g_out g @ [x]\<rparr>)"
| idle: "guard_step g g"

definition guard_inv :: "'a guard \<Rightarrow> bool" where
  "guard_inv g \<longleftrightarrow> g_count g + g_posting g + g_passed g = length (g_items g) \<and> g_in g = g_out g @ g_items g"

lemma guard_step_inv: "guard_step g g' \<Longrightarrow> guard_inv g \<Longrightarrow> guard_inv g'"
  by (induction rule: guard_step.induct) (auto simp: guard_inv_def sem_post_def sem_wait_def split: if_splits)

inductive reachable :: "('s \<Rightarrow> bool) \<Rightarrow> ('s \<Rightarrow> 's \<Rightarrow> bool) \<Rightarrow> 's \<Rightarrow> bool" for start move where
  first: "start s \<Longrightarrow> reachable start move s"
| more: "reachable start move s \<Longrightarrow> move s s' \<Longrightarrow> reachable start move s'"

locale sem_guarded =
  fixes view :: "'s \<Rightarrow> 'a guard"
    and start :: "'s \<Rightarrow> bool"
    and move :: "'s \<Rightarrow> 's \<Rightarrow> bool"
  assumes start_inv: "start s \<Longrightarrow> guard_inv (view s)"
    and move_step: "move s s' \<Longrightarrow> guard_inv (view s) \<Longrightarrow> guard_step (view s) (view s')"
begin

lemma reached_inv: "reachable start move s \<Longrightarrow> guard_inv (view s)"
  by (induction rule: reachable.induct) (auto intro: start_inv guard_step_inv move_step)

lemma reached_passed_nonempty: "reachable start move s \<Longrightarrow> 0 < g_passed (view s) \<Longrightarrow> g_items (view s) \<noteq> []"
  using reached_inv by (fastforce simp: guard_inv_def)

lemma reached_fifo: "reachable start move s \<Longrightarrow> g_in (view s) = g_out (view s) @ g_items (view s)"
  using reached_inv by (simp add: guard_inv_def)

lemma reached_wakeup:
  "reachable start move s \<Longrightarrow> g_posting (view s) = 0 \<Longrightarrow> g_passed (view s) = 0 \<Longrightarrow> g_count (view s) = length (g_items (view s))"
  using reached_inv [of s] by (simp add: guard_inv_def)

end

end
