(* ===== verification/Web_Pools.thy ===== *)
theory Web_Pools
  imports Sem_Guard "HOL-Library.Word"
begin

text \<open>
  The two pools of TinyWebServer: \<open>class threadpool\<close> (threadpool/threadpool.h), a queue of requests served by
  worker threads, and \<open>class connection_pool\<close> (CGImysql/sql_connection_pool.cpp), the database connections. The
  threads around them are step relations at the granularity of the critical sections.
\<close>

section \<open>The pool of worker threads\<close>

text \<open>A request is a pointer, possibly null.\<close>

record 'r threadpool =
  m_thread_number :: int
  m_max_requests :: int
  m_workqueue :: "'r option list"
  m_queuestat :: nat
  m_stop :: bool

text \<open>
  The constructor, given the results of \<open>pthread_create\<close> and \<open>pthread_detach\<close> for each thread.
\<close>

definition threadpool_new :: "(int \<times> int) list \<Rightarrow> int \<Rightarrow> int \<Rightarrow> 'r threadpool res" where
  "threadpool_new rets thread_number max_requests =
     (if thread_number \<le> 0 \<or> max_requests \<le> 0 then Inl (Uncaught_Exception ''exception'')
      else if \<forall>(created, detached) \<in> set (take (nat thread_number) rets). created = 0 \<and> detached = 0
      then Inr \<lparr>m_thread_number = thread_number, m_max_requests = max_requests, m_workqueue = [],
                m_queuestat = 0, m_stop = False\<rparr>
      else Inl (Uncaught_Exception ''exception''))"

text \<open>The critical section of \<open>append\<close>; the semaphore is posted after it.\<close>

definition append_locked :: "'r option \<Rightarrow> 'r threadpool \<Rightarrow> bool \<times> 'r threadpool" where
  "append_locked request p =
     (if int (length (m_workqueue p)) > m_max_requests p then (False, p)
      else (True, p\<lparr>m_workqueue := m_workqueue p @ [request]\<rparr>))"

text \<open>The critical section of \<open>run\<close>: \<open>None\<close> when the queue is empty and the loop goes on.\<close>

definition run_locked :: "'r threadpool \<Rightarrow> 'r option option \<times> 'r threadpool" where
  "run_locked p =
     (case m_workqueue p of
        [] \<Rightarrow> (None, p)
      | request # rest \<Rightarrow> (Some request, p\<lparr>m_workqueue := rest\<rparr>))"

text \<open>
  The threads: \<open>appending\<close> have left the critical section and not posted, \<open>awake\<close> have passed
  \<open>wait\<close> and not entered it; \<open>served\<close> are the requests workers have taken.
\<close>

record 'r tp_sys =
  tp :: "'r threadpool"
  appending :: nat
  awake :: nat
  accepted :: "'r option list"
  served :: "'r option list"

inductive tp_move :: "'r tp_sys \<Rightarrow> 'r tp_sys \<Rightarrow> bool" where
  append_ok: "append_locked request (tp s) = (True, p) \<Longrightarrow>
    tp_move s (s\<lparr>tp := p, appending := Suc (appending s), accepted := accepted s @ [request]\<rparr>)"
| append_full: "append_locked request (tp s) = (False, p) \<Longrightarrow> tp_move s (s\<lparr>tp := p\<rparr>)"
| append_post: "0 < appending s \<Longrightarrow>
    tp_move s (s\<lparr>tp := (tp s)\<lparr>m_queuestat := sem_post (m_queuestat (tp s))\<rparr>, appending := appending s - 1\<rparr>)"
| run_wait: "\<not> m_stop (tp s) \<Longrightarrow> sem_wait (m_queuestat (tp s)) = Some n \<Longrightarrow>
    tp_move s (s\<lparr>tp := (tp s)\<lparr>m_queuestat := n\<rparr>, awake := Suc (awake s)\<rparr>)"
| run_empty: "0 < awake s \<Longrightarrow> run_locked (tp s) = (None, p) \<Longrightarrow>
    tp_move s (s\<lparr>tp := p, awake := awake s - 1\<rparr>)"
| run_take: "0 < awake s \<Longrightarrow> run_locked (tp s) = (Some request, p) \<Longrightarrow>
    tp_move s (s\<lparr>tp := p, awake := awake s - 1, served := served s @ [request]\<rparr>)"
| shut_down: "tp_move s (s\<lparr>tp := (tp s)\<lparr>m_stop := True\<rparr>\<rparr>)"

definition tp_start :: "int \<Rightarrow> 'r tp_sys \<Rightarrow> bool" where
  "tp_start max_requests s \<longleftrightarrow>
     (\<exists>rets thread_number. threadpool_new rets thread_number max_requests = Inr (tp s))
     \<and> appending s = 0 \<and> awake s = 0 \<and> accepted s = [] \<and> served s = []"

definition tp_view :: "'r tp_sys \<Rightarrow> 'r option guard" where
  "tp_view s = \<lparr>g_items = m_workqueue (tp s), g_count = m_queuestat (tp s), g_posting = appending s,
     g_passed = awake s, g_in = accepted s, g_out = served s\<rparr>"

lemma tp_start_fields:
  assumes "tp_start k s"
  shows "m_workqueue (tp s) = []" "m_queuestat (tp s) = 0" "m_max_requests (tp s) = k" "0 < k"
    "appending s = 0" "awake s = 0" "accepted s = []" "served s = []"
  using assms by (auto simp: tp_start_def threadpool_new_def dest!: sym [of _ "tp s"] split: if_splits)

interpretation tpool: sem_guarded tp_view "tp_start max_requests" tp_move
proof
  show "guard_inv (tp_view s)" if "tp_start max_requests s" for s
    using tp_start_fields [OF that] by (simp add: tp_view_def guard_inv_def)
next
  fix s s' :: "'b tp_sys"
  assume m: "tp_move s s'" and inv: "guard_inv (tp_view s)"
  show "guard_step (tp_view s) (tp_view s')"
    using m
  proof cases
    case (append_ok request p)
    then show ?thesis using guard_step.put [of "tp_view s" request]
      by (auto simp: append_locked_def tp_view_def split: if_splits)
  next
    case (append_full request p)
    then show ?thesis using guard_step.idle [of "tp_view s"] by (auto simp: append_locked_def tp_view_def split: if_splits)
  next
    case append_post
    then show ?thesis using guard_step.posted [of "tp_view s"] by (simp add: tp_view_def)
  next
    case (run_wait n)
    then show ?thesis using guard_step.pass [of "tp_view s" n] by (simp add: tp_view_def)
  next
    case (run_empty p)
    then show ?thesis using inv by (auto simp: run_locked_def tp_view_def guard_inv_def split: list.splits)
  next
    case (run_take request p)
    then show ?thesis using guard_step.remove [of "tp_view s" request]
      by (auto simp: run_locked_def tp_view_def split: list.splits)
  next
    case shut_down
    then show ?thesis using guard_step.idle [of "tp_view s"] by (simp add: tp_view_def)
  qed
qed

lemma tp_queue_bound:
  "reachable (tp_start k) tp_move s \<Longrightarrow> int (length (m_workqueue (tp s))) \<le> k + 1 \<and> m_max_requests (tp s) = k"
proof (induction rule: reachable.induct)
  case (first s)
  then show ?case using tp_start_fields [OF first] by simp
next
  case (more s s')
  from more(2,3) show ?case
    by cases (auto simp: append_locked_def run_locked_def split: if_splits list.splits)
qed

text \<open>
  C28. The worker pool loses no request and wakes a worker for each. In every interleaving of appending
  threads and workers, the requests taken by workers followed by the queue are the requests accepted, in
  order; a worker that has passed the semaphore finds a request, so the branch for an empty queue is
  never taken; when no thread is between its two steps the semaphore counts the queue, so no worker
  sleeps while a request waits; and at most one request more than \<open>max_requests\<close> is queued.
\<close>

theorem threadpool_serves:
  assumes "reachable (tp_start max_requests) tp_move s"
  shows "accepted s = served s @ m_workqueue (tp s)
    \<and> (0 < awake s \<longrightarrow> m_workqueue (tp s) \<noteq> [])
    \<and> (appending s = 0 \<and> awake s = 0 \<longrightarrow> m_queuestat (tp s) = length (m_workqueue (tp s)))
    \<and> int (length (m_workqueue (tp s))) \<le> max_requests + 1"
  using tpool.reached_fifo [OF assms] tpool.reached_passed_nonempty [OF assms] tpool.reached_wakeup [OF assms]
    tp_queue_bound [OF assms] by (simp add: tp_view_def)

text \<open>Two requests are queued although \<open>max_requests\<close> is 1.\<close>

definition tp_two :: "nat tp_sys" where
  "tp_two = \<lparr>tp = \<lparr>m_thread_number = 8, m_max_requests = 1, m_workqueue = [Some 7, Some 8], m_queuestat = 0, m_stop = False\<rparr>,
     appending = 2, awake = 0, accepted = [Some 7, Some 8], served = []\<rparr>"

theorem threadpool_serves_witness:
  "reachable (tp_start 1) tp_move tp_two \<and> accepted tp_two = served tp_two @ m_workqueue (tp tp_two)
   \<and> int (length (m_workqueue (tp tp_two))) = 1 + 1"
proof -
  define p :: "nat threadpool" where
    "p = \<lparr>m_thread_number = 8, m_max_requests = 1, m_workqueue = [], m_queuestat = 0, m_stop = False\<rparr>"
  define s0 where "s0 = \<lparr>tp = p, appending = 0, awake = 0, accepted = [], served = []\<rparr>"
  define s1 where "s1 = s0\<lparr>tp := p\<lparr>m_workqueue := [Some 7]\<rparr>, appending := 1, accepted := [Some 7]\<rparr>"
  have "threadpool_new (replicate 8 (0, 0)) 8 1 = Inr p" by (simp add: threadpool_new_def p_def)
  then have "tp_start 1 s0" unfolding tp_start_def s0_def by auto
  then have r0: "reachable (tp_start 1) tp_move s0" by (rule reachable.first)
  have "tp_move s0 s1"
    using tp_move.append_ok [of "Some 7" s0] by (simp add: append_locked_def s0_def s1_def p_def)
  with r0 have r1: "reachable (tp_start 1) tp_move s1" by (rule reachable.more)
  have "tp_move s1 tp_two"
    using tp_move.append_ok [of "Some 8" s1] by (simp add: append_locked_def s0_def s1_def p_def tp_two_def numeral_2_eq_2)
  with r1 have r2: "reachable (tp_start 1) tp_move tp_two" by (rule reachable.more)
  then show ?thesis using threadpool_serves [OF r2] by (simp add: tp_two_def)
qed

section \<open>The pool of database connections\<close>

text \<open>
  Connections are handles; the counters are \<open>unsigned int\<close>. \<open>conn_held\<close> is the mutex \<open>lock\<close>. \<open>Port\<close> is a
  \<open>string\<close> to which the constructor argument, an \<open>int\<close>, is assigned: the assignment keeps one character.
\<close>

record connection_pool =
  MaxConn :: "32 word"
  CurConn :: "32 word"
  FreeConn :: "32 word"
  conn_held :: bool
  connList :: "nat list"
  conn_reserve :: nat
  conn_url :: string
  conn_Port :: string
  conn_User :: string
  conn_PassWord :: string
  conn_DatabaseName :: string

definition connection_pool_new :: connection_pool where
  "connection_pool_new = \<lparr>MaxConn = 0, CurConn = 0, FreeConn = 0, conn_held = False, connList = [],
     conn_reserve = 0, conn_url = [], conn_Port = [], conn_User = [], conn_PassWord = [], conn_DatabaseName = []\<rparr>"

text \<open>The loop of \<open>init\<close>: \<open>None\<close> is a failed \<open>mysql_init\<close> or \<open>mysql_real_connect\<close>, which ends the process.\<close>

fun connect_loop :: "nat option list \<Rightarrow> connection_pool \<Rightarrow> connection_pool res" where
  "connect_loop [] p = Inr p"
| "connect_loop (con # cons) p =
     (case con of
        None \<Rightarrow> Inl Process_Exit
      | Some h \<Rightarrow> connect_loop cons (p\<lparr>connList := connList p @ [h], FreeConn := FreeConn p + 1\<rparr>))"

definition pool_init ::
  "string \<Rightarrow> string \<Rightarrow> string \<Rightarrow> string \<Rightarrow> int \<Rightarrow> nat option list \<Rightarrow> connection_pool \<Rightarrow> connection_pool res" where
  "pool_init url User PassWord DBName port cons p =
     (let p0 = p\<lparr>conn_url := url, conn_Port := [char_of (nat (port mod 256))], conn_User := User,
                 conn_PassWord := PassWord, conn_DatabaseName := DBName\<rparr> in
      bind_res (lock (conn_held p0)) (\<lambda>held.
      bind_res (connect_loop cons (p0\<lparr>conn_held := held\<rparr>)) (\<lambda>p1.
      bind_res (sem_new 0 (unat (FreeConn p1))) (\<lambda>n.
      bind_res (unlock (conn_held p1)) (\<lambda>held2.
      Inr (p1\<lparr>conn_reserve := n, MaxConn := FreeConn p1, conn_held := held2\<rparr>))))))"

text \<open>
  \<open>GetConnection\<close>: the test for an empty list is outside the lock; then the thread waits on the semaphore,
  then it takes the first connection under the lock.
\<close>

definition get_empty :: "connection_pool \<Rightarrow> bool" where
  "get_empty p = (length (connList p) = 0)"

definition get_locked :: "connection_pool \<Rightarrow> (nat \<times> connection_pool) res" where
  "get_locked p =
     (case connList p of
        [] \<Rightarrow> Inl Out_Of_Bounds
      | con # rest \<Rightarrow> Inr (con, p\<lparr>connList := rest, FreeConn := FreeConn p - 1, CurConn := CurConn p + 1\<rparr>))"

text \<open>The critical section of \<open>ReleaseConnection\<close>; the semaphore is posted after it.\<close>

definition release_locked :: "nat option \<Rightarrow> connection_pool \<Rightarrow> bool \<times> connection_pool" where
  "release_locked con p =
     (case con of
        None \<Rightarrow> (False, p)
      | Some h \<Rightarrow> (True, p\<lparr>connList := connList p @ [h], FreeConn := FreeConn p + 1, CurConn := CurConn p - 1\<rparr>))"

definition GetFreeConn :: "connection_pool \<Rightarrow> int" where
  "GetFreeConn p = sint (FreeConn p)"

definition DestroyPool :: "connection_pool \<Rightarrow> (nat list \<times> connection_pool) res" where
  "DestroyPool p =
     bind_res (lock (conn_held p)) (\<lambda>held.
     bind_res (if 0 < length (connList p)
               then bind_res (unlock held) (\<lambda>held1.
                 Inr (connList p, p\<lparr>CurConn := 0, FreeConn := 0, connList := [], conn_held := held1\<rparr>))
               else Inr ([], p\<lparr>conn_held := held\<rparr>)) (\<lambda>(closed, p1).
     bind_res (unlock (conn_held p1)) (\<lambda>held2. Inr (closed, p1\<lparr>conn_held := held2\<rparr>))))"

text \<open>The threads: \<open>checked\<close> have seen a list that is not empty, \<open>granted\<close> have passed the semaphore.\<close>

record cp_sys =
  cp :: connection_pool
  checked :: nat
  granted :: nat
  releasing :: nat
  in_use :: "nat list"
  given_back :: "nat list"
  handed_out :: "nat list"

inductive cp_move :: "cp_sys \<Rightarrow> cp_sys \<Rightarrow> bool" where
  get_null: "get_empty (cp s) \<Longrightarrow> cp_move s s"
| get_check: "\<not> get_empty (cp s) \<Longrightarrow> cp_move s (s\<lparr>checked := Suc (checked s)\<rparr>)"
| get_wait: "0 < checked s \<Longrightarrow> sem_wait (conn_reserve (cp s)) = Some n \<Longrightarrow>
    cp_move s (s\<lparr>cp := (cp s)\<lparr>conn_reserve := n\<rparr>, checked := checked s - 1, granted := Suc (granted s)\<rparr>)"
| get_take: "0 < granted s \<Longrightarrow> get_locked (cp s) = Inr (con, p) \<Longrightarrow>
    cp_move s (s\<lparr>cp := p, granted := granted s - 1, in_use := con # in_use s, handed_out := handed_out s @ [con]\<rparr>)"
| release: "con \<in> set (in_use s) \<Longrightarrow> release_locked (Some con) (cp s) = (True, p) \<Longrightarrow>
    cp_move s (s\<lparr>cp := p, releasing := Suc (releasing s), in_use := remove1 con (in_use s),
                 given_back := given_back s @ [con]\<rparr>)"
| release_null: "release_locked None (cp s) = (False, p) \<Longrightarrow> cp_move s (s\<lparr>cp := p\<rparr>)"
| release_post: "0 < releasing s \<Longrightarrow>
    cp_move s (s\<lparr>cp := (cp s)\<lparr>conn_reserve := sem_post (conn_reserve (cp s))\<rparr>, releasing := releasing s - 1\<rparr>)"

definition cp_start :: "nat list \<Rightarrow> cp_sys \<Rightarrow> bool" where
  "cp_start hs s \<longleftrightarrow> length hs < 2 ^ 32 \<and>
     (\<exists>url usr pass db port. pool_init url usr pass db port (map Some hs) connection_pool_new = Inr (cp s))
     \<and> checked s = 0 \<and> granted s = 0 \<and> releasing s = 0 \<and> in_use s = [] \<and> given_back s = hs \<and> handed_out s = []"

definition cp_view :: "cp_sys \<Rightarrow> nat guard" where
  "cp_view s = \<lparr>g_items = connList (cp s), g_count = conn_reserve (cp s), g_posting = releasing s,
     g_passed = granted s, g_in = given_back s, g_out = handed_out s\<rparr>"

lemma connect_loop_ok:
  "connect_loop (map Some hs) p =
     Inr (p\<lparr>connList := connList p @ hs, FreeConn := FreeConn p + of_nat (length hs)\<rparr>)"
  by (induction hs arbitrary: p) (simp_all add: algebra_simps)

lemma unat_small: "n < 2 ^ 32 \<Longrightarrow> unat (of_nat n :: 32 word) = n"
  by (simp add: unsigned_of_nat take_bit_nat_eq_self)

lemma cp_start_fields:
  assumes "cp_start hs s"
  shows "connList (cp s) = hs" "conn_reserve (cp s) = length hs" "FreeConn (cp s) = of_nat (length hs)"
    "CurConn (cp s) = 0" "\<not> conn_held (cp s)" "granted s = 0" "releasing s = 0" "in_use s = []"
    "given_back s = hs" "handed_out s = []"
  using assms
  by (auto simp: cp_start_def pool_init_def Let_def connect_loop_ok connection_pool_new_def lock_def unlock_def
      sem_new_def unat_small dest!: sym [of _ "cp s"])

interpretation cpool: sem_guarded cp_view "cp_start hs" cp_move
proof
  show "guard_inv (cp_view s)" if "cp_start hs s" for s
    using cp_start_fields [OF that] by (simp add: cp_view_def guard_inv_def)
next
  fix s s' :: cp_sys
  assume m: "cp_move s s'" and inv: "guard_inv (cp_view s)"
  show "guard_step (cp_view s) (cp_view s')"
    using m
  proof cases
    case get_null
    then show ?thesis using guard_step.idle by simp
  next
    case get_check
    then show ?thesis using guard_step.idle [of "cp_view s"] by (simp add: cp_view_def)
  next
    case (get_wait n)
    then show ?thesis using guard_step.pass [of "cp_view s" n] by (simp add: cp_view_def)
  next
    case (get_take con p)
    then show ?thesis using guard_step.remove [of "cp_view s" con]
      by (auto simp: get_locked_def cp_view_def split: list.splits)
  next
    case (release con p)
    then show ?thesis using guard_step.put [of "cp_view s" con] by (auto simp: release_locked_def cp_view_def)
  next
    case (release_null p)
    then show ?thesis using guard_step.idle [of "cp_view s"] by (auto simp: release_locked_def cp_view_def)
  next
    case release_post
    then show ?thesis using guard_step.posted [of "cp_view s"] by (simp add: cp_view_def)
  qed
qed

lemma cp_conserved:
  "reachable (cp_start hs) cp_move s \<Longrightarrow>
   mset (connList (cp s)) + mset (in_use s) = mset hs
   \<and> FreeConn (cp s) = of_nat (length (connList (cp s))) \<and> CurConn (cp s) = of_nat (length (in_use s))
   \<and> \<not> conn_held (cp s) \<and> length hs < 2 ^ 32"
proof (induction rule: reachable.induct)
  case (first s)
  then show ?case using cp_start_fields [OF first] by (simp add: cp_start_def)
next
  case (more s s')
  from more(2,3) show ?case
  proof cases
    case (get_take con p)
    then show ?thesis using more(3) by (auto simp: get_locked_def split: list.splits)
  next
    case (release con p)
    then obtain us vs where "in_use s = us @ con # vs" "con \<notin> set us" by (meson split_list_first)
    then show ?thesis using release more(3) by (auto simp: release_locked_def remove1_append)
  qed (auto simp: release_locked_def)
qed

text \<open>
  C29. The connection pool hands out every connection to one thread at a time. In every interleaving the connections
  in the list and in use are together those opened by \<open>init\<close>, the two counters count them, a thread that has
  passed the semaphore finds a connection (\<open>connList.front()\<close> is never called on an empty list), and a
  caller gets a null connection only when all of them are in use. Destroying a pool that is not empty
  unlocks its mutex twice.
\<close>

theorem connection_pool_conserves:
  assumes "reachable (cp_start hs) cp_move s" and "distinct hs"
  shows "mset (connList (cp s)) + mset (in_use s) = mset hs
    \<and> distinct (connList (cp s) @ in_use s)
    \<and> unat (FreeConn (cp s)) = length (connList (cp s)) \<and> unat (CurConn (cp s)) = length (in_use s)
    \<and> (0 < granted s \<longrightarrow> (\<exists>r. get_locked (cp s) = Inr r))
    \<and> (get_empty (cp s) \<longrightarrow> length (in_use s) = length hs)
    \<and> (connList (cp s) \<noteq> [] \<longrightarrow> DestroyPool (cp s) = Inl Double_Unlock)"
proof -
  note c = cp_conserved [OF assms(1)]
  have eq: "mset (connList (cp s) @ in_use s) = mset hs" using c by simp
  then have d: "distinct (connList (cp s) @ in_use s)" using assms(2) by (metis mset_eq_imp_distinct_iff)
  have len: "length (connList (cp s)) + length (in_use s) = length hs" using mset_eq_length [OF eq] by simp
  then have small: "length (connList (cp s)) < 2 ^ 32" "length (in_use s) < 2 ^ 32" using c by simp_all
  have "0 < granted s \<longrightarrow> connList (cp s) \<noteq> []"
    using cpool.reached_passed_nonempty [OF assms(1)] by (simp add: cp_view_def)
  then have "0 < granted s \<longrightarrow> (\<exists>r. get_locked (cp s) = Inr r)"
    by (auto simp: get_locked_def split: list.split)
  moreover have "connList (cp s) \<noteq> [] \<longrightarrow> DestroyPool (cp s) = Inl Double_Unlock"
    using c by (simp add: DestroyPool_def lock_def unlock_def)
  moreover have "get_empty (cp s) \<longrightarrow> length (in_use s) = length hs" using len by (auto simp: get_empty_def)
  ultimately show ?thesis using c d small unat_small by (simp add: get_empty_def)
qed

theorem connection_pool_conserves_witness:
  "\<exists>s. reachable (cp_start [3, 4]) cp_move s \<and> connList (cp s) = [3, 4] \<and> unat (FreeConn (cp s)) = 2
     \<and> DestroyPool (cp s) = Inl Double_Unlock"
proof -
  obtain p where p: "pool_init ''localhost'' ''u'' ''p'' ''db'' 3306 (map Some [3, 4]) connection_pool_new = Inr p"
    "connList p = [3, 4]"
    by (simp add: pool_init_def Let_def connection_pool_new_def lock_def unlock_def sem_new_def)
  define s where "s = \<lparr>cp = p, checked = 0, granted = 0, releasing = 0, in_use = [], given_back = [3, 4], handed_out = []\<rparr>"
  have "\<exists>url usr pass db port. pool_init url usr pass db port (map Some [3, 4]) connection_pool_new = Inr p"
    using p(1) by blast
  then have "cp_start [3, 4] s" unfolding cp_start_def s_def by simp
  then have r: "reachable (cp_start [3, 4]) cp_move s" by (rule reachable.first)
  have "connList (cp s) = [3, 4]" using p(2) by (simp add: s_def)
  then show ?thesis using connection_pool_conserves [OF r] r by (intro exI [of _ s]) simp
qed

end
