(* ===== verification/Web_Server.thy ===== *)
theory Web_Server
  imports Http_Reply Timer_List Web_Pools
begin

text \<open>
  The event loop of TinyWebServer (main.c): the array of connections, the array of client data with the
  timers, the timer list, the queue of the worker threads and the epoll instance. Every event carries the
  answers of the system calls its handler makes. A worker takes a request, parses it and prepares the reply, and closes a connection it cannot answer in
  stages that interleave with the events: the descriptor leaves epoll, the user counter is read, and it is written, without a lock.
\<close>

section \<open>State\<close>

definition MAX_FD :: nat where "MAX_FD = 65536"

definition TIMESLOT :: int where "TIMESLOT = 5"

record client_data =
  cd_address :: string
  cd_sockfd :: int
  cd_timer :: addr

text \<open>\<open>new client_data[MAX_FD]\<close> initialises nothing: \<open>None\<close> is an element that was never assigned.\<close>

record web_server =
  srv_users :: "nat \<Rightarrow> http_conn"
  users_timer :: "nat \<Rightarrow> client_data option"
  timer_lst :: sort_timer_lst
  srv_pool :: "nat threadpool"
  srv_static :: http_static
  srv_log :: "(int \<times> string) list"
  srv_sent :: "(int \<times> string) list"
  timeout :: bool
  stop_server :: bool
  srv_clock :: int
  srv_alarms :: "int list"

record server_fds =
  listenfd :: int
  pipefd0 :: int

record srv_event =
  ev_fd :: int
  ev_flags :: "ep_flag list"
  ans_accept :: "int \<times> string"
  ans_recv :: recv_result
  ans_writev :: "writev_result list"
  ans_signals :: "int list option"
  ans_time :: int

definition log_info :: "string \<Rightarrow> web_server \<Rightarrow> web_server" where
  "log_info m s = s\<lparr>srv_log := srv_log s @ [(1, m)]\<rparr>"

definition log_error :: "string \<Rightarrow> web_server \<Rightarrow> web_server" where
  "log_error m s = s\<lparr>srv_log := srv_log s @ [(3, m)]\<rparr>"

section \<open>Handlers\<close>

definition cb_func :: "nat \<Rightarrow> web_server \<Rightarrow> web_server res" where
  "cb_func user_data s =
     (case users_timer s user_data of
        None \<Rightarrow> Inl Uninit_Read
      | Some cd \<Rightarrow>
          (let g = record_op (Close_Fd (cd_sockfd cd)) (record_op (Epoll_Del (cd_sockfd cd)) (srv_static s)) in
           Inr (log_info (''close fd '' @ to_string (cd_sockfd cd))
                  (s\<lparr>srv_static := g\<lparr>m_user_count := m_user_count g - 1\<rparr>\<rparr>))))"

fun cb_all :: "nat list \<Rightarrow> web_server \<Rightarrow> web_server res" where
  "cb_all [] s = Inr s"
| "cb_all (d # ds) s = bind_res (cb_func d s) (cb_all ds)"

text \<open>
  \<open>tick\<close> runs the callbacks of the due timers; they do not touch the list. Then \<open>alarm\<close> is set again; its
  calls are recorded in \<open>srv_alarms\<close>.
\<close>

definition timer_handler :: "int \<Rightarrow> web_server \<Rightarrow> web_server res" where
  "timer_handler cur s =
     bind_res (tick cur (timer_lst s)) (\<lambda>(fired, tl).
     bind_res (cb_all fired ((if tl_head (timer_lst s) = None then s else log_info ''timer tick'' s)\<lparr>timer_lst := tl, srv_clock := cur\<rparr>)) (\<lambda>s1.
     Inr (s1\<lparr>srv_alarms := srv_alarms s1 @ [TIMESLOT]\<rparr>)))"

definition show_error :: "int \<Rightarrow> string \<Rightarrow> web_server \<Rightarrow> web_server" where
  "show_error connfd info s =
     s\<lparr>srv_sent := srv_sent s @ [(connfd, info)], srv_static := record_op (Close_Fd connfd) (srv_static s)\<rparr>"

definition on_accept :: "srv_event \<Rightarrow> web_server \<Rightarrow> web_server res" where
  "on_accept e s =
     (case ans_accept e of (connfd, peer) \<Rightarrow>
      if connfd < 0 then Inr (log_error ''accept error'' s)
      else if m_user_count (srv_static s) \<ge> int MAX_FD then
        Inr (log_error ''Internal server busy'' (show_error connfd ''Internal server busy'' s))
      else if int MAX_FD \<le> connfd then Inl Out_Of_Bounds
      else
        (let i = nat connfd;
             (c, g) = conn_init connfd (srv_users s i) (srv_static s);
             (timer, tl) = new_timer (ans_time e + 3 * TIMESLOT) i (timer_lst s) in
         bind_res (add_timer (Some timer) tl) (\<lambda>tl1.
         Inr (s\<lparr>srv_users := (srv_users s)(i := c), srv_static := g,
                users_timer := (users_timer s)(i \<mapsto> \<lparr>cd_address = peer, cd_sockfd = connfd, cd_timer = timer\<rparr>),
                timer_lst := tl1, srv_clock := ans_time e\<rparr>))))"

text \<open>The loop of the edge-triggered build, with the answers of its \<open>accept\<close> calls.\<close>

fun on_accept_et :: "(int \<times> string) list \<Rightarrow> srv_event \<Rightarrow> web_server \<Rightarrow> web_server res" where
  "on_accept_et [] e s = Inl No_Return"
| "on_accept_et (a # as) e s =
     (if fst a < 0 \<or> m_user_count (srv_static s) \<ge> int MAX_FD then on_accept (e\<lparr>ans_accept := a\<rparr>) s
      else bind_res (on_accept (e\<lparr>ans_accept := a\<rparr>) s) (on_accept_et as e))"

text \<open>The end of a connection: the callback of its timer, then the timer leaves the list.\<close>

definition client_of :: "int \<Rightarrow> web_server \<Rightarrow> client_data res" where
  "client_of sockfd s =
     (if 0 \<le> sockfd \<and> sockfd < int MAX_FD
      then case users_timer s (nat sockfd) of None \<Rightarrow> Inl Uninit_Read | Some cd \<Rightarrow> Inr cd
      else Inl Out_Of_Bounds)"

definition drop_client :: "addr \<Rightarrow> nat \<Rightarrow> web_server \<Rightarrow> web_server res" where
  "drop_client timer i s =
     bind_res (tderef (timer_lst s) (Some timer)) (\<lambda>_.
     bind_res (cb_func i s) (\<lambda>s1.
     bind_res (del_timer (Some timer) (timer_lst s1)) (\<lambda>tl. Inr (s1\<lparr>timer_lst := tl\<rparr>))))"

definition on_hup :: "srv_event \<Rightarrow> web_server \<Rightarrow> web_server res" where
  "on_hup e s = bind_res (client_of (ev_fd e) s) (\<lambda>cd. drop_client (cd_timer cd) (nat (ev_fd e)) s)"

definition SIGALRM :: int where "SIGALRM = 14"
definition SIGTERM :: int where "SIGTERM = 15"

definition on_signal :: "srv_event \<Rightarrow> web_server \<Rightarrow> web_server res" where
  "on_signal e s =
     Inr (case ans_signals e of
            None \<Rightarrow> s
          | Some sigs \<Rightarrow>
              s\<lparr>timeout := (timeout s \<or> SIGALRM \<in> set sigs), stop_server := (stop_server s \<or> SIGTERM \<in> set sigs)\<rparr>)"

definition keep_client :: "addr \<Rightarrow> int \<Rightarrow> web_server \<Rightarrow> web_server res" where
  "keep_client timer cur s =
     bind_res (postpone_timer timer (cur + 3 * TIMESLOT) (timer_lst s)) (\<lambda>tl.
     Inr ((log_info ''adjust timer once'' s)\<lparr>timer_lst := tl, srv_clock := cur\<rparr>))"

text \<open>\<open>append\<close>: the critical section, then the semaphore.\<close>

definition append_request :: "nat \<Rightarrow> nat threadpool \<Rightarrow> nat threadpool" where
  "append_request i p =
     (case append_locked (Some i) p of (ok, p1) \<Rightarrow> if ok then p1\<lparr>m_queuestat := sem_post (m_queuestat p1)\<rparr> else p1)"

definition on_read :: "srv_event \<Rightarrow> web_server \<Rightarrow> web_server res" where
  "on_read e s =
     bind_res (client_of (ev_fd e) s) (\<lambda>cd.
     (let i = nat (ev_fd e) in
      bind_res (read_once (ans_recv e) (srv_users s i)) (\<lambda>(ok, c).
      (let s1 = s\<lparr>srv_users := (srv_users s)(i := c)\<rparr> in
       if ok then
         keep_client (cd_timer cd) (ans_time e)
           ((log_info (''deal with the client('' @ cd_address cd @ '')'') s1)\<lparr>srv_pool := append_request i (srv_pool s1)\<rparr>)
       else drop_client (cd_timer cd) i s1))))"

definition on_write :: "srv_event \<Rightarrow> web_server \<Rightarrow> web_server res" where
  "on_write e s =
     bind_res (client_of (ev_fd e) s) (\<lambda>cd.
     (let i = nat (ev_fd e) in
      bind_res (http_write (ans_writev e) (srv_users s i) (srv_static s)) (\<lambda>(ok, sent, c, g).
      (let s1 = s\<lparr>srv_users := (srv_users s)(i := c), srv_static := g, srv_sent := srv_sent s @ [(ev_fd e, sent)]\<rparr> in
       case ok of
         None \<Rightarrow> Inl No_Return
       | Some True \<Rightarrow>
           keep_client (cd_timer cd) (ans_time e) (log_info (''send data to the client('' @ cd_address cd @ '')'') s1)
       | Some False \<Rightarrow> drop_client (cd_timer cd) i s1))))"

definition handle_event :: "server_fds \<Rightarrow> srv_event \<Rightarrow> web_server \<Rightarrow> web_server res" where
  "handle_event fds e s =
     (if ev_fd e = listenfd fds then on_accept e s
      else if EPOLLRDHUP \<in> set (ev_flags e) \<or> EPOLLHUP \<in> set (ev_flags e) \<or> EPOLLERR \<in> set (ev_flags e) then on_hup e s
      else if ev_fd e = pipefd0 fds \<and> EPOLLIN \<in> set (ev_flags e) then on_signal e s
      else if EPOLLIN \<in> set (ev_flags e) then on_read e s
      else if EPOLLOUT \<in> set (ev_flags e) then on_write e s
      else Inr s)"

section \<open>The loop\<close>

text \<open>One answer of \<open>epoll_wait\<close>: a failure other than \<open>EINTR\<close>, or events and the time after them.\<close>

datatype epoll_answer = Epoll_Failure | Epoll_Events "srv_event list" int

fun handle_events :: "server_fds \<Rightarrow> srv_event list \<Rightarrow> web_server \<Rightarrow> web_server res" where
  "handle_events fds [] s = Inr s"
| "handle_events fds (e # es) s = bind_res (handle_event fds e s) (handle_events fds es)"

definition end_round :: "int \<Rightarrow> web_server \<Rightarrow> web_server res" where
  "end_round cur s =
     (if timeout s then bind_res (timer_handler cur s) (\<lambda>s1. Inr (s1\<lparr>timeout := False\<rparr>)) else Inr s)"

fun serve :: "server_fds \<Rightarrow> epoll_answer list \<Rightarrow> web_server \<Rightarrow> web_server res" where
  "serve fds [] s = Inr s"
| "serve fds (Epoll_Failure # rs) s = Inr (if stop_server s then s else log_error ''epoll failure'' s)"
| "serve fds (Epoll_Events es cur # rs) s =
     (if stop_server s then Inr s
      else bind_res (handle_events fds es s) (\<lambda>s1. bind_res (end_round cur s1) (serve fds rs)))"

section \<open>The workers\<close>

text \<open>
  Where a worker stands that has taken the request of connection \<open>i\<close>: before \<open>process\<close>, with the database
  connection it was given; in \<open>close_conn\<close> before the descriptor is removed, before \<open>m_user_count\<close> is read and before
  the value read, less one, is written back; and before the last \<open>modfd\<close> of \<open>process\<close>.
\<close>

datatype worker_stage = Parsing nat "nat option" | Closing nat | Counting nat | Counted nat int | Finishing nat

text \<open>A worker gets past the semaphore and takes a request, if there is one; \<open>None\<close> when it has to wait.\<close>

definition worker_take :: "nat option \<Rightarrow> web_server \<Rightarrow> (web_server \<times> worker_stage list) option" where
  "worker_take con s =
     (case sem_wait (m_queuestat (srv_pool s)) of
        None \<Rightarrow> None
      | Some n \<Rightarrow>
          (case run_locked ((srv_pool s)\<lparr>m_queuestat := n\<rparr>) of
             (Some (Some i), p) \<Rightarrow> Some (s\<lparr>srv_pool := p\<rparr>, [Parsing i con])
           | (_, p) \<Rightarrow> Some (s\<lparr>srv_pool := p\<rparr>, [])))"

fun worker_step :: "http_world \<Rightarrow> worker_stage \<Rightarrow> web_server \<Rightarrow> (web_server \<times> worker_stage list) res" where
  "worker_step w (Parsing i con) s =
     bind_res (process_read w ((srv_users s i)\<lparr>mysql := con\<rparr>) (srv_static s)) (\<lambda>(read_ret, c1, g1).
     if read_ret = NO_REQUEST then
       Inr (s\<lparr>srv_users := (srv_users s)(i := c1), srv_static := modfd (m_sockfd c1) EPOLLIN g1\<rparr>, [])
     else
       bind_res (process_write read_ret c1) (\<lambda>(write_ret, c2).
       Inr (s\<lparr>srv_users := (srv_users s)(i := c2), srv_static := g1\<rparr>, [if write_ret then Finishing i else Closing i])))"
| "worker_step w (Closing i) s =
     Inr (if m_sockfd (srv_users s i) \<noteq> -1
          then (s\<lparr>srv_users := (srv_users s)(i := (srv_users s i)\<lparr>m_sockfd := -1\<rparr>),
                  srv_static := removefd (m_sockfd (srv_users s i)) (srv_static s)\<rparr>, [Counting i])
          else (s, [Finishing i]))"
| "worker_step w (Counting i) s = Inr (s, [Counted i (m_user_count (srv_static s))])"
| "worker_step w (Counted i n) s =
     Inr (s\<lparr>srv_static := (srv_static s)\<lparr>m_user_count := n - 1\<rparr>\<rparr>, [Finishing i])"
| "worker_step w (Finishing i) s =
     Inr (s\<lparr>srv_static := modfd (m_sockfd (srv_users s i)) EPOLLOUT (srv_static s)\<rparr>, [])"

text \<open>A worker that is not interrupted: five steps are enough.\<close>

fun worker_run :: "nat \<Rightarrow> http_world \<Rightarrow> worker_stage list \<Rightarrow> web_server \<Rightarrow> web_server res" where
  "worker_run _ w [] s = Inr s"
| "worker_run 0 w (st # _) s = Inl No_Return"
| "worker_run (Suc n) w (st # _) s = bind_res (worker_step w st s) (\<lambda>(s1, sts). worker_run n w sts s1)"

lemma worker_alone:
  "worker_run 5 w [Parsing i con] s =
     bind_res (process w ((srv_users s i)\<lparr>mysql := con\<rparr>) (srv_static s)) (\<lambda>(c, g).
     Inr (s\<lparr>srv_users := (srv_users s)(i := c), srv_static := g\<rparr>))"
  by (cases "process_read w ((srv_users s i)\<lparr>mysql := con\<rparr>) (srv_static s)")
    (auto simp: process_def close_conn_def removefd_def record_op_def Let_def numeral_eq_Suc bind_res_assoc case_prod_beta
      split: prod.splits intro!: bind_res_cong)

section \<open>The system\<close>

text \<open>The descriptors registered with epoll, from the calls made so far.\<close>

fun ep_apply :: "ep_op \<Rightarrow> int set \<Rightarrow> int set" where
  "ep_apply (Epoll_Add fd _) F = insert fd F"
| "ep_apply (Epoll_Del fd) F = F - {fd}"
| "ep_apply (Close_Fd fd) F = F - {fd}"
| "ep_apply _ F = F"

definition registered :: "http_static \<Rightarrow> int set" where
  "registered g = fold ep_apply (ep_ops g) {}"

abbreviation interest :: "web_server \<Rightarrow> int set" where
  "interest s \<equiv> registered (srv_static s)"

text \<open>
  What the kernel promises of an event: it is about a registered descriptor, \<open>accept\<close> returns a descriptor
  that is not in use, of whatever size; and what is assumed of the clock, that \<open>time\<close> does not go back.
\<close>

definition kernel_ok :: "server_fds \<Rightarrow> srv_event \<Rightarrow> web_server \<Rightarrow> bool" where
  "kernel_ok fds e s \<longleftrightarrow> srv_clock s \<le> ans_time e
     \<and> (if ev_fd e = listenfd fds then
           fst (ans_accept e) \<notin> insert (listenfd fds) (insert (pipefd0 fds) (interest s))
         else if ev_fd e = pipefd0 fds then ev_flags e = [EPOLLIN]
         else ev_fd e \<in> interest s)"

text \<open>The state in which \<open>main\<close> enters its loop.\<close>

definition srv_start :: "server_fds \<Rightarrow> web_server \<Rightarrow> bool" where
  "srv_start fds s \<longleftrightarrow> \<not> timeout s \<and> \<not> stop_server s \<and> timer_lst s = sort_timer_lst_init \<and> users_timer s = (\<lambda>_. None) \<and> m_user_count (srv_static s) = 0 \<and> srv_alarms s = [TIMESLOT]
     \<and> ep_ops (srv_static s) = ep_ops (addfd (pipefd0 fds) False (addfd (listenfd fds) False \<lparr>m_user_count = 0, users = Map.empty, ep_ops = []\<rparr>))"

text \<open>
  The system: the server and the stages of the workers under way. The main thread updates \<open>m_user_count\<close> without a lock, too: when its read comes before a
  worker's write and its own write after it, the worker's write is lost (\<open>count_lost\<close>).
\<close>

type_synonym srv_sys = "web_server \<times> worker_stage list"

definition sys_start :: "server_fds \<Rightarrow> srv_sys \<Rightarrow> bool" where
  "sys_start fds y \<longleftrightarrow> srv_start fds (fst y) \<and> snd y = []"

inductive srv_step :: "server_fds \<Rightarrow> srv_sys \<Rightarrow> srv_sys \<Rightarrow> bool" for fds where
  event: "kernel_ok fds e s \<Longrightarrow> handle_event fds e s = Inr s' \<Longrightarrow> srv_step fds (s, ws) (s', ws)"
| round_end: "srv_clock s \<le> cur \<Longrightarrow> end_round cur s = Inr s' \<Longrightarrow> srv_step fds (s, ws) (s', ws)"
| take: "worker_take con s = Some (s', st) \<Longrightarrow> srv_step fds (s, ws) (s', st @ ws)"
| worker: "worker_step w st s = Inr (s', st') \<Longrightarrow> srv_step fds (s, us @ st # ws) (s', us @ st' @ ws)"
| count_lost: "srv_step fds (s, us @ Counted i n # ws) (s, us @ Finishing i # ws)"

section \<open>What the pieces do to the registrations\<close>

lemma registered_record [simp]: "registered (record_op x g) = ep_apply x (registered g)"
  by (simp add: registered_def record_op_def)

lemma registered_count [simp]: "registered (g\<lparr>m_user_count := n\<rparr>) = registered g"
  by (simp add: registered_def)

lemma registered_users [simp]: "registered (g\<lparr>users := u\<rparr>) = registered g"
  by (simp add: registered_def)

lemma record_op_count [simp]: "m_user_count (record_op x g) = m_user_count g"
  by (simp add: record_op_def)

lemma modfd_static [simp]: "registered (modfd fd ev g) = registered g" "m_user_count (modfd fd ev g) = m_user_count g"
  by (simp_all add: modfd_def)

lemma addfd_static [simp]: "registered (addfd fd b g) = insert fd (registered g)"
  by (simp add: addfd_def setnonblocking_def)

lemma finite_registered [simp]: "finite (registered g)"
proof -
  have "finite F \<Longrightarrow> finite (ep_apply x F)" for x F by (cases x) simp_all
  then have "finite F \<Longrightarrow> finite (fold ep_apply ops F)" for ops F by (induction ops arbitrary: F) simp_all
  then show ?thesis by (simp add: registered_def)
qed

text \<open>Parsing leaves the registrations, closing takes one descriptor away.\<close>

definition same_static :: "http_static \<Rightarrow> http_static \<Rightarrow> bool" where
  "same_static g g' \<longleftrightarrow> registered g' = registered g"

definition fewer_registered :: "http_static \<Rightarrow> http_static \<Rightarrow> bool" where
  "fewer_registered g g' \<longleftrightarrow> registered g' \<subseteq> registered g"

lemma do_cgi_static: "res_all (\<lambda>(c', g'). same_static g g') (do_cgi w sel url c g)"
  unfolding do_cgi_def Let_def by (intro res_post) (simp_all add: same_static_def)

lemma do_request_static: "res_all (\<lambda>(code, c', g'). same_static g g') (do_request w c g)"
  unfolding do_request_def Let_def
  apply (intro res_post)
  subgoal for rf url p q sel cg c2 g2 using res_allD [OF do_cgi_static, of _ _ _ _ g "(c2, g2)"]
    by (fastforce simp: same_static_def split: if_splits)
  done

lemma process_read_static: "res_all (\<lambda>(code, c', g'). same_static g g') (process_read w c g)"
  unfolding process_read_def
  apply (intro res_post)
  subgoal for x out c1 using do_request_static [of g w c1]
    by (cases out) (auto simp: same_static_def intro: res_post)
  done

lemma write_loop_static:
  "write_loop rs sent c g = Inr (ok, sent', c', g') \<Longrightarrow> registered g' = registered g"
  by (induction rs sent c g rule: write_loop.induct) (auto simp: res_simps Let_def split: if_splits)

lemma http_write_static:
  "http_write rs c g = Inr (ok, sent, c', g') \<Longrightarrow> registered g' = registered g"
  using write_loop_static by (auto simp: http_write_def split: if_splits)

definition same_timers :: "web_server \<Rightarrow> web_server \<Rightarrow> bool" where
  "same_timers s s' \<longleftrightarrow> timer_lst s' = timer_lst s \<and> users_timer s' = users_timer s \<and> srv_clock s' = srv_clock s"

lemma worker_take_static:
  "worker_take con s = Some (s', st) \<Longrightarrow> fewer_registered (srv_static s) (srv_static s') \<and> same_timers s s'"
  by (auto simp: worker_take_def fewer_registered_def same_timers_def split: option.splits prod.splits)

lemma worker_step_static:
  assumes "worker_step w st s = Inr (s', st')"
  shows "fewer_registered (srv_static s) (srv_static s') \<and> same_timers s s'"
proof (cases st)
  case (Parsing i con)
  obtain code c1 g1 where r: "process_read w ((srv_users s i)\<lparr>mysql := con\<rparr>) (srv_static s) = Inr (code, c1, g1)"
    using assms unfolding Parsing worker_step.simps bind_res_eq_Inr by (metis prod_cases3)
  have g1: "registered g1 = interest s" using res_allD [OF process_read_static r] by (simp add: same_static_def)
  show ?thesis
  proof (cases "code = NO_REQUEST")
    case True
    then have "s' = s\<lparr>srv_users := (srv_users s)(i := c1), srv_static := modfd (m_sockfd c1) EPOLLIN g1\<rparr>"
      using assms unfolding Parsing worker_step.simps r bind_res.simps by simp
    then show ?thesis using g1 by (simp add: fewer_registered_def same_timers_def)
  next
    case False
    then obtain c2 where "s' = s\<lparr>srv_users := (srv_users s)(i := c2), srv_static := g1\<rparr>"
      using assms unfolding Parsing worker_step.simps r bind_res.simps by (cases "process_write code c1") auto
    then show ?thesis using g1 by (simp add: fewer_registered_def same_timers_def)
  qed
next
  case (Closing i)
  then show ?thesis using assms by (auto simp: removefd_def fewer_registered_def same_timers_def split: if_splits)
qed (use assms in \<open>auto simp: fewer_registered_def same_timers_def\<close>)

section \<open>The invariant\<close>

text \<open>
  The abstract timers \<open>ts\<close> of the list carry initialised client data, and every registered client
  descriptor has a live timer of its own in the array.
\<close>

definition data_ok :: "server_fds \<Rightarrow> (nat \<Rightarrow> client_data option) \<Rightarrow> int \<Rightarrow> timer_entry list \<Rightarrow> bool" where
  "data_ok fds ut clock ts \<longleftrightarrow>
     (\<forall>(a, e, d)\<in>set ts. e \<le> clock + 3 * TIMESLOT \<and> int d \<noteq> listenfd fds \<and> int d \<noteq> pipefd0 fds
        \<and> (\<exists>cd. ut d = Some cd \<and> cd_sockfd cd = int d))"

definition reg_ok :: "int set \<Rightarrow> (nat \<Rightarrow> client_data option) \<Rightarrow> timer_entry list \<Rightarrow> bool" where
  "reg_ok F ut ts \<longleftrightarrow> (\<forall>fd\<in>F. \<exists>d cd e. fd = int d \<and> d < MAX_FD \<and> ut d = Some cd \<and> (cd_timer cd, e, d) \<in> set ts)"

definition client_fds :: "server_fds \<Rightarrow> http_static \<Rightarrow> int set" where
  "client_fds fds g = registered g - {listenfd fds, pipefd0 fds}"

definition srv_view :: "server_fds \<Rightarrow> web_server \<Rightarrow> addr \<Rightarrow> timer_entry list \<Rightarrow> bool" where
  "srv_view fds s k ts \<longleftrightarrow>
     timers (timer_lst s) (k, ts) \<and> data_ok fds (users_timer s) (srv_clock s) ts
     \<and> reg_ok (client_fds fds (srv_static s)) (users_timer s) ts"

definition srv_inv :: "server_fds \<Rightarrow> web_server \<Rightarrow> bool" where
  "srv_inv fds s \<longleftrightarrow> (\<exists>k ts. srv_view fds s k ts)"

lemma timers_distinct: "timers lst (k, ts) \<Longrightarrow> distinct (map fst ts)"
  by (auto simp: timers_def tlist_def)

lemma timers_fresh: "timers lst (k, ts) \<Longrightarrow> t \<in> set ts \<Longrightarrow> fst t < k"
  by (auto simp: timers_def tlist_def)

lemma srv_inv_start: "srv_start fds s \<Longrightarrow> srv_inv fds s"
  using timers_init
  by (auto simp: srv_start_def srv_inv_def srv_view_def data_ok_def reg_ok_def client_fds_def registered_def addfd_def setnonblocking_def record_op_def
      intro!: exI [of _ 0] exI [of _ "[]"])

lemma cb_all_ok:
  assumes "\<forall>d\<in>set ds. \<exists>cd. users_timer s d = Some cd \<and> cd_sockfd cd = int d"
  shows "\<exists>g l. cb_all ds s = Inr (s\<lparr>srv_static := g, srv_log := l\<rparr>) \<and> registered g = interest s - int ` set ds
           \<and> m_user_count g = m_user_count (srv_static s) - int (length ds)"
  using assms
proof (induction ds arbitrary: s)
  case Nil
  show ?case by (rule exI [of _ "srv_static s"], rule exI [of _ "srv_log s"]) simp
next
  case (Cons d ds)
  then obtain cd where cd: "users_timer s d = Some cd" "cd_sockfd cd = int d" by auto
  define g where "g = record_op (Close_Fd (int d)) (record_op (Epoll_Del (int d)) (srv_static s))"
  define s1 where "s1 = s\<lparr>srv_static := g\<lparr>m_user_count := m_user_count g - 1\<rparr>, srv_log := srv_log s @ [(1, ''close fd '' @ to_string (int d))]\<rparr>"
  have s1: "cb_func d s = Inr s1" using cd by (simp add: cb_func_def log_info_def s1_def g_def Let_def)
  have "\<forall>d\<in>set ds. \<exists>cd. users_timer s1 d = Some cd \<and> cd_sockfd cd = int d" using Cons.prems by (simp add: s1_def)
  from Cons.IH [OF this] obtain g' l where ih: "cb_all ds s1 = Inr (s1\<lparr>srv_static := g', srv_log := l\<rparr>)"
    "registered g' = interest s1 - int ` set ds" "m_user_count g' = m_user_count (srv_static s1) - int (length ds)" by blast
  show ?case
    using s1 ih by (intro exI [of _ g'] exI [of _ l]) (auto simp: s1_def g_def)
qed

lemma tderef_live:
  assumes "timers lst (k, ts)" "t \<in> set ts"
  shows "\<exists>n. tderef lst (Some (fst t)) = Inr n"
proof -
  have "tseg (tl_heap lst) None (map fst ts) None" using assms(1) by (simp add: timers_def tlist_def)
  then have "tl_heap lst (fst t) \<noteq> None" using assms(2) dnodes_dom by fastforce
  then show ?thesis by (auto simp: tderef_def)
qed

text \<open>The client data that an event on a registered descriptor finds.\<close>

lemma client_found:
  assumes "srv_view fds s k ts" "fd \<in> client_fds fds (srv_static s)"
  obtains cd e where "client_of fd s = Inr cd" "(cd_timer cd, e, nat fd) \<in> set ts" "fd = int (nat fd)"
    "users_timer s (nat fd) = Some cd" "cd_sockfd cd = fd"
proof -
  from assms obtain d cd e where d: "fd = int d" "d < MAX_FD" "users_timer s d = Some cd" "(cd_timer cd, e, d) \<in> set ts"
    unfolding srv_view_def reg_ok_def by blast
  moreover from this assms have "cd_sockfd cd = int d" unfolding srv_view_def data_ok_def by fastforce
  ultimately show ?thesis using that [of cd e] by (simp add: client_of_def)
qed

lemma finite_client_fds [simp]: "finite (client_fds fds g)"
  by (simp add: client_fds_def)

lemma reg_ok_filter:
  assumes "reg_ok F ut ts" "\<And>t. t \<in> set ts \<Longrightarrow> \<not> P t \<Longrightarrow> int (snd (snd t)) \<in> R"
  shows "reg_ok (F - R) ut (filter P ts)"
  unfolding reg_ok_def
proof
  fix fd assume fd: "fd \<in> F - R"
  then obtain d cd e where d: "fd = int d" "d < MAX_FD" "ut d = Some cd" "(cd_timer cd, e, d) \<in> set ts"
    using assms(1) unfolding reg_ok_def by blast
  moreover have "P (cd_timer cd, e, d)" using assms(2) [OF d(4)] fd d(1) by auto
  ultimately show "\<exists>d cd e. fd = int d \<and> d < MAX_FD \<and> ut d = Some cd \<and> (cd_timer cd, e, d) \<in> set (filter P ts)" by auto
qed

lemma data_ok_subset: "data_ok fds ut c ts \<Longrightarrow> set ts' \<subseteq> set ts \<Longrightarrow> c \<le> c' \<Longrightarrow> data_ok fds ut c' ts'"
  unfolding data_ok_def by fastforce

lemma client_fds_closed: "registered g = registered g0 - R \<Longrightarrow> client_fds fds g = client_fds fds g0 - R"
  by (auto simp: client_fds_def)

lemma client_of_cong: "users_timer s' = users_timer s \<Longrightarrow> client_of fd s' = client_of fd s"
  by (simp add: client_of_def)

lemma srv_view_close:
  assumes v: "srv_view fds s k ts" and lst: "timers (timer_lst s') (k, filter P ts)"
    and g: "registered (srv_static s') = interest s - int ` set ds"
    and out: "\<And>t. t \<in> set ts \<Longrightarrow> \<not> P t \<Longrightarrow> int (snd (snd t)) \<in> int ` set ds"
    and same: "users_timer s' = users_timer s" "srv_clock s \<le> srv_clock s'"
  shows "srv_view fds s' k (filter P ts)"
proof -
  have "reg_ok (client_fds fds (srv_static s) - int ` set ds) (users_timer s) (filter P ts)"
    using v by (intro reg_ok_filter [OF _ out]) (simp add: srv_view_def)
  moreover have "data_ok fds (users_timer s) (srv_clock s') (filter P ts)"
    using v same(2) by (auto simp: srv_view_def intro: data_ok_subset [of _ _ "srv_clock s" ts])
  ultimately show ?thesis
    unfolding srv_view_def client_fds_closed [OF g] same(1) using lst by (intro conjI)
qed

lemma drop_client_ok:
  assumes v: "srv_view fds s k ts" and fd: "fd \<in> client_fds fds (srv_static s)" and cd: "client_of fd s = Inr cd"
  shows "\<exists>s'. drop_client (cd_timer cd) (nat fd) s = Inr s' \<and> srv_view fds s' k (filter (\<lambda>u. fst u \<noteq> cd_timer cd) ts)"
proof -
  obtain cd' e where c: "client_of fd s = Inr cd'" "(cd_timer cd', e, nat fd) \<in> set ts" "fd = int (nat fd)"
    "users_timer s (nat fd) = Some cd'" "cd_sockfd cd' = fd" by (rule client_found [OF v fd])
  then have "cd' = cd" using cd by simp
  note e = c(2-5) [unfolded this]
  have t: "timers (timer_lst s) (k, ts)" using v by (simp add: srv_view_def)
  from tderef_live [OF t e(1)] obtain n where n: "tderef (timer_lst s) (Some (cd_timer cd)) = Inr n" by auto
  have "\<forall>d\<in>set [nat fd]. \<exists>cd. users_timer s d = Some cd \<and> cd_sockfd cd = int d" using e by auto
  from cb_all_ok [OF this] obtain g l where g: "cb_func (nat fd) s = Inr (s\<lparr>srv_static := g, srv_log := l\<rparr>)"
    "registered g = interest s - int ` set [nat fd]" "m_user_count g = m_user_count (srv_static s) - int (length [nat fd])"
    by (auto simp: res_simps)
  have "map_of ts (cd_timer cd) \<noteq> None" using map_of_is_SomeI [OF timers_distinct [OF t] e(1)] by simp
  from cancel_refines [OF t this] obtain lst where lst: "del_timer (Some (cd_timer cd)) (timer_lst s) = Inr lst"
    "timers lst (k, filter (\<lambda>u. fst u \<noteq> cd_timer cd) ts)" by (auto simp: res_simps)
  have own: "int (snd (snd u)) \<in> int ` set [nat fd]" if "u \<in> set ts" "\<not> fst u \<noteq> cd_timer cd" for u
  proof -
    have "(cd_timer cd, snd u) \<in> set ts" using that by (metis prod.collapse)
    then have "(e, nat fd) = snd u" using eq_key_imp_eq_value [OF timers_distinct [OF t] e(1)] by blast
    then show ?thesis by (metis image_eqI list.set_intros(1) snd_conv)
  qed
  have "srv_view fds (s\<lparr>srv_static := g, srv_log := l, timer_lst := lst\<rparr>) k (filter (\<lambda>u. fst u \<noteq> cd_timer cd) ts)"
    using lst(2) g(2) own by (intro srv_view_close [OF v, of _ _ "[nat fd]"]) simp_all
  then show ?thesis using n g(1) lst(1) by (auto simp: drop_client_def)
qed

lemma reg_ok_replace:
  assumes "reg_ok F ut ts" "distinct (map fst ts)" "(a, e0, d) \<in> set ts"
  shows "reg_ok F ut (spec_add (a, e, d) (filter (\<lambda>u. fst u \<noteq> a) ts))"
  unfolding reg_ok_def
proof
  fix fd assume "fd \<in> F"
  then obtain d' cd e' where d: "fd = int d'" "d' < MAX_FD" "ut d' = Some cd" "(cd_timer cd, e', d') \<in> set ts"
    using assms(1) unfolding reg_ok_def by blast
  have "d' = d" if "cd_timer cd = a" using that d(4) assms(2,3) eq_key_imp_eq_value [of ts a "(e0, d)" "(e', d')"] by simp
  then have "\<exists>e''. (cd_timer cd, e'', d') \<in> set (spec_add (a, e, d) (filter (\<lambda>u. fst u \<noteq> a) ts))" using d(4) by auto
  then show "\<exists>d' cd e'. fd = int d' \<and> d' < MAX_FD \<and> ut d' = Some cd
     \<and> (cd_timer cd, e', d') \<in> set (spec_add (a, e, d) (filter (\<lambda>u. fst u \<noteq> a) ts))" using d(1-3) by blast
qed

lemma keep_client_ok:
  assumes v: "srv_view fds s k ts" and fd: "fd \<in> client_fds fds (srv_static s)" and cd: "client_of fd s = Inr cd"
    and cur: "srv_clock s \<le> cur"
  shows "\<exists>s' e. keep_client (cd_timer cd) cur s = Inr s'
     \<and> srv_view fds s' k (spec_add (cd_timer cd, cur + 3 * TIMESLOT, nat fd) (filter (\<lambda>u. fst u \<noteq> cd_timer cd) ts))"
proof -
  obtain cd' e where c: "client_of fd s = Inr cd'" "(cd_timer cd', e, nat fd) \<in> set ts" "fd = int (nat fd)"
    "users_timer s (nat fd) = Some cd'" "cd_sockfd cd' = fd" by (rule client_found [OF v fd])
  then have "cd' = cd" using cd by simp
  note e = c(2-5) [unfolded this]
  have t: "timers (timer_lst s) (k, ts)" "data_ok fds (users_timer s) (srv_clock s) ts" using v by (simp_all add: srv_view_def)
  have "e \<le> cur + 3 * TIMESLOT" using t(2) e(1) cur by (fastforce simp: data_ok_def)
  from postpone_refines [OF t(1) map_of_is_SomeI [OF timers_distinct [OF t(1)] e(1)] this]
  obtain lst where lst: "postpone_timer (cd_timer cd) (cur + 3 * TIMESLOT) (timer_lst s) = Inr lst"
    "timers lst (k, spec_add (cd_timer cd, cur + 3 * TIMESLOT, nat fd) (filter (\<lambda>u. fst u \<noteq> cd_timer cd) ts))"
    by (auto simp: res_simps)
  have "data_ok fds (users_timer s) cur (spec_add (cd_timer cd, cur + 3 * TIMESLOT, nat fd) (filter (\<lambda>u. fst u \<noteq> cd_timer cd) ts))"
    using t(2) e(1) cur unfolding data_ok_def by fastforce
  then show ?thesis
    using v lst reg_ok_replace [OF _ timers_distinct [OF t(1)] e(1)]
    by (simp add: srv_view_def keep_client_def log_info_def)
qed

lemma reg_ok_new:
  assumes r: "reg_ok F ut ts" and cd: "cd_timer cd = a" and new: "int d \<notin> F" "d < MAX_FD"
  shows "reg_ok (insert (int d) F) (ut(d \<mapsto> cd)) (spec_add (a, e, d) ts)"
  unfolding reg_ok_def
proof
  fix fd assume fd: "fd \<in> insert (int d) F"
  show "\<exists>d' cd' e'. fd = int d' \<and> d' < MAX_FD \<and> (ut(d \<mapsto> cd)) d' = Some cd' \<and> (cd_timer cd', e', d') \<in> set (spec_add (a, e, d) ts)"
  proof (cases "fd = int d")
    case True
    then show ?thesis using new cd by (intro exI [of _ d] exI [of _ cd] exI [of _ e]) simp
  next
    case False
    then have "fd \<in> F" using fd by simp
    then obtain d' cd' e' where d: "fd = int d'" "d' < MAX_FD" "ut d' = Some cd'" "(cd_timer cd', e', d') \<in> set ts"
      using r unfolding reg_ok_def by blast
    moreover have "d' \<noteq> d" using False d(1) by simp
    ultimately show ?thesis by (intro exI [of _ d'] exI [of _ cd'] exI [of _ e']) simp
  qed
qed

lemma on_accept_new:
  assumes v: "srv_view fds s k ts" and acc: "ans_accept e = (int d, peer)" "d < MAX_FD"
    and free: "int d \<notin> insert (listenfd fds) (insert (pipefd0 fds) (interest s))" and cur: "srv_clock s \<le> ans_time e"
    and room: "m_user_count (srv_static s) < int MAX_FD"
  shows "\<exists>s'. on_accept e s = Inr s' \<and> srv_view fds s' (Suc k) (spec_add (k, ans_time e + 3 * TIMESLOT, d) ts)
     \<and> client_fds fds (srv_static s') = insert (int d) (client_fds fds (srv_static s)) \<and> srv_clock s' = ans_time e
     \<and> users_timer s' = (users_timer s)(d \<mapsto> \<lparr>cd_address = peer, cd_sockfd = int d, cd_timer = k\<rparr>)
     \<and> m_sockfd (srv_users s' d) = int d \<and> m_user_count (srv_static s') = m_user_count (srv_static s) + 1"
proof -
  have t: "timers (timer_lst s) (k, ts)" "data_ok fds (users_timer s) (srv_clock s) ts" using v by (simp_all add: srv_view_def)
  define cd where "cd = \<lparr>cd_address = peer, cd_sockfd = int d, cd_timer = k\<rparr>"
  define ts' where "ts' = spec_add (k, ans_time e + 3 * TIMESLOT, d) ts"
  obtain a lst0 where new: "new_timer (ans_time e + 3 * TIMESLOT) d (timer_lst s) = (a, lst0)" by fastforce
  have a: "a = k" using new t(1) by (auto simp: new_timer_def timers_def)
  from start_refines [OF t(1), of "ans_time e + 3 * TIMESLOT" d] obtain lst
    where lst: "add_timer (Some k) lst0 = Inr lst" "timers lst (Suc k, ts')"
    using new a by (auto simp: res_simps ts'_def)
  define g where "g = (addfd (int d) True (srv_static s))\<lparr>m_user_count := m_user_count (srv_static s) + 1\<rparr>"
  define s' where "s' = s\<lparr>srv_users := (srv_users s)(d := http_init ((srv_users s d)\<lparr>m_sockfd := int d\<rparr>)), srv_static := g,
      users_timer := (users_timer s)(d \<mapsto> cd), timer_lst := lst, srv_clock := ans_time e\<rparr>"
  have s': "on_accept e s = Inr s'"
    using acc room new lst(1) by (simp add: on_accept_def conn_init_def s'_def g_def cd_def a)
  have F: "client_fds fds g = insert (int d) (client_fds fds (srv_static s))"
    using free by (auto simp: client_fds_def g_def)
  have notin: "int d \<notin> client_fds fds (srv_static s)" using free by (simp add: client_fds_def)
  have "data_ok fds ((users_timer s)(d \<mapsto> cd)) (ans_time e) ts'"
    using t(2) cur free unfolding data_ok_def ts'_def by (fastforce simp: cd_def)
  moreover have "reg_ok (client_fds fds g) ((users_timer s)(d \<mapsto> cd)) ts'"
    unfolding F ts'_def using v notin acc(2) by (intro reg_ok_new) (simp_all add: srv_view_def cd_def)
  ultimately have "srv_view fds s' (Suc k) ts'" using lst(2) by (simp add: srv_view_def s'_def)
  then show ?thesis using s' F by (auto simp: s'_def ts'_def cd_def g_def http_init_def)
qed

lemma on_accept_ok:
  assumes v: "srv_view fds s k ts" and e: "kernel_ok fds e s" "ev_fd e = listenfd fds"
  shows "if 0 \<le> fst (ans_accept e) \<and> m_user_count (srv_static s) < int MAX_FD \<and> int MAX_FD \<le> fst (ans_accept e)
    then on_accept e s = Inl Out_Of_Bounds else \<exists>s'. on_accept e s = Inr s' \<and> srv_inv fds s'"
proof -
  obtain connfd peer where acc: "ans_accept e = (connfd, peer)" by fastforce
  consider "connfd < 0" | "0 \<le> connfd" "m_user_count (srv_static s) \<ge> int MAX_FD"
    | "0 \<le> connfd" "m_user_count (srv_static s) < int MAX_FD" by linarith
  then show ?thesis
  proof cases
    case 1
    then show ?thesis using acc v by (auto simp: on_accept_def log_error_def srv_inv_def srv_view_def)
  next
    case 2
    have "registered (record_op (Close_Fd connfd) (srv_static s)) = interest s"
      using e acc by (auto simp: kernel_ok_def)
    then show ?thesis using 2 acc v
      by (auto simp: on_accept_def log_error_def show_error_def srv_inv_def srv_view_def client_fds_def)
  next
    case 3
    show ?thesis
    proof (cases "int MAX_FD \<le> connfd")
      case True
      then show ?thesis using 3 acc by (simp add: on_accept_def)
    next
      case False
      then have "nat connfd < MAX_FD" using 3 by linarith
      then show ?thesis using 3 False on_accept_new [OF v, of e "nat connfd" peer] e acc
        by (auto simp: kernel_ok_def srv_inv_def)
    qed
  qed
qed

lemma timer_handler_ok:
  assumes v: "srv_view fds s k ts" and cur: "srv_clock s \<le> cur"
  shows "\<exists>s' fired tl. timer_handler cur s = Inr s' \<and> srv_view fds s' k (filter (\<lambda>u. cur < deadline u) ts)
     \<and> tick cur (timer_lst s) = Inr (fired, tl) \<and> m_user_count (srv_static s') = m_user_count (srv_static s) - int (length fired)
     \<and> srv_alarms s' = srv_alarms s @ [TIMESLOT]
     \<and> client_fds fds (srv_static s') = client_fds fds (srv_static s) - (\<lambda>u. int (snd (snd u))) ` set (filter (\<lambda>u. deadline u \<le> cur) ts)"
proof -
  have t: "timers (timer_lst s) (k, ts)" "data_ok fds (users_timer s) (srv_clock s) ts" using v by (simp_all add: srv_view_def)
  define ds where "ds = map (snd \<circ> snd) (filter (\<lambda>u. deadline u \<le> cur) ts)"
  from tick_refines [OF t(1), of cur] obtain lst where lst: "tick cur (timer_lst s) = Inr (ds, lst)"
    "timers lst (k, filter (\<lambda>u. cur < deadline u) ts)" by (auto simp: ds_def)
  define s1 where "s1 = (if tl_head (timer_lst s) = None then s else log_info ''timer tick'' s)\<lparr>timer_lst := lst, srv_clock := cur\<rparr>"
  have s1: "users_timer s1 = users_timer s" "srv_static s1 = srv_static s" "timer_lst s1 = lst" "srv_clock s1 = cur" "srv_alarms s1 = srv_alarms s"
    by (simp_all add: s1_def log_info_def)
  have "\<forall>d\<in>set ds. \<exists>cd. users_timer s1 d = Some cd \<and> cd_sockfd cd = int d"
    using t(2) unfolding s1 ds_def data_ok_def by fastforce
  from cb_all_ok [OF this] obtain g l where g: "cb_all ds s1 = Inr (s1\<lparr>srv_static := g, srv_log := l\<rparr>)"
    "registered g = interest s - int ` set ds" "m_user_count g = m_user_count (srv_static s) - int (length ds)"
    by (auto simp: s1)
  have due: "int (snd (snd u)) \<in> int ` set ds" if "u \<in> set ts" "\<not> cur < deadline u" for u
    using that by (force simp: ds_def)
  define s2 where "s2 = s1\<lparr>srv_static := g, srv_log := l, srv_alarms := srv_alarms s @ [TIMESLOT]\<rparr>"
  have "srv_view fds s2 k (filter (\<lambda>u. cur < deadline u) ts)"
    using lst(2) g(2) due cur by (intro srv_view_close [OF v, of _ _ ds]) (simp_all add: s1 s2_def)
  moreover have "int ` set ds = (\<lambda>u. int (snd (snd u))) ` set (filter (\<lambda>u. deadline u \<le> cur) ts)"
    by (auto simp: ds_def image_image)
  moreover have "timer_handler cur s = Inr s2"
    using lst(1) g(1) s1(5) by (simp add: timer_handler_def s1_def [symmetric] s2_def)
  ultimately show ?thesis using lst(1) g(3) client_fds_closed [OF g(2), of fds]
    by (intro exI [of _ s2] exI [of _ ds] exI [of _ lst]) (simp add: s2_def)
qed

section \<open>Every event is handled\<close>

text \<open>
  What an event makes of its connection, and a descriptor that \<open>accept\<close> returns above the size of the arrays: the only parts that can fail.
\<close>

definition conn_failed :: "srv_event \<Rightarrow> web_server \<Rightarrow> cxx_error \<Rightarrow> bool" where
  "conn_failed e s x \<longleftrightarrow> read_once (ans_recv e) (srv_users s (nat (ev_fd e))) = Inl x
     \<or> http_write (ans_writev e) (srv_users s (nat (ev_fd e))) (srv_static s) = Inl x
     \<or> x = No_Return \<and> (\<exists>sent c g. http_write (ans_writev e) (srv_users s (nat (ev_fd e))) (srv_static s) = Inr (None, sent, c, g))"

definition fd_too_large :: "server_fds \<Rightarrow> srv_event \<Rightarrow> web_server \<Rightarrow> bool" where
  "fd_too_large fds e s \<longleftrightarrow> ev_fd e = listenfd fds \<and> m_user_count (srv_static s) < int MAX_FD \<and> int MAX_FD \<le> fst (ans_accept e)"

definition handled :: "server_fds \<Rightarrow> srv_event \<Rightarrow> web_server \<Rightarrow> web_server res \<Rightarrow> bool" where
  "handled fds e s r \<longleftrightarrow> (case r of Inl x \<Rightarrow> conn_failed e s x \<or> x = Out_Of_Bounds \<and> fd_too_large fds e s | Inr s' \<Rightarrow> srv_inv fds s')"

lemma handled_ok: "\<exists>s'. r = Inr s' \<and> srv_inv fds s' \<Longrightarrow> handled fds e s r"
  by (auto simp: handled_def)

lemma srv_view_cong:
  assumes "srv_view fds s k ts" "timer_lst s' = timer_lst s" "users_timer s' = users_timer s" "srv_clock s' = srv_clock s"
    "registered (srv_static s') = interest s"
  shows "srv_view fds s' k ts"
  using assms by (simp add: srv_view_def client_fds_def)

lemma drop_handled:
  assumes v: "srv_view fds s k ts" and fd: "fd \<in> client_fds fds (srv_static s)" and cd: "client_of fd s = Inr cd"
  shows "handled fds e s0 (drop_client (cd_timer cd) (nat fd) s)"
  using drop_client_ok [OF assms] by (intro handled_ok) (auto simp: srv_inv_def)

lemma keep_handled:
  assumes v: "srv_view fds s k ts" and fd: "fd \<in> client_fds fds (srv_static s)" and cd: "client_of fd s = Inr cd"
    and "srv_clock s \<le> cur"
  shows "handled fds e s0 (keep_client (cd_timer cd) cur s)"
  using keep_client_ok [OF assms] by (intro handled_ok) (auto simp: srv_inv_def)

lemma on_hup_handled:
  assumes v: "srv_view fds s k ts" and fd: "ev_fd e \<in> client_fds fds (srv_static s)"
  shows "handled fds e s (on_hup e s)"
proof -
  obtain cd x where c: "client_of (ev_fd e) s = Inr cd" "(cd_timer cd, x, nat (ev_fd e)) \<in> set ts" "ev_fd e = int (nat (ev_fd e))"
    "users_timer s (nat (ev_fd e)) = Some cd" "cd_sockfd cd = ev_fd e" by (rule client_found [OF v fd])
  then show ?thesis using drop_handled [OF v fd c(1)] by (simp add: on_hup_def)
qed

lemma on_read_handled:
  assumes v: "srv_view fds s k ts" and fd: "ev_fd e \<in> client_fds fds (srv_static s)" and cur: "srv_clock s \<le> ans_time e"
  shows "handled fds e s (on_read e s)"
proof -
  obtain cd x where c: "client_of (ev_fd e) s = Inr cd" "(cd_timer cd, x, nat (ev_fd e)) \<in> set ts" "ev_fd e = int (nat (ev_fd e))"
    "users_timer s (nat (ev_fd e)) = Some cd" "cd_sockfd cd = ev_fd e" by (rule client_found [OF v fd])
  show ?thesis
  proof (cases "read_once (ans_recv e) (srv_users s (nat (ev_fd e)))")
    case (Inl x)
    then show ?thesis using c(1) by (simp add: on_read_def handled_def conn_failed_def)
  next
    case (Inr r)
    obtain ok c1 where r: "r = (ok, c1)" by fastforce
    define s1 where "s1 = s\<lparr>srv_users := (srv_users s)(nat (ev_fd e) := c1)\<rparr>"
    define s2 where "s2 = (log_info (''deal with the client('' @ cd_address cd @ '')'') s1)\<lparr>srv_pool := append_request (nat (ev_fd e)) (srv_pool s1)\<rparr>"
    have s1: "srv_view fds s1 k ts" "client_of (ev_fd e) s1 = Inr cd" "srv_static s1 = srv_static s"
      using srv_view_cong [OF v, of s1] c(1) client_of_cong [of s1 s] by (simp_all add: s1_def)
    have s2: "srv_view fds s2 k ts" "client_of (ev_fd e) s2 = Inr cd" "srv_static s2 = srv_static s" "srv_clock s2 = srv_clock s"
      using srv_view_cong [OF v, of s2] c(1) client_of_cong [of s2 s] by (simp_all add: s1_def s2_def log_info_def)
    have "on_read e s = (if ok then keep_client (cd_timer cd) (ans_time e) s2 else drop_client (cd_timer cd) (nat (ev_fd e)) s1)"
      using c(1) Inr r by (simp add: on_read_def s1_def s2_def Let_def)
    then show ?thesis using drop_handled [OF s1(1) _ s1(2)] keep_handled [OF s2(1) _ s2(2)] fd cur s1(3) s2(3,4) by auto
  qed
qed

lemma on_write_handled:
  assumes v: "srv_view fds s k ts" and fd: "ev_fd e \<in> client_fds fds (srv_static s)" and cur: "srv_clock s \<le> ans_time e"
  shows "handled fds e s (on_write e s)"
proof -
  obtain cd x where c: "client_of (ev_fd e) s = Inr cd" "(cd_timer cd, x, nat (ev_fd e)) \<in> set ts" "ev_fd e = int (nat (ev_fd e))"
    "users_timer s (nat (ev_fd e)) = Some cd" "cd_sockfd cd = ev_fd e" by (rule client_found [OF v fd])
  show ?thesis
  proof (cases "http_write (ans_writev e) (srv_users s (nat (ev_fd e))) (srv_static s)")
    case (Inl x)
    then show ?thesis using c(1) by (simp add: on_write_def handled_def conn_failed_def)
  next
    case (Inr r)
    obtain ok sent c1 g where r: "r = (ok, sent, c1, g)" by (metis prod_cases4)
    have g: "registered g = interest s" using http_write_static Inr r by blast
    define s1 where "s1 = s\<lparr>srv_users := (srv_users s)(nat (ev_fd e) := c1), srv_static := g, srv_sent := srv_sent s @ [(ev_fd e, sent)]\<rparr>"
    define s2 where "s2 = log_info (''send data to the client('' @ cd_address cd @ '')'') s1"
    have s1: "srv_view fds s1 k ts" "client_of (ev_fd e) s1 = Inr cd" "srv_static s1 = g"
      using srv_view_cong [OF v, of s1] c(1) g client_of_cong [of s1 s] by (simp_all add: s1_def)
    have s2: "srv_view fds s2 k ts" "client_of (ev_fd e) s2 = Inr cd" "srv_static s2 = g" "srv_clock s2 = srv_clock s"
      using srv_view_cong [OF v, of s2] c(1) g client_of_cong [of s2 s] by (simp_all add: s1_def s2_def log_info_def)
    have "on_write e s = (case ok of None \<Rightarrow> Inl No_Return | Some True \<Rightarrow> keep_client (cd_timer cd) (ans_time e) s2
        | Some False \<Rightarrow> drop_client (cd_timer cd) (nat (ev_fd e)) s1)"
      using c(1) Inr r by (simp add: on_write_def s1_def s2_def Let_def split: option.split bool.split)
    moreover have "ev_fd e \<in> client_fds fds g" using fd g by (simp add: client_fds_def)
    moreover have "handled fds e s (Inl No_Return)" if "ok = None" using that Inr r by (auto simp: handled_def conn_failed_def)
    ultimately show ?thesis using drop_handled [OF s1(1) _ s1(2)] keep_handled [OF s2(1) _ s2(2)] cur s1(3) s2(3,4)
      by (auto split: option.splits bool.splits)
  qed
qed

lemma handle_event_handled:
  assumes inv: "srv_inv fds s" and e: "kernel_ok fds e s"
  shows "handled fds e s (handle_event fds e s)"
proof -
  obtain k ts where v: "srv_view fds s k ts" using inv by (auto simp: srv_inv_def)
  have cur: "srv_clock s \<le> ans_time e" using e by (simp add: kernel_ok_def)
  consider "ev_fd e = listenfd fds" | "ev_fd e \<noteq> listenfd fds" "ev_fd e = pipefd0 fds" "ev_flags e = [EPOLLIN]"
    | "ev_fd e \<noteq> listenfd fds" "ev_fd e \<noteq> pipefd0 fds" "ev_fd e \<in> client_fds fds (srv_static s)"
    using e by (auto simp: kernel_ok_def client_fds_def split: if_splits)
  then show ?thesis
  proof cases
    case 1
    then have "handle_event fds e s = on_accept e s" by (simp add: handle_event_def)
    then show ?thesis using on_accept_ok [OF v e 1] 1 by (auto simp: handled_def fd_too_large_def split: if_splits)
  next
    case 2
    have "\<exists>s'. on_signal e s = Inr s' \<and> srv_view fds s' k ts"
      using srv_view_cong [OF v] by (cases "ans_signals e") (simp_all add: on_signal_def)
    then have "handled fds e s (on_signal e s)" by (intro handled_ok) (auto simp: srv_inv_def)
    then show ?thesis using 2 by (simp add: handle_event_def)
  next
    case 3
    then show ?thesis using on_hup_handled [OF v 3(3)] on_read_handled [OF v 3(3) cur] on_write_handled [OF v 3(3) cur] inv
      by (auto simp: handle_event_def handled_def [of fds e s "Inr s"])
  qed
qed

lemma end_round_ok:
  assumes inv: "srv_view fds s k ts" and cur: "srv_clock s \<le> cur"
  shows "\<exists>s' ts'. end_round cur s = Inr s' \<and> srv_view fds s' k ts'
     \<and> (timeout s \<longrightarrow> ts' = filter (\<lambda>u. cur < deadline u) ts
        \<and> client_fds fds (srv_static s') = client_fds fds (srv_static s) - (\<lambda>u. int (snd (snd u))) ` set (filter (\<lambda>u. deadline u \<le> cur) ts)
        \<and> (\<exists>fired tl. tick cur (timer_lst s) = Inr (fired, tl)
             \<and> m_user_count (srv_static s') = m_user_count (srv_static s) - int (length fired))
        \<and> srv_alarms s' = srv_alarms s @ [TIMESLOT])"
proof (cases "timeout s")
  case True
  from timer_handler_ok [OF assms] obtain s' fired tl where s': "timer_handler cur s = Inr s'"
    "srv_view fds s' k (filter (\<lambda>u. cur < deadline u) ts)"
    "client_fds fds (srv_static s') = client_fds fds (srv_static s) - (\<lambda>u. int (snd (snd u))) ` set (filter (\<lambda>u. deadline u \<le> cur) ts)"
    "tick cur (timer_lst s) = Inr (fired, tl)" "m_user_count (srv_static s') = m_user_count (srv_static s) - int (length fired)"
    "srv_alarms s' = srv_alarms s @ [TIMESLOT]"
    by blast
  have "srv_view fds (s'\<lparr>timeout := False\<rparr>) k (filter (\<lambda>u. cur < deadline u) ts)" by (rule srv_view_cong [OF s'(2)]) simp_all
  then show ?thesis using True s'(1,3-6) by (simp add: end_round_def)
qed (use inv in \<open>auto simp: end_round_def\<close>)

lemma view_entry:
  assumes v: "srv_view fds s k ts" and u: "u \<in> set ts"
  shows "\<exists>n. tderef (timer_lst s) (Some (fst u)) = Inr n \<and> ut_expire n = deadline u \<and> ut_user_data n = snd (snd u)"
proof -
  have t: "timers (timer_lst s) (k, ts)" using v by (simp add: srv_view_def)
  from tderef_live [OF t u] obtain n where n: "tderef (timer_lst s) (Some (fst u)) = Inr n" by auto
  have "tdata (timer_lst s) (fst u) = snd u" using t u by (simp add: timers_def)
  then show ?thesis using n by (cases u) (auto simp: tdata_def tderef_def split: option.splits)
qed

lemma view_closed:
  assumes v: "srv_view fds s k ts" and g: "fewer_registered (srv_static s) (srv_static s')" and same: "same_timers s s'"
  shows "srv_view fds s' k ts"
proof -
  have "client_fds fds (srv_static s') \<subseteq> client_fds fds (srv_static s)" using g by (auto simp: fewer_registered_def client_fds_def)
  then show ?thesis using v same unfolding srv_view_def same_timers_def reg_ok_def by auto
qed

lemma inv_closed:
  "srv_inv fds s \<Longrightarrow> fewer_registered (srv_static s) (srv_static s') \<and> same_timers s s' \<Longrightarrow> srv_inv fds s'"
  unfolding srv_inv_def using view_closed by blast

lemma srv_step_inv: "srv_step fds y y' \<Longrightarrow> srv_inv fds (fst y) \<Longrightarrow> srv_inv fds (fst y')"
proof (induction rule: srv_step.induct)
  case (event e s s' ws)
  then show ?case using handle_event_handled [of fds s e] by (simp add: handled_def)
next
  case (round_end s cur s' ws)
  then show ?case using end_round_ok [of fds s] by (fastforce simp: srv_inv_def)
next
  case (take con s s' st ws)
  then show ?case using worker_take_static inv_closed by auto
next
  case (worker w st s s' st' us ws)
  then show ?case using worker_step_static inv_closed by auto
qed simp

lemma srv_reachable_inv: "reachable (sys_start fds) (srv_step fds) y \<Longrightarrow> srv_inv fds (fst y)"
  by (induction rule: reachable.induct) (auto simp: sys_start_def intro: srv_inv_start srv_step_inv)

lemma view_deadline:
  assumes v: "srv_view fds s k ts" and fd: "fd \<in> client_fds fds (srv_static s)"
  shows "\<exists>cd n t. client_of fd s = Inr cd \<and> tderef (timer_lst s) (Some (cd_timer cd)) = Inr n
     \<and> t \<in> set ts \<and> ut_expire n = deadline t \<and> ut_user_data n = nat fd"
proof -
  obtain cd e where c: "client_of fd s = Inr cd" "(cd_timer cd, e, nat fd) \<in> set ts" "fd = int (nat fd)"
    "users_timer s (nat fd) = Some cd" "cd_sockfd cd = fd" by (rule client_found [OF v fd])
  from view_entry [OF v c(2)] show ?thesis using c(1,2) by force
qed

text \<open>
  C26. In every state the event loop and the workers can reach, in any interleaving of events, ends of a
  round and the stages of the workers, as long as \<open>time\<close> does not go back: every registered client has a timer of its own that is alive; an event that the kernel may report is handled, and if
  that fails it is \<open>read_once\<close> or \<open>write\<close> of the connection that failed, or \<open>accept\<close> returned a descriptor from
  \<open>MAX_FD\<close> on, which is used as an index unchecked, never a null, dangling or unset timer; the end of a round
  always succeeds and, when the alarm had gone off, leaves no client whose own timer is due, takes one
  from the user count for every timer fired, and sets the alarm again. Nothing is claimed of the user count against the
  clients: it is updated without a lock, so that a worker's update can undo the main thread's (the last part), as much as it can be lost.
\<close>

theorem server_handles_events:
  assumes "reachable (sys_start fds) (srv_step fds) (s, ws)"
  shows "(\<forall>fd\<in>client_fds fds (srv_static s). \<exists>cd n. client_of fd s = Inr cd
        \<and> tderef (timer_lst s) (Some (cd_timer cd)) = Inr n \<and> ut_user_data n = nat fd)
    \<and> (kernel_ok fds e s \<and> handle_event fds e s = Inl x \<longrightarrow> conn_failed e s x
        \<or> x = Out_Of_Bounds \<and> ev_fd e = listenfd fds \<and> int MAX_FD \<le> fst (ans_accept e))
    \<and> (srv_clock s \<le> cur \<longrightarrow> (\<exists>s'. end_round cur s = Inr s' \<and> (timeout s \<longrightarrow>
         (\<forall>fd\<in>client_fds fds (srv_static s'). \<exists>cd n. client_of fd s' = Inr cd
            \<and> tderef (timer_lst s') (Some (cd_timer cd)) = Inr n \<and> ut_user_data n = nat fd \<and> cur < ut_expire n)
         \<and> (\<exists>fired tl. tick cur (timer_lst s) = Inr (fired, tl)
              \<and> m_user_count (srv_static s') = m_user_count (srv_static s) - int (length fired))
         \<and> srv_alarms s' = srv_alarms s @ [TIMESLOT])))
    \<and> (\<forall>us i vs s1. ws = us @ Counting i # vs \<and> kernel_ok fds e s \<and> handle_event fds e s = Inr s1 \<longrightarrow>
         (\<exists>s2. reachable (sys_start fds) (srv_step fds) (s2, us @ Finishing i # vs)
            \<and> m_user_count (srv_static s2) = m_user_count (srv_static s) - 1 \<and> client_fds fds (srv_static s2) = client_fds fds (srv_static s1)))"
proof (intro conjI allI impI)
  have inv: "srv_inv fds s" using srv_reachable_inv [OF assms] by simp
  then obtain k ts where v: "srv_view fds s k ts" by (auto simp: srv_inv_def)
  show "\<forall>fd\<in>client_fds fds (srv_static s). \<exists>cd n. client_of fd s = Inr cd
        \<and> tderef (timer_lst s) (Some (cd_timer cd)) = Inr n \<and> ut_user_data n = nat fd"
    using view_deadline [OF v] by blast
  show "conn_failed e s x \<or> x = Out_Of_Bounds \<and> ev_fd e = listenfd fds \<and> int MAX_FD \<le> fst (ans_accept e)"
    if "kernel_ok fds e s \<and> handle_event fds e s = Inl x"
    using handle_event_handled [OF inv] that by (fastforce simp: handled_def fd_too_large_def)
  show "\<exists>s'. end_round cur s = Inr s' \<and> (timeout s \<longrightarrow>
         (\<forall>fd\<in>client_fds fds (srv_static s'). \<exists>cd n. client_of fd s' = Inr cd
            \<and> tderef (timer_lst s') (Some (cd_timer cd)) = Inr n \<and> ut_user_data n = nat fd \<and> cur < ut_expire n)
         \<and> (\<exists>fired tl. tick cur (timer_lst s) = Inr (fired, tl)
              \<and> m_user_count (srv_static s') = m_user_count (srv_static s) - int (length fired))
         \<and> srv_alarms s' = srv_alarms s @ [TIMESLOT])" if "srv_clock s \<le> cur"
  proof -
    from end_round_ok [OF v that] obtain s' ts' where s': "end_round cur s = Inr s'" "srv_view fds s' k ts'"
      "timeout s \<longrightarrow> ts' = filter (\<lambda>u. cur < deadline u) ts"
      "timeout s \<longrightarrow> (\<exists>fired tl. tick cur (timer_lst s) = Inr (fired, tl)
             \<and> m_user_count (srv_static s') = m_user_count (srv_static s) - int (length fired))"
      "timeout s \<longrightarrow> srv_alarms s' = srv_alarms s @ [TIMESLOT]" by blast
    have "\<exists>cd n. client_of fd s' = Inr cd \<and> tderef (timer_lst s') (Some (cd_timer cd)) = Inr n \<and> ut_user_data n = nat fd \<and> cur < ut_expire n"
      if "timeout s" "fd \<in> client_fds fds (srv_static s')" for fd
      using view_deadline [OF s'(2) that(2)] s'(3) that(1) by force
    then show ?thesis using s'(1,4,5) by blast
  qed
  fix us i vs s1
  assume a: "ws = us @ Counting i # vs \<and> kernel_ok fds e s \<and> handle_event fds e s = Inr s1"
  let ?n = "m_user_count (srv_static s)"
  define s2 where "s2 = s1\<lparr>srv_static := (srv_static s1)\<lparr>m_user_count := ?n - 1\<rparr>\<rparr>"
  have "srv_step fds (s, us @ Counting i # vs) (s, us @ [Counted i ?n] @ vs)" by (rule srv_step.worker) simp
  moreover have "srv_step fds (s, us @ [Counted i ?n] @ vs) (s1, us @ [Counted i ?n] @ vs)" using a by (intro srv_step.event) auto
  moreover have "srv_step fds (s1, us @ Counted i ?n # vs) (s2, us @ [Finishing i] @ vs)"
    by (rule srv_step.worker) (simp add: s2_def)
  ultimately have "reachable (sys_start fds) (srv_step fds) (s2, us @ Finishing i # vs)"
    using assms a unfolding append_Cons append_Nil by (blast intro: reachable.more)
  then show "\<exists>s2. reachable (sys_start fds) (srv_step fds) (s2, us @ Finishing i # vs)
      \<and> m_user_count (srv_static s2) = ?n - 1 \<and> client_fds fds (srv_static s2) = client_fds fds (srv_static s1)"
    by (intro exI [of _ s2]) (simp add: s2_def client_fds_def)
qed

text \<open>The server as \<open>main\<close> leaves it before the loop, with listening socket 3 and signal pipe 5.\<close>

definition idle_server :: web_server where
  "idle_server = \<lparr>srv_users = (\<lambda>_. fresh_conn), users_timer = (\<lambda>_. None), timer_lst = sort_timer_lst_init,
     srv_pool = \<lparr>m_thread_number = 8, m_max_requests = 10000, m_workqueue = [], m_queuestat = 0, m_stop = False\<rparr>,
     srv_static = addfd 5 False (addfd 3 False \<lparr>m_user_count = 0, users = Map.empty, ep_ops = []\<rparr>),
     srv_log = [], srv_sent = [], timeout = False, stop_server = False, srv_clock = 0, srv_alarms = [TIMESLOT]\<rparr>"

definition server_sockets :: server_fds where
  "server_sockets = \<lparr>listenfd = 3, pipefd0 = 5\<rparr>"

definition connect_event :: "int \<Rightarrow> int \<Rightarrow> srv_event" where
  "connect_event fd t = \<lparr>ev_fd = 3, ev_flags = [EPOLLIN], ans_accept = (fd, ''10.0.0.1''), ans_recv = Recv_Error,
     ans_writev = [], ans_signals = None, ans_time = t\<rparr>"

lemma idle_start: "srv_start server_sockets idle_server"
  by (simp add: srv_start_def idle_server_def server_sockets_def addfd_def setnonblocking_def record_op_def)

lemma idle_registered: "registered (srv_static idle_server) = {3, 5}"
  by (simp add: idle_server_def registered_def) (simp add: addfd_def setnonblocking_def record_op_def insert_commute)

lemma idle_view: "srv_view server_sockets idle_server 0 []"
proof -
  have "client_fds server_sockets (srv_static idle_server) = {}"
    unfolding client_fds_def idle_registered by (simp add: server_sockets_def)
  moreover have "timer_lst idle_server = sort_timer_lst_init" "m_user_count (srv_static idle_server) = 0"
    by (simp_all add: idle_server_def addfd_def setnonblocking_def)
  ultimately show ?thesis using timers_init by (simp add: srv_view_def data_ok_def reg_ok_def)
qed

lemma idle_connect:
  "\<exists>s. on_accept (connect_event 7 1) idle_server = Inr s \<and> client_fds server_sockets (srv_static s) = {7}
     \<and> srv_view server_sockets s 1 [(0, 16, 7)] \<and> srv_clock s = 1 \<and> m_sockfd (srv_users s 7) = 7 \<and> m_user_count (srv_static s) = 1"
proof -
  have "client_fds server_sockets (srv_static idle_server) = {}"
    unfolding client_fds_def idle_registered by (simp add: server_sockets_def)
  moreover have "srv_clock idle_server = 0" "m_user_count (srv_static idle_server) = 0"
    by (simp_all add: idle_server_def addfd_def setnonblocking_def)
  ultimately show ?thesis using on_accept_new [OF idle_view, of "connect_event 7 1" 7 "''10.0.0.1''"] idle_registered
    by (auto simp: connect_event_def server_sockets_def MAX_FD_def TIMESLOT_def)
qed

definition alarm_event :: srv_event where
  "alarm_event = \<lparr>ev_fd = 5, ev_flags = [EPOLLIN], ans_accept = (-1, []), ans_recv = Recv_Error,
     ans_writev = [], ans_signals = Some [SIGALRM], ans_time = 15\<rparr>"

theorem server_handles_events_witness:
  "\<exists>s s'. client_fds server_sockets (srv_static s) = {7} \<and> timeout s \<and> end_round 20 s = Inr s'
     \<and> srv_alarms s' = srv_alarms s @ [TIMESLOT] \<and> 7 \<notin> client_fds server_sockets (srv_static s')"
proof -
  obtain s where s: "on_accept (connect_event 7 1) idle_server = Inr s" "client_fds server_sockets (srv_static s) = {7}" "srv_clock s = 1"
    "srv_view server_sockets s 1 [(0, 16, 7)]"
    using idle_connect by blast
  define s' where "s' = s\<lparr>timeout := True, stop_server := stop_server s\<rparr>"
  have "kernel_ok server_sockets (connect_event 7 1) idle_server"
    by (simp add: kernel_ok_def idle_registered) (simp add: connect_event_def server_sockets_def MAX_FD_def idle_server_def)
  moreover have "handle_event server_sockets (connect_event 7 1) idle_server = Inr s"
    using s(1) by (simp add: handle_event_def connect_event_def server_sockets_def)
  ultimately have "srv_step server_sockets (idle_server, []) (s, [])" by (rule srv_step.event)
  moreover have "kernel_ok server_sockets alarm_event s" "handle_event server_sockets alarm_event s = Inr s'"
    using s(3) by (simp_all add: kernel_ok_def alarm_event_def server_sockets_def handle_event_def on_signal_def s'_def SIGALRM_def SIGTERM_def)
  then have "srv_step server_sockets (s, []) (s', [])" by (rule srv_step.event)
  ultimately have "reachable (sys_start server_sockets) (srv_step server_sockets) (s', [])"
    using reachable.first [of "sys_start server_sockets" "(idle_server, [])"] idle_start
    by (auto simp: sys_start_def intro: reachable.more)
  from server_handles_events [OF this, of alarm_event No_Return 20]
  obtain s'' where s'': "end_round 20 s' = Inr s''" "srv_alarms s'' = srv_alarms s' @ [TIMESLOT]"
    using s(3) by (auto simp: s'_def)
  moreover have "srv_view server_sockets s' 1 [(0, 16, 7)]" using srv_view_cong [OF s(4)] by (simp add: s'_def)
  from end_round_ok [OF this, of 20] have "7 \<notin> client_fds server_sockets (srv_static s'')"
    using s(3) s''(1) by (auto simp: s'_def)
  ultimately show ?thesis using s(2) by (intro exI [of _ s'] exI [of _ s'']) (simp add: s'_def)
qed

text \<open>
  C27. A worker that closes a connection (\<open>close_conn\<close>) leaves its timer in the list. When the kernel gives the
  descriptor to the next client, the old timer closes that client at its own deadline, although
  the new client's timer is not due.
\<close>

theorem stale_timer_closes_new_client:
  assumes v: "srv_view fds s k ts" and d: "d < MAX_FD" "int d \<notin> insert (listenfd fds) (insert (pipefd0 fds) (interest s))"
    and room: "m_user_count (srv_static s) < int MAX_FD"
    and e0: "ans_accept e0 = (int d, peer0)" "srv_clock s \<le> ans_time e0"
    and e1: "ans_accept e1 = (int d, peer1)" "ans_time e0 \<le> ans_time e1"
    and cur: "ans_time e0 + 3 * TIMESLOT \<le> cur" "cur < ans_time e1 + 3 * TIMESLOT" "ans_time e1 \<le> cur"
  shows "\<exists>s1 s2 s3. on_accept e0 s = Inr s1
    \<and> on_accept e1 (s1\<lparr>srv_static := snd (close_conn True (srv_users s1 d) (srv_static s1))\<rparr>) = Inr s2
    \<and> int d \<in> client_fds fds (srv_static s2)
    \<and> (\<exists>cd n. client_of (int d) s2 = Inr cd \<and> tderef (timer_lst s2) (Some (cd_timer cd)) = Inr n \<and> cur < ut_expire n)
    \<and> end_round cur (s2\<lparr>timeout := True\<rparr>) = Inr s3 \<and> int d \<notin> client_fds fds (srv_static s3)"
proof -
  from on_accept_new [OF v e0(1) d e0(2) room] obtain s1 where s1: "on_accept e0 s = Inr s1"
    "srv_view fds s1 (Suc k) (spec_add (k, ans_time e0 + 3 * TIMESLOT, d) ts)" "srv_clock s1 = ans_time e0"
    "m_sockfd (srv_users s1 d) = int d" "m_user_count (srv_static s1) = m_user_count (srv_static s) + 1" by blast
  define g where "g = snd (close_conn True (srv_users s1 d) (srv_static s1))"
  define s1' where "s1' = s1\<lparr>srv_static := g\<rparr>"
  have g: "registered g = interest s1 - {int d}" "m_user_count g = m_user_count (srv_static s)"
    using s1(4,5) by (simp_all add: g_def close_conn_def removefd_def)
  have v1: "srv_view fds s1' (Suc k) (spec_add (k, ans_time e0 + 3 * TIMESLOT, d) ts)"
    using g by (intro view_closed [OF s1(2)]) (auto simp: s1'_def fewer_registered_def same_timers_def)
  have "int d \<notin> insert (listenfd fds) (insert (pipefd0 fds) (interest s1'))" "srv_clock s1' \<le> ans_time e1"
    "m_user_count (srv_static s1') < int MAX_FD"
    using d(2) g room e1(2) s1(3) by (simp_all add: s1'_def)
  from on_accept_new [OF v1 e1(1) d(1) this] obtain s2 where s2: "on_accept e1 s1' = Inr s2"
    "srv_view fds s2 (Suc (Suc k)) (spec_add (Suc k, ans_time e1 + 3 * TIMESLOT, d) (spec_add (k, ans_time e0 + 3 * TIMESLOT, d) ts))"
    "client_fds fds (srv_static s2) = insert (int d) (client_fds fds (srv_static s1'))" "srv_clock s2 = ans_time e1"
    "users_timer s2 = (users_timer s1')(d \<mapsto> \<lparr>cd_address = peer1, cd_sockfd = int d, cd_timer = Suc k\<rparr>)" by blast
  have live: "\<exists>n. tderef (timer_lst s2) (Some (Suc k)) = Inr n \<and> ut_expire n = ans_time e1 + 3 * TIMESLOT"
    using view_entry [OF s2(2), of "(Suc k, ans_time e1 + 3 * TIMESLOT, d)"] by auto
  have "srv_view fds (s2\<lparr>timeout := True\<rparr>) (Suc (Suc k)) (spec_add (Suc k, ans_time e1 + 3 * TIMESLOT, d)
      (spec_add (k, ans_time e0 + 3 * TIMESLOT, d) ts))" by (rule srv_view_cong [OF s2(2)]) simp_all
  from end_round_ok [OF this, of cur] obtain s3 where "end_round cur (s2\<lparr>timeout := True\<rparr>) = Inr s3"
    "int d \<notin> client_fds fds (srv_static s3)" using cur s2(4) by force
  then show ?thesis using s1(1) s2(1,3) live cur(2) s2(5) d(1)
    by (intro exI [of _ s1] exI [of _ s2] exI [of _ s3]) (auto simp: client_of_def s1'_def g_def)
qed

theorem stale_timer_closes_new_client_witness:
  "\<exists>s1 s2 s3. on_accept (connect_event 7 1) idle_server = Inr s1
    \<and> on_accept (connect_event 7 10) (s1\<lparr>srv_static := snd (close_conn True (srv_users s1 7) (srv_static s1))\<rparr>) = Inr s2
    \<and> end_round 16 (s2\<lparr>timeout := True\<rparr>) = Inr s3 \<and> 7 \<in> client_fds server_sockets (srv_static s2)
    \<and> 7 \<notin> client_fds server_sockets (srv_static s3)"
proof -
  have "m_user_count (srv_static idle_server) = 0" "srv_clock idle_server = 0"
    by (simp_all add: idle_server_def addfd_def setnonblocking_def)
  then show ?thesis
    using stale_timer_closes_new_client [OF idle_view, where d = 7 and ?e0.0 = "connect_event 7 1" and ?e1.0 = "connect_event 7 10"
        and cur = 16 and ?peer0.0 = "''10.0.0.1''" and ?peer1.0 = "''10.0.0.1''"] idle_registered
    by (auto simp: connect_event_def server_sockets_def MAX_FD_def TIMESLOT_def)
qed

end
