(* ===== verification/Socket_Tool.thy ===== *)
theory Socket_Tool
  imports Cxx_Strings C_Strings
begin

text \<open>
  The socket helpers of the distributed cache (socketTool.h and socketTool.cpp): the wrappers that end the
  process when a system call fails, the retry loops of reading and writing, and the address and
  random strings. A system call is its answer; a loop takes the list of the answers it meets, and a
  list that ends is a call that has not returned (\<open>No_Return\<close>).
\<close>

section \<open>Wrappers\<close>

datatype errno = EINTR | EAGAIN | ECONNABORTED | Other_Errno

text \<open>\<open>perr_exit\<close> ends the process.\<close>

definition perr_exit :: "'a res" where
  "perr_exit = Inl Process_Exit"

definition Socket :: "int \<Rightarrow> int res" where
  "Socket fd = (if fd < 0 then perr_exit else Inr fd)"

definition Connect :: "int \<Rightarrow> int res" where
  "Connect n = (if n < 0 then perr_exit else Inr n)"

definition Bind :: "int \<Rightarrow> int res" where
  "Bind n = (if n < 0 then perr_exit else Inr n)"

definition Listen :: "int \<Rightarrow> int res" where
  "Listen n = (if n < 0 then perr_exit else Inr n)"

definition Close :: "int \<Rightarrow> int res" where
  "Close n = (if n < 0 then perr_exit else Inr n)"

definition Epoll_create :: "int \<Rightarrow> int res" where
  "Epoll_create efd = (if efd < 0 then perr_exit else Inr efd)"

definition Epoll_ctl :: "int \<Rightarrow> int res" where
  "Epoll_ctl n = (if n < 0 then perr_exit else Inr n)"

definition Epoll_wait :: "int \<Rightarrow> int res" where
  "Epoll_wait n = (if n < 0 then perr_exit else Inr n)"

definition Pthread_create :: "int \<Rightarrow> unit res" where
  "Pthread_create n = (if n = 0 then Inr () else perr_exit)"

text \<open>\<open>Accept\<close> tries again after an aborted connection or a signal; descriptor 0 counts as a failure.\<close>

fun Accept :: "(int \<times> errno) list \<Rightarrow> int res" where
  "Accept [] = Inl No_Return"
| "Accept ((n, e) # as) =
     (if 0 < n then Inr n else if e = ECONNABORTED \<or> e = EINTR then Accept as else perr_exit)"

text \<open>
  Each round has the answers of \<open>socket\<close> and \<open>connect\<close>; \<open>Connect\<close> ends the process before the loop could repeat. A caller that does not
  claim the first call makes \<open>Socket_connect\<close> close a descriptor that was never assigned.
\<close>

fun connect_rounds :: "(int \<times> int) list \<Rightarrow> int res" where
  "connect_rounds [] = Inl No_Return"
| "connect_rounds ((s, c) # as) =
     bind_res (Socket s) (\<lambda>fd. bind_res (Connect c) (\<lambda>n. if n < 0 then connect_rounds as else Inr fd))"

definition Socket_connect :: "bool \<Rightarrow> (int \<times> int) list \<Rightarrow> int res" where
  "Socket_connect first_call as = (if first_call then connect_rounds as else Inl Uninit_Read)"

record info_conn =
  cfd :: int
  conn_n :: int

definition Socket_connect_info :: "int \<Rightarrow> int \<Rightarrow> info_conn res" where
  "Socket_connect_info s c = bind_res (Socket s) (\<lambda>fd. Inr \<lparr>cfd = fd, conn_n = c\<rparr>)"

section \<open>Addresses, random strings, key files\<close>

record ipport_pair =
  ip_port :: int
  ip_addr :: string

definition get_ipport :: "string \<Rightarrow> ipport_pair res" where
  "get_ipport addr =
     (let cut = find_last_of addr (CHR '':'') in
      bind_res (stoi (cut_after addr cut)) (\<lambda>p. Inr \<lparr>ip_port = p, ip_addr = cut_before addr cut\<rparr>))"

text \<open>\<open>RAND(min,max)\<close> and one character, given two values of \<open>rand()\<close>.\<close>

definition RAND :: "nat \<Rightarrow> nat \<Rightarrow> nat \<Rightarrow> nat" where
  "RAND lo hi r = r mod (hi + 1 - lo) + lo"

definition rand_char :: "nat \<Rightarrow> nat \<Rightarrow> char" where
  "rand_char r1 r2 =
     char_of (if r1 mod 3 = 1 then RAND 65 90 r2 else if r1 mod 3 = 2 then RAND 97 122 r2 else RAND 48 57 r2)"

text \<open>
  After the loop \<open>i\<close> is \<open>len\<close>, so \<open>ans[++i] = 0\<close> writes two places behind the last character.
\<close>

definition RandStr :: "(nat \<times> nat) list \<Rightarrow> string res" where
  "RandStr rs = (let ans = map (\<lambda>(r1, r2). rand_char r1 r2) rs in vset ans (length rs + 1) NUL)"

text \<open>\<open>getline\<close> until the end of the file.\<close>

fun split_lines :: "string \<Rightarrow> string \<Rightarrow> string list" where
  "split_lines line [] = [line]"
| "split_lines line (c # cs) = (if c = LF then line # split_lines [] cs else split_lines (line @ [c]) cs)"

text \<open>A file that cannot be opened never reaches its end, and the loop goes on forever.\<close>

definition ReadText :: "string option \<Rightarrow> int \<Rightarrow> string res" where
  "ReadText content line =
     (case content of None \<Rightarrow> Inl No_Return | Some s \<Rightarrow> vget_int (split_lines [] s) (line - 1))"

section \<open>Reading and writing\<close>

text \<open>
  An answer of \<open>read\<close>: the bytes, none at the end of the stream, or \<open>None\<close> for a failure; and \<open>errno\<close>, which keeps
  its old value when the call succeeds.
\<close>

type_synonym read_answer = "string option \<times> errno"

text \<open>Three failures other than an interrupt end the process; \<open>j\<close> counts them.\<close>

fun Read_from :: "nat \<Rightarrow> read_answer list \<Rightarrow> char list \<Rightarrow> (int \<times> char list) res" where
  "Read_from j [] buf = Inl No_Return"
| "Read_from j ((Some bs, e) # as) buf = bind_res (vcopy buf 0 bs) (\<lambda>b. Inr (int (length bs), b))"
| "Read_from j ((None, e) # as) buf =
     (if e = EINTR then Read_from j as buf
      else if j + 1 > 2 then perr_exit else Read_from (j + 1) as buf)"

definition Read :: "read_answer list \<Rightarrow> char list \<Rightarrow> (int \<times> char list) res" where
  "Read as buf = Read_from 0 as buf"

fun ReadOnce :: "read_answer list \<Rightarrow> char list \<Rightarrow> (int \<times> char list) res" where
  "ReadOnce [] buf = Inl No_Return"
| "ReadOnce ((Some bs, e) # as) buf = bind_res (vcopy buf 0 bs) (\<lambda>b. Inr (int (length bs), b))"
| "ReadOnce ((None, e) # as) buf = (if e = EINTR \<or> e = EAGAIN then ReadOnce as buf else Inr (-1, buf))"

text \<open>An answer of \<open>write\<close>: the number of bytes, negative for a failure.\<close>

fun Write :: "(int \<times> errno) list \<Rightarrow> int res" where
  "Write [] = Inl No_Return"
| "Write ((n, e) # as) = (if 0 \<le> n then Inr n else if e = EINTR \<or> e = EAGAIN then Write as else Inr (-1))"

text \<open>
  \<open>Unblock_read_net\<close> reads as long as bytes come, each time to the start of the buffer; \<open>collect\<close> is the
  inner loop that copies up to the first terminator.
\<close>

fun collect :: "string \<Rightarrow> string \<Rightarrow> bool \<times> string" where
  "collect res [] = (False, res)"
| "collect res (c # cs) = (if c = NUL then (True, res) else collect (res @ [c]) cs)"

fun unblock_loop :: "read_answer list \<Rightarrow> bool \<Rightarrow> string \<Rightarrow> char list \<Rightarrow> (int \<times> string \<times> char list) res" where
  "unblock_loop [] flag res buf = Inl No_Return"
| "unblock_loop ((Some bs, e) # as) flag res buf =
     bind_res (vcopy buf 0 bs) (\<lambda>b.
     (let (flag1, res1) = (if bs \<noteq> [] \<and> \<not> flag then collect res bs else (flag, res)) in
      if bs \<noteq> [] \<or> e = EINTR then unblock_loop as flag1 res1 b else Inr (0, res1, b)))"
| "unblock_loop ((None, e) # as) flag res buf =
     (if e = EINTR then unblock_loop as flag res buf else Inr (-1, res, buf))"

definition Unblock_read_net :: "read_answer list \<Rightarrow> char list \<Rightarrow> (int \<times> char list) res" where
  "Unblock_read_net as buf =
     bind_res (unblock_loop as False [] buf) (\<lambda>(n, res, b).
     if res = [] then Inr (n, b)
     else bind_res (vcopy b 0 (res @ [NUL])) (\<lambda>b1. Inr (int (length res), b1)))"

section \<open>Addresses round trip\<close>

lemma get_ipport_print:
  assumes "0 \<le> p" "p \<le> INT_MAX"
  shows "get_ipport (ip @ CHR '':'' # to_string p) = Inr \<lparr>ip_port = p, ip_addr = ip\<rparr>"
proof -
  have str: "to_string p = nat_str (nat p)" using assms by (simp add: to_string_def)
  have "CHR '':'' \<notin> set (nat_str (nat p))" by (rule colon_not_digit [OF nat_str_digits])
  then have "find_last_of (ip @ CHR '':'' # nat_str (nat p)) (CHR '':'') = Some (length ip)" by (rule find_last_of_append)
  moreover have "stoi (nat_str (nat p)) = Inr p" using stoi_nat_str [of "nat p"] assms by simp
  ultimately show ?thesis by (simp add: get_ipport_def str cut_after_def cut_before_def Let_def)
qed

section \<open>The message of a non-blocking read\<close>

lemma collect_spec: "collect res bs = (NUL \<in> set bs, res @ takeWhile (\<lambda>c. c \<noteq> NUL) bs)"
  by (induction res bs rule: collect.induct) auto

text \<open>What was collected from the chunks so far.\<close>

definition message :: "string list \<Rightarrow> string" where
  "message chunks = takeWhile (\<lambda>c. c \<noteq> NUL) (concat chunks)"

lemma unblock_loop_spec:
  assumes "\<forall>bs\<in>set chunks. bs \<noteq> [] \<and> length bs \<le> length buf" and "last_ans = (None, e) \<or> last_ans = (Some [], e)" and "e \<noteq> EINTR"
  shows "\<exists>b. unblock_loop (map (\<lambda>bs. (Some bs, f bs)) chunks @ [last_ans]) flag res buf =
     Inr (if fst last_ans = None then -1 else 0, if flag then res else res @ message chunks, b) \<and> length b = length buf"
  using assms(1)
proof (induction chunks arbitrary: flag res buf)
  case Nil
  then show ?case using assms(2,3) by (auto simp: message_def vcopy_def)
next
  case (Cons bs chunks)
  define b where "b = bs @ drop (length bs) buf"
  have b: "vcopy buf 0 bs = Inr b" "length b = length buf" using Cons.prems by (auto simp: vcopy_def b_def)
  have IH: "\<exists>b'. unblock_loop (map (\<lambda>bs. (Some bs, f bs)) chunks @ [last_ans]) flag' res' b =
     Inr (if fst last_ans = None then -1 else 0, if flag' then res' else res' @ message chunks, b') \<and> length b' = length b" for flag' res'
    using Cons.prems b(2) by (intro Cons.IH) simp
  have "message (bs # chunks) = (if NUL \<in> set bs then takeWhile (\<lambda>c. c \<noteq> NUL) bs else bs @ message chunks)"
    by (auto simp: message_def takeWhile_append intro: takeWhile_cong)
  moreover have "takeWhile (\<lambda>c. c \<noteq> NUL) bs = bs" if "NUL \<notin> set bs" using that by (auto simp: takeWhile_eq_all_conv)
  ultimately show ?case
    using b Cons.prems IH [of "flag \<or> NUL \<in> set bs" "if flag then res else res @ takeWhile (\<lambda>c. c \<noteq> NUL) bs"]
    by (cases flag; cases "NUL \<in> set bs") (auto simp: collect_spec Let_def)
qed

text \<open>
  C31. Socket helpers. An address printed as \<open>ip:port\<close> is taken apart again exactly. A message that
  arrives in any number of reads, each within the buffer, is delivered up to its terminator and
  terminated, with its length as the answer, if it is shorter than the buffer; a message that is not
  shorter is written behind the end of the buffer, however small the single reads were.
\<close>

theorem socket_tool_messages:
  assumes "\<forall>bs\<in>set chunks. bs \<noteq> [] \<and> length bs \<le> length buf" "e \<noteq> EINTR" "message chunks \<noteq> []" "0 \<le> p" "p \<le> INT_MAX"
  shows "get_ipport (ip @ CHR '':'' # to_string p) = Inr \<lparr>ip_port = p, ip_addr = ip\<rparr>
    \<and> (if length (message chunks) < length buf
       then \<exists>b. Unblock_read_net (map (\<lambda>bs. (Some bs, f bs)) chunks @ [(None, e)]) buf = Inr (int (length (message chunks)), b)
              \<and> cstr b 0 = Inr (message chunks) \<and> length b = length buf
       else Unblock_read_net (map (\<lambda>bs. (Some bs, f bs)) chunks @ [(None, e)]) buf = Inl Out_Of_Bounds)"
proof -
  from unblock_loop_spec [OF assms(1), of "(None, e)" e f False "[]"] assms(2) obtain b
    where b: "unblock_loop (map (\<lambda>bs. (Some bs, f bs)) chunks @ [(None, e)]) False [] buf = Inr (-1, message chunks, b)"
      "length b = length buf" by auto
  have nn: "NUL \<notin> set (message chunks)" by (auto simp: message_def dest: set_takeWhileD)
  have "cstr (message chunks @ NUL # drop (length (message chunks) + 1) b) 0 = Inr (message chunks)"
    using holds_strI [OF nn, of "[]" 0] by (simp add: cstr_holds)
  then show ?thesis using b assms get_ipport_print [OF assms(4,5)] by (auto simp: Unblock_read_net_def vcopy_def)
qed

theorem socket_tool_messages_witness:
  "get_ipport ''10.0.0.1:80'' = Inr \<lparr>ip_port = 80, ip_addr = ''10.0.0.1''\<rparr>
   \<and> Unblock_read_net [(Some ''ab'', EAGAIN), (Some ''cd'', EAGAIN), (None, EAGAIN)] ''....'' = Inl Out_Of_Bounds"
proof -
  have "to_string 80 = ''80''" "message [''ab'', ''cd''] = ''abcd''" "(80::int) \<le> INT_MAX" by code_simp+
  then show ?thesis
    using socket_tool_messages [of "[''ab'', ''cd'']" "''....''" EAGAIN 80 "''10.0.0.1''" "\<lambda>_. EAGAIN"]
    by (simp del: unblock_loop.simps)
qed

end
