(* ===== verification/Dcs_Connection.thy ===== *)
theory Dcs_Connection
  imports Byte_Buffer Socket_Tool
begin

text \<open>
  A connection of the cache servers (Mini_DCS: common/connection.h and connection.cpp, response.cpp): the two
  byte buffers, the vector of the pending output and the flags. The answers of \<open>readv\<close> and \<open>writev\<close> are
  arguments; the bytes that leave are a result.
\<close>

section \<open>State\<close>

text \<open>\<open>sockaddr_in\<close>: the address as \<open>inet_ntoa\<close> prints it, the port in network byte order.\<close>

record sock_addr =
  sin_addr :: string
  sin_port :: "16 word"

text \<open>
  \<open>iov_[0]\<close> is a position in the write buffer and a length. No function ever assigns \<open>iov_[1]\<close> before it is read:
  \<open>None\<close> is such a member for a compiler that takes the read for undefined, \<open>Some g\<close> one that holds the word \<open>g\<close> the memory
  had before.
\<close>

record dcs_conn =
  conn_fd :: int
  conn_addr :: sock_addr
  conn_isClose :: bool
  iovCnt :: "nat option"
  iov0_base :: nat
  iov0_len :: nat
  iov1_len :: "nat option"
  readBuf :: buffer
  writeBuf :: buffer
  needSend :: bool

definition Connection_new :: "nat \<Rightarrow> dcs_conn" where
  "Connection_new initBufferSize =
     \<lparr>conn_fd = -1, conn_addr = \<lparr>sin_addr = ''0.0.0.0'', sin_port = 0\<rparr>, conn_isClose = True, iovCnt = None, iov0_base = 0,
      iov0_len = 0, iov1_len = None, readBuf = Buffer_init initBufferSize, writeBuf = Buffer_init initBufferSize,
      needSend = False\<rparr>"

section \<open>Operations\<close>

text \<open>The second component is the static \<open>userCount\<close>.\<close>

definition initConnection :: "int \<Rightarrow> sock_addr \<Rightarrow> dcs_conn \<Rightarrow> int \<Rightarrow> (dcs_conn \<times> int) res" where
  "initConnection sockFd addr c userCount =
     bind_res (assert_res (0 < sockFd)) (\<lambda>_.
     Inr (c\<lparr>conn_addr := addr, conn_fd := sockFd, readBuf := initPtr (readBuf c),
            writeBuf := initPtr (writeBuf c), conn_isClose := False\<rparr>, userCount + 1))"

text \<open>The third result says whether the descriptor is closed.\<close>

definition closeConnect :: "dcs_conn \<Rightarrow> int \<Rightarrow> dcs_conn \<times> int \<times> bool" where
  "closeConnect c userCount =
     (if conn_isClose c then (c, userCount, False) else (c\<lparr>conn_isClose := True\<rparr>, userCount - 1, True))"

fun read_loop :: "bool \<Rightarrow> readv_answer list \<Rightarrow> buffer \<Rightarrow> int \<Rightarrow> (int \<times> int \<times> buffer) res" where
  "read_loop isET [] b err = Inl No_Return"
| "read_loop isET (a # as) b err =
     bind_res (readFd (\<lambda>_ _. a) b err) (\<lambda>(b1, len, err1).
     if len \<le> 0 \<or> \<not> isET then Inr (len, err1, b1) else read_loop isET as b1 err1)"

definition conn_readBuffer :: "bool \<Rightarrow> readv_answer list \<Rightarrow> dcs_conn \<Rightarrow> (int \<times> int \<times> dcs_conn) res" where
  "conn_readBuffer isET as c =
     bind_res (read_loop isET as (readBuf c) 0) (\<lambda>(len, err, b). Inr (len, err, c\<lparr>readBuf := b\<rparr>))"

text \<open>The sum of the two lengths is a \<open>size_t\<close>, the result an \<open>int\<close>.\<close>

definition size_to_int :: "nat \<Rightarrow> int" where
  "size_to_int n = (int n + 2 ^ 31) mod 2 ^ 32 - 2 ^ 31"

definition writeBytes :: "dcs_conn \<Rightarrow> int res" where
  "writeBytes c = (case iov1_len c of None \<Rightarrow> Inl Uninit_Read | Some l1 \<Rightarrow> Inr (size_to_int (sz_add l1 (iov0_len c))))"

text \<open>One \<open>writev\<close> that took \<open>n\<close> bytes; the answer \<open>False\<close> is the \<open>break\<close> of an empty vector.\<close>

definition advance_out :: "nat \<Rightarrow> dcs_conn \<Rightarrow> (bool \<times> dcs_conn) res" where
  "advance_out n c =
     (case iov1_len c of
        None \<Rightarrow> Inl Uninit_Read
      | Some l1 \<Rightarrow>
          if sz_add (iov0_len c) l1 = 0 then Inr (False, c)
          else if iov0_len c < n then
            (let c1 = c\<lparr>iov1_len := Some (sz_sub l1 (n - iov0_len c))\<rparr> in
             Inr (True, if iov0_len c \<noteq> 0 then c1\<lparr>writeBuf := initPtr (writeBuf c1), iov0_len := 0\<rparr> else c1))
          else
            bind_res (updateReadPtr (writeBuf c) n) (\<lambda>wb.
            Inr (True, c\<lparr>iov0_base := iov0_base c + n, iov0_len := iov0_len c - n, writeBuf := wb\<rparr>)))"

fun write_out :: "bool \<Rightarrow> write_answer list \<Rightarrow> int \<Rightarrow> string \<Rightarrow> dcs_conn \<Rightarrow> (int \<times> int \<times> string \<times> dcs_conn) res" where
  "write_out isET [] err sent c = Inl No_Return"
| "write_out isET (Write_Error e # as) err sent c = Inr (-1, e, sent, c)"
| "write_out isET (Write_Count n # as) err sent c =
     (if n = 0 then Inr (0, err, sent, c)
      else
        bind_res (bytes_from (writeBuf c) (iov0_base c) (iov0_len c)) (\<lambda>bytes.
        bind_res (advance_out n c) (\<lambda>(more, c1).
        if \<not> more then Inr (int n, err, sent @ take n bytes, c1)
        else
          bind_res (if isET then Inr 0 else writeBytes c1) (\<lambda>left.
          if isET \<or> left > 10240 then write_out isET as err (sent @ take n bytes) c1
          else Inr (int n, err, sent @ take n bytes, c1)))))"

definition conn_writeBuffer :: "bool \<Rightarrow> write_answer list \<Rightarrow> dcs_conn \<Rightarrow> (int \<times> int \<times> string \<times> dcs_conn) res" where
  "conn_writeBuffer isET as c = (if iovCnt c = None then Inl Uninit_Read else write_out isET as 0 [] c)"

definition makeResponse :: "buffer \<Rightarrow> string \<Rightarrow> buffer res" where
  "makeResponse buff msg = append_string buff msg"

definition setNeedSend :: "dcs_conn \<Rightarrow> dcs_conn" where
  "setNeedSend c = c\<lparr>needSend := True\<rparr>"

definition connnectionSend :: "string \<Rightarrow> dcs_conn \<Rightarrow> dcs_conn res" where
  "connnectionSend msg c =
     (let c1 = setNeedSend c in
      bind_res (makeResponse (writeBuf c1) msg) (\<lambda>wb.
      Inr (c1\<lparr>writeBuf := wb, iov0_base := curReadPtr wb, iov0_len := readableBytes wb, iovCnt := Some 1\<rparr>)))"

section \<open>Input\<close>

text \<open>
  In the edge-triggered mode the server uses, reading goes on until \<open>readv\<close> fails or the peer has closed;
  everything that came is then in the buffer.
\<close>

lemma read_loop_collects:
  assumes "buffer_inv b" "room_for b extra_size" "ds \<noteq> []" "length ds \<le> extra_size"
  shows "\<exists>b'. read_loop True [Readv_Data ds, Readv_Error e] b err = Inr (-1, e, b')
           \<and> buffer_inv b' \<and> contents b' = contents b @ ds"
proof -
  from readFd_data [of b "\<lambda>_ _. Readv_Data ds" ds err] assms obtain b1
    where "readFd (\<lambda>_ _. Readv_Data ds) b err = Inr (b1, int (length ds), err)" "buffer_inv b1" "contents b1 = contents b @ ds"
    by auto
  then show ?thesis using assms(3) by (simp add: readFd_error)
qed

text \<open>A piece that leaves a byte of the buffer free.\<close>

lemma read_loop_small:
  assumes b: "buffer_inv b" and ds: "ds \<noteq> []" "length ds < writeableBytes b"
  shows "\<exists>b'. read_loop True [Readv_Data ds, Readv_Error e] b err = Inr (-1, e, b')
           \<and> buffer_inv b' \<and> contents b' = contents b @ ds \<and> writePos b' < length (buffer_bytes b')"
proof -
  have le: "length ds \<le> writeableBytes b" using ds(2) by simp
  define v where "v = take (writePos b) (buffer_bytes b) @ ds @ drop (writePos b + length ds) (buffer_bytes b)"
  note w = write_bytes_ok [OF b le, folded v_def]
  define b' where "b' = b\<lparr>buffer_bytes := v, writePos := writePos b + length ds\<rparr>"
  have "writePos b + length ds \<le> vec_max" using w(2) by (simp add: buffer_defs)
  then have "sz_add (writePos b) (length ds) = writePos b + length ds" by (simp add: vec_max_def)
  then have "readFd (\<lambda>_ _. Readv_Data ds) b err = Inr (b', int (length ds), err)"
    using w(1) le by (simp add: readFd_def Let_def b'_def del: writeableBytes_inv)
  moreover have "writePos b' < length (buffer_bytes b')" using ds(2) b w(4) by (simp add: b'_def)
  ultimately show ?thesis using ds(1) w(2,3) by (simp add: readFd_error b'_def)
qed

section \<open>Output\<close>

text \<open>The first vector describes exactly the readable bytes of the write buffer.\<close>

definition out_ok :: "dcs_conn \<Rightarrow> bool" where
  "out_ok c \<longleftrightarrow> buffer_inv (writeBuf c) \<and> iovCnt c = Some 1 \<and> iov0_base c = curReadPtr (writeBuf c)
     \<and> iov0_len c = length (contents (writeBuf c))"

lemma connnectionSend_ok:
  assumes "buffer_inv (writeBuf c)" "room_for (writeBuf c) (length msg)"
  shows "\<exists>wb i n. connnectionSend msg c = Inr (c\<lparr>needSend := True, writeBuf := wb, iov0_base := i, iov0_len := n, iovCnt := Some 1\<rparr>)
     \<and> out_ok (c\<lparr>needSend := True, writeBuf := wb, iov0_base := i, iov0_len := n, iovCnt := Some 1\<rparr>)
     \<and> contents wb = contents (writeBuf c) @ msg"
proof -
  from append_chars_ok [OF assms(1,2) refl] obtain wb where wb: "append_string (writeBuf c) msg = Inr wb" "buffer_inv wb"
    "contents wb = contents (writeBuf c) @ msg" by (auto simp: append_string_def)
  have "readableBytes wb = length (contents (writeBuf c)) + length msg" using wb(2,3) by (metis length_contents length_append)
  then show ?thesis using wb
    apply (rule_tac x = wb in exI, rule_tac x = "curReadPtr wb" in exI, rule_tac x = "readableBytes wb" in exI)
    by (simp add: connnectionSend_def setNeedSend_def makeResponse_def out_ok_def Let_def del: readableBytes_inv)
qed

lemma advance_out_ok:
  assumes c: "out_ok c" and n: "0 < n" "n \<le> length (contents (writeBuf c))"
    and g: "iov1_len c = Some g" "g + length (contents (writeBuf c)) < 2 ^ 64"
  shows "\<exists>wb. advance_out n c = Inr (True, c\<lparr>iov0_base := iov0_base c + n, iov0_len := iov0_len c - n, writeBuf := wb\<rparr>)
     \<and> out_ok (c\<lparr>iov0_base := iov0_base c + n, iov0_len := iov0_len c - n, writeBuf := wb\<rparr>)
     \<and> contents wb = drop n (contents (writeBuf c))"
proof -
  have inv: "buffer_inv (writeBuf c)" using c by (simp add: out_ok_def)
  have le: "n \<le> readableBytes (writeBuf c)" using n(2) inv by simp
  from updateReadPtr_ok [OF inv le] obtain wb where wb: "updateReadPtr (writeBuf c) n = Inr wb" "buffer_inv wb"
    "contents wb = drop n (contents (writeBuf c))" by blast
  have len: "iov0_len c = length (contents (writeBuf c))" using c by (simp add: out_ok_def)
  then have "sz_add (iov0_len c) g = iov0_len c + g" using g(2) by (intro sz_add_small) simp
  then have "sz_add (iov0_len c) g \<noteq> 0" "\<not> iov0_len c < n" using n len by linarith+
  then have adv: "advance_out n c = Inr (True, c\<lparr>iov0_base := iov0_base c + n, iov0_len := iov0_len c - n, writeBuf := wb\<rparr>)"
    using g(1) wb(1) by (simp add: advance_out_def)
  have "readPos wb = readPos (writeBuf c) + n"
    using wb(1) le inv by (auto simp: updateReadPtr_def buffer_defs res_simps)
  then show ?thesis using wb c adv by (intro exI [of _ wb]) (auto simp: out_ok_def curReadPtr_def)
qed

lemma write_out_sends:
  assumes "out_ok c" "\<forall>n\<in>set ns. 0 < n" "sum_list ns \<le> length (contents (writeBuf c))"
    "iov1_len c = Some g" "g + length (contents (writeBuf c)) < 2 ^ 64"
    and fin: "\<And>x y. write_out True [fin] err x y = Inr (r, e, x, y)"
  shows "\<exists>i l wb. write_out True (map Write_Count ns @ [fin]) err sent c =
       Inr (r, e, sent @ take (sum_list ns) (contents (writeBuf c)), c\<lparr>iov0_base := i, iov0_len := l, writeBuf := wb\<rparr>)
     \<and> out_ok (c\<lparr>iov0_base := i, iov0_len := l, writeBuf := wb\<rparr>) \<and> contents wb = drop (sum_list ns) (contents (writeBuf c))"
  using assms(1-5)
proof (induction ns arbitrary: c sent)
  case Nil
  then show ?case using fin by (intro exI [of _ "iov0_base c"] exI [of _ "iov0_len c"] exI [of _ "writeBuf c"]) simp
next
  case (Cons n ns)
  from advance_out_ok [OF Cons.prems(1), of n g] Cons.prems(2-5) obtain wb1 where
    wb1: "advance_out n c = Inr (True, c\<lparr>iov0_base := iov0_base c + n, iov0_len := iov0_len c - n, writeBuf := wb1\<rparr>)"
      "out_ok (c\<lparr>iov0_base := iov0_base c + n, iov0_len := iov0_len c - n, writeBuf := wb1\<rparr>)"
      "contents wb1 = drop n (contents (writeBuf c))" by auto
  have bytes: "bytes_from (writeBuf c) (iov0_base c) (iov0_len c) = Inr (contents (writeBuf c))"
    using Cons.prems(1) by (simp add: out_ok_def)
  have rest: "\<forall>n\<in>set ns. 0 < n" "sum_list ns \<le> length (contents wb1)" "g + length (contents wb1) < 2 ^ 64"
    using Cons.prems(2,3,5) wb1(3) by simp_all
  from Cons.IH [OF wb1(2), of "sent @ take n (contents (writeBuf c))"] rest Cons.prems(4) obtain i l wb where
    ih: "write_out True (map Write_Count ns @ [fin]) err (sent @ take n (contents (writeBuf c)))
          (c\<lparr>iov0_base := iov0_base c + n, iov0_len := iov0_len c - n, writeBuf := wb1\<rparr>) =
         Inr (r, e, sent @ take n (contents (writeBuf c)) @ take (sum_list ns) (contents wb1), c\<lparr>iov0_base := i, iov0_len := l, writeBuf := wb\<rparr>)"
      "out_ok (c\<lparr>iov0_base := i, iov0_len := l, writeBuf := wb\<rparr>)" "contents wb = drop (sum_list ns) (contents wb1)" by auto
  show ?case using Cons.prems(2) wb1 bytes ih
    apply (rule_tac x = i in exI, rule_tac x = l in exI, rule_tac x = wb in exI)
    by (simp add: take_add add.commute)
qed

lemma size_to_int_zero: "size_to_int n = 0 \<longleftrightarrow> n mod 2 ^ 32 = 0"
proof -
  have "(int n + 2 ^ 31) mod 2 ^ 32 = 2 ^ 31 \<longleftrightarrow> int n mod 2 ^ 32 = 0"
  proof
    assume "(int n + 2 ^ 31) mod 2 ^ 32 = 2 ^ 31"
    then have "((int n + 2 ^ 31) mod 2 ^ 32 - 2 ^ 31) mod 2 ^ 32 = 0" by simp
    then show "int n mod 2 ^ 32 = 0" by (simp only: mod_diff_left_eq add_diff_cancel_right')
  next
    assume "int n mod 2 ^ 32 = 0"
    then have "(int n mod 2 ^ 32 + 2 ^ 31) mod 2 ^ 32 = 2 ^ 31" by simp
    then show "(int n + 2 ^ 31) mod 2 ^ 32 = 2 ^ 31" by (simp only: mod_add_left_eq)
  qed
  moreover have "int n mod 2 ^ 32 = int (n mod 2 ^ 32)" by (simp add: zmod_int)
  ultimately show ?thesis by (simp add: size_to_int_def)
qed

lemma writeBytes_done: "iov1_len c = Some g \<Longrightarrow> g < 2 ^ 64 \<Longrightarrow> iov0_len c = 0 \<Longrightarrow> \<exists>left. writeBytes c = Inr left \<and> (left = 0 \<longleftrightarrow> g mod 2 ^ 32 = 0)"
proof -
  assume "iov1_len c = Some g" "g < 2 ^ 64" "iov0_len c = 0"
  then have "writeBytes c = Inr (size_to_int g)" by (simp add: writeBytes_def)
  then show ?thesis using size_to_int_zero by simp
qed

text \<open>As long as nothing has assigned \<open>iov_[1]\<close>, its length cannot be read.\<close>

lemma write_out_undefined:
  assumes "iov1_len c = None" "out_ok c" "as \<noteq> []"
  shows "write_out isET as err sent c = Inl Uninit_Read \<or> (\<exists>r e. write_out isET as err sent c = Inr (r, e, sent, c))"
  using assms by (cases as rule: list.exhaust; cases "hd as") (auto simp: advance_out_def out_ok_def)

end
