(* ===== verification/Dcs_Master.thy ===== *)
theory Dcs_Master
  imports Con_Hash Dcs_Connection Timer_Heap Sem_Guard
begin

unbundle bit_operations_syntax

text \<open>
  The master of the distributed cache (Mini_DCS/master: src/manager.cpp, common/request.cpp): the registry of
  the cache servers in four parallel containers, the answers to heartbeats and to clients, and the
  mutex the operations take. The text of a message is left to the JSON library; \<open>m_outbox\<close> records who
  is sent what. The timers of the network server (\<open>server->timer_\<close>, master/common/timer.cpp, the same text as in the cache
  server: \<open>Timer_Heap\<close>) are part of the state; \<open>stray\<close> is what their read outside of the heap finds.
\<close>

section \<open>State\<close>

definition ntohs :: "16 word \<Rightarrow> 16 word" where
  "ntohs p = push_bit 8 p OR drop_bit 8 p"

text \<open>The callbacks of the timers: \<open>closeConnection\<close> of the network server, and \<open>someCacheServerLost\<close>.\<close>

datatype timer_cb = Close_Connection int | Server_Lost sock_addr

record dcs_master =
  ipPortLs :: "string list"
  ipLs :: "string list"
  portLs :: "int list"
  cacheServersMp :: "(string, int) map"
  m_hash :: node_con_hash
  m_users :: "(int \<times> sock_addr) list"
  m_outbox :: "(int \<times> int \<times> string list) list"
  m_timer :: "timer_cb timer_manager"
  m_sourceMutex :: bool

text \<open>An operation that waits for a mutex its own thread holds, or that such a thread holds, never returns.\<close>

datatype outcome = Returned | Blocked

abbreviation DISTRIBUTION_RESPONSE :: int where "DISTRIBUTION_RESPONSE \<equiv> 1"
abbreviation ADD_CACHE_SERVER :: int where "ADD_CACHE_SERVER \<equiv> 0"
abbreviation SHUTDOWN_CACHE :: int where "SHUTDOWN_CACHE \<equiv> 1"
abbreviation REFLESH_IP :: int where "REFLESH_IP \<equiv> 2"

section \<open>Operations\<close>

definition ip_port_str :: "string \<times> int \<Rightarrow> string" where
  "ip_port_str pp = fst pp @ CHR '':'' # to_string (snd pp)"

definition getIpAndPort :: "sock_addr \<Rightarrow> string \<times> int" where
  "getIpAndPort a = (sin_addr a, uint (ntohs (sin_port a)))"

definition findFdAcrAddr :: "sock_addr \<Rightarrow> dcs_master \<Rightarrow> int" where
  "findFdAcrAddr a s = (case find (\<lambda>(fd, b). b = a) (m_users s) of None \<Rightarrow> -1 | Some (fd, _) \<Rightarrow> fd)"

text \<open>The loop that prints the list: as many entries as \<open>ipPortLs\<close> has, from the two other vectors.\<close>

fun all_ip_ports :: "nat \<Rightarrow> string list \<Rightarrow> int list \<Rightarrow> string list res" where
  "all_ip_ports 0 ips ports = Inr []"
| "all_ip_ports (Suc n) ips ports =
     bind_res (all_ip_ports n ips ports) (\<lambda>l.
     bind_res (vget ips n) (\<lambda>ip. bind_res (vget ports n) (\<lambda>port. Inr (l @ [ip_port_str (ip, port)]))))"

definition clientGetDistribution :: "sock_addr \<Rightarrow> dcs_master \<Rightarrow> dcs_master res" where
  "clientGetDistribution a s =
     bind_res (all_ip_ports (length (ipPortLs s)) (ipLs s) (portLs s)) (\<lambda>l.
     Inr (s\<lparr>m_outbox := m_outbox s @ map (\<lambda>(fd, _). (fd, DISTRIBUTION_RESPONSE, l)) (filter (\<lambda>(_, b). b = a) (m_users s))\<rparr>))"

text \<open>\<open>notifyCacheServer\<close> compares the ports as \<open>getPort\<close> returns them, in network byte order.\<close>

definition notifyCacheServer :: "int \<Rightarrow> dcs_master \<Rightarrow> (outcome \<times> dcs_master) res" where
  "notifyCacheServer type s =
     (let s1 = s\<lparr>m_hash := RefreshIpList (m_hash s) (ipPortLs s)\<rparr> in
      bind_res (all_ip_ports (length (ipPortLs s1)) (ipLs s1) (portLs s1)) (\<lambda>l.
      if m_sourceMutex s1 then Inr (Blocked, s1)
      else
        Inr (Returned, s1\<lparr>m_outbox := m_outbox s1 @ map (\<lambda>(fd, _). (fd, type, l))
          (filter (\<lambda>(_, b). cacheServersMp s1 (ip_port_str (sin_addr b, uint (sin_port b))) \<noteq> None) (m_users s1))\<rparr>)))"

definition deleteOneMachine :: "sock_addr \<Rightarrow> dcs_master \<Rightarrow> outcome \<times> dcs_master" where
  "deleteOneMachine a s =
     (if m_sourceMutex s then (Blocked, s)
      else
        (let (strIp, client_port) = getIpAndPort a; key = ip_port_str (strIp, client_port) in
         (Returned, s\<lparr>ipPortLs := remove1 key (ipPortLs s), ipLs := remove1 (to_string client_port) (ipLs s),
            portLs := remove1 client_port (portLs s), cacheServersMp := (cacheServersMp s)(key := None)\<rparr>)))"

definition lose_machine :: "int \<Rightarrow> sock_addr \<Rightarrow> dcs_master \<Rightarrow> (outcome \<times> dcs_master) res" where
  "lose_machine type a s =
     (case deleteOneMachine a s of
        (Blocked, s1) \<Rightarrow> Inr (Blocked, s1)
      | (Returned, s1) \<Rightarrow> notifyCacheServer type s1)"

definition shutDownOneMachine :: "sock_addr \<Rightarrow> dcs_master \<Rightarrow> (outcome \<times> dcs_master) res" where
  "shutDownOneMachine a s = lose_machine SHUTDOWN_CACHE a s"

definition someCacheServerLost :: "sock_addr \<Rightarrow> dcs_master \<Rightarrow> (outcome \<times> dcs_master) res" where
  "someCacheServerLost a s = lose_machine REFLESH_IP a s"

definition cacheServerKeepAlive :: "int option \<Rightarrow> int \<Rightarrow> sock_addr \<Rightarrow> dcs_master \<Rightarrow> (outcome \<times> dcs_master) res" where
  "cacheServerKeepAlive stray now a s =
     (let (strIp, client_port) = getIpAndPort a; key = ip_port_str (strIp, client_port) in
      if m_sourceMutex s then Inr (Blocked, s)
      else
        (let fd = findFdAcrAddr a s in
         if cacheServersMp s key \<noteq> None then
           bind_res (update now (m_timer s) fd 2500) (\<lambda>tm. Inr (Returned, s\<lparr>m_timer := tm\<rparr>))
         else
           (let s1 = s\<lparr>m_sourceMutex := True, ipPortLs := ipPortLs s @ [key], ipLs := ipLs s @ [strIp],
                       portLs := portLs s @ [client_port], cacheServersMp := (cacheServersMp s)(key \<mapsto> 0)\<rparr> in
            bind_res (addTimer stray now (m_timer s1) fd 2500 (Server_Lost a)) (\<lambda>tm.
            bind_res (notifyCacheServer ADD_CACHE_SERVER (s1\<lparr>m_timer := tm\<rparr>)) (\<lambda>(out, s2).
            Inr (out, case out of Returned \<Rightarrow> s2\<lparr>m_sourceMutex := False\<rparr> | Blocked \<Rightarrow> s2))))))"

text \<open>
  A request: the buffer is parsed by the JSON library (\<open>json_req\<close>: the machine and request types, or an
  exception), then dispatched. The answers of the handlers are not used.
\<close>

definition request_cacheServer :: "int option \<Rightarrow> int \<Rightarrow> int \<Rightarrow> sock_addr \<Rightarrow> dcs_master \<Rightarrow> (outcome \<times> dcs_master) res" where
  "request_cacheServer stray now req_type a s = (if req_type = 0 then cacheServerKeepAlive stray now a s else Inr (Returned, s))"

definition request_client :: "int \<Rightarrow> sock_addr \<Rightarrow> dcs_master \<Rightarrow> (outcome \<times> dcs_master) res" where
  "request_client req_type a s =
     (if req_type = 0 then bind_res (clientGetDistribution a s) (\<lambda>s1. Inr (Returned, s1)) else Inr (Returned, s))"

definition request_parse ::
  "int option \<Rightarrow> int \<Rightarrow> (string \<Rightarrow> (int \<times> int) option) \<Rightarrow> buffer \<Rightarrow> sock_addr \<Rightarrow> dcs_master \<Rightarrow>
     (bool \<times> outcome \<times> buffer \<times> dcs_master) res" where
  "request_parse stray now json_req buff a s =
     bind_res (AlltoStr buff) (\<lambda>(str, b1).
      case json_req str of
        None \<Rightarrow> Inl (Uncaught_Exception ''json'')
      | Some (machineType, req_type) \<Rightarrow>
          if machineType = 0 then bind_res (request_cacheServer stray now req_type a s) (\<lambda>(out, s1). Inr (True, out, b1, s1))
          else if machineType = 1 then bind_res (request_client req_type a s) (\<lambda>(out, s1). Inr (True, out, b1, s1))
          else if machineType = 2 then Inr (True, Returned, b1, s)
          else Inr (False, Returned, b1, s))"

section \<open>The registry\<close>

text \<open>The four containers describe the servers \<open>ss\<close>, in the order of their first heartbeats.\<close>

definition registry :: "dcs_master \<Rightarrow> (string \<times> int) list \<Rightarrow> bool" where
  "registry s ss \<longleftrightarrow> ipPortLs s = map ip_port_str ss \<and> ipLs s = map fst ss \<and> portLs s = map snd ss
     \<and> dom (cacheServersMp s) = ip_port_str ` set ss \<and> distinct ss \<and> (\<forall>pp\<in>set ss. 0 \<le> snd pp \<and> snd pp \<le> INT_MAX)"

lemma ip_port_str_inj:
  assumes "ip_port_str x = ip_port_str y" "0 \<le> snd x" "snd x \<le> INT_MAX" "0 \<le> snd y" "snd y \<le> INT_MAX"
  shows "x = y"
proof -
  have "get_ipport (ip_port_str x) = get_ipport (ip_port_str y)" using assms(1) by simp
  then show ?thesis using get_ipport_print [of "snd x" "fst x"] get_ipport_print [of "snd y" "fst y"] assms(2-5)
    by (cases x; cases y) (simp add: ip_port_str_def)
qed

lemma all_ip_ports_ok:
  "n \<le> length ips \<Longrightarrow> n \<le> length ports \<Longrightarrow> all_ip_ports n ips ports = Inr (map ip_port_str (take n (zip ips ports)))"
  by (induction n) (simp_all add: take_Suc_conv_app_nth)

lemma all_ip_ports_registry: "registry s ss \<Longrightarrow> all_ip_ports (length (ipPortLs s)) (ipLs s) (portLs s) = Inr (map ip_port_str ss)"
  by (simp add: registry_def all_ip_ports_ok zip_map_fst_snd)

lemma registry_add:
  assumes "registry s ss" "pp \<notin> set ss" "0 \<le> snd pp" "snd pp \<le> INT_MAX"
    "ipPortLs t = ipPortLs s @ [ip_port_str pp]" "ipLs t = ipLs s @ [fst pp]" "portLs t = portLs s @ [snd pp]"
    "cacheServersMp t = (cacheServersMp s)(ip_port_str pp \<mapsto> 0)"
  shows "registry t (ss @ [pp])"
  using assms by (auto simp: registry_def)

lemma registered_iff:
  assumes "registry s ss" "0 \<le> snd pp" "snd pp \<le> INT_MAX"
  shows "cacheServersMp s (ip_port_str pp) \<noteq> None \<longleftrightarrow> pp \<in> set ss"
proof -
  have "cacheServersMp s (ip_port_str pp) \<noteq> None \<longleftrightarrow> ip_port_str pp \<in> ip_port_str ` set ss"
    using assms(1) by (auto simp: registry_def dom_def)
  also have "\<dots> \<longleftrightarrow> pp \<in> set ss"
  proof
    assume "ip_port_str pp \<in> ip_port_str ` set ss"
    then obtain qq where qq: "qq \<in> set ss" "ip_port_str pp = ip_port_str qq" by blast
    moreover have "0 \<le> snd qq" "snd qq \<le> INT_MAX" using assms(1) qq(1) unfolding registry_def by blast+
    ultimately have "pp = qq" using ip_port_str_inj [of pp qq] assms(2,3) by blast
    then show "pp \<in> set ss" using qq(1) by simp
  qed blast
  finally show ?thesis .
qed

lemma port_in_int: "0 \<le> snd (getIpAndPort a)" "snd (getIpAndPort a) \<le> INT_MAX"
proof -
  have "uint (ntohs (sin_port a)) < 2 ^ LENGTH(16)" by (rule uint_lt2p)
  then show "0 \<le> snd (getIpAndPort a)" "snd (getIpAndPort a) \<le> INT_MAX" by (simp_all add: getIpAndPort_def INT_MAX_def)
qed

text \<open>The first heartbeat of a server: if the timer can be set, it is registered, and the call waits for its own mutex.\<close>

lemma new_heartbeat:
  assumes r: "registry s ss" "\<not> m_sourceMutex s" "getIpAndPort a \<notin> set ss"
    and tm: "addTimer stray now (m_timer s) (findFdAcrAddr a s) 2500 (Server_Lost a) = Inr tm"
  shows "\<exists>s'. cacheServerKeepAlive stray now a s = Inr (Blocked, s') \<and> m_sourceMutex s' \<and> registry s' (ss @ [getIpAndPort a])
     \<and> m_users s' = m_users s \<and> m_outbox s' = m_outbox s \<and> m_timer s' = tm"
proof -
  obtain ip p where pp: "getIpAndPort a = (ip, p)" by fastforce
  define s1 where "s1 = s\<lparr>m_sourceMutex := True, ipPortLs := ipPortLs s @ [ip_port_str (ip, p)], ipLs := ipLs s @ [ip],
     portLs := portLs s @ [p], cacheServersMp := (cacheServersMp s)(ip_port_str (ip, p) \<mapsto> 0)\<rparr>"
  define s2 where "s2 = s1\<lparr>m_timer := tm, m_hash := RefreshIpList (m_hash s1) (ipPortLs s1)\<rparr>"
  have reg: "registry s1 (ss @ [(ip, p)])"
    using r(1,3) port_in_int [of a] pp by (intro registry_add [of s]) (simp_all add: s1_def)
  then have reg2: "registry s2 (ss @ [(ip, p)])" by (simp add: registry_def s2_def)
  have "notifyCacheServer ADD_CACHE_SERVER (s1\<lparr>m_timer := tm\<rparr>) = Inr (Blocked, s2)"
    using all_ip_ports_registry [OF reg2] by (simp add: notifyCacheServer_def s2_def Let_def) (simp add: s1_def)
  moreover have "cacheServersMp s (ip_port_str (ip, p)) = None" using registered_iff [OF r(1) port_in_int [of a]] r(3) pp by auto
  moreover have "m_timer s1 = m_timer s" by (simp add: s1_def)
  ultimately have "cacheServerKeepAlive stray now a s = Inr (Blocked, s2)"
    using r(2) pp tm by (simp add: cacheServerKeepAlive_def s1_def [symmetric] Let_def)
  then show ?thesis using reg2 pp by (intro exI [of _ s2]) (simp add: s2_def s1_def)
qed

lemma failed_heartbeat:
  assumes r: "registry s ss" "\<not> m_sourceMutex s" "getIpAndPort a \<notin> set ss"
    and tm: "addTimer stray now (m_timer s) (findFdAcrAddr a s) 2500 (Server_Lost a) = Inl e"
  shows "cacheServerKeepAlive stray now a s = Inl e"
proof -
  obtain ip p where pp: "getIpAndPort a = (ip, p)" by fastforce
  have "cacheServersMp s (ip_port_str (ip, p)) = None" using registered_iff [OF r(1) port_in_int [of a]] r(3) pp by auto
  then show ?thesis using r(2) tm pp by (simp add: cacheServerKeepAlive_def Let_def)
qed

lemma blocked_forever:
  assumes "m_sourceMutex s"
  shows "cacheServerKeepAlive stray now a s = Inr (Blocked, s)" "deleteOneMachine a s = (Blocked, s)"
    "someCacheServerLost a s = Inr (Blocked, s)" "shutDownOneMachine a s = Inr (Blocked, s)"
  using assms by (auto simp: cacheServerKeepAlive_def deleteOneMachine_def someCacheServerLost_def shutDownOneMachine_def
      lose_machine_def split: prod.split)

lemma remove1_key:
  assumes "f pp \<notin> f ` set xs"
  shows "remove1 (f pp) (map f (xs @ pp # ys)) = map f (xs @ ys)"
  using assms by (simp add: remove1_append)

text \<open>The entry of a removed server: its port goes, the addresses stay.\<close>

lemma delete_shifts:
  assumes r: "registry s (xs @ pp # ys)" "\<not> m_sourceMutex s" "getIpAndPort a = pp"
    and ports: "snd pp \<notin> snd ` set xs" and names: "to_string (snd pp) \<notin> fst ` set (xs @ pp # ys)"
  shows "\<exists>s'. deleteOneMachine a s = (Returned, s') \<and> ipPortLs s' = map ip_port_str (xs @ ys)
     \<and> ipLs s' = map fst (xs @ pp # ys) \<and> portLs s' = map snd (xs @ ys) \<and> cacheServersMp s' (ip_port_str pp) = None"
proof -
  obtain ip p where pp: "pp = (ip, p)" by fastforce
  have ss: "distinct (xs @ pp # ys)" "ipPortLs s = map ip_port_str (xs @ pp # ys)" "ipLs s = map fst (xs @ pp # ys)"
    "portLs s = map snd (xs @ pp # ys)" using r(1) by (simp_all only: registry_def)
  have diff: "ip_port_str qq \<noteq> ip_port_str pp" if "qq \<in> set xs" for qq
  proof -
    have "0 \<le> snd qq" "snd qq \<le> INT_MAX" "0 \<le> snd pp" "snd pp \<le> INT_MAX" using r(1) that by (auto simp: registry_def)
    then show ?thesis using ip_port_str_inj [of qq pp] ss(1) that by auto
  qed
  have 1: "remove1 (ip_port_str pp) (ipPortLs s) = map ip_port_str (xs @ ys)" unfolding ss
    using diff by (intro remove1_key) force
  have 2: "remove1 (snd pp) (portLs s) = map snd (xs @ ys)" unfolding ss by (rule remove1_key [OF ports])
  have "to_string (snd pp) \<notin> set (ipLs s)" using names by (auto simp: ss)
  then have 3: "remove1 (to_string (snd pp)) (ipLs s) = ipLs s" by (rule remove1_idem)
  show ?thesis using r(2,3) pp 1 2 3 by (simp add: deleteOneMachine_def Let_def ss(3))
qed

section \<open>What the master can do\<close>

text \<open>
  The life of a master: heartbeats, questions of clients, losses and removals in any order, while the network server
  changes its connections and its timers at will. A call that waits leaves its thread behind; the others go on.
\<close>

definition master_start :: "dcs_master \<Rightarrow> bool" where
  "master_start s \<longleftrightarrow> ipPortLs s = [] \<and> ipLs s = [] \<and> portLs s = [] \<and> cacheServersMp s = Map.empty \<and> m_outbox s = [] \<and> \<not> m_sourceMutex s"

inductive master_step :: "dcs_master \<Rightarrow> dcs_master \<Rightarrow> bool" where
  network: "master_step s (s\<lparr>m_users := us, m_timer := tm\<rparr>)"
| heartbeat: "cacheServerKeepAlive stray now a s = Inr (out, s') \<Longrightarrow> master_step s s'"
| question: "clientGetDistribution a s = Inr s' \<Longrightarrow> master_step s s'"
| loss: "someCacheServerLost a s = Inr (out, s') \<Longrightarrow> master_step s s'"
| removal: "shutDownOneMachine a s = Inr (out, s') \<Longrightarrow> master_step s s'"

definition master_inv :: "dcs_master \<Rightarrow> bool" where
  "master_inv s \<longleftrightarrow> (if m_sourceMutex s then \<exists>pp. registry s [pp] else registry s [])
     \<and> (\<forall>(fd, type, l)\<in>set (m_outbox s). type = DISTRIBUTION_RESPONSE \<and> length l \<le> 1)"

lemma registry_cong:
  "ipPortLs t = ipPortLs s \<Longrightarrow> ipLs t = ipLs s \<Longrightarrow> portLs t = portLs s \<Longrightarrow> cacheServersMp t = cacheServersMp s \<Longrightarrow> registry t ss = registry s ss"
  by (simp add: registry_def)

text \<open>Without a registered server there is nothing to remove and nobody to tell.\<close>

lemma lose_nothing:
  assumes "registry s []" "\<not> m_sourceMutex s" "lose_machine type a s = Inr (out, s')"
  shows "registry s' [] \<and> \<not> m_sourceMutex s' \<and> m_outbox s' = m_outbox s"
proof -
  have e: "ipPortLs s = []" "ipLs s = []" "portLs s = []" "cacheServersMp s = Map.empty" using assms(1) by (simp_all add: registry_def)
  then have d: "deleteOneMachine a s = (Returned, s)" using assms(2) by (cases s) (simp add: deleteOneMachine_def Let_def case_prod_beta)
  have n: "notifyCacheServer type s = Inr (Returned, s\<lparr>m_hash := RefreshIpList (m_hash s) []\<rparr>)"
    using assms(2) e by (cases s) (simp add: notifyCacheServer_def Let_def case_prod_beta)
  have "s' = s\<lparr>m_hash := RefreshIpList (m_hash s) []\<rparr>" using assms(3) d n by (simp add: lose_machine_def)
  then show ?thesis using e assms(2) by (simp add: registry_def)
qed

lemma master_step_inv: "master_step s s' \<Longrightarrow> master_inv s \<Longrightarrow> master_inv s'"
proof (induction rule: master_step.induct)
  case (network s us tm)
  then show ?case by (simp add: master_inv_def registry_def split: if_splits)
next
  case (heartbeat stray now a s out s')
  show ?case
  proof (cases "m_sourceMutex s")
    case True
    then show ?thesis using heartbeat blocked_forever(1) [OF True] by simp
  next
    case False
    then have r: "registry s []" using heartbeat.prems by (simp add: master_inv_def)
    obtain tm where "addTimer stray now (m_timer s) (findFdAcrAddr a s) 2500 (Server_Lost a) = Inr tm"
      using failed_heartbeat [OF r False] heartbeat.hyps by (cases "addTimer stray now (m_timer s) (findFdAcrAddr a s) 2500 (Server_Lost a)") auto
    from new_heartbeat [OF r False _ this] have "m_sourceMutex s'" "registry s' [getIpAndPort a]" "m_outbox s' = m_outbox s"
      using heartbeat.hyps by auto
    then show ?thesis using heartbeat.prems unfolding master_inv_def by metis
  qed
next
  case (question a s s')
  have "\<exists>ss. registry s ss \<and> length ss \<le> 1" using question.prems by (fastforce simp: master_inv_def split: if_splits)
  then obtain l where l: "all_ip_ports (length (ipPortLs s)) (ipLs s) (portLs s) = Inr l" "length l \<le> 1"
    using all_ip_ports_registry by fastforce
  then have "s' = s\<lparr>m_outbox := m_outbox s @ map (\<lambda>(fd, _). (fd, DISTRIBUTION_RESPONSE, l)) (filter (\<lambda>(_, b). b = a) (m_users s))\<rparr>"
    using question.hyps by (simp add: clientGetDistribution_def)
  then show ?case using question.prems l(2) by (auto simp: master_inv_def registry_def split: if_splits)
next
  case (loss a s out s')
  then show ?case using lose_nothing [of s REFLESH_IP a out s'] blocked_forever(3) [of s a]
    by (cases "m_sourceMutex s") (auto simp: master_inv_def someCacheServerLost_def)
next
  case (removal a s out s')
  then show ?case using lose_nothing [of s SHUTDOWN_CACHE a out s'] blocked_forever(4) [of s a]
    by (cases "m_sourceMutex s") (auto simp: master_inv_def shutDownOneMachine_def)
qed

lemma master_reachable_inv: "reachable master_start master_step s \<Longrightarrow> master_inv s"
proof (induction rule: reachable.induct)
  case (first s)
  then show ?case by (auto simp: master_start_def master_inv_def registry_def)
next
  case (more s s')
  then show ?case using master_step_inv by blast
qed

text \<open>
  C32. The registry of the master, in every state it can reach. As long as the mutex is free no server is registered. The
  heartbeat of any server then sets its timer; if that returns (\<open>addTimer\<close> may fail: an unknown descriptor, or the read outside of
  the heap), it enters the server in the four containers and waits for the mutex its own thread holds: the
  call never returns and nobody is told. From then on that one server stays registered, every heartbeat, also its
  own, every loss and every removal waits, and a client is given its address alone. So no server is ever sent the list, and
  no client more than one server.
\<close>

theorem master_registry:
  assumes "reachable master_start master_step s"
  shows "(\<not> m_sourceMutex s \<longrightarrow> registry s [] \<and>
       (case addTimer stray now (m_timer s) (findFdAcrAddr a s) 2500 (Server_Lost a) of
          Inl e \<Rightarrow> cacheServerKeepAlive stray now a s = Inl e
        | Inr tm \<Rightarrow> \<exists>s'. cacheServerKeepAlive stray now a s = Inr (Blocked, s') \<and> m_sourceMutex s'
            \<and> registry s' [getIpAndPort a] \<and> m_outbox s' = m_outbox s \<and> m_timer s' = tm))
    \<and> (m_sourceMutex s \<longrightarrow> (\<exists>pp. registry s [pp]
         \<and> cacheServerKeepAlive stray now a s = Inr (Blocked, s) \<and> someCacheServerLost a s = Inr (Blocked, s)
         \<and> shutDownOneMachine a s = Inr (Blocked, s)
         \<and> clientGetDistribution a s = Inr (s\<lparr>m_outbox := m_outbox s @ map (\<lambda>(fd, _).
              (fd, DISTRIBUTION_RESPONSE, [ip_port_str pp])) (filter (\<lambda>(_, x). x = a) (m_users s))\<rparr>)))
    \<and> (\<forall>(fd, type, l)\<in>set (m_outbox s). type = DISTRIBUTION_RESPONSE \<and> length l \<le> 1)"
proof (intro conjI impI)
  note inv = master_reachable_inv [OF assms]
  show "\<forall>(fd, type, l)\<in>set (m_outbox s). type = DISTRIBUTION_RESPONSE \<and> length l \<le> 1" using inv by (simp add: master_inv_def)
  assume m: "\<not> m_sourceMutex s"
  then show r: "registry s []" using inv by (simp add: master_inv_def)
  show "case addTimer stray now (m_timer s) (findFdAcrAddr a s) 2500 (Server_Lost a) of
          Inl e \<Rightarrow> cacheServerKeepAlive stray now a s = Inl e
        | Inr tm \<Rightarrow> \<exists>s'. cacheServerKeepAlive stray now a s = Inr (Blocked, s') \<and> m_sourceMutex s'
            \<and> registry s' [getIpAndPort a] \<and> m_outbox s' = m_outbox s \<and> m_timer s' = tm"
  proof (cases "addTimer stray now (m_timer s) (findFdAcrAddr a s) 2500 (Server_Lost a)")
    case (Inl e)
    then show ?thesis using failed_heartbeat [OF r m _ Inl] by simp
  next
    case (Inr tm)
    have "getIpAndPort a \<notin> set []" by simp
    from new_heartbeat [OF r m this Inr] show ?thesis unfolding Inr sum.case append_Nil by blast
  qed
next
  assume m: "m_sourceMutex s"
  then obtain pp where pp: "registry s [pp]" using master_reachable_inv [OF assms] by (auto simp: master_inv_def)
  have "clientGetDistribution a s = Inr (s\<lparr>m_outbox := m_outbox s @ map (\<lambda>(fd, _).
       (fd, DISTRIBUTION_RESPONSE, [ip_port_str pp])) (filter (\<lambda>(_, x). x = a) (m_users s))\<rparr>)"
    using all_ip_ports_registry [OF pp] by (simp add: clientGetDistribution_def)
  then show "\<exists>pp. registry s [pp]
         \<and> cacheServerKeepAlive stray now a s = Inr (Blocked, s) \<and> someCacheServerLost a s = Inr (Blocked, s)
         \<and> shutDownOneMachine a s = Inr (Blocked, s)
         \<and> clientGetDistribution a s = Inr (s\<lparr>m_outbox := m_outbox s @ map (\<lambda>(fd, _).
              (fd, DISTRIBUTION_RESPONSE, [ip_port_str pp])) (filter (\<lambda>(_, x). x = a) (m_users s))\<rparr>)"
    using pp blocked_forever(1,3,4) [OF m] by blast
qed

text \<open>A new master with one connection, from the host 10.0.0.9; the word in front of the heap is an early time.\<close>

definition new_master :: dcs_master where
  "new_master = \<lparr>ipPortLs = [], ipLs = [], portLs = [], cacheServersMp = Map.empty, m_hash = NodeConHash_init 1,
     m_users = [(9, \<lparr>sin_addr = ''10.0.0.9'', sin_port = 0x500\<rparr>)], m_outbox = [], m_timer = TimerManager_init, m_sourceMutex = False\<rparr>"

theorem master_registry_witness:
  "\<exists>s'. cacheServerKeepAlive (Some 0) 7 \<lparr>sin_addr = ''10.0.0.9'', sin_port = 0x500\<rparr> new_master = Inr (Blocked, s')
     \<and> m_sourceMutex s' \<and> registry s' [(''10.0.0.9'', 5)]"
proof -
  let ?a = "\<lparr>sin_addr = ''10.0.0.9'', sin_port = 0x500\<rparr> :: sock_addr"
  have a: "getIpAndPort ?a = (''10.0.0.9'', 5)" by code_simp
  have "reachable master_start master_step new_master" by (rule reachable.first) (simp add: master_start_def new_master_def)
  note t = master_registry [OF this, of "Some 0" 7 ?a]
  have "\<not> m_sourceMutex new_master" "findFdAcrAddr ?a new_master = 9" "m_timer new_master = TimerManager_init"
    by (simp_all add: new_master_def findFdAcrAddr_def)
  then show ?thesis using t a by (simp add: addTimer_first_reads_outside root_read_def MS_def) blast
qed

end
