(* ===== verification/Dcs_Pool.thy ===== *)
theory Dcs_Pool
  imports Sem_Guard "HOL-Library.Multiset"
begin

text \<open>
  The thread pool of the cache servers (Mini_DCS: common/threadPool.h, threadPool.cpp, task.h): the workers
  around the blocking queue, the manager thread that grows and shrinks the pool, the exit of a thread and the
  destructor. The content of the queue is a list (\<open>Safe_Queue\<close> shows that the ring is one). The threads are
  a step relation whose steps are the regions between two points at which another thread can act;
  \<open>addTask\<close> does not take \<open>m_mutex\<close>, so its push may fall between a worker's test of the queue and its wait.
\<close>

section \<open>State\<close>

text \<open>
  Where a worker is: before its lock, after the test of an empty queue with the mutex held, waiting, woken and
  not yet locked again, running a task, on its way into \<open>threadExit\<close>, gone. Where the manager is: at its loop
  test, asleep, after its reading of the queue size and the two counters, before the shrinking, with
  signals to send, at its end. Where the destructor is: not called, joining the manager, sending
  signals, done.
\<close>

datatype 't wstate = At_Loop | Tested | Waiting | Woken | Running 't | Leaving | Exited

datatype mstate = M_Loop | M_Asleep | M_Grow int int int | M_Shrink int int | M_Signal nat | M_End

datatype dstate = D_None | D_Join | D_Signal nat | D_Gone

text \<open>
  \<open>m_threadIDs\<close> has one element per initial thread, 0 is a free element. The fields \<open>p_\<close> are the queue, the
  tasks added, taken and finished so far, the threads between two steps of \<open>addTask\<close>, and the threads with
  their identifiers.
\<close>

record 't dcs_pool =
  m_minNum :: int
  m_maxNum :: int
  m_busyCount :: int
  m_aliveCount :: int
  m_exitCount :: int
  m_shutDown :: bool
  m_threadIDs :: "nat list"
  p_queue :: "'t list"
  p_added :: "'t list"
  p_taken :: "'t list"
  p_done :: "'t list"
  p_adding :: "'t list"
  p_signals :: nat
  p_workers :: "'t wstate list"
  p_self :: "nat list"
  p_mutex :: "nat option"
  p_manager :: mstate
  p_destroyer :: dstate

definition QUEUE_CAPACITY :: nat where "QUEUE_CAPACITY = 100"

text \<open>
  The constructor, with the identifiers \<open>pthread_create\<close> assigns and the content \<open>exit0\<close> of the
  memory of \<open>m_exitCount\<close>, which no initialiser sets.
\<close>

definition ThreadPool_new :: "nat list \<Rightarrow> int \<Rightarrow> int \<Rightarrow> 't dcs_pool" where
  "ThreadPool_new ids maxNum exit0 =
     \<lparr>m_minNum = int (length ids), m_maxNum = maxNum, m_busyCount = 0, m_aliveCount = int (length ids), m_exitCount = exit0,
      m_shutDown = False, m_threadIDs = ids, p_queue = [], p_added = [], p_taken = [], p_done = [], p_adding = [], p_signals = 0,
      p_workers = replicate (length ids) At_Loop, p_self = ids, p_mutex = None, p_manager = M_Loop, p_destroyer = D_None\<rparr>"

section \<open>Operations\<close>

text \<open>
  \<open>addTask\<close>: the test of \<open>m_shutDown\<close>, then the push; \<open>None\<close> while the queue is full and the push waits. A caller that
  passed the test and pushes after the destructor has run uses the queue that was deleted.
\<close>

definition addTask :: "'t \<Rightarrow> 't dcs_pool \<Rightarrow> 't dcs_pool" where
  "addTask tk p = (if m_shutDown p then p else p\<lparr>p_adding := p_adding p @ [tk]\<rparr>)"

definition addTask_push :: "nat \<Rightarrow> 't dcs_pool \<Rightarrow> 't dcs_pool option res" where
  "addTask_push k p =
     (if p_destroyer p = D_Gone then Inl Use_After_Free
      else if length (p_queue p) = QUEUE_CAPACITY then Inr None
      else (let tk = p_adding p ! k in
        Inr (Some (p\<lparr>p_queue := p_queue p @ [tk], p_added := p_added p @ [tk],
          p_adding := take k (p_adding p) @ drop (Suc k) (p_adding p), p_signals := Suc (p_signals p)\<rparr>))))"

definition getBusyThreadCount :: "'t dcs_pool \<Rightarrow> int" where
  "getBusyThreadCount p = m_busyCount p"

definition getAliveThreadCount :: "'t dcs_pool \<Rightarrow> int" where
  "getAliveThreadCount p = m_aliveCount p"

text \<open>
  The test of a worker, with the mutex taken; only workers pop, and only with the mutex, so a queue found
  non-empty still is at \<open>pop\<close>. The members are freed once the destructor is done.
\<close>

definition worker_test :: "nat \<Rightarrow> 't dcs_pool \<Rightarrow> 't dcs_pool res" where
  "worker_test i p =
     (if p_destroyer p = D_Gone then Inl Use_After_Free
      else if p_queue p = [] \<and> \<not> m_shutDown p then Inr (p\<lparr>p_workers := (p_workers p)[i := Tested], p_mutex := Some i\<rparr>)
      else if m_shutDown p then Inr (p\<lparr>p_workers := (p_workers p)[i := Leaving], p_mutex := None\<rparr>)
      else (case p_queue p of
          [] \<Rightarrow> Inl No_Return
        | tk # rest \<Rightarrow> Inr (p\<lparr>p_queue := rest, p_taken := p_taken p @ [tk], m_busyCount := m_busyCount p + 1,
              p_workers := (p_workers p)[i := Running tk], p_mutex := None\<rparr>)))"

text \<open>After \<open>pthread_cond_wait\<close>: a pending request to shrink the pool, then the test again.\<close>

definition worker_woken :: "nat \<Rightarrow> 't dcs_pool \<Rightarrow> 't dcs_pool res" where
  "worker_woken i p =
     (if p_destroyer p = D_Gone then Inl Use_After_Free
      else if 0 < m_exitCount p then
        (let p1 = p\<lparr>m_exitCount := m_exitCount p - 1\<rparr> in
         if m_minNum p1 < m_aliveCount p1
         then Inr (p1\<lparr>m_aliveCount := m_aliveCount p1 - 1, p_workers := (p_workers p1)[i := Leaving], p_mutex := None\<rparr>)
         else worker_test i p1)
      else worker_test i p)"

text \<open>After the task \<open>tk\<close> has run.\<close>

definition worker_done :: "nat \<Rightarrow> 't \<Rightarrow> 't dcs_pool \<Rightarrow> 't dcs_pool res" where
  "worker_done i tk p =
     (if p_destroyer p = D_Gone then Inl Use_After_Free
      else Inr (p\<lparr>m_busyCount := m_busyCount p - 1, p_done := p_done p @ [tk], p_workers := (p_workers p)[i := At_Loop]\<rparr>))"

text \<open>\<open>threadExit\<close> clears the element of the thread \<open>tid\<close>; the first argument counts the elements left.\<close>

fun threadExit_loop :: "nat \<Rightarrow> nat \<Rightarrow> nat \<Rightarrow> nat list \<Rightarrow> nat list res" where
  "threadExit_loop 0 i tid ids = Inr ids"
| "threadExit_loop (Suc n) i tid ids =
     bind_res (vget ids i) (\<lambda>t. if t = tid then vset ids i 0 else threadExit_loop n (Suc i) tid ids)"

definition threadExit :: "nat \<Rightarrow> 't dcs_pool \<Rightarrow> 't dcs_pool res" where
  "threadExit i p =
     (if p_destroyer p = D_Gone then Inl Use_After_Free
      else bind_res (threadExit_loop (nat (m_maxNum p)) 0 (p_self p ! i) (m_threadIDs p)) (\<lambda>ids.
        Inr (p\<lparr>m_threadIDs := ids, p_workers := (p_workers p)[i := Exited]\<rparr>)))"

text \<open>
  The manager: \<open>grow\<close> looks for free elements up to \<open>m_maxNum\<close> and starts at most two threads, whose identifiers
  are given (the first argument counts the elements left). \<open>manager_step\<close> runs up to the next point at which
  another thread can act; \<open>manager_locks\<close> says whether that takes the mutex.
\<close>

fun grow :: "nat \<Rightarrow> nat \<Rightarrow> nat \<Rightarrow> nat list \<Rightarrow> 't dcs_pool \<Rightarrow> 't dcs_pool res" where
  "grow 0 i num new p = Inr p"
| "grow (Suc n) i num new p =
     (if num < 2 \<and> m_aliveCount p < m_maxNum p then
        bind_res (vget (m_threadIDs p) i) (\<lambda>t.
        if t = 0 then
          (case new of
             [] \<Rightarrow> Inl No_Return
           | tid # rest \<Rightarrow> grow n (Suc i) (Suc num) rest
               (p\<lparr>m_threadIDs := (m_threadIDs p)[i := tid], m_aliveCount := m_aliveCount p + 1,
                  p_workers := p_workers p @ [At_Loop], p_self := p_self p @ [tid]\<rparr>))
        else grow n (Suc i) num new p)
      else Inr p)"

definition grows :: "int \<Rightarrow> int \<Rightarrow> 't dcs_pool \<Rightarrow> bool" where
  "grows queueSize liveNum p \<longleftrightarrow> queueSize > liveNum \<and> liveNum < m_maxNum p"

definition shrinks :: "int \<Rightarrow> int \<Rightarrow> 't dcs_pool \<Rightarrow> bool" where
  "shrinks liveNum busyNum p \<longleftrightarrow> busyNum * 2 < liveNum \<and> liveNum > m_minNum p"

definition manager_locks :: "'t dcs_pool \<Rightarrow> bool" where
  "manager_locks p =
     (case p_manager p of
        M_Asleep \<Rightarrow> True
      | M_Grow q l b \<Rightarrow> grows q l p
      | M_Shrink l b \<Rightarrow> shrinks l b p
      | _ \<Rightarrow> False)"

definition manager_step :: "nat list \<Rightarrow> 't dcs_pool \<Rightarrow> 't dcs_pool res" where
  "manager_step new p =
     (case p_manager p of
        M_Loop \<Rightarrow> Inr (p\<lparr>p_manager := if m_shutDown p then M_End else M_Asleep\<rparr>)
      | M_Asleep \<Rightarrow> Inr (p\<lparr>p_manager := M_Grow (int (length (p_queue p))) (m_aliveCount p) (m_busyCount p)\<rparr>)
      | M_Grow q l b \<Rightarrow>
          bind_res (if grows q l p then grow (nat (m_maxNum p)) 0 0 new p else Inr p) (\<lambda>p1.
          Inr (p1\<lparr>p_manager := M_Shrink l b\<rparr>))
      | M_Shrink l b \<Rightarrow>
          Inr (if shrinks l b p then p\<lparr>m_exitCount := 2, p_manager := M_Signal 2\<rparr> else p\<lparr>p_manager := M_Loop\<rparr>)
      | M_Signal n \<Rightarrow> Inr (if n = 0 then p\<lparr>p_manager := M_Loop\<rparr> else p)
      | M_End \<Rightarrow> Inr p)"

text \<open>
  The destructor: shut down, wait for the manager, one signal per live thread, then everything is freed.
  No worker is joined.
\<close>

definition ThreadPool_destroy :: "'t dcs_pool \<Rightarrow> 't dcs_pool" where
  "ThreadPool_destroy p =
     (case p_destroyer p of
        D_None \<Rightarrow> p\<lparr>m_shutDown := True, p_destroyer := D_Join\<rparr>
      | D_Join \<Rightarrow> if p_manager p = M_End then p\<lparr>p_destroyer := D_Signal 0\<rparr> else p
      | D_Signal i \<Rightarrow> if int i < m_aliveCount p then p else p\<lparr>p_destroyer := D_Gone\<rparr>
      | D_Gone \<Rightarrow> p)"

section \<open>The threads\<close>

text \<open>\<open>pthread_cond_signal\<close> wakes one waiting thread, or nobody when none waits.\<close>

inductive signalled :: "'t dcs_pool \<Rightarrow> 't dcs_pool \<Rightarrow> bool" where
  nobody: "Waiting \<notin> set (p_workers p) \<Longrightarrow> signalled p p"
| one: "i < length (p_workers p) \<Longrightarrow> p_workers p ! i = Waiting \<Longrightarrow> signalled p (p\<lparr>p_workers := (p_workers p)[i := Woken]\<rparr>)"

inductive pool_step :: "'t dcs_pool \<Rightarrow> 't dcs_pool \<Rightarrow> bool" where
  add: "pool_step p (addTask tk p)"
| push: "k < length (p_adding p) \<Longrightarrow> addTask_push k p = Inr (Some p') \<Longrightarrow> pool_step p p'"
| add_signal: "0 < p_signals p \<Longrightarrow> signalled p p' \<Longrightarrow> pool_step p (p'\<lparr>p_signals := p_signals p - 1\<rparr>)"
| spurious: "i < length (p_workers p) \<Longrightarrow> p_workers p ! i = Waiting \<Longrightarrow> pool_step p (p\<lparr>p_workers := (p_workers p)[i := Woken]\<rparr>)"
| test: "i < length (p_workers p) \<Longrightarrow> p_workers p ! i = At_Loop \<Longrightarrow> p_mutex p = None \<Longrightarrow> worker_test i p = Inr p' \<Longrightarrow> pool_step p p'"
| wait: "i < length (p_workers p) \<Longrightarrow> p_workers p ! i = Tested \<Longrightarrow>
    pool_step p (p\<lparr>p_workers := (p_workers p)[i := Waiting], p_mutex := None\<rparr>)"
| woken: "i < length (p_workers p) \<Longrightarrow> p_workers p ! i = Woken \<Longrightarrow> p_mutex p = None \<Longrightarrow> worker_woken i p = Inr p' \<Longrightarrow> pool_step p p'"
| finished: "i < length (p_workers p) \<Longrightarrow> p_workers p ! i = Running tk \<Longrightarrow> p_mutex p = None \<Longrightarrow> worker_done i tk p = Inr p' \<Longrightarrow>
    pool_step p p'"
| leave: "i < length (p_workers p) \<Longrightarrow> p_workers p ! i = Leaving \<Longrightarrow> threadExit i p = Inr p' \<Longrightarrow> pool_step p p'"
| manage: "(manager_locks p \<longrightarrow> p_mutex p = None) \<Longrightarrow> manager_step new p = Inr p' \<Longrightarrow> pool_step p p'"
| manage_signal: "p_manager p = M_Signal (Suc n) \<Longrightarrow> signalled p p' \<Longrightarrow> pool_step p (p'\<lparr>p_manager := M_Signal n\<rparr>)"
| destroy: "pool_step p (ThreadPool_destroy p)"
| destroy_signal: "p_destroyer p = D_Signal k \<Longrightarrow> int k < m_aliveCount p \<Longrightarrow> signalled p p' \<Longrightarrow>
    pool_step p (p'\<lparr>p_destroyer := D_Signal (Suc k)\<rparr>)"

definition pool_start :: "nat list \<Rightarrow> int \<Rightarrow> 't dcs_pool \<Rightarrow> bool" where
  "pool_start ids maxNum p \<longleftrightarrow> (\<exists>exit0. p = ThreadPool_new ids maxNum exit0)"

section \<open>Invariants\<close>

fun task_of :: "'t wstate \<Rightarrow> 't multiset" where
  "task_of (Running tk) = {#tk#}"
| "task_of _ = {#}"

text \<open>The tasks that run.\<close>

fun running :: "'t wstate list \<Rightarrow> 't multiset" where
  "running [] = {#}"
| "running (w # ws) = task_of w + running ws"

lemma running_append: "running (ws @ vs) = running ws + running vs"
  by (induction ws) simp_all

lemma running_update: "i < length ws \<Longrightarrow> running (ws[i := w]) + task_of (ws ! i) = running ws + task_of w"
proof (induction ws arbitrary: i)
  case (Cons v ws)
  show ?case
  proof (cases i)
    case (Suc k)
    then have "running (ws[k := w]) + task_of (ws ! k) = running ws + task_of w" using Cons by simp
    then show ?thesis by (simp add: Suc add.assoc)
  qed simp
qed simp

lemma running_idle: "i < length ws \<Longrightarrow> task_of (ws ! i) = {#} \<Longrightarrow> running (ws[i := w]) = running ws + task_of w"
  using running_update [of i ws w] by simp

lemma running_finish: "i < length ws \<Longrightarrow> ws ! i = Running tk \<Longrightarrow> add_mset tk (running (ws[i := At_Loop])) = running ws"
  using running_update [of i ws At_Loop] by simp

lemma running_start: "running (replicate n At_Loop) = {#}"
  by (induction n) simp_all

text \<open>
  The tasks: what was added is what was taken, in that order, followed by the queue; what was taken is finished or runs;
  the busy counter counts the tasks that run; and a worker between its test and its wait owns the mutex.
\<close>

definition tasks_inv :: "'t dcs_pool \<Rightarrow> bool" where
  "tasks_inv p \<longleftrightarrow> p_added p = p_taken p @ p_queue p \<and> length (p_queue p) \<le> QUEUE_CAPACITY
     \<and> mset (p_taken p) = mset (p_done p) + running (p_workers p) \<and> m_busyCount p = int (size (running (p_workers p)))"

definition owner_inv :: "'t dcs_pool \<Rightarrow> bool" where
  "owner_inv p \<longleftrightarrow> (\<forall>i<length (p_workers p). p_workers p ! i = Tested \<longrightarrow> p_mutex p = Some i)"

lemma signalled_tasks: "signalled p p' \<Longrightarrow> tasks_inv p \<Longrightarrow> tasks_inv p'"
  by (induction rule: signalled.induct) (simp_all add: tasks_inv_def running_idle)

lemma signalled_owner: "signalled p p' \<Longrightarrow> owner_inv p \<Longrightarrow> owner_inv p'"
  by (induction rule: signalled.induct) (auto simp: owner_inv_def nth_list_update)

lemma tasks_inv_cong:
  "p_added p' = p_added p \<Longrightarrow> p_taken p' = p_taken p \<Longrightarrow> p_queue p' = p_queue p \<Longrightarrow> p_done p' = p_done p \<Longrightarrow>
   running (p_workers p') = running (p_workers p) \<Longrightarrow> m_busyCount p' = m_busyCount p \<Longrightarrow> tasks_inv p' = tasks_inv p"
  by (simp add: tasks_inv_def)

lemma worker_test_tasks:
  assumes "worker_test i p = Inr p'" and "tasks_inv p" and "i < length (p_workers p)" and "task_of (p_workers p ! i) = {#}"
  shows "tasks_inv p'"
proof (cases "p_queue p = [] \<or> m_shutDown p")
  case True
  then show ?thesis using assms by (auto simp: worker_test_def tasks_inv_def running_idle split: if_splits)
next
  case False
  then obtain tk rest where "p_queue p = tk # rest" by (cases "p_queue p") auto
  then show ?thesis using assms False by (auto simp: worker_test_def tasks_inv_def running_idle split: if_splits)
qed

lemma worker_woken_tasks:
  assumes "worker_woken i p = Inr p'" and "tasks_inv p" and "i < length (p_workers p)" and "task_of (p_workers p ! i) = {#}"
  shows "tasks_inv p'"
proof -
  have "tasks_inv (p\<lparr>m_exitCount := n\<rparr>)" for n using assms(2) by (simp add: tasks_inv_def)
  then show ?thesis
    using assms worker_test_tasks [of i _ p']
    by (auto simp: worker_woken_def Let_def tasks_inv_def running_idle split: if_splits)
qed

lemma grow_tasks: "grow n i num new p = Inr p' \<Longrightarrow> tasks_inv p \<Longrightarrow> tasks_inv p'"
proof (induction n i num new p rule: grow.induct)
  case (2 n i num new p)
  then show ?case by (auto simp: res_simps tasks_inv_def running_append split: if_splits list.splits)
qed simp

lemma manager_tasks: "manager_step new p = Inr p' \<Longrightarrow> tasks_inv p \<Longrightarrow> tasks_inv p'"
  using grow_tasks [of "nat (m_maxNum p)" 0 0 new p]
  by (auto simp: manager_step_def res_simps tasks_inv_def split: mstate.splits if_splits)

lemma pool_step_tasks: "pool_step p p' \<Longrightarrow> tasks_inv p \<Longrightarrow> tasks_inv p'"
proof (induction rule: pool_step.induct)
  case (add_signal p p')
  then have "tasks_inv p'" by (rule_tac signalled_tasks)
  then show ?case by (simp add: tasks_inv_def)
next
  case (manage_signal p n p')
  then have "tasks_inv p'" by (rule_tac signalled_tasks)
  then show ?case by (simp add: tasks_inv_def)
next
  case (destroy_signal p k p')
  then have "tasks_inv p'" by (rule_tac signalled_tasks)
  then show ?case by (simp add: tasks_inv_def)
next
  case (finished i p tk p')
  then show ?case
    using running_finish [of i "p_workers p" tk, symmetric] by (auto simp: worker_done_def tasks_inv_def split: if_splits)
qed (auto simp: addTask_def addTask_push_def tasks_inv_def Let_def running_idle threadExit_def ThreadPool_destroy_def res_simps
      split: if_splits dstate.splits dest: worker_test_tasks worker_woken_tasks manager_tasks)

lemma grow_owner: "grow n i num new p = Inr p' \<Longrightarrow> owner_inv p \<Longrightarrow> owner_inv p'"
proof (induction n i num new p rule: grow.induct)
  case (2 n i num new p)
  then show ?case by (auto simp: res_simps owner_inv_def nth_append less_Suc_eq split: if_splits list.splits)
qed simp

lemma manager_owner: "manager_step new p = Inr p' \<Longrightarrow> owner_inv p \<Longrightarrow> owner_inv p'"
  using grow_owner [of "nat (m_maxNum p)" 0 0 new p]
  by (auto simp: manager_step_def res_simps owner_inv_def split: mstate.splits if_splits)

lemma worker_test_owner:
  "worker_test i p = Inr p' \<Longrightarrow> owner_inv p \<Longrightarrow> p_mutex p = None \<Longrightarrow> i < length (p_workers p) \<Longrightarrow> owner_inv p'"
  by (auto simp: worker_test_def owner_inv_def nth_list_update split: if_splits list.splits)

lemma worker_woken_owner:
  "worker_woken i p = Inr p' \<Longrightarrow> owner_inv p \<Longrightarrow> p_mutex p = None \<Longrightarrow> i < length (p_workers p) \<Longrightarrow> owner_inv p'"
  using worker_test_owner [of i "p\<lparr>m_exitCount := m_exitCount p - 1\<rparr>" p'] worker_test_owner [of i p p']
  by (auto simp: worker_woken_def Let_def owner_inv_def nth_list_update split: if_splits)

lemma owner_inv_cong: "owner_inv p \<Longrightarrow> p_workers p' = p_workers p \<Longrightarrow> p_mutex p' = p_mutex p \<Longrightarrow> owner_inv p'"
  by (simp add: owner_inv_def)

lemma owner_inv_update:
  "owner_inv p \<Longrightarrow> w \<noteq> Tested \<Longrightarrow> p_workers p' = (p_workers p)[i := w] \<Longrightarrow> p_mutex p' = p_mutex p \<Longrightarrow> owner_inv p'"
  unfolding owner_inv_def by (metis length_list_update nth_list_update_eq nth_list_update_neq)

lemma pool_step_owner: "pool_step p p' \<Longrightarrow> owner_inv p \<Longrightarrow> owner_inv p'"
proof (induction rule: pool_step.induct)
  case (add p tk)
  then show ?case by (rule owner_inv_cong) (simp_all add: addTask_def)
next
  case (push k p p')
  then show ?case by (rule_tac owner_inv_cong [of p p']) (auto simp: addTask_push_def Let_def split: if_splits)
next
  case (add_signal p p')
  show ?case by (rule owner_inv_cong [OF signalled_owner [OF add_signal.hyps(2) add_signal.prems]]) simp_all
next
  case (manage_signal p n p')
  show ?case by (rule owner_inv_cong [OF signalled_owner [OF manage_signal.hyps(2) manage_signal.prems]]) simp_all
next
  case (destroy_signal p k p')
  show ?case by (rule owner_inv_cong [OF signalled_owner [OF destroy_signal.hyps(3) destroy_signal.prems]]) simp_all
next
  case (spurious i p)
  then show ?case by (rule_tac owner_inv_update [of p Woken _ i]) simp_all
next
  case (finished i p tk p')
  then show ?case by (rule_tac owner_inv_update [of p At_Loop _ i]) (auto simp: worker_done_def split: if_splits)
next
  case (leave i p p')
  then show ?case by (rule_tac owner_inv_update [of p Exited _ i]) (auto simp: threadExit_def res_simps split: if_splits)
next
  case (destroy p)
  then show ?case by (rule owner_inv_cong) (simp_all add: ThreadPool_destroy_def split: dstate.splits)
next
  case (wait i p)
  then have own: "j < length (p_workers p) \<Longrightarrow> p_workers p ! j = Tested \<Longrightarrow> j = i" for j
    unfolding owner_inv_def by (metis option.inject)
  have "(p_workers p)[i := Waiting] ! j \<noteq> Tested" if "j < length (p_workers p)" for j
    using own [OF that] wait.hyps by (cases "j = i") auto
  then show ?case by (simp add: owner_inv_def)
qed (blast dest: worker_test_owner worker_woken_owner manager_owner)+

text \<open>
  The size: until the destructor runs, the pool has exactly its initial threads, every element of
  \<open>m_threadIDs\<close> is taken, and the manager has never asked a thread to leave.
\<close>

definition size_inv :: "int \<Rightarrow> int \<Rightarrow> 't dcs_pool \<Rightarrow> bool" where
  "size_inv minNum maxNum p \<longleftrightarrow> m_minNum p = minNum \<and> m_maxNum p = maxNum \<and> (\<not> m_shutDown p \<longrightarrow>
     m_aliveCount p = minNum \<and> 0 \<notin> set (m_threadIDs p) \<and> int (length (m_threadIDs p)) = minNum \<and> int (length (p_workers p)) = minNum
     \<and> Leaving \<notin> set (p_workers p) \<and> Exited \<notin> set (p_workers p) \<and> p_destroyer p = D_None
     \<and> (case p_manager p of M_Grow q l b \<Rightarrow> l = minNum | M_Shrink l b \<Rightarrow> l = minNum | M_Signal n \<Rightarrow> False | _ \<Rightarrow> True))"

lemma grow_full:
  "0 \<notin> set (m_threadIDs p) \<Longrightarrow> m_aliveCount p < m_maxNum p \<Longrightarrow> num < 2 \<Longrightarrow> i \<le> length (m_threadIDs p) \<Longrightarrow>
   length (m_threadIDs p) < i + n \<Longrightarrow> grow n i num new p = Inl Out_Of_Bounds"
proof (induction n arbitrary: i)
  case (Suc n)
  show ?case
  proof (cases "i = length (m_threadIDs p)")
    case False
    then have "i < length (m_threadIDs p)" using Suc.prems by simp
    then have "m_threadIDs p ! i \<noteq> 0" using Suc.prems(1) by (metis nth_mem)
    then show ?thesis using Suc \<open>i < length (m_threadIDs p)\<close> by simp
  qed (use Suc.prems in \<open>simp add: vget_def\<close>)
qed simp

lemma grow_const: "grow n i num new p = Inr p' \<Longrightarrow> m_minNum p' = m_minNum p \<and> m_maxNum p' = m_maxNum p \<and> m_shutDown p' = m_shutDown p"
proof (induction n i num new p rule: grow.induct)
  case (2 n i num new p)
  then show ?case by (auto simp: res_simps split: if_splits list.splits)
qed simp

text \<open>With all elements taken, growing always reads behind \<open>m_threadIDs\<close>.\<close>

lemma manager_grow_full:
  assumes "size_inv minNum maxNum p" and "\<not> m_shutDown p" and "p_manager p = M_Grow q l b" and "grows q l p"
  shows "manager_step new p = Inl Out_Of_Bounds"
proof -
  have "grow (nat (m_maxNum p)) 0 0 new p = Inl Out_Of_Bounds"
    using assms by (intro grow_full) (auto simp: size_inv_def grows_def)
  then show ?thesis using assms by (simp add: manager_step_def)
qed

lemma manager_size:
  assumes "manager_step new p = Inr p'" and "size_inv minNum maxNum p"
  shows "size_inv minNum maxNum p'"
proof (cases "\<exists>q l b. p_manager p = M_Grow q l b")
  case True
  then obtain q l b where m: "p_manager p = M_Grow q l b" by blast
  show ?thesis
  proof (cases "grows q l p")
    case True
    then have "m_shutDown p" using manager_grow_full [OF assms(2) _ m, of new] assms(1) by auto
    moreover obtain p1 where "grow (nat (m_maxNum p)) 0 0 new p = Inr p1" and "p' = p1\<lparr>p_manager := M_Shrink l b\<rparr>"
      using assms(1) True m by (auto simp: manager_step_def res_simps)
    ultimately show ?thesis using assms(2) grow_const [of "nat (m_maxNum p)" 0 0 new p p1] by (simp add: size_inv_def)
  qed (use assms m in \<open>auto simp: manager_step_def size_inv_def\<close>)
qed (use assms in \<open>auto simp: manager_step_def size_inv_def shrinks_def split: mstate.splits if_splits\<close>)

lemma signalled_frame:
  "signalled p p' \<Longrightarrow> \<exists>ws. p' = p\<lparr>p_workers := ws\<rparr> \<and> length ws = length (p_workers p) \<and> set ws \<subseteq> insert Woken (set (p_workers p))"
proof (induction rule: signalled.induct)
  case (nobody p)
  then show ?case by (intro exI [of _ "p_workers p"]) auto
next
  case (one i p)
  then show ?case using set_update_subset_insert [of "p_workers p" i Woken] by auto
qed

lemma size_inv_workers:
  "size_inv minNum maxNum p \<Longrightarrow> length ws = length (p_workers p) \<Longrightarrow> set ws \<subseteq> insert w (set (p_workers p)) \<Longrightarrow> w \<noteq> Leaving \<Longrightarrow> w \<noteq> Exited
   \<Longrightarrow> size_inv minNum maxNum (p\<lparr>p_workers := ws\<rparr>)"
  by (auto simp: size_inv_def)

lemma size_inv_update:
  "size_inv minNum maxNum p \<Longrightarrow> w \<noteq> Leaving \<Longrightarrow> w \<noteq> Exited \<Longrightarrow> size_inv minNum maxNum (p\<lparr>p_workers := (p_workers p)[i := w]\<rparr>)"
  by (rule size_inv_workers) (simp_all add: set_update_subset_insert)

lemma worker_test_size:
  assumes "worker_test i p = Inr p'" and "size_inv minNum maxNum p"
  shows "size_inv minNum maxNum p'"
proof (cases "m_shutDown p")
  case True
  then show ?thesis using assms by (auto simp: worker_test_def size_inv_def split: if_splits)
next
  case False
  then obtain w p1 where "w \<noteq> Leaving" "w \<noteq> Exited" and p': "p' = p1\<lparr>p_workers := (p_workers p1)[i := w]\<rparr>" and "size_inv minNum maxNum p1"
  proof (cases "p_queue p")
    case Nil
    then have "p' = (p\<lparr>p_mutex := Some i\<rparr>)\<lparr>p_workers := (p_workers p)[i := Tested]\<rparr>"
      using assms(1) False by (auto simp: worker_test_def split: if_splits)
    then show ?thesis using that [of Tested "p\<lparr>p_mutex := Some i\<rparr>"] assms(2) by (simp add: size_inv_def)
  next
    case (Cons tk rest)
    let ?p = "p\<lparr>p_queue := rest, p_taken := p_taken p @ [tk], m_busyCount := m_busyCount p + 1, p_mutex := None\<rparr>"
    have "p' = ?p\<lparr>p_workers := (p_workers p)[i := Running tk]\<rparr>"
      using assms(1) False Cons by (auto simp: worker_test_def split: if_splits)
    then show ?thesis using that [of "Running tk" ?p] assms(2) by (simp add: size_inv_def)
  qed
  then show ?thesis by (simp add: size_inv_update)
qed

lemma worker_woken_size:
  assumes "worker_woken i p = Inr p'" and "size_inv minNum maxNum p"
  shows "size_inv minNum maxNum p'"
proof -
  have s: "size_inv minNum maxNum (p\<lparr>m_exitCount := n\<rparr>)" for n using assms(2) by (simp add: size_inv_def)
  show ?thesis
  proof (cases "0 < m_exitCount p \<and> m_minNum p < m_aliveCount p")
    case True
    then have "m_shutDown p" using assms(2) by (auto simp: size_inv_def)
    then show ?thesis using assms True by (auto simp: worker_woken_def Let_def size_inv_def split: if_splits)
  next
    case False
    then have "worker_test i p = Inr p' \<or> worker_test i (p\<lparr>m_exitCount := m_exitCount p - 1\<rparr>) = Inr p'"
      using assms(1) by (auto simp: worker_woken_def Let_def split: if_splits)
    then show ?thesis using worker_test_size s assms(2) by blast
  qed
qed

lemma threadExit_size: "i < length (p_workers p) \<Longrightarrow> p_workers p ! i = Leaving \<Longrightarrow> threadExit i p = Inr p' \<Longrightarrow>
    size_inv minNum maxNum p \<Longrightarrow> size_inv minNum maxNum p'"
  using nth_mem [of i "p_workers p"] by (auto simp: threadExit_def size_inv_def res_simps split: if_splits)

lemma signalled_size: "signalled p p' \<Longrightarrow> size_inv minNum maxNum p \<Longrightarrow> size_inv minNum maxNum p'"
  using signalled_frame [of p p'] size_inv_workers [of minNum maxNum p _ Woken] by auto

lemma size_inv_cong:
  "size_inv minNum maxNum p \<Longrightarrow> m_minNum p' = m_minNum p \<Longrightarrow> m_maxNum p' = m_maxNum p \<Longrightarrow> m_shutDown p' = m_shutDown p \<Longrightarrow>
   m_shutDown p \<or> m_aliveCount p' = m_aliveCount p \<and> m_threadIDs p' = m_threadIDs p \<and> p_workers p' = p_workers p
     \<and> p_destroyer p' = p_destroyer p \<and> p_manager p' = p_manager p \<Longrightarrow> size_inv minNum maxNum p'"
  by (auto simp: size_inv_def)

lemma pool_step_size: "pool_step p p' \<Longrightarrow> size_inv minNum maxNum p \<Longrightarrow> size_inv minNum maxNum p'"
proof (induction rule: pool_step.induct)
  case (add p tk)
  then show ?case by (rule size_inv_cong) (simp_all add: addTask_def)
next
  case (push k p p')
  then show ?case by (rule_tac size_inv_cong [of _ _ p p']) (auto simp: addTask_push_def Let_def split: if_splits)
next
  case (add_signal p p')
  show ?case by (rule size_inv_cong [OF signalled_size [OF add_signal.hyps(2) add_signal.prems]]) simp_all
next
  case (manage_signal p n p')
  then have "m_shutDown p" by (auto simp: size_inv_def)
  moreover have "size_inv minNum maxNum p'" using manage_signal by (blast intro: signalled_size)
  ultimately show ?case using signalled_frame [OF manage_signal.hyps(2)] by (auto simp: size_inv_def)
next
  case (destroy_signal p k p')
  then have "m_shutDown p" by (auto simp: size_inv_def)
  then show ?case using destroy_signal.prems signalled_frame [OF destroy_signal.hyps(3)] by (auto simp: size_inv_def)
next
  case (spurious i p)
  then show ?case by (simp add: size_inv_update)
next
  case (wait i p)
  then show ?case using size_inv_update [of minNum maxNum "p\<lparr>p_mutex := None\<rparr>" Waiting i] by (simp add: size_inv_def)
next
  case (finished i p tk p')
  let ?p = "p\<lparr>m_busyCount := m_busyCount p - 1, p_done := p_done p @ [tk]\<rparr>"
  have "p' = ?p\<lparr>p_workers := (p_workers p)[i := At_Loop]\<rparr>" using finished by (auto simp: worker_done_def split: if_splits)
  moreover have "size_inv minNum maxNum ?p" using finished by (simp add: size_inv_def)
  ultimately show ?case using size_inv_update [of minNum maxNum ?p At_Loop i] by simp
next
  case (destroy p)
  then show ?case by (auto simp: ThreadPool_destroy_def size_inv_def split: dstate.splits)
qed (blast dest: worker_test_size worker_woken_size manager_size threadExit_size)+

text \<open>
  Wake-ups: a pool of at least two threads with a task in the queue has a signal under way or a worker that is neither
  waiting nor about to wait.
\<close>

fun is_active :: "'t wstate \<Rightarrow> bool" where
  "is_active Tested = False"
| "is_active Waiting = False"
| "is_active _ = True"

definition awake_inv :: "'t dcs_pool \<Rightarrow> bool" where
  "awake_inv p \<longleftrightarrow> \<not> m_shutDown p \<longrightarrow> p_queue p \<noteq> [] \<longrightarrow> 0 < p_signals p \<or> (\<exists>w\<in>set (p_workers p). is_active w)"

lemma active_update: "i < length ws \<Longrightarrow> is_active w \<Longrightarrow> \<exists>v\<in>set (ws[i := w]). is_active v"
  using set_update_memI by fast

lemma active_kept: "\<exists>v\<in>set ws. is_active v \<Longrightarrow> \<not> is_active (ws ! i) \<Longrightarrow> \<exists>v\<in>set (ws[i := w]). is_active v"
  by (metis in_set_conv_nth length_list_update nth_list_update_neq)

lemma signalled_active:
  assumes "signalled p p'" and "owner_inv p" and "2 \<le> length (p_workers p)"
  shows "\<exists>w\<in>set (p_workers p'). is_active w"
  using assms
proof (induction rule: signalled.induct)
  case (nobody p)
  then have w: "p_workers p ! i \<noteq> Waiting" if "i < length (p_workers p)" for i using that by (metis nth_mem)
  have "p_workers p ! 0 \<noteq> Tested \<or> p_workers p ! 1 \<noteq> Tested"
    using nobody unfolding owner_inv_def by (metis One_nat_def Suc_1 Suc_le_lessD less_2_cases_iff option.inject order_less_le_trans zero_neq_one)
  then obtain i where "i < length (p_workers p)" and "p_workers p ! i \<noteq> Tested"
    using nobody by (metis One_nat_def Suc_1 Suc_le_lessD less_2_cases_iff order_less_le_trans)
  moreover then have "is_active (p_workers p ! i)" using w by (cases "p_workers p ! i") auto
  ultimately show ?case by (meson nth_mem)
qed (simp add: active_update)

lemma worker_test_awake:
  "worker_test i p = Inr p' \<Longrightarrow> i < length (p_workers p) \<Longrightarrow> awake_inv p'"
  by (auto simp: worker_test_def awake_inv_def active_update split: if_splits list.splits)

lemma worker_woken_awake:
  "worker_woken i p = Inr p' \<Longrightarrow> i < length (p_workers p) \<Longrightarrow> awake_inv p'"
  using worker_test_awake [of i "p\<lparr>m_exitCount := m_exitCount p - 1\<rparr>" p'] worker_test_awake [of i p p']
  by (auto simp: worker_woken_def Let_def awake_inv_def active_update split: if_splits)

lemma grow_awake: "grow n i num new p = Inr p' \<Longrightarrow> awake_inv p \<Longrightarrow> awake_inv p'"
proof (induction n i num new p rule: grow.induct)
  case (2 n i num new p)
  then show ?case by (auto simp: res_simps awake_inv_def split: if_splits list.splits)
qed simp

lemma manager_awake: "manager_step new p = Inr p' \<Longrightarrow> awake_inv p \<Longrightarrow> awake_inv p'"
  using grow_awake [of "nat (m_maxNum p)" 0 0 new p]
  by (auto simp: manager_step_def res_simps awake_inv_def split: mstate.splits if_splits)

lemma awake_inv_cong:
  "awake_inv p \<Longrightarrow> m_shutDown p' = m_shutDown p \<Longrightarrow> p_queue p' = p_queue p \<Longrightarrow> p_signals p' = p_signals p \<Longrightarrow>
   ((\<exists>w\<in>set (p_workers p). is_active w) \<Longrightarrow> \<exists>w\<in>set (p_workers p'). is_active w) \<Longrightarrow> awake_inv p'"
  by (auto simp: awake_inv_def)

lemma pool_step_awake:
  assumes "pool_step p p'" and "awake_inv p" and "owner_inv p" and "\<not> m_shutDown p \<Longrightarrow> 2 \<le> length (p_workers p)"
  shows "awake_inv p'"
  using assms
proof (induction rule: pool_step.induct)
  case (add p tk)
  from add.prems(1) show ?case by (rule awake_inv_cong) (simp_all add: addTask_def)
next
  case (push k p p')
  then show ?case by (auto simp: addTask_push_def Let_def awake_inv_def split: if_splits)
next
  case (add_signal p p')
  then show ?case using signalled_active signalled_frame by (fastforce simp: awake_inv_def)
next
  case (manage_signal p n p')
  then show ?case using signalled_active signalled_frame by (fastforce simp: awake_inv_def)
next
  case (destroy_signal p k p')
  then show ?case using signalled_active signalled_frame by (fastforce simp: awake_inv_def)
next
  case (spurious i p)
  then show ?case by (simp add: awake_inv_def active_update)
next
  case (wait i p)
  from wait.prems(1) show ?case by (rule awake_inv_cong) (simp_all add: active_kept wait.hyps)
next
  case (finished i p tk p')
  then show ?case by (auto simp: worker_done_def awake_inv_def active_update split: if_splits)
next
  case (leave i p p')
  then show ?case by (auto simp: threadExit_def awake_inv_def active_update res_simps split: if_splits)
next
  case (destroy p)
  then show ?case by (auto simp: ThreadPool_destroy_def awake_inv_def split: dstate.splits)
qed (blast dest: worker_test_awake worker_woken_awake manager_awake)+

section \<open>Properties\<close>

lemma reached_invs:
  "reachable (pool_start ids maxNum) pool_step p \<Longrightarrow> 0 \<notin> set ids \<Longrightarrow> tasks_inv p \<and> owner_inv p \<and> size_inv (int (length ids)) maxNum p"
proof (induction rule: reachable.induct)
  case (first p)
  then show ?case
    by (auto simp: pool_start_def ThreadPool_new_def tasks_inv_def owner_inv_def size_inv_def running_start)
next
  case (more p p')
  then show ?case using pool_step_tasks pool_step_owner pool_step_size by blast
qed

lemma worker_takes:
  assumes "i < length (p_workers p)" and "p_workers p ! i = At_Loop" and "p_mutex p = None" and "\<not> m_shutDown p"
    and "p_destroyer p = D_None" and "p_queue p = tk # rest"
  shows "\<exists>p'. pool_step p p' \<and> p_workers p' ! i = Running tk \<and> p_queue p' = rest \<and> p_taken p' = p_taken p @ [tk]"
proof -
  obtain p' where "worker_test i p = Inr p'" and "p_workers p' ! i = Running tk \<and> p_queue p' = rest \<and> p_taken p' = p_taken p @ [tk]"
    using assms by (simp add: worker_test_def)
  then show ?thesis using pool_step.test assms by blast
qed

lemma reached_add:
  assumes "reachable S pool_step p" and "\<not> m_shutDown p" and "p_adding p = []" and "length (p_queue p) < QUEUE_CAPACITY"
    and "p_destroyer p = D_None"
  shows "reachable S pool_step (p\<lparr>p_queue := p_queue p @ [tk], p_added := p_added p @ [tk], p_signals := Suc (p_signals p)\<rparr>)"
proof -
  have "reachable S pool_step (addTask tk p)" using assms(1) by (rule reachable.more) (rule pool_step.add)
  then show ?thesis
    by (rule reachable.more) (rule pool_step.push [of 0], use assms in \<open>auto simp: addTask_def addTask_push_def Let_def\<close>)
qed

lemma reached_start: "reachable (pool_start ids maxNum) pool_step (ThreadPool_new ids maxNum exit0)"
  by (rule reachable.first) (auto simp: pool_start_def)

text \<open>
  C10. Tasks of the pool. In every interleaving of the callers of \<open>addTask\<close>, the workers, the manager and the
  destructor: tasks are taken in the order they were added, the queue holds at most a hundred, every task added is
  exactly once in the queue, in a worker or finished, \<open>getBusyThreadCount\<close> is the number of running tasks, at most
  one worker is between its test and its wait, until the destructor runs no thread has left and
  \<open>getAliveThreadCount\<close> is the initial number, and a worker at its loop can take the first task of the queue.
\<close>

theorem dcs_pool_tasks:
  assumes "reachable (pool_start ids maxNum) pool_step p" and "0 \<notin> set ids"
  shows "p_added p = p_taken p @ p_queue p \<and> length (p_queue p) \<le> 100
    \<and> mset (p_added p) = mset (p_queue p) + running (p_workers p) + mset (p_done p)
    \<and> getBusyThreadCount p = int (size (running (p_workers p)))
    \<and> (\<forall>i j. i < length (p_workers p) \<longrightarrow> j < length (p_workers p) \<longrightarrow> p_workers p ! i = Tested \<longrightarrow> p_workers p ! j = Tested \<longrightarrow> i = j)
    \<and> (\<not> m_shutDown p \<longrightarrow> length (p_workers p) = length ids \<and> Leaving \<notin> set (p_workers p) \<and> Exited \<notin> set (p_workers p)
         \<and> getAliveThreadCount p = int (length ids))
    \<and> (\<forall>i tk rest. \<not> m_shutDown p \<longrightarrow> i < length (p_workers p) \<longrightarrow> p_workers p ! i = At_Loop \<longrightarrow> p_mutex p = None
         \<longrightarrow> p_queue p = tk # rest
         \<longrightarrow> (\<exists>p'. pool_step p p' \<and> p_workers p' ! i = Running tk \<and> p_queue p' = rest \<and> p_taken p' = p_taken p @ [tk]))"
proof -
  have t: "tasks_inv p" and o: "owner_inv p" and s: "size_inv (int (length ids)) maxNum p" using reached_invs [OF assms] by auto
  show ?thesis
  proof (intro conjI)
    show "\<forall>i j. i < length (p_workers p) \<longrightarrow> j < length (p_workers p) \<longrightarrow> p_workers p ! i = Tested \<longrightarrow> p_workers p ! j = Tested \<longrightarrow> i = j"
      using o unfolding owner_inv_def by (metis option.inject)
    show "\<forall>i tk rest. \<not> m_shutDown p \<longrightarrow> i < length (p_workers p) \<longrightarrow> p_workers p ! i = At_Loop \<longrightarrow> p_mutex p = None
         \<longrightarrow> p_queue p = tk # rest
         \<longrightarrow> (\<exists>p'. pool_step p p' \<and> p_workers p' ! i = Running tk \<and> p_queue p' = rest \<and> p_taken p' = p_taken p @ [tk])"
      using s by (intro allI impI worker_takes) (simp_all add: size_inv_def)
  qed (use t s in \<open>simp_all add: tasks_inv_def size_inv_def QUEUE_CAPACITY_def getBusyThreadCount_def getAliveThreadCount_def ac_simps\<close>)
qed

lemma queued_one:
  "reachable (pool_start [5, 6] 2) pool_step
     ((ThreadPool_new [5, 6] 2 0)\<lparr>p_queue := [9 :: nat], p_added := [9], p_signals := 1\<rparr>)"
  using reached_add [OF reached_start [of "[5, 6]" 2 0], of "9 :: nat"] by (simp add: ThreadPool_new_def QUEUE_CAPACITY_def)

theorem dcs_pool_tasks_witness:
  "\<exists>p p'. reachable (pool_start [5, 6] 2) pool_step p \<and> p_queue p = [9 :: nat] \<and> getAliveThreadCount p = 2
     \<and> pool_step p p' \<and> p_workers p' ! 1 = Running 9 \<and> p_queue p' = []"
proof -
  let ?p = "(ThreadPool_new [5, 6] 2 0)\<lparr>p_queue := [9 :: nat], p_added := [9], p_signals := 1\<rparr>"
  have c: "getAliveThreadCount ?p = 2" and st: "\<exists>p'. pool_step ?p p' \<and> p_workers p' ! 1 = Running 9 \<and> p_queue p' = []"
    using dcs_pool_tasks [OF queued_one] by (auto simp: ThreadPool_new_def)
  then obtain p' where "pool_step ?p p'" "p_workers p' ! 1 = Running 9" "p_queue p' = []" by blast
  with queued_one c have "reachable (pool_start [5, 6] 2) pool_step ?p \<and> p_queue ?p = [9] \<and> getAliveThreadCount ?p = 2
     \<and> pool_step ?p p' \<and> p_workers p' ! 1 = Running 9 \<and> p_queue p' = []" by simp
  then show ?thesis by blast
qed

text \<open>
  The pool never grows. Until the destructor runs the manager reads the initial number of threads in every round. With
  \<open>maxNum\<close> equal to \<open>minNum\<close>, as \<open>NetServer\<close> makes the pool, the manager changes nothing; with a larger \<open>maxNum\<close> every
  attempt to grow reads behind \<open>m_threadIDs\<close>, which has \<open>minNum\<close> elements, all taken.
\<close>

theorem dcs_pool_never_grows:
  assumes "reachable (pool_start ids maxNum) pool_step p" and "0 \<notin> set ids" and "\<not> m_shutDown p" and "p_manager p = M_Grow q l b"
  shows "l = int (length ids)
    \<and> (q > l \<and> l < maxNum \<longrightarrow> manager_step new p = Inl Out_Of_Bounds)
    \<and> (\<not> (q > l \<and> l < maxNum) \<longrightarrow> manager_step new p = Inr (p\<lparr>p_manager := M_Shrink l b\<rparr>)
         \<and> manager_step new (p\<lparr>p_manager := M_Shrink l b\<rparr>) = Inr (p\<lparr>p_manager := M_Loop\<rparr>))"
proof -
  have s: "size_inv (int (length ids)) maxNum p" using reached_invs [OF assms(1,2)] by auto
  moreover have "manager_step new p = Inl Out_Of_Bounds" if "q > l \<and> l < maxNum"
    using that s by (intro manager_grow_full [OF s assms(3,4)]) (auto simp: grows_def size_inv_def)
  ultimately show ?thesis using assms by (simp add: manager_step_def grows_def shrinks_def size_inv_def)
qed

lemma grow_attempt:
  "reachable (pool_start [5] 4) pool_step
     ((ThreadPool_new [5] 4 0)\<lparr>p_queue := [8, 9 :: nat], p_added := [8, 9], p_signals := 2, p_manager := M_Grow 2 1 0\<rparr>)"
proof -
  let ?p = "(ThreadPool_new [5] 4 0)\<lparr>p_queue := [8, 9 :: nat], p_added := [8, 9], p_signals := 2\<rparr>"
  have "reachable (pool_start [5] 4) pool_step ((ThreadPool_new [5] 4 0)\<lparr>p_queue := [8 :: nat], p_added := [8], p_signals := 1\<rparr>)"
    using reached_add [OF reached_start [of "[5]" 4 0], of "8 :: nat"] by (simp add: ThreadPool_new_def QUEUE_CAPACITY_def)
  then have "reachable (pool_start [5] 4) pool_step ?p"
    using reached_add [of "pool_start [5] 4" "(ThreadPool_new [5] 4 0)\<lparr>p_queue := [8 :: nat], p_added := [8], p_signals := 1\<rparr>" 9]
    by (simp add: ThreadPool_new_def QUEUE_CAPACITY_def numeral_2_eq_2)
  then have "reachable (pool_start [5] 4) pool_step (?p\<lparr>p_manager := M_Asleep\<rparr>)"
    by (rule reachable.more) (rule pool_step.manage, auto simp: ThreadPool_new_def manager_locks_def manager_step_def)
  then show ?thesis
    by (rule reachable.more) (rule pool_step.manage, auto simp: ThreadPool_new_def manager_locks_def manager_step_def)
qed

theorem dcs_pool_never_grows_witness:
  "\<exists>p. reachable (pool_start [5] 4) pool_step p \<and> p_queue p = [8, 9 :: nat] \<and> manager_step [7] p = Inl Out_Of_Bounds"
proof -
  let ?p = "(ThreadPool_new [5] 4 0)\<lparr>p_queue := [8, 9 :: nat], p_added := [8, 9], p_signals := 2, p_manager := M_Grow 2 1 0\<rparr>"
  have "manager_step [7] ?p = Inl Out_Of_Bounds"
    using dcs_pool_never_grows [OF grow_attempt, of 2 1 0 "[7]"] by (simp add: ThreadPool_new_def)
  then show ?thesis using grow_attempt by (intro exI [of _ ?p]) auto
qed

lemma reached_awake:
  "reachable (pool_start ids maxNum) pool_step p \<Longrightarrow> 0 \<notin> set ids \<Longrightarrow> 2 \<le> length ids \<Longrightarrow> awake_inv p"
proof (induction rule: reachable.induct)
  case (first p)
  then show ?case by (auto simp: pool_start_def ThreadPool_new_def awake_inv_def)
next
  case (more p p')
  then have "tasks_inv p \<and> owner_inv p \<and> size_inv (int (length ids)) maxNum p" by (intro reached_invs)
  then show ?case using more by (intro pool_step_awake [OF more.hyps(2)]) (auto simp: size_inv_def)
qed

text \<open>The only worker of a pool tests the queue, a task is pushed and signalled, and then the worker waits.\<close>

lemma single_stalls:
  "\<exists>p. reachable (pool_start [n] maxNum) pool_step p \<and> p_queue p = [tk] \<and> p_workers p = [Waiting] \<and> p_signals p = 0
     \<and> p_adding p = [] \<and> \<not> m_shutDown p \<and> p_manager p = M_Loop"
proof -
  let ?s0 = "ThreadPool_new [n] maxNum 0 :: 'a dcs_pool"
  let ?s1 = "?s0\<lparr>p_workers := [Tested], p_mutex := Some 0\<rparr>"
  let ?s3 = "?s1\<lparr>p_queue := [tk], p_added := [tk], p_signals := 1\<rparr>"
  let ?s4 = "?s3\<lparr>p_signals := p_signals ?s3 - 1\<rparr>"
  have "reachable (pool_start [n] maxNum) pool_step ?s0" by (rule reachable.first) (auto simp: pool_start_def)
  then have "reachable (pool_start [n] maxNum) pool_step ?s1"
    by (rule reachable.more) (rule pool_step.test [of 0], auto simp: ThreadPool_new_def worker_test_def)
  then have "reachable (pool_start [n] maxNum) pool_step (addTask tk ?s1)"
    by (rule reachable.more) (rule pool_step.add)
  then have "reachable (pool_start [n] maxNum) pool_step ?s3"
    by (rule reachable.more) (rule pool_step.push [of 0], auto simp: ThreadPool_new_def addTask_def addTask_push_def QUEUE_CAPACITY_def)
  then have "reachable (pool_start [n] maxNum) pool_step ?s4"
    by (rule reachable.more) (rule pool_step.add_signal, auto intro: signalled.nobody)
  then have "reachable (pool_start [n] maxNum) pool_step (?s4\<lparr>p_workers := (p_workers ?s4)[0 := Waiting], p_mutex := None\<rparr>)"
    by (rule reachable.more) (rule pool_step.wait, auto)
  then show ?thesis by - (rule exI, rule conjI, assumption, simp add: ThreadPool_new_def)
qed

text \<open>
  C11. Wake-ups of the pool. With two threads or more, whenever a task is in the queue and the destructor has not run, a
  signal is under way or some worker is neither waiting nor about to wait. With one thread a task can be
  left in the queue for good: \<open>addTask\<close> pushes and signals without the mutex between the worker's test and
  its wait, and the worker then waits with the queue non-empty and no signal under way.
\<close>

theorem dcs_pool_wakeups:
  "(reachable (pool_start ids maxNum) pool_step p \<longrightarrow> 0 \<notin> set ids \<longrightarrow> 2 \<le> length ids \<longrightarrow> \<not> m_shutDown p \<longrightarrow> p_queue p \<noteq> []
      \<longrightarrow> 0 < p_signals p \<or> (\<exists>i<length (p_workers p). p_workers p ! i \<noteq> Waiting \<and> p_workers p ! i \<noteq> Tested))
   \<and> (\<exists>p'. reachable (pool_start [n] maxNum) pool_step p' \<and> p_queue p' = [tk] \<and> p_workers p' = [Waiting] \<and> p_signals p' = 0
      \<and> p_adding p' = [] \<and> \<not> m_shutDown p' \<and> p_manager p' = M_Loop)"
proof (intro conjI impI)
  assume a: "reachable (pool_start ids maxNum) pool_step p" "0 \<notin> set ids" "2 \<le> length ids" "\<not> m_shutDown p" "p_queue p \<noteq> []"
  then have "0 < p_signals p \<or> (\<exists>w\<in>set (p_workers p). is_active w)" using reached_awake [OF a(1-3)] by (simp add: awake_inv_def)
  then show "0 < p_signals p \<or> (\<exists>i<length (p_workers p). p_workers p ! i \<noteq> Waiting \<and> p_workers p ! i \<noteq> Tested)"
    by (metis in_set_conv_nth is_active.simps(1,2))
qed (rule single_stalls)

theorem dcs_pool_wakeups_witness:
  "(\<exists>p. reachable (pool_start [5, 6] 2) pool_step p \<and> p_queue p = [9 :: nat]
      \<and> (0 < p_signals p \<or> p_workers p ! 0 \<noteq> Waiting \<or> p_workers p ! 1 \<noteq> Waiting))
   \<and> (\<exists>p. reachable (pool_start [5] 2) pool_step p \<and> p_queue p = [9 :: nat] \<and> p_workers p = [Waiting] \<and> p_signals p = 0)"
proof -
  let ?p = "(ThreadPool_new [5, 6] 2 0)\<lparr>p_queue := [9 :: nat], p_added := [9], p_signals := 1\<rparr>"
  have "0 < p_signals ?p \<or> p_workers ?p ! 0 \<noteq> Waiting \<or> p_workers ?p ! 1 \<noteq> Waiting"
    and "\<exists>p. reachable (pool_start [5] 2) pool_step p \<and> p_queue p = [9 :: nat] \<and> p_workers p = [Waiting] \<and> p_signals p = 0"
    using dcs_pool_wakeups [of "[5, 6]" 2 ?p 5 9] queued_one by (auto simp: ThreadPool_new_def less_Suc_eq)
  moreover have "p_queue ?p = [9]" by simp
  ultimately show ?thesis using queued_one by blast
qed

text \<open>
  Destruction of the pool. The destructor joins the manager only: from the start of a pool it can run to its end while the workers
  are still at their loop, and the next step of such a worker uses the freed members.
\<close>

theorem dcs_pool_destroyed_in_use:
  "\<exists>p. reachable (pool_start [n] maxNum) pool_step p \<and> p_destroyer p = D_Gone \<and> p_workers p = [At_Loop]
     \<and> worker_test 0 p = Inl Use_After_Free"
proof -
  let ?s0 = "ThreadPool_new [n] maxNum 0 :: 'a dcs_pool"
  let ?s1 = "?s0\<lparr>m_shutDown := True, p_destroyer := D_Join\<rparr>"
  let ?s2 = "?s1\<lparr>p_manager := M_End\<rparr>"
  let ?s3 = "?s2\<lparr>p_destroyer := D_Signal 0\<rparr>"
  let ?s4 = "?s3\<lparr>p_destroyer := D_Signal (Suc 0)\<rparr>"
  have r: "reachable (pool_start [n] maxNum) pool_step ?s0" by (rule reachable.first) (auto simp: pool_start_def)
  have "?s1 = ThreadPool_destroy ?s0" by (simp add: ThreadPool_new_def ThreadPool_destroy_def)
  then have "reachable (pool_start [n] maxNum) pool_step ?s1" using reachable.more [OF r pool_step.destroy] by simp
  then have "reachable (pool_start [n] maxNum) pool_step ?s2"
    by (rule reachable.more) (rule pool_step.manage, auto simp: ThreadPool_new_def manager_locks_def manager_step_def)
  moreover have "?s3 = ThreadPool_destroy ?s2" by (simp add: ThreadPool_destroy_def)
  ultimately have "reachable (pool_start [n] maxNum) pool_step ?s3" using reachable.more pool_step.destroy by metis
  then have "reachable (pool_start [n] maxNum) pool_step ?s4"
    by (rule reachable.more) (rule pool_step.destroy_signal [of _ 0], auto simp: ThreadPool_new_def intro: signalled.nobody)
  then have "reachable (pool_start [n] maxNum) pool_step (ThreadPool_destroy ?s4)"
    by (rule reachable.more) (rule pool_step.destroy)
  then show ?thesis by - (rule exI, rule conjI, assumption, simp add: ThreadPool_new_def ThreadPool_destroy_def worker_test_def)
qed

end
