(* ===== verification/Dcs_Node.thy ===== *)
theory Dcs_Node
  imports Dcs_Master
begin

text \<open>
  A cache server node (Mini_DCS/cache_server: src/netServer.cpp, src/manager.cpp, common/request.cpp,
  common/epoll.cpp): the table of connections, the tasks handed to the thread pool, the registry of
  the known servers, and the handlers that read a request, dispatch it and send the answer. Calls to epoll, to
  the timers and to \<open>close\<close> are recorded; the JSON library is a parameter.
\<close>

section \<open>State\<close>

datatype ep_call = Ep_Add | Ep_Mod_Out | Ep_Mod_In | Ep_Del | Fd_Close | Send_Err string

datatype node_task = Read_Task int | Write_Task int

record dcs_node =
  nd_ipPortLs :: "string list"
  nd_ipLs :: "string list"
  nd_portLs :: "int list"
  nd_servers :: "(string, int) map"
  nd_users :: "(int \<times> dcs_conn) list"
  nd_userCount :: int
  nd_ep :: "(int \<times> ep_call) list"
  nd_timer :: "(int \<times> int) list"
  nd_tasks :: "node_task list"
  nd_timeOutMs :: int
  nd_isET :: bool
  nd_listenET :: bool

text \<open>What is asked of the JSON library.\<close>

record json_lib =
  json_req :: "string \<Rightarrow> (int \<times> int) option"
  dump_servers :: "(string \<times> int) list \<Rightarrow> string"
  dump_list :: "string list \<Rightarrow> string"

abbreviation EAGAIN_NO :: int where "EAGAIN_NO \<equiv> 11"

definition NODE_MAX_FD :: int where "NODE_MAX_FD = 65536"

text \<open>\<open>users_[fd]\<close> makes a new connection when there is none.\<close>

definition user :: "int \<Rightarrow> dcs_node \<Rightarrow> dcs_conn" where
  "user fd s = (case map_of (nd_users s) fd of Some c \<Rightarrow> c | None \<Rightarrow> Connection_new 1024)"

fun put_assoc :: "'k \<Rightarrow> 'v \<Rightarrow> ('k \<times> 'v) list \<Rightarrow> ('k \<times> 'v) list" where
  "put_assoc k v [] = [(k, v)]"
| "put_assoc k v ((k', v') # xs) = (if k = k' then (k, v) # xs else (k', v') # put_assoc k v xs)"

definition put_user :: "int \<Rightarrow> dcs_conn \<Rightarrow> dcs_node \<Rightarrow> dcs_node" where
  "put_user fd c s = s\<lparr>nd_users := put_assoc fd c (nd_users s)\<rparr>"

definition ep :: "int \<Rightarrow> ep_call \<Rightarrow> dcs_node \<Rightarrow> dcs_node" where
  "ep fd x s = (if fd < 0 then s else s\<lparr>nd_ep := nd_ep s @ [(fd, x)]\<rparr>)"

section \<open>Set-up\<close>

text \<open>The edge-trigger flags of the listening socket and of the connections.\<close>

definition initEventMode :: "int \<Rightarrow> dcs_node \<Rightarrow> dcs_node" where
  "initEventMode trigMode s =
     (if trigMode = 0 then s\<lparr>nd_listenET := False, nd_isET := False\<rparr>
      else if trigMode = 1 then s\<lparr>nd_listenET := False, nd_isET := True\<rparr>
      else if trigMode = 2 then s\<lparr>nd_listenET := True, nd_isET := False\<rparr>
      else s\<lparr>nd_listenET := True, nd_isET := True\<rparr>)"

text \<open>
  \<open>initSocket_\<close>, with the answers of \<open>socket\<close>, the two \<open>setsockopt\<close>, \<open>bind\<close>, \<open>listen\<close> and \<open>addFd\<close>. A failure of the first
  \<open>setsockopt\<close> closes the socket and goes on with it.
\<close>

definition initSocket ::
  "int \<Rightarrow> int \<Rightarrow> int \<Rightarrow> int \<Rightarrow> int \<Rightarrow> int \<Rightarrow> bool \<Rightarrow> dcs_node \<Rightarrow> bool \<times> dcs_node" where
  "initSocket port fd opt1 opt2 bound listening added s =
     (if 65536 < port \<or> port < 1024 then (False, s)
      else if fd < 0 then (False, s)
      else
        (let s1 = (if opt1 < 0 then ep fd Fd_Close s else s) in
         if opt2 = -1 then (False, ep fd Fd_Close s1)
         else if bound < 0 then (False, ep fd Fd_Close s1)
         else if listening < 0 then (False, ep fd Fd_Close s1)
         else if \<not> added then (False, ep fd Fd_Close (ep fd Ep_Add s1))
         else (True, ep fd Ep_Add s1)))"

section \<open>The manager\<close>

definition node_key :: "sock_addr \<Rightarrow> string" where
  "node_key a = sin_addr a @ to_string (uint (ntohs (sin_port a)))"

fun send_all :: "string \<Rightarrow> (int \<times> dcs_conn) list \<Rightarrow> (int \<times> dcs_conn) list res" where
  "send_all msg [] = Inr []"
| "send_all msg ((fd, c) # us) =
     bind_res (connnectionSend msg c) (\<lambda>c1. bind_res (send_all msg us) (\<lambda>us1. Inr ((fd, c1) # us1)))"

definition node_notify :: "json_lib \<Rightarrow> dcs_node \<Rightarrow> dcs_node res" where
  "node_notify js s =
     bind_res (send_all (dump_servers js (zip (nd_ipLs s) (nd_portLs s))) (nd_users s)) (\<lambda>us. Inr (s\<lparr>nd_users := us\<rparr>))"

definition node_keepAlive :: "json_lib \<Rightarrow> sock_addr \<Rightarrow> dcs_node \<Rightarrow> dcs_node res" where
  "node_keepAlive js a s =
     (if nd_servers s (node_key a) \<noteq> None then Inr s
      else node_notify js (s\<lparr>nd_ipPortLs := nd_ipPortLs s @ [node_key a], nd_ipLs := nd_ipLs s @ [sin_addr a],
             nd_portLs := nd_portLs s @ [uint (ntohs (sin_port a))], nd_servers := (nd_servers s)(node_key a \<mapsto> 0)\<rparr>))"

fun send_matching :: "sock_addr \<Rightarrow> string \<Rightarrow> (int \<times> dcs_conn) list \<Rightarrow> (int \<times> dcs_conn) list res" where
  "send_matching a msg [] = Inr []"
| "send_matching a msg ((fd, c) # us) =
     bind_res (if conn_addr c = a then connnectionSend msg c else Inr c) (\<lambda>c1.
     bind_res (send_matching a msg us) (\<lambda>us1. Inr ((fd, c1) # us1)))"

definition node_distribution :: "json_lib \<Rightarrow> sock_addr \<Rightarrow> dcs_node \<Rightarrow> dcs_node res" where
  "node_distribution js a s =
     bind_res (all_ip_ports (length (nd_ipPortLs s)) (nd_ipLs s) (nd_portLs s)) (\<lambda>l.
     bind_res (send_matching a (dump_list js l) (nd_users s)) (\<lambda>us. Inr (s\<lparr>nd_users := us\<rparr>)))"

section \<open>Requests\<close>

definition node_parse :: "json_lib \<Rightarrow> int \<Rightarrow> dcs_node \<Rightarrow> (bool \<times> dcs_node) res" where
  "node_parse js fd s =
     (let c = user fd s in
      bind_res (printContent (readBuf c)) (\<lambda>_.
      bind_res (AlltoStr (readBuf c)) (\<lambda>(str, rb).
      (let s1 = put_user fd (c\<lparr>readBuf := rb\<rparr>) s; a = conn_addr c in
       case json_req js str of
         None \<Rightarrow> Inl (Uncaught_Exception ''json'')
       | Some (machineType, req_type) \<Rightarrow>
           if machineType = 0 then
             bind_res (if req_type = 0 then node_keepAlive js a s1 else Inr s1) (\<lambda>s2. Inr (True, s2))
           else if machineType = 1 then
             bind_res (if req_type = 0 then node_distribution js a s1 else Inr s1) (\<lambda>s2. Inr (True, s2))
           else Inr (machineType = 2, s1)))))"

definition handleConnec :: "json_lib \<Rightarrow> int \<Rightarrow> dcs_node \<Rightarrow> (bool \<times> dcs_node) res" where
  "handleConnec js fd s =
     (let s1 = put_user fd ((user fd s)\<lparr>needSend := False\<rparr>) s in
      if readableBytes (readBuf (user fd s1)) \<le> 0 then Inr (False, s1)
      else bind_res (node_parse js fd s1) (\<lambda>(ok, s2). Inr (ok \<and> needSend (user fd s2), s2)))"

section \<open>Handlers of the network server\<close>

definition extentTime :: "int \<Rightarrow> dcs_node \<Rightarrow> dcs_node" where
  "extentTime fd s =
     (if 0 < nd_timeOutMs s then s\<lparr>nd_timer := nd_timer s @ [(conn_fd (user fd s), nd_timeOutMs s)]\<rparr> else s)"

definition sendErr :: "int \<Rightarrow> string \<Rightarrow> dcs_node \<Rightarrow> dcs_node res" where
  "sendErr fd info s = bind_res (assert_res (0 < fd)) (\<lambda>_. Inr (ep fd Fd_Close (ep fd (Send_Err info) s)))"

definition addConnection :: "int \<Rightarrow> sock_addr \<Rightarrow> dcs_node \<Rightarrow> dcs_node res" where
  "addConnection fd addr s =
     bind_res (assert_res (0 < fd)) (\<lambda>_.
     bind_res (initConnection fd addr (user fd s) (nd_userCount s)) (\<lambda>(c, n).
     (let s1 = (put_user fd c s)\<lparr>nd_userCount := n\<rparr>;
          s2 = (if 0 < nd_timeOutMs s1 then s1\<lparr>nd_timer := nd_timer s1 @ [(fd, nd_timeOutMs s1)]\<rparr> else s1)
      in Inr (ep fd Ep_Add s2))))"

definition closeConnection :: "int \<Rightarrow> dcs_node \<Rightarrow> dcs_node" where
  "closeConnection fd s =
     (let c = user fd s; s1 = ep (conn_fd c) Ep_Del s; (c1, n, closed) = closeConnect c (nd_userCount s1);
          s2 = (put_user fd c1 s1)\<lparr>nd_userCount := n\<rparr>
      in if closed then ep (conn_fd c) Fd_Close s2 else s2)"

text \<open>\<open>handleListen\<close> with the answers of \<open>accept\<close>.\<close>

fun handleListen :: "(int \<times> sock_addr) list \<Rightarrow> dcs_node \<Rightarrow> dcs_node res" where
  "handleListen [] s = Inl No_Return"
| "handleListen ((fd, addr) # as) s =
     (if fd \<le> 0 then Inr s
      else if NODE_MAX_FD \<le> nd_userCount s then sendErr fd ''server busy'' s
      else bind_res (addConnection fd addr s) (\<lambda>s1. if nd_listenET s1 then handleListen as s1 else Inr s1))"

definition handleRead :: "int \<Rightarrow> dcs_node \<Rightarrow> dcs_node" where
  "handleRead fd s = (let s1 = extentTime fd s in s1\<lparr>nd_tasks := nd_tasks s1 @ [Read_Task fd]\<rparr>)"

definition handleWrite :: "int \<Rightarrow> dcs_node \<Rightarrow> dcs_node" where
  "handleWrite fd s = (let s1 = extentTime fd s in s1\<lparr>nd_tasks := nd_tasks s1 @ [Write_Task fd]\<rparr>)"

definition onProcess :: "json_lib \<Rightarrow> int \<Rightarrow> dcs_node \<Rightarrow> dcs_node res" where
  "onProcess js fd s =
     bind_res (handleConnec js fd s) (\<lambda>(send, s1).
     Inr (ep (conn_fd (user fd s1)) (if send then Ep_Mod_Out else Ep_Mod_In) s1))"

definition onRead :: "json_lib \<Rightarrow> readv_answer list \<Rightarrow> int \<Rightarrow> dcs_node \<Rightarrow> dcs_node res" where
  "onRead js as fd s =
     bind_res (conn_readBuffer (nd_isET s) as (user fd s)) (\<lambda>(ret, err, c).
     (let s1 = put_user fd c s in
      if ret \<le> 0 \<and> err \<noteq> EAGAIN_NO then Inr (closeConnection fd s1) else onProcess js fd s1))"

definition onWrite :: "json_lib \<Rightarrow> write_answer list \<Rightarrow> int \<Rightarrow> dcs_node \<Rightarrow> (string \<times> dcs_node) res" where
  "onWrite js as fd s =
     bind_res (conn_writeBuffer (nd_isET s) as (user fd s)) (\<lambda>(ret, err, sent, c).
     (let s1 = put_user fd c s in
      bind_res (writeBytes c) (\<lambda>left.
      if left = 0 then bind_res (onProcess js fd s1) (\<lambda>s2. Inr (sent, s2))
      else if ret < 0 \<and> err = EAGAIN_NO then Inr (sent, ep (conn_fd c) Ep_Mod_Out s1)
      else Inr (sent, s1))))"

text \<open>The dispatch of \<open>start\<close>.\<close>

datatype node_event = Ev_Listen "(int \<times> sock_addr) list" | Ev_Close int | Ev_In int | Ev_Out int | Ev_Other

definition start_event :: "node_event \<Rightarrow> dcs_node \<Rightarrow> dcs_node res" where
  "start_event e s =
     (case e of
        Ev_Listen as \<Rightarrow> handleListen as s
      | Ev_Close fd \<Rightarrow> bind_res (assert_res (map_of (nd_users s) fd \<noteq> None)) (\<lambda>_. Inr (closeConnection fd s))
      | Ev_In fd \<Rightarrow> bind_res (assert_res (map_of (nd_users s) fd \<noteq> None)) (\<lambda>_. Inr (handleRead fd s))
      | Ev_Out fd \<Rightarrow> bind_res (assert_res (map_of (nd_users s) fd \<noteq> None)) (\<lambda>_. Inr (handleWrite fd s))
      | Ev_Other \<Rightarrow> Inr s)"

section \<open>A request and its answer\<close>

lemma map_of_put_assoc: "map_of (put_assoc k v xs) = (map_of xs)(k \<mapsto> v)"
  by (induction xs) (auto simp: fun_eq_iff)

lemma user_put [simp]: "user fd' (put_user fd c s) = (if fd' = fd then c else user fd' s)"
  by (simp add: user_def put_user_def map_of_put_assoc)

lemma keys_put_assoc: "k \<in> fst ` set xs \<Longrightarrow> map fst (put_assoc k v xs) = map fst xs"
  by (induction k v xs rule: put_assoc.induct) auto

lemma set_put_assoc: "set (put_assoc k v xs) \<subseteq> insert (k, v) (set xs)"
  by (induction k v xs rule: put_assoc.induct) auto

lemma put_put_assoc: "put_assoc k v (put_assoc k v' xs) = put_assoc k v xs"
  by (induction k v' xs rule: put_assoc.induct) auto

lemma put_put [simp]: "put_user fd c (put_user fd c' s) = put_user fd c s"
  by (simp add: put_user_def put_put_assoc)

lemma user_ep [simp]: "user fd (ep fd' x s) = user fd s"
  by (simp add: ep_def user_def)

lemma send_matching_one:
  assumes "distinct (map fst us)" "map_of us fd = Some c" "conn_addr c = a" "connnectionSend msg c = Inr c1"
    "\<forall>(fd', c')\<in>set us. fd' \<noteq> fd \<longrightarrow> conn_addr c' \<noteq> a"
  shows "send_matching a msg us = Inr (put_assoc fd c1 us)"
  using assms(1,2,5)
proof (induction us)
  case (Cons u us)
  obtain fd' c' where u: "u = (fd', c')" by fastforce
  show ?case
  proof (cases "fd' = fd")
    case True
    have "send_matching a msg us = Inr us" if "\<forall>(fd', c')\<in>set us. conn_addr c' \<noteq> a" for us
      using that by (induction us) auto
    moreover have "\<forall>(fd', c')\<in>set us. conn_addr c' \<noteq> a" using Cons.prems u True by force
    ultimately show ?thesis using True u Cons.prems(2) assms(3,4) by simp
  next
    case False
    then show ?thesis using Cons u by auto
  qed
qed simp

text \<open>A connection at rest: its buffers are empty.\<close>

definition at_rest :: "dcs_conn \<Rightarrow> bool" where
  "at_rest c \<longleftrightarrow> buffer_inv (readBuf c) \<and> contents (readBuf c) = [] \<and> buffer_inv (writeBuf c) \<and> contents (writeBuf c) = []"

lemma at_rest_empty: "buffer_inv b \<Longrightarrow> contents b = [] \<Longrightarrow> readableBytes b = 0"
  using length_contents [of b] by simp

text \<open>\<open>printContent\<close> stays inside when the buffer is not full.\<close>

lemma print_ok: "buffer_inv b \<Longrightarrow> writePos b < length (buffer_bytes b) \<Longrightarrow> \<exists>out. printContent b = Inr out"
  by (auto simp: printContent_def buffer_inv_def intro!: print_from_in)

lemma node_distribution_ok:
  assumes l: "all_ip_ports (length (nd_ipPortLs s)) (nd_ipLs s) (nd_portLs s) = Inr l"
    and us: "distinct (map fst (nd_users s))" "map_of (nd_users s) fd \<noteq> None"
    and others: "\<forall>(fd', c')\<in>set (nd_users s). fd' \<noteq> fd \<longrightarrow> conn_addr c' \<noteq> conn_addr c"
    and send: "connnectionSend (dump_list js l) c = Inr c1"
  shows "node_distribution js (conn_addr c) (put_user fd c s) = Inr (put_user fd c1 s)"
proof -
  let ?us = "put_assoc fd c (nd_users s)"
  have "fd \<in> fst ` set (nd_users s)" using us(2) by (metis map_of_eq_None_iff)
  then have "distinct (map fst ?us)" using us(1) by (simp add: keys_put_assoc)
  moreover have "\<forall>(fd', c')\<in>set ?us. fd' \<noteq> fd \<longrightarrow> conn_addr c' \<noteq> conn_addr c"
    using others set_put_assoc [of fd c "nd_users s"] by fastforce
  ultimately have "send_matching (conn_addr c) (dump_list js l) ?us = Inr (put_assoc fd c1 ?us)"
    using send by (intro send_matching_one) (simp_all add: map_of_put_assoc)
  then show ?thesis using l by (simp add: node_distribution_def put_user_def put_put_assoc)
qed

lemma client_request_read:
  assumes et: "nd_isET s" and us: "distinct (map fst (nd_users s))" "map_of (nd_users s) fd = Some c"
    and others: "\<forall>(fd', c')\<in>set (nd_users s). fd' \<noteq> fd \<longrightarrow> conn_addr c' \<noteq> conn_addr c"
    and c: "at_rest c" "conn_fd c = fd" "0 < fd" and r: "r \<noteq> []" "length r < writeableBytes (readBuf c)" "json_req js r = Some (1, 0)"
    and l: "all_ip_ports (length (nd_ipPortLs s)) (nd_ipLs s) (nd_portLs s) = Inr l"
    and room: "room_for (writeBuf c) (length (dump_list js l))"
  shows "\<exists>c'. onRead js [Readv_Data r, Readv_Error EAGAIN_NO] fd s = Inr (ep fd Ep_Mod_Out (put_user fd c' s))
     \<and> out_ok c' \<and> contents (writeBuf c') = dump_list js l \<and> buffer_inv (readBuf c') \<and> contents (readBuf c') = [] \<and> conn_fd c' = fd
     \<and> iov1_len c' = iov1_len c"
proof -
  have inv: "buffer_inv (readBuf c)" "contents (readBuf c) = []" "buffer_inv (writeBuf c)" "contents (writeBuf c) = []"
    using c(1) by (simp_all add: at_rest_def)
  have u: "user fd s = c" using us(2) by (simp add: user_def)
  from read_loop_small [OF inv(1) r(1,2), of EAGAIN_NO 0] obtain b where b: "read_loop True [Readv_Data r, Readv_Error EAGAIN_NO] (readBuf c) 0 = Inr (-1, EAGAIN_NO, b)"
    "buffer_inv b" "contents b = r" "writePos b < length (buffer_bytes b)" using inv(2) by auto
  from print_ok [OF b(2,4)] obtain out where out: "printContent b = Inr out" by blast
  have "readableBytes b = length r" using length_contents [OF b(2)] b(3) by simp
  then have rd: "\<not> readableBytes b \<le> 0" using r(1) by simp
  define c2 where "c2 = c\<lparr>needSend := False, readBuf := initPtr b\<rparr>"
  have c2: "buffer_inv (writeBuf c2)" "room_for (writeBuf c2) (length (dump_list js l))" "conn_addr c2 = conn_addr c"
    using inv room by (simp_all add: c2_def)
  from connnectionSend_ok [OF c2(1,2)] obtain c3 where c3: "connnectionSend (dump_list js l) c2 = Inr c3" "out_ok c3"
    "contents (writeBuf c3) = dump_list js l" "needSend c3" "readBuf c3 = initPtr b" "conn_fd c3 = fd" "iov1_len c3 = iov1_len c"
    using inv(4) c(2) by (auto simp: c2_def)
  have dist: "node_distribution js (conn_addr c) (put_user fd c2 s) = Inr (put_user fd c3 s)"
    using node_distribution_ok [of s l fd c2 js c3] l us others c3(1) c2(3) by simp
  have "node_parse js fd (put_user fd (c\<lparr>readBuf := b, needSend := False\<rparr>) s) = Inr (True, put_user fd c3 s)"
    using out AlltoStr_ok [OF b(2)] b(3) r(3) dist by (simp add: node_parse_def c2_def Let_def)
  then have "handleConnec js fd (put_user fd (c\<lparr>readBuf := b\<rparr>) s) = Inr (True, put_user fd c3 s)"
    using rd c3(4) by (simp add: handleConnec_def Let_def)
  then have "onRead js [Readv_Data r, Readv_Error EAGAIN_NO] fd s = Inr (ep fd Ep_Mod_Out (put_user fd c3 s))"
    using et u b(1) c3(6) by (simp add: onRead_def conn_readBuffer_def onProcess_def Let_def)
  then show ?thesis using c3 initPtr_inv [OF b(2)] by auto
qed

lemma answer_written:
  assumes et: "nd_isET s" and c: "user fd s = c" "out_ok c" "conn_fd c = fd" "0 < fd" "buffer_inv (readBuf c)" "contents (readBuf c) = []"
    and ns: "\<forall>n\<in>set ns. 0 < n" "sum_list ns = length (contents (writeBuf c))"
    and g: "iov1_len c = Some g" "g + length (contents (writeBuf c)) < 2 ^ 64"
  shows "\<exists>c'. onWrite js (map Write_Count ns @ [Write_Count 0]) fd s =
       Inr (contents (writeBuf c), if g mod 2 ^ 32 = 0 then ep fd Ep_Mod_In (put_user fd c' s) else put_user fd c' s)
     \<and> contents (writeBuf c') = [] \<and> contents (readBuf c') = []"
proof -
  have fin: "write_out True [Write_Count 0] 0 x y = Inr (0, 0, x, y)" for x y by simp
  from write_out_sends [OF c(2) ns(1) _ g, of "Write_Count 0" 0 0 0 "[]"] ns(2) fin obtain i n wb where
    w: "write_out True (map Write_Count ns @ [Write_Count 0]) 0 [] c =
          Inr (0, 0, contents (writeBuf c), c\<lparr>iov0_base := i, iov0_len := n, writeBuf := wb\<rparr>)"
      "out_ok (c\<lparr>iov0_base := i, iov0_len := n, writeBuf := wb\<rparr>)" "contents wb = []" by auto
  define c1 where "c1 = c\<lparr>iov0_base := i, iov0_len := n, writeBuf := wb\<rparr>"
  define c2 where "c2 = c1\<lparr>needSend := False\<rparr>"
  have "iov1_len c1 = Some g" "iov0_len c1 = 0" using g(1) w(2,3) by (simp_all add: out_ok_def c1_def)
  from writeBytes_done [OF this(1) _ this(2)] g(2) obtain left where left: "writeBytes c1 = Inr left" "left = 0 \<longleftrightarrow> g mod 2 ^ 32 = 0" by auto
  have "readableBytes (readBuf c) \<le> 0" using at_rest_empty [OF c(5,6)] by simp
  then have "handleConnec js fd (put_user fd c1 s) = Inr (False, put_user fd c2 s)"
    by (simp add: handleConnec_def Let_def c2_def c1_def)
  then have pr: "onProcess js fd (put_user fd c1 s) = Inr (ep fd Ep_Mod_In (put_user fd c2 s))"
    using c(3) by (simp add: onProcess_def c2_def c1_def)
  have "iovCnt c \<noteq> None" using c(2) by (simp add: out_ok_def)
  then have out: "onWrite js (map Write_Count ns @ [Write_Count 0]) fd s = (if left = 0
      then Inr (contents (writeBuf c), ep fd Ep_Mod_In (put_user fd c2 s)) else Inr (contents (writeBuf c), put_user fd c1 s))"
    using et c(1) w(1) left(1) pr by (simp add: onWrite_def conn_writeBuffer_def c1_def [symmetric])
  show ?thesis
  proof (cases "left = 0")
    case True
    then show ?thesis using out left(2) w(3) c(6) by (intro exI [of _ c2]) (simp add: c2_def c1_def)
  next
    case False
    then show ?thesis using out left(2) w(3) c(6) by (intro exI [of _ c1]) (simp add: c1_def)
  qed
qed

text \<open>The vector is set, the second one is not: the first thing done after \<open>writev\<close> is to read it.\<close>

lemma unset_vector_fails:
  assumes "iov1_len (user fd s) = None" "out_ok (user fd s)" "as \<noteq> []"
  shows "onWrite js as fd s = Inl Uninit_Read"
proof -
  have cnt: "iovCnt (user fd s) \<noteq> None" using assms(2) by (simp add: out_ok_def)
  from write_out_undefined [OF assms, of "nd_isET s" 0 "[]"] show ?thesis
  proof
    assume "\<exists>r e. write_out (nd_isET s) as 0 [] (user fd s) = Inr (r, e, [], user fd s)"
    then show ?thesis using cnt assms(1) by (auto simp: onWrite_def conn_writeBuffer_def writeBytes_def)
  qed (simp add: onWrite_def conn_writeBuffer_def cnt)
qed

text \<open>
  C33. A node answers a client, in the edge-triggered mode it runs in. When a request for the distribution comes in on a
  connection with empty buffers that no other connection shares the address of, the node asks epoll for output with exactly the
  list of the servers it knows in the write buffer. What follows depends on the length of the second vector, which no function
  assigns. If reading it is undefined, every write fails at that read, whatever the kernel answers. If the memory holds the
  word \<open>g\<close> there, and the lengths do not wrap around, the writes send exactly the list, in whatever pieces the kernel takes them; then the
  connection waits for input again if the lower half of \<open>g\<close> is zero, and otherwise epoll, whose events are one-shot, is never asked again.
\<close>

theorem node_answers_client:
  assumes et: "nd_isET s" and us: "distinct (map fst (nd_users s))" "map_of (nd_users s) fd = Some c"
    and others: "\<forall>(fd', c')\<in>set (nd_users s). fd' \<noteq> fd \<longrightarrow> conn_addr c' \<noteq> conn_addr c"
    and c: "at_rest c" "conn_fd c = fd" "0 < fd" and r: "r \<noteq> []" "length r < writeableBytes (readBuf c)" "json_req js r = Some (1, 0)"
    and l: "all_ip_ports (length (nd_ipPortLs s)) (nd_ipLs s) (nd_portLs s) = Inr l"
    and room: "room_for (writeBuf c) (length (dump_list js l))"
    and ns: "\<forall>n\<in>set ns. 0 < n" "sum_list ns = length (dump_list js l)" and as: "as \<noteq> []"
  shows "\<exists>s1. onRead js [Readv_Data r, Readv_Error EAGAIN_NO] fd s = Inr s1 \<and> nd_ep s1 = nd_ep s @ [(fd, Ep_Mod_Out)]
    \<and> iovCnt (user fd s1) = Some 1 \<and> contents (writeBuf (user fd s1)) = dump_list js l
    \<and> (case iov1_len c of
         None \<Rightarrow> onWrite js as fd s1 = Inl Uninit_Read
       | Some g \<Rightarrow> g + length (dump_list js l) < 2 ^ 64 \<longrightarrow>
          (\<exists>s2. onWrite js (map Write_Count ns @ [Write_Count 0]) fd s1 = Inr (dump_list js l, s2)
             \<and> nd_ep s2 = nd_ep s1 @ (if g mod 2 ^ 32 = 0 then [(fd, Ep_Mod_In)] else [])
             \<and> contents (readBuf (user fd s2)) = [] \<and> contents (writeBuf (user fd s2)) = []))"
proof -
  from client_request_read [OF et us others c r l room] obtain c' where
    c': "onRead js [Readv_Data r, Readv_Error EAGAIN_NO] fd s = Inr (ep fd Ep_Mod_Out (put_user fd c' s))"
      "out_ok c'" "contents (writeBuf c') = dump_list js l" "buffer_inv (readBuf c')" "contents (readBuf c') = []" "conn_fd c' = fd"
      "iov1_len c' = iov1_len c" by blast
  define s1 where "s1 = ep fd Ep_Mod_Out (put_user fd c' s)"
  have s1: "nd_isET s1" "user fd s1 = c'" "nd_ep s1 = nd_ep s @ [(fd, Ep_Mod_Out)]"
    using et c(3) by (simp_all add: s1_def ep_def put_user_def) (simp add: user_def map_of_put_assoc)
  have sum: "sum_list ns = length (contents (writeBuf c'))" using ns(2) c'(3) by simp
  have unset: "onWrite js as fd s1 = Inl Uninit_Read" if "iov1_len c = None"
    using that c'(2,7) s1(2) as by (intro unset_vector_fails) simp_all
  have set: "\<exists>s2. onWrite js (map Write_Count ns @ [Write_Count 0]) fd s1 = Inr (dump_list js l, s2)
       \<and> nd_ep s2 = nd_ep s1 @ (if g mod 2 ^ 32 = 0 then [(fd, Ep_Mod_In)] else [])
       \<and> contents (readBuf (user fd s2)) = [] \<and> contents (writeBuf (user fd s2)) = []"
    if g: "iov1_len c = Some g" "g + length (dump_list js l) < 2 ^ 64" for g
  proof -
    have g': "iov1_len c' = Some g" "g + length (contents (writeBuf c')) < 2 ^ 64" using g c'(3,7) by simp_all
    from answer_written [OF s1(1,2) c'(2,6) c(3) c'(4,5) ns(1) sum g'] obtain c2 where
      c2: "onWrite js (map Write_Count ns @ [Write_Count 0]) fd s1 =
          Inr (contents (writeBuf c'), if g mod 2 ^ 32 = 0 then ep fd Ep_Mod_In (put_user fd c2 s1) else put_user fd c2 s1)"
        "contents (writeBuf c2) = []" "contents (readBuf c2) = []" by blast
    define s2 where "s2 = (if g mod 2 ^ 32 = 0 then ep fd Ep_Mod_In (put_user fd c2 s1) else put_user fd c2 s1)"
    have "nd_ep s2 = nd_ep s1 @ (if g mod 2 ^ 32 = 0 then [(fd, Ep_Mod_In)] else [])" using c(3) by (simp add: s2_def ep_def put_user_def)
    moreover have "user fd s2 = c2" by (simp add: s2_def)
    ultimately show ?thesis using c2 c'(3) unfolding s2_def [symmetric] by (intro exI [of _ s2]) simp
  qed
  have "case iov1_len c of None \<Rightarrow> onWrite js as fd s1 = Inl Uninit_Read
      | Some g \<Rightarrow> g + length (dump_list js l) < 2 ^ 64 \<longrightarrow>
          (\<exists>s2. onWrite js (map Write_Count ns @ [Write_Count 0]) fd s1 = Inr (dump_list js l, s2)
             \<and> nd_ep s2 = nd_ep s1 @ (if g mod 2 ^ 32 = 0 then [(fd, Ep_Mod_In)] else [])
             \<and> contents (readBuf (user fd s2)) = [] \<and> contents (writeBuf (user fd s2)) = [])"
    by (cases "iov1_len c") (use unset set in \<open>simp_all only: option.case\<close>, blast)
  moreover have "iovCnt c' = Some 1" using c'(2) by (simp add: out_ok_def)
  ultimately show ?thesis using c'(1,3) s1(2,3) unfolding s1_def [symmetric] by (intro exI [of _ s1]) simp
qed

text \<open>A node with one client and one known server; where the second vector lies the memory was zero, or the read of it is undefined.\<close>

definition small_conn :: "nat option \<Rightarrow> dcs_conn" where
  "small_conn g = (Connection_new 1024)\<lparr>conn_fd := 7, conn_isClose := False, iov1_len := g\<rparr>"

definition small_node :: "nat option \<Rightarrow> dcs_node" where
  "small_node g = \<lparr>nd_ipPortLs = [''10.0.0.15''], nd_ipLs = [''10.0.0.1''], nd_portLs = [5], nd_servers = [''10.0.0.15'' \<mapsto> 0],
     nd_users = [(7, small_conn g)], nd_userCount = 1, nd_ep = [], nd_timer = [], nd_tasks = [], nd_timeOutMs = 2000,
     nd_isET = True, nd_listenET = True\<rparr>"

definition small_json :: json_lib where
  "small_json = \<lparr>json_req = (\<lambda>str. Some (1, 0)), dump_servers = (\<lambda>_. []), dump_list = concat\<rparr>"

lemma small_node_ready:
  shows "nd_isET (small_node g)" "distinct (map fst (nd_users (small_node g)))" "map_of (nd_users (small_node g)) 7 = Some (small_conn g)"
    "\<forall>(fd', c')\<in>set (nd_users (small_node g)). fd' \<noteq> 7 \<longrightarrow> conn_addr c' \<noteq> conn_addr (small_conn g)"
    "at_rest (small_conn g)" "conn_fd (small_conn g) = 7" "length ''q'' < writeableBytes (readBuf (small_conn g))"
    "all_ip_ports (length (nd_ipPortLs (small_node g))) (nd_ipLs (small_node g)) (nd_portLs (small_node g)) = Inr [''10.0.0.1:5'']"
    "room_for (writeBuf (small_conn g)) (length (dump_list small_json [''10.0.0.1:5'']))"
proof -
  have inv: "buffer_inv (Buffer_init 1024)" "contents (Buffer_init 1024) = []" using Buffer_init_inv [of 1024] by (simp_all add: vec_max_def)
  have room: "room_for (Buffer_init 1024) (length ''10.0.0.1:5'')" "1 < writeableBytes (Buffer_init 1024)"
    using inv(1) by (simp_all add: room_for_def Buffer_init_def extra_size_def vec_max_def)
  show "at_rest (small_conn g)" using inv by (simp add: at_rest_def small_conn_def Connection_new_def)
  show "all_ip_ports (length (nd_ipPortLs (small_node g))) (nd_ipLs (small_node g)) (nd_portLs (small_node g)) = Inr [''10.0.0.1:5'']"
    unfolding small_node_def dcs_node.simps by code_simp
  show "length ''q'' < writeableBytes (readBuf (small_conn g))" "room_for (writeBuf (small_conn g)) (length (dump_list small_json [''10.0.0.1:5'']))"
    using room by (simp_all add: small_conn_def Connection_new_def small_json_def)
qed (simp_all add: small_node_def small_conn_def small_json_def)

theorem node_answers_client_witness:
  "(\<exists>s1 s2. onRead small_json [Readv_Data ''q'', Readv_Error 11] 7 (small_node (Some 0)) = Inr s1
     \<and> onWrite small_json [Write_Count 4, Write_Count 6, Write_Count 0] 7 s1 = Inr (''10.0.0.1:5'', s2))
   \<and> (\<exists>s1. onRead small_json [Readv_Data ''q'', Readv_Error 11] 7 (small_node None) = Inr s1
     \<and> onWrite small_json [Write_Count 4] 7 s1 = Inl Uninit_Read)"
proof
  have d: "dump_list small_json [''10.0.0.1:5''] = ''10.0.0.1:5''" by (simp add: small_json_def)
  have q: "(0::int) < 7" "''q'' \<noteq> []" "json_req small_json ''q'' = Some (1, 0)" "\<forall>n\<in>set [4, 6 :: nat]. 0 < n"
    "sum_list [4, 6 :: nat] = length (dump_list small_json [''10.0.0.1:5''])" "[Write_Count 4] \<noteq> []" by (simp_all add: small_json_def)
  have g: "iov1_len (small_conn g) = g" for g by (simp add: small_conn_def)
  from node_answers_client [OF small_node_ready(1-6) [of "Some 0"] q(1,2) small_node_ready(7) [of "Some 0"] q(3) small_node_ready(8,9) [of "Some 0"] q(4-6)]
  show "\<exists>s1 s2. onRead small_json [Readv_Data ''q'', Readv_Error 11] 7 (small_node (Some 0)) = Inr s1
     \<and> onWrite small_json [Write_Count 4, Write_Count 6, Write_Count 0] 7 s1 = Inr (''10.0.0.1:5'', s2)"
    unfolding d g by auto
  from node_answers_client [OF small_node_ready(1-6) [of None] q(1,2) small_node_ready(7) [of None] q(3) small_node_ready(8,9) [of None] q(4-6)]
  show "\<exists>s1. onRead small_json [Readv_Data ''q'', Readv_Error 11] 7 (small_node None) = Inr s1
     \<and> onWrite small_json [Write_Count 4] 7 s1 = Inl Uninit_Read"
    unfolding d g by auto
qed

end
