(* ===== verification/Dcs_Client.thy ===== *)
theory Dcs_Client
  imports Con_Hash Socket_Tool
begin

text \<open>
  The client of the distributed cache (Mini_DCS/client: client.h, client.cpp, over its copies of socketTool.cpp and
  nodeConHash.cpp, which are the files modelled by \<open>Socket_Tool\<close> and \<open>Con_Hash\<close>): connecting with retries, pulling the list of
  cache servers from the master, getting and setting keys at the server the ring names. The answers of the
  system calls are lists that the calls consume; a list that ends is a call that has not returned.
\<close>

section \<open>The network\<close>

text \<open>
  \<open>n_log\<close> records the addresses dialled, the bytes sent on a descriptor and the lines written to the key file.
  An entry of \<open>n_read\<close> is what the array on the stack holds before the call and the answers of \<open>read\<close>.
\<close>

datatype net_event = Dial ipport_pair | Sent int string | Key_Line string

record net =
  n_socket :: "int list"
  n_connect :: "int list"
  n_close :: "int list"
  n_write :: "(int \<times> errno) list list"
  n_read :: "(char list \<times> read_answer list) list"
  n_time :: "int list"
  n_log :: "net_event list"

fun next_answer :: "'a list \<Rightarrow> ('a \<times> 'a list) res" where
  "next_answer [] = Inl No_Return"
| "next_answer (x # xs) = Inr (x, xs)"

definition net_socket :: "net \<Rightarrow> (int \<times> net) res" where
  "net_socket w = bind_res (next_answer (n_socket w)) (\<lambda>(s, r). bind_res (Socket s) (\<lambda>fd. Inr (fd, w\<lparr>n_socket := r\<rparr>)))"

definition net_connect :: "ipport_pair \<Rightarrow> net \<Rightarrow> (int \<times> net) res" where
  "net_connect ip w =
     bind_res (next_answer (n_connect w)) (\<lambda>(n, r). Inr (n, w\<lparr>n_connect := r, n_log := n_log w @ [Dial ip]\<rparr>))"

definition net_close :: "net \<Rightarrow> net res" where
  "net_close w = bind_res (next_answer (n_close w)) (\<lambda>(n, r). bind_res (Close n) (\<lambda>_. Inr (w\<lparr>n_close := r\<rparr>)))"

definition net_time :: "net \<Rightarrow> (int \<times> net) res" where
  "net_time w = bind_res (next_answer (n_time w)) (\<lambda>(t, r). Inr (t, w\<lparr>n_time := r\<rparr>))"

section \<open>Connecting, writing, reading\<close>

definition connect_once :: "ipport_pair \<Rightarrow> net \<Rightarrow> (int \<times> int \<times> net) res" where
  "connect_once ip w = bind_res (net_socket w) (\<lambda>(fd, w1). bind_res (net_connect ip w1) (\<lambda>(n, w2). Inr (n, fd, w2)))"

text \<open>
  The retries: \<open>k\<close> are left. The loop is left early only when \<open>connect\<close> returns a positive number, which it never does,
  so a retry that succeeds is closed again by the next one.
\<close>

fun connect_retry :: "nat \<Rightarrow> int \<Rightarrow> int \<Rightarrow> ipport_pair \<Rightarrow> net \<Rightarrow> (int \<times> int \<times> net) res" where
  "connect_retry 0 n fd ip w = Inr (n, fd, w)"
| "connect_retry (Suc k) n fd ip w =
     bind_res (net_close w) (\<lambda>w1.
     bind_res (connect_once ip w1) (\<lambda>(n', fd', w2).
     if n' > 0 then Inr (n', fd', w2) else connect_retry k n' fd' ip w2))"

definition ConnectServ :: "ipport_pair \<Rightarrow> net \<Rightarrow> (int \<times> int \<times> net) res" where
  "ConnectServ ip w =
     bind_res (connect_once ip w) (\<lambda>(n, fd, w1). if n < 0 then connect_retry 4 n fd ip w1 else Inr (n, fd, w1))"

text \<open>\<open>buf\<close> is the text with a zero appended, and one byte more is written, the terminator of \<open>data()\<close>.\<close>

definition WriteData :: "int \<Rightarrow> string \<Rightarrow> net \<Rightarrow> (int \<times> net) res" where
  "WriteData fd text w =
     bind_res (next_answer (n_write w)) (\<lambda>(as, r).
     bind_res (Write as) (\<lambda>nwrite.
     Inr (nwrite, w\<lparr>n_write := r,
       n_log := n_log w @ (if nwrite < 0 then [] else [Sent fd (take (nat nwrite) (text @ [NUL, NUL]))])\<rparr>)))"

text \<open>
  What the client looks at in an answer: a text that is not JSON, a value whose members cannot be taken
  (the flag says whether it is empty), or an object. \<open>ro_data\<close> is \<open>None\<close> when the member \<open>data\<close> is there and is not an object.
\<close>

record reply_data =
  rd_flag :: "bool option"
  rd_key :: "string option"
  rd_value :: "string option"
  rd_iplist :: "string list option"

record reply_obj =
  ro_empty :: bool
  ro_req_type :: "int option"
  ro_type :: "int option"
  ro_data :: "reply_data option"

datatype client_reply = Not_Object bool | Reply reply_obj

text \<open>The JSON library: the texts of the three requests, and what a text is parsed to.\<close>

record client_json =
  dump_distribution :: string
  dump_get :: "string \<Rightarrow> string"
  dump_set :: "string \<Rightarrow> string \<Rightarrow> string"
  reply_of :: "string \<Rightarrow> client_reply option"

definition empty_reply :: client_reply where
  "empty_reply = Reply \<lparr>ro_empty = True, ro_req_type = None, ro_type = None,
     ro_data = Some \<lparr>rd_flag = None, rd_key = None, rd_value = None, rd_iplist = None\<rparr>\<rparr>"

text \<open>
  \<open>accept\<close> and \<open>parse\<close> are given the array itself (json.h, line 5872: the overload for arrays, with the size) and take a zero for the end of the input
  (line 8206): the text is the array up to its first zero, or all of it. Nothing separates what was read from what the array held before.
\<close>

definition array_text :: "char list \<Rightarrow> string" where
  "array_text b = takeWhile (\<lambda>ch. ch \<noteq> NUL) b"

definition ReadData :: "client_json \<Rightarrow> net \<Rightarrow> (client_reply \<times> net) res" where
  "ReadData lib w =
     bind_res (next_answer (n_read w)) (\<lambda>((bufin, as), r).
     bind_res (Read as bufin) (\<lambda>(n, b).
     if n \<le> 0 then Inr (empty_reply, w\<lparr>n_read := r\<rparr>)
     else
       (case reply_of lib (array_text b) of
          None \<Rightarrow> perr_exit
        | Some js \<Rightarrow> Inr (js, w\<lparr>n_read := r\<rparr>))))"

lemma connect_once_keeps:
  "connect_once ip w = Inr (n, fd, w') \<Longrightarrow> n_write w' = n_write w \<and> n_time w' = n_time w"
  by (auto simp: connect_once_def net_socket_def net_connect_def res_simps)

lemma net_close_keeps: "net_close w = Inr w' \<Longrightarrow> n_write w' = n_write w \<and> n_time w' = n_time w"
  by (auto simp: net_close_def res_simps)

lemma connect_retry_keeps:
  "connect_retry k n fd ip w = Inr (n', fd', w') \<Longrightarrow> n_write w' = n_write w \<and> n_time w' = n_time w"
proof (induction k arbitrary: n fd w)
  case (Suc k)
  then show ?case
    by (auto simp: res_simps split: if_splits dest!: net_close_keeps connect_once_keeps)
qed simp

lemma ConnectServ_keeps: "ConnectServ ip w = Inr (n, fd, w') \<Longrightarrow> n_write w' = n_write w \<and> n_time w' = n_time w"
  by (auto simp: ConnectServ_def res_simps split: if_splits dest!: connect_once_keeps connect_retry_keeps)

lemma next_answer_shorter: "next_answer xs = Inr (x, r) \<Longrightarrow> xs = x # r"
  by (cases xs) auto

lemma WriteData_keeps:
  "WriteData fd text w = Inr (n, w') \<Longrightarrow> length (n_write w') < length (n_write w) \<and> n_time w' = n_time w"
  by (auto simp: WriteData_def res_simps dest!: next_answer_shorter)

lemma ReadData_keeps: "ReadData lib w = Inr (js, w') \<Longrightarrow> n_time w' = n_time w"
  by (auto simp: ReadData_def perr_exit_def res_simps split: if_splits option.splits)

section \<open>The client\<close>

record client =
  cl_hash :: node_con_hash
  alliplist :: "string list"
  cl_start :: int
  kvwritecfd :: int
  kvreqcfd :: int
  mastercfd :: int
  cl_net :: net

definition MASTER_IP :: string where "MASTER_IP = ''127.0.0.1:7000''"

definition MASTER_IP_BACKUP :: string where "MASTER_IP_BACKUP = ''127.0.0.1:7001''"

definition TIME_OUT :: int where "TIME_OUT = 5"

text \<open>Connecting to the master, or to its backup, and sending the request, until a write succeeds.\<close>

definition dial_master :: "ipport_pair \<Rightarrow> net \<Rightarrow> (ipport_pair \<times> int \<times> net) res" where
  "dial_master masterip w =
     bind_res (ConnectServ masterip w) (\<lambda>(n, fd, w1).
     if n \<noteq> 0 then
       bind_res (net_close w1) (\<lambda>w2.
       bind_res (get_ipport MASTER_IP_BACKUP) (\<lambda>backup.
       bind_res (ConnectServ backup w2) (\<lambda>(n', fd', w3).
       if n' \<noteq> 0 then perr_exit else Inr (backup, fd', w3))))
     else Inr (masterip, fd, w1))"

lemma dial_master_keeps: "dial_master ip w = Inr (ip', fd, w') \<Longrightarrow> n_write w' = n_write w \<and> n_time w' = n_time w"
  by (auto simp: dial_master_def perr_exit_def res_simps split: if_splits dest!: ConnectServ_keeps net_close_keeps)

function ask_master :: "client_json \<Rightarrow> ipport_pair \<Rightarrow> net \<Rightarrow> (int \<times> net) res" where
  "ask_master lib masterip w =
     bind_res (dial_master masterip w) (\<lambda>(ip, fd, w1).
     bind_res (WriteData fd (dump_distribution lib) w1) (\<lambda>(nwrite, w2).
     if nwrite < 0 then ask_master lib ip w2 else Inr (fd, w2)))"
  by pat_completeness auto
termination
  by (relation "measure (\<lambda>(lib, ip, w). length (n_write w))") (auto dest!: dial_master_keeps WriteData_keeps)

declare ask_master.simps [simp del]

lemma ask_master_keeps: "ask_master lib ip w = Inr (fd, w') \<Longrightarrow> n_time w' = n_time w"
proof (induction lib ip w rule: ask_master.induct)
  case (1 lib ip w)
  from 1(2) obtain ip1 fd1 w1 n w2 where d: "dial_master ip w = Inr (ip1, fd1, w1)"
    and wd: "WriteData fd1 (dump_distribution lib) w1 = Inr (n, w2)"
    and r: "(if n < 0 then ask_master lib ip1 w2 else Inr (fd1, w2)) = Inr (fd, w')"
    by (subst (asm) ask_master.simps) (auto simp: res_simps)
  have "n_time w2 = n_time w" using dial_master_keeps [OF d] WriteData_keeps [OF wd] by simp
  then show ?case using r 1(1) [OF d refl refl wd refl] by (auto split: if_splits)
qed

text \<open>The list of servers in an answer.\<close>

definition iplist_of :: "client_reply \<Rightarrow> string list res" where
  "iplist_of js =
     (case js of
        Not_Object e \<Rightarrow> Inl (Uncaught_Exception ''json'')
      | Reply r \<Rightarrow>
          if ro_req_type r \<noteq> Some 1 then perr_exit
          else
            (case ro_data r of
               None \<Rightarrow> Inl (Uncaught_Exception ''json'')
             | Some d \<Rightarrow>
                 (case rd_iplist d of
                    None \<Rightarrow> Inl (Uncaught_Exception ''json'')
                  | Some l \<Rightarrow> if l = [] then perr_exit else Inr l)))"

definition DistributionRequest :: "client_json \<Rightarrow> client \<Rightarrow> client res" where
  "DistributionRequest lib c =
     bind_res (get_ipport MASTER_IP) (\<lambda>masterip.
     bind_res (ask_master lib masterip (cl_net c)) (\<lambda>(fd, w1).
     bind_res (ReadData lib w1) (\<lambda>(js, w2).
     bind_res (iplist_of js) (\<lambda>l.
     bind_res (net_time w2) (\<lambda>(t, w3).
     Inr (c\<lparr>alliplist := l, cl_hash := RefreshIpList (cl_hash c) l, cl_start := t, mastercfd := fd, cl_net := w3\<rparr>))))))"

lemma net_time_keeps: "net_time w = Inr (t, w') \<Longrightarrow> length (n_time w) = Suc (length (n_time w'))"
  by (auto simp: net_time_def res_simps dest!: next_answer_shorter)

lemma DistributionRequest_keeps:
  "DistributionRequest lib c = Inr c' \<Longrightarrow> length (n_time (cl_net c')) < length (n_time (cl_net c))"
  by (auto simp: DistributionRequest_def res_simps dest!: ask_master_keeps ReadData_keeps net_time_keeps)

definition CountTime :: "client_json \<Rightarrow> client \<Rightarrow> client res" where
  "CountTime lib c =
     bind_res (net_time (cl_net c)) (\<lambda>(end, w).
     if end < cl_start c then perr_exit
     else if end - cl_start c > TIME_OUT then DistributionRequest lib (c\<lparr>cl_net := w\<rparr>)
     else Inr (c\<lparr>cl_net := w\<rparr>))"

lemma CountTime_keeps: "CountTime lib c = Inr c' \<Longrightarrow> length (n_time (cl_net c')) < length (n_time (cl_net c))"
  by (auto simp: CountTime_def perr_exit_def res_simps split: if_splits dest!: net_time_keeps DistributionRequest_keeps)

text \<open>The two constructors; the members without an initialiser are those of the given object.\<close>

definition Client_new :: "client_json \<Rightarrow> client \<Rightarrow> client res" where
  "Client_new lib c = DistributionRequest lib c"

definition Client_of_list :: "string list \<Rightarrow> client \<Rightarrow> client res" where
  "Client_of_list iplist c =
     bind_res (net_time (cl_net c)) (\<lambda>(t, w).
     Inr (c\<lparr>alliplist := iplist, cl_hash := RefreshIpList (cl_hash c) iplist, cl_start := t, cl_net := w\<rparr>))"

definition server_of :: "string \<Rightarrow> client \<Rightarrow> ipport_pair res" where
  "server_of key c = bind_res (GetServerIndex (cl_hash c) key) get_ipport"

section \<open>Getting a value\<close>

text \<open>The inner loop: pull the list again and connect to the server it now gives, until connected.\<close>

function get_connect :: "client_json \<Rightarrow> string \<Rightarrow> int \<Rightarrow> client \<Rightarrow> client res" where
  "get_connect lib key n c =
     (if n < 0 then
        bind_res (DistributionRequest lib c) (\<lambda>c1.
        bind_res (server_of key c1) (\<lambda>oneip.
        bind_res (ConnectServ oneip (cl_net c1)) (\<lambda>(n', fd, w).
        get_connect lib key n' (c1\<lparr>kvreqcfd := fd, cl_net := w\<rparr>))))
      else Inr c)"
  by pat_completeness auto
termination
  by (relation "measure (\<lambda>(lib, key, n, c). length (n_time (cl_net c)))") (auto dest!: DistributionRequest_keeps ConnectServ_keeps)

declare get_connect.simps [simp del]

lemma get_connect_keeps: "get_connect lib key n c = Inr c' \<Longrightarrow> length (n_time (cl_net c')) \<le> length (n_time (cl_net c))"
proof (induction lib key n c rule: get_connect.induct)
  case (1 lib key n c)
  show ?case
  proof (cases "n < 0")
    case True
    with 1(2) obtain c1 ip n1 fd w where d: "DistributionRequest lib c = Inr c1" and s: "server_of key c1 = Inr ip"
      and k: "ConnectServ ip (cl_net c1) = Inr (n1, fd, w)"
      and r: "get_connect lib key n1 (c1\<lparr>kvreqcfd := fd, cl_net := w\<rparr>) = Inr c'"
      by (subst (asm) get_connect.simps) (auto simp: res_simps)
    from 1(1) [OF True d s k refl refl r] show ?thesis
      using DistributionRequest_keeps [OF d] ConnectServ_keeps [OF k] by simp
  qed (use 1(2) in \<open>simp add: get_connect.simps\<close>)
qed

text \<open>The outer loop; \<open>j\<close> counts the answers without data.\<close>

function get_loop :: "client_json \<Rightarrow> string \<Rightarrow> nat \<Rightarrow> client \<Rightarrow> (string \<times> client) res" where
  "get_loop lib key j c =
     bind_res (CountTime lib c) (\<lambda>c1.
     bind_res (server_of key c1) (\<lambda>oneip.
     bind_res (ConnectServ oneip (cl_net c1)) (\<lambda>(n, fd, w1).
     bind_res (get_connect lib key n (c1\<lparr>kvreqcfd := fd, cl_net := w1\<rparr>)) (\<lambda>c2.
     bind_res (WriteData (kvreqcfd c2) (dump_get lib key) (cl_net c2)) (\<lambda>(nwrite, w2).
     if nwrite < 0 then
       bind_res (net_close w2) (\<lambda>w3.
       bind_res (DistributionRequest lib (c2\<lparr>cl_net := w3\<rparr>)) (\<lambda>c3. get_loop lib key j c3))
     else
       bind_res (ReadData lib w2) (\<lambda>(jsin, w3).
       case jsin of
         Not_Object e \<Rightarrow> if e then perr_exit else Inl (Uncaught_Exception ''json'')
       | Reply r \<Rightarrow>
           if ro_empty r then perr_exit
           else
             (case ro_data r of
                None \<Rightarrow> Inl (Uncaught_Exception ''json'')
              | Some d \<Rightarrow>
                  if rd_flag d = Some False then
                    bind_res (net_close w3) (\<lambda>w4.
                    bind_res (DistributionRequest lib (c2\<lparr>cl_net := w4\<rparr>)) (\<lambda>c3.
                    if j + 1 > 2 then perr_exit else get_loop lib key (j + 1) c3))
                  else if ro_type r = Some 0 \<and> rd_key d = Some key then
                    bind_res (net_close w3) (\<lambda>w4.
                    case rd_value d of
                      None \<Rightarrow> Inl (Uncaught_Exception ''json'')
                    | Some v \<Rightarrow> Inr (v, c2\<lparr>cl_net := w4\<rparr>))
                  else perr_exit)))))))"
  by pat_completeness auto
termination
  by (relation "measure (\<lambda>(lib, key, j, c). length (n_time (cl_net c)))")
     (auto dest!: CountTime_keeps ConnectServ_keeps get_connect_keeps WriteData_keeps net_close_keeps DistributionRequest_keeps ReadData_keeps)

declare get_loop.simps [simp del]

definition keyValueRequest :: "client_json \<Rightarrow> string \<Rightarrow> client \<Rightarrow> (string \<times> client) res" where
  "keyValueRequest lib key c = get_loop lib key 0 c"

section \<open>Setting values\<close>

text \<open>
  The inner loop of \<open>keyValueWrite\<close>: the result of \<open>ConnectServ\<close> is stored in a new variable of the block, so the condition
  never changes.
\<close>

function put_connect :: "client_json \<Rightarrow> string \<Rightarrow> client \<Rightarrow> (ipport_pair \<times> client) res" where
  "put_connect lib key c =
     bind_res (net_close (cl_net c)) (\<lambda>w.
     bind_res (DistributionRequest lib (c\<lparr>cl_net := w\<rparr>)) (\<lambda>c1.
     bind_res (server_of key c1) (\<lambda>oneip.
     bind_res (ConnectServ oneip (cl_net c1)) (\<lambda>(n, fd, w1).
     put_connect lib key (c1\<lparr>kvwritecfd := fd, cl_net := w1\<rparr>)))))"
  by pat_completeness auto
termination
  by (relation "measure (\<lambda>(lib, key, c). length (n_time (cl_net c)))")
     (auto dest!: net_close_keeps DistributionRequest_keeps ConnectServ_keeps)

declare put_connect.simps [simp del]

definition key_line :: "string \<Rightarrow> string \<Rightarrow> int \<Rightarrow> string" where
  "key_line key value port = key @ '' '' @ value @ '' '' @ to_string port @ [LF]"

definition log_key :: "string \<Rightarrow> string \<Rightarrow> int \<Rightarrow> net \<Rightarrow> net" where
  "log_key key value port w = w\<lparr>n_log := n_log w @ [Key_Line (key_line key value port)]\<rparr>"

text \<open>
  The first pair and one round of the loop. The two random strings are given; \<open>oneipbf\<close> is the server of the
  last pair, with port 0 after a failed write.
\<close>

definition put_first :: "client_json \<Rightarrow> string \<times> string \<Rightarrow> client \<Rightarrow> (ipport_pair \<times> client) res" where
  "put_first lib kv c =
     (case kv of (key, value) \<Rightarrow>
      bind_res (CountTime lib c) (\<lambda>c1.
      bind_res (server_of key c1) (\<lambda>oneip.
      bind_res (WriteData (kvwritecfd c1) (dump_set lib key value) (cl_net c1)) (\<lambda>(nWrite, w).
      let oneipbf = if nWrite < 0 then oneip\<lparr>ip_port := 0\<rparr> else oneip in
      Inr (oneipbf, c1\<lparr>cl_net := log_key key value (ip_port oneipbf) w\<rparr>)))))"

definition put_round :: "client_json \<Rightarrow> string \<times> string \<Rightarrow> ipport_pair \<times> client \<Rightarrow> (ipport_pair \<times> client) res" where
  "put_round lib kv s =
     (case kv of (key, value) \<Rightarrow> case s of (oneipbf, c) \<Rightarrow>
      bind_res (CountTime lib c) (\<lambda>c1.
      bind_res (server_of key c1) (\<lambda>oneip.
      bind_res
        (if ip_addr oneip \<noteq> ip_addr oneipbf \<or> ip_port oneip \<noteq> ip_port oneipbf then
           bind_res (ConnectServ oneip (cl_net c1)) (\<lambda>(n, fd, w).
           if n < 0 then put_connect lib key (c1\<lparr>kvwritecfd := fd, cl_net := w\<rparr>)
           else Inr (oneip, c1\<lparr>kvwritecfd := fd, cl_net := w\<rparr>))
         else Inr (oneip, c1)) (\<lambda>(ip, c2).
      bind_res (WriteData (kvwritecfd c2) (dump_set lib key value) (cl_net c2)) (\<lambda>(nWrite, w).
      if nWrite < 0 then Inr (oneipbf\<lparr>ip_port := 0\<rparr>, c2\<lparr>cl_net := w\<rparr>)
      else Inr (ip, c2\<lparr>cl_net := log_key key value (ip_port ip) w\<rparr>))))))"

text \<open>\<open>keyValueWrite\<close> never returns; this is its state after the given pairs. \<open>opened\<close> says whether the key file could be opened.\<close>

fun put_rounds :: "client_json \<Rightarrow> (string \<times> string) list \<Rightarrow> ipport_pair \<times> client \<Rightarrow> (ipport_pair \<times> client) res" where
  "put_rounds lib [] s = Inr s"
| "put_rounds lib (kv # kvs) s = bind_res (put_round lib kv s) (\<lambda>s1. put_rounds lib kvs s1)"

definition keyValueWrite :: "client_json \<Rightarrow> bool \<Rightarrow> string \<times> string \<Rightarrow> (string \<times> string) list \<Rightarrow> client \<Rightarrow> (ipport_pair \<times> client) res" where
  "keyValueWrite lib opened kv kvs c =
     (if \<not> opened then perr_exit else bind_res (put_first lib kv c) (\<lambda>s. put_rounds lib kvs s))"

text \<open>A connection that fails once is never followed by another pair.\<close>

lemma put_connect_never: "put_connect lib key c \<noteq> Inr s"
proof (induction lib key c rule: put_connect.induct)
  case (1 lib key c)
  show ?case
  proof
    assume "put_connect lib key c = Inr s"
    then obtain w c1 ip n fd w1 where k: "net_close (cl_net c) = Inr w" "DistributionRequest lib (c\<lparr>cl_net := w\<rparr>) = Inr c1"
      "server_of key c1 = Inr ip" "ConnectServ ip (cl_net c1) = Inr (n, fd, w1)"
      and r: "put_connect lib key (c1\<lparr>kvwritecfd := fd, cl_net := w1\<rparr>) = Inr s"
      by (subst (asm) put_connect.simps) (auto simp: res_simps)
    from 1 [OF k refl refl] r show False by blast
  qed
qed

section \<open>The program get\<close>

text \<open>
  One round of \<open>main\<close> of get.cpp: a line of the key file, the key before its first blank and at most twenty characters after
  it, and the comparison with the value got.
\<close>

definition split_key_line :: "string \<Rightarrow> string \<times> string" where
  "split_key_line rkeyvalue =
     (let cut1 = find_first_of rkeyvalue (CHR '' '') in (cut_before rkeyvalue cut1, take 20 (cut_after rkeyvalue cut1)))"

definition get_round :: "client_json \<Rightarrow> string option \<Rightarrow> int \<Rightarrow> client \<Rightarrow> (bool \<times> client) res" where
  "get_round lib content line c =
     bind_res (ReadText content line) (\<lambda>rkeyvalue.
     case split_key_line rkeyvalue of (rkey, rvalue) \<Rightarrow>
     bind_res (keyValueRequest lib rkey c) (\<lambda>(value, c1). Inr (value = rvalue, c1)))"

text \<open>The lines that set writes for its keys and values of twenty characters are taken apart by get.\<close>

lemma split_key_line_of:
  assumes "CHR '' '' \<notin> set key" and "length value = 20"
  shows "split_key_line (butlast (key_line key value port)) = (key, value)"
proof -
  have f: "find_first_of (key @ CHR '' '' # t) (CHR '' '') = Some (length key)" for t
    using assms(1) by (induction key) auto
  show ?thesis using assms(2) by (simp add: split_key_line_def key_line_def butlast_append f cut_before_def cut_after_def)
qed

section \<open>Properties\<close>

lemma ConnectServ_first:
  assumes "n_socket w = fd # ss" and "0 \<le> fd" and "n_connect w = n # cs" and "0 \<le> n"
  shows "ConnectServ ip w = Inr (n, fd, w\<lparr>n_socket := ss, n_connect := cs, n_log := n_log w @ [Dial ip]\<rparr>)"
  using assms by (simp add: ConnectServ_def connect_once_def net_socket_def net_connect_def Socket_def)

text \<open>With \<open>connect\<close> answering 0 or less, a first failure is followed by exactly four more attempts, and the last one counts.\<close>

lemma connect_retry_last:
  assumes "\<forall>n\<in>set ns. n \<le> 0" and "\<forall>f\<in>set fds. 0 \<le> f" and "\<forall>z\<in>set zs. 0 \<le> z" and "length ns = k" and "length fds = k" and "length zs = k"
    and "n_connect w = ns @ cs" and "n_socket w = fds @ ss" and "n_close w = zs @ ds" and "0 < k"
  shows "\<exists>w'. connect_retry k n fd ip w = Inr (last ns, last fds, w') \<and> n_log w' = n_log w @ replicate k (Dial ip)"
  using assms
proof (induction k arbitrary: ns fds zs n fd w)
  case (Suc k)
  obtain m ns' f fds' z zs' where eq: "ns = m # ns'" "fds = f # fds'" "zs = z # zs'"
    using Suc.prems by (metis length_Suc_conv)
  let ?w = "w\<lparr>n_close := zs' @ ds, n_socket := fds' @ ss, n_connect := ns' @ cs, n_log := n_log w @ [Dial ip]\<rparr>"
  have step: "connect_retry (Suc k) n fd ip w = connect_retry k m f ip ?w"
    using Suc.prems eq by (simp add: net_close_def Close_def connect_once_def net_socket_def net_connect_def Socket_def)
  show ?case
  proof (cases "k = 0")
    case True
    then show ?thesis using step Suc.prems eq by simp
  next
    case False
    have "\<exists>w'. connect_retry k m f ip ?w = Inr (last ns', last fds', w') \<and> n_log w' = n_log ?w @ replicate k (Dial ip)"
      by (rule Suc.IH [of ns' fds' zs']) (use Suc.prems eq False in simp_all)
    then show ?thesis using step eq False Suc.prems by (auto simp: replicate_append_same [symmetric])
  qed
qed simp

lemma master_address: "get_ipport MASTER_IP = Inr \<lparr>ip_port = 7000, ip_addr = ''127.0.0.1''\<rparr>"
  by code_simp

text \<open>
  An answer that arrives in one read: the bytes \<open>bs\<close>, whatever they end with. What is parsed, \<open>parsed bs a\<close>, goes on with the old contents of the array
  when the bytes have no zero.
\<close>

definition answered :: "char list \<Rightarrow> char list \<times> read_answer list \<Rightarrow> bool" where
  "answered bs a \<longleftrightarrow> bs \<noteq> [] \<and> length bs \<le> length (fst a) \<and> (\<exists>e. snd a = [(Some bs, e)])"

definition parsed :: "char list \<Rightarrow> char list \<times> read_answer list \<Rightarrow> string" where
  "parsed bs a = array_text (bs @ drop (length bs) (fst a))"

lemma parsed_terminated: "NUL \<notin> set t \<Longrightarrow> parsed (t @ NUL # r) a = t"
  by (simp add: parsed_def array_text_def takeWhile_append)

lemma parsed_unterminated: "NUL \<notin> set bs \<Longrightarrow> parsed bs a = bs @ array_text (drop (length bs) (fst a))"
  by (simp add: parsed_def array_text_def takeWhile_append)

lemma ReadData_answered:
  assumes "n_read w = a # rs" and "answered bs a"
  shows "ReadData lib w = (case reply_of lib (parsed bs a) of None \<Rightarrow> perr_exit | Some js \<Rightarrow> Inr (js, w\<lparr>n_read := rs\<rparr>))"
proof -
  obtain buf e where a: "a = (buf, [(Some bs, e)])" using assms(2) by (cases a) (auto simp: answered_def)
  then have "vcopy buf 0 bs = Inr (bs @ drop (length bs) buf)" using assms(2) by (simp add: answered_def vcopy_def)
  then show ?thesis using assms a by (simp add: ReadData_def Read_def parsed_def answered_def)
qed

lemma WriteData_once:
  "n_write w = [(k, e)] # ws \<Longrightarrow> 0 \<le> k \<Longrightarrow>
   WriteData fd text w = Inr (k, w\<lparr>n_write := ws, n_log := n_log w @ [Sent fd (take (nat k) (text @ [NUL, NUL]))]\<rparr>)"
  by (simp add: WriteData_def)

text \<open>A list pulled from the master at the first attempt.\<close>

lemma DistributionRequest_first:
  assumes "n_socket (cl_net c) = fd # ss" and "0 \<le> fd" and "n_connect (cl_net c) = 0 # cs"
    and "n_write (cl_net c) = [(k, e)] # ws" and "0 \<le> k" and "n_read (cl_net c) = a # rs" and "answered bs a"
    and "reply_of lib (parsed bs a) = Some js" and "iplist_of js = Inr l" and "n_time (cl_net c) = u # ts"
  shows "DistributionRequest lib c = Inr (c\<lparr>alliplist := l, cl_hash := RefreshIpList (cl_hash c) l, cl_start := u, mastercfd := fd,
     cl_net := (cl_net c)\<lparr>n_socket := ss, n_connect := cs, n_write := ws, n_read := rs, n_time := ts,
       n_log := n_log (cl_net c) @ [Dial \<lparr>ip_port = 7000, ip_addr = ''127.0.0.1''\<rparr>,
         Sent fd (take (nat k) (dump_distribution lib @ [NUL, NUL]))]\<rparr>\<rparr>)"
proof -
  let ?m = "\<lparr>ip_port = 7000, ip_addr = ''127.0.0.1''\<rparr>"
  let ?w1 = "(cl_net c)\<lparr>n_socket := ss, n_connect := cs, n_log := n_log (cl_net c) @ [Dial ?m]\<rparr>"
  let ?w2 = "?w1\<lparr>n_write := ws, n_log := n_log ?w1 @ [Sent fd (take (nat k) (dump_distribution lib @ [NUL, NUL]))]\<rparr>"
  have "dial_master ?m (cl_net c) = Inr (?m, fd, ?w1)"
    using ConnectServ_first [OF assms(1-3), of ?m] by (simp add: dial_master_def)
  moreover have "WriteData fd (dump_distribution lib) ?w1 = Inr (k, ?w2)" using assms by (intro WriteData_once) simp_all
  ultimately have "ask_master lib ?m (cl_net c) = Inr (fd, ?w2)" using assms(5) by (subst ask_master.simps) simp
  moreover have "ReadData lib ?w2 = Inr (js, ?w2\<lparr>n_read := rs\<rparr>)" using assms ReadData_answered [of ?w2 a rs bs lib] by simp
  ultimately show ?thesis using assms by (simp add: DistributionRequest_def master_address net_time_def)
qed

text \<open>An answer of the master that is not JSON ends the program.\<close>

lemma DistributionRequest_rejects:
  assumes "n_socket (cl_net c) = fd # ss" and "0 \<le> fd" and "n_connect (cl_net c) = 0 # cs"
    and "n_write (cl_net c) = [(k, e)] # ws" and "0 \<le> k" and "n_read (cl_net c) = a # rs" and "answered bs a"
    and "reply_of lib (parsed bs a) = None"
  shows "DistributionRequest lib c = perr_exit"
proof -
  let ?m = "\<lparr>ip_port = 7000, ip_addr = ''127.0.0.1''\<rparr>"
  let ?w1 = "(cl_net c)\<lparr>n_socket := ss, n_connect := cs, n_log := n_log (cl_net c) @ [Dial ?m]\<rparr>"
  let ?w2 = "?w1\<lparr>n_write := ws, n_log := n_log ?w1 @ [Sent fd (take (nat k) (dump_distribution lib @ [NUL, NUL]))]\<rparr>"
  have "dial_master ?m (cl_net c) = Inr (?m, fd, ?w1)"
    using ConnectServ_first [OF assms(1-3), of ?m] by (simp add: dial_master_def)
  moreover have "WriteData fd (dump_distribution lib) ?w1 = Inr (k, ?w2)" using assms by (intro WriteData_once) simp_all
  ultimately have "ask_master lib ?m (cl_net c) = Inr (fd, ?w2)" using assms(5) by (subst ask_master.simps) simp
  moreover have "ReadData lib ?w2 = perr_exit" using assms ReadData_answered [of ?w2 a rs bs lib] by simp
  ultimately show ?thesis by (simp add: DistributionRequest_def master_address perr_exit_def)
qed

text \<open>A value got at the first attempt, from a list that is not too old.\<close>

definition carries :: "client_reply \<Rightarrow> string \<Rightarrow> string \<Rightarrow> bool" where
  "carries js key v \<longleftrightarrow> (\<exists>r d. js = Reply r \<and> \<not> ro_empty r \<and> ro_type r = Some 0 \<and> ro_data r = Some d
     \<and> rd_flag d \<noteq> Some False \<and> rd_key d = Some key \<and> rd_value d = Some v)"

lemma keyValueRequest_first:
  assumes "server_of key c = Inr ip" and "n_time (cl_net c) = u # ts" and "cl_start c \<le> u" and "u - cl_start c \<le> TIME_OUT"
    and "n_socket (cl_net c) = fd # ss" and "0 \<le> fd" and "n_connect (cl_net c) = 0 # cs"
    and "n_write (cl_net c) = [(k, e)] # ws" and "0 \<le> k" and "n_read (cl_net c) = a # rs" and "answered bs a"
    and "reply_of lib (parsed bs a) = Some js" and "carries js key v" and "n_close (cl_net c) = z # zs" and "0 \<le> z"
  shows "\<exists>c'. keyValueRequest lib key c = Inr (v, c')
    \<and> n_log (cl_net c') = n_log (cl_net c) @ [Dial ip, Sent fd (take (nat k) (dump_get lib key @ [NUL, NUL]))]"
proof -
  let ?c1 = "c\<lparr>cl_net := (cl_net c)\<lparr>n_time := ts\<rparr>\<rparr>"
  let ?w1 = "(cl_net ?c1)\<lparr>n_socket := ss, n_connect := cs, n_log := n_log (cl_net c) @ [Dial ip]\<rparr>"
  let ?w2 = "?w1\<lparr>n_write := ws, n_log := n_log ?w1 @ [Sent fd (take (nat k) (dump_get lib key @ [NUL, NUL]))]\<rparr>"
  obtain r d where js: "js = Reply r" "\<not> ro_empty r" "ro_type r = Some 0" "ro_data r = Some d" "rd_flag d \<noteq> Some False"
    "rd_key d = Some key" "rd_value d = Some v" using assms(13) by (auto simp: carries_def)
  have "CountTime lib c = Inr ?c1" using assms by (simp add: CountTime_def net_time_def)
  moreover have "server_of key ?c1 = Inr ip" using assms(1) by (simp add: server_of_def)
  moreover have "ConnectServ ip (cl_net ?c1) = Inr (0, fd, ?w1)" using ConnectServ_first [of "cl_net ?c1" fd ss 0 cs ip] assms by simp
  moreover have "get_connect lib key 0 (?c1\<lparr>kvreqcfd := fd, cl_net := ?w1\<rparr>) = Inr (?c1\<lparr>kvreqcfd := fd, cl_net := ?w1\<rparr>)"
    by (simp add: get_connect.simps)
  moreover have "WriteData fd (dump_get lib key) ?w1 = Inr (k, ?w2)" using assms by (intro WriteData_once) simp_all
  moreover have "ReadData lib ?w2 = Inr (js, ?w2\<lparr>n_read := rs\<rparr>)" using assms ReadData_answered [of ?w2 a rs bs lib] by simp
  moreover have "net_close (?w2\<lparr>n_read := rs\<rparr>) = Inr (?w2\<lparr>n_read := rs, n_close := zs\<rparr>)"
    using assms by (simp add: net_close_def Close_def)
  ultimately have "keyValueRequest lib key c = Inr (v, ?c1\<lparr>kvreqcfd := fd, cl_net := ?w2\<lparr>n_read := rs, n_close := zs\<rparr>\<rparr>)"
    unfolding keyValueRequest_def using js assms(9) by (subst get_loop.simps) simp
  then show ?thesis by simp
qed

definition addr_text :: "string \<times> int \<Rightarrow> string" where
  "addr_text a = fst a @ CHR '':'' # to_string (snd a)"

text \<open>A client that got the list: the first request for a key.\<close>

lemma client_dials_owner:
  assumes "servers \<noteq> []" and "\<forall>a\<in>set servers. 0 \<le> snd a \<and> snd a \<le> INT_MAX" and "0 < virtualCopys (cl_hash c)"
    and "n_socket (cl_net c) = fd1 # fd2 # ss" and "0 \<le> fd1" and "0 \<le> fd2" and "n_connect (cl_net c) = 0 # 0 # cs"
    and "n_write (cl_net c) = [(k1, e1)] # [(k2, e2)] # ws" and "0 \<le> k1" and "0 \<le> k2"
    and "n_read (cl_net c) = a1 # a2 # rs" and "answered bs1 a1" and "answered bs2 a2"
    and "n_time (cl_net c) = u1 # u2 # ts" and "u1 \<le> u2" and "u2 \<le> u1 + 5"
    and "n_close (cl_net c) = z # zs" and "0 \<le> z"
    and "reply_of lib (parsed bs1 a1) = Some js1" and "iplist_of js1 = Inr (map addr_text servers)"
  shows "\<exists>c1 ip port. Client_new lib c = Inr c1 \<and> (ip, port) \<in> set servers \<and> GetServerIndex (cl_hash c1) key = Inr (addr_text (ip, port))
    \<and> (\<forall>js2 v. reply_of lib (parsed bs2 a2) = Some js2 \<and> carries js2 key v \<longrightarrow>
        (\<exists>c2. keyValueRequest lib key c1 = Inr (v, c2) \<and> n_log (cl_net c2) = n_log (cl_net c) @
        [Dial \<lparr>ip_port = 7000, ip_addr = ''127.0.0.1''\<rparr>, Sent fd1 (take (nat k1) (dump_distribution lib @ [NUL, NUL])),
         Dial \<lparr>ip_port = port, ip_addr = ip\<rparr>, Sent fd2 (take (nat k2) (dump_get lib key @ [NUL, NUL]))]))"
proof -
  let ?l = "map addr_text servers"
  let ?c1 = "c\<lparr>alliplist := ?l, cl_hash := RefreshIpList (cl_hash c) ?l, cl_start := u1, mastercfd := fd1,
     cl_net := (cl_net c)\<lparr>n_socket := fd2 # ss, n_connect := 0 # cs, n_write := [(k2, e2)] # ws, n_read := a2 # rs, n_time := u2 # ts,
       n_log := n_log (cl_net c) @ [Dial \<lparr>ip_port = 7000, ip_addr = ''127.0.0.1''\<rparr>,
         Sent fd1 (take (nat k1) (dump_distribution lib @ [NUL, NUL]))]\<rparr>\<rparr>"
  have new: "Client_new lib c = Inr ?c1"
    unfolding Client_new_def by (rule DistributionRequest_first) (use assms in simp_all)
  obtain m where m: "GetServerIndex (cl_hash ?c1) key = Inr m" "m \<in> set ?l"
    using refreshed_owner [of ?l "cl_hash c" key] assms(1,3) by auto
  then obtain ip port where a: "(ip, port) \<in> set servers" "m = addr_text (ip, port)" by auto
  then have "get_ipport m = Inr \<lparr>ip_port = port, ip_addr = ip\<rparr>" using get_ipport_print [of port ip] assms(2) by (auto simp: addr_text_def)
  then have s: "server_of key ?c1 = Inr \<lparr>ip_port = port, ip_addr = ip\<rparr>" using m by (simp add: server_of_def)
  have "\<exists>c'. keyValueRequest lib key ?c1 = Inr (v, c') \<and> n_log (cl_net c') = n_log (cl_net ?c1) @
      [Dial \<lparr>ip_port = port, ip_addr = ip\<rparr>, Sent fd2 (take (nat k2) (dump_get lib key @ [NUL, NUL]))]"
    if "reply_of lib (parsed bs2 a2) = Some js2" "carries js2 key v" for js2 v
    by (rule keyValueRequest_first [OF s, of u2 ts fd2 ss cs k2 e2 ws a2 rs bs2 lib js2 v z zs]) (use assms that in \<open>simp_all add: TIME_OUT_def\<close>)
  then show ?thesis using new m(1) a by (intro exI [of _ ?c1] exI [of _ ip] exI [of _ port]) simp
qed

text \<open>
  C34. A client and its ring. A client is made by pulling the list of servers from the master, who accepts the connection and answers in
  one read. The master sends no terminator, so what the client parses is the answer followed by what the array on its stack held there before, up to
  the first zero. If that is not JSON, the program ends. If it is a non-empty list of printed addresses, the ring built from
  it names one of them for the key, and a request for the key within the time limit, whose answer, again as parsed, carries a value,
  dials exactly that server, sends it the request for the key, and returns the value, for every number of bytes the writes accept.
\<close>

theorem client_gets_value:
  assumes "servers \<noteq> []" and "\<forall>a\<in>set servers. 0 \<le> snd a \<and> snd a \<le> INT_MAX" and "0 < virtualCopys (cl_hash c)"
    and "n_socket (cl_net c) = fd1 # fd2 # ss" and "0 \<le> fd1" and "0 \<le> fd2" and "n_connect (cl_net c) = 0 # 0 # cs"
    and "n_write (cl_net c) = [(k1, e1)] # [(k2, e2)] # ws" and "0 \<le> k1" and "0 \<le> k2"
    and "n_read (cl_net c) = a1 # a2 # rs" and "answered bs1 a1" and "answered bs2 a2"
    and "n_time (cl_net c) = u1 # u2 # ts" and "u1 \<le> u2" and "u2 \<le> u1 + 5"
    and "n_close (cl_net c) = z # zs" and "0 \<le> z"
  shows "(case reply_of lib (parsed bs1 a1) of
       None \<Rightarrow> Client_new lib c = perr_exit
     | Some js1 \<Rightarrow> iplist_of js1 = Inr (map addr_text servers) \<longrightarrow>
        (\<exists>c1 ip port. Client_new lib c = Inr c1 \<and> (ip, port) \<in> set servers \<and> GetServerIndex (cl_hash c1) key = Inr (addr_text (ip, port))
          \<and> (\<forall>js2 v. reply_of lib (parsed bs2 a2) = Some js2 \<and> carries js2 key v \<longrightarrow>
             (\<exists>c2. keyValueRequest lib key c1 = Inr (v, c2) \<and> n_log (cl_net c2) = n_log (cl_net c) @
              [Dial \<lparr>ip_port = 7000, ip_addr = ''127.0.0.1''\<rparr>, Sent fd1 (take (nat k1) (dump_distribution lib @ [NUL, NUL])),
               Dial \<lparr>ip_port = port, ip_addr = ip\<rparr>, Sent fd2 (take (nat k2) (dump_get lib key @ [NUL, NUL]))]))))
    \<and> (NUL \<notin> set bs1 \<longrightarrow> parsed bs1 a1 = bs1 @ array_text (drop (length bs1) (fst a1)))"
proof
  show "NUL \<notin> set bs1 \<longrightarrow> parsed bs1 a1 = bs1 @ array_text (drop (length bs1) (fst a1))" using parsed_unterminated by blast
next
  show "case reply_of lib (parsed bs1 a1) of
       None \<Rightarrow> Client_new lib c = perr_exit
     | Some js1 \<Rightarrow> iplist_of js1 = Inr (map addr_text servers) \<longrightarrow>
        (\<exists>c1 ip port. Client_new lib c = Inr c1 \<and> (ip, port) \<in> set servers \<and> GetServerIndex (cl_hash c1) key = Inr (addr_text (ip, port))
          \<and> (\<forall>js2 v. reply_of lib (parsed bs2 a2) = Some js2 \<and> carries js2 key v \<longrightarrow>
             (\<exists>c2. keyValueRequest lib key c1 = Inr (v, c2) \<and> n_log (cl_net c2) = n_log (cl_net c) @
              [Dial \<lparr>ip_port = 7000, ip_addr = ''127.0.0.1''\<rparr>, Sent fd1 (take (nat k1) (dump_distribution lib @ [NUL, NUL])),
               Dial \<lparr>ip_port = port, ip_addr = ip\<rparr>, Sent fd2 (take (nat k2) (dump_get lib key @ [NUL, NUL]))])))"
  proof (cases "reply_of lib (parsed bs1 a1)")
    case None
    then show ?thesis using DistributionRequest_rejects [OF assms(4,5,7,8,9,11,12)] by (simp add: Client_new_def)
  next
    case (Some js1)
    then show ?thesis using client_dials_owner [OF assms Some] by (simp only: option.case) blast
  qed
qed

text \<open>A library that knows two texts, and a client whose arrays hold \<open>old\<close> after the first byte of the answers, which have no terminator.\<close>

definition tiny_json :: client_json where
  "tiny_json = \<lparr>dump_distribution = ''D'', dump_get = (\<lambda>key. ''G'' @ key), dump_set = (\<lambda>key v. ''S'' @ key @ v),
     reply_of = (\<lambda>t. if t \<noteq> ''L'' \<and> t \<noteq> ''V'' then None
       else Some (Reply \<lparr>ro_empty = False, ro_req_type = Some 1, ro_type = Some 0,
       ro_data = Some \<lparr>rd_flag = Some True, rd_key = Some ''k'', rd_value = Some ''v'', rd_iplist = Some [''10.0.0.1:5'']\<rparr>\<rparr>))\<rparr>"

definition tiny_client :: "char \<Rightarrow> client" where
  "tiny_client old = \<lparr>cl_hash = NodeConHash_init 2, alliplist = [], cl_start = 0, kvwritecfd = 0, kvreqcfd = 0, mastercfd = 0,
     cl_net = \<lparr>n_socket = [3, 4], n_connect = [0, 0], n_close = [0], n_write = [[(3, EINTR)], [(4, EINTR)]],
       n_read = [([CHR ''.'', old, NUL], [(Some ''L'', EINTR)]), ([CHR ''.'', old, NUL], [(Some ''V'', EINTR)])],
       n_time = [100, 103], n_log = []\<rparr>\<rparr>"

lemma tiny_client_ready:
  shows "[(''10.0.0.1'', 5 :: int)] \<noteq> []" "\<forall>a\<in>set [(''10.0.0.1'', 5 :: int)]. 0 \<le> snd a \<and> snd a \<le> INT_MAX"
    "0 < virtualCopys (cl_hash (tiny_client old))"
    "n_socket (cl_net (tiny_client old)) = 3 # 4 # []" "0 \<le> (3::int)" "0 \<le> (4::int)" "n_connect (cl_net (tiny_client old)) = 0 # 0 # []"
    "n_write (cl_net (tiny_client old)) = [(3, EINTR)] # [(4, EINTR)] # []" "0 \<le> (3::int)" "0 \<le> (4::int)"
    "n_read (cl_net (tiny_client old)) = ([CHR ''.'', old, NUL], [(Some ''L'', EINTR)]) # ([CHR ''.'', old, NUL], [(Some ''V'', EINTR)]) # []"
    "answered ''L'' ([CHR ''.'', old, NUL], [(Some ''L'', EINTR)])" "answered ''V'' ([CHR ''.'', old, NUL], [(Some ''V'', EINTR)])"
    "n_time (cl_net (tiny_client old)) = 100 # 103 # []" "(100::int) \<le> 103" "(103::int) \<le> 100 + 5"
    "n_close (cl_net (tiny_client old)) = 0 # []" "0 \<le> (0::int)"
  by (simp_all add: tiny_client_def NodeConHash_init_def INT_MAX_def answered_def)

theorem client_gets_value_witness:
  "(\<exists>c1 c2. Client_new tiny_json (tiny_client NUL) = Inr c1 \<and> keyValueRequest tiny_json ''k'' c1 = Inr (''v'', c2)
     \<and> n_log (cl_net c2) = [Dial \<lparr>ip_port = 7000, ip_addr = ''127.0.0.1''\<rparr>, Sent 3 (''D'' @ [NUL, NUL]),
         Dial \<lparr>ip_port = 5, ip_addr = ''10.0.0.1''\<rparr>, Sent 4 (''Gk'' @ [NUL, NUL])])
   \<and> Client_new tiny_json (tiny_client (CHR ''}'')) = perr_exit"
proof
  let ?js = "Reply \<lparr>ro_empty = False, ro_req_type = Some 1, ro_type = Some 0,
       ro_data = Some \<lparr>rd_flag = Some True, rd_key = Some ''k'', rd_value = Some ''v'', rd_iplist = Some [''10.0.0.1:5'']\<rparr>\<rparr>"
  have l: "iplist_of ?js = Inr (map addr_text [(''10.0.0.1'', 5)])" by code_simp
  have p: "parsed ''L'' ([CHR ''.'', NUL, NUL], [(Some ''L'', EINTR)]) = ''L''" "parsed ''V'' ([CHR ''.'', NUL, NUL], [(Some ''V'', EINTR)]) = ''V''"
    "parsed ''L'' ([CHR ''.'', CHR ''}'', NUL], [(Some ''L'', EINTR)]) = ''L}''" by code_simp+
  have r: "reply_of tiny_json ''L'' = Some ?js" "reply_of tiny_json ''V'' = Some ?js" "reply_of tiny_json ''L}'' = None" by (simp_all add: tiny_json_def)
  have v: "carries ?js ''k'' ''v''" by (simp add: carries_def)
  note t = client_gets_value [OF tiny_client_ready, of tiny_json]
  from t [of "CHR ''}''"] show "Client_new tiny_json (tiny_client (CHR ''}'')) = perr_exit" by (simp add: p r)
  from t [of NUL "''k''"] l obtain c1 ip port where c1: "Client_new tiny_json (tiny_client NUL) = Inr c1" "(ip, port) \<in> set [(''10.0.0.1'', 5 :: int)]"
    "\<exists>c2. keyValueRequest tiny_json ''k'' c1 = Inr (''v'', c2) \<and> n_log (cl_net c2) = n_log (cl_net (tiny_client NUL)) @
       [Dial \<lparr>ip_port = 7000, ip_addr = ''127.0.0.1''\<rparr>, Sent 3 (take (nat 3) (dump_distribution tiny_json @ [NUL, NUL])),
        Dial \<lparr>ip_port = port, ip_addr = ip\<rparr>, Sent 4 (take (nat 4) (dump_get tiny_json ''k'' @ [NUL, NUL]))]"
    unfolding p r option.case using v by blast
  then show "\<exists>c1 c2. Client_new tiny_json (tiny_client NUL) = Inr c1 \<and> keyValueRequest tiny_json ''k'' c1 = Inr (''v'', c2)
     \<and> n_log (cl_net c2) = [Dial \<lparr>ip_port = 7000, ip_addr = ''127.0.0.1''\<rparr>, Sent 3 (''D'' @ [NUL, NUL]),
         Dial \<lparr>ip_port = 5, ip_addr = ''10.0.0.1''\<rparr>, Sent 4 (''Gk'' @ [NUL, NUL])]"
    by (auto simp: tiny_client_def tiny_json_def)
qed

end
