(* ===== verification/Dcs_Heartbeat.thy ===== *)
theory Dcs_Heartbeat
  imports Dcs_Client
begin

text \<open>
  The heartbeat thread of a cache server (cache_server/src/heart_beat.h, heart_beat.cpp): it connects to the master, then sends
  the same message again and again, and connects again when a write fails. The network is that of the client;
  \<open>connectTask\<close> has the retries of \<open>ConnectServ\<close>. The loop never ends; its state after a number of rounds is given.
\<close>

section \<open>The thread\<close>

record heart =
  masterfd :: int
  hb_net :: net

definition master_ipport :: string where "master_ipport = ''127.0.0.1:7000''"

definition connectTask :: "ipport_pair \<Rightarrow> heart \<Rightarrow> (int \<times> heart) res" where
  "connectTask oneip h =
     bind_res (connect_once oneip (hb_net h)) (\<lambda>(n, fd, w).
     if n < 0 then bind_res (connect_retry 4 n fd oneip w) (\<lambda>(n', fd', w'). Inr (n', h\<lparr>masterfd := fd', hb_net := w'\<rparr>))
     else Inr (n, h\<lparr>masterfd := fd, hb_net := w\<rparr>))"

definition hb_WriteData :: "string \<Rightarrow> heart \<Rightarrow> (int \<times> heart) res" where
  "hb_WriteData msg h = bind_res (WriteData (masterfd h) msg (hb_net h)) (\<lambda>(n, w). Inr (n, h\<lparr>hb_net := w\<rparr>))"

text \<open>One round; \<open>msg\<close> is the text of the message. What the second attempt returns is not looked at.\<close>

definition heart_round :: "string \<Rightarrow> heart \<Rightarrow> heart res" where
  "heart_round msg h =
     bind_res (hb_WriteData msg h) (\<lambda>(ret, h1).
     if ret < 0 then
       bind_res (get_ipport master_ipport) (\<lambda>ip.
       bind_res (connectTask ip h1) (\<lambda>(n, h2).
       bind_res (hb_WriteData msg h2) (\<lambda>(ret', h3). Inr h3)))
     else Inr h1)"

fun heartBeatSend :: "string \<Rightarrow> nat \<Rightarrow> heart \<Rightarrow> heart res" where
  "heartBeatSend msg 0 h = Inr h"
| "heartBeatSend msg (Suc n) h = bind_res (heart_round msg h) (heartBeatSend msg n)"

definition hb_start :: "string \<Rightarrow> nat \<Rightarrow> heart \<Rightarrow> heart res" where
  "hb_start msg n h =
     bind_res (get_ipport master_ipport) (\<lambda>ip.
     bind_res (connectTask ip h) (\<lambda>(_, h1). heartBeatSend msg n h1))"

section \<open>What is sent\<close>

lemma master_ipport_address: "get_ipport master_ipport = Inr \<lparr>ip_port = 7000, ip_addr = ''127.0.0.1''\<rparr>"
  using master_address by (simp add: MASTER_IP_def master_ipport_def)

lemma heart_round_sends:
  assumes "n_write (hb_net h) = [(int k, e)] # ws" and "length msg + 2 \<le> k"
  shows "heart_round msg h = Inr (h\<lparr>hb_net := (hb_net h)\<lparr>n_write := ws,
    n_log := n_log (hb_net h) @ [Sent (masterfd h) (msg @ [NUL, NUL])]\<rparr>\<rparr>)"
  using assms WriteData_once [of "hb_net h" "int k" e ws "masterfd h" msg] by (simp add: heart_round_def hb_WriteData_def)

text \<open>A write that fails is followed by one connection and the same message on the new descriptor.\<close>

lemma heart_round_reconnects:
  assumes "n_write (hb_net h) = [(-1, Other_Errno)] # [(int k, e)] # ws" and "length msg + 2 \<le> k"
    and "n_socket (hb_net h) = fd # ss" and "0 \<le> fd" and "n_connect (hb_net h) = 0 # cs"
  shows "\<exists>h'. heart_round msg h = Inr h' \<and> masterfd h' = fd
    \<and> n_log (hb_net h') = n_log (hb_net h) @ [Dial \<lparr>ip_port = 7000, ip_addr = ''127.0.0.1''\<rparr>, Sent fd (msg @ [NUL, NUL])]"
  using assms by (simp add: heart_round_def hb_WriteData_def WriteData_def master_ipport_address connectTask_def connect_once_def
      net_socket_def net_connect_def Socket_def)

lemma heartBeatSend_sends:
  "n_write (hb_net h) = replicate n [(int (length msg + 2), e)] @ ws \<Longrightarrow>
   heartBeatSend msg n h = Inr (h\<lparr>hb_net := (hb_net h)\<lparr>n_write := ws,
     n_log := n_log (hb_net h) @ replicate n (Sent (masterfd h) (msg @ [NUL, NUL]))\<rparr>\<rparr>)"
proof (induction n arbitrary: h)
  case (Suc n)
  then show ?case
    using heart_round_sends [of h "length msg + 2" e "replicate n [(int (length msg + 2), e)] @ ws" msg]
    by (simp add: replicate_append_same [symmetric])
qed simp

end
