(* ===== verification/Sentinel_Lru.thy ===== *)
theory Sentinel_Lru
  imports Lru_Contract Linked_Nodes
begin

text \<open>
  The least-recently-used cache of the first version (\<open>struct DLinkedNode\<close>, \<open>class LRUCache\<close>, LRU.hpp of
  Project/DistributedCacheSystem/Cache Server): the nodes hang between two sentinels, the head and the tail,
  an \<open>unordered_map\<close> leads from keys to nodes, and evicted nodes are deleted. The order of the map stands for the
  order in which the code iterates over it.
\<close>

section \<open>State\<close>

record dlinked_node =
  dl_key :: string
  dl_value :: string
  dl_prev :: "addr option"
  dl_next :: "addr option"

record lru1 =
  dl_capacity :: int
  dl_cache :: "(string \<times> addr) list"
  dl_head :: addr
  dl_tail :: addr
  dl_size :: int
  dl_heap :: "addr \<rightharpoonup> dlinked_node"
  dl_fresh :: addr

definition DLinkedNode_default :: dlinked_node where
  "DLinkedNode_default =
     \<lparr>dl_key = replicate 20 (CHR '' ''), dl_value = replicate 200 (CHR '' ''), dl_prev = None, dl_next = None\<rparr>"

definition DLinkedNode_new :: "string \<Rightarrow> string \<Rightarrow> dlinked_node" where
  "DLinkedNode_new key value = \<lparr>dl_key = key, dl_value = value, dl_prev = None, dl_next = None\<rparr>"

definition LRUCache_new :: "int \<Rightarrow> lru1" where
  "LRUCache_new capacity =
     \<lparr>dl_capacity = capacity, dl_cache = [], dl_head = 0, dl_tail = 1, dl_size = 0,
      dl_heap = [0 \<mapsto> DLinkedNode_default\<lparr>dl_next := Some 1\<rparr>, 1 \<mapsto> DLinkedNode_default\<lparr>dl_prev := Some 0\<rparr>],
      dl_fresh = 2\<rparr>"

text \<open>A pointer that is null or dangling cannot be followed.\<close>

definition dl_at :: "lru1 \<Rightarrow> addr option \<Rightarrow> (addr \<times> dlinked_node) res" where
  "dl_at s p =
     (case p of None \<Rightarrow> Inl Null_Deref
      | Some a \<Rightarrow> (case dl_heap s a of None \<Rightarrow> Inl Use_After_Free | Some n \<Rightarrow> Inr (a, n)))"

definition dl_put :: "lru1 \<Rightarrow> addr \<Rightarrow> dlinked_node \<Rightarrow> lru1" where
  "dl_put s a n = s\<lparr>dl_heap := (dl_heap s)(a \<mapsto> n)\<rparr>"

section \<open>Operations\<close>

definition addToHead :: "lru1 \<Rightarrow> addr \<Rightarrow> lru1 res" where
  "addToHead s node =
     bind_res (dl_at s (Some node)) (\<lambda>(_, n).
     bind_res (dl_at s (Some (dl_head s))) (\<lambda>(_, h).
     let s1 = dl_put s node (n\<lparr>dl_prev := Some (dl_head s), dl_next := dl_next h\<rparr>) in
     bind_res (dl_at s1 (dl_next h)) (\<lambda>(q, m).
     let s2 = dl_put s1 q (m\<lparr>dl_prev := Some node\<rparr>) in
     bind_res (dl_at s2 (Some (dl_head s))) (\<lambda>(_, h2).
     Inr (dl_put s2 (dl_head s) (h2\<lparr>dl_next := Some node\<rparr>))))))"

definition removeNode :: "lru1 \<Rightarrow> addr \<Rightarrow> lru1 res" where
  "removeNode s node =
     bind_res (dl_at s (Some node)) (\<lambda>(_, n).
     bind_res (dl_at s (dl_prev n)) (\<lambda>(p, m).
     let s1 = dl_put s p (m\<lparr>dl_next := dl_next n\<rparr>) in
     bind_res (dl_at s1 (Some node)) (\<lambda>(_, n1).
     bind_res (dl_at s1 (dl_next n1)) (\<lambda>(q, m1).
     Inr (dl_put s1 q (m1\<lparr>dl_prev := dl_prev n1\<rparr>))))))"

definition moveToHead :: "lru1 \<Rightarrow> addr \<Rightarrow> lru1 res" where
  "moveToHead s node = bind_res (removeNode s node) (\<lambda>s1. addToHead s1 node)"

definition removeTail :: "lru1 \<Rightarrow> (addr \<times> lru1) res" where
  "removeTail s =
     bind_res (dl_at s (Some (dl_tail s))) (\<lambda>(_, t).
     bind_res (dl_at s (dl_prev t)) (\<lambda>(node, _).
     bind_res (removeNode s node) (\<lambda>s1. Inr (node, s1))))"

text \<open>\<open>get(key, flag)\<close>: the recency is left alone when \<open>flag\<close> is false.\<close>

definition lru1_get :: "bool \<Rightarrow> lru1 \<Rightarrow> string \<Rightarrow> (string \<times> lru1) res" where
  "lru1_get flag s key =
     (case map_of (dl_cache s) key of
        None \<Rightarrow> Inr ([], s)
      | Some node \<Rightarrow>
          bind_res (if flag then moveToHead s node else Inr s) (\<lambda>s1.
          bind_res (dl_at s1 (Some node)) (\<lambda>(_, n). Inr (dl_value n, s1))))"

definition lru1_evict :: "lru1 \<Rightarrow> lru1 res" where
  "lru1_evict s =
     bind_res (removeTail s) (\<lambda>(removed, s1).
     bind_res (dl_at s1 (Some removed)) (\<lambda>(_, n).
     Inr (s1\<lparr>dl_cache := AList.delete (dl_key n) (dl_cache s1), dl_heap := (dl_heap s1)(removed := None),
             dl_size := dl_size s1 - 1\<rparr>)))"

definition lru1_put :: "lru1 \<Rightarrow> string \<Rightarrow> string \<Rightarrow> lru1 res" where
  "lru1_put s key value =
     (case map_of (dl_cache s) key of
        None \<Rightarrow>
          (let node = dl_fresh s;
               s1 = (dl_put s node (DLinkedNode_new key value))
                      \<lparr>dl_fresh := Suc node, dl_cache := AList.update key node (dl_cache s)\<rparr> in
           bind_res (addToHead s1 node) (\<lambda>s2.
           bind_res (as_int (dl_size s2 + 1)) (\<lambda>sz.
           let s3 = s2\<lparr>dl_size := sz\<rparr> in
           if dl_size s3 > dl_capacity s3 then lru1_evict s3 else Inr s3)))
      | Some node \<Rightarrow>
          bind_res (dl_at s (Some node)) (\<lambda>(_, n). moveToHead (dl_put s node (n\<lparr>dl_value := value\<rparr>)) node))"

section \<open>Pointer operations\<close>

abbreviation dl_seg :: "(addr \<rightharpoonup> dlinked_node) \<Rightarrow> addr option \<Rightarrow> addr list \<Rightarrow> addr option \<Rightarrow> bool" where
  "dl_seg \<equiv> dnodes dl_prev dl_next"

definition dl_data :: "(addr \<rightharpoonup> dlinked_node) \<Rightarrow> addr \<Rightarrow> string \<times> string" where
  "dl_data h a = (dl_key (the (h a)), dl_value (the (h a)))"

definition framed :: "lru1 \<Rightarrow> addr list \<Rightarrow> bool" where
  "framed s as \<longleftrightarrow> dl_seg (dl_heap s) None (dl_head s # as @ [dl_tail s]) None \<and> distinct (dl_head s # as @ [dl_tail s])"

text \<open>Everything but the links is kept.\<close>

definition relinked :: "lru1 \<Rightarrow> lru1 \<Rightarrow> bool" where
  "relinked s s' \<longleftrightarrow> dl_capacity s' = dl_capacity s \<and> dl_cache s' = dl_cache s \<and> dl_head s' = dl_head s \<and> dl_tail s' = dl_tail s
     \<and> dl_size s' = dl_size s \<and> dl_fresh s' = dl_fresh s \<and> dom (dl_heap s') = dom (dl_heap s)
     \<and> (\<forall>a. dl_data (dl_heap s') a = dl_data (dl_heap s) a)"

lemma dl_at_Some [simp]: "dl_heap s a = Some n \<Longrightarrow> dl_at s (Some a) = Inr (a, n)"
  by (simp add: dl_at_def)

lemma dl_put_simps [simp]:
  "dl_heap (dl_put s a n) = (dl_heap s)(a \<mapsto> n)" "dl_head (dl_put s a n) = dl_head s" "dl_tail (dl_put s a n) = dl_tail s"
  "dl_cache (dl_put s a n) = dl_cache s" "dl_size (dl_put s a n) = dl_size s" "dl_fresh (dl_put s a n) = dl_fresh s"
  "dl_capacity (dl_put s a n) = dl_capacity s"
  by (simp_all add: dl_put_def)

lemma relinked_trans: "relinked s t \<Longrightarrow> relinked t u \<Longrightarrow> relinked s u"
  by (simp add: relinked_def)

lemma addToHead_ok:
  assumes "framed s as" and "dl_heap s a = Some n" and "a \<notin> set (dl_head s # as @ [dl_tail s])"
  shows "\<exists>s'. addToHead s a = Inr s' \<and> framed s' (a # as) \<and> relinked s s'"
  using assms by (cases as) (auto simp: framed_def addToHead_def Let_def relinked_def dl_data_def)

lemma removeNode_ok:
  assumes "framed s (xs @ a # ys)"
  shows "\<exists>s'. removeNode s a = Inr s' \<and> framed s' (xs @ ys) \<and> relinked s s'"
proof -
  obtain us p where L: "dl_head s # xs = us @ [p]" by (metis list.distinct(1) rev_exhaust)
  obtain q vs where R: "ys @ [dl_tail s] = q # vs" by (cases ys) auto
  have whole: "dl_head s # (xs @ a # ys) @ [dl_tail s] = us @ p # a # q # vs"
    using L R by (metis append.assoc append_Cons append_Nil)
  have rest: "dl_head s # (xs @ ys) @ [dl_tail s] = us @ p # q # vs"
    using L R by (metis append.assoc append_Cons append_Nil)
  have seg: "dl_seg (dl_heap s) None (us @ p # a # q # vs) None" and dist: "distinct (us @ p # a # q # vs)"
    using assms unfolding framed_def whole by blast+
  from seg obtain np na nq where n: "dl_heap s p = Some np" "dl_heap s a = Some na" "dl_heap s q = Some nq"
    and l: "dl_prev na = Some p" "dl_next na = Some q" by auto
  let ?s = "dl_put (dl_put s p (np\<lparr>dl_next := Some q\<rparr>)) q (nq\<lparr>dl_prev := Some p\<rparr>)"
  have "removeNode s a = Inr ?s" using n l dist by (simp add: removeNode_def Let_def)
  moreover have "dl_seg (dl_heap ?s) None (us @ p # q # vs) None" using seg n dist by (auto simp: last_of_def split: if_splits)
  then have "framed ?s (xs @ ys)" using dist unfolding framed_def dl_put_simps rest by auto
  moreover have "relinked s ?s" using n by (auto simp: relinked_def dl_data_def)
  ultimately show ?thesis by blast
qed

lemma moveToHead_ok:
  assumes "framed s (xs @ a # ys)"
  shows "\<exists>s'. moveToHead s a = Inr s' \<and> framed s' (a # xs @ ys) \<and> relinked s s'"
proof -
  obtain s1 where s1: "removeNode s a = Inr s1" "framed s1 (xs @ ys)" "relinked s s1"
    using removeNode_ok [OF assms] by blast
  have "a \<in> dom (dl_heap s1)" using assms s1(3) by (auto simp: framed_def relinked_def)
  then obtain n where "dl_heap s1 a = Some n" by blast
  moreover have "a \<notin> set (dl_head s1 # (xs @ ys) @ [dl_tail s1])" using assms s1(3) by (auto simp: framed_def relinked_def)
  ultimately obtain s2 where "addToHead s1 a = Inr s2" "framed s2 (a # xs @ ys)" "relinked s1 s2"
    using addToHead_ok [OF s1(2)] by blast
  with s1 show ?thesis by (auto simp: moveToHead_def intro: relinked_trans)
qed

section \<open>Invariant and abstraction relation\<close>

definition dl_entries :: "(addr \<rightharpoonup> dlinked_node) \<Rightarrow> addr list \<Rightarrow> entries" where
  "dl_entries h as = map (dl_data h) as"

definition dl_ok :: "lru1 \<Rightarrow> addr list \<Rightarrow> bool" where
  "dl_ok s as \<longleftrightarrow> framed s as \<and> (\<forall>a\<in>set (dl_head s # as @ [dl_tail s]). a < dl_fresh s)
     \<and> distinct (map fst (dl_entries (dl_heap s) as)) \<and> distinct (map fst (dl_cache s))
     \<and> set (dl_cache s) = (\<lambda>a. (fst (dl_data (dl_heap s) a), a)) ` set as \<and> dl_size s = int (length as)"

definition lru1_rel :: "lru1 \<Rightarrow> entries \<Rightarrow> bool" where
  "lru1_rel s xs \<longleftrightarrow> (\<exists>as. dl_ok s as \<and> xs = dl_entries (dl_heap s) as)"

definition lru1_state :: "lru1 \<Rightarrow> entries \<Rightarrow> bool" where
  "lru1_state s xs \<longleftrightarrow> lru1_rel s xs \<and> 0 < dl_capacity s \<and> dl_capacity s < INT_MAX \<and> int (length xs) \<le> dl_capacity s"

lemma dl_ok_find:
  assumes "dl_ok s as"
  shows "map_of (dl_cache s) k = Some a \<longleftrightarrow> a \<in> set as \<and> fst (dl_data (dl_heap s) a) = k"
proof -
  have "map_of (dl_cache s) k = Some a \<longleftrightarrow> (k, a) \<in> set (dl_cache s)" using assms by (simp add: dl_ok_def)
  then show ?thesis using assms by (auto simp: dl_ok_def)
qed

lemma dl_ok_keys:
  assumes "dl_ok s as"
  shows "fst ` set (dl_cache s) = fst ` set (dl_entries (dl_heap s) as)"
  using assms by (auto simp: dl_ok_def dl_entries_def image_image)

lemma dl_ok_node: "dl_ok s as \<Longrightarrow> a \<in> set as \<Longrightarrow> \<exists>n. dl_heap s a = Some n"
  by (auto simp: dl_ok_def framed_def dest: dnodes_dom)

lemma entries_relinked: "relinked s s' \<Longrightarrow> dl_entries (dl_heap s') as = dl_entries (dl_heap s) as"
  by (simp add: relinked_def dl_entries_def)

lemma dl_ok_relinked:
  assumes "dl_ok s as" and "framed s' as'" and "relinked s s'" and "set as' = set as"
  shows "dl_ok s' as'"
proof -
  have d: "distinct as'" "distinct as" using assms(1,2) by (auto simp: dl_ok_def framed_def)
  then have "length as' = length as" using assms(4) by (metis distinct_card)
  moreover have "distinct (map fst (dl_entries (dl_heap s) as'))"
    using assms(1,4) d by (auto simp: dl_ok_def dl_entries_def distinct_map)
  ultimately show ?thesis using assms entries_relinked [OF assms(3), of as'] by (auto simp: dl_ok_def relinked_def)
qed

text \<open>A node moved to the head: its entry comes first.\<close>

lemma dl_ok_move:
  assumes "dl_ok s as" and "map_of (dl_cache s) k = Some a"
  shows "\<exists>s' n. moveToHead s a = Inr s' \<and> dl_heap s' a = Some n \<and> relinked s s'
    \<and> map_of (dl_entries (dl_heap s) as) k = Some (dl_value n)
    \<and> lru1_rel s' ((k, dl_value n) # AList.delete k (dl_entries (dl_heap s) as))"
proof -
  have a: "a \<in> set as" "fst (dl_data (dl_heap s) a) = k" using dl_ok_find [OF assms(1)] assms(2) by blast+
  then obtain xs ys where as: "as = xs @ a # ys" by (meson split_list)
  obtain s' where s': "moveToHead s a = Inr s'" "framed s' (a # xs @ ys)" "relinked s s'"
    using moveToHead_ok [of s xs a ys] assms(1) as by (auto simp: dl_ok_def)
  have ok: "dl_ok s' (a # xs @ ys)" by (rule dl_ok_relinked [OF assms(1) s'(2,3)]) (simp add: as)
  then obtain n where n: "dl_heap s' a = Some n" using dl_ok_node [OF ok] by auto
  then have da: "dl_data (dl_heap s) a = (k, dl_value n)"
    using s'(3) a(2) by (simp add: relinked_def dl_data_def prod_eq_iff) (metis option.sel)
  have dist: "distinct (map fst (dl_entries (dl_heap s) as))" using assms(1) by (simp add: dl_ok_def)
  have en: "dl_entries (dl_heap s) as = dl_entries (dl_heap s) xs @ (k, dl_value n) # dl_entries (dl_heap s) ys"
    by (simp add: as dl_entries_def da)
  then have "AList.delete k (dl_entries (dl_heap s) as) = dl_entries (dl_heap s) (xs @ ys)"
    using delete_entries [OF dist [unfolded en]] by (simp add: dl_entries_def)
  moreover have "map_of (dl_entries (dl_heap s) as) k = Some (dl_value n)"
    by (subst map_of_eq_Some_iff [OF dist]) (simp add: en)
  moreover have "dl_entries (dl_heap s') (a # xs @ ys) = (k, dl_value n) # dl_entries (dl_heap s) (xs @ ys)"
    by (subst entries_relinked [OF s'(3)]) (simp add: dl_entries_def da)
  ultimately show ?thesis using s' n ok by (auto simp: lru1_rel_def intro!: exI [of _ "a # xs @ ys"])
qed

lemma lru1_get_refines:
  assumes "lru1_rel s xs"
  shows "\<exists>s'. lru1_get True s k = Inr (fst (spec_get xs k), s') \<and> lru1_rel s' (snd (spec_get xs k)) \<and> dl_capacity s' = dl_capacity s"
proof -
  obtain as where as: "dl_ok s as" "xs = dl_entries (dl_heap s) as" using assms by (auto simp: lru1_rel_def)
  show ?thesis
  proof (cases "map_of (dl_cache s) k")
    case None
    then have "map_of xs k = None" using dl_ok_keys [OF as(1)] as(2) by (simp add: map_of_eq_None_iff)
    with None assms show ?thesis by (simp add: lru1_get_def spec_get_def)
  next
    case (Some a)
    from dl_ok_move [OF as(1) Some] Some as(2) show ?thesis by (auto simp: lru1_get_def spec_get_def relinked_def)
  qed
qed

text \<open>Without the flag nothing moves.\<close>

lemma lru1_peek:
  assumes "lru1_rel s xs"
  shows "lru1_get False s k = Inr (fst (spec_get xs k), s)"
proof -
  obtain as where as: "dl_ok s as" "xs = dl_entries (dl_heap s) as" using assms by (auto simp: lru1_rel_def)
  show ?thesis
  proof (cases "map_of (dl_cache s) k")
    case None
    then have "map_of xs k = None" using dl_ok_keys [OF as(1)] as(2) by (simp add: map_of_eq_None_iff)
    with None show ?thesis by (simp add: lru1_get_def spec_get_def)
  next
    case (Some a)
    then obtain n where n: "a \<in> set as" "dl_heap s a = Some n" "dl_key n = k"
      using dl_ok_find [OF as(1)] dl_ok_node [OF as(1)] by (fastforce simp: dl_data_def)
    then have "(k, dl_value n) \<in> set xs" by (force simp: as(2) dl_entries_def dl_data_def)
    then have "map_of xs k = Some (dl_value n)"
      using as by (subst map_of_eq_Some_iff) (simp_all add: dl_ok_def)
    then show ?thesis using Some n by (simp add: lru1_get_def spec_get_def)
  qed
qed

section \<open>Storing\<close>

lemma dl_seg_value:
  "h a = Some n \<Longrightarrow> dl_seg (h(a \<mapsto> n\<lparr>dl_value := v\<rparr>)) p bs q = dl_seg h p bs q"
  by (induction bs arbitrary: p) auto

lemma dl_ok_value:
  assumes "dl_ok s as" and "dl_heap s a = Some n"
  shows "dl_ok (dl_put s a (n\<lparr>dl_value := v\<rparr>)) as"
proof -
  have key: "fst (dl_data ((dl_heap s)(a \<mapsto> n\<lparr>dl_value := v\<rparr>)) b) = fst (dl_data (dl_heap s) b)" for b
    using assms(2) by (simp add: dl_data_def)
  then have "map fst (dl_entries ((dl_heap s)(a \<mapsto> n\<lparr>dl_value := v\<rparr>)) as) = map fst (dl_entries (dl_heap s) as)"
    by (simp add: dl_entries_def comp_def)
  moreover have "framed (dl_put s a (n\<lparr>dl_value := v\<rparr>)) as = framed s as"
    unfolding framed_def dl_put_simps dl_seg_value [of "dl_heap s" a n v, OF assms(2)] by (rule refl)
  ultimately show ?thesis using assms key by (simp add: dl_ok_def del: fun_upd_apply)
qed

lemma lru1_put_old:
  assumes ok: "dl_ok s as" and find: "map_of (dl_cache s) k = Some a"
  shows "\<exists>s'. lru1_put s k v = Inr s' \<and> dl_capacity s' = dl_capacity s
    \<and> lru1_rel s' ((k, v) # AList.delete k (dl_entries (dl_heap s) as))"
proof -
  obtain n where n: "a \<in> set as" "dl_heap s a = Some n" "dl_key n = k"
    using dl_ok_find [OF ok] find dl_ok_node [OF ok] by (fastforce simp: dl_data_def)
  let ?s = "dl_put s a (n\<lparr>dl_value := v\<rparr>)"
  have "map_of (dl_cache ?s) k = Some a" using find by simp
  from dl_ok_move [OF dl_ok_value [OF ok n(2), of v] this] obtain s' m where s': "moveToHead ?s a = Inr s'"
    "dl_heap s' a = Some m" "relinked ?s s'" "lru1_rel s' ((k, dl_value m) # AList.delete k (dl_entries (dl_heap ?s) as))" by blast
  have "dl_data (dl_heap s') a = dl_data (dl_heap ?s) a" using s'(3) by (simp add: relinked_def)
  then have "dl_value m = v" using s'(2) by (simp add: dl_data_def)
  moreover have "AList.delete k (map (dl_data (dl_heap ?s)) bs) = AList.delete k (map (dl_data (dl_heap s)) bs)" for bs
  proof (induction bs)
    case (Cons b bs)
    then show ?case using n by (cases "b = a") (auto simp: AList.delete_eq dl_data_def)
  qed simp
  ultimately show ?thesis using s' find n(2) by (simp add: lru1_put_def dl_entries_def relinked_def)
qed

lemma lru1_evict_ok:
  assumes ok: "dl_ok s (bs @ [t])"
  shows "\<exists>s'. lru1_evict s = Inr s' \<and> dl_ok s' bs \<and> dl_capacity s' = dl_capacity s
    \<and> dl_entries (dl_heap s') bs = dl_entries (dl_heap s) bs"
proof -
  obtain n where n: "dl_heap s t = Some n" using dl_ok_node [OF ok] by auto
  have tl: "\<exists>m. dl_heap s (dl_tail s) = Some m \<and> dl_prev m = Some t" using ok by (auto simp: dl_ok_def framed_def)
  obtain s1 where s1: "removeNode s t = Inr s1" "framed s1 bs" "relinked s s1"
    using removeNode_ok [of s bs t "[]"] ok by (auto simp: dl_ok_def)
  then obtain m where m: "dl_heap s1 t = Some m" using n by (auto simp: relinked_def dom_def set_eq_iff)
  have data: "dl_data (dl_heap s1) b = dl_data (dl_heap s) b" for b using s1(3) by (simp add: relinked_def)
  then have key: "dl_key m = fst (dl_data (dl_heap s) t)" using m by (metis dl_data_def fst_conv option.sel)
  let ?s = "s1\<lparr>dl_cache := AList.delete (dl_key m) (dl_cache s1), dl_heap := (dl_heap s1)(t := None), dl_size := dl_size s1 - 1\<rparr>"
  have ev: "lru1_evict s = Inr ?s" using tl n s1(1) m by (auto simp: lru1_evict_def removeTail_def)
  have t: "t \<notin> set bs" "t \<noteq> dl_head s" "t \<noteq> dl_tail s" using ok by (auto simp: dl_ok_def framed_def)
  then have fr: "framed ?s bs" using s1(2,3) by (auto simp: framed_def relinked_def)
  have dat: "dl_data ((dl_heap s1)(t := None)) b = dl_data (dl_heap s) b" if "b \<in> set bs" for b
    using that t data by (auto simp: dl_data_def)
  then have en: "dl_entries (dl_heap ?s) bs = dl_entries (dl_heap s) bs" by (simp add: dl_entries_def)
  have knot: "dl_key m \<notin> (\<lambda>b. fst (dl_data (dl_heap s) b)) ` set bs"
    using ok key by (simp add: dl_ok_def dl_entries_def image_image)
  have "set (dl_cache s1) = (\<lambda>a. (fst (dl_data (dl_heap s) a), a)) ` set (bs @ [t])" using ok s1(3) by (simp add: dl_ok_def relinked_def)
  then have "set (AList.delete (dl_key m) (dl_cache s1)) = (\<lambda>a. (fst (dl_data (dl_heap s) a), a)) ` set bs"
    using knot key by (auto simp: AList.delete_eq)
  moreover have "distinct (map fst (AList.delete (dl_key m) (dl_cache s1)))" using ok s1(3) by (simp add: dl_ok_def relinked_def distinct_delete)
  moreover have "(\<lambda>a. (fst (dl_data (dl_heap ?s) a), a)) ` set bs = (\<lambda>a. (fst (dl_data (dl_heap s) a), a)) ` set bs"
    using dat by (intro image_cong) simp_all
  moreover have "distinct (map fst (dl_entries (dl_heap s) bs))" using ok by (simp add: dl_ok_def dl_entries_def)
  ultimately have "dl_ok ?s bs" using ok s1(3) fr en by (simp add: dl_ok_def relinked_def del: fun_upd_apply)
  then show ?thesis using ev en s1(3) by (auto simp: relinked_def)
qed

lemma lru1_put_new:
  assumes ok: "dl_ok s as" and find: "map_of (dl_cache s) k = None"
    and cap: "0 < dl_capacity s" "dl_capacity s < INT_MAX" "int (length as) \<le> dl_capacity s"
  shows "\<exists>s'. lru1_put s k v = Inr s' \<and> dl_capacity s' = dl_capacity s
    \<and> lru1_rel s' ((k, v) # (if nat (dl_capacity s) \<le> length as then butlast (dl_entries (dl_heap s) as) else dl_entries (dl_heap s) as))"
proof -
  let ?a = "dl_fresh s" and ?n = "DLinkedNode_new k v"
  let ?s1 = "(dl_put s ?a ?n)\<lparr>dl_fresh := Suc ?a, dl_cache := AList.update k ?a (dl_cache s)\<rparr>"
  have new: "?a \<notin> set (dl_head s # as @ [dl_tail s])" using ok by (auto simp: dl_ok_def)
  have fr: "framed ?s1 as" using ok new by (auto simp: dl_ok_def framed_def)
  obtain s2 where s2: "addToHead ?s1 ?a = Inr s2" "framed s2 (?a # as)" "relinked ?s1 s2"
    using addToHead_ok [OF fr, of ?a ?n] new by auto
  have data: "dl_data (dl_heap s2) b = (if b = ?a then (k, v) else dl_data (dl_heap s) b)" for b
    using s2(3) by (simp add: relinked_def dl_data_def DLinkedNode_new_def)
  then have en: "dl_entries (dl_heap s2) (?a # as) = (k, v) # dl_entries (dl_heap s) as"
    using new by (auto simp: dl_entries_def)
  have kn: "k \<notin> fst ` set (dl_cache s)" using find by (simp add: map_of_eq_None_iff)
  then have upd: "dl_cache s2 = dl_cache s @ [(k, ?a)]" using s2(3) update_new [of k "dl_cache s" ?a] by (simp add: relinked_def)
  have kn': "k \<notin> fst ` set (dl_entries (dl_heap s) as)" using kn dl_ok_keys [OF ok] by simp
  let ?s3 = "s2\<lparr>dl_size := dl_size s2 + 1\<rparr>"
  have sz: "dl_size s2 = int (length as)" using s2(3) ok by (simp add: relinked_def dl_ok_def)
  have "(\<lambda>b. (fst (dl_data (dl_heap s2) b), b)) ` set as = (\<lambda>b. (fst (dl_data (dl_heap s) b), b)) ` set as"
    using new by (intro image_cong) (auto simp: data)
  then have "set (dl_cache s2) = (\<lambda>b. (fst (dl_data (dl_heap s2) b), b)) ` set (?a # as)"
    using ok upd by (simp add: dl_ok_def data [of ?a])
  moreover have "framed ?s3 (?a # as)" using s2(2) by (simp add: framed_def)
  moreover have rl: "dl_head s2 = dl_head s" "dl_tail s2 = dl_tail s" "dl_fresh s2 = Suc ?a" "dl_capacity s2 = dl_capacity s"
    using s2(3) by (simp_all add: relinked_def)
  moreover have "distinct (map fst (dl_entries (dl_heap s2) (?a # as)))" "distinct (map fst (dl_cache s2))"
    using ok kn kn' by (simp_all add: en upd dl_ok_def)
  ultimately have ok3: "dl_ok ?s3 (?a # as)" using ok sz by (auto simp: dl_ok_def)
  have put: "lru1_put s k v = (if dl_size ?s3 > dl_capacity s then lru1_evict ?s3 else Inr ?s3)"
    using find s2(1,3) sz cap by (simp add: lru1_put_def Let_def relinked_def in_int_def INT_MAX_def INT_MIN_def)
  show ?thesis
  proof (cases "nat (dl_capacity s) \<le> length as")
    case False
    then show ?thesis using put ok3 en sz s2(3) cap
      by (auto simp: lru1_rel_def relinked_def intro!: exI [of _ "?a # as"])
  next
    case True
    then have "as \<noteq> []" using cap by auto
    then obtain bs t where as: "as = bs @ [t]" by (meson rev_exhaust)
    from lru1_evict_ok [of ?s3 "?a # bs" t] ok3 as obtain s' where s': "lru1_evict ?s3 = Inr s'" "dl_ok s' (?a # bs)"
      "dl_capacity s' = dl_capacity s2" "dl_entries (dl_heap s') (?a # bs) = dl_entries (dl_heap s2) (?a # bs)" by auto
    have "dl_entries (dl_heap s2) (?a # bs) = (k, v) # butlast (dl_entries (dl_heap s) as)"
      using en as by (simp add: dl_entries_def)
    then show ?thesis using True put s' sz cap s2(3)
      by (auto simp: lru1_rel_def relinked_def intro!: exI [of _ "?a # bs"])
  qed
qed

lemma lru1_put_refines:
  assumes "lru1_state s xs"
  shows "\<exists>s'. lru1_put s k v = Inr s' \<and> lru1_rel s' (spec_set (nat (dl_capacity s)) xs k v) \<and> dl_capacity s' = dl_capacity s"
proof -
  obtain as where as: "dl_ok s as" "xs = dl_entries (dl_heap s) as" using assms by (auto simp: lru1_state_def lru1_rel_def)
  have len: "length xs = length as" by (simp add: as(2) dl_entries_def)
  show ?thesis
  proof (cases "map_of (dl_cache s) k")
    case None
    then have "k \<notin> fst ` set xs" using dl_ok_keys [OF as(1)] as(2) by (simp add: map_of_eq_None_iff)
    with lru1_put_new [OF as(1) None, of v] assms as(2) len show ?thesis by (auto simp: spec_set_def lru1_state_def)
  next
    case (Some a)
    then have "k \<in> fst ` set xs" using dl_ok_keys [OF as(1)] as(2) by (metis map_of_eq_None_iff option.distinct(1))
    with lru1_put_old [OF as(1) Some, of v] as(2) show ?thesis by (auto simp: spec_set_def)
  qed
qed

lemma lru1_state_wf: "lru1_state s xs \<Longrightarrow> cache_wf (nat (dl_capacity s)) xs"
  by (auto simp: lru1_state_def lru1_rel_def dl_ok_def cache_wf_def)

interpretation lru1: lru_contract lru1_state "\<lambda>s. nat (dl_capacity s)" "lru1_get True" lru1_put
proof
  fix s xs k v assume st: "lru1_state s xs"
  then show "0 < nat (dl_capacity s)" by (simp add: lru1_state_def)
  show wf: "cache_wf (nat (dl_capacity s)) xs" using st by (rule lru1_state_wf)
  from st have "lru1_rel s xs" by (simp add: lru1_state_def)
  from lru1_get_refines [OF this, of k] wf_spec_get [OF wf, of k] st
  show "\<exists>s'. lru1_get True s k = Inr (fst (spec_get xs k), s') \<and> lru1_state s' (snd (spec_get xs k)) \<and>
      nat (dl_capacity s') = nat (dl_capacity s)" by (auto simp: lru1_state_def cache_wf_def)
  from lru1_put_refines [OF st, of k v] wf_spec_set [OF wf, of k v] st
  show "\<exists>s'. lru1_put s k v = Inr s' \<and> lru1_state s' (spec_set (nat (dl_capacity s)) xs k v) \<and>
      nat (dl_capacity s') = nat (dl_capacity s)" by (auto simp: lru1_state_def cache_wf_def)
qed

lemma lru1_new_state: "0 < c \<Longrightarrow> c < INT_MAX \<Longrightarrow> lru1_state (LRUCache_new c) []"
  by (auto simp: lru1_state_def lru1_rel_def dl_ok_def framed_def LRUCache_new_def DLinkedNode_default_def dl_entries_def
      intro!: exI [of _ "[]"])

text \<open>A cache of capacity 0 evicts what it has just stored.\<close>

lemma lru1_put_zero_capacity: "\<exists>t. lru1_put (LRUCache_new 0) k v = Inr t"
  by (simp add: lru1_put_def LRUCache_new_def addToHead_def dl_at_def dl_put_def DLinkedNode_new_def lru1_evict_def
      removeTail_def removeNode_def as_int_def in_int_def INT_MAX_def INT_MIN_def Let_def)

end
