(* ===== verification/Backup_Ring.thy ===== *)
theory Backup_Ring
  imports Con_Hash
begin

unbundle bit_operations_syntax

text \<open>
  The consistent hashing of the first version (\<open>class ConsistentHash\<close>, consistenthash.hpp of
  Project/DistributedCacheSystem/Cache Server): a ring of virtual nodes for the owner of a key and a second ring
  with one node per server for its backup. A point that is taken keeps its server. The contract of a ring is
  the one of \<open>Con_Hash\<close>.
\<close>

section \<open>State and operations\<close>

record con_hash1 =
  virtualNodes :: "(32 word, string) omap"
  serverNodes :: "(32 word, string) omap"
  virtualNodeNum :: nat

definition ConsistentHash_new :: "nat \<Rightarrow> con_hash1" where
  "ConsistentHash_new num = \<lparr>virtualNodes = [], serverNodes = [], virtualNodeNum = num\<rparr>"

definition FNVHash :: "string \<Rightarrow> 32 word" where
  "FNVHash key =
     (let h0 = foldl (\<lambda>h c. (h XOR (scast (of_char c :: 8 word))) * 16777619) 2166136261 key;
          h1 = h0 + push_bit 13 h0;
          h2 = h1 XOR drop_bit 7 h1;
          h3 = h2 + push_bit 3 h2;
          h4 = h3 XOR drop_bit 17 h3;
          h5 = h4 + push_bit 5 h4
      in if h5 < 0 then - h5 else h5)"

definition nodeKey :: "string \<Rightarrow> nat \<Rightarrow> 32 word" where
  "nodeKey nodeIp i = FNVHash (nodeIp @ ''#'' @ to_string (int i))"

definition AddServer :: "con_hash1 \<Rightarrow> string \<Rightarrow> con_hash1" where
  "AddServer s nodeIp =
     s\<lparr>virtualNodes := foldl (\<lambda>m i. map_insert m (nodeKey nodeIp i) nodeIp) (virtualNodes s) [0..<virtualNodeNum s],
       serverNodes := map_insert (serverNodes s) (FNVHash nodeIp) nodeIp\<rparr>"

definition DeleteServer :: "con_hash1 \<Rightarrow> string \<Rightarrow> con_hash1" where
  "DeleteServer s nodeIp =
     s\<lparr>virtualNodes := foldl (\<lambda>m i. map_erase m (nodeKey nodeIp i)) (virtualNodes s) [0..<virtualNodeNum s],
       serverNodes := map_erase (serverNodes s) (FNVHash nodeIp)\<rparr>"

text \<open>Only the virtual nodes are cleared.\<close>

definition RefreshIPList :: "con_hash1 \<Rightarrow> string list \<Rightarrow> con_hash1" where
  "RefreshIPList s ipList = foldl AddServer (s\<lparr>virtualNodes := []\<rparr>) ipList"

definition GetServerIndex1 :: "con_hash1 \<Rightarrow> string \<Rightarrow> string res" where
  "GetServerIndex1 s key =
     (let it = lower_bound (virtualNodes s) (FNVHash key) in if it = [] then iter_second (virtualNodes s) else iter_second it)"

definition GetBackUpServer :: "con_hash1 \<Rightarrow> string \<Rightarrow> string res" where
  "GetBackUpServer s key =
     (let it = upper_bound (serverNodes s) (FNVHash key) in if it = [] then iter_second (serverNodes s) else iter_second it)"

section \<open>The ring of owners\<close>

text \<open>The hash is the one of \<open>NodeConHash\<close>.\<close>

lemma FNVHash_hash: "FNVHash key = hash key"
  by (simp add: FNVHash_def hash_def fnv_step_def [abs_def] Let_def)

definition ring1_good :: "con_hash1 \<Rightarrow> bool" where
  "ring1_good s \<longleftrightarrow> map_wf (virtualNodes s)"

definition ring1_points :: "con_hash1 \<Rightarrow> 32 word \<rightharpoonup> string" where
  "ring1_points s = map_of (virtualNodes s)"

definition ring1_marks :: "con_hash1 \<Rightarrow> string \<Rightarrow> 32 word set" where
  "ring1_marks s ip = nodeKey ip ` {0..<virtualNodeNum s}"

lemma insert_points:
  "map_wf m \<Longrightarrow> map_wf (foldl (\<lambda>m i. map_insert m (f i) v) m is) \<and>
   map_of (foldl (\<lambda>m i. map_insert m (f i) v) m is) =
     (\<lambda>h. if h \<in> f ` set is \<and> map_of m h = None then Some v else map_of m h)"
proof (induction "is" arbitrary: m)
  case (Cons i "is")
  from Cons.IH [of "map_insert m (f i) v"] Cons.prems show ?case by (auto simp: map_of_insert fun_eq_iff)
qed simp

lemma AddServer_points:
  assumes "ring1_good s"
  shows "ring1_good (AddServer s ip)" and "virtualNodeNum (AddServer s ip) = virtualNodeNum s"
    and "ring1_points (AddServer s ip) =
      (\<lambda>h. if h \<in> ring1_marks s ip \<and> ring1_points s h = None then Some ip else ring1_points s h)"
  using insert_points [of "virtualNodes s" "nodeKey ip" ip "[0..<virtualNodeNum s]"] assms
  unfolding ring1_good_def ring1_points_def ring1_marks_def AddServer_def by (simp_all add: fun_eq_iff)

interpretation ring1: hash_ring_leave ring1_good ring1_points GetServerIndex1 AddServer FNVHash
  "\<lambda>s ip. Inr (DeleteServer s ip)" ring1_marks
proof
  fix s key ip h s'
  assume g: "ring1_good s"
  show "finite (dom (ring1_points s))" by (simp add: ring1_points_def finite_dom_map_of)
  show "GetServerIndex1 s key = Inr (the (ring1_points s (ring_succ (dom (ring1_points s)) (FNVHash key))))"
    if "ring1_points s \<noteq> Map.empty"
    using g that find_point [of "virtualNodes s"] by (auto simp: GetServerIndex1_def ring1_good_def ring1_points_def)
  show "GetServerIndex1 s key = Inl Out_Of_Bounds" if "ring1_points s = Map.empty"
    using that by (simp add: GetServerIndex1_def ring1_points_def lower_bound_def iter_second_def)
  show "ring1_good (AddServer s ip)" using g by (rule AddServer_points)
  show "ring1_points (AddServer s ip) h = ring1_points s h \<or> ring1_points (AddServer s ip) h = Some ip"
    using AddServer_points(3) [OF g] by simp
  show "dom (ring1_points s) \<subseteq> dom (ring1_points (AddServer s ip))" using AddServer_points(3) [OF g] by auto
  show "ring1_good s' \<and> ring1_points s' = (\<lambda>h. if h \<in> ring1_marks s ip then None else ring1_points s h)"
    if "Inr (DeleteServer s ip) = Inr s'"
    using that g erase_points [of "virtualNodes s" "nodeKey ip" "[0..<virtualNodeNum s]"]
    by (auto simp: DeleteServer_def ring1_good_def ring1_points_def ring1_marks_def)
qed

lemma refresh1_points:
  assumes "ring1_good s" and "0 < virtualNodeNum s"
  shows "ring1_good (foldl AddServer s ips) \<and> virtualNodeNum (foldl AddServer s ips) = virtualNodeNum s
    \<and> ran (ring1_points (foldl AddServer s ips)) \<subseteq> ran (ring1_points s) \<union> set ips
    \<and> (ips \<noteq> [] \<or> ring1_points s \<noteq> Map.empty \<longrightarrow> ring1_points (foldl AddServer s ips) \<noteq> Map.empty)"
  using assms
proof (induction ips arbitrary: s)
  case (Cons ip ips)
  note a = AddServer_points [OF Cons.prems(1), of ip]
  have "nodeKey ip 0 \<in> ring1_marks s ip" using Cons.prems(2) by (auto simp: ring1_marks_def)
  then have ne: "ring1_points (AddServer s ip) \<noteq> Map.empty" using a(3) by (auto simp: fun_eq_iff split: if_splits)
  have "ran (ring1_points (AddServer s ip)) \<subseteq> ran (ring1_points s) \<union> {ip}" using a(3) by (auto simp: ran_def split: if_splits)
  then show ?case using Cons.IH [OF a(1)] a(2) Cons.prems(2) ne by auto
qed auto

lemma refreshed_good:
  assumes "ips \<noteq> []" and "0 < virtualNodeNum s"
  shows "ring1_good (RefreshIPList s ips)" and "ring1_points (RefreshIPList s ips) \<noteq> Map.empty"
    and "ran (ring1_points (RefreshIPList s ips)) \<subseteq> set ips" and "virtualNodeNum (RefreshIPList s ips) = virtualNodeNum s"
proof -
  have "ring1_good (s\<lparr>virtualNodes := []\<rparr>)" by (simp add: ring1_good_def)
  from refresh1_points [OF this, of ips] assms
  show "ring1_good (RefreshIPList s ips)" "ring1_points (RefreshIPList s ips) \<noteq> Map.empty"
    "ran (ring1_points (RefreshIPList s ips)) \<subseteq> set ips" "virtualNodeNum (RefreshIPList s ips) = virtualNodeNum s"
    by (auto simp: RefreshIPList_def ring1_points_def)
qed

lemma refreshed_owner1:
  assumes "ips \<noteq> []" and "0 < virtualNodeNum s"
  shows "\<exists>m\<in>set ips. GetServerIndex1 (RefreshIPList s ips) key = Inr m"
  using ring1.locate_owner [OF refreshed_good(1,2) [OF assms], of key] refreshed_good(3) [OF assms] by (auto simp: ran_def)

text \<open>A point once taken is kept, so the text of the first server's first virtual node is a key of that server.\<close>

lemma points_kept:
  "ring1_good s \<Longrightarrow> ring1_points s h = Some m \<Longrightarrow> ring1_points (foldl AddServer s ips) h = Some m"
  by (induction ips arbitrary: s) (simp_all add: AddServer_points)

lemma own_node_owner:
  assumes "0 < virtualNodeNum s"
  shows "GetServerIndex1 (RefreshIPList s (ip # ips)) (ip @ ''#'' @ to_string (int 0)) = Inr ip"
proof -
  let ?r = "RefreshIPList s (ip # ips)" and ?s = "s\<lparr>virtualNodes := []\<rparr>"
  have g: "ring1_good ?s" "ring1_points ?s = Map.empty" by (simp_all add: ring1_good_def ring1_points_def)
  have "nodeKey ip 0 \<in> ring1_marks ?s ip" using assms by (simp add: ring1_marks_def)
  then have "ring1_points (AddServer ?s ip) (nodeKey ip 0) = Some ip" using AddServer_points(3) [OF g(1), of ip] g(2) by simp
  then have p: "ring1_points ?r (nodeKey ip 0) = Some ip" unfolding RefreshIPList_def foldl_Cons
    by (rule points_kept [OF AddServer_points(1) [OF g(1)]])
  have ok: "ring1_good ?r" "ring1_points ?r \<noteq> Map.empty" using refreshed_good [OF _ assms, of "ip # ips"] by simp_all
  have "ring_succ (dom (ring1_points ?r)) (nodeKey ip 0) = nodeKey ip 0"
    using p ring1.fin [OF ok(1)] by (intro ring_succ_self) auto
  then show ?thesis using ring1.locate_ok [OF ok, of "ip @ ''#'' @ to_string (int 0)"] p unfolding nodeKey_def by simp
qed

lemma refresh1_same_nodes:
  "virtualNodes s = virtualNodes t \<Longrightarrow> virtualNodeNum s = virtualNodeNum t \<Longrightarrow>
   virtualNodes (foldl AddServer s ips) = virtualNodes (foldl AddServer t ips)"
  by (induction ips arbitrary: s t) (simp_all add: AddServer_def)

lemma refresh1_same_owner:
  assumes "virtualNodeNum s = virtualNodeNum t"
  shows "GetServerIndex1 (RefreshIPList s ips) key = GetServerIndex1 (RefreshIPList t ips) key"
proof -
  have "virtualNodes (RefreshIPList s ips) = virtualNodes (RefreshIPList t ips)"
    unfolding RefreshIPList_def using assms by (intro refresh1_same_nodes) simp_all
  then show ?thesis by (simp add: GetServerIndex1_def Let_def)
qed

section \<open>The ring of backups\<close>

lemma iter_second_in: "it \<noteq> [] \<Longrightarrow> \<exists>v. iter_second it = Inr v \<and> v \<in> snd ` set it"
  by (cases it) (auto simp: iter_second_def)

lemma backup_of_server:
  assumes "serverNodes s \<noteq> []"
  shows "\<exists>m. GetBackUpServer s key = Inr m \<and> m \<in> snd ` set (serverNodes s)"
proof -
  let ?it = "upper_bound (serverNodes s) (FNVHash key)"
  have "snd ` set ?it \<subseteq> snd ` set (serverNodes s)" unfolding upper_bound_def by (auto dest: set_dropWhileD)
  then show ?thesis using iter_second_in [OF assms] iter_second_in [of ?it]
    by (cases "?it = []") (auto simp: GetBackUpServer_def Let_def)
qed

text \<open>
  A server stays a backup after it has left: of two servers, the second one is the backup of a key with the hash of the first,
  also after a refresh that leaves it out.
\<close>

lemma serverNodes_refresh:
  "map_wf (serverNodes s) \<Longrightarrow> map_wf (serverNodes (foldl AddServer s ips)) \<and> map_of (serverNodes s) \<subseteq>\<^sub>m map_of (serverNodes (foldl AddServer s ips))"
proof (induction ips arbitrary: s)
  case (Cons ip ips)
  from Cons.IH [of "AddServer s ip"] Cons.prems show ?case
    by (auto simp: AddServer_def map_of_insert map_le_def dom_def split: if_splits)
qed (simp add: map_le_def)

lemma stale_backup:
  assumes "c \<noteq> d"
  shows "GetBackUpServer (RefreshIPList (RefreshIPList (ConsistentHash_new n) [xs @ c # ys, xs @ d # ys]) [xs @ c # ys]) (xs @ c # ys)
    = Inr (xs @ d # ys)"
proof -
  have ne: "FNVHash (xs @ c # ys) \<noteq> FNVHash (xs @ d # ys)" using assms hash_one_char by (simp add: FNVHash_hash)
  show ?thesis
  proof (cases "FNVHash (xs @ c # ys) < FNVHash (xs @ d # ys)")
    case True
    then show ?thesis
      by (auto simp: GetBackUpServer_def RefreshIPList_def AddServer_def ConsistentHash_new_def map_insert_def upper_bound_def iter_second_def Let_def)
  next
    case False
    with ne show ?thesis
      by (auto simp: GetBackUpServer_def RefreshIPList_def AddServer_def ConsistentHash_new_def map_insert_def upper_bound_def iter_second_def Let_def)
  qed
qed

end
