(* ===== verification/Cache_Server1.thy ===== *)
theory Cache_Server1
  imports Sentinel_Lru Backup_Ring Socket_Tool
begin

text \<open>
  A cache server of the first version (cache_server.hpp, WriteRead.hpp, HeartBeat.hpp and cache_server.cpp of
  Project/DistributedCacheSystem/Cache Server): the cache of the keys it owns, the cache of the keys it backs up, and the
  two rings. A stored pair is passed on to the backup of its key; when the master announces a new list of servers the server
  hands over what it no longer owns, and when a server is lost the backups hand its keys to the new owners.
  The three copies of the directory differ in the address of the server only, which is a field of the state.
\<close>

section \<open>State and messages\<close>

record cache1 =
  curen_addr :: string
  c_LC :: lru1
  c_BK :: lru1
  c_ring :: con_hash1
  c_iplist :: "string list"
  c_master :: string
  request_count :: int
  rcv_cli :: int
  rcv_bk :: int

definition KEY_VALUE_REQUEST :: int where "KEY_VALUE_REQUEST = 0"
definition KEY_VALUE_RESPOND :: int where "KEY_VALUE_RESPOND = 1"
definition KEY_VALUE_RESPONDBK :: int where "KEY_VALUE_RESPONDBK = 11"
definition REFLESH_MASTER :: int where "REFLESH_MASTER = 9"
definition SHUTDOWN_CACHE1 :: int where "SHUTDOWN_CACHE1 = 6"
definition ADD_CACHE :: int where "ADD_CACHE = 7"
definition REFLESH_IP1 :: int where "REFLESH_IP1 = 10"

text \<open>
  What a server does to the world: an answer to a request on a descriptor, a descriptor closed, and a pair sent to another
  server, to be stored (\<open>Write_oth_ClientCache\<close>) or to be backed up (\<open>Write_bk_ClientCache\<close>).
\<close>

datatype kv_msg = Store_Msg string string | Backup_Msg string string

datatype kv_event = Answer int string string bool | Closed_Fd int | To_Server string kv_msg

text \<open>The members of a request that the server reads; a member that is missing or of another type cannot be converted.\<close>

record kv_info =
  i_type :: "int option"
  i_key :: "string option"
  i_value :: "string option"
  i_master :: "string option"

text \<open>The answers of \<open>socket\<close>, of \<open>connect\<close> to an address, and of \<open>Write\<close> of the message for a key to an address.\<close>

record kv_env =
  e_socket :: int
  e_connect :: "string \<Rightarrow> int"
  e_write :: "string \<Rightarrow> string \<Rightarrow> int"

definition member :: "'a option \<Rightarrow> 'a res" where
  "member m = (case m of None \<Rightarrow> Inl (Uncaught_Exception ''json'') | Some x \<Rightarrow> Inr x)"

text \<open>A colon switches between the address and the port.\<close>

fun ipport_loop :: "string \<Rightarrow> bool \<Rightarrow> string \<Rightarrow> string \<Rightarrow> string \<times> string" where
  "ipport_loop [] ip_order ip port_s = (ip, port_s)"
| "ipport_loop (c # cs) ip_order ip port_s =
     (if c = CHR '':'' then ipport_loop cs (\<not> ip_order) ip port_s
      else if ip_order then ipport_loop cs ip_order (ip @ [c]) port_s
      else ipport_loop cs ip_order ip (port_s @ [c]))"

definition get_ipport1 :: "string \<Rightarrow> ipport_pair res" where
  "get_ipport1 addr =
     (case ipport_loop addr True [] [] of (ip, port_s) \<Rightarrow> bind_res (stoi port_s) (\<lambda>p. Inr \<lparr>ip_port = p, ip_addr = ip\<rparr>))"

section \<open>Requests\<close>

definition kvrequest_handler :: "int \<Rightarrow> kv_info \<Rightarrow> cache1 \<Rightarrow> (kv_event list \<times> cache1) res" where
  "kvrequest_handler sockfd info c =
     bind_res (member (i_key info)) (\<lambda>key.
     bind_res (lru1_get True (c_LC c) key) (\<lambda>(value, lc).
     Inr ([Answer sockfd key value (value \<noteq> [])], c\<lparr>c_LC := lc\<rparr>)))"

text \<open>The copy for the backup; nothing is sent when the backup is this server or cannot be reached.\<close>

definition send_backup :: "kv_env \<Rightarrow> string \<Rightarrow> string \<Rightarrow> string \<Rightarrow> cache1 \<Rightarrow> kv_event list res" where
  "send_backup env addr key value c =
     (if addr \<noteq> [] \<and> addr \<noteq> curen_addr c then
        bind_res (get_ipport1 addr) (\<lambda>_.
        bind_res (Socket (e_socket env)) (\<lambda>_.
        Inr (if \<not> e_connect env addr < 0 \<and> e_write env addr key > 0 then [To_Server addr (Backup_Msg key value)] else [])))
      else Inr [])"

definition kvrespond_handler :: "kv_env \<Rightarrow> kv_info \<Rightarrow> cache1 \<Rightarrow> (kv_event list \<times> cache1) res" where
  "kvrespond_handler env info c =
     (let c1 = c\<lparr>request_count := request_count c + 1\<rparr> in
      if i_type info = Some KEY_VALUE_RESPONDBK then
        bind_res (member (i_key info)) (\<lambda>key. bind_res (member (i_value info)) (\<lambda>value.
        bind_res (lru1_put (c_BK c1) key value) (\<lambda>bk. Inr ([], c1\<lparr>rcv_bk := rcv_bk c1 + 1, c_BK := bk\<rparr>))))
      else
        bind_res (member (i_key info)) (\<lambda>key. bind_res (member (i_value info)) (\<lambda>value.
        bind_res (lru1_put (c_LC c1) key value) (\<lambda>lc.
        bind_res (GetBackUpServer (c_ring c1) key) (\<lambda>addr.
        bind_res (send_backup env addr key value c1) (\<lambda>evs. Inr (evs, c1\<lparr>rcv_cli := rcv_cli c1 + 1, c_LC := lc\<rparr>)))))))"

definition refleshmaster :: "kv_info \<Rightarrow> string res" where
  "refleshmaster info = member (i_master info)"

definition handle_info :: "kv_env \<Rightarrow> int \<Rightarrow> kv_info \<Rightarrow> cache1 \<Rightarrow> (kv_event list \<times> cache1) res" where
  "handle_info env sockfd info c =
     bind_res (member (i_type info)) (\<lambda>infotype.
     if infotype = KEY_VALUE_REQUEST then kvrequest_handler sockfd info c
     else if infotype = KEY_VALUE_RESPOND \<or> infotype = KEY_VALUE_RESPONDBK then kvrespond_handler env info c
     else if infotype = REFLESH_MASTER then bind_res (refleshmaster info) (\<lambda>m. Inr ([], c\<lparr>c_master := m\<rparr>))
     else Inr ([], c))"

text \<open>
  A task of the thread pool: one read, then the request. \<open>json\<close> is what the library makes of a text, \<open>buf\<close> the array before
  the read. A read that fails leaves the connection as it is.
\<close>

definition task_cfd ::
  "(string \<Rightarrow> kv_info option) \<Rightarrow> kv_env \<Rightarrow> read_answer list \<Rightarrow> char list \<Rightarrow> int \<Rightarrow> cache1 \<Rightarrow> (kv_event list \<times> cache1) res" where
  "task_cfd json env as buf sockfd c =
     bind_res (ReadOnce as buf) (\<lambda>(n, b).
     if n = 0 then Inr ([Closed_Fd sockfd], c)
     else if 0 < n then
       bind_res (cstr b 0) (\<lambda>text. case json text of None \<Rightarrow> Inr ([], c) | Some info \<Rightarrow> handle_info env sockfd info c)
     else Inr ([], c))"

section \<open>Handing over\<close>

text \<open>\<open>(*m)[addr].push_back(key)\<close>\<close>

definition push_key :: "(string \<times> string list) list \<Rightarrow> string \<Rightarrow> string \<Rightarrow> (string \<times> string list) list" where
  "push_key m addr key = AList.update addr ((case map_of m addr of None \<Rightarrow> [] | Some l \<Rightarrow> l) @ [key]) m"

fun push_keys :: "con_hash1 \<Rightarrow> string list \<Rightarrow> (string \<times> string list) list \<Rightarrow> (string \<times> string list) list res" where
  "push_keys ring [] m = Inr m"
| "push_keys ring (key # keys) m =
     bind_res (GetServerIndex1 ring key) (\<lambda>addr. push_keys ring keys (push_key m addr key))"

definition organize_data :: "con_hash1 \<Rightarrow> lru1 \<Rightarrow> (string \<times> string list) list res" where
  "organize_data ring lc = push_keys ring (map fst (dl_cache lc)) []"

text \<open>A write that returns 0 ends the loop.\<close>

fun sendout_data :: "kv_env \<Rightarrow> string \<Rightarrow> string list \<Rightarrow> lru1 \<Rightarrow> kv_event list res" where
  "sendout_data env addr [] lru = Inr []"
| "sendout_data env addr (key # keys) lru =
     bind_res (lru1_get False lru key) (\<lambda>(value, _).
     let n = e_write env addr key in
     if n = 0 then Inr []
     else bind_res (sendout_data env addr keys lru) (\<lambda>evs.
       Inr ((if n > 0 then [To_Server addr (Store_Msg key value)] else []) @ evs)))"

definition task_connectoth :: "kv_env \<Rightarrow> string \<Rightarrow> string list \<Rightarrow> lru1 \<Rightarrow> kv_event list res" where
  "task_connectoth env addr keys lru =
     bind_res (get_ipport1 addr) (\<lambda>_.
     bind_res (Socket (e_socket env)) (\<lambda>_.
     if e_connect env addr < 0 then Inr [] else sendout_data env addr keys lru))"

fun takeout_alldata :: "kv_env \<Rightarrow> string \<Rightarrow> (string \<times> string list) list \<Rightarrow> lru1 \<Rightarrow> kv_event list res" where
  "takeout_alldata env self [] lru = Inr []"
| "takeout_alldata env self ((addr, keys) # rest) lru =
     bind_res (if addr = self then Inr [] else task_connectoth env addr keys lru) (\<lambda>evs.
     bind_res (takeout_alldata env self rest lru) (\<lambda>evs'. Inr (evs @ evs')))"

text \<open>The new list, then the keys to their owners; the second component says whether the process ends afterwards.\<close>

definition doit_iplistchange :: "kv_env \<Rightarrow> bool \<Rightarrow> cache1 \<Rightarrow> (kv_event list \<times> bool \<times> cache1) res" where
  "doit_iplistchange env exit_flag c =
     (let c1 = c\<lparr>c_ring := RefreshIPList (c_ring c) (c_iplist c)\<rparr> in
      bind_res (organize_data (c_ring c1) (c_LC c1)) (\<lambda>m.
      bind_res (takeout_alldata env (curen_addr c1) m (c_LC c1)) (\<lambda>evs. Inr (evs, exit_flag, c1))))"

definition shutdown_handler :: "kv_env \<Rightarrow> string list \<Rightarrow> cache1 \<Rightarrow> (kv_event list \<times> bool \<times> cache1) res" where
  "shutdown_handler env iplist c = doit_iplistchange env True (c\<lparr>c_iplist := iplist\<rparr>)"

definition add_handler :: "kv_env \<Rightarrow> string list \<Rightarrow> cache1 \<Rightarrow> (kv_event list \<times> bool \<times> cache1) res" where
  "add_handler env iplist c = doit_iplistchange env False (c\<lparr>c_iplist := iplist\<rparr>)"

text \<open>The backed up keys whose owner is not in the new list.\<close>

fun lost_keys :: "con_hash1 \<Rightarrow> string list \<Rightarrow> string list \<Rightarrow> string list res" where
  "lost_keys ring ipnew [] = Inr []"
| "lost_keys ring ipnew (key # keys) =
     bind_res (GetServerIndex1 ring key) (\<lambda>addr.
     bind_res (lost_keys ring ipnew keys) (\<lambda>ks. Inr (if addr \<notin> set ipnew then key # ks else ks)))"

fun adopt :: "lru1 \<Rightarrow> string list \<Rightarrow> lru1 \<Rightarrow> lru1 res" where
  "adopt bk [] lc = Inr lc"
| "adopt bk (key # keys) lc =
     bind_res (lru1_get False bk key) (\<lambda>(value, _). bind_res (lru1_put lc key value) (\<lambda>lc1. adopt bk keys lc1))"

text \<open>\<open>cnt\<close> indexes the two hundred thread identifiers.\<close>

fun pass_on :: "kv_env \<Rightarrow> string \<Rightarrow> nat \<Rightarrow> (string \<times> string list) list \<Rightarrow> lru1 \<Rightarrow> lru1 \<Rightarrow> (kv_event list \<times> lru1) res" where
  "pass_on env self cnt [] bk lc = Inr ([], lc)"
| "pass_on env self cnt ((addr, keys) # rest) bk lc =
     (if addr = self then bind_res (adopt bk keys lc) (\<lambda>lc1. pass_on env self (Suc cnt) rest bk lc1)
      else if 200 \<le> cnt then Inl Out_Of_Bounds
      else
        bind_res (task_connectoth env addr keys bk) (\<lambda>evs.
        bind_res (pass_on env self (Suc cnt) rest bk lc) (\<lambda>(evs', lc1). Inr (evs @ evs', lc1))))"

definition reflesh_handler :: "kv_env \<Rightarrow> string list \<Rightarrow> cache1 \<Rightarrow> (kv_event list \<times> cache1) res" where
  "reflesh_handler env iplist c =
     bind_res (lost_keys (c_ring c) iplist (map fst (dl_cache (c_BK c)))) (\<lambda>key_send.
     let ring = RefreshIPList (c_ring c) iplist in
     bind_res (push_keys ring key_send []) (\<lambda>sendout_bk.
     bind_res (pass_on env (curen_addr c) 0 sendout_bk (c_BK c) (c_LC c)) (\<lambda>(evs, lc).
     Inr (evs, c\<lparr>c_iplist := iplist, c_ring := ring, c_LC := lc\<rparr>))))"

text \<open>A command of the master in the loop of \<open>heart_beat\<close>; after a shutdown command the loop is left.\<close>

definition heart_command :: "kv_env \<Rightarrow> int \<Rightarrow> string list \<Rightarrow> cache1 \<Rightarrow> (kv_event list \<times> bool \<times> cache1) res" where
  "heart_command env commond iplist c =
     (if commond = SHUTDOWN_CACHE1 then shutdown_handler env iplist c
      else if commond = ADD_CACHE then add_handler env iplist c
      else if commond = REFLESH_IP1 then bind_res (reflesh_handler env iplist c) (\<lambda>(evs, c1). Inr (evs, False, c1))
      else Inr ([], False, c))"

text \<open>The objects \<open>main\<close> makes.\<close>

definition cache1_start :: "string \<Rightarrow> cache1" where
  "cache1_start addr =
     \<lparr>curen_addr = addr, c_LC = LRUCache_new 100, c_BK = LRUCache_new 100,
      c_ring = RefreshIPList (ConsistentHash_new 100) [addr], c_iplist = [], c_master = ''127.0.0.1:7000'',
      request_count = 0, rcv_cli = 0, rcv_bk = 0\<rparr>"

end
