(* ===== verification/Cache_Failover.thy ===== *)
theory Cache_Failover
  imports Cache_Server1
begin

text \<open>
  The promise of the first version's cache servers: a stored pair is answered by its owner and kept by its backup,
  and when the owner is lost the backup brings the pair to the new owner, whatever other keys are moved with it.
\<close>

section \<open>Groups of keys\<close>

definition keys_of :: "(string \<times> string list) list \<Rightarrow> string \<Rightarrow> string list" where
  "keys_of m addr = (case map_of m addr of None \<Rightarrow> [] | Some l \<Rightarrow> l)"

lemma keys_of_push: "keys_of (push_key m addr key) a = keys_of m a @ (if a = addr then [key] else [])"
  by (simp add: keys_of_def push_key_def update_conv')

lemma keys_of_none: "a \<notin> fst ` set m \<Longrightarrow> keys_of m a = []"
  by (simp add: keys_of_def map_of_eq_None_iff [THEN iffD2])

lemma push_keys_groups:
  assumes "\<forall>k\<in>set keys. GetServerIndex1 ring k = Inr (own k)" and "distinct (map fst m)"
  shows "\<exists>m'. push_keys ring keys m = Inr m' \<and> distinct (map fst m') \<and> fst ` set m' = fst ` set m \<union> own ` set keys
    \<and> (\<forall>a. keys_of m' a = keys_of m a @ filter (\<lambda>k. own k = a) keys)"
  using assms
proof (induction keys arbitrary: m)
  case (Cons key keys)
  let ?m = "push_key m (own key) key"
  have "distinct (map fst ?m)" "fst ` set ?m = insert (own key) (fst ` set m)"
    using Cons.prems(2) by (auto simp: push_key_def distinct_update dom_update)
  then show ?case using Cons.IH [of ?m] Cons.prems(1) by (auto simp: keys_of_push)
qed simp

lemma lost_keys_filter:
  "\<forall>k\<in>set keys. GetServerIndex1 ring k = Inr (own k) \<Longrightarrow>
   lost_keys ring ips keys = Inr (filter (\<lambda>k. own k \<notin> set ips) keys)"
  by (induction keys) auto

section \<open>Sending and storing\<close>

text \<open>The servers \<open>A\<close> can be reached, whatever the others do.\<close>

definition reaches :: "kv_env \<Rightarrow> string set \<Rightarrow> bool" where
  "reaches env A \<longleftrightarrow> 0 \<le> e_socket env \<and> (\<forall>a\<in>A. 0 \<le> e_connect env a \<and> (\<forall>k. 0 < e_write env a k))"

definition value_in :: "entries \<Rightarrow> string \<Rightarrow> string" where
  "value_in ys k = fst (spec_get ys k)"

lemma sendout_all:
  "lru1_rel lru ys \<Longrightarrow> reaches env {addr} \<Longrightarrow>
   sendout_data env addr keys lru = Inr (map (\<lambda>k. To_Server addr (Store_Msg k (value_in ys k))) keys)"
proof (induction keys)
  case (Cons key keys)
  then have "e_write env addr key > 0" by (simp add: reaches_def)
  then show ?case using Cons by (simp add: lru1_peek value_in_def Let_def)
qed simp

definition puts :: "entries \<Rightarrow> string list \<Rightarrow> cache_op list" where
  "puts ys keys = map (\<lambda>k. Set_Op k (value_in ys k)) keys"

lemma adopt_puts:
  "lru1_rel bk ys \<Longrightarrow> run_ops (lru1_get True) lru1_put lc (puts ys keys) = bind_res (adopt bk keys lc) (\<lambda>t. Inr ([], t))"
proof (induction keys arbitrary: lc)
  case (Cons key keys)
  then show ?case by (cases "lru1_put lc key (value_in ys key)") (simp_all add: puts_def lru1_peek value_in_def)
qed (simp add: puts_def)

text \<open>A run of different keys that fits the capacity leaves each of them in the cache.\<close>

lemma run_ops_append:
  "run_ops get put s (ps @ qs) =
     bind_res (run_ops get put s ps) (\<lambda>(vs, t). bind_res (run_ops get put t qs) (\<lambda>(ws, u). Inr (vs @ ws, u)))"
proof (induction ps arbitrary: s)
  case Nil
  then show ?case by (cases "run_ops get put s qs") auto
next
  case (Cons p ps)
  show ?case
  proof (cases p)
    case (Get_Op k)
    then show ?thesis using Cons by (cases "get s k") (auto simp: bind_res_assoc split_def)
  next
    case (Set_Op k v)
    then show ?thesis using Cons by (cases "put s k v") auto
  qed
qed

lemma puts_kept:
  assumes st: "lru1_state lc xs" and d: "distinct keys" and k: "k \<in> set keys" and len: "length keys \<le> nat (dl_capacity lc)"
  shows "\<exists>lc' zs lc''. run_ops (lru1_get True) lru1_put lc (puts ys keys) = Inr ([], lc') \<and> lru1_state lc' zs
    \<and> lru1_get True lc' k = Inr (value_in ys k, lc'')"
proof -
  obtain pre post where ks: "keys = pre @ k # post" using k by (meson split_list)
  have sets: "fst (spec_run n zs (puts ys l)) = []" for n zs l by (induction l arbitrary: zs) (simp_all add: puts_def)
  obtain lc1 zs1 where one: "run_ops (lru1_get True) lru1_put lc (puts ys pre) = Inr ([], lc1)" "lru1_state lc1 zs1"
    "nat (dl_capacity lc1) = nat (dl_capacity lc)" using lru1.run_ok [OF st, of "puts ys pre"] sets by auto
  obtain lc' zs where all: "run_ops (lru1_get True) lru1_put lc (puts ys keys) = Inr ([], lc')" "lru1_state lc' zs"
    using lru1.run_ok [OF st, of "puts ys keys"] sets by auto
  have "op_key ` set (puts ys post) = set post" by (simp add: puts_def image_image)
  moreover have "card (set post - {k}) \<le> length post" by (rule order_trans [OF card_mono card_length]) auto
  ultimately have "card (op_key ` set (puts ys post) - {k}) \<le> length post" by simp
  then have c: "card (op_key ` set (puts ys post) - {k}) < nat (dl_capacity lc1)" using len ks one(3) by simp
  have n: "\<forall>v'. Set_Op k v' \<notin> set (puts ys post)" using d ks by (auto simp: puts_def)
  from lru1.survives [OF one(2) c n, of "value_in ys k"] obtain vs s' where
    run: "run_ops (lru1_get True) lru1_put lc1 (Set_Op k (value_in ys k) # puts ys post @ [Get_Op k]) = Inr (vs @ [value_in ys k], s')" by blast
  have "puts ys keys @ [Get_Op k] = puts ys pre @ Set_Op k (value_in ys k) # puts ys post @ [Get_Op k]" by (simp add: puts_def ks)
  then have "run_ops (lru1_get True) lru1_put lc (puts ys keys @ [Get_Op k]) = Inr (vs @ [value_in ys k], s')"
    using one(1) run by (simp add: run_ops_append)
  then have "lru1_get True lc' k = Inr (value_in ys k, s')" using all(1) by (auto simp: run_ops_append res_simps)
  then show ?thesis using all by blast
qed

section \<open>Passing on\<close>

definition store_events :: "entries \<Rightarrow> string \<Rightarrow> string \<times> string list \<Rightarrow> kv_event list" where
  "store_events ys self g = (if fst g = self then [] else map (\<lambda>k. To_Server (fst g) (Store_Msg k (value_in ys k))) (snd g))"

lemma store_events_simps [simp]:
  "store_events ys self (self, keys) = []"
  "addr \<noteq> self \<Longrightarrow> store_events ys self (addr, keys) = map (\<lambda>k. To_Server addr (Store_Msg k (value_in ys k))) keys"
  by (simp_all add: store_events_def)

lemma adopt_ok:
  assumes "lru1_rel bk ys" and "lru1_state lc xs"
  shows "\<exists>lc' zs. adopt bk keys lc = Inr lc' \<and> lru1_state lc' zs \<and> dl_capacity lc' = dl_capacity lc"
proof -
  obtain lc' where "run_ops (lru1_get True) lru1_put lc (puts ys keys) = Inr (fst (spec_run (nat (dl_capacity lc)) xs (puts ys keys)), lc')"
    "lru1_state lc' (snd (spec_run (nat (dl_capacity lc)) xs (puts ys keys)))" "nat (dl_capacity lc') = nat (dl_capacity lc)"
    using lru1.run_ok [OF assms(2), of "puts ys keys"] by blast
  moreover then have "dl_capacity lc' = dl_capacity lc" using assms(2) by (auto simp: lru1_state_def nat_eq_iff)
  ultimately show ?thesis using adopt_puts [OF assms(1), of lc keys] by (auto simp: res_simps)
qed

lemma connect_sends:
  assumes "lru1_rel bk ys" and "reaches env {addr}" and "get_ipport1 addr = Inr p"
  shows "task_connectoth env addr keys bk = Inr (map (\<lambda>k. To_Server addr (Store_Msg k (value_in ys k))) keys)"
proof -
  have "\<not> e_connect env addr < 0" "\<not> e_socket env < 0" using assms(2) by (simp_all add: reaches_def not_less)
  then show ?thesis using assms by (simp add: task_connectoth_def Socket_def sendout_all)
qed

lemma pass_on_ok:
  assumes "lru1_rel bk ys" and "\<forall>a\<in>fst ` set m - {self}. (\<exists>p. get_ipport1 a = Inr p) \<and> reaches env {a}" and "lru1_state lc xs"
    and "distinct (map fst m)" and "cnt + length m \<le> 200"
  shows "\<exists>lc'. pass_on env self cnt m bk lc = Inr (concat (map (store_events ys self) m), lc') \<and> adopt bk (keys_of m self) lc = Inr lc'"
  using assms(2-)
proof (induction m arbitrary: cnt lc xs)
  case (Cons g m)
  obtain addr keys where g: "g = (addr, keys)" by (cases g)
  show ?case
  proof (cases "addr = self")
    case True
    obtain lc1 zs where lc1: "adopt bk keys lc = Inr lc1" "lru1_state lc1 zs" using adopt_ok [OF assms(1) Cons.prems(2)] by blast
    have no: "keys_of m self = []" using Cons.prems(3) g True by (intro keys_of_none) simp
    from Cons.IH [of lc1 zs "Suc cnt"] Cons.prems lc1 obtain lc' where
      "pass_on env self (Suc cnt) m bk lc1 = Inr (concat (map (store_events ys self) m), lc')" "adopt bk (keys_of m self) lc1 = Inr lc'" by auto
    then show ?thesis using g True lc1 no by (simp add: keys_of_def)
  next
    case False
    then obtain p where p: "get_ipport1 addr = Inr p" "reaches env {addr}" using Cons.prems(1) g by auto
    from Cons.IH [of lc xs "Suc cnt"] Cons.prems obtain lc' where
      "pass_on env self (Suc cnt) m bk lc = Inr (concat (map (store_events ys self) m), lc')" "adopt bk (keys_of m self) lc = Inr lc'" by auto
    then show ?thesis using g False Cons.prems(4) connect_sends [OF assms(1) p(2,1), of keys] by (simp add: keys_of_def)
  qed
qed (simp add: keys_of_def)

text \<open>The messages for a server, in the order sent.\<close>

fun sent_to :: "string \<Rightarrow> kv_event list \<Rightarrow> kv_msg list" where
  "sent_to a [] = []"
| "sent_to a (To_Server b msg # evs) = (if b = a then msg # sent_to a evs else sent_to a evs)"
| "sent_to a (_ # evs) = sent_to a evs"

lemma sent_to_append [simp]: "sent_to a (xs @ ys) = sent_to a xs @ sent_to a ys"
proof (induction xs)
  case (Cons e xs)
  then show ?case by (cases e) auto
qed simp

lemma sent_to_map [simp]: "sent_to a (map (\<lambda>k. To_Server b (f k)) ks) = (if b = a then map f ks else [])"
  by (induction ks) auto

lemma sent_to_groups:
  assumes "a \<noteq> self" and "distinct (map fst m)"
  shows "sent_to a (concat (map (store_events ys self) m)) = map (\<lambda>k. Store_Msg k (value_in ys k)) (keys_of m a)"
  using assms(2)
proof (induction m)
  case (Cons g m)
  show ?case
  proof (cases "fst g = a")
    case True
    then have "keys_of m a = []" using Cons.prems by (intro keys_of_none) auto
    then show ?thesis using Cons True assms(1) by (cases g) (auto simp: keys_of_def store_events_def [of _ _ g])
  next
    case False
    then have "sent_to a (store_events ys self g) = []" by (simp add: store_events_def)
    then show ?thesis using Cons False by (cases g) (simp add: keys_of_def)
  qed
qed (simp add: keys_of_def)

section \<open>Receiving\<close>

fun msg_info :: "kv_msg \<Rightarrow> kv_info" where
  "msg_info (Store_Msg k v) = \<lparr>i_type = Some KEY_VALUE_RESPOND, i_key = Some k, i_value = Some v, i_master = None\<rparr>"
| "msg_info (Backup_Msg k v) = \<lparr>i_type = Some KEY_VALUE_RESPONDBK, i_key = Some k, i_value = Some v, i_master = None\<rparr>"

definition get_info :: "string \<Rightarrow> kv_info" where
  "get_info k = \<lparr>i_type = Some KEY_VALUE_REQUEST, i_key = Some k, i_value = None, i_master = None\<rparr>"

fun deliver :: "kv_env \<Rightarrow> cache1 \<Rightarrow> kv_msg list \<Rightarrow> cache1 res" where
  "deliver env d [] = Inr d"
| "deliver env d (msg # msgs) = bind_res (handle_info env 0 (msg_info msg) d) (\<lambda>(_, d1). deliver env d1 msgs)"

text \<open>The server has a backup ring of well-formed addresses.\<close>

definition backups_ok :: "cache1 \<Rightarrow> bool" where
  "backups_ok d \<longleftrightarrow> serverNodes (c_ring d) \<noteq> [] \<and> (\<forall>a\<in>snd ` set (serverNodes (c_ring d)). \<exists>p. get_ipport1 a = Inr p)"

lemmas kv_types = KEY_VALUE_REQUEST_def KEY_VALUE_RESPOND_def KEY_VALUE_RESPONDBK_def REFLESH_MASTER_def

lemma handle_get:
  assumes "lru1_get True (c_LC d) k = Inr (v, lc)"
  shows "handle_info env fd (get_info k) d = Inr ([Answer fd k v (v \<noteq> [])], d\<lparr>c_LC := lc\<rparr>)"
  using assms by (simp add: handle_info_def get_info_def member_def kvrequest_handler_def)

lemma handle_store:
  assumes "lru1_put (c_LC d) k v = Inr lc" and "backups_ok d" and "0 \<le> e_socket env"
  shows "\<exists>b d'. GetBackUpServer (c_ring d) k = Inr b
    \<and> handle_info env fd (msg_info (Store_Msg k v)) d =
        Inr (if b \<noteq> [] \<and> b \<noteq> curen_addr d \<and> 0 \<le> e_connect env b \<and> 0 < e_write env b k then [To_Server b (Backup_Msg k v)] else [], d')
    \<and> c_LC d' = lc \<and> c_BK d' = c_BK d \<and> c_ring d' = c_ring d \<and> curen_addr d' = curen_addr d"
proof -
  obtain b p where b: "GetBackUpServer (c_ring d) k = Inr b" and p: "get_ipport1 b = Inr p"
    using assms(2) backup_of_server [of "c_ring d" k] by (auto simp: backups_ok_def)
  then show ?thesis using assms(1,3)
    by (simp add: not_less handle_info_def member_def kvrespond_handler_def Let_def send_backup_def Socket_def kv_types)
qed


lemma deliver_puts:
  assumes "0 \<le> e_socket env" and "run_ops (lru1_get True) lru1_put (c_LC d) (puts ys keys) = Inr ([], lc)" and "backups_ok d"
  shows "\<exists>d'. deliver env d (map (\<lambda>k. Store_Msg k (value_in ys k)) keys) = Inr d' \<and> c_LC d' = lc"
  using assms(2,3)
proof (induction keys arbitrary: d)
  case (Cons k keys)
  then obtain lc1 where lc1: "lru1_put (c_LC d) k (value_in ys k) = Inr lc1"
    "run_ops (lru1_get True) lru1_put lc1 (puts ys keys) = Inr ([], lc)" by (auto simp: puts_def res_simps)
  from handle_store [OF lc1(1) Cons.prems(2) assms(1), of 0] obtain evs d1 where
    d1: "handle_info env 0 (msg_info (Store_Msg k (value_in ys k))) d = Inr (evs, d1)" "c_LC d1 = lc1" "c_ring d1 = c_ring d" by blast
  then have "backups_ok d1" using Cons.prems(2) by (simp add: backups_ok_def)
  with Cons.IH [of d1] d1 lc1(2) show ?case by simp
qed (simp add: puts_def)

section \<open>Properties\<close>



lemma cached_keys:
  assumes "lru1_state s ys"
  shows "distinct (map fst (dl_cache s))" and "fst ` set (dl_cache s) = fst ` set ys" and "length (dl_cache s) \<le> nat (dl_capacity s)"
proof -
  obtain as where as: "dl_ok s as" "ys = dl_entries (dl_heap s) as" using assms by (auto simp: lru1_state_def lru1_rel_def)
  show d: "distinct (map fst (dl_cache s))" using as(1) by (simp add: dl_ok_def)
  show e: "fst ` set (dl_cache s) = fst ` set ys" using dl_ok_keys [OF as(1)] as(2) by simp
  have "length (map fst (dl_cache s)) = card (fst ` set ys)" using distinct_card [OF d] e by simp
  also have "\<dots> \<le> length ys" by (metis card_length length_map set_map)
  finally show "length (dl_cache s) \<le> nat (dl_capacity s)" using assms by (auto simp: lru1_state_def)
qed

lemma groups_fit:
  assumes "distinct (map fst m)" and "fst ` set m \<subseteq> set ips"
  shows "length m \<le> length ips"
proof -
  have "length m = card (fst ` set m)" using distinct_card [OF assms(1)] by simp
  also have "\<dots> \<le> card (set ips)" using assms(2) by (intro card_mono) auto
  finally show ?thesis using card_length [of ips] by simp
qed

text \<open>What \<open>reflesh_handler\<close> does: the keys it backs up for lost servers, grouped by their new owners, in their order in the map.\<close>

lemma reflesh_groups:
  assumes bk: "lru1_state (c_BK b) ys" and lc: "lru1_state (c_LC b) xs"
    and ring: "ring1_good (c_ring b)" "ring1_points (c_ring b) \<noteq> Map.empty" "0 < virtualNodeNum (c_ring b)"
    and ips: "ips \<noteq> []" "length ips \<le> 200" "\<forall>a\<in>set ips. \<exists>p. get_ipport1 a = Inr p" and env: "reaches env (set ips - {curen_addr b})"
    and own: "\<And>k. GetServerIndex1 (c_ring b) k = Inr (own k)"
    and new: "\<And>k. GetServerIndex1 (RefreshIPList (c_ring b) ips) k = Inr (new k)"
  defines "moved \<equiv> (\<lambda>a. filter (\<lambda>k. new k = a) (filter (\<lambda>k. own k \<notin> set ips) (map fst (dl_cache (c_BK b)))))"
  shows "\<exists>evs lc'. reflesh_handler env ips b = Inr (evs, b\<lparr>c_iplist := ips, c_ring := RefreshIPList (c_ring b) ips, c_LC := lc'\<rparr>)
    \<and> run_ops (lru1_get True) lru1_put (c_LC b) (puts ys (moved (curen_addr b))) = Inr ([], lc')
    \<and> (\<forall>a. a \<noteq> curen_addr b \<longrightarrow> sent_to a evs = map (\<lambda>k. Store_Msg k (value_in ys k)) (moved a))"
proof -
  let ?keys = "filter (\<lambda>k. own k \<notin> set ips) (map fst (dl_cache (c_BK b)))"
  let ?ring = "RefreshIPList (c_ring b) ips"
  have rel: "lru1_rel (c_BK b) ys" using bk by (simp add: lru1_state_def)
  have lost: "lost_keys (c_ring b) ips (map fst (dl_cache (c_BK b))) = Inr ?keys" using own by (intro lost_keys_filter) simp
  have ok: "new k \<in> set ips" for k using refreshed_owner1 [OF ips(1) ring(3), of k] new by auto
  obtain m where m: "push_keys ?ring ?keys [] = Inr m" "distinct (map fst m)" "fst ` set m = new ` set ?keys" "\<And>a. keys_of m a = moved a"
    using push_keys_groups [of ?keys ?ring new "[]"] new by (auto simp: keys_of_def moved_def)
  then have sub: "fst ` set m \<subseteq> set ips" using ok by auto
  have "\<forall>a\<in>fst ` set m - {curen_addr b}. (\<exists>p. get_ipport1 a = Inr p) \<and> reaches env {a}"
    using sub ips(3) env by (auto simp: reaches_def)
  moreover have "0 + length m \<le> 200" using groups_fit [OF m(2) sub] ips(2) by simp
  ultimately obtain lc' where p: "pass_on env (curen_addr b) 0 m (c_BK b) (c_LC b) = Inr (concat (map (store_events ys (curen_addr b)) m), lc')"
    "adopt (c_BK b) (keys_of m (curen_addr b)) (c_LC b) = Inr lc'" using pass_on_ok [OF rel _ lc m(2)] by blast
  have "reflesh_handler env ips b = Inr (concat (map (store_events ys (curen_addr b)) m), b\<lparr>c_iplist := ips, c_ring := ?ring, c_LC := lc'\<rparr>)"
    using lost m(1) p(1) by (simp add: reflesh_handler_def Let_def)
  moreover have "run_ops (lru1_get True) lru1_put (c_LC b) (puts ys (moved (curen_addr b))) = Inr ([], lc')"
    using adopt_puts [OF rel, of "c_LC b" "moved (curen_addr b)"] p(2) m(4) by simp
  ultimately show ?thesis using sent_to_groups [OF _ m(2), of _ "curen_addr b" ys] m(4) by auto
qed

text \<open>
  When the master announces a list without the owner of a key, a server that has the key among its backups
  brings its value to the new owner: to its own cache if it is the new owner, and by a message otherwise. After all the
  messages for that server have been handled, in order, a request for the key is answered with the value, for every cache
  at least as large as the one of the backups and however full it is.
\<close>

lemma takes_over:
  assumes bk: "lru1_state (c_BK b) ys" and lc: "lru1_state (c_LC b) xs" and cap: "dl_capacity (c_BK b) \<le> dl_capacity (c_LC b)"
    and k: "map_of ys k = Some v"
    and ring: "ring1_good (c_ring b)" "ring1_points (c_ring b) \<noteq> Map.empty" "0 < virtualNodeNum (c_ring b)"
    and lost: "GetServerIndex1 (c_ring b) k = Inr old" "old \<notin> set ips"
    and ips: "ips \<noteq> []" "length ips \<le> 200" "\<forall>a\<in>set ips. \<exists>p. get_ipport1 a = Inr p" and env: "reaches env (set ips - {curen_addr b})"
  shows "\<exists>evs b1 n. reflesh_handler env ips b = Inr (evs, b1) \<and> GetServerIndex1 (c_ring b1) k = Inr n \<and> n \<in> set ips
    \<and> (n = curen_addr b \<longrightarrow> (\<exists>b2. handle_info env fd (get_info k) b1 = Inr ([Answer fd k v (v \<noteq> [])], b2)))
    \<and> (n \<noteq> curen_addr b \<longrightarrow> (\<forall>d zs. lru1_state (c_LC d) zs \<longrightarrow> dl_capacity (c_BK b) \<le> dl_capacity (c_LC d) \<longrightarrow> backups_ok d \<longrightarrow>
         (\<exists>d1 d2. deliver env d (sent_to n evs) = Inr d1 \<and> handle_info env fd (get_info k) d1 = Inr ([Answer fd k v (v \<noteq> [])], d2))))"
proof -
  define own where "own = (\<lambda>k. projr (GetServerIndex1 (c_ring b) k))"
  define new where "new = (\<lambda>k. projr (GetServerIndex1 (RefreshIPList (c_ring b) ips) k))"
  have own: "GetServerIndex1 (c_ring b) k = Inr (own k)" for k using ring1.locate_owner [OF ring(1,2), of k] by (auto simp: own_def)
  have new: "GetServerIndex1 (RefreshIPList (c_ring b) ips) k = Inr (new k)" "new k \<in> set ips" for k
    using refreshed_owner1 [OF ips(1) ring(3), of k] by (auto simp: new_def)
  let ?g = "\<lambda>a. filter (\<lambda>k. new k = a) (filter (\<lambda>k. own k \<notin> set ips) (map fst (dl_cache (c_BK b))))"
  note ck = cached_keys [OF bk]
  have g: "distinct (?g a)" "length (?g a) \<le> nat (dl_capacity (c_BK b))" for a
    using ck(1) order_trans [OF length_filter_le ck(3) [folded length_map [of fst]]] by (auto simp del: filter_map)
  have "k \<in> fst ` set (dl_cache (c_BK b))" using k ck(2) by (metis domI dom_map_of_conv_image_fst)
  then have kg: "k \<in> set (?g (new k))" using lost own [of k] by auto
  have v: "value_in ys k = v" using k by (simp add: value_in_def spec_get_def)
  obtain evs lc' where r: "reflesh_handler env ips b = Inr (evs, b\<lparr>c_iplist := ips, c_ring := RefreshIPList (c_ring b) ips, c_LC := lc'\<rparr>)"
    "run_ops (lru1_get True) lru1_put (c_LC b) (puts ys (?g (curen_addr b))) = Inr ([], lc')"
    "\<forall>a. a \<noteq> curen_addr b \<longrightarrow> sent_to a evs = map (\<lambda>k. Store_Msg k (value_in ys k)) (?g a)"
    using reflesh_groups [OF bk lc ring ips env own new(1)] by blast
  have stored: "\<exists>t. lru1_get True s2 k = Inr (v, t)"
    if "lru1_state s1 zs" "dl_capacity (c_BK b) \<le> dl_capacity s1" "run_ops (lru1_get True) lru1_put s1 (puts ys (?g (new k))) = Inr ([], s2)"
    for s1 s2 zs
    using puts_kept [OF that(1) g(1) kg, of ys] g(2) [of "new k"] that(2,3) v by fastforce
  have here: "\<exists>b2. handle_info env fd (get_info k) (b\<lparr>c_iplist := ips, c_ring := RefreshIPList (c_ring b) ips, c_LC := lc'\<rparr>)
      = Inr ([Answer fd k v (v \<noteq> [])], b2)" if "new k = curen_addr b"
    using stored [OF lc cap, of lc'] r(2) that handle_get by fastforce
  have there: "\<exists>d1 d2. deliver env d (sent_to (new k) evs) = Inr d1 \<and> handle_info env fd (get_info k) d1 = Inr ([Answer fd k v (v \<noteq> [])], d2)"
    if d: "new k \<noteq> curen_addr b" "lru1_state (c_LC d) zs" "dl_capacity (c_BK b) \<le> dl_capacity (c_LC d)" "backups_ok d" for d zs
  proof -
    obtain s2 where s2: "run_ops (lru1_get True) lru1_put (c_LC d) (puts ys (?g (new k))) = Inr ([], s2)"
      using puts_kept [OF d(2) g(1) kg, of ys] g(2) [of "new k"] d(3) by fastforce
    obtain d1 where "deliver env d (sent_to (new k) evs) = Inr d1" "c_LC d1 = s2" using deliver_puts [OF _ s2 d(4)] env r(3) d(1) by (auto simp: reaches_def)
    then show ?thesis using stored [OF d(2,3) s2] handle_get by blast
  qed
  show ?thesis using r(1) new [of k] here there
    by (intro exI [of _ evs] exI [of _ "b\<lparr>c_iplist := ips, c_ring := RefreshIPList (c_ring b) ips, c_LC := lc'\<rparr>"] exI [of _ "new k"]) auto
qed

text \<open>A list that has not changed: nothing is lost, nothing is sent, and every key keeps its owner.\<close>

lemma nodes_of_adding:
  "virtualNodes t = virtualNodes s \<Longrightarrow> virtualNodeNum t = virtualNodeNum s \<Longrightarrow>
   virtualNodes (foldl AddServer t ips) = virtualNodes (foldl AddServer s ips)"
proof (induction ips arbitrary: s t)
  case (Cons ip ips)
  show ?case unfolding foldl.simps by (rule Cons.IH) (simp_all add: AddServer_def Cons.prems)
qed simp

lemma refresh_again: "GetServerIndex1 (RefreshIPList (RefreshIPList r ips) ips) k = GetServerIndex1 (RefreshIPList r ips) k"
proof -
  have "virtualNodeNum (foldl AddServer s ips) = virtualNodeNum s" for s by (induction ips arbitrary: s) (simp_all add: AddServer_def)
  then have "virtualNodes (RefreshIPList (RefreshIPList r ips) ips) = virtualNodes (RefreshIPList r ips)"
    unfolding RefreshIPList_def by (intro nodes_of_adding) simp_all
  then show ?thesis by (simp add: GetServerIndex1_def Let_def)
qed

lemma reflesh_unchanged:
  assumes "c_ring b = RefreshIPList r ips" and "ips \<noteq> []" and "0 < virtualNodeNum r"
  shows "\<exists>b1. reflesh_handler env ips b = Inr ([], b1) \<and> (\<forall>k. GetServerIndex1 (c_ring b1) k = GetServerIndex1 (c_ring b) k)"
proof -
  obtain own where own: "\<forall>k. own k \<in> set ips \<and> GetServerIndex1 (c_ring b) k = Inr (own k)"
    using refreshed_owner1 [OF assms(2,3)] assms(1) by (metis bex_imageD image_ident)
  then have "lost_keys (c_ring b) ips (map fst (dl_cache (c_BK b))) = Inr []"
    using lost_keys_filter [of "map fst (dl_cache (c_BK b))" "c_ring b" own ips] by (simp add: filter_empty_conv)
  then show ?thesis using refresh_again [of r ips] assms(1) by (simp add: reflesh_handler_def Let_def)
qed

section \<open>Examples\<close>

definition example_bk :: "string \<Rightarrow> lru1" where
  "example_bk k = (case lru1_put (LRUCache_new 3) k ''v'' of Inr s \<Rightarrow> s | Inl _ \<Rightarrow> LRUCache_new 3)"

definition example_server :: "string \<Rightarrow> lru1 \<Rightarrow> string list \<Rightarrow> cache1" where
  "example_server addr bk ips =
     (cache1_start addr)\<lparr>c_LC := LRUCache_new 3, c_BK := bk, c_ring := RefreshIPList (ConsistentHash_new 2) ips\<rparr>"

lemma example_simps [simp]:
  "c_LC (example_server addr bk ips) = LRUCache_new 3" "c_BK (example_server addr bk ips) = bk" "curen_addr (example_server addr bk ips) = addr"
  "c_ring (example_server addr bk ips) = RefreshIPList (ConsistentHash_new 2) ips"
  by (simp_all add: example_server_def cache1_start_def)

lemma example_state [simp]: "lru1_state (LRUCache_new 3) []" "dl_capacity (LRUCache_new 3) = 3"
  using lru1_new_state [of 3] by (simp_all add: LRUCache_new_def INT_MAX_def)

lemma example_bk_state: "lru1_state (example_bk k) [(k, ''v'')]" "dl_capacity (example_bk k) = 3"
proof -
  obtain s where s: "lru1_put (LRUCache_new 3) k ''v'' = Inr s" "lru1_state s (spec_set 3 [] k ''v'')" "nat (dl_capacity s) = 3"
    using lru1.put_ok [OF example_state(1), of k "''v''"] by auto
  then show "lru1_state (example_bk k) [(k, ''v'')]" "dl_capacity (example_bk k) = 3" by (simp_all add: example_bk_def spec_set_def)
qed

text \<open>A network in which the server at the address \<open>gone\<close> refuses connections.\<close>

definition refusing_env :: "string \<Rightarrow> kv_env" where
  "refusing_env gone = \<lparr>e_socket = 3, e_connect = (\<lambda>a. if a = gone then -1 else 0), e_write = (\<lambda>a k. if a = gone then -1 else 1)\<rparr>"

lemma refusing_reaches: "gone \<notin> A \<Longrightarrow> reaches (refusing_env gone) A"
  by (auto simp: reaches_def refusing_env_def)



end
