(* ===== verification/Cache_Loop.thy ===== *)
theory Cache_Loop
  imports Cache_Server1
begin

text \<open>
  The loops of a cache server of the first version: the event loop, which hands ready descriptors to the thread pool through one shared
  argument (WriteRead.hpp, cache_server.cpp), and the heartbeat, which reports to the master and carries out its commands (HeartBeat.hpp).
\<close>

section \<open>Events and tasks\<close>

datatype task1 = Task_Listen | Task_Cfd

text \<open>
  \<open>slot_sockfd\<close> is \<open>task_arg.sockfd\<close>, not set before the first event; \<open>el_served\<close> records the descriptors that tasks have copied from it. The tasks are
  the queue of the pool.
\<close>

record event_loop1 =
  el_listenfd :: int
  slot_sockfd :: "int option"
  el_num :: int
  el_tasks :: "task1 list"
  el_registered :: "int list"
  el_served :: "int list"

definition WR_listen :: "int \<Rightarrow> int \<Rightarrow> int \<Rightarrow> int \<Rightarrow> event_loop1 res" where
  "WR_listen listenfd bound listened efd =
     bind_res (Socket listenfd) (\<lambda>fd. bind_res (Bind bound) (\<lambda>_. bind_res (Listen listened) (\<lambda>_. bind_res (Epoll_create efd) (\<lambda>_.
     Inr \<lparr>el_listenfd = fd, slot_sockfd = None, el_num = 0, el_tasks = [], el_registered = [fd], el_served = []\<rparr>))))"

definition WR_listenHandler :: "event_loop1 \<Rightarrow> event_loop1" where
  "WR_listenHandler s = s\<lparr>el_num := el_num s + 1, el_tasks := el_tasks s @ [Task_Listen]\<rparr>"

definition WR_cfdHandler :: "int \<Rightarrow> event_loop1 \<Rightarrow> event_loop1" where
  "WR_cfdHandler fd s = s\<lparr>slot_sockfd := Some fd, el_tasks := el_tasks s @ [Task_Cfd]\<rparr>"

definition on_ready :: "int \<Rightarrow> event_loop1 \<Rightarrow> event_loop1" where
  "on_ready fd s = (if fd = el_listenfd s then WR_listenHandler s else WR_cfdHandler fd s)"

definition ready_round :: "int list \<Rightarrow> event_loop1 \<Rightarrow> event_loop1" where
  "ready_round fds s = fold on_ready fds s"

fun Accept1 :: "(int \<times> errno) list \<Rightarrow> int res" where
  "Accept1 [] = Inl No_Return"
| "Accept1 ((n, e) # as) =
     (if 0 \<le> n then Inr n else if e = ECONNABORTED \<or> e = EINTR then Accept1 as else perr_exit)"

text \<open>A worker takes the first task. \<open>Epoll_ctl\<close> tries four times and does not report a failure; the answers are given.\<close>

definition task_listen :: "(int \<times> errno) list \<Rightarrow> int list \<Rightarrow> event_loop1 \<Rightarrow> event_loop1 res" where
  "task_listen accepts ctls s =
     bind_res (Accept1 accepts) (\<lambda>connfd.
     Inr (if \<exists>r\<in>set (take 4 ctls). 0 \<le> r then s\<lparr>el_registered := el_registered s @ [connfd]\<rparr> else s))"

definition Task_putget :: "event_loop1 \<Rightarrow> (int \<times> event_loop1) res" where
  "Task_putget s = (case slot_sockfd s of None \<Rightarrow> Inl Uninit_Read | Some fd \<Rightarrow> Inr (fd, s\<lparr>el_served := el_served s @ [fd]\<rparr>))"

definition worker_task :: "(int \<times> errno) list \<Rightarrow> int list \<Rightarrow> event_loop1 \<Rightarrow> event_loop1 res" where
  "worker_task accepts ctls s =
     (case el_tasks s of [] \<Rightarrow> Inr s
      | Task_Listen # ts \<Rightarrow> task_listen accepts ctls (s\<lparr>el_tasks := ts\<rparr>)
      | Task_Cfd # ts \<Rightarrow> bind_res (Task_putget (s\<lparr>el_tasks := ts\<rparr>)) (\<lambda>(fd, s1). Inr s1))"

section \<open>Heartbeat\<close>

text \<open>Each attempt has the answers of \<open>socket\<close> and \<open>connect\<close>; the attempts go on until one succeeds. The rest of the answers is returned.\<close>

fun heartbeat_connect :: "string \<Rightarrow> (int \<times> int) list \<Rightarrow> (int \<times> (int \<times> int) list) res" where
  "heartbeat_connect master [] = Inl No_Return"
| "heartbeat_connect master ((s, c) # as) =
     bind_res (get_ipport1 master) (\<lambda>_. bind_res (Socket_connect_info s c) (\<lambda>info_con.
     if conn_n info_con < 0 then heartbeat_connect master as else Inr (cfd info_con, as)))"

text \<open>The descriptor and the connection attempts still to come.\<close>

definition heartbeat_send :: "string \<Rightarrow> (int \<times> errno) list \<Rightarrow> int \<times> (int \<times> int) list \<Rightarrow> (int \<times> (int \<times> int) list) res" where
  "heartbeat_send master writes h =
     bind_res (Write writes) (\<lambda>n. if n < 0 then heartbeat_connect master (snd h) else Inr h)"

text \<open>
  \<open>json\<close> gives the type of a text, if it is a number, and its list of servers, \<open>None\<close> for a text that is not accepted; a list of answers is given for
  every read. At the end of the stream the connection is made again and the read repeated. The answer \<open>None\<close> is \<open>-1\<close>.
\<close>

fun is_anycommond ::
  "(string \<Rightarrow> (int option \<times> string list) option) \<Rightarrow> string \<Rightarrow> read_answer list list \<Rightarrow> char list \<Rightarrow> int \<times> (int \<times> int) list \<Rightarrow>
   ((int \<times> string list) option \<times> char list \<times> int \<times> (int \<times> int) list) res" where
  "is_anycommond json master [] buf h = Inl No_Return"
| "is_anycommond json master (as # reads) buf h =
     bind_res (Unblock_read_net as buf) (\<lambda>(m, b).
     if 0 < m then
       bind_res (cstr b 0) (\<lambda>t.
       case json t of None \<Rightarrow> Inr (None, b, h) | Some (ty, iplist) \<Rightarrow> bind_res (member ty) (\<lambda>y. Inr (Some (y, iplist), b, h)))
     else if m = 0 then bind_res (heartbeat_connect master (snd h)) (\<lambda>h1. is_anycommond json master reads b h1)
     else Inr (None, b, h))"

text \<open>One turn of \<open>heart_beat\<close>.\<close>

definition heart_turn ::
  "(string \<Rightarrow> (int option \<times> string list) option) \<Rightarrow> kv_env \<Rightarrow> (int \<times> errno) list \<Rightarrow> read_answer list list \<Rightarrow> char list \<Rightarrow> int \<times> (int \<times> int) list \<Rightarrow>
   cache1 \<Rightarrow> (kv_event list \<times> bool \<times> cache1) res" where
  "heart_turn json env writes reads buf h c =
     bind_res (heartbeat_send (c_master c) writes h) (\<lambda>h1.
     bind_res (is_anycommond json (c_master c) reads buf h1) (\<lambda>(commond, b, h2).
     case commond of None \<Rightarrow> Inr ([], False, c) | Some (ty, iplist) \<Rightarrow> heart_command env ty iplist c))"

section \<open>The shared argument\<close>

text \<open>Workers take tasks until the queue is empty; only tasks of clients are in it.\<close>

fun run_tasks :: "nat \<Rightarrow> event_loop1 \<Rightarrow> event_loop1 res" where
  "run_tasks 0 s = Inr s"
| "run_tasks (Suc n) s = bind_res (worker_task [] [] s) (run_tasks n)"

lemma run_same_slot:
  "el_tasks s = replicate n Task_Cfd \<Longrightarrow> slot_sockfd s = Some fd \<Longrightarrow>
   run_tasks n s = Inr (s\<lparr>el_tasks := [], el_served := el_served s @ replicate n fd\<rparr>)"
proof (induction n arbitrary: s)
  case (Suc n)
  then show ?case using Suc.IH [of "s\<lparr>el_tasks := replicate n Task_Cfd, el_served := el_served s @ [fd]\<rparr>"]
    by (simp add: worker_task_def Task_putget_def)
qed simp

lemma ready_clients:
  "el_listenfd s \<notin> set fds \<Longrightarrow> fds \<noteq> [] \<Longrightarrow>
   ready_round fds s = s\<lparr>slot_sockfd := Some (last fds), el_tasks := el_tasks s @ replicate (length fds) Task_Cfd\<rparr>"
proof (induction fds arbitrary: s)
  case (Cons fd fds)
  let ?s = "WR_cfdHandler fd s"
  have one: "on_ready fd s = ?s" using Cons.prems by (simp add: on_ready_def)
  show ?case
  proof (cases "fds = []")
    case False
    then show ?thesis using Cons.IH [of ?s] Cons.prems one by (simp add: ready_round_def WR_cfdHandler_def replicate_append_same)
  qed (use one in \<open>simp add: ready_round_def WR_cfdHandler_def\<close>)
qed simp

text \<open>
  When one wait reports several clients and no worker runs before the round ends, every task serves the last of them and the
  others are not read; when the worker runs before the next event, each is served.
\<close>

lemma slot_overwritten:
  assumes "el_listenfd s \<notin> set fds" and "fds \<noteq> []" and "el_tasks s = []"
  shows "\<exists>s'. run_tasks (length fds) (ready_round fds s) = Inr s' \<and> el_served s' = el_served s @ replicate (length fds) (last fds)"
  using run_same_slot [of "ready_round fds s" "length fds" "last fds"] ready_clients [OF assms(1,2)] assms(3) by simp

fun in_turn :: "int list \<Rightarrow> event_loop1 \<Rightarrow> event_loop1 res" where
  "in_turn [] s = Inr s"
| "in_turn (fd # fds) s = bind_res (worker_task [] [] (on_ready fd s)) (in_turn fds)"

lemma served_in_turn:
  "el_listenfd s \<notin> set fds \<Longrightarrow> el_tasks s = [] \<Longrightarrow> \<exists>s'. in_turn fds s = Inr s' \<and> el_served s' = el_served s @ fds"
proof (induction fds arbitrary: s)
  case (Cons fd fds)
  let ?s = "s\<lparr>slot_sockfd := Some fd, el_tasks := [], el_served := el_served s @ [fd]\<rparr>"
  have "worker_task [] [] (on_ready fd s) = Inr ?s"
    using Cons.prems by (simp add: on_ready_def WR_cfdHandler_def worker_task_def Task_putget_def)
  then show ?case using Cons.IH [of ?s] Cons.prems by simp
qed simp

section \<open>Commands\<close>

text \<open>A command that arrives in any pieces that fit the array is carried out.\<close>

lemma heart_turn_command:
  assumes "\<forall>bs\<in>set chunks. bs \<noteq> [] \<and> length bs \<le> length buf" and "message chunks \<noteq> []" and "length (message chunks) < length buf"
    and "json (message chunks) = Some (Some ty, ips)" and "0 \<le> n"
  shows "heart_turn json env [(n, w)] [map (\<lambda>bs. (Some bs, EAGAIN)) chunks @ [(None, EAGAIN)]] buf h c = heart_command env ty ips c"
proof -
  from unblock_loop_spec [OF assms(1), of "(None, EAGAIN)" EAGAIN "\<lambda>_. EAGAIN" False "[]"] obtain b where
    b: "unblock_loop (map (\<lambda>bs. (Some bs, EAGAIN)) chunks @ [(None, EAGAIN)]) False [] buf = Inr (-1, message chunks, b)"
    "length b = length buf" by auto
  have nn: "NUL \<notin> set (message chunks)" by (auto simp: message_def dest: set_takeWhileD)
  let ?b = "message chunks @ NUL # drop (length (message chunks) + 1) b"
  have "cstr ?b 0 = Inr (message chunks)" using holds_strI [OF nn, of "[]" 0] by (simp add: cstr_holds)
  moreover have "Unblock_read_net (map (\<lambda>bs. (Some bs, EAGAIN)) chunks @ [(None, EAGAIN)]) buf = Inr (int (length (message chunks)), ?b)"
    using b assms(2,3) by (simp add: Unblock_read_net_def vcopy_def)
  ultimately show ?thesis using assms(2,4,5) by (simp add: heart_turn_def heartbeat_send_def member_def)
qed

end
