(* ===== verification/First_Master.thy ===== *)
theory First_Master
  imports Cache_Server1
begin

text \<open>
  The master of the first version (master_basical.cpp and master_json.h of Project/DistributedCacheSystem/Master/master1): the list
  of cache servers, changed by heartbeats, by commands of a user and by the thread that watches the heartbeats, and
  the flags and counters that see to it that every server is told once. A server is told something only as the
  answer to one of its heartbeats. A counter is incremented at most once a message and is not bounded here.
\<close>

section \<open>State and messages\<close>

record master1 =
  flag1 :: int
  flag2 :: int
  flag3 :: int
  flag4 :: int
  flag5 :: int
  flag6 :: int
  flag8 :: int
  num1 :: int
  num2 :: int
  num3 :: int
  num4 :: int
  num5 :: int
  num7 :: int
  IPportlist :: "string list"
  IPlist :: "string list"
  Portlist :: "int list"
  shutipnow :: "string list"
  shutportnow :: "string list"
  shutip :: string
  shutport :: string
  psshutip :: string
  psshutport :: string
  heartip :: string
  heartport :: string
  cachemap :: "(string \<times> int) list"
  cachemapshut :: "(string \<times> int) list"
  cachestatemap :: "(string \<times> int) list"
  precachestatemap :: "(string \<times> int) list"
  masterip :: string
  masterport :: string
  masterupdatemap :: "(string \<times> int) list"
  masterstatemap :: "(string \<times> int) list"

definition master1_init :: master1 where
  "master1_init =
     \<lparr>flag1 = 0, flag2 = 0, flag3 = 0, flag4 = 0, flag5 = 0, flag6 = 0, flag8 = 0, num1 = 0, num2 = 0, num3 = 0, num4 = 0, num5 = 0, num7 = 0,
      IPportlist = [], IPlist = [], Portlist = [], shutipnow = [], shutportnow = [], shutip = [], shutport = [], psshutip = [], psshutport = [],
      heartip = [], heartport = [], cachemap = [], cachemapshut = [], cachestatemap = [], precachestatemap = [],
      masterip = [], masterport = [], masterupdatemap = [], masterstatemap = []\<rparr>"

definition HEART_BEAT :: int where "HEART_BEAT = 2"
definition DISTRIBUTION_REQUEST1 :: int where "DISTRIBUTION_REQUEST1 = 3"
definition DISTRIBUTION_RESPOND :: int where "DISTRIBUTION_RESPOND = 4"
definition SPARE_MASTER :: int where "SPARE_MASTER = 8"

text \<open>
  A message to a descriptor: the type, if one was set, and the list of servers. \<open>m1_info\<close> holds the members of a request that the
  master reads; \<open>None\<close> is a member that is missing or of another type, and \<open>j_object\<close> says that the text is an object at all.
\<close>

type_synonym m1_event = "int \<times> int option \<times> string list"

record m1_info =
  j_object :: bool
  j_type :: "int option"
  j_addr :: "string option"
  j_list :: "string list option"
  j_state :: "bool option"
  j_ip :: "string option"

section \<open>Library functions\<close>

text \<open>\<open>atoi\<close> of a text without digits is \<open>0\<close>; of a number that is not an \<open>int\<close> it is undefined.\<close>

definition atoi :: "string \<Rightarrow> int res" where
  "atoi s =
     (case stoi s of Inr n \<Rightarrow> Inr n
      | Inl e \<Rightarrow> if e = Uncaught_Exception ''invalid_argument'' then Inr 0 else Inl Signed_Overflow)"

definition cut_addr :: "string \<Rightarrow> string \<times> string" where
  "cut_addr s = (let cut = find_last_of s (CHR '':'') in (cut_before s cut, cut_after s cut))"

text \<open>\<open>std::unordered_map\<close>: an association list without repeated keys.\<close>

definition emplace :: "('k \<times> 'v) list \<Rightarrow> 'k \<Rightarrow> 'v \<Rightarrow> ('k \<times> 'v) list" where
  "emplace m k v = (if map_of m k = None then m @ [(k, v)] else m)"

definition bump :: "(string \<times> int) list \<Rightarrow> string \<Rightarrow> (string \<times> int) list" where
  "bump m k = (case map_of m k of None \<Rightarrow> m | Some n \<Rightarrow> AList.update k (n + 1) m)"

section \<open>Heartbeats\<close>

definition refreship :: "int \<Rightarrow> master1 \<Rightarrow> m1_event" where
  "refreship fd s =
     (fd, if flag4 s = 1 then Some REFLESH_IP1 else if flag1 s = 1 then Some ADD_CACHE else if flag2 s = 1 then Some SHUTDOWN_CACHE1
          else if flag3 s = 1 then Some REFLESH_IP1 else None, IPportlist s)"

text \<open>The address and the count of the heartbeats of the port.\<close>

definition hb_count :: "string \<Rightarrow> master1 \<Rightarrow> master1" where
  "hb_count addr s =
     (case cut_addr addr of (ip, port) \<Rightarrow> s\<lparr>heartip := ip, heartport := port, cachestatemap := bump (cachestatemap s) port\<rparr>)"

text \<open>Which server is to be shut down, if this one is.\<close>

definition hb_shut :: "bool \<Rightarrow> master1 \<Rightarrow> master1" where
  "hb_shut state s =
     (let s1 = (if state then s else s\<lparr>flag5 := 2\<rparr>) in
      if flag5 s1 = 1 then
        s1\<lparr>shutport := (if heartport s1 \<in> set (shutportnow s1) then heartport s1 else shutport s1),
           shutip := (if heartip s1 \<in> set (shutipnow s1) then heartip s1 else shutip s1)\<rparr>
      else if flag5 s1 = 2 then s1\<lparr>shutport := heartport s1, shutip := heartip s1, flag2 := 1\<rparr>
      else s1)"

text \<open>A server is known by its port. A server just shut down is not taken in again for a while.\<close>

definition hb_register :: "string \<Rightarrow> master1 \<Rightarrow> master1 res" where
  "hb_register addr s =
     bind_res (atoi (heartport s)) (\<lambda>p.
     if p \<in> set (Portlist s) then Inr s
     else
       (let s1 = (if num5 s < num7 s then
                    s\<lparr>flag4 := (if heartport s \<in> set (shutportnow s) then 1 else flag4 s), num5 := num5 s + 1\<rparr>
                  else s\<lparr>flag4 := 0, num5 := 0\<rparr>) in
        Inr (if flag4 s1 = 0 then
               s1\<lparr>IPlist := IPlist s1 @ [heartip s1], Portlist := Portlist s1 @ [p], IPportlist := IPportlist s1 @ [addr],
                  cachemap := emplace (cachemap s1) (heartport s1) 0, cachemapshut := emplace (cachemapshut s1) (heartport s1) 0,
                  cachestatemap := emplace (cachestatemap s1) (heartport s1) 0,
                  masterupdatemap := emplace (masterupdatemap s1) (heartport s1) 0, flag1 := 1\<rparr>
             else if flag4 s1 = 1 then s1\<lparr>flag4 := 0\<rparr>
             else s1)))"

text \<open>
  One turn of telling every key of a map once: \<open>told\<close> holds 1 for the keys told, \<open>n\<close> their number. The result says whether
  the key is told now and whether all have been told, when the map and the counter start again.
\<close>

definition tell_once :: "(string \<times> int) list \<Rightarrow> int \<Rightarrow> string \<Rightarrow> bool \<times> bool \<times> (string \<times> int) list \<times> int" where
  "tell_once told n key =
     (let now = (map_of told key = Some 0);
          told1 = (if now then AList.update key 1 told else told);
          n1 = (if now then n + 1 else n)
      in if n1 = int (length told1) then (now, True, map (\<lambda>(k, _). (k, 0)) told1, 0) else (now, False, told1, n1))"

definition hb_announce :: "int \<Rightarrow> master1 \<Rightarrow> m1_event list \<times> master1" where
  "hb_announce fd s =
     (if flag1 s = 1 then
        (let s1 = s\<lparr>shutportnow := [], shutipnow := []\<rparr> in
         case tell_once (cachemap s1) (num1 s1) (heartport s1) of (now, finished, told, n) \<Rightarrow>
           (if now then [refreship fd s1] else [],
            s1\<lparr>cachemap := told, num1 := n, flag1 := (if finished then 0 else flag1 s1)\<rparr>))
      else ([], s))"

text \<open>Erasing the first element of \<open>Portlist\<close> with the number of a text.\<close>

fun erase_port :: "string \<Rightarrow> int list \<Rightarrow> int list res" where
  "erase_port t [] = Inr []"
| "erase_port t (p # ps) = bind_res (atoi t) (\<lambda>n. if p = n then Inr ps else bind_res (erase_port t ps) (\<lambda>qs. Inr (p # qs)))"

definition hb_shutdown :: "int \<Rightarrow> string \<Rightarrow> master1 \<Rightarrow> (m1_event list \<times> master1) res" where
  "hb_shutdown fd addr s =
     bind_res (erase_port (shutport s) (Portlist s)) (\<lambda>ports.
     let s1 = s\<lparr>IPlist := remove1 (shutip s) (IPlist s), Portlist := ports, IPportlist := remove1 addr (IPportlist s),
                cachemap := AList.delete (heartport s) (cachemap s), cachemapshut := AList.delete (heartport s) (cachemapshut s),
                cachestatemap := AList.delete (heartport s) (cachestatemap s),
                precachestatemap := AList.delete (heartport s) (precachestatemap s),
                masterupdatemap := AList.delete (heartport s) (masterupdatemap s)\<rparr>;
         s2 = s1\<lparr>num3 := num3 s1 + 1, flag8 := 1, num7 := 20, shutport := [], shutip := []\<rparr>
     in Inr ([refreship fd s1],
          if (flag5 s2 = 1 \<or> flag5 s2 = 2) \<and> num3 s2 = num4 s2 \<and> flag8 s2 = 1
          then s2\<lparr>num3 := 0, flag2 := 0, flag3 := 1, flag4 := 1, flag5 := 0, flag8 := 0\<rparr> else s2))"

definition hb_lost :: "master1 \<Rightarrow> master1 res" where
  "hb_lost s =
     bind_res (erase_port (psshutport s) (Portlist s)) (\<lambda>ports.
     Inr (s\<lparr>IPlist := remove1 (psshutip s) (IPlist s), Portlist := ports,
            IPportlist := remove1 (psshutip s @ CHR '':'' # psshutport s) (IPportlist s),
            cachemap := AList.delete (psshutport s) (cachemap s), cachemapshut := AList.delete (psshutport s) (cachemapshut s),
            cachestatemap := AList.delete (psshutport s) (cachestatemap s),
            precachestatemap := AList.delete (psshutport s) (precachestatemap s),
            masterupdatemap := AList.delete (heartport s) (masterupdatemap s),
            flag3 := 1, flag4 := 1, num7 := 20, flag8 := 0\<rparr>))"

definition hb_remove :: "int \<Rightarrow> string \<Rightarrow> master1 \<Rightarrow> (m1_event list \<times> master1) res" where
  "hb_remove fd addr s =
     (if shutport s = heartport s \<and> flag2 s = 1 then hb_shutdown fd addr s
      else if flag6 s = 1 then bind_res (hb_lost s) (\<lambda>s1. Inr ([], s1))
      else Inr ([], s))"

definition hb_refresh :: "int \<Rightarrow> master1 \<Rightarrow> m1_event list \<times> master1" where
  "hb_refresh fd s =
     (if flag3 s = 1 \<and> flag8 s = 0 then
        (case tell_once (cachemapshut s) (num2 s) (heartport s) of (now, finished, told, n) \<Rightarrow>
           (if now then [refreship fd s] else [],
            if finished then s\<lparr>cachemapshut := told, num2 := n, flag3 := 0, flag6 := 0\<rparr> else s\<lparr>cachemapshut := told, num2 := n\<rparr>))
      else ([], s))"

definition heart_beat1 :: "int \<Rightarrow> string \<Rightarrow> bool \<Rightarrow> master1 \<Rightarrow> (m1_event list \<times> master1) res" where
  "heart_beat1 fd addr state s =
     bind_res (hb_register addr (hb_shut state (hb_count addr s))) (\<lambda>s1.
     case hb_announce fd s1 of (evs1, s2) \<Rightarrow>
     bind_res (hb_remove fd addr s2) (\<lambda>(evs2, s3).
     case hb_refresh fd s3 of (evs3, s4) \<Rightarrow> Inr (evs1 @ evs2 @ evs3, s4)))"

section \<open>The other requests\<close>

definition Distributionresponse :: "int \<Rightarrow> master1 \<Rightarrow> m1_event" where
  "Distributionresponse fd s = (fd, Some DISTRIBUTION_RESPOND, IPportlist s)"

definition shutdown_request :: "string list \<Rightarrow> master1 \<Rightarrow> master1" where
  "shutdown_request userdata s =
     (let s1 = s\<lparr>shutipnow := shutipnow s @ map (fst \<circ> cut_addr) userdata, shutportnow := shutportnow s @ map (snd \<circ> cut_addr) userdata\<rparr>
      in s1\<lparr>num4 := int (length (shutportnow s1)), flag2 := 1, flag5 := 1\<rparr>)"

definition spare_master :: "string \<Rightarrow> string list \<Rightarrow> master1 \<Rightarrow> master1" where
  "spare_master masterdata vec s =
     (case cut_addr masterdata of (ip, port) \<Rightarrow>
        s\<lparr>IPportlist := (if vec \<noteq> [] then vec else IPportlist s), masterip := ip, masterport := port,
          masterstatemap := (if map_of (masterstatemap s) port = None then emplace (masterstatemap s) port 0
                             else bump (masterstatemap s) port)\<rparr>)"

definition master1_info :: "int \<Rightarrow> m1_info \<Rightarrow> master1 \<Rightarrow> (m1_event list \<times> master1) res" where
  "master1_info fd info s =
     (if \<not> j_object info then Inl (Uncaught_Exception ''json'')
      else if j_type info = Some DISTRIBUTION_REQUEST1 then Inr ([Distributionresponse fd s], s)
      else if j_type info = Some SHUTDOWN_CACHE1 then bind_res (member (j_list info)) (\<lambda>l. Inr ([], shutdown_request l s))
      else if j_type info = Some HEART_BEAT then
        bind_res (member (j_addr info)) (\<lambda>addr. bind_res (member (j_state info)) (\<lambda>state. heart_beat1 fd addr state s))
      else if j_type info = Some SPARE_MASTER then
        bind_res (member (j_ip info)) (\<lambda>ip. bind_res (member (j_list info)) (\<lambda>l. Inr ([], spare_master ip l s)))
      else Inr ([], s))"

text \<open>
  A ready descriptor and the answers of its reads. \<open>json\<close> is what the library makes of the text of the buffer, \<open>None\<close> if it does not accept it.
  An exhausted descriptor leaves the loop over the ready descriptors, another failure ends the process.
\<close>

fun master1_round ::
  "(string \<Rightarrow> m1_info option) \<Rightarrow> (int \<times> read_answer list \<times> errno) list \<Rightarrow> char list \<Rightarrow> master1 \<Rightarrow>
   (m1_event list \<times> int list \<times> char list \<times> master1) res" where
  "master1_round json [] buf s = Inr ([], [], buf, s)"
| "master1_round json ((fd, as, e) # ready) buf s =
     bind_res (Unblock_read_net as buf) (\<lambda>(n, b).
     if n = 0 then bind_res (master1_round json ready b s) (\<lambda>(evs, closed, b1, s1). Inr (evs, fd # closed, b1, s1))
     else if n < 0 then (if e = EAGAIN then Inr ([], [], b, s) else Inl Process_Exit)
     else
       bind_res (cstr b 0) (\<lambda>t.
       bind_res (case json t of None \<Rightarrow> Inr ([], s) | Some info \<Rightarrow> master1_info fd info s) (\<lambda>(evs, s1).
       bind_res (master1_round json ready b s1) (\<lambda>(evs', closed, b1, s2). Inr (evs @ evs', closed, b1, s2)))))"

section \<open>The watching threads\<close>

text \<open>\<open>heartstate\<close>: a copy of the counters, and what it does with it one and a half seconds later.\<close>

definition hs_snapshot :: "master1 \<Rightarrow> master1" where
  "hs_snapshot s = (if cachestatemap s = [] then s else s\<lparr>precachestatemap := cachestatemap s\<rparr>)"

definition hs_check_one :: "string \<times> int \<Rightarrow> master1 \<Rightarrow> master1" where
  "hs_check_one kv s =
     (case map_of (precachestatemap s) (fst kv) of None \<Rightarrow> s
      | Some before \<Rightarrow>
          if snd kv \<le> before then
            s\<lparr>psshutport := fst kv, psshutip := heartip s,
              flag6 := (if flag6 s = 0 \<and> fst kv \<noteq> shutport s then 1 else flag6 s)\<rparr>
          else if 1000 < snd kv then s\<lparr>cachestatemap := AList.update (fst kv) 0 (cachestatemap s)\<rparr>
          else s)"

definition hs_check :: "master1 \<Rightarrow> master1" where
  "hs_check s = fold hs_check_one (cachestatemap s) s"

text \<open>\<open>testallshut\<close>: when no counter has changed since the copy, all servers are gone. Nothing is done when there was nothing to copy.\<close>

definition testallshut :: "(string \<times> int) list \<Rightarrow> master1 \<Rightarrow> master1" where
  "testallshut before s =
     (if before = [] \<or> (\<exists>kv\<in>set (cachestatemap s). map_of before (fst kv) \<noteq> None \<and> map_of before (fst kv) \<noteq> Some (snd kv)) then s
      else s\<lparr>IPportlist := []\<rparr>)"

text \<open>The heartbeat for the second master.\<close>

definition updatemaster :: "master1 \<Rightarrow> m1_info" where
  "updatemaster s =
     \<lparr>j_object = True, j_type = Some SPARE_MASTER, j_addr = None, j_list = Some (IPportlist s), j_state = Some True, j_ip = Some ''127.0.0.1:7000''\<rparr>"

end
