(* ===== verification/Master_Rounds.thy ===== *)
theory Master_Rounds
  imports First_Master
begin

text \<open>
  What the flags and counters of the first version's master are for: when a server joins or is lost, every server of the new list
  is told exactly once, at its next heartbeat, and then the master is as before.
\<close>

section \<open>Servers and states\<close>

type_synonym server = "string \<times> nat"

definition addr_of :: "server \<Rightarrow> string" where
  "addr_of x = fst x @ CHR '':'' # nat_str (snd x)"

definition marks :: "server list \<Rightarrow> nat set \<Rightarrow> (string \<times> int) list" where
  "marks srv D = map (\<lambda>x. (nat_str (snd x), if snd x \<in> D then 1 else 0)) srv"

abbreviation ports :: "server list \<Rightarrow> nat set" where
  "ports srv \<equiv> snd ` set srv"

definition ports_ok :: "server list \<Rightarrow> bool" where
  "ports_ok srv \<longleftrightarrow> distinct (map snd srv) \<and> (\<forall>p\<in>ports srv. int p \<le> INT_MAX)"

text \<open>
  The master counts the servers \<open>srv\<close> and gives out the list \<open>ls\<close>, which are the same except after some losses; \<open>D\<close> have been
  told of a new server, \<open>E\<close> of a lost one; nobody is being shut down.
\<close>

definition listed :: "server list \<Rightarrow> server list \<Rightarrow> nat set \<Rightarrow> nat set \<Rightarrow> master1 \<Rightarrow> bool" where
  "listed ls srv D E s \<longleftrightarrow> ports_ok srv \<and> IPportlist s = map addr_of ls \<and> Portlist s = map (int \<circ> snd) srv
    \<and> cachemap s = marks srv D \<and> num1 s = int (card D) \<and> cachemapshut s = marks srv E \<and> num2 s = int (card E)
    \<and> flag2 s = 0 \<and> flag5 s = 0 \<and> flag8 s = 0"

definition resting :: "server list \<Rightarrow> server list \<Rightarrow> master1 \<Rightarrow> bool" where
  "resting ls srv s \<longleftrightarrow> listed ls srv {} {} s \<and> flag1 s = 0 \<and> flag3 s = 0 \<and> flag6 s = 0"

definition calm :: "server list \<Rightarrow> master1 \<Rightarrow> bool" where
  "calm srv s \<longleftrightarrow> resting srv srv s"

definition adding :: "server list \<Rightarrow> nat set \<Rightarrow> master1 \<Rightarrow> bool" where
  "adding srv D s \<longleftrightarrow> listed srv srv D {} s \<and> D \<subset> ports srv \<and> flag1 s = 1 \<and> flag3 s = 0 \<and> flag4 s = 0 \<and> flag6 s = 0"

section \<open>Addresses\<close>

lemma cut_addr_of [simp]: "cut_addr (addr_of x) = (fst x, nat_str (snd x))"
proof -
  have "CHR '':'' \<notin> set (nat_str (snd x))" by (rule colon_not_digit [OF nat_str_digits])
  then have "find_last_of (addr_of x) (CHR '':'') = Some (length (fst x))" unfolding addr_of_def by (rule find_last_of_append)
  then show ?thesis by (simp add: cut_addr_def cut_before_def cut_after_def addr_of_def Let_def)
qed

lemma nat_str_eq [simp]: "nat_str m = nat_str n \<longleftrightarrow> m = n"
  using nat_str_inj by blast

lemma addr_of_inj [simp]: "addr_of x = addr_of y \<longleftrightarrow> x = y"
proof
  assume "addr_of x = addr_of y"
  then have "cut_addr (addr_of x) = cut_addr (addr_of y)" by simp
  then show "x = y" by (simp add: prod_eq_iff)
qed simp

lemma atoi_port [simp]: "int p \<le> INT_MAX \<Longrightarrow> atoi (nat_str p) = Inr (int p)"
  by (simp add: atoi_def stoi_nat_str)

lemma ipport_loop_ip: "CHR '':'' \<notin> set a \<Longrightarrow> ipport_loop (a @ t) True ip port = ipport_loop t True (ip @ a) port"
  by (induction a arbitrary: ip) auto

lemma ipport_loop_port: "CHR '':'' \<notin> set t \<Longrightarrow> ipport_loop t False ip port = (ip, port @ t)"
  by (induction t arbitrary: port) auto

lemma get_ipport1_addr:
  assumes "CHR '':'' \<notin> set (fst x)" and "int (snd x) \<le> INT_MAX"
  shows "get_ipport1 (addr_of x) = Inr \<lparr>ip_port = int (snd x), ip_addr = fst x\<rparr>"
proof -
  have "CHR '':'' \<notin> set (nat_str (snd x))" by (rule colon_not_digit [OF nat_str_digits])
  then have "ipport_loop (addr_of x) True [] [] = (fst x, nat_str (snd x))"
    using assms(1) by (simp add: addr_of_def ipport_loop_ip ipport_loop_port)
  then show ?thesis using assms(2) by (simp add: get_ipport1_def stoi_nat_str)
qed

section \<open>Marks\<close>

lemma marks_simps [simp]: "marks [] D = []" "marks (x # srv) D = (nat_str (snd x), if snd x \<in> D then 1 else 0) # marks srv D"
  "length (marks srv D) = length srv" "marks (srv @ zs) D = marks srv D @ marks zs D"
  by (simp_all add: marks_def)

lemma map_of_marks: "map_of (marks srv D) (nat_str p) = (if p \<in> ports srv then Some (if p \<in> D then 1 else 0) else None)"
  by (induction srv) auto

lemma marks_other: "p \<notin> ports srv \<Longrightarrow> marks srv (insert p D) = marks srv D"
  by (induction srv) auto

lemma update_marks: "distinct (map snd srv) \<Longrightarrow> p \<in> ports srv \<Longrightarrow> AList.update (nat_str p) 1 (marks srv D) = marks srv (insert p D)"
  by (induction srv) (auto simp: marks_other)

lemma reset_marks: "map (\<lambda>(k, _). (k, 0)) (marks srv D) = marks srv {}"
  by (simp add: marks_def)

lemma delete_marks: "AList.delete (nat_str q) (marks srv D) = marks (filter (\<lambda>x. snd x \<noteq> q) srv) D"
  by (induction srv) auto

lemma card_ports: "distinct (map snd srv) \<Longrightarrow> card (ports srv) = length srv"
  by (metis distinct_card length_map set_map)

lemma tell_once_marks:
  assumes "distinct (map snd srv)" and "p \<in> ports srv" and "D \<subset> ports srv"
  shows "tell_once (marks srv D) (int (card D)) (nat_str p) =
    (p \<notin> D, insert p D = ports srv, marks srv (if insert p D = ports srv then {} else insert p D),
     int (card (if insert p D = ports srv then {} else insert p D)))"
proof -
  have fin: "finite D" using assms(3) finite_subset by blast
  have less: "card D < length srv" using psubset_card_mono [OF _ assms(3)] card_ports [OF assms(1)] by simp
  have all: "insert p D = ports srv \<longleftrightarrow> card (insert p D) = length srv"
  proof
    assume "card (insert p D) = length srv"
    moreover have "insert p D \<subseteq> ports srv" using assms(2,3) by blast
    ultimately show "insert p D = ports srv" using card_ports [OF assms(1)] by (intro card_subset_eq) simp_all
  qed (use card_ports [OF assms(1)] in metis)
  show ?thesis
  proof (cases "p \<in> D")
    case True
    then have "insert p D = D" by auto
    then show ?thesis using True less all assms by (auto simp: tell_once_def Let_def map_of_marks)
  next
    case False
    then show ?thesis using assms fin all by (auto simp: tell_once_def Let_def map_of_marks update_marks reset_marks)
  qed
qed

section \<open>One heartbeat\<close>

lemma hb_count_fields [simp]:
  "hb_count (addr_of x) s =
     s\<lparr>heartip := fst x, heartport := nat_str (snd x), cachestatemap := bump (cachestatemap s) (nat_str (snd x))\<rparr>"
  by (simp add: hb_count_def)

lemma known_server:
  assumes "listed ls srv D E s" and "snd x \<in> ports srv"
  shows "hb_register (addr_of x) (hb_shut True (hb_count (addr_of x) s)) = Inr (hb_count (addr_of x) s)"
proof -
  have "int (snd x) \<in> int ` ports srv" using assms(2) by (rule imageI)
  then have "int (snd x) \<le> INT_MAX" "int (snd x) \<in> set (Portlist s)" "flag5 s = 0"
    using assms by (auto simp: listed_def ports_ok_def image_comp)
  then show ?thesis by (simp add: hb_register_def hb_shut_def)
qed

lemma heart_known:
  assumes "listed ls srv D E s" and "snd x \<in> ports srv" and "hb_announce fd (hb_count (addr_of x) s) = (evs1, s2)"
    and "hb_remove fd (addr_of x) s2 = Inr (evs2, s3)" and "hb_refresh fd s3 = (evs3, s4)"
  shows "heart_beat1 fd (addr_of x) True s = Inr (evs1 @ evs2 @ evs3, s4)"
  using known_server [OF assms(1,2)] assms(3-5) by (simp add: heart_beat1_def)

lemma quiet_heart:
  assumes "listed ls srv {} {} s" "flag1 s = 0" "flag3 s = 0" "flag6 s = 0"
  shows "hb_announce fd s = ([], s)" "hb_remove fd addr s = Inr ([], s)" "hb_refresh fd s = ([], s)"
  using assms by (simp_all add: listed_def hb_announce_def hb_remove_def hb_refresh_def)

text \<open>A server is known by its port alone, whatever its host is.\<close>

lemma resting_heart:
  assumes "resting ls srv s" and "snd x \<in> ports srv"
  shows "\<exists>s'. heart_beat1 fd (addr_of x) True s = Inr ([], s') \<and> resting ls srv s'"
proof -
  let ?s = "hb_count (addr_of x) s"
  have c: "resting ls srv ?s" "listed ls srv {} {} s" using assms(1) by (simp_all add: resting_def listed_def)
  then have "hb_announce fd ?s = ([], ?s)" "hb_remove fd (addr_of x) ?s = Inr ([], ?s)" "hb_refresh fd ?s = ([], ?s)"
    by (auto simp: resting_def intro!: quiet_heart)
  from heart_known [OF c(2) assms(2) this] c(1) show ?thesis by simp
qed

lemma announce_step:
  assumes "adding srv D s" and "heartport s = nat_str p" and "p \<in> ports srv"
  shows "\<exists>s'. hb_announce fd s = (if p \<notin> D then [(fd, Some ADD_CACHE, map addr_of srv)] else [], s')
    \<and> heartport s' = heartport s \<and> (if insert p D = ports srv then calm srv s' else adding srv (insert p D) s')"
proof -
  have d: "distinct (map snd srv)" "D \<subset> ports srv" "cachemap s = marks srv D" "num1 s = int (card D)"
    using assms(1) by (simp_all add: adding_def listed_def ports_ok_def)
  have "insert p D \<noteq> ports srv \<Longrightarrow> insert p D \<subset> ports srv" using d(2) assms(3) by blast
  then show ?thesis using assms d tell_once_marks [OF d(1) assms(3) d(2)]
    by (simp add: hb_announce_def adding_def calm_def resting_def listed_def refreship_def Let_def)
qed

lemma heart_announced:
  assumes "hb_register addr (hb_shut True (hb_count addr s)) = Inr s1" and "adding srv D s1" and "heartport s1 = nat_str p" and "p \<in> ports srv"
  shows "\<exists>s'. heart_beat1 fd addr True s = Inr (if p \<notin> D then [(fd, Some ADD_CACHE, map addr_of srv)] else [], s')
    \<and> (if insert p D = ports srv then calm srv s' else adding srv (insert p D) s')"
proof -
  obtain s' where s': "hb_announce fd s1 = (if p \<notin> D then [(fd, Some ADD_CACHE, map addr_of srv)] else [], s')"
    "if insert p D = ports srv then calm srv s' else adding srv (insert p D) s'"
    using announce_step [OF assms(2-4), of fd] by blast
  then have "flag2 s' = 0" "flag6 s' = 0" "flag3 s' = 0" by (auto simp: calm_def resting_def adding_def listed_def split: if_splits)
  then have "hb_remove fd addr s' = Inr ([], s')" "hb_refresh fd s' = ([], s')" by (simp_all add: hb_remove_def hb_refresh_def)
  then show ?thesis using assms(1) s' by (simp add: heart_beat1_def)
qed

lemma adding_heart:
  assumes "adding srv D s" and "x \<in> set srv"
  shows "\<exists>s'. heart_beat1 fd (addr_of x) True s = Inr (if snd x \<notin> D then [(fd, Some ADD_CACHE, map addr_of srv)] else [], s')
    \<and> (if insert (snd x) D = ports srv then calm srv s' else adding srv (insert (snd x) D) s')"
proof -
  have a: "adding srv D (hb_count (addr_of x) s)" "listed srv srv D {} s" using assms(1) by (simp_all add: adding_def listed_def)
  have p: "snd x \<in> ports srv" using assms(2) by simp
  show ?thesis using p by (intro heart_announced [OF known_server [OF a(2) p] a(1)]) simp_all
qed

text \<open>The first heartbeat of a server that is not known and not kept away after a shutdown.\<close>

definition admits :: "nat \<Rightarrow> master1 \<Rightarrow> bool" where
  "admits p s \<longleftrightarrow> (num5 s < num7 s \<longrightarrow> flag4 s = 0 \<and> nat_str p \<notin> set (shutportnow s))"

lemma joining_heart:
  assumes "calm srv s" and "ports_ok (srv @ [x])" and "admits (snd x) s"
  shows "\<exists>s'. heart_beat1 fd (addr_of x) True s = Inr ([(fd, Some ADD_CACHE, map addr_of (srv @ [x]))], s')
    \<and> (if {snd x} = ports (srv @ [x]) then calm (srv @ [x]) s' else adding (srv @ [x]) {snd x} s')"
proof -
  let ?s = "hb_count (addr_of x) s"
  have new_port: "snd x \<notin> ports srv" using assms(2) by (simp add: ports_ok_def)
  then have "int (snd x) \<notin> int ` ports srv" by (metis imageE of_nat_eq_iff)
  then have x: "int (snd x) \<le> INT_MAX" "snd x \<notin> ports srv" "int (snd x) \<notin> set (Portlist s)" "flag5 s = 0"
    using assms(1,2) new_port by (simp_all add: ports_ok_def calm_def resting_def listed_def image_comp)
  have new: "map_of (marks srv {}) (nat_str (snd x)) = None" using x(2) by (simp add: map_of_marks)
  obtain s1 where s1: "hb_register (addr_of x) (hb_shut True ?s) = Inr s1" "adding (srv @ [x]) {} s1" "heartport s1 = nat_str (snd x)"
  proof
    let ?s1 = "if num5 s < num7 s then ?s\<lparr>num5 := num5 s + 1\<rparr> else ?s\<lparr>flag4 := 0, num5 := 0\<rparr>"
    let ?s2 = "?s1\<lparr>IPlist := IPlist s @ [fst x], Portlist := Portlist s @ [int (snd x)], IPportlist := IPportlist s @ [addr_of x],
      cachemap := emplace (cachemap s) (nat_str (snd x)) 0, cachemapshut := emplace (cachemapshut s) (nat_str (snd x)) 0,
      cachestatemap := emplace (cachestatemap ?s) (nat_str (snd x)) 0, masterupdatemap := emplace (masterupdatemap s) (nat_str (snd x)) 0, flag1 := 1\<rparr>"
    show "hb_register (addr_of x) (hb_shut True ?s) = Inr ?s2"
      using x assms(3) by (auto simp: hb_register_def hb_shut_def Let_def admits_def)
    show "adding (srv @ [x]) {} ?s2" using assms new by (auto simp: adding_def calm_def resting_def listed_def emplace_def admits_def)
    show "heartport ?s2 = nat_str (snd x)" by simp
  qed
  show ?thesis using heart_announced [OF s1, of fd] by simp
qed

text \<open>
  Otherwise the heartbeat is swallowed. After a loss or a shutdown \<open>flag4\<close> is set and \<open>num7\<close> is twenty; the flag is
  cleared by the swallowed heartbeat, but set again at every one of a port that was just shut down, until \<open>num5\<close> has reached \<open>num7\<close>.
\<close>

lemma refused_heart:
  assumes "calm srv s" and "ports_ok (srv @ [x])" and "\<not> admits (snd x) s"
  shows "\<exists>s'. heart_beat1 fd (addr_of x) True s = Inr ([], s') \<and> calm srv s' \<and> num5 s' = num5 s + 1 \<and> num7 s' = num7 s
    \<and> shutportnow s' = shutportnow s \<and> (flag4 s = 1 \<longrightarrow> flag4 s' = 0)"
proof -
  let ?s = "hb_count (addr_of x) s"
  let ?f = "if nat_str (snd x) \<in> set (shutportnow s) then 1 else flag4 s"
  let ?s1 = "?s\<lparr>flag4 := (if ?f = 1 then 0 else ?f), num5 := num5 s + 1\<rparr>"
  have "snd x \<notin> ports srv" using assms(2) by (simp add: ports_ok_def)
  then have "int (snd x) \<notin> int ` ports srv" by (metis imageE of_nat_eq_iff)
  then have x: "int (snd x) \<le> INT_MAX" "int (snd x) \<notin> set (Portlist s)" "flag5 s = 0" "num5 s < num7 s" "?f \<noteq> 0"
    using assms by (auto simp: ports_ok_def calm_def resting_def listed_def image_comp admits_def)
  then have r: "hb_register (addr_of x) (hb_shut True ?s) = Inr ?s1" by (auto simp: hb_register_def hb_shut_def Let_def)
  have c: "calm srv ?s1" using assms(1) by (simp add: calm_def resting_def listed_def)
  then have "hb_announce fd ?s1 = ([], ?s1)" "hb_remove fd (addr_of x) ?s1 = Inr ([], ?s1)" "hb_refresh fd ?s1 = ([], ?s1)"
    unfolding calm_def resting_def by (blast intro: quiet_heart)+
  then have "heart_beat1 fd (addr_of x) True s = Inr ([], ?s1)" using r by (simp add: heart_beat1_def)
  then show ?thesis using c by (intro exI [of _ ?s1]) simp
qed

section \<open>A lost server\<close>

definition others :: "server list \<Rightarrow> server \<Rightarrow> server list" where
  "others srv x = filter (\<lambda>y. snd y \<noteq> snd x) srv"

lemma others_idem [simp]: "others (others srv x) x = others srv x"
  by (simp add: others_def)

lemma others_none: "snd x \<notin> ports srv \<Longrightarrow> others srv x = srv"
  unfolding others_def by (intro filter_True ballI notI) (metis imageI)

lemma others_ok: "ports_ok srv \<Longrightarrow> ports_ok (others srv x)"
  by (auto simp: ports_ok_def others_def distinct_map_filter)

lemma erase_others:
  "distinct (map snd srv) \<Longrightarrow> int (snd x) \<le> INT_MAX \<Longrightarrow>
   erase_port (nat_str (snd x)) (map (int \<circ> snd) srv) = Inr (map (int \<circ> snd) (others srv x))"
proof (induction srv)
  case (Cons y srv)
  then show ?case using others_none [of x srv] by (auto simp: others_def)
qed (simp add: others_def)

lemma remove_others:
  "distinct (map snd srv) \<Longrightarrow> \<forall>y\<in>set srv. snd y = snd x \<longrightarrow> y = x \<Longrightarrow>
   remove1 (addr_of x) (map addr_of srv) = map addr_of (others srv x)"
proof (induction srv)
  case (Cons y srv)
  show ?case
  proof (cases "y = x")
    case True
    then show ?thesis using Cons.prems others_none [of x srv] by (simp add: others_def)
  next
    case False
    then have "snd y \<noteq> snd x" "addr_of y \<noteq> addr_of x" using Cons.prems(2) by auto
    then show ?thesis using Cons by (simp add: others_def)
  qed
qed (simp add: others_def)

text \<open>The list that is given out after the loss: the address that is erased has the host \<open>ip\<close> of the last heartbeat.\<close>

definition left_list :: "server list \<Rightarrow> server \<Rightarrow> string \<Rightarrow> server list" where
  "left_list srv x ip = (if fst x = ip then others srv x else srv)"

lemma left_list_idem [simp]: "left_list (left_list srv x ip) x ip = left_list srv x ip"
  by (simp add: left_list_def)

lemma remove_left:
  assumes "distinct (map snd ls)" "\<forall>y\<in>set ls. snd y = snd x \<longrightarrow> y = x"
  shows "remove1 (ip @ CHR '':'' # nat_str (snd x)) (map addr_of ls) = map addr_of (left_list ls x ip)"
proof -
  have addr: "ip @ CHR '':'' # nat_str (snd x) = addr_of (ip, snd x)" by (simp add: addr_of_def)
  show ?thesis
  proof (cases "fst x = ip")
    case True
    then have "(ip, snd x) = x" by (cases x) simp
    then show ?thesis using remove_others [OF assms] True unfolding addr by (simp add: left_list_def)
  next
    case False
    then have "(ip, snd x) \<notin> set ls" using assms(2) by (metis fst_conv snd_conv)
    then have "addr_of (ip, snd x) \<notin> set (map addr_of ls)" by auto
    then have "remove1 (addr_of (ip, snd x)) (map addr_of ls) = map addr_of ls" by (rule remove1_idem)
    then show ?thesis using False unfolding addr by (simp add: left_list_def)
  qed
qed

lemma hb_lost_lists:
  assumes "listed ls srv {} E s" and "psshutip s = ip" and "psshutport s = nat_str (snd x)" and "int (snd x) \<le> INT_MAX"
    and "distinct (map snd ls)" and "\<forall>y\<in>set ls. snd y = snd x \<longrightarrow> y = x"
  shows "\<exists>s'. hb_lost s = Inr s' \<and> listed (left_list ls x ip) (others srv x) {} E s' \<and> flag1 s' = flag1 s \<and> flag3 s' = 1 \<and> flag4 s' = 1
    \<and> flag6 s' = flag6 s \<and> heartport s' = heartport s \<and> psshutip s' = psshutip s \<and> psshutport s' = psshutport s"
proof -
  have d: "distinct (map snd srv)" using assms(1) by (simp add: listed_def ports_ok_def)
  show ?thesis
    using assms(1-4) erase_others [OF d assms(4)] remove_left [OF assms(5,6), of ip] others_ok [of srv x] delete_marks [of "snd x" srv]
    by (auto simp: hb_lost_def listed_def others_def)
qed

text \<open>The server \<open>x\<close> has been found silent and \<open>E\<close> have been told; before the first of them it is still in the lists.\<close>

definition losing :: "server list \<Rightarrow> server \<Rightarrow> string \<Rightarrow> nat set \<Rightarrow> master1 \<Rightarrow> bool" where
  "losing srv x ip E s \<longleftrightarrow> x \<in> set srv \<and> ports_ok srv \<and> E \<subset> ports (others srv x)
    \<and> (listed srv srv {} {} s \<and> E = {} \<or> listed (left_list srv x ip) (others srv x) {} E s)
    \<and> flag1 s = 0 \<and> flag6 s = 1 \<and> psshutip s = ip \<and> psshutport s = nat_str (snd x)"

lemma refresh_step:
  assumes "listed ls srv {} E s" and "E \<subset> ports srv" and "p \<in> ports srv" and "heartport s = nat_str p"
    and "flag1 s = 0" and "flag3 s = 1" and "flag4 s = 1" and "flag6 s = 1"
  shows "\<exists>s'. hb_refresh fd s = (if p \<notin> E then [(fd, Some REFLESH_IP1, map addr_of ls)] else [], s')
    \<and> (if insert p E = ports srv then resting ls srv s'
       else listed ls srv {} (insert p E) s' \<and> flag1 s' = 0 \<and> flag6 s' = 1 \<and> psshutip s' = psshutip s \<and> psshutport s' = psshutport s)"
proof -
  have d: "distinct (map snd srv)" "cachemapshut s = marks srv E" "num2 s = int (card E)" "flag8 s = 0"
    using assms(1) by (simp_all add: listed_def ports_ok_def)
  show ?thesis using assms d tell_once_marks [OF d(1) assms(3,2)]
    by (simp add: hb_refresh_def resting_def listed_def refreship_def)
qed

lemma losing_heart:
  assumes "losing srv x ip E s" and "y \<in> set (others srv x)"
  shows "\<exists>s'. heart_beat1 fd (addr_of y) True s = Inr (if snd y \<notin> E then [(fd, Some REFLESH_IP1, map addr_of (left_list srv x ip))] else [], s')
    \<and> (if insert (snd y) E = ports (others srv x) then resting (left_list srv x ip) (others srv x) s' else losing srv x ip (insert (snd y) E) s')"
proof -
  let ?r = "others srv x" and ?l = "left_list srv x ip"
  have x: "x \<in> set srv" "ports_ok srv" "E \<subset> ports ?r" "flag1 s = 0" "flag6 s = 1" "psshutip s = ip" "psshutport s = nat_str (snd x)"
    using assms(1) by (simp_all add: losing_def)
  obtain ls L where L: "listed ls L {} E s" "left_list ls x ip = ?l" "others L x = ?r" "set ?r \<subseteq> set L" "set ls \<subseteq> set srv" "distinct (map snd ls)"
  proof (cases "listed srv srv {} {} s \<and> E = {}")
    case True
    then show ?thesis using x(2) by (intro that [of srv srv]) (auto simp: others_def ports_ok_def)
  next
    case False
    have "distinct (map snd ?l)" "set ?l \<subseteq> set srv" using others_ok [OF x(2)] x(2) by (auto simp: left_list_def ports_ok_def others_def)
    then show ?thesis using False assms(1) by (intro that [of ?l ?r]) (auto simp: losing_def)
  qed
  have uniq: "\<forall>z\<in>set ls. snd z = snd x \<longrightarrow> z = x" and mx: "int (snd x) \<le> INT_MAX"
    using x(1,2) L(5) by (auto simp: ports_ok_def distinct_map inj_on_def)
  let ?s = "hb_count (addr_of y) s"
  have c: "listed ls L {} E ?s" "psshutip ?s = ip" "psshutport ?s = nat_str (snd x)" using L(1) x by (simp_all add: listed_def)
  obtain s1 where s1: "hb_lost ?s = Inr s1" "listed ?l ?r {} E s1" "flag1 s1 = 0" "flag3 s1 = 1" "flag4 s1 = 1" "flag6 s1 = 1"
    "heartport s1 = nat_str (snd y)" "psshutip s1 = ip" "psshutport s1 = nat_str (snd x)"
    using hb_lost_lists [OF c mx L(6) uniq] L(2,3) x by auto
  have y: "snd y \<in> ports ?r" using assms(2) by simp
  from refresh_step [OF s1(2) x(3) this s1(7,3-6), of fd] obtain s' where
    s': "hb_refresh fd s1 = (if snd y \<notin> E then [(fd, Some REFLESH_IP1, map addr_of ?l)] else [], s')"
    "if insert (snd y) E = ports ?r then resting ?l ?r s'
     else listed ?l ?r {} (insert (snd y) E) s' \<and> flag1 s' = 0 \<and> flag6 s' = 1 \<and> psshutip s' = psshutip s1 \<and> psshutport s' = psshutport s1" by blast
  have "hb_announce fd ?s = ([], ?s)" "hb_remove fd (addr_of y) ?s = Inr ([], s1)"
    using s1(1) x c(1) by (simp_all add: hb_announce_def hb_remove_def listed_def)
  from heart_known [OF L(1) _ this s'(1)] assms(2) L(4)
  have "heart_beat1 fd (addr_of y) True s = Inr (if snd y \<notin> E then [(fd, Some REFLESH_IP1, map addr_of ?l)] else [], s')" by auto
  moreover have "losing srv x ip (insert (snd y) E) s'" if "insert (snd y) E \<noteq> ports ?r"
    using that s'(2) x s1 y by (auto simp: losing_def)
  ultimately show ?thesis using s'(2) by (cases "insert (snd y) E = ports ?r") auto
qed

section \<open>Rounds\<close>

text \<open>Heartbeats in the order they arrive, each with its descriptor.\<close>

fun hearts :: "(int \<times> server) list \<Rightarrow> master1 \<Rightarrow> (m1_event list \<times> master1) res" where
  "hearts [] s = Inr ([], s)"
| "hearts ((fd, x) # hs) s =
     bind_res (heart_beat1 fd (addr_of x) True s) (\<lambda>(evs, s1). bind_res (hearts hs s1) (\<lambda>(evs', s2). Inr (evs @ evs', s2)))"

text \<open>The first heartbeat of each server, if those of the ports \<open>D\<close> have been.\<close>

fun firsts :: "nat set \<Rightarrow> (int \<times> server) list \<Rightarrow> int list" where
  "firsts D [] = []"
| "firsts D ((fd, x) # hs) = (if snd x \<in> D then firsts D hs else fd # firsts (insert (snd x) D) hs)"

text \<open>A new server is kept away for as many heartbeats as \<open>num5\<close> has left, and for one only unless it was shut down.\<close>

lemma kept_away:
  assumes "calm srv s" and "ports_ok (srv @ [x])"
  shows "\<exists>k s1. k \<le> nat (num7 s - num5 s) \<and> (k = 0 \<longleftrightarrow> admits (snd x) s)
    \<and> (flag4 s = 1 \<and> nat_str (snd x) \<notin> set (shutportnow s) \<longrightarrow> k \<le> 1)
    \<and> hearts (replicate k (fd, x)) s = Inr ([], s1) \<and> calm srv s1 \<and> admits (snd x) s1"
  using assms(1)
proof (induction "nat (num7 s - num5 s)" arbitrary: s rule: less_induct)
  case (less s)
  show ?case
  proof (cases "admits (snd x) s")
    case True
    then show ?thesis using less.prems by (intro exI [of _ 0] exI [of _ s]) simp
  next
    case False
    have lt: "num5 s < num7 s" using False by (auto simp: admits_def)
    obtain s' where s': "heart_beat1 fd (addr_of x) True s = Inr ([], s')" "calm srv s'" "num5 s' = num5 s + 1" "num7 s' = num7 s"
      "shutportnow s' = shutportnow s" "flag4 s = 1 \<longrightarrow> flag4 s' = 0" using refused_heart [OF less.prems assms(2) False] by blast
    obtain k s1 where k: "k \<le> nat (num7 s' - num5 s')" "k = 0 \<longleftrightarrow> admits (snd x) s'" "hearts (replicate k (fd, x)) s' = Inr ([], s1)"
      "calm srv s1" "admits (snd x) s1" using less.hyps [OF _ s'(2)] s'(3,4) lt by auto
    have "k = 0" if "flag4 s = 1" "nat_str (snd x) \<notin> set (shutportnow s)" using that s'(5,6) k(2) by (simp add: admits_def)
    then show ?thesis using False lt s' k by (intro exI [of _ "Suc k"] exI [of _ s1]) (auto simp: nat_le_iff)
  qed
qed

locale telling =
  fixes srv :: "server list" and phase :: "nat set \<Rightarrow> master1 \<Rightarrow> bool" and rest :: "master1 \<Rightarrow> bool" and msg :: "int option \<times> string list"
  assumes tells: "phase D s \<Longrightarrow> x \<in> set srv \<Longrightarrow>
      \<exists>s'. heart_beat1 fd (addr_of x) True s = Inr (if snd x \<notin> D then [(fd, msg)] else [], s')
        \<and> (if insert (snd x) D = ports srv then rest s' else phase (insert (snd x) D) s')"
    and silent: "rest s \<Longrightarrow> x \<in> set srv \<Longrightarrow> \<exists>s'. heart_beat1 fd (addr_of x) True s = Inr ([], s') \<and> rest s'"
    and open_phase: "phase D s \<Longrightarrow> D \<subset> ports srv"
begin

lemma silence: "rest s \<Longrightarrow> snd ` set hs \<subseteq> set srv \<Longrightarrow> \<exists>s'. hearts hs s = Inr ([], s') \<and> rest s'"
proof (induction hs arbitrary: s)
  case (Cons h hs)
  obtain fd x where h: "h = (fd, x)" by (cases h)
  then have "x \<in> set srv" using Cons.prems(2) by simp
  then obtain s1 where "heart_beat1 fd (addr_of x) True s = Inr ([], s1)" "rest s1" using silent [OF Cons.prems(1)] by blast
  moreover then obtain s' where "hearts hs s1 = Inr ([], s')" "rest s'" using Cons.IH [of s1] Cons.prems(2) by auto
  ultimately show ?case using h by simp
qed simp

lemma all_told: "ports srv \<subseteq> D \<Longrightarrow> snd ` set hs \<subseteq> set srv \<Longrightarrow> firsts D hs = []"
  by (induction hs) auto

lemma round:
  "phase D s \<Longrightarrow> snd ` set hs \<subseteq> set srv \<Longrightarrow>
   \<exists>s'. hearts hs s = Inr (map (\<lambda>fd. (fd, msg)) (firsts D hs), s')
     \<and> (if ports srv \<subseteq> D \<union> snd ` snd ` set hs then rest s' else phase (D \<union> snd ` snd ` set hs) s')"
proof (induction hs arbitrary: s D)
  case Nil
  then show ?case using open_phase by force
next
  case (Cons h hs)
  obtain fd x where h: "h = (fd, x)" by (cases h)
  then have x: "x \<in> set srv" "snd ` set hs \<subseteq> set srv" using Cons.prems(2) by auto
  let ?D = "insert (snd x) D"
  from tells [OF Cons.prems(1) x(1), of fd] obtain s1 where
    s1: "heart_beat1 fd (addr_of x) True s = Inr (if snd x \<notin> D then [(fd, msg)] else [], s1)"
    "if ?D = ports srv then rest s1 else phase ?D s1" by blast
  have f: "firsts D (h # hs) = (if snd x \<in> D then [] else [fd]) @ firsts ?D hs" using h by (simp add: insert_absorb)
  have D: "D \<union> snd ` snd ` set (h # hs) = ?D \<union> snd ` snd ` set hs" using h by auto
  show ?case
  proof (cases "?D = ports srv")
    case True
    then obtain s' where "hearts hs s1 = Inr ([], s')" "rest s'" using silence [OF _ x(2), of s1] s1(2) by auto
    moreover have "firsts ?D hs = []" using all_told [OF _ x(2), of ?D] True by simp
    ultimately show ?thesis using s1(1) h f D True by auto
  next
    case False
    then obtain s' where "hearts hs s1 = Inr (map (\<lambda>fd. (fd, msg)) (firsts ?D hs), s')"
      "if ports srv \<subseteq> ?D \<union> snd ` snd ` set hs then rest s' else phase (?D \<union> snd ` snd ` set hs) s'"
      using Cons.IH [OF _ x(2), of ?D s1] s1(2) by auto
    then have "hearts (h # hs) s = Inr (map (\<lambda>fd. (fd, msg)) (firsts D (h # hs)), s')" using s1(1) h by (auto simp: insert_absorb)
    then show ?thesis using \<open>if ports srv \<subseteq> ?D \<union> snd ` snd ` set hs then rest s' else phase (?D \<union> snd ` snd ` set hs) s'\<close> unfolding D by blast
  qed
qed

end

interpretation join: telling srv "adding srv" "calm srv" "(Some ADD_CACHE, map addr_of srv)" for srv
proof
  fix D s x fd assume "adding srv D s" "x \<in> set srv"
  then show "\<exists>s'. heart_beat1 fd (addr_of x) True s = Inr (if snd x \<notin> D then [(fd, Some ADD_CACHE, map addr_of srv)] else [], s')
      \<and> (if insert (snd x) D = ports srv then calm srv s' else adding srv (insert (snd x) D) s')" by (rule adding_heart)
next
  fix s x fd assume "calm srv s" "x \<in> set srv"
  then show "\<exists>s'. heart_beat1 fd (addr_of x) True s = Inr ([], s') \<and> calm srv s'" unfolding calm_def by (intro resting_heart) simp_all
next
  fix D s assume "adding srv D s"
  then show "D \<subset> ports srv" by (simp add: adding_def)
qed

interpretation leave: telling "others srv x" "losing srv x ip" "resting (left_list srv x ip) (others srv x)"
  "(Some REFLESH_IP1, map addr_of (left_list srv x ip))" for srv x ip
proof
  fix D s y fd assume "losing srv x ip D s" "y \<in> set (others srv x)"
  then show "\<exists>s'. heart_beat1 fd (addr_of y) True s = Inr (if snd y \<notin> D then [(fd, Some REFLESH_IP1, map addr_of (left_list srv x ip))] else [], s')
      \<and> (if insert (snd y) D = ports (others srv x) then resting (left_list srv x ip) (others srv x) s' else losing srv x ip (insert (snd y) D) s')"
    by (rule losing_heart)
next
  fix s y fd assume "resting (left_list srv x ip) (others srv x) s" "y \<in> set (others srv x)"
  then show "\<exists>s'. heart_beat1 fd (addr_of y) True s = Inr ([], s') \<and> resting (left_list srv x ip) (others srv x) s'" by (intro resting_heart) simp_all
next
  fix D s assume "losing srv x ip D s"
  then show "D \<subset> ports (others srv x)" by (simp add: losing_def)
qed

section \<open>Finding a silent server\<close>

text \<open>Every counter but that of the port has grown since the copy was made.\<close>

definition only_silent :: "nat \<Rightarrow> master1 \<Rightarrow> bool" where
  "only_silent q s \<longleftrightarrow> distinct (map fst (cachestatemap s)) \<and> shutport s \<noteq> nat_str q
    \<and> list_all (\<lambda>(k, n). case map_of (precachestatemap s) k of None \<Rightarrow> k \<noteq> nat_str q | Some m \<Rightarrow> (n \<le> m) = (k = nat_str q)) (cachestatemap s)
    \<and> nat_str q \<in> fst ` set (cachestatemap s)"

lemma same_counters: "\<exists>c. s = s\<lparr>cachestatemap := c\<rparr>"
  by (rule exI [of _ "cachestatemap s"]) simp

lemma fresh_counter:
  assumes "\<And>m. map_of (precachestatemap s) (fst kv) = Some m \<Longrightarrow> m < snd kv"
  shows "\<exists>c. hs_check_one kv s = s\<lparr>cachestatemap := c\<rparr>"
proof (cases "map_of (precachestatemap s) (fst kv)")
  case None
  then show ?thesis using same_counters by (simp add: hs_check_one_def)
next
  case (Some m)
  then have "\<not> snd kv \<le> m" using assms by (simp add: not_le)
  then show ?thesis using Some same_counters by (simp add: hs_check_one_def) blast
qed

lemma fresh_counters:
  "(\<And>kv m. kv \<in> set l \<Longrightarrow> map_of (precachestatemap s) (fst kv) = Some m \<Longrightarrow> m < snd kv) \<Longrightarrow>
   \<exists>c. fold hs_check_one l s = s\<lparr>cachestatemap := c\<rparr>"
proof (induction l arbitrary: s)
  case Nil
  show ?case unfolding fold.simps id_apply by (rule same_counters)
next
  case (Cons kv l)
  obtain c where c: "hs_check_one kv s = s\<lparr>cachestatemap := c\<rparr>" using fresh_counter [of s kv] Cons.prems by auto
  obtain c' where "fold hs_check_one l (s\<lparr>cachestatemap := c\<rparr>) = s\<lparr>cachestatemap := c\<rparr>\<lparr>cachestatemap := c'\<rparr>"
    using Cons.IH [of "s\<lparr>cachestatemap := c\<rparr>"] Cons.prems by auto
  then show ?case using c by auto
qed

lemma hs_check_finds:
  assumes "only_silent q s" and "flag6 s = 0"
  shows "\<exists>c. hs_check s = s\<lparr>psshutport := nat_str q, psshutip := heartip s, flag6 := 1, cachestatemap := c\<rparr>"
proof -
  obtain n where "(nat_str q, n) \<in> set (cachestatemap s)" using assms(1) by (auto simp: only_silent_def)
  then obtain l1 l2 where l: "cachestatemap s = l1 @ (nat_str q, n) # l2" by (meson split_list)
  have sil: "list_all (\<lambda>(k, n). case map_of (precachestatemap s) k of None \<Rightarrow> k \<noteq> nat_str q | Some m \<Rightarrow> (n \<le> m) = (k = nat_str q)) (cachestatemap s)"
    "distinct (map fst (cachestatemap s))" "shutport s \<noteq> nat_str q" using assms(1) by (simp_all add: only_silent_def)
  obtain m where m: "map_of (precachestatemap s) (nat_str q) = Some m" "n \<le> m" using sil(1) l by (auto split: option.splits)
  have fresh: "m < snd kv" if "kv \<in> set l1 \<union> set l2" "map_of (precachestatemap s) (fst kv) = Some m" for kv m
  proof -
    have "fst kv \<in> fst ` set l1 \<union> fst ` set l2" using that(1) by blast
    moreover have "nat_str q \<notin> fst ` set l1 \<union> fst ` set l2" using sil(2) l by simp
    ultimately have "fst kv \<noteq> nat_str q" by metis
    moreover have "kv \<in> set (cachestatemap s)" using l that(1) by auto
    then have "(snd kv \<le> m) = (fst kv = nat_str q)" using sil(1) that(2) by (cases kv) (auto simp: list_all_iff)
    ultimately show ?thesis by simp
  qed
  obtain c1 where c1: "fold hs_check_one l1 s = s\<lparr>cachestatemap := c1\<rparr>" using fresh_counters [of l1 s] fresh by auto
  let ?s = "s\<lparr>psshutport := nat_str q, psshutip := heartip s, flag6 := 1, cachestatemap := c1\<rparr>"
  have "hs_check_one (nat_str q, n) (s\<lparr>cachestatemap := c1\<rparr>) = ?s" using m assms(2) sil(3) by (simp add: hs_check_one_def)
  moreover obtain c2 where "fold hs_check_one l2 ?s = ?s\<lparr>cachestatemap := c2\<rparr>" using fresh_counters [of l2 ?s] fresh by auto
  ultimately show ?thesis using c1 l by (auto simp: hs_check_def)
qed

lemma found_losing:
  assumes "calm srv s" and "x \<in> set srv" and "only_silent (snd x) s" and "others srv x \<noteq> []"
  shows "losing srv x (heartip s) {} (hs_check s)"
proof -
  obtain c where "hs_check s = s\<lparr>psshutport := nat_str (snd x), psshutip := heartip s, flag6 := 1, cachestatemap := c\<rparr>"
    using hs_check_finds [OF assms(3)] assms(1) by (auto simp: calm_def resting_def)
  then show ?thesis using assms by (auto simp: losing_def calm_def resting_def listed_def)
qed

section \<open>Properties\<close>

text \<open>The first heartbeat that is let in, and the round after it.\<close>

lemma admitted_round:
  assumes "calm srv s" and "ports_ok (srv @ [x])" and "admits (snd x) s" and "snd ` set hs \<subseteq> set (srv @ [x])"
  shows "\<exists>s'. hearts ((fd, x) # hs) s = Inr (map (\<lambda>d. (d, Some ADD_CACHE, map addr_of (srv @ [x]))) (firsts {} ((fd, x) # hs)), s')
    \<and> (set (srv @ [x]) \<subseteq> insert x (snd ` set hs) \<longrightarrow> calm (srv @ [x]) s')"
proof -
  obtain s1 where s1: "heart_beat1 fd (addr_of x) True s = Inr ([(fd, Some ADD_CACHE, map addr_of (srv @ [x]))], s1)"
    "if {snd x} = ports (srv @ [x]) then calm (srv @ [x]) s1 else adding (srv @ [x]) {snd x} s1"
    using joining_heart [OF assms(1-3)] by blast
  show ?thesis
  proof (cases "{snd x} = ports (srv @ [x])")
    case True
    then obtain s' where "hearts hs s1 = Inr ([], s')" "calm (srv @ [x]) s'" using join.silence [OF _ assms(4), of s1] s1(2) by auto
    moreover have "firsts {snd x} hs = []" by (rule join.all_told [OF _ assms(4)]) (use True in blast)
    ultimately show ?thesis using s1(1) by simp
  next
    case False
    then obtain s' where s': "hearts hs s1 = Inr (map (\<lambda>d. (d, Some ADD_CACHE, map addr_of (srv @ [x]))) (firsts {snd x} hs), s')"
      "if ports (srv @ [x]) \<subseteq> {snd x} \<union> snd ` snd ` set hs then calm (srv @ [x]) s' else adding (srv @ [x]) ({snd x} \<union> snd ` snd ` set hs) s'"
      using join.round [OF _ assms(4), of "{snd x}" s1] s1(2) by auto
    have "ports (srv @ [x]) \<subseteq> {snd x} \<union> snd ` snd ` set hs" if "set (srv @ [x]) \<subseteq> insert x (snd ` set hs)"
      using image_mono [OF that, of snd] by simp
    then show ?thesis using s1(1) s' by auto
  qed
qed

text \<open>
  C36. A new server. The master is at rest and knows some servers; another one, whose port none of them has, sends heartbeats. Unless the master lets it in at
  once, it is first kept away: as after a loss or a shutdown, when \<open>flag4\<close> is set and \<open>num7\<close> is twenty, a number of its heartbeats, at
  most the difference of \<open>num7\<close> and \<open>num5\<close>, and one only when the flag is set and the port was not just shut down, are answered with nothing and change no list. The
  next one and any heartbeats of the known servers after it, in any order, are answered so: every server is sent the extended list with the
  command to add at its first heartbeat and nothing at later ones, and when all have been told the master is at rest with the extended list.
  A server on another host whose port is known is taken for the known one: it is told nothing and never listed.
\<close>

theorem new_server_told_once:
  assumes "calm srv s" and "ports_ok (srv @ [x])" and "snd ` set hs \<subseteq> set (srv @ [x])"
  shows "(\<exists>k s1 s'. k \<le> nat (num7 s - num5 s) \<and> (k = 0 \<longleftrightarrow> admits (snd x) s)
      \<and> (flag4 s = 1 \<and> nat_str (snd x) \<notin> set (shutportnow s) \<longrightarrow> k \<le> 1)
      \<and> hearts (replicate k (fd, x)) s = Inr ([], s1) \<and> calm srv s1
      \<and> hearts ((fd, x) # hs) s1 = Inr (map (\<lambda>d. (d, Some ADD_CACHE, map addr_of (srv @ [x]))) (firsts {} ((fd, x) # hs)), s')
      \<and> (set (srv @ [x]) \<subseteq> insert x (snd ` set hs) \<longrightarrow> calm (srv @ [x]) s'))
    \<and> (\<forall>y. snd y \<in> ports srv \<and> y \<notin> set srv \<longrightarrow> (\<exists>s'. heart_beat1 fd (addr_of y) True s = Inr ([], s') \<and> calm srv s'))"
proof
  obtain k s1 where k: "k \<le> nat (num7 s - num5 s)" "k = 0 \<longleftrightarrow> admits (snd x) s"
    "flag4 s = 1 \<and> nat_str (snd x) \<notin> set (shutportnow s) \<longrightarrow> k \<le> 1" "hearts (replicate k (fd, x)) s = Inr ([], s1)" "calm srv s1"
    "admits (snd x) s1" using kept_away [OF assms(1,2)] by blast
  from admitted_round [OF k(5) assms(2) k(6) assms(3), of fd] k(1-5)
  show "\<exists>k s1 s'. k \<le> nat (num7 s - num5 s) \<and> (k = 0 \<longleftrightarrow> admits (snd x) s)
      \<and> (flag4 s = 1 \<and> nat_str (snd x) \<notin> set (shutportnow s) \<longrightarrow> k \<le> 1)
      \<and> hearts (replicate k (fd, x)) s = Inr ([], s1) \<and> calm srv s1
      \<and> hearts ((fd, x) # hs) s1 = Inr (map (\<lambda>d. (d, Some ADD_CACHE, map addr_of (srv @ [x]))) (firsts {} ((fd, x) # hs)), s')
      \<and> (set (srv @ [x]) \<subseteq> insert x (snd ` set hs) \<longrightarrow> calm (srv @ [x]) s')" by blast
next
  show "\<forall>y. snd y \<in> ports srv \<and> y \<notin> set srv \<longrightarrow> (\<exists>s'. heart_beat1 fd (addr_of y) True s = Inr ([], s') \<and> calm srv s')"
    using resting_heart [of srv srv s] assms(1) unfolding calm_def by blast
qed

text \<open>
  C37. A lost server. When the heartbeat counters of a master at rest show exactly one silent server, then any heartbeats of
  the others, in any order, are answered so: every one of them is sent the new list and the command to
  refresh at its first heartbeat and nothing later, and when all have been told the master is at rest: it counts the others and gives out the new list.
  The new list is the one without the lost server only if that is on the host of the last heartbeat before the loss was noticed. If it is
  on another host, the new list is the old one, and the lost server stays in it.
\<close>

theorem lost_server_told_once:
  assumes "calm srv s" and "x \<in> set srv" and "only_silent (snd x) s" and "others srv x \<noteq> []"
    and "snd ` set hs \<subseteq> set (others srv x)"
  shows "\<exists>s' new. new = (if fst x = heartip s then others srv x else srv)
    \<and> hearts hs (hs_check s) = Inr (map (\<lambda>d. (d, Some REFLESH_IP1, map addr_of new)) (firsts {} hs), s')
    \<and> (set (others srv x) \<subseteq> snd ` set hs \<longrightarrow> resting new (others srv x) s')"
proof -
  let ?l = "left_list srv x (heartip s)"
  obtain s' where s': "hearts hs (hs_check s) = Inr (map (\<lambda>d. (d, Some REFLESH_IP1, map addr_of ?l)) (firsts {} hs), s')"
    "if ports (others srv x) \<subseteq> {} \<union> snd ` snd ` set hs then resting ?l (others srv x) s'
     else losing srv x (heartip s) ({} \<union> snd ` snd ` set hs) s'"
    using leave.round [OF found_losing [OF assms(1-4)] assms(5)] by blast
  have "ports (others srv x) \<subseteq> {} \<union> snd ` snd ` set hs" if "set (others srv x) \<subseteq> snd ` set hs"
    using image_mono [OF that, of snd] by simp
  then have "set (others srv x) \<subseteq> snd ` set hs \<longrightarrow> resting ?l (others srv x) s'" using s'(2) by auto
  then show ?thesis using s'(1) unfolding left_list_def by blast
qed

section \<open>Examples\<close>

definition example_master :: "server list \<Rightarrow> master1" where
  "example_master srv =
     master1_init\<lparr>IPportlist := map addr_of srv, Portlist := map (int \<circ> snd) srv, cachemap := marks srv {}, cachemapshut := marks srv {},
       heartip := ''127.0.0.1'', cachestatemap := [(nat_str 8000, 5), (nat_str 8001, 7)], precachestatemap := [(nat_str 8000, 5), (nat_str 8001, 6)]\<rparr>"

lemma example_calm: "ports_ok srv \<Longrightarrow> calm srv (example_master srv)"
  by (simp add: calm_def resting_def listed_def example_master_def master1_init_def)

lemma example_silent: "only_silent 8000 (example_master srv)"
  using nat_str_nonempty [of 8000] by (simp add: only_silent_def example_master_def master1_init_def)

text \<open>The master as a loss leaves it.\<close>

definition master_after_loss :: "server list \<Rightarrow> master1" where
  "master_after_loss srv = (example_master srv)\<lparr>flag4 := 1, num7 := 20\<rparr>"

theorem new_server_told_once_witness:
  "\<exists>s1 s'. hearts [(6, ''h'', 8001)] (master_after_loss [(''h'', 8000)]) = Inr ([], s1)
   \<and> hearts [(6, ''h'', 8001), (5, ''h'', 8000), (6, ''h'', 8001), (5, ''h'', 8000)] s1
     = Inr ([(6, Some ADD_CACHE, [addr_of (''h'', 8000), addr_of (''h'', 8001)]), (5, Some ADD_CACHE, [addr_of (''h'', 8000), addr_of (''h'', 8001)])], s')
   \<and> calm [(''h'', 8000), (''h'', 8001)] s'"
proof -
  let ?s = "master_after_loss [(''h'', 8000)]" and ?hs = "[(5, ''h'', 8000), (6, ''h'', 8001), (5, ''h'', 8000)] :: (int \<times> server) list"
  have c: "calm [(''h'', 8000)] ?s" using example_calm [of "[(''h'', 8000)]"]
    by (simp add: master_after_loss_def calm_def resting_def listed_def ports_ok_def INT_MAX_def)
  have p: "ports_ok ([(''h'', 8000)] @ [(''h'', 8001)])" by (simp add: ports_ok_def INT_MAX_def)
  have f: "flag4 ?s = 1" "shutportnow ?s = []" "\<not> admits (snd (''h'', 8001)) ?s"
    by (simp_all add: master_after_loss_def example_master_def master1_init_def admits_def)
  have sub: "snd ` set ?hs \<subseteq> set ([(''h'', 8000)] @ [(''h'', 8001)])" by simp
  obtain k s1 s' where k: "k = 0 \<longleftrightarrow> admits (snd (''h'', 8001)) ?s" "k \<le> 1" "hearts (replicate k (6, ''h'', 8001)) ?s = Inr ([], s1)"
    "hearts ((6, ''h'', 8001) # ?hs) s1 = Inr (map (\<lambda>d. (d, Some ADD_CACHE, map addr_of ([(''h'', 8000)] @ [(''h'', 8001)]))) (firsts {} ((6, ''h'', 8001) # ?hs)), s')"
    "set ([(''h'', 8000)] @ [(''h'', 8001)]) \<subseteq> insert (''h'', 8001) (snd ` set ?hs) \<longrightarrow> calm ([(''h'', 8000)] @ [(''h'', 8001)]) s'"
    using new_server_told_once [OF c p sub, of 6] f(1,2) by auto
  have "k = 1" using k(1,2) f(3) by (cases k) auto
  then show ?thesis using k(3-5) by (intro exI [of _ s1] exI [of _ s']) (simp del: hearts.simps)
qed

theorem lost_server_told_once_witness:
  "(\<exists>s'. hearts [(6, ''127.0.0.1'', 8001), (6, ''127.0.0.1'', 8001)] (hs_check (example_master [(''127.0.0.1'', 8000), (''127.0.0.1'', 8001)]))
     = Inr ([(6, Some REFLESH_IP1, [addr_of (''127.0.0.1'', 8001)])], s') \<and> calm [(''127.0.0.1'', 8001)] s')
   \<and> (\<exists>s'. hearts [(6, ''127.0.0.1'', 8001)] (hs_check (example_master [(''h'', 8000), (''127.0.0.1'', 8001)]))
     = Inr ([(6, Some REFLESH_IP1, [addr_of (''h'', 8000), addr_of (''127.0.0.1'', 8001)])], s'))"
proof
  let ?a = "(''127.0.0.1'', 8000) :: server" and ?b = "(''127.0.0.1'', 8001) :: server" and ?c = "(''h'', 8000) :: server"
  have sil: "only_silent (snd y) (example_master [y, ?b])" if "snd y = 8000" for y
    unfolding that by (rule example_silent)
  have m: "calm [y, ?b] (example_master [y, ?b])" "heartip (example_master [y, ?b]) = ''127.0.0.1''" "others [y, ?b] y = [?b]" "others [y, ?b] y \<noteq> []"
    "y \<in> set [y, ?b]" if "snd y = 8000" for y
    using that example_calm [of "[y, ?b]"] by (simp_all add: ports_ok_def INT_MAX_def others_def example_master_def)
  have sub: "snd ` set [(6::int, ?b), (6, ?b)] \<subseteq> set (others [?a, ?b] ?a)" "snd ` set [(6::int, ?b)] \<subseteq> set (others [?c, ?b] ?c)"
    using m(3) [of ?a] m(3) [of ?c] by simp_all
  from lost_server_told_once [OF m(1,5) sil m(4) sub(1)]
  show "\<exists>s'. hearts [(6, ?b), (6, ?b)] (hs_check (example_master [?a, ?b])) = Inr ([(6, Some REFLESH_IP1, [addr_of ?b])], s') \<and> calm [?b] s'"
    using m(2,3) [of ?a] by (simp add: calm_def del: hearts.simps)
  from lost_server_told_once [OF m(1,5) sil m(4) sub(2)]
  show "\<exists>s'. hearts [(6, ?b)] (hs_check (example_master [?c, ?b])) = Inr ([(6, Some REFLESH_IP1, [addr_of ?c, addr_of ?b])], s')"
    using m(2,3) [of ?c] by (auto simp: calm_def simp del: hearts.simps)
qed

end
