(* ===== verification/Second_Master.thy ===== *)
theory Second_Master
  imports Master_Rounds
begin

text \<open>
  The second master of the first version (master_basical.cpp and master_json.h of Project/DistributedCacheSystem/Master/master2): it mirrors the list of servers from the heartbeats of the
  first master, and when these stop it tells every server its own address and takes over. Its answers to requests are those of the
  first master and are not repeated here.
\<close>

section \<open>State and operations\<close>

record master2 = master1 +
  flag7 :: int
  premasterstatemap :: "(string \<times> int) list"

definition mirror_master :: "m1_info \<Rightarrow> master2 \<Rightarrow> master2 res" where
  "mirror_master info s =
     (if \<not> j_object info then Inl (Uncaught_Exception ''json'')
      else if j_type info = Some SPARE_MASTER \<and> flag7 s = 0 then
        bind_res (member (j_ip info)) (\<lambda>masterdata. bind_res (member (j_list info)) (\<lambda>vec.
        case cut_addr masterdata of (ip, port) \<Rightarrow>
        Inr (s\<lparr>IPportlist := (if vec \<noteq> [] then vec else IPportlist s), masterip := ip, masterport := port,
             masterstatemap := (if map_of (masterstatemap s) port = None then emplace (masterstatemap s) port 0
                                else bump (masterstatemap s) port)\<rparr>)))
      else Inr s)"

text \<open>The host and the port are cut at fixed places; a position behind the end is an exception.\<close>

definition fixed_cut :: "string \<Rightarrow> (string \<times> string) res" where
  "fixed_cut a = (if length a < 10 then Inl (Uncaught_Exception ''out_of_range'') else Inr (take 9 a, take 4 (drop 10 a)))"

text \<open>\<open>Socket_connect\<close> of this master tries until it is connected.\<close>

fun connect_until :: "(int \<times> int) list \<Rightarrow> (int \<times> (int \<times> int) list) res" where
  "connect_until [] = Inl No_Return"
| "connect_until ((s, c) # as) = bind_res (Socket s) (\<lambda>fd. if c < 0 then connect_until as else Inr (fd, as))"

text \<open>Called for a second connection, it first closes a variable that was never set.\<close>

definition Socket_connect2 :: "bool \<Rightarrow> (int \<times> int) list \<Rightarrow> (int \<times> (int \<times> int) list) res" where
  "Socket_connect2 first_call as = (if first_call then connect_until as else Inl Uninit_Read)"

text \<open>The writes to one server; the list has an entry for each.\<close>

fun write_until :: "(int \<times> int) list \<Rightarrow> (int \<times> errno) list list \<Rightarrow> unit res" where
  "write_until as [] = Inl No_Return"
| "write_until as (ws # wss) =
     bind_res (Write ws) (\<lambda>n. if n < 0 then bind_res (Socket_connect2 False as) (\<lambda>(fd, r). write_until r wss) else Inr ())"

definition tell_master :: "(int \<times> int) list \<times> (int \<times> errno) list list \<Rightarrow> string \<Rightarrow> (string \<times> int) res" where
  "tell_master ans a =
     bind_res (fixed_cut a) (\<lambda>(ip, port).
     bind_res (atoi port) (\<lambda>p.
     bind_res (Socket_connect2 True (fst ans)) (\<lambda>(fd, r).
     bind_res (write_until r (snd ans)) (\<lambda>_. Inr (ip, p)))))"

fun tell_all :: "(string \<Rightarrow> (int \<times> int) list \<times> (int \<times> errno) list list) \<Rightarrow> string list \<Rightarrow> (string \<times> int) list res" where
  "tell_all ans [] = Inr []"
| "tell_all ans (a # as) = bind_res (tell_master (ans a) a) (\<lambda>x. bind_res (tell_all ans as) (\<lambda>xs. Inr (x # xs)))"

text \<open>What is sent to each.\<close>

definition refreshmaster :: kv_info where
  "refreshmaster = \<lparr>i_type = Some REFLESH_MASTER, i_key = None, i_value = None, i_master = Some ''127.0.0.1:7001''\<rparr>"

text \<open>The check of the counters one and a half seconds after the copy; a master that is silent is replaced.\<close>

fun masterstate :: "(string \<Rightarrow> (int \<times> int) list \<times> (int \<times> errno) list list) \<Rightarrow> (string \<times> int) list \<Rightarrow> master2 \<Rightarrow> ((string \<times> int) list \<times> master2) res" where
  "masterstate ans [] s = Inr ([], s)"
| "masterstate ans ((k, n) # ms) s =
     (case map_of (premasterstatemap s) k of None \<Rightarrow> masterstate ans ms s
      | Some before \<Rightarrow>
          if n \<le> before then
            bind_res (tell_all ans (IPportlist s)) (\<lambda>told.
            bind_res (masterstate ans ms (s\<lparr>IPportlist := [], flag7 := 1\<rparr>)) (\<lambda>(told', s1). Inr (told @ told', s1)))
          else masterstate ans ms s)"

section \<open>Taking over\<close>

definition answers_at_once :: "(int \<times> int) list \<times> (int \<times> errno) list list \<Rightarrow> bool" where
  "answers_at_once ans \<longleftrightarrow> (\<exists>s c as n e ws. ans = ((s, c) # as, ((n, e) # ws) # []) \<and> 0 \<le> s \<and> 0 \<le> c \<and> 0 \<le> n)"

lemma tell_master_ok:
  assumes "answers_at_once ans" and "length (fst x) = 9" and "length (nat_str (snd x)) = 4" and "int (snd x) \<le> INT_MAX"
  shows "tell_master ans (addr_of x) = Inr (fst x, int (snd x))"
proof -
  have "fixed_cut (addr_of x) = Inr (fst x, nat_str (snd x))" using assms(2,3) by (simp add: fixed_cut_def addr_of_def)
  then show ?thesis using assms by (auto simp: tell_master_def answers_at_once_def Socket_connect2_def Socket_def)
qed

lemma tell_all_ok:
  "\<forall>x\<in>set srv. answers_at_once (ans (addr_of x)) \<and> length (fst x) = 9 \<and> length (nat_str (snd x)) = 4 \<and> int (snd x) \<le> INT_MAX \<Longrightarrow>
   tell_all ans (map addr_of srv) = Inr (map (\<lambda>x. (fst x, int (snd x))) srv)"
  by (induction srv) (simp_all add: tell_master_ok)

text \<open>
  When the counter of the first master has not grown, every server of the mirrored list is sent the new address, if its host has nine
  characters and its port four and it can be reached; a server that handles the message reports to the second master from then on.
\<close>

lemma second_master_takes_over:
  assumes "masterstatemap s = [(k, n)]" and "map_of (premasterstatemap s) k = Some before" and "n \<le> before"
    and "IPportlist s = map addr_of srv"
    and "\<forall>x\<in>set srv. answers_at_once (ans (addr_of x)) \<and> length (fst x) = 9 \<and> length (nat_str (snd x)) = 4 \<and> int (snd x) \<le> INT_MAX"
  shows "masterstate ans (masterstatemap s) s = Inr (map (\<lambda>x. (fst x, int (snd x))) srv, s\<lparr>IPportlist := [], flag7 := 1\<rparr>)
    \<and> handle_info env fd refreshmaster c = Inr ([], c\<lparr>c_master := ''127.0.0.1:7001''\<rparr>)"
  using assms tell_all_ok [of srv ans]
  by (simp add: handle_info_def refreshmaster_def member_def refleshmaster_def REFLESH_MASTER_def KEY_VALUE_REQUEST_def
      KEY_VALUE_RESPOND_def KEY_VALUE_RESPONDBK_def)

text \<open>A server of the list that never accepts keeps the second master from taking over.\<close>

lemma unreachable_hangs: "\<forall>(s, c)\<in>set as. 0 \<le> s \<and> c < 0 \<Longrightarrow> connect_until as = Inl No_Return"
  by (induction as rule: connect_until.induct) (auto simp: Socket_def)

lemma takeover_hangs:
  assumes "length a \<ge> 10" and "atoi (take 4 (drop 10 a)) = Inr p" and "\<forall>(s, c)\<in>set (fst (ans a)). 0 \<le> s \<and> c < 0"
    and "masterstatemap s = [(k, n)]" and "map_of (premasterstatemap s) k = Some before" and "n \<le> before" and "IPportlist s = a # rest"
  shows "masterstate ans (masterstatemap s) s = Inl No_Return"
  using assms unreachable_hangs [OF assms(3)] by (simp add: tell_master_def Socket_connect2_def fixed_cut_def not_less)

end
