(* ===== verification/First_Client.thy ===== *)
theory First_Client
  imports Dcs_Client Backup_Ring
begin

text \<open>
  The client of the first version (client.hpp and wrap.hpp of Project/DistributedCacheSystem/Client), over the network of \<open>Dcs_Client\<close>: its loops
  are those of the later client with other retries. When a server does not answer, the client pulls the list of servers again and asks the
  server that the new ring names.
\<close>

section \<open>Reading, writing, connecting\<close>

text \<open>Three failures or ends of the stream that are not interrupts give \<open>-1\<close>.\<close>

fun Read1_from :: "nat \<Rightarrow> read_answer list \<Rightarrow> char list \<Rightarrow> (int \<times> char list) res" where
  "Read1_from j [] buf = Inl No_Return"
| "Read1_from j ((a, e) # as) buf =
     (if a \<noteq> None \<and> a \<noteq> Some [] then bind_res (vcopy buf 0 (the a)) (\<lambda>b. Inr (int (length (the a)), b))
      else if e = EINTR then Read1_from j as buf
      else if j + 1 > 2 then Inr (-1, buf) else Read1_from (j + 1) as buf)"

fun Write1 :: "(int \<times> errno) list \<Rightarrow> int res" where
  "Write1 [] = Inl No_Return"
| "Write1 ((n, e) # as) = (if 0 \<le> n then Inr n else if e = EINTR then Write1 as else Inr (-1))"

fun connect_retry1 :: "nat \<Rightarrow> int \<Rightarrow> int \<Rightarrow> ipport_pair \<Rightarrow> net \<Rightarrow> (int \<times> int \<times> net) res" where
  "connect_retry1 0 n fd ip w = Inr (n, fd, w)"
| "connect_retry1 (Suc k) n fd ip w =
     bind_res (connect_once ip w) (\<lambda>(n', fd', w1). if n' \<ge> 0 then Inr (n', fd', w1) else connect_retry1 k n' fd' ip w1)"

definition ConnectServ1 :: "ipport_pair \<Rightarrow> net \<Rightarrow> (int \<times> int \<times> net) res" where
  "ConnectServ1 ip w =
     bind_res (connect_once ip w) (\<lambda>(n, fd, w1). if n < 0 then connect_retry1 4 n fd ip w1 else Inr (n, fd, w1))"

text \<open>Appending the literal adds nothing; the terminator of \<open>data()\<close> is written.\<close>

definition WriteData1 :: "int \<Rightarrow> string \<Rightarrow> net \<Rightarrow> (int \<times> net) res" where
  "WriteData1 fd text w =
     bind_res (next_answer (n_write w)) (\<lambda>(as, r).
     bind_res (Write1 as) (\<lambda>nwrite.
     Inr (nwrite, w\<lparr>n_write := r,
       n_log := n_log w @ (if nwrite < 0 then [] else [Sent fd (take (nat nwrite) (text @ [NUL]))])\<rparr>)))"

definition ReadData1 :: "client_json \<Rightarrow> net \<Rightarrow> (client_reply \<times> net) res" where
  "ReadData1 lib w =
     bind_res (next_answer (n_read w)) (\<lambda>((bufin, as), r).
     bind_res (Read1_from 0 as bufin) (\<lambda>(n, b).
     if n \<le> 0 then Inr (empty_reply, w\<lparr>n_read := r\<rparr>)
     else
       (case reply_of lib (array_text b) of None \<Rightarrow> perr_exit | Some js \<Rightarrow> Inr (js, w\<lparr>n_read := r\<rparr>))))"

section \<open>The client\<close>

record client1 =
  cl1_hash :: con_hash1
  cl1_iplist :: "string list"
  cl1_start :: int
  cl1_writefd :: int
  cl1_reqfd :: int
  cl1_masterfd :: int
  cl1_net :: net

definition dial_master1 :: "ipport_pair \<Rightarrow> net \<Rightarrow> (ipport_pair \<times> int \<times> net) res" where
  "dial_master1 masterip w =
     bind_res (ConnectServ1 masterip w) (\<lambda>(n, fd, w1).
     if n \<noteq> 0 then
       bind_res (get_ipport MASTER_IP_BACKUP) (\<lambda>backup.
       bind_res (ConnectServ1 backup w1) (\<lambda>(n', fd', w2). if n' \<noteq> 0 then perr_exit else Inr (backup, fd', w2)))
     else Inr (masterip, fd, w1))"

lemma connect_retry1_keeps:
  "connect_retry1 k n fd ip w = Inr (n', fd', w') \<Longrightarrow> n_write w' = n_write w \<and> n_time w' = n_time w"
  by (induction k arbitrary: n fd w) (auto simp: res_simps split: if_splits dest!: connect_once_keeps)

lemma ConnectServ1_keeps: "ConnectServ1 ip w = Inr (n, fd, w') \<Longrightarrow> n_write w' = n_write w \<and> n_time w' = n_time w"
  by (auto simp: ConnectServ1_def res_simps split: if_splits dest!: connect_once_keeps connect_retry1_keeps)

lemma WriteData1_keeps:
  "WriteData1 fd text w = Inr (n, w') \<Longrightarrow> length (n_write w') < length (n_write w) \<and> n_time w' = n_time w"
  by (auto simp: WriteData1_def res_simps dest!: next_answer_shorter)

lemma ReadData1_keeps: "ReadData1 lib w = Inr (js, w') \<Longrightarrow> n_time w' = n_time w"
  by (auto simp: ReadData1_def perr_exit_def res_simps split: if_splits option.splits)

lemma dial_master1_keeps: "dial_master1 ip w = Inr (ip', fd, w') \<Longrightarrow> n_write w' = n_write w \<and> n_time w' = n_time w"
  by (auto simp: dial_master1_def perr_exit_def res_simps split: if_splits dest!: ConnectServ1_keeps)

function ask_master1 :: "client_json \<Rightarrow> ipport_pair \<Rightarrow> net \<Rightarrow> (int \<times> net) res" where
  "ask_master1 lib masterip w =
     bind_res (dial_master1 masterip w) (\<lambda>(ip, fd, w1).
     bind_res (WriteData1 fd (dump_distribution lib) w1) (\<lambda>(nwrite, w2).
     if nwrite < 0 then ask_master1 lib ip w2 else Inr (fd, w2)))"
  by pat_completeness auto
termination
  by (relation "measure (\<lambda>(lib, ip, w). length (n_write w))") (auto dest!: dial_master1_keeps WriteData1_keeps)

declare ask_master1.simps [simp del]

lemma ask_master1_keeps: "ask_master1 lib ip w = Inr (fd, w') \<Longrightarrow> n_time w' = n_time w"
proof (induction lib ip w rule: ask_master1.induct)
  case (1 lib ip w)
  from 1(2) obtain ip1 fd1 w1 n w2 where d: "dial_master1 ip w = Inr (ip1, fd1, w1)"
    and wd: "WriteData1 fd1 (dump_distribution lib) w1 = Inr (n, w2)"
    and r: "(if n < 0 then ask_master1 lib ip1 w2 else Inr (fd1, w2)) = Inr (fd, w')"
    by (subst (asm) ask_master1.simps) (auto simp: res_simps)
  have "n_time w2 = n_time w" using dial_master1_keeps [OF d] WriteData1_keeps [OF wd] by simp
  then show ?case using r 1(1) [OF d refl refl wd refl] by (auto split: if_splits)
qed

text \<open>The list in an answer of type \<open>DISTRIBUTION_RESPOND\<close>.\<close>

definition iplist1_of :: "client_reply \<Rightarrow> string list res" where
  "iplist1_of js =
     (case js of Not_Object e \<Rightarrow> Inl (Uncaught_Exception ''json'')
      | Reply r \<Rightarrow>
          if ro_type r \<noteq> Some 4 then perr_exit
          else
            (case ro_data r of None \<Rightarrow> Inl (Uncaught_Exception ''json'')
             | Some d \<Rightarrow>
                 (case rd_iplist d of None \<Rightarrow> Inl (Uncaught_Exception ''json'') | Some l \<Rightarrow> if l = [] then perr_exit else Inr l)))"

definition DistributionRequest2 :: "client_json \<Rightarrow> client1 \<Rightarrow> client1 res" where
  "DistributionRequest2 lib c =
     bind_res (get_ipport MASTER_IP) (\<lambda>masterip.
     bind_res (ask_master1 lib masterip (cl1_net c)) (\<lambda>(fd, w1).
     bind_res (ReadData1 lib w1) (\<lambda>(js, w2).
     bind_res (iplist1_of js) (\<lambda>l.
     bind_res (net_time w2) (\<lambda>(t, w3).
     bind_res (net_close w3) (\<lambda>w4.
     Inr (c\<lparr>cl1_iplist := l, cl1_hash := RefreshIPList (cl1_hash c) l, cl1_start := t, cl1_masterfd := fd, cl1_net := w4\<rparr>)))))))"

lemma DistributionRequest2_keeps:
  "DistributionRequest2 lib c = Inr c' \<Longrightarrow> length (n_time (cl1_net c')) < length (n_time (cl1_net c))"
  by (auto simp: DistributionRequest2_def res_simps dest!: ask_master1_keeps ReadData1_keeps net_time_keeps net_close_keeps)

definition Client1_new :: "client_json \<Rightarrow> client1 \<Rightarrow> client1 res" where
  "Client1_new lib c = DistributionRequest2 lib c"

definition Client1_of_list :: "string list \<Rightarrow> client1 \<Rightarrow> client1 res" where
  "Client1_of_list iplist c =
     bind_res (net_time (cl1_net c)) (\<lambda>(t, w).
     Inr (c\<lparr>cl1_iplist := iplist, cl1_hash := RefreshIPList (cl1_hash c) iplist, cl1_start := t, cl1_net := w\<rparr>))"

definition CountTime1 :: "client_json \<Rightarrow> client1 \<Rightarrow> client1 res" where
  "CountTime1 lib c =
     bind_res (net_time (cl1_net c)) (\<lambda>(end, w).
     if end < cl1_start c then perr_exit
     else if end - cl1_start c > TIME_OUT then DistributionRequest2 lib (c\<lparr>cl1_net := w\<rparr>)
     else Inr (c\<lparr>cl1_net := w\<rparr>))"

lemma CountTime1_keeps: "CountTime1 lib c = Inr c' \<Longrightarrow> length (n_time (cl1_net c')) < length (n_time (cl1_net c))"
  by (auto simp: CountTime1_def perr_exit_def res_simps split: if_splits dest!: net_time_keeps DistributionRequest2_keeps)

definition server1_of :: "string \<Rightarrow> client1 \<Rightarrow> ipport_pair res" where
  "server1_of key c = bind_res (GetServerIndex1 (cl1_hash c) key) get_ipport"

text \<open>While the connection fails: the list again, then the server that the ring now names.\<close>

function reconnect1 :: "client_json \<Rightarrow> string \<Rightarrow> ipport_pair \<Rightarrow> int \<Rightarrow> int \<Rightarrow> client1 \<Rightarrow> (ipport_pair \<times> int \<times> client1) res" where
  "reconnect1 lib key oneip n fd c =
     (if n < 0 then
        bind_res (DistributionRequest2 lib c) (\<lambda>c1.
        bind_res (server1_of key c1) (\<lambda>ip.
        bind_res (ConnectServ1 ip (cl1_net c1)) (\<lambda>(n', fd', w). reconnect1 lib key ip n' fd' (c1\<lparr>cl1_net := w\<rparr>))))
      else Inr (oneip, fd, c))"
  by pat_completeness auto
termination
  by (relation "measure (\<lambda>(lib, key, ip, n, fd, c). length (n_time (cl1_net c)))") (auto dest!: DistributionRequest2_keeps ConnectServ1_keeps)

declare reconnect1.simps [simp del]

lemma reconnect1_keeps: "reconnect1 lib key ip n fd c = Inr (ip', fd', c') \<Longrightarrow> length (n_time (cl1_net c')) \<le> length (n_time (cl1_net c))"
proof (induction lib key ip n fd c rule: reconnect1.induct)
  case (1 lib key ip n fd c)
  show ?case
  proof (cases "n < 0")
    case True
    with 1(2) obtain c1 ip1 n1 fd1 w where d: "DistributionRequest2 lib c = Inr c1" and s: "server1_of key c1 = Inr ip1"
      and k: "ConnectServ1 ip1 (cl1_net c1) = Inr (n1, fd1, w)"
      and r: "reconnect1 lib key ip1 n1 fd1 (c1\<lparr>cl1_net := w\<rparr>) = Inr (ip', fd', c')"
      by (subst (asm) reconnect1.simps) (auto simp: res_simps)
    from 1(1) [OF True d s k refl refl r] show ?thesis
      using DistributionRequest2_keeps [OF d] ConnectServ1_keeps [OF k] by simp
  qed (use 1(2) in \<open>simp add: reconnect1.simps\<close>)
qed

definition connect_key :: "client_json \<Rightarrow> string \<Rightarrow> client1 \<Rightarrow> (ipport_pair \<times> int \<times> client1) res" where
  "connect_key lib key c =
     bind_res (server1_of key c) (\<lambda>oneip.
     bind_res (ConnectServ1 oneip (cl1_net c)) (\<lambda>(n, fd, w). reconnect1 lib key oneip n fd (c\<lparr>cl1_net := w\<rparr>)))"

lemma connect_key_keeps: "connect_key lib key c = Inr (ip, fd, c') \<Longrightarrow> length (n_time (cl1_net c')) \<le> length (n_time (cl1_net c))"
  by (auto simp: connect_key_def res_simps dest!: reconnect1_keeps ConnectServ1_keeps)

section \<open>Getting a value\<close>

function get_loop1 :: "client_json \<Rightarrow> string \<Rightarrow> nat \<Rightarrow> client1 \<Rightarrow> (string \<times> client1) res" where
  "get_loop1 lib key j c =
     bind_res (CountTime1 lib c) (\<lambda>c1.
     bind_res (connect_key lib key c1) (\<lambda>(oneip, fd, c2).
     bind_res (WriteData1 fd (dump_get lib key) (cl1_net c2)) (\<lambda>(nwrite, w2).
     if nwrite < 0 then
       bind_res (DistributionRequest2 lib (c2\<lparr>cl1_reqfd := fd, cl1_net := w2\<rparr>)) (\<lambda>c3. get_loop1 lib key j c3)
     else
       bind_res (ReadData1 lib w2) (\<lambda>(jsin, w3).
       case jsin of
         Not_Object e \<Rightarrow> if e then perr_exit else Inl (Uncaught_Exception ''json'')
       | Reply r \<Rightarrow>
           if ro_empty r then perr_exit
           else
             (case ro_data r of
                None \<Rightarrow> Inl (Uncaught_Exception ''json'')
              | Some d \<Rightarrow>
                  if rd_flag d = Some False then
                    bind_res (DistributionRequest2 lib (c2\<lparr>cl1_reqfd := fd, cl1_net := w3\<rparr>)) (\<lambda>c3.
                    if j + 1 > 2 then perr_exit else get_loop1 lib key (j + 1) c3)
                  else if ro_type r = Some 0 \<and> rd_key d = Some key then
                    bind_res (net_close w3) (\<lambda>w4.
                    case rd_value d of
                      None \<Rightarrow> Inl (Uncaught_Exception ''json'')
                    | Some v \<Rightarrow> Inr (v, c2\<lparr>cl1_reqfd := fd, cl1_net := w4\<rparr>))
                  else perr_exit)))))"
  by pat_completeness auto
termination
  by (relation "measure (\<lambda>(lib, key, j, c). length (n_time (cl1_net c)))")
     (auto dest!: CountTime1_keeps connect_key_keeps WriteData1_keeps DistributionRequest2_keeps ReadData1_keeps)

declare get_loop1.simps [simp del]

definition KeyValueRequest :: "client_json \<Rightarrow> string \<Rightarrow> client1 \<Rightarrow> (string \<times> client1) res" where
  "KeyValueRequest lib key c = get_loop1 lib key 0 c"

section \<open>Setting values\<close>

definition put_first1 :: "client_json \<Rightarrow> string \<times> string \<Rightarrow> client1 \<Rightarrow> (ipport_pair \<times> client1) res" where
  "put_first1 lib kv c =
     (case kv of (key, value) \<Rightarrow>
      bind_res (CountTime1 lib c) (\<lambda>c1.
      bind_res (connect_key lib key c1) (\<lambda>(oneip, fd, c2).
      bind_res (WriteData1 fd (dump_set lib key value) (cl1_net c2)) (\<lambda>(nwrite, w).
      let oneipbf = if nwrite < 0 then oneip\<lparr>ip_port := 0\<rparr> else oneip in
      Inr (oneipbf, c2\<lparr>cl1_writefd := fd, cl1_net := log_key key value (ip_port oneipbf) w\<rparr>)))))"

definition put_round1 :: "client_json \<Rightarrow> string \<times> string \<Rightarrow> ipport_pair \<times> client1 \<Rightarrow> (ipport_pair \<times> client1) res" where
  "put_round1 lib kv s =
     (case kv of (key, value) \<Rightarrow> case s of (oneipbf, c) \<Rightarrow>
      bind_res (CountTime1 lib c) (\<lambda>c1.
      bind_res (server1_of key c1) (\<lambda>oneip.
      bind_res
        (if ip_addr oneip \<noteq> ip_addr oneipbf \<or> ip_port oneip \<noteq> ip_port oneipbf then
           bind_res (net_close (cl1_net c1)) (\<lambda>w. connect_key lib key (c1\<lparr>cl1_net := w\<rparr>))
         else Inr (oneip, cl1_writefd c1, c1)) (\<lambda>(ip, fd, c2).
      bind_res (WriteData1 fd (dump_set lib key value) (cl1_net c2)) (\<lambda>(nwrite, w).
      if nwrite < 0 then Inr (oneipbf\<lparr>ip_port := 0\<rparr>, c2\<lparr>cl1_writefd := fd, cl1_net := w\<rparr>)
      else Inr (ip, c2\<lparr>cl1_writefd := fd, cl1_net := log_key key value (ip_port ip) w\<rparr>))))))"

text \<open>\<open>KeyValueWrite\<close> never returns; this is its state after the given pairs.\<close>

fun put_rounds1 :: "client_json \<Rightarrow> (string \<times> string) list \<Rightarrow> ipport_pair \<times> client1 \<Rightarrow> (ipport_pair \<times> client1) res" where
  "put_rounds1 lib [] s = Inr s"
| "put_rounds1 lib (kv # kvs) s = bind_res (put_round1 lib kv s) (\<lambda>s1. put_rounds1 lib kvs s1)"

definition KeyValueWrite :: "client_json \<Rightarrow> bool \<Rightarrow> string \<times> string \<Rightarrow> (string \<times> string) list \<Rightarrow> client1 \<Rightarrow> (ipport_pair \<times> client1) res" where
  "KeyValueWrite lib opened kv kvs c =
     (if \<not> opened then perr_exit else bind_res (put_first1 lib kv c) (\<lambda>s. put_rounds1 lib kvs s))"

text \<open>One round of \<open>main\<close>: the key is the part of a line of the key file before its first blank.\<close>

definition get_round1 :: "client_json \<Rightarrow> string option \<Rightarrow> int \<Rightarrow> client1 \<Rightarrow> (string \<times> client1) res" where
  "get_round1 lib content line c =
     bind_res (ReadText content line) (\<lambda>rkeyvalue.
     KeyValueRequest lib (cut_before rkeyvalue (find_first_of rkeyvalue (CHR '' ''))) c)"

section \<open>Runs\<close>

lemma retries_fail:
  assumes "\<forall>m\<in>set ns. m < 0" and "\<forall>f\<in>set fds. 0 \<le> f" and "length fds = length ns"
    and "n_connect w = ns @ cs" and "n_socket w = fds @ ss"
  shows "\<exists>m f. connect_retry1 (length ns) n fd ip w =
      Inr (m, f, w\<lparr>n_connect := cs, n_socket := ss, n_log := n_log w @ replicate (length ns) (Dial ip)\<rparr>) \<and> (n < 0 \<longrightarrow> m < 0)"
  using assms
proof (induction ns arbitrary: fds n fd w)
  case Nil
  then show ?case by simp
next
  case (Cons m ns)
  obtain f fds' where f: "fds = f # fds'" using Cons.prems(3) by (cases fds) auto
  let ?w = "w\<lparr>n_socket := fds' @ ss, n_connect := ns @ cs, n_log := n_log w @ [Dial ip]\<rparr>"
  have one: "connect_once ip w = Inr (m, f, ?w)"
    using Cons.prems f by (simp add: connect_once_def net_socket_def net_connect_def Socket_def)
  obtain m' f' where "connect_retry1 (length ns) m f ip ?w =
      Inr (m', f', ?w\<lparr>n_connect := cs, n_socket := ss, n_log := n_log ?w @ replicate (length ns) (Dial ip)\<rparr>)" "m < 0 \<longrightarrow> m' < 0"
    using Cons.IH [of fds' ?w m f] Cons.prems f by auto
  then show ?case using one Cons.prems(1) by (auto simp: not_le)
qed

lemma ConnectServ1_fails:
  assumes "\<forall>m\<in>set ns. m < 0" and "\<forall>f\<in>set fds. 0 \<le> f" and "length ns = 5" and "length fds = 5"
    and "n_connect w = ns @ cs" and "n_socket w = fds @ ss"
  shows "\<exists>m f. ConnectServ1 ip w = Inr (m, f, w\<lparr>n_connect := cs, n_socket := ss, n_log := n_log w @ replicate 5 (Dial ip)\<rparr>) \<and> m < 0"
proof -
  obtain m ns' f fds' where eq: "ns = m # ns'" "fds = f # fds'" using assms(3,4) by (cases ns; cases fds) auto
  let ?w = "w\<lparr>n_socket := fds' @ ss, n_connect := ns' @ cs, n_log := n_log w @ [Dial ip]\<rparr>"
  have one: "connect_once ip w = Inr (m, f, ?w)"
    using assms eq by (simp add: connect_once_def net_socket_def net_connect_def Socket_def)
  have len: "length ns' = 4" "length fds' = 4" using assms(3,4) eq by simp_all
  have "n_connect ?w = ns' @ cs" "n_socket ?w = fds' @ ss" by simp_all
  from retries_fail [OF _ _ _ this, of m f ip] obtain m' f' where
    "connect_retry1 4 m f ip ?w = Inr (m', f', ?w\<lparr>n_connect := cs, n_socket := ss, n_log := n_log ?w @ replicate 4 (Dial ip)\<rparr>)" "m < 0 \<longrightarrow> m' < 0"
    using assms(1,2) eq len by auto
  moreover have "replicate 5 (Dial ip) = Dial ip # replicate 4 (Dial ip)" by (simp add: eval_nat_numeral)
  ultimately show ?thesis using one assms(1) eq by (simp add: ConnectServ1_def)
qed

lemma ConnectServ1_first:
  assumes "n_socket w = fd # ss" and "0 \<le> fd" and "n_connect w = n # cs" and "0 \<le> n"
  shows "ConnectServ1 ip w = Inr (n, fd, w\<lparr>n_socket := ss, n_connect := cs, n_log := n_log w @ [Dial ip]\<rparr>)"
  using assms by (simp add: ConnectServ1_def connect_once_def net_socket_def net_connect_def Socket_def)

lemma WriteData1_once:
  "n_write w = [(k, e)] # ws \<Longrightarrow> 0 \<le> k \<Longrightarrow>
   WriteData1 fd text w = Inr (k, w\<lparr>n_write := ws, n_log := n_log w @ [Sent fd (take (nat k) (text @ [NUL]))]\<rparr>)"
  by (simp add: WriteData1_def)

text \<open>An answer that arrives in one read, with the terminator the servers of this version send.\<close>

definition received :: "string \<Rightarrow> char list \<times> read_answer list \<Rightarrow> bool" where
  "received t a \<longleftrightarrow> NUL \<notin> set t \<and> length t < length (fst a) \<and> (\<exists>e. snd a = [(Some (t @ [NUL]), e)])"

lemma ReadData1_received:
  assumes "n_read w = a # rs" and "received t a" and "reply_of lib t = Some js"
  shows "ReadData1 lib w = Inr (js, w\<lparr>n_read := rs\<rparr>)"
proof -
  obtain buf e where a: "a = (buf, [(Some (t @ [NUL]), e)])" using assms(2) by (cases a) (auto simp: received_def)
  then have b: "vcopy buf 0 (t @ [NUL]) = Inr ((t @ [NUL]) @ drop (Suc (length t)) buf)"
    using assms(2) by (simp add: received_def vcopy_def)
  have "array_text (t @ NUL # drop (Suc (length t)) buf) = t"
    using assms(2) by (auto simp: received_def array_text_def takeWhile_append)
  then show ?thesis using assms a b by (simp add: ReadData1_def)
qed

lemma DistributionRequest2_first:
  assumes "n_socket (cl1_net c) = fd # ss" and "0 \<le> fd" and "n_connect (cl1_net c) = 0 # cs"
    and "n_write (cl1_net c) = [(k, e)] # ws" and "0 \<le> k" and "n_read (cl1_net c) = a # rs" and "received t a"
    and "reply_of lib t = Some js" and "iplist1_of js = Inr l" and "n_time (cl1_net c) = u # ts" and "n_close (cl1_net c) = z # zs" and "0 \<le> z"
  shows "DistributionRequest2 lib c = Inr (c\<lparr>cl1_iplist := l, cl1_hash := RefreshIPList (cl1_hash c) l, cl1_start := u, cl1_masterfd := fd,
     cl1_net := (cl1_net c)\<lparr>n_socket := ss, n_connect := cs, n_write := ws, n_read := rs, n_time := ts, n_close := zs,
       n_log := n_log (cl1_net c) @ [Dial \<lparr>ip_port = 7000, ip_addr = ''127.0.0.1''\<rparr>,
         Sent fd (take (nat k) (dump_distribution lib @ [NUL]))]\<rparr>\<rparr>)"
proof -
  let ?m = "\<lparr>ip_port = 7000, ip_addr = ''127.0.0.1''\<rparr>"
  let ?w1 = "(cl1_net c)\<lparr>n_socket := ss, n_connect := cs, n_log := n_log (cl1_net c) @ [Dial ?m]\<rparr>"
  let ?w2 = "?w1\<lparr>n_write := ws, n_log := n_log ?w1 @ [Sent fd (take (nat k) (dump_distribution lib @ [NUL]))]\<rparr>"
  have "dial_master1 ?m (cl1_net c) = Inr (?m, fd, ?w1)"
    using ConnectServ1_first [OF assms(1-3), of ?m] by (simp add: dial_master1_def)
  moreover have "WriteData1 fd (dump_distribution lib) ?w1 = Inr (k, ?w2)" using assms by (intro WriteData1_once) simp_all
  ultimately have "ask_master1 lib ?m (cl1_net c) = Inr (fd, ?w2)" using assms(5) by (subst ask_master1.simps) simp
  moreover have "ReadData1 lib ?w2 = Inr (js, ?w2\<lparr>n_read := rs\<rparr>)" using assms by (intro ReadData1_received [of _ a]) simp_all
  ultimately show ?thesis using assms by (simp add: DistributionRequest2_def master_address net_time_def net_close_def Close_def)
qed

text \<open>A server that refuses five times is left for the one that the new list names.\<close>

lemma connect_key_moved:
  assumes old: "server1_of key c = Inr old" and ns: "\<forall>m\<in>set ns. m < 0" "length ns = 5" and fds: "\<forall>f\<in>set fds. 0 \<le> f" "length fds = 5"
    and net: "n_connect (cl1_net c) = ns @ 0 # 0 # cs" "n_socket (cl1_net c) = fds @ fd1 # fd2 # ss" "0 \<le> fd1" "0 \<le> fd2"
      "n_write (cl1_net c) = [(k, e)] # ws" "0 \<le> k" "n_read (cl1_net c) = a # rs" "received t a" "n_time (cl1_net c) = u # ts"
      "n_close (cl1_net c) = z # zs" "0 \<le> z"
    and lib: "reply_of lib t = Some js" "iplist1_of js = Inr l"
    and new: "bind_res (GetServerIndex1 (RefreshIPList (cl1_hash c) l) key) get_ipport = Inr ip"
  shows "connect_key lib key c = Inr (ip, fd2, c\<lparr>cl1_iplist := l, cl1_hash := RefreshIPList (cl1_hash c) l, cl1_start := u, cl1_masterfd := fd1,
     cl1_net := (cl1_net c)\<lparr>n_socket := ss, n_connect := cs, n_write := ws, n_read := rs, n_time := ts, n_close := zs,
       n_log := n_log (cl1_net c) @ replicate 5 (Dial old) @ [Dial \<lparr>ip_port = 7000, ip_addr = ''127.0.0.1''\<rparr>,
         Sent fd1 (take (nat k) (dump_distribution lib @ [NUL])), Dial ip]\<rparr>\<rparr>)"
proof -
  let ?w1 = "(cl1_net c)\<lparr>n_connect := 0 # 0 # cs, n_socket := fd1 # fd2 # ss, n_log := n_log (cl1_net c) @ replicate 5 (Dial old)\<rparr>"
  obtain m f where w1: "ConnectServ1 old (cl1_net c) = Inr (m, f, ?w1)" "m < 0"
    using ConnectServ1_fails [OF ns(1) fds(1) ns(2) fds(2) net(1,2), of old] by blast
  let ?c1 = "c\<lparr>cl1_net := ?w1\<rparr>"
  let ?c2 = "?c1\<lparr>cl1_iplist := l, cl1_hash := RefreshIPList (cl1_hash ?c1) l, cl1_start := u, cl1_masterfd := fd1,
     cl1_net := (cl1_net ?c1)\<lparr>n_socket := fd2 # ss, n_connect := 0 # cs, n_write := ws, n_read := rs, n_time := ts, n_close := zs,
       n_log := n_log (cl1_net ?c1) @ [Dial \<lparr>ip_port = 7000, ip_addr = ''127.0.0.1''\<rparr>,
         Sent fd1 (take (nat k) (dump_distribution lib @ [NUL]))]\<rparr>\<rparr>"
  have d: "DistributionRequest2 lib ?c1 = Inr ?c2"
    by (rule DistributionRequest2_first [where e = e and a = a and t = t and js = js and z = z]) (use net lib in simp_all)
  have s: "server1_of key ?c2 = Inr ip" using new by (simp add: server1_of_def)
  let ?w3 = "(cl1_net ?c2)\<lparr>n_socket := ss, n_connect := cs, n_log := n_log (cl1_net ?c2) @ [Dial ip]\<rparr>"
  have k: "ConnectServ1 ip (cl1_net ?c2) = Inr (0, fd2, ?w3)" using net(4) by (intro ConnectServ1_first) simp_all
  have "reconnect1 lib key old m f ?c1 = reconnect1 lib key ip 0 fd2 (?c2\<lparr>cl1_net := ?w3\<rparr>)"
    using w1(2) d s k by (subst reconnect1.simps) simp
  also have "\<dots> = Inr (ip, fd2, ?c2\<lparr>cl1_net := ?w3\<rparr>)" by (simp add: reconnect1.simps)
  finally show ?thesis using old w1(1) by (simp add: connect_key_def)
qed

section \<open>Properties\<close>

text \<open>
  C39. A client and a lost server. The server of a key refuses the connection five times. Then the client pulls the list of servers from the master, dials
  exactly the server that the ring built from the new list names, which is one of the list, sends it the request for the key and returns the value of the
  answer, for every content of the arrays on the stack and every number of bytes the writes accept.
\<close>

theorem client_finds_new_owner:
  assumes "servers \<noteq> []" and "\<forall>a\<in>set servers. 0 \<le> snd a \<and> snd a \<le> INT_MAX" and "0 < virtualNodeNum (cl1_hash c)"
    and "server1_of key c = Inr old" and "\<forall>m\<in>set ns. m < 0" and "length ns = 5" and "\<forall>f\<in>set fds. 0 \<le> f" and "length fds = 5"
    and "n_connect (cl1_net c) = ns @ 0 # 0 # cs" and "n_socket (cl1_net c) = fds @ fd1 # fd2 # ss" and "0 \<le> fd1" and "0 \<le> fd2"
    and "n_write (cl1_net c) = [(k1, e1)] # [(k2, e2)] # ws" and "0 \<le> k1" and "0 \<le> k2"
    and "n_read (cl1_net c) = a1 # a2 # rs" and "received t1 a1" and "received t2 a2"
    and "reply_of lib t1 = Some js1" and "iplist1_of js1 = Inr (map addr_text servers)" and "reply_of lib t2 = Some js2" and "carries js2 key v"
    and "n_time (cl1_net c) = u # u1 # ts" and "cl1_start c \<le> u" and "u \<le> cl1_start c + 5"
    and "n_close (cl1_net c) = z1 # z2 # zs" and "0 \<le> z1" and "0 \<le> z2"
  shows "\<exists>c' ip port. KeyValueRequest lib key c = Inr (v, c') \<and> (ip, port) \<in> set servers
    \<and> GetServerIndex1 (cl1_hash c') key = Inr (addr_text (ip, port))
    \<and> n_log (cl1_net c') = n_log (cl1_net c) @ replicate 5 (Dial old) @
        [Dial \<lparr>ip_port = 7000, ip_addr = ''127.0.0.1''\<rparr>, Sent fd1 (take (nat k1) (dump_distribution lib @ [NUL])),
         Dial \<lparr>ip_port = port, ip_addr = ip\<rparr>, Sent fd2 (take (nat k2) (dump_get lib key @ [NUL]))]"
proof -
  let ?l = "map addr_text servers" and ?c1 = "c\<lparr>cl1_net := (cl1_net c)\<lparr>n_time := u1 # ts\<rparr>\<rparr>"
  obtain m where m: "GetServerIndex1 (RefreshIPList (cl1_hash c) ?l) key = Inr m" "m \<in> set ?l"
    using refreshed_owner1 [of ?l "cl1_hash c" key] assms(1,3) by auto
  then obtain ip port where a: "(ip, port) \<in> set servers" "m = addr_text (ip, port)" by auto
  let ?ip = "\<lparr>ip_port = port, ip_addr = ip\<rparr>"
  have "get_ipport m = Inr ?ip" using get_ipport_print [of port ip] assms(2) a by (auto simp: addr_text_def)
  then have new: "bind_res (GetServerIndex1 (RefreshIPList (cl1_hash ?c1) ?l) key) get_ipport = Inr ?ip" using m by simp
  have old: "server1_of key ?c1 = Inr old" using assms(4) by (simp add: server1_of_def)
  define c2 where "c2 = ?c1\<lparr>cl1_iplist := ?l, cl1_hash := RefreshIPList (cl1_hash ?c1) ?l, cl1_start := u1, cl1_masterfd := fd1,
     cl1_net := (cl1_net ?c1)\<lparr>n_socket := ss, n_connect := cs, n_write := [(k2, e2)] # ws, n_read := a2 # rs, n_time := ts, n_close := z2 # zs,
       n_log := n_log (cl1_net ?c1) @ replicate 5 (Dial old) @ [Dial \<lparr>ip_port = 7000, ip_addr = ''127.0.0.1''\<rparr>,
         Sent fd1 (take (nat k1) (dump_distribution lib @ [NUL])), Dial ?ip]\<rparr>\<rparr>"
  have ck: "connect_key lib key ?c1 = Inr (?ip, fd2, c2)" unfolding c2_def
    by (rule connect_key_moved [OF old assms(5-8) _ _ assms(11,12) _ assms(14) _ assms(17) _ _ assms(27) assms(19,20) new]) (use assms in simp_all)
  have time: "CountTime1 lib c = Inr ?c1" using assms by (simp add: CountTime1_def net_time_def TIME_OUT_def)
  let ?w2 = "(cl1_net c2)\<lparr>n_write := ws, n_log := n_log (cl1_net c2) @ [Sent fd2 (take (nat k2) (dump_get lib key @ [NUL]))]\<rparr>"
  have wd: "WriteData1 fd2 (dump_get lib key) (cl1_net c2) = Inr (k2, ?w2)" using assms(15) by (intro WriteData1_once) (simp_all add: c2_def)
  have rd: "ReadData1 lib ?w2 = Inr (js2, ?w2\<lparr>n_read := rs\<rparr>)"
    using assms(18,21) by (intro ReadData1_received [of _ a2 rs t2]) (simp_all add: c2_def)
  have cl: "net_close (?w2\<lparr>n_read := rs\<rparr>) = Inr (?w2\<lparr>n_read := rs, n_close := zs\<rparr>)"
    using assms(28) by (simp add: net_close_def Close_def c2_def)
  obtain r d where js: "js2 = Reply r" "\<not> ro_empty r" "ro_type r = Some 0" "ro_data r = Some d" "rd_flag d \<noteq> Some False"
    "rd_key d = Some key" "rd_value d = Some v" using assms(22) by (auto simp: carries_def)
  have "KeyValueRequest lib key c = Inr (v, c2\<lparr>cl1_reqfd := fd2, cl1_net := ?w2\<lparr>n_read := rs, n_close := zs\<rparr>\<rparr>)"
    unfolding KeyValueRequest_def using time ck wd rd cl js assms(15) by (subst get_loop1.simps) simp
  then show ?thesis using a m(1) by (intro exI [of _ "c2\<lparr>cl1_reqfd := fd2, cl1_net := ?w2\<lparr>n_read := rs, n_close := zs\<rparr>\<rparr>"] exI [of _ ip] exI [of _ port])
      (simp add: c2_def)
qed

definition small_reply :: "int \<Rightarrow> client_reply" where
  "small_reply ty = Reply \<lparr>ro_empty = False, ro_req_type = None, ro_type = Some ty,
     ro_data = Some \<lparr>rd_flag = Some True, rd_key = Some ''k'', rd_value = Some ''v'', rd_iplist = Some [''10.0.0.1:5'']\<rparr>\<rparr>"

definition small_json :: client_json where
  "small_json = \<lparr>dump_distribution = ''D'', dump_get = (\<lambda>key. ''G'' @ key), dump_set = (\<lambda>key v. ''S'' @ key @ v),
     reply_of = (\<lambda>t. Some (small_reply (if t = ''L'' then 4 else 0)))\<rparr>"

definition small_client :: client1 where
  "small_client = \<lparr>cl1_hash = RefreshIPList (ConsistentHash_new 2) [''10.0.0.2:6''], cl1_iplist = [''10.0.0.2:6''], cl1_start = 98,
     cl1_writefd = 0, cl1_reqfd = 0, cl1_masterfd = 0,
     cl1_net = \<lparr>n_socket = replicate 5 3 @ [4, 5], n_connect = replicate 5 (-1) @ [0, 0], n_close = [0, 0],
       n_write = [[(2, EINTR)], [(3, EINTR)]],
       n_read = [(''....'', [(Some ([CHR ''L''] @ [NUL]), EINTR)]), (''....'', [(Some ([CHR ''V''] @ [NUL]), EINTR)])],
       n_time = [100, 103], n_log = []\<rparr>\<rparr>"

theorem client_finds_new_owner_witness:
  "\<exists>c. KeyValueRequest small_json ''k'' small_client = Inr (''v'', c)
     \<and> n_log (cl1_net c) = replicate 5 (Dial \<lparr>ip_port = 6, ip_addr = ''10.0.0.2''\<rparr>) @
         [Dial \<lparr>ip_port = 7000, ip_addr = ''127.0.0.1''\<rparr>, Sent 4 (''D'' @ [NUL]), Dial \<lparr>ip_port = 5, ip_addr = ''10.0.0.1''\<rparr>, Sent 5 (''Gk'' @ [NUL])]"
proof -
  have t: "addr_text (''10.0.0.1'', 5) = ''10.0.0.1:5''" by code_simp
  have o: "get_ipport ''10.0.0.2:6'' = Inr \<lparr>ip_port = 6, ip_addr = ''10.0.0.2''\<rparr>" by code_simp
  have "GetServerIndex1 (cl1_hash small_client) ''k'' = Inr ''10.0.0.2:6''"
    using refreshed_owner1 [of "[''10.0.0.2:6'']" "ConsistentHash_new 2" "''k''"] by (simp add: small_client_def ConsistentHash_new_def)
  then have s: "server1_of ''k'' small_client = Inr \<lparr>ip_port = 6, ip_addr = ''10.0.0.2''\<rparr>" using o by (simp add: server1_of_def)
  have v: "0 < virtualNodeNum (cl1_hash small_client)"
    using refreshed_good(4) [of "[''10.0.0.2:6'']" "ConsistentHash_new 2"] by (simp add: small_client_def ConsistentHash_new_def)
  have "\<exists>c' ip port. KeyValueRequest small_json ''k'' small_client = Inr (''v'', c') \<and> (ip, port) \<in> set [(''10.0.0.1'', 5 :: int)]
    \<and> GetServerIndex1 (cl1_hash c') ''k'' = Inr (addr_text (ip, port))
    \<and> n_log (cl1_net c') = n_log (cl1_net small_client) @ replicate 5 (Dial \<lparr>ip_port = 6, ip_addr = ''10.0.0.2''\<rparr>) @
        [Dial \<lparr>ip_port = 7000, ip_addr = ''127.0.0.1''\<rparr>, Sent 4 (take (nat 2) (dump_distribution small_json @ [NUL])),
         Dial \<lparr>ip_port = port, ip_addr = ip\<rparr>, Sent 5 (take (nat 3) (dump_get small_json ''k'' @ [NUL]))]"
    by (rule client_finds_new_owner [where ns = "replicate 5 (-1)" and fds = "replicate 5 3" and ?t1.0 = "''L''" and ?t2.0 = "''V''"
          and ?js1.0 = "small_reply 4" and ?js2.0 = "small_reply 0", OF _ _ v s])
       (simp_all add: small_client_def small_json_def small_reply_def INT_MAX_def received_def iplist1_of_def carries_def t,
        simp_all add: NUL_def)
  then show ?thesis by (auto simp: small_client_def small_json_def)
qed

end
