(* ===== verification/Log_Queue.thy ===== *)
theory Log_Queue
  imports Sem_Guard Cxx_Strings C_Strings
begin

text \<open>
  The log of the first version of the distributed cache (logfile.hpp): threads put lines into a list and post a semaphore, one thread
  waits for it, takes a line and writes it to the file. It is a third client of the discipline of \<open>Sem_Guard\<close>.
\<close>

section \<open>State and operations\<close>

datatype log_level = VERBOSE | TRACE | INFO | WARNING | ERROR_LEVEL | FATAL

fun LogLevelNames :: "log_level \<Rightarrow> string" where
  "LogLevelNames VERBOSE = ''VERBOSE''"
| "LogLevelNames TRACE = ''TRACE''"
| "LogLevelNames INFO = ''INFO''"
| "LogLevelNames WARNING = ''WARNING''"
| "LogLevelNames ERROR_LEVEL = ''ERROR''"
| "LogLevelNames FATAL = ''FATAL''"

text \<open>
  \<open>lf_posting\<close> counts the threads between the two halves of \<open>WriteLog\<close>, \<open>lf_line\<close> is the variable of the consumer, \<open>lf_passed\<close> says that it has passed the
  semaphore. The file is \<open>None\<close> when it is not open. The last two components record the lines put in and taken out.
\<close>

record log_file =
  cached_logs :: "string list"
  log_semphore :: nat
  plogfile :: "string option"
  lf_posting :: nat
  lf_passed :: bool
  lf_line :: string
  lf_put :: "string list"
  lf_taken :: "string list"

definition LogFile_new :: log_file where
  "LogFile_new =
     \<lparr>cached_logs = [], log_semphore = 0, plogfile = None, lf_posting = 0, lf_passed = False, lf_line = [], lf_put = [], lf_taken = []\<rparr>"

text \<open>\<open>content\<close> is what the file holds already, \<open>None\<close> if it cannot be opened.\<close>

definition OpenLogFile :: "string option \<Rightarrow> log_file \<Rightarrow> log_file" where
  "OpenLogFile content l = l\<lparr>plogfile := content\<rparr>"

text \<open>The line; the time, the thread and the formatted arguments are given.\<close>

definition log_text :: "string \<Rightarrow> log_level \<Rightarrow> nat \<Rightarrow> string \<Rightarrow> nat \<Rightarrow> string \<Rightarrow> string" where
  "log_text strTime level tid func line content =
     strTime @ ''['' @ LogLevelNames level @ '']'' @ ''[tid:'' @ nat_str tid @ '']'' @ ''['' @ func @ '':'' @ nat_str line @ '']'' @ content @ [LF]"

definition WriteLog_push :: "string \<Rightarrow> log_file \<Rightarrow> log_file" where
  "WriteLog_push line l = l\<lparr>cached_logs := cached_logs l @ [line], lf_posting := Suc (lf_posting l), lf_put := lf_put l @ [line]\<rparr>"

definition WriteLog_post :: "log_file \<Rightarrow> log_file" where
  "WriteLog_post l = l\<lparr>log_semphore := sem_post (log_semphore l), lf_posting := lf_posting l - 1\<rparr>"

text \<open>\<open>n\<close> is the answer of \<open>fwrite\<close>.\<close>

definition WriteToFile :: "nat \<Rightarrow> string \<Rightarrow> log_file \<Rightarrow> bool \<times> log_file" where
  "WriteToFile n line l =
     (case plogfile l of None \<Rightarrow> (False, l) | Some f \<Rightarrow> (n = length line, l\<lparr>plogfile := Some (f @ take n line)\<rparr>))"

definition consumer_wait :: "log_file \<Rightarrow> log_file option" where
  "consumer_wait l = (case sem_wait (log_semphore l) of None \<Rightarrow> None | Some n \<Rightarrow> Some (l\<lparr>log_semphore := n, lf_passed := True\<rparr>))"

definition consumer_round :: "nat \<Rightarrow> log_file \<Rightarrow> log_file" where
  "consumer_round n l =
     (let l1 = (case cached_logs l of [] \<Rightarrow> l | x # xs \<Rightarrow> l\<lparr>cached_logs := xs, lf_line := x, lf_taken := lf_taken l @ [x]\<rparr>);
          l2 = l1\<lparr>lf_passed := False\<rparr>
      in if lf_line l2 = [] then l2 else (snd (WriteToFile n (lf_line l2) l2))\<lparr>lf_line := []\<rparr>)"

text \<open>The steps of the threads; every write to the file is complete.\<close>

inductive log_move :: "log_file \<Rightarrow> log_file \<Rightarrow> bool" where
  log_push: "log_move l (WriteLog_push (log_text strTime level tid func line content) l)"
| log_post: "0 < lf_posting l \<Longrightarrow> log_move l (WriteLog_post l)"
| log_wait: "\<not> lf_passed l \<Longrightarrow> consumer_wait l = Some l' \<Longrightarrow> log_move l l'"
| log_round: "lf_passed l \<Longrightarrow> cached_logs l = x # xs \<Longrightarrow> n = length x \<Longrightarrow> log_move l (consumer_round n l)"
| log_empty: "lf_passed l \<Longrightarrow> cached_logs l = [] \<Longrightarrow> log_move l (consumer_round n l)"

definition log_start :: "log_file \<Rightarrow> bool" where
  "log_start l \<longleftrightarrow> (\<exists>content. l = OpenLogFile (Some content) LogFile_new)"

section \<open>The discipline\<close>

definition log_view :: "log_file \<Rightarrow> string guard" where
  "log_view l =
     \<lparr>g_items = cached_logs l, g_count = log_semphore l, g_posting = lf_posting l, g_passed = (if lf_passed l then 1 else 0),
      g_in = lf_put l, g_out = lf_taken l\<rparr>"

lemma log_text_nonempty [simp]: "log_text t lv tid f n c \<noteq> []" "[] \<noteq> log_text t lv tid f n c"
  by (simp_all add: log_text_def)

lemma WriteToFile_fields [simp]:
  "cached_logs (snd (WriteToFile n x l)) = cached_logs l" "log_semphore (snd (WriteToFile n x l)) = log_semphore l"
  "lf_posting (snd (WriteToFile n x l)) = lf_posting l" "lf_passed (snd (WriteToFile n x l)) = lf_passed l"
  "lf_put (snd (WriteToFile n x l)) = lf_put l" "lf_taken (snd (WriteToFile n x l)) = lf_taken l"
  by (simp_all add: WriteToFile_def split: option.splits)

interpretation loglist: sem_guarded log_view log_start log_move
proof
  fix l assume "log_start l"
  then show "guard_inv (log_view l)" by (auto simp: log_start_def OpenLogFile_def LogFile_new_def log_view_def guard_inv_def)
next
  fix l l' assume m: "log_move l l'" and inv: "guard_inv (log_view l)"
  show "guard_step (log_view l) (log_view l')" using m
  proof cases
    case (log_push strTime level tid func line content)
    then show ?thesis using guard_step.put [of "log_view l"] by (simp add: WriteLog_push_def log_view_def)
  next
    case log_post
    then show ?thesis using guard_step.posted [of "log_view l"] by (simp add: WriteLog_post_def log_view_def)
  next
    case log_wait
    then show ?thesis using guard_step.pass [of "log_view l"] by (auto simp: consumer_wait_def log_view_def split: option.splits)
  next
    case (log_round x xs n)
    then show ?thesis using guard_step.remove [of "log_view l" x xs]
      by (auto simp: consumer_round_def log_view_def Let_def)
  next
    case log_empty
    then show ?thesis using inv by (simp add: guard_inv_def log_view_def)
  qed
qed

section \<open>What the file holds\<close>

text \<open>
  In every interleaving the file is what it held followed by the lines taken, whole and in the order in which they were put; and when no thread is inside
  \<open>WriteLog\<close> and the consumer waits on an empty semaphore, it holds all of them.
\<close>

definition file_inv :: "log_file \<Rightarrow> bool" where
  "file_inv l \<longleftrightarrow> (\<exists>content. plogfile l = Some (content @ concat (lf_taken l))) \<and> lf_line l = [] \<and> [] \<notin> set (cached_logs l)"

lemma file_move: "log_move l l' \<Longrightarrow> file_inv l \<Longrightarrow> file_inv l'"
proof (induction rule: log_move.induct)
  case (log_wait l l')
  then show ?case by (auto simp: file_inv_def consumer_wait_def split: option.splits)
next
  case (log_round l x xs n)
  then show ?case by (auto simp: file_inv_def consumer_round_def WriteToFile_def Let_def)
qed (auto simp: file_inv_def WriteLog_push_def WriteLog_post_def consumer_round_def Let_def)

theorem log_complete:
  assumes "reachable log_start log_move l"
  shows "\<exists>content. plogfile l = Some (content @ concat (lf_taken l)) \<and> lf_put l = lf_taken l @ cached_logs l
    \<and> (lf_posting l = 0 \<and> \<not> lf_passed l \<and> log_semphore l = 0 \<longrightarrow> plogfile l = Some (content @ concat (lf_put l)))"
proof -
  have "file_inv l" using assms
  proof (induction rule: reachable.induct)
    case (first l)
    then show ?case by (auto simp: log_start_def OpenLogFile_def LogFile_new_def file_inv_def)
  qed (rule file_move)
  then obtain content where c: "plogfile l = Some (content @ concat (lf_taken l))" by (auto simp: file_inv_def)
  have fifo: "lf_put l = lf_taken l @ cached_logs l" using loglist.reached_fifo [OF assms] by (simp add: log_view_def)
  have "cached_logs l = []" if "lf_posting l = 0 \<and> \<not> lf_passed l \<and> log_semphore l = 0"
    using loglist.reached_wakeup [OF assms] that by (simp add: log_view_def)
  then show ?thesis using c fifo by auto
qed

end
