(* ===== verification/Chat_Room.thy ===== *)
theory Chat_Room
  imports C_Strings "HOL-Library.AList" "HOL-Library.Word"
begin

text \<open>
  The chat room (Project/ChatRoomServer): the event loop of server.cc, which names a client by its first message and passes later ones on
  to the other clients, and the two threads of client.cc. The answers of the system calls are given with each event.
\<close>

section \<open>The server\<close>

record chat_client =
  cl_sockfd :: "int option"
  cl_name :: string

record chat =
  ch_listenfd :: int
  ch_registered :: "int list"
  ch_clients :: "(int \<times> chat_client) list"

datatype chat_out = Chat_Send int string | Chat_Closed int

text \<open>An address is its four bytes. \<open>inet_ntop\<close> needs room for the text and its terminator, and fails otherwise.\<close>

type_synonym in_addr = "8 word \<times> 8 word \<times> 8 word \<times> 8 word"

definition inet_text :: "in_addr \<Rightarrow> string" where
  "inet_text a =
     (case a of (p, q, r, s) \<Rightarrow> nat_str (unat p) @ ''.'' @ nat_str (unat q) @ ''.'' @ nat_str (unat r) @ ''.'' @ nat_str (unat s))"

definition inet_ntop :: "in_addr \<Rightarrow> nat \<Rightarrow> string option" where
  "inet_ntop a len = (if length (inet_text a) < len then Some (inet_text a) else None)"

text \<open>\<open>sizeof(clientAddr.sin_addr.s_addr)\<close>\<close>

definition SIZE_S_ADDR :: nat where "SIZE_S_ADDR = 4"

record chat_env =
  a_accept :: int
  a_addr :: in_addr
  a_ctl :: int
  a_read :: "string option"
  a_buffer :: "char list"
  a_write :: "int \<Rightarrow> int"

definition chat_accept :: "chat_env \<Rightarrow> chat \<Rightarrow> (chat_out list \<times> chat) res" where
  "chat_accept env s =
     (let clientfd = a_accept env in
      if clientfd < 0 then Inr ([], s)
      else if a_ctl env < 0 then Inl Process_Exit
      else
        (case inet_ntop (a_addr env) SIZE_S_ADDR of None \<Rightarrow> Inl Process_Exit
         | Some peerIP \<Rightarrow>
             Inr ([], s\<lparr>ch_registered := ch_registered s @ [clientfd],
                        ch_clients := AList.update clientfd \<lparr>cl_sockfd = Some clientfd, cl_name = []\<rparr> (ch_clients s)\<rparr>)))"

text \<open>\<open>clients[fd]\<close> makes an entry when there is none; its \<open>sockfd\<close> is not set.\<close>

definition chat_entry :: "int \<Rightarrow> chat \<Rightarrow> chat_client" where
  "chat_entry fd s = (case map_of (ch_clients s) fd of None \<Rightarrow> \<lparr>cl_sockfd = None, cl_name = []\<rparr> | Some c \<Rightarrow> c)"

fun push_others :: "(int \<Rightarrow> int) \<Rightarrow> int \<Rightarrow> string \<Rightarrow> int list \<Rightarrow> chat_out list res" where
  "push_others wr fd msg [] = Inr []"
| "push_others wr fd msg (d # ds) =
     (if d = fd then push_others wr fd msg ds
      else if wr d < 0 then Inl Process_Exit
      else bind_res (push_others wr fd msg ds) (\<lambda>outs. Inr (Chat_Send d msg # outs)))"

definition chat_message :: "chat_env \<Rightarrow> int \<Rightarrow> string \<Rightarrow> chat \<Rightarrow> (chat_out list \<times> chat) res" where
  "chat_message env fd msg s =
     (let c = chat_entry fd s; s1 = s\<lparr>ch_clients := AList.update fd c (ch_clients s)\<rparr> in
      if cl_name c = [] then
        Inr ([], s\<lparr>ch_clients := AList.update fd (c\<lparr>cl_name := cl_name c @ ''['' @ msg @ '']''\<rparr>) (ch_clients s)\<rparr>)
      else
        bind_res (push_others (a_write env) fd (cl_name c @ '': '' @ msg) (map fst (ch_clients s1))) (\<lambda>outs. Inr (outs, s1)))"

text \<open>The array is not terminated after the bytes read: what follows is what it held before.\<close>

definition chat_read :: "chat_env \<Rightarrow> int \<Rightarrow> chat \<Rightarrow> (chat_out list \<times> chat) res" where
  "chat_read env fd s =
     (case a_read env of None \<Rightarrow> Inl Process_Exit
      | Some bytes \<Rightarrow>
          if bytes = [] then
            (if a_ctl env < 0 then Inl Process_Exit
             else Inr ([Chat_Closed fd], s\<lparr>ch_registered := remove1 fd (ch_registered s), ch_clients := AList.delete fd (ch_clients s)\<rparr>))
          else
            bind_res (vcopy (a_buffer env) 0 bytes) (\<lambda>buffer. bind_res (cstr buffer 0) (\<lambda>msg. chat_message env fd msg s)))"

definition chat_event :: "chat_env \<Rightarrow> int \<Rightarrow> chat \<Rightarrow> (chat_out list \<times> chat) res" where
  "chat_event env fd s = (if fd = ch_listenfd s then chat_accept env s else chat_read env fd s)"

definition chat_start :: "int \<Rightarrow> chat" where
  "chat_start listenfd = \<lparr>ch_listenfd = listenfd, ch_registered = [listenfd], ch_clients = []\<rparr>"

text \<open>The loop: epoll reports registered descriptors.\<close>

inductive chat_reaches :: "int \<Rightarrow> chat_out list \<Rightarrow> chat \<Rightarrow> bool" for listenfd where
  chat_begin: "chat_reaches listenfd [] (chat_start listenfd)"
| chat_step: "chat_reaches listenfd outs s \<Longrightarrow> fd \<in> set (ch_registered s) \<Longrightarrow> chat_event env fd s = Inr (outs', s') \<Longrightarrow>
    chat_reaches listenfd (outs @ outs') s'"

section \<open>The client\<close>

text \<open>
  The thread that reads the words the user enters. \<open>strcmp\<close> is zero for equal texts, so the condition holds for every word but
  \<open>qiut\<close> with a line feed, which \<open>scanf\<close> never delivers. A word that does not fit the array with its terminator is written behind it. The
  result is what was sent, and whether the thread has ended.
\<close>

definition MAX_LEN :: nat where "MAX_LEN = 4096"

definition strcmp_equal :: "string \<Rightarrow> string \<Rightarrow> bool" where
  "strcmp_equal s t \<longleftrightarrow> s = t"

fun ReadMsg :: "(string \<Rightarrow> int) \<Rightarrow> string list \<Rightarrow> (string list \<times> bool) res" where
  "ReadMsg wr [] = Inr ([], False)"
| "ReadMsg wr (buffer # words) =
     (if MAX_LEN \<le> length buffer then Inl Out_Of_Bounds
      else if strcmp_equal buffer (''QUIT'' @ [LF]) \<or> \<not> strcmp_equal buffer (''qiut'' @ [LF]) then Inr ([], True)
      else if wr buffer < 0 then Inr ([], True)
      else bind_res (ReadMsg wr words) (\<lambda>(sent, ended). Inr (buffer # sent, ended)))"

text \<open>The thread that prints what the server sends; it asks for one byte less than the array has.\<close>

fun WriteMsg :: "string option list \<Rightarrow> char list \<Rightarrow> (string list \<times> bool) res" where
  "WriteMsg [] buffer = Inr ([], False)"
| "WriteMsg (None # as) buffer = Inr ([], True)"
| "WriteMsg (Some bytes # as) buffer =
     bind_res (vcopy buffer 0 (bytes @ [NUL])) (\<lambda>b.
     bind_res (cstr b 0) (\<lambda>t. bind_res (WriteMsg as b) (\<lambda>(ts, ended). Inr (t # ts, ended))))"

section \<open>Messages\<close>

lemma push_others_all:
  "\<forall>d\<in>set ds. d \<noteq> fd \<longrightarrow> 0 \<le> wr d \<Longrightarrow> push_others wr fd msg ds = Inr (map (\<lambda>d. Chat_Send d msg) (filter (\<lambda>d. d \<noteq> fd) ds))"
  by (induction ds) (auto simp: not_less)

lemma update_same: "map_of m k = Some v \<Longrightarrow> AList.update k v m = m"
  by (induction m) auto

text \<open>
  A client in the table is named by its first message, and a later message goes, with the name before it, to each of the
  other clients once and to nobody else, if it is terminated inside the array and the writes succeed.
\<close>

lemma chat_read_message:
  assumes "map_of (ch_clients s) fd = Some c" and "a_read env = Some bytes" and "bytes \<noteq> []"
    and "vcopy (a_buffer env) 0 bytes = Inr b" and "cstr b 0 = Inr msg" and "\<forall>d\<in>fst ` set (ch_clients s). d \<noteq> fd \<longrightarrow> 0 \<le> a_write env d"
  shows "chat_read env fd s =
    (if cl_name c = [] then Inr ([], s\<lparr>ch_clients := AList.update fd (c\<lparr>cl_name := ''['' @ msg @ '']''\<rparr>) (ch_clients s)\<rparr>)
     else Inr (map (\<lambda>d. Chat_Send d (cl_name c @ '': '' @ msg)) (filter (\<lambda>d. d \<noteq> fd) (map fst (ch_clients s))), s))"
  using assms push_others_all [of "map fst (ch_clients s)" fd "a_write env" "cl_name c @ '': '' @ msg"]
  by (simp add: chat_read_def chat_message_def chat_entry_def update_same Let_def)

text \<open>What arrives at a client is printed up to the first terminator, inside the array.\<close>

lemma WriteMsg_prints:
  "\<forall>bytes\<in>set bs. length bytes < length buffer \<Longrightarrow>
   WriteMsg (map Some bs) buffer = Inr (map (takeWhile (\<lambda>c. c \<noteq> NUL)) bs, False)"
proof (induction bs arbitrary: buffer)
  case (Cons bytes bs)
  define b where "b = bytes @ NUL # drop (length bytes + 1) buffer"
  have b: "vcopy buffer 0 (bytes @ [NUL]) = Inr b" "length b = length buffer" using Cons.prems by (auto simp: vcopy_def b_def)
  have t: "takeWhile (\<lambda>c. c \<noteq> NUL) b = takeWhile (\<lambda>c. c \<noteq> NUL) bytes" unfolding b_def by (rule takeWhile_tail) simp
  have "length (takeWhile (\<lambda>c. c \<noteq> NUL) bytes) < length b"
    using length_takeWhile_le [of "\<lambda>c. c \<noteq> NUL" bytes] Cons.prems b(2) by (simp add: le_less_trans)
  then have "cstr b 0 = Inr (takeWhile (\<lambda>c. c \<noteq> NUL) bytes)" using t by (simp add: cstr_def)
  moreover have "WriteMsg (map Some bs) b = Inr (map (takeWhile (\<lambda>c. c \<noteq> NUL)) bs, False)" using Cons.IH [of b] Cons.prems b(2) by simp
  ultimately show ?case using b(1) by simp
qed simp

section \<open>Connections\<close>

lemma inet_text_length: "7 \<le> length (inet_text a)"
proof -
  have "0 < length (nat_str n)" for n using nat_str_nonempty [of n] by simp
  then have one: "1 \<le> length (nat_str n)" for n by (simp add: Suc_le_eq)
  obtain p q r s where "a = (p, q, r, s)" by (cases a)
  then show ?thesis using one [of "unat p"] one [of "unat q"] one [of "unat r"] one [of "unat s"] by (simp add: inet_text_def)
qed

lemma inet_ntop_fails: "inet_ntop a SIZE_S_ADDR = None"
  using inet_text_length [of a] by (simp add: inet_ntop_def SIZE_S_ADDR_def)

lemma accept_ends: "0 \<le> a_accept env \<Longrightarrow> chat_accept env s = Inl Process_Exit"
  by (simp add: chat_accept_def inet_ntop_fails Let_def)

lemma chat_stays: "chat_reaches l outs s \<Longrightarrow> outs = [] \<and> s = chat_start l"
proof (induction rule: chat_reaches.induct)
  case (chat_step outs s fd env outs' s')
  then have "chat_accept env (chat_start l) = Inr (outs', s')" by (simp add: chat_event_def chat_start_def)
  moreover then have "a_accept env < 0" using accept_ends [of env] by (cases "0 \<le> a_accept env") auto
  ultimately show ?case using chat_step.IH by (simp add: chat_accept_def)
qed simp

text \<open>
  C40. No chat. The size given to \<open>inet_ntop\<close> is that of the address in binary, too small for its text, so the first connection that is accepted
  ends the server, in every state it can reach; it never has a client and never sends anything. On the other side the
  first word that a user enters ends the sending thread of the client, and nothing is sent; a word of 4096 characters or more is written outside of the array.
\<close>

theorem chat_never_starts:
  assumes "chat_reaches l outs s" and "0 \<le> a_accept env" and "LF \<notin> set word"
  shows "outs = [] \<and> ch_clients s = [] \<and> chat_event env l s = Inl Process_Exit \<and> ReadMsg wr (word # words) = (if length word < 4096 then Inr ([], True) else Inl Out_Of_Bounds)"
proof -
  have "word \<noteq> ''qiut'' @ [LF]" using assms(3) by auto
  then show ?thesis using chat_stays [OF assms(1)] accept_ends [OF assms(2)]
    by (auto simp: chat_event_def chat_start_def strcmp_equal_def MAX_LEN_def)
qed

theorem chat_never_starts_witness:
  "chat_event \<lparr>a_accept = 5, a_addr = (127, 0, 0, 1), a_ctl = 0, a_read = None, a_buffer = [], a_write = (\<lambda>_. 0)\<rparr> 3 (chat_start 3) = Inl Process_Exit
   \<and> ReadMsg (\<lambda>_. 1) [''hello''] = Inr ([], True)"
  using chat_never_starts [OF chat_begin [of 3],
      of "\<lparr>a_accept = 5, a_addr = (127, 0, 0, 1), a_ctl = 0, a_read = None, a_buffer = [], a_write = (\<lambda>_. 0)\<rparr>" "''hello''" "\<lambda>_. 1" "[]"]
  by (simp add: LF_def del: ReadMsg.simps)

end
