(* ===== verification/Spec2Isabelle.thy ===== *)
theory Spec2Isabelle
  imports Byte_Buffer Lru_Cache Con_Hash Safe_Queue Timer_Heap Block_Queue
    Sort_Bubble Sort_Select Sort_Insert Sort_Merge Sort_Quick Sort_Heap Sort_Count
    Http_Parse Http_Log Http_Request Http_Serve Http_Files Timer_List Web_Pools Web_Log Web_Server
    Socket_Tool Dcs_Master Dcs_Pool Dcs_Node Dcs_Heartbeat
    Cache_Failover Cache_Loop Master_Rounds Second_Master First_Client Log_Queue Chat_Room
begin

text \<open>
  A verification of the programs in the repository's own C++ code: the distributed cache
  Project/Mini_DCS (cache server, master and client), its first version Project/DistributedCacheSystem, the web server
  Project/TinyWebServer-raw_version, the chat room Project/ChatRoomServer, and the collection of sorting routines in sort.cpp.

  \<^bold>\<open>How the programs are put together.\<close> A cache server and the master are event loops over epoll: a table of
  connections with two byte buffers each, timers for idle connections, a pool of worker threads behind a blocking
  queue, and a manager that keeps the list of cache servers. The cached values live in an LRU cache; a
  key belongs to the server that a ring of virtual nodes names. The web server is an event loop too: it accepts
  connections, keeps a timer for each in an ordered list, hands readable connections to worker threads that parse the
  request, consult a pool of database connections and write the reply, and logs through a queue.

  \<^bold>\<open>Conventions\<close> (theory \<open>Cxx_Prelude\<close>). A C++ function is a HOL function on explicit state. A result is of type \<open>'a res\<close>:
  \<open>Inl\<close> an error (a failed \<open>assert\<close>, an access outside an array, a null or dangling pointer, a value never
  assigned, signed overflow, an uncaught exception, a second unlock, the end of the process), \<open>Inr\<close> the value.
  Undefined behaviour is an error value, so "returns \<open>Inr\<close>" includes memory safety. \<open>int\<close> is \<open>int\<close> with overflow as an
  error, \<open>size_t\<close> is \<open>nat\<close> with the wrap-around written out, \<open>uint32_t\<close> is \<open>32 word\<close>. System calls are arguments: what
  they answer is given, and their documented limits (a read delivers at most what was asked for) are hypotheses.

  \<^bold>\<open>The distributed cache.\<close>
  \<^item> \<open>Byte_Buffer\<close> (common/buffer.*): the vector with two positions; every operation keeps the invariant and acts
    on the readable bytes as a stream (locale and interpretation \<open>buf\<close>).
  \<^item> \<open>Lru_Contract\<close>, \<open>Linked_Nodes\<close>, \<open>Lru_Cache\<close> (common/lru.h): the hash map and the doubly linked list in a heap of
    nodes refine a list of entries by recency.
  \<^item> \<open>Std_Map\<close>, \<open>Cxx_Strings\<close>, \<open>Con_Hash\<close> (consistentHash.*, nodeConHash.*): the 32-bit hash and the ring; each key has the
    clockwise successor's machine, adding a machine moves keys only to it.
  \<^item> \<open>Bounded_Queue\<close>, \<open>Safe_Queue\<close> (safeQueue.h): the ring buffer and the threads around it as a step relation:
    first in first out in every interleaving, and no wake-up is lost.
  \<^item> \<open>Heap_Order\<close>, \<open>Timer_Heap\<close> (timer.*): heap and position map; the operations keep both and fire the due timers. The read in front of the heap, which
    every sifting from the root makes, is an argument \<open>stray\<close> of the operations: undefined, or the word that lies there, of which nothing is assumed.
  \<^item> \<open>Socket_Tool\<close> (socketTool.*): wrappers, retry loops, addresses and messages.
  \<^item> \<open>Dcs_Connection\<close> (connection.*, response.cpp): reading into and writing from the buffers. The vector that is read and never assigned is undefined, or holds
    an arbitrary word.
  \<^item> \<open>Dcs_Master\<close> (master/src/manager.*, master/common/request.cpp): the registry, its mutex and the timers of \<open>Timer_Heap\<close>, and a step relation of everything that can
    be asked of a master; in every reachable state at most one server is registered, and then all further heartbeats wait.
  \<^item> \<open>Dcs_Pool\<close> (threadPool.*): workers, manager and destructor around the queue as a step relation: tasks are taken in
    order and each is run once, two workers never both sleep through a task, the pool never grows.
  \<^item> \<open>Dcs_Node\<close> (cache_server/src/netServer.*, manager.*, common/request.cpp): the handlers of a node, from the bytes of a
    request to the bytes of the answer.
  \<^item> \<open>Dcs_Client\<close> (client/client.*, get.cpp): connecting with retries, pulling the list of servers, getting and setting
    keys; a get dials the server that the ring names and returns the value it answers. What is parsed is the whole array up to a zero, with
    what it held before the read.
  \<^item> \<open>Dcs_Heartbeat\<close> (heart_beat.*): the thread that reports a cache server to the master.

  \<^bold>\<open>The first version of the distributed cache\<close> (Project/DistributedCacheSystem; directory 0 of the three copies of the cache server and
  master1 of the two masters). A server keeps the keys it owns and copies of keys of others; the master tells every server when one joins or is lost, and
  the copies then become the values of the new owners, if the lost server is on the host of the last heartbeat.
  \<^item> \<open>Sentinel_Lru\<close> (LRU.hpp): the cache with two sentinels, a second interpretation of the contract of \<open>Lru_Contract\<close>.
  \<^item> \<open>Backup_Ring\<close> (consistenthash.hpp): the ring of owners, a second interpretation of the locale of rings, and the ring of backups.
  \<^item> \<open>Cache_Server1\<close> (WriteRead.hpp, HeartBeat.hpp, cache_server.*): the handlers of requests and of the master's commands. A thread that is created to
    send keys runs when it is created, which the code arranges by sleeping. The order of an \<open>unordered_map\<close> is that of an association list.
  \<^item> \<open>Cache_Failover\<close>: a stored pair is answered and copied once; when its owner is lost the server with the copy brings it to
    the new owner, whatever other keys go with it.
  \<^item> \<open>Cache_Loop\<close>: the event loop with its one shared argument (two events before a task runs leave one descriptor unread) and the heartbeat.
  \<^item> \<open>First_Master\<close>, \<open>Master_Rounds\<close> (master_basical.cpp, master_json.h): the flags and counters of the master; the locale \<open>telling\<close> states what a round of telling
    promises, and its two interpretations are a joining and a lost server.
  \<^item> \<open>Second_Master\<close> (the same files of master2): the mirrored list, and the messages by which it takes over from a silent first master.
  \<^item> \<open>First_Client\<close> (client.hpp): the client, which finds the new owner when a server refuses it.
  \<^item> \<open>Log_Queue\<close> (logfile.hpp): the log, a third interpretation of \<open>sem_guarded\<close>; the file holds the lines whole and in order.
  The last section of this theory puts master, server and ring together: a lost server's key is answered by its new owner.

  \<^bold>\<open>The chat room\<close> (\<open>Chat_Room\<close>: server.cc, client.cc): the event loop as a step relation and the threads of the client; a mistaken size ends the server at its
  first connection.

  \<^bold>\<open>The web server.\<close>
  \<^item> \<open>C_Strings\<close>: the C string functions on arrays that the parser uses.
  \<^item> \<open>Http_Conn\<close> (http_conn.*, reading half), \<open>Http_Parse\<close>, \<open>Http_Request\<close>: reading in pieces, splitting into lines, request line,
    headers and body; pieces and whole agree, a request is parsed to its parts, a body in a later piece is lost.
  \<^item> \<open>Http_Log\<close> (http_conn.*, the calls of the log): the lines a read logs and what the log makes of them; reading stays inside the
    buffer and returns, or fails at exactly the named places.
  \<^item> \<open>Http_Reply\<close> (http_conn.*, answering half), \<open>Http_Serve\<close>, \<open>Http_Files\<close>: the file or account page a request selects, the
    reply text, its transmission by partial writes.
  \<^item> \<open>Timer_List\<close> (lst_timer.h): the ordered doubly linked list refines a list of deadlines (locale \<open>timer_service\<close>,
    interpretation \<open>lst_timer\<close>). Its loops carry fuel, the address counter of the heap plus one, which is more than the
    nodes of the list; that they return is part of the theorem.
  \<^item> \<open>Sem_Guard\<close>, \<open>Web_Pools\<close> (locker.h, threadpool.h, sql_connection_pool.*): two clients of a container guarded by a semaphore
    (locale \<open>sem_guarded\<close>, interpretations \<open>tpool\<close> and \<open>cpool\<close>).
  \<^item> \<open>Block_Queue\<close> (block_queue.h), \<open>Web_Log\<close> (log.*): the queue of the log, the formatting, splitting and writing of lines, over days, failing \<open>fopen\<close> and a full queue.
  \<^item> \<open>Web_Server\<close> (main.c): the event loop over all of these, as a step relation of events, ends of rounds and
    the single stages of the workers, whose updates of the user count may be lost; the invariant ties the registered descriptors to live timers.

  \<^bold>\<open>Sorting\<close> (sort.cpp; \<open>Sort_Spec\<close> and \<open>Sort_Bubble\<close>, \<open>Sort_Select\<close>, \<open>Sort_Insert\<close>, \<open>Sort_Merge\<close>, \<open>Sort_Quick\<close>, \<open>Sort_Heap\<close>, \<open>Sort_Count\<close>):
  every routine returns the sorted vector without overflow or access outside, within the size limits stated, or the
  input on which it does not is given.

  \<^bold>\<open>Loops and fuel.\<close> Loops whose measure is visible are functions with a termination proof. Loops over answers of
  system calls recurse on the list of answers; \<open>No_Return\<close> says that the list ended inside the loop. Fuel appears only in the
  pointer structures, where it exceeds the number of nodes.

  \<^bold>\<open>Not modelled.\<close> The JSON library (json.h, json.hpp) is a parameter; so are MySQL, the file system and the
  sockets. BucketSort computes its bucket in floating point. Of Mini_DCS log.cpp only prints and the epoll wrapper only calls. The thread pool of the
  first version is the one of Mini_DCS with an array of the right size; its second master answers
  requests, once it has taken over, with a variant of the code of the first, and the connection between them is not modelled. The copies of the sources under the other directories of the cache servers, under master and
  client, and under the unit tests repeat the same components. APUE, UNP and the exercises of the network programming course are book code; CMake's files are
  generated.
\<close>

section \<open>Equivalence of the two caches\<close>

text \<open>
  C2. The two LRU caches of the repository, the one of Mini_DCS with null pointers at the ends and an eviction before the
  insertion, and the one of the first version with sentinel nodes and an eviction after it, agree: for every capacity from 1 to
  \<open>INT_MAX - 1\<close> and every sequence of reads and writes both succeed and return the same values. At capacity 0 they do not: the
  first write of the former dereferences the null pointer, that of the latter succeeds.
\<close>

theorem lru_caches_agree:
  "(0 < c \<and> c < INT_MAX \<longrightarrow>
     (\<exists>vs s t. run_ops lru_get lru_set (LruCache_init c) ops = Inr (vs, s)
       \<and> run_ops (lru1_get True) lru1_put (LRUCache_new c) ops = Inr (vs, t)))
   \<and> lru_set (LruCache_init 0) k v = Inl Null_Deref \<and> (\<exists>t. lru1_put (LRUCache_new 0) k v = Inr t)"
proof (intro conjI impI)
  assume c: "0 < c \<and> c < INT_MAX"
  have cap: "nat (lru_size (LruCache_init c)) = nat c" "nat (dl_capacity (LRUCache_new c)) = nat c"
    by (simp_all add: LruCache_init_def LRUCache_new_def)
  from c have b: "0 < c" "c < INT_MAX" "c \<le> INT_MAX" by auto
  from lru.run_ok [OF lru_init_state [OF b(1,3)], of ops] lru1.run_ok [OF lru1_new_state [OF b(1,2)], of ops]
  show "\<exists>vs s t. run_ops lru_get lru_set (LruCache_init c) ops = Inr (vs, s)
      \<and> run_ops (lru1_get True) lru1_put (LRUCache_new c) ops = Inr (vs, t)" unfolding cap by blast
qed (rule lru_zero_capacity lru1_put_zero_capacity)+

theorem lru_caches_agree_witness:
  "\<exists>vs s t. run_ops lru_get lru_set (LruCache_init 2) [Set_Op ''a'' ''1'', Set_Op ''b'' ''2'', Get_Op ''a'', Set_Op ''c'' ''3'', Get_Op ''b''] = Inr (vs, s)
    \<and> run_ops (lru1_get True) lru1_put (LRUCache_new 2) [Set_Op ''a'' ''1'', Set_Op ''b'' ''2'', Get_Op ''a'', Set_Op ''c'' ''3'', Get_Op ''b''] = Inr (vs, t)"
  using lru_caches_agree [of 2 "[Set_Op ''a'' ''1'', Set_Op ''b'' ''2'', Get_Op ''a'', Set_Op ''c'' ''3'', Get_Op ''b'']"]
  by (simp add: INT_MAX_def)

section \<open>Equivalence of the comparison sorts\<close>

text \<open>
  C15. The comparison sorts of sort.cpp agree: every one of them, in every variant (with early exit, with the last
  exchange as the bound, two-sided, with binary search, with gaps, top-down and bottom-up merging, with a random pivot
  or an explicit stack), returns the sorted permutation of a vector of at most \<open>2^30\<close> elements, with no access outside of it and
  no overflow of an index.
\<close>

theorem comparison_sorts_agree:
  assumes "length nums \<le> 2 ^ 30"
  shows "BubbleSort nums = Inr (sort nums) \<and> BubbleSort2 nums = Inr (sort nums) \<and> BubbleSort3 nums = Inr (sort nums)
    \<and> SelectSort nums = Inr (sort nums) \<and> SelectSort2 nums = Inr (sort nums)
    \<and> InsertSort nums = Inr (sort nums) \<and> InsertSort2 nums = Inr (sort nums) \<and> ShellSort nums = Inr (sort nums)
    \<and> MergeSort nums = Inr (sort nums) \<and> MergeSort2 nums = Inr (sort nums)
    \<and> (nums \<noteq> [] \<longrightarrow> QuickSort_Head nums 0 (length nums - 1) = Inr (sort nums))
    \<and> QuickSort rnd nums = Inr (sort nums) \<and> QuickSort2 nums = Inr (sort nums)"
  using bubble_sorts_sort [of nums] selection_sorts_sort [of nums] insertion_sorts_sort [OF assms] merge_sorts_sort [OF assms]
    quick_sorts_sort [of nums rnd] by blast

theorem comparison_sorts_agree_witness:
  "BubbleSort3 [3, 1, 2] = ShellSort [3, 1, 2] \<and> MergeSort2 [3, 1, 2] = QuickSort2 [3, 1, 2]
   \<and> SelectSort2 [3, 1, 2] = QuickSort_Head [3, 1, 2] 0 (length [3, 1, 2 :: int] - 1)"
  using comparison_sorts_agree [of "[3, 1, 2]"] by simp

section \<open>Recovery of the first version's cache\<close>

text \<open>The two halves: the loss is announced with the lost server erased, or with the old list.\<close>

lemma loss_announced:
  assumes "calm srv m" "x \<in> set srv" "only_silent (snd x) m" "y \<in> set srv" "y \<noteq> x"
  shows "set (others srv x) = set srv - {x}" and "\<exists>m1. hearts [(fd, y)] (hs_check m) =
      Inr ([(fd, Some REFLESH_IP1, map addr_of (if fst x = heartip m then others srv x else srv))], m1)"
proof -
  have "inj_on snd (set srv)" using assms(1) by (simp add: calm_def resting_def listed_def ports_ok_def distinct_map)
  then have "snd z \<noteq> snd x \<longleftrightarrow> z \<noteq> x" if "z \<in> set srv" for z using assms(2) that by (metis inj_onD)
  then show rest: "set (others srv x) = set srv - {x}" unfolding others_def set_filter by blast
  then have y: "y \<in> set (others srv x)" using assms(4,5) by blast
  then have "others srv x \<noteq> []" by (metis empty_iff empty_set)
  have "snd ` set [(fd, y)] \<subseteq> set (others srv x)" using y by simp
  from leave.round [OF found_losing [OF assms(1-3) \<open>others srv x \<noteq> []\<close>] this]
  show "\<exists>m1. hearts [(fd, y)] (hs_check m) =
      Inr ([(fd, Some REFLESH_IP1, map addr_of (if fst x = heartip m then others srv x else srv))], m1)"
    unfolding left_list_def by (auto simp del: hearts.simps)
qed

lemma loss_recovered:
  assumes rest: "set (others srv x) = set srv - {x}" and ports: "\<forall>z\<in>set srv. int (snd z) \<le> INT_MAX"
    and srv: "\<forall>z\<in>set srv. CHR '':'' \<notin> set (fst z)" "length srv \<le> 200" and y: "y \<in> set srv" "y \<noteq> x"
    and b: "curen_addr b = addr_of y" "lru1_state (c_BK b) ys" "lru1_state (c_LC b) xs" "dl_capacity (c_BK b) \<le> dl_capacity (c_LC b)"
    and ring: "c_ring b = RefreshIPList r (map addr_of srv)" "0 < virtualNodeNum r"
    and k: "map_of ys k = Some v" "GetServerIndex1 (c_ring b) k = Inr (addr_of x)"
    and env: "reaches env (addr_of ` (set srv - {x, y}))"
  shows "\<exists>evs b1 n. heart_command env REFLESH_IP1 (map addr_of (others srv x)) b = Inr (evs, False, b1)
    \<and> n \<in> set srv \<and> n \<noteq> x \<and> GetServerIndex1 (c_ring b1) k = Inr (addr_of n)
    \<and> (n = y \<longrightarrow> (\<exists>b2. handle_info env sock (get_info k) b1 = Inr ([Answer sock k v (v \<noteq> [])], b2)))
    \<and> (n \<noteq> y \<longrightarrow> (\<forall>d zs. lru1_state (c_LC d) zs \<longrightarrow> dl_capacity (c_BK b) \<le> dl_capacity (c_LC d) \<longrightarrow> backups_ok d \<longrightarrow>
         (\<exists>d1 d2. deliver env d (sent_to (addr_of n) evs) = Inr d1 \<and> handle_info env sock (get_info k) d1 = Inr ([Answer sock k v (v \<noteq> [])], d2))))"
proof -
  let ?ips = "map addr_of (others srv x)"
  have "map addr_of srv \<noteq> []" using y(1) by auto
  then have good: "ring1_good (c_ring b)" "ring1_points (c_ring b) \<noteq> Map.empty" "0 < virtualNodeNum (c_ring b)"
    using refreshed_good [OF _ ring(2), of "map addr_of srv"] ring by simp_all
  have "y \<in> set (others srv x)" using y rest by blast
  then have ne: "?ips \<noteq> []" by (metis empty_iff empty_set list.map_disc_iff)
  have len: "length ?ips \<le> 200" using le_trans [OF length_filter_le srv(2)] by (simp add: others_def)
  have "\<exists>p. get_ipport1 (addr_of z) = Inr p" if "z \<in> set srv" for z
    using get_ipport1_addr [of z] that srv(1) ports by blast
  then have addrs: "\<forall>a\<in>set ?ips. \<exists>p. get_ipport1 a = Inr p" using rest by simp
  have gone: "addr_of x \<notin> set ?ips" unfolding set_map rest image_iff by simp
  have "set ?ips - {curen_addr b} \<subseteq> addr_of ` (set srv - {x, y})" unfolding b(1) set_map rest by blast
  then have "reaches env (set ?ips - {curen_addr b})" using env unfolding reaches_def by blast
  from takes_over [OF b(2-4) k(1) good k(2) gone ne len addrs this, of sock]
  obtain evs b1 n where t: "reflesh_handler env ?ips b = Inr (evs, b1)" "GetServerIndex1 (c_ring b1) k = Inr n" "n \<in> set ?ips"
    "n = curen_addr b \<longrightarrow> (\<exists>b2. handle_info env sock (get_info k) b1 = Inr ([Answer sock k v (v \<noteq> [])], b2))"
    "n \<noteq> curen_addr b \<longrightarrow> (\<forall>d zs. lru1_state (c_LC d) zs \<longrightarrow> dl_capacity (c_BK b) \<le> dl_capacity (c_LC d) \<longrightarrow> backups_ok d \<longrightarrow>
         (\<exists>d1 d2. deliver env d (sent_to n evs) = Inr d1 \<and> handle_info env sock (get_info k) d1 = Inr ([Answer sock k v (v \<noteq> [])], d2)))"
    by (elim exE conjE) (rule that)
  have "heart_command env REFLESH_IP1 ?ips b = Inr (evs, False, b1)"
    using t(1) by (simp add: heart_command_def SHUTDOWN_CACHE1_def ADD_CACHE_def REFLESH_IP1_def)
  moreover obtain z where "n = addr_of z" "z \<in> set srv" "z \<noteq> x" using t(3) unfolding set_map rest by blast
  ultimately show ?thesis using t b(1) by (intro exI [of _ evs] exI [of _ b1] exI [of _ z]) simp
qed

text \<open>
  C38. A lost cache server. The heartbeats show the master that exactly the server \<open>x\<close> is silent; \<open>y\<close>, another server, has a key of
  \<open>x\<close> among its backups. Suppose \<open>x\<close> is on the host of the last heartbeat before the loss was noticed, and the remaining servers can be reached, whatever
  \<open>x\<close> itself does with connections. Then the next heartbeat of \<open>y\<close> is answered with the list without \<open>x\<close>, and carrying out that command brings the value to the new owner of
  the key, one of the remaining servers. If that is \<open>y\<close> itself it answers the next request for the key with the value; otherwise
  it does so after it has handled the messages \<open>y\<close> sent it, whatever it held before, if its cache is not smaller than that of the backups.
  If \<open>x\<close> is on another host, the answer is the old list, \<open>y\<close> sends nothing, and the key still belongs to the lost server.
\<close>

theorem lost_server_recovered:
  assumes m: "calm srv m" "x \<in> set srv" "only_silent (snd x) m"
    and srv: "\<forall>z\<in>set srv. CHR '':'' \<notin> set (fst z)" "length srv \<le> 200" and y: "y \<in> set srv" "y \<noteq> x"
    and b: "curen_addr b = addr_of y" "lru1_state (c_BK b) ys" "lru1_state (c_LC b) xs" "dl_capacity (c_BK b) \<le> dl_capacity (c_LC b)"
    and ring: "c_ring b = RefreshIPList r (map addr_of srv)" "0 < virtualNodeNum r"
    and k: "map_of ys k = Some v" "GetServerIndex1 (c_ring b) k = Inr (addr_of x)"
    and env: "reaches env (addr_of ` (set srv - {x, y}))"
  shows "(fst x = heartip m \<longrightarrow> (\<exists>m1 evs b1 n. hearts [(fd, y)] (hs_check m) = Inr ([(fd, Some REFLESH_IP1, map addr_of (others srv x))], m1)
    \<and> heart_command env REFLESH_IP1 (map addr_of (others srv x)) b = Inr (evs, False, b1)
    \<and> n \<in> set srv \<and> n \<noteq> x \<and> GetServerIndex1 (c_ring b1) k = Inr (addr_of n)
    \<and> (n = y \<longrightarrow> (\<exists>b2. handle_info env sock (get_info k) b1 = Inr ([Answer sock k v (v \<noteq> [])], b2)))
    \<and> (n \<noteq> y \<longrightarrow> (\<forall>d zs. lru1_state (c_LC d) zs \<longrightarrow> dl_capacity (c_BK b) \<le> dl_capacity (c_LC d) \<longrightarrow> backups_ok d \<longrightarrow>
         (\<exists>d1 d2. deliver env d (sent_to (addr_of n) evs) = Inr d1 \<and> handle_info env sock (get_info k) d1 = Inr ([Answer sock k v (v \<noteq> [])], d2))))))
    \<and> (fst x \<noteq> heartip m \<longrightarrow> (\<exists>m1 b1. hearts [(fd, y)] (hs_check m) = Inr ([(fd, Some REFLESH_IP1, map addr_of srv)], m1)
      \<and> heart_command env REFLESH_IP1 (map addr_of srv) b = Inr ([], False, b1) \<and> GetServerIndex1 (c_ring b1) k = Inr (addr_of x)))"
proof (intro conjI impI)
  note ann = loss_announced [OF m y]
  have ports: "\<forall>z\<in>set srv. int (snd z) \<le> INT_MAX" using m(1) by (simp add: calm_def resting_def listed_def ports_ok_def)
  note rec = loss_recovered [OF ann(1) ports srv y b ring k env]
  show "\<exists>m1 evs b1 n. hearts [(fd, y)] (hs_check m) = Inr ([(fd, Some REFLESH_IP1, map addr_of (others srv x))], m1)
    \<and> heart_command env REFLESH_IP1 (map addr_of (others srv x)) b = Inr (evs, False, b1)
    \<and> n \<in> set srv \<and> n \<noteq> x \<and> GetServerIndex1 (c_ring b1) k = Inr (addr_of n)
    \<and> (n = y \<longrightarrow> (\<exists>b2. handle_info env sock (get_info k) b1 = Inr ([Answer sock k v (v \<noteq> [])], b2)))
    \<and> (n \<noteq> y \<longrightarrow> (\<forall>d zs. lru1_state (c_LC d) zs \<longrightarrow> dl_capacity (c_BK b) \<le> dl_capacity (c_LC d) \<longrightarrow> backups_ok d \<longrightarrow>
         (\<exists>d1 d2. deliver env d (sent_to (addr_of n) evs) = Inr d1 \<and> handle_info env sock (get_info k) d1 = Inr ([Answer sock k v (v \<noteq> [])], d2))))"
    if "fst x = heartip m" using ann(2) [of fd, unfolded if_P [OF that]] rec [of sock] by blast
  have "map addr_of srv \<noteq> []" using y(1) by auto
  from reflesh_unchanged [OF ring(1) this ring(2), of env] obtain b1 where
    "reflesh_handler env (map addr_of srv) b = Inr ([], b1)" "GetServerIndex1 (c_ring b1) k = Inr (addr_of x)" using k(2) by auto
  then have "heart_command env REFLESH_IP1 (map addr_of srv) b = Inr ([], False, b1) \<and> GetServerIndex1 (c_ring b1) k = Inr (addr_of x)"
    by (simp add: heart_command_def SHUTDOWN_CACHE1_def ADD_CACHE_def REFLESH_IP1_def)
  then show "\<exists>m1 b1. hearts [(fd, y)] (hs_check m) = Inr ([(fd, Some REFLESH_IP1, map addr_of srv)], m1)
      \<and> heart_command env REFLESH_IP1 (map addr_of srv) b = Inr ([], False, b1) \<and> GetServerIndex1 (c_ring b1) k = Inr (addr_of x)"
    if "fst x \<noteq> heartip m" using ann(2) [of fd, unfolded if_not_P [OF that]] by blast
qed

theorem lost_server_recovered_witness:
  "\<exists>m1 evs b1 b2. hearts [(6, ''127.0.0.1'', 8001)] (hs_check (example_master [(''127.0.0.1'', 8000), (''127.0.0.1'', 8001)]))
      = Inr ([(6, Some REFLESH_IP1, [addr_of (''127.0.0.1'', 8001)])], m1)
    \<and> heart_command (refusing_env (addr_of (''127.0.0.1'', 8000))) REFLESH_IP1 [addr_of (''127.0.0.1'', 8001)]
        (example_server (addr_of (''127.0.0.1'', 8001)) (example_bk (addr_of (''127.0.0.1'', 8000) @ ''#'' @ to_string (int 0)))
          [addr_of (''127.0.0.1'', 8000), addr_of (''127.0.0.1'', 8001)]) = Inr (evs, False, b1)
    \<and> handle_info (refusing_env (addr_of (''127.0.0.1'', 8000))) 7 (get_info (addr_of (''127.0.0.1'', 8000) @ ''#'' @ to_string (int 0))) b1
        = Inr ([Answer 7 (addr_of (''127.0.0.1'', 8000) @ ''#'' @ to_string (int 0)) ''v'' True], b2)"
proof -
  let ?x = "(''127.0.0.1'', 8000) :: server" and ?y = "(''127.0.0.1'', 8001) :: server"
  let ?k = "addr_of ?x @ ''#'' @ to_string (int 0)" and ?m = "example_master [?x, ?y]"
  let ?b = "example_server (addr_of ?y) (example_bk ?k) [addr_of ?x, addr_of ?y]"
  have m: "calm [?x, ?y] ?m" by (rule example_calm) (simp add: ports_ok_def INT_MAX_def)
  have h: "fst ?x = heartip ?m" "only_silent (snd ?x) ?m" by (simp_all add: example_silent) (simp add: example_master_def)
  have e: "reaches (refusing_env (addr_of ?x)) (addr_of ` (set [?x, ?y] - {?x, ?y}))" by (rule refusing_reaches) simp
  have o: "others [?x, ?y] ?x = [?y]" by (simp add: others_def)
  have bk: "lru1_state (c_BK ?b) [(?k, ''v'')]" "lru1_state (c_LC ?b) []" "dl_capacity (c_BK ?b) \<le> dl_capacity (c_LC ?b)"
    using example_bk_state [of ?k] by simp_all
  have v: "0 < virtualNodeNum (ConsistentHash_new 2)" by (simp add: ConsistentHash_new_def)
  have s: "\<forall>z\<in>set [?x, ?y]. CHR '':'' \<notin> set (fst z)" "length [?x, ?y] \<le> 200" "?y \<in> set [?x, ?y]" "?y \<noteq> ?x" "curen_addr ?b = addr_of ?y" by simp_all
  have x: "?x \<in> set [?x, ?y]" by simp
  have kv: "map_of [(?k, ''v'')] ?k = Some ''v''" by simp
  have c: "c_ring ?b = RefreshIPList (ConsistentHash_new 2) (map addr_of [?x, ?y])" by simp
  have own: "GetServerIndex1 (c_ring ?b) ?k = Inr (addr_of ?x)" using own_node_owner [OF v, of "addr_of ?x" "[addr_of ?y]"] by simp
  obtain m1 evs b1 n where r: "hearts [(6, ?y)] (hs_check ?m) = Inr ([(6, Some REFLESH_IP1, map addr_of [?y])], m1)"
    "heart_command (refusing_env (addr_of (''127.0.0.1'', 8000))) REFLESH_IP1 (map addr_of [?y]) ?b = Inr (evs, False, b1)" "n \<in> set [?x, ?y]" "n \<noteq> ?x"
    "n = ?y \<longrightarrow> (\<exists>b2. handle_info (refusing_env (addr_of (''127.0.0.1'', 8000))) 7 (get_info ?k) b1 = Inr ([Answer 7 ?k ''v'' (''v'' \<noteq> [])], b2))"
    using lost_server_recovered [OF m x h(2) s bk c v kv own e, of 6 7, unfolded o] h(1) by blast
  then show ?thesis by auto
qed

end
